(* ===== verification/Zpc_Prelude.thy ===== *)
theory Zpc_Prelude
  imports Main "HOL-Library.Word" "HOL-Library.Multiset"
begin

text \<open>
  What the component theories share: the names of the machine types, the collections the
  automation is gathered in, and generic facts on lists (order of occurrence, updates, folds,
  first match) that say nothing about the program.
\<close>

unbundle bit_operations_syntax

type_synonym u8 = "8 word"
type_synonym u16 = "16 word"
type_synonym u32 = "32 word"
type_synonym u64 = "64 word"
type_synonym i32 = "32 word"

named_theorems enum_simps \<open>enumeration codes and their tests\<close>
named_theorems frame_simps \<open>which parts of a state an operation leaves alone\<close>
named_theorems wf_intros \<open>preservation of the well-formedness invariants\<close>

section \<open>Order of occurrence in a list\<close>

text \<open>\<open>before xs a b\<close>: some occurrence of \<open>a\<close> stands before some occurrence of \<open>b\<close>.\<close>

fun before :: "'a list \<Rightarrow> 'a \<Rightarrow> 'a \<Rightarrow> bool" where
  "before [] a b = False"
| "before (x # xs) a b = (x = a \<and> b \<in> set xs \<or> before xs a b)"

lemma before_append:
  "before (xs @ ys) a b = (before xs a b \<or> before ys a b \<or> a \<in> set xs \<and> b \<in> set ys)"
  by (induction xs) auto

lemma before_snoc [simp]: "before (xs @ [x]) a b = (before xs a b \<or> a \<in> set xs \<and> b = x)"
  by (simp add: before_append)

lemma before_in_set: "before xs a b \<Longrightarrow> a \<in> set xs \<and> b \<in> set xs"
  by (induction xs) auto

lemma before_asym: "distinct xs \<Longrightarrow> before xs a b \<Longrightarrow> \<not> before xs b a"
  by (induction xs) (auto dest: before_in_set)

lemma before_irrefl: "distinct xs \<Longrightarrow> \<not> before xs a a"
  by (induction xs) (auto dest: before_in_set)

lemma before_total:
  "a \<in> set xs \<Longrightarrow> b \<in> set xs \<Longrightarrow> a \<noteq> b \<Longrightarrow> before xs a b \<or> before xs b a"
  by (induction xs) auto

lemma before_filter: "before xs a b \<Longrightarrow> P a \<Longrightarrow> P b \<Longrightarrow> before (filter P xs) a b"
  by (induction xs) auto

lemma before_filterD: "before (filter P xs) a b \<Longrightarrow> before xs a b"
  by (induction xs) (auto split: if_splits)

lemma before_upt: "before [0..<n] a b \<longleftrightarrow> a < b \<and> b < n"
  by (induction n) auto

lemma before_left: "distinct (xs @ p # ys) \<Longrightarrow> before (xs @ p # ys) q p \<Longrightarrow> q \<in> set xs"
  by (auto simp: before_append dest: before_in_set)

lemma before_right: "distinct (xs @ p # ys) \<Longrightarrow> before (xs @ p # ys) p q \<Longrightarrow> q \<in> set ys"
  by (auto simp: before_append dest: before_in_set)

section \<open>Lists as arrays\<close>

lemma length_foldl_inv:
  assumes "\<And>s x. length (f s x) = length s"
  shows "length (foldl f s xs) = length s"
  using assms by (induction xs arbitrary: s) auto

lemma foldl_invariant:
  assumes "P s" and "\<And>s x. x \<in> set xs \<Longrightarrow> P s \<Longrightarrow> P (f s x)"
  shows "P (foldl f s xs)"
  using assms by (induction xs arbitrary: s) auto

lemma map_eq_upt: "map f xs = [0..<length xs] \<longleftrightarrow> (\<forall>i < length xs. f (xs ! i) = i)"
proof
  assume eq: "map f xs = [0..<length xs]"
  show "\<forall>i < length xs. f (xs ! i) = i"
  proof (intro allI impI)
    fix i assume i: "i < length xs"
    have "map f xs ! i = [0..<length xs] ! i" by (simp only: eq)
    with i show "f (xs ! i) = i" by (simp only: nth_map nth_upt)
  qed
qed (rule nth_equalityI, simp_all)

lemma list_update_both [simp]:
  "i < length xs \<Longrightarrow> xs[i := v] ! j = (if i = j then v else xs ! j)"
  by (simp add: nth_list_update)

lemma sum_list_update_nat:
  "i < length xs \<Longrightarrow> sum_list (map h (xs[i := v])) + h (xs ! i) = sum_list (map h xs) + (h v :: nat)"
proof (induction xs arbitrary: i)
  case (Cons x xs)
  then show ?case by (cases i) fastforce+
qed simp

text \<open>Swapping two cells, as \<open>std::swap(xs[i], xs[j])\<close> does.\<close>

definition swap_at :: "nat \<Rightarrow> nat \<Rightarrow> 'a list \<Rightarrow> 'a list" where
  "swap_at i j xs = xs[i := xs ! j, j := xs ! i]"

lemma length_swap_at [simp]: "length (swap_at i j xs) = length xs"
  by (simp add: swap_at_def)

lemma mset_swap_at: "i < length xs \<Longrightarrow> j < length xs \<Longrightarrow> mset (swap_at i j xs) = mset xs"
  by (simp add: swap_at_def mset_swap)

lemma set_swap_at: "i < length xs \<Longrightarrow> j < length xs \<Longrightarrow> set (swap_at i j xs) = set xs"
  by (metis mset_swap_at set_mset_mset)

lemma distinct_swap_at:
  "i < length xs \<Longrightarrow> j < length xs \<Longrightarrow> distinct (swap_at i j xs) = distinct xs"
  by (metis mset_swap_at mset_eq_imp_distinct_iff)

lemma swap_at_0_nth: "xs \<noteq> [] \<Longrightarrow> j < length xs \<Longrightarrow> hd (swap_at 0 j xs) = xs ! j"
  by (cases xs; cases j) (auto simp: swap_at_def)

lemma foldl_index_less:
  assumes "b < n" and "\<And>b k. b < n \<Longrightarrow> k \<in> set ks \<Longrightarrow> f b k < n"
  shows "foldl f b ks < (n::nat)"
  using assms by (induction ks arbitrary: b) auto

text \<open>
  A distinct list of numbers below \<open>n\<close> that is as long as \<open>n\<close> lists them all.
\<close>

lemma distinct_below_full:
  assumes "distinct xs" and "set xs \<subseteq> {0..<n}" and "length xs = n"
  shows "set xs = {0..<n}"
  using assms by (metis card_atLeastLessThan card_subset_eq distinct_card finite_atLeastLessThan
      minus_nat.diff_0)

section \<open>First match\<close>

text \<open>The index a search loop with a \<open>break\<close> stops at.\<close>

fun find_index :: "('a \<Rightarrow> bool) \<Rightarrow> 'a list \<Rightarrow> nat option" where
  "find_index P [] = None"
| "find_index P (x # xs) = (if P x then Some 0 else map_option Suc (find_index P xs))"

lemma find_index_Some:
  "find_index P xs = Some i \<Longrightarrow> i < length xs \<and> P (xs ! i) \<and> (\<forall>j < i. \<not> P (xs ! j))"
proof (induction xs arbitrary: i)
  case (Cons x xs)
  then show ?case
    by (cases i) (auto split: if_splits simp: less_Suc_eq_0_disj)
qed simp

lemma find_index_None: "find_index P xs = None \<longleftrightarrow> (\<forall>x \<in> set xs. \<not> P x)"
  by (induction xs) auto

lemma find_index_None_nth: "find_index P xs = None \<longleftrightarrow> (\<forall>i < length xs. \<not> P (xs ! i))"
  by (simp add: find_index_None all_set_conv_all_nth)

lemma find_index_append:
  "find_index P (xs @ ys) = (case find_index P xs of
     Some i \<Rightarrow> Some i | None \<Rightarrow> map_option ((+) (length xs)) (find_index P ys))"
  by (induction xs) (auto split: option.splits simp: map_option_case)

lemma find_index_cong:
  "length xs = length ys \<Longrightarrow> (\<And>i. i < length xs \<Longrightarrow> P (xs ! i) = Q (ys ! i))
    \<Longrightarrow> find_index P xs = find_index Q ys"
proof (induction xs ys rule: list_induct2)
  case (Cons x xs y ys)
  have "P x = Q y" using Cons.prems [of 0] by simp
  moreover have "find_index P xs = find_index Q ys"
    using Cons.prems [of "Suc _"] by (intro Cons.IH) auto
  ultimately show ?case by simp
qed simp

text \<open>To name the result of a run of which one projection has been evaluated.\<close>

lemma map_option_SomeE:
  assumes "map_option f x = Some y"
  obtains z where "x = Some z" and "f z = y"
  using assms by (cases x) auto

section \<open>Small words\<close>

lemma u32_of_nat_inj:
  "a < 2 ^ 32 \<Longrightarrow> b < 2 ^ 32 \<Longrightarrow> (of_nat a :: u32) = of_nat b \<longleftrightarrow> a = b"
  by (simp add: word_of_nat_eq_iff take_bit_nat_eq_self)

lemma u32_of_nat_1: "a < 2 ^ 32 \<Longrightarrow> (of_nat a :: u32) = 1 \<longleftrightarrow> a = 1"
  using u32_of_nat_inj [of a 1] by simp

lemma u64_of_nat_inj:
  "a < 2 ^ 64 \<Longrightarrow> b < 2 ^ 64 \<Longrightarrow> (of_nat a :: u64) = of_nat b \<longleftrightarrow> a = b"
  by (simp add: word_of_nat_eq_iff take_bit_nat_eq_self)

section \<open>Rounding up to a power of two\<close>

text \<open>Shifting and joining a word spreads each bit to all lower positions.\<close>

lemma smear_step:
  assumes "\<And>n. bit x n \<longleftrightarrow> (\<exists>d < w. bit m (n + d))"
  shows "bit (x OR drop_bit w x) n \<longleftrightarrow> (\<exists>d < 2 * w. bit (m::'a::len word) (n + d))"
proof
  assume "bit (x OR drop_bit w x) n"
  then obtain d where "d < w" "bit m (n + d) \<or> bit m (w + n + d)"
    by (auto simp: bit_simps assms)
  then show "\<exists>d < 2 * w. bit m (n + d)"
    by (metis add.assoc add.commute add_less_cancel_left mult_2 trans_less_add2)
next
  assume "\<exists>d < 2 * w. bit m (n + d)"
  then obtain d where d: "d < 2 * w" "bit m (n + d)" by blast
  show "bit (x OR drop_bit w x) n"
  proof (cases "d < w")
    case False
    then have "d - w < w" "w + n + (d - w) = n + d" using d(1) by auto
    then have "bit x (w + n)" using d(2) by (metis assms)
    then show ?thesis by (simp add: bit_simps)
  qed (use d in \<open>auto simp: bit_simps assms\<close>)
qed

lemma smear_mask:
  fixes m s :: "'a::len word"
  assumes s: "\<And>n. bit s n \<longleftrightarrow> (\<exists>d < LENGTH('a). bit m (n + d))" and m: "m \<noteq> 0"
  obtains t where "t < LENGTH('a)" and "s = mask (Suc t)" and "2 ^ t \<le> unat m" and "unat m < 2 ^ Suc t"
proof -
  define t where "t = Max {j. bit m j}"
  have fin: "finite {j. bit m j}"
    by (rule finite_subset [of _ "{0..<LENGTH('a)}"]) (auto dest: bit_imp_le_length)
  moreover have "{j. bit m j} \<noteq> {}" using m by (auto simp: bit_eq_iff [of m])
  ultimately have t: "bit m t" "\<And>j. bit m j \<Longrightarrow> j \<le> t"
    using Max_in [of "{j. bit m j}"] Max_ge by (auto simp: t_def)
  have len: "t < LENGTH('a)" using bit_imp_le_length [OF t(1)] .
  have "bit s n \<longleftrightarrow> n \<le> t" for n
  proof
    assume "bit s n"
    then show "n \<le> t" using t(2) by (auto simp: s dest: add_leD1)
  next
    assume "n \<le> t"
    then have "bit m (n + (t - n))" "t - n < LENGTH('a)" using t(1) len by auto
    then show "bit s n" using s by blast
  qed
  then have "s = mask (Suc t)" using len by (intro bit_word_eqI) (simp add: bit_mask_iff less_Suc_eq_le)
  moreover have "2 ^ t \<le> unat m"
  proof (rule ccontr)
    assume "\<not> 2 ^ t \<le> unat m"
    then have "\<not> bit (unat m) t" by (simp add: bit_iff_odd)
    then show False using t(1) by (simp add: bit_unsigned_iff)
  qed
  moreover have "take_bit (Suc t) m = m"
    using t(2) by (intro bit_word_eqI) (auto simp: bit_simps less_Suc_eq_le)
  then have "unat m = take_bit (Suc t) (unat m)" by (metis unsigned_take_bit_eq)
  then have "unat m < 2 ^ Suc t" by (metis take_bit_nat_less_exp)
  ultimately show ?thesis using that len by blast
qed

lemma mset_filter_or:
  "distinct xs \<Longrightarrow> e \<in> set xs \<Longrightarrow> \<not> P e \<Longrightarrow> mset (filter (\<lambda>i. P i \<or> i = e) xs) = add_mset e (mset (filter P xs))"
proof (induction xs)
  case (Cons x xs)
  show ?case
  proof (cases "x = e")
    case True
    then have "filter (\<lambda>i. P i \<or> i = e) xs = filter P xs" using Cons.prems by (intro filter_cong) auto
    then show ?thesis using True Cons.prems by simp
  qed (use Cons in auto)
qed simp

end
