(* ===== verification/Async_Types.thy ===== *)
theory Async_Types
  imports Zpc_Prelude
begin

text \<open>
  The enumerations and plain data of \<open>execution/AsyncRuntime.hpp\<close>: execution domains, backends,
  queue classes, task status, endpoints with the functions that make them, and task
  descriptors. Native handles are opaque addresses (\<open>u64\<close>, null is \<open>0\<close>); the signed
  identifiers of nodes, processes, devices and streams are integers.
\<close>

datatype async_domain =
  Dom_control | Dom_inter_node | Dom_process | Dom_thread | Dom_compute | Dom_graphics

datatype async_backend =
  Be_inline_host | Be_thread_pool | Be_asio | Be_process | Be_cuda | Be_nccl | Be_rocm
| Be_sycl | Be_vulkan | Be_custom

datatype queue_class =
  Qc_control | Qc_io | Qc_compute | Qc_transfer | Qc_graphics | Qc_present | Qc_collective
| Qc_copy

datatype task_status =
  St_pending | St_running | St_suspended | St_completed | St_cancelled | St_failed

definition is_terminal :: "task_status \<Rightarrow> bool" where
  "is_terminal s \<longleftrightarrow> s = St_completed \<or> s = St_cancelled \<or> s = St_failed"

lemma is_terminal_simps [simp, enum_simps]:
  "is_terminal St_completed" "is_terminal St_cancelled" "is_terminal St_failed"
  "\<not> is_terminal St_pending" "\<not> is_terminal St_running" "\<not> is_terminal St_suspended"
  by (simp_all add: is_terminal_def)

datatype poll_status = Poll_suspend | Poll_completed | Poll_cancelled | Poll_failed

record endpoint =
  ep_backend :: async_backend
  ep_queue :: queue_class
  ep_node :: int
  ep_process :: int
  ep_device :: int
  ep_stream :: int
  ep_nativeHandle :: u64
  ep_label :: string

definition make_host_endpoint :: "async_backend \<Rightarrow> queue_class \<Rightarrow> string \<Rightarrow> endpoint" where
  "make_host_endpoint b q l =
     \<lparr>ep_backend = b, ep_queue = q, ep_node = 0, ep_process = -1, ep_device = -1,
      ep_stream = -1, ep_nativeHandle = 0, ep_label = l\<rparr>"

definition make_asio_endpoint :: "int \<Rightarrow> int \<Rightarrow> u64 \<Rightarrow> string \<Rightarrow> endpoint" where
  "make_asio_endpoint n p ctx l =
     \<lparr>ep_backend = Be_asio, ep_queue = Qc_io, ep_node = n, ep_process = p, ep_device = -1,
      ep_stream = -1, ep_nativeHandle = ctx, ep_label = l\<rparr>"

definition make_process_endpoint :: "int \<Rightarrow> int \<Rightarrow> u64 \<Rightarrow> string \<Rightarrow> endpoint" where
  "make_process_endpoint n p h l =
     \<lparr>ep_backend = Be_process, ep_queue = Qc_control, ep_node = n, ep_process = p,
      ep_device = -1, ep_stream = -1, ep_nativeHandle = h, ep_label = l\<rparr>"

definition make_cuda_endpoint :: "int \<Rightarrow> int \<Rightarrow> u64 \<Rightarrow> queue_class \<Rightarrow> string \<Rightarrow> endpoint" where
  "make_cuda_endpoint d s h q l =
     \<lparr>ep_backend = Be_cuda, ep_queue = q, ep_node = 0, ep_process = -1, ep_device = d,
      ep_stream = s, ep_nativeHandle = h, ep_label = l\<rparr>"

definition make_nccl_endpoint :: "int \<Rightarrow> int \<Rightarrow> u64 \<Rightarrow> string \<Rightarrow> endpoint" where
  "make_nccl_endpoint d s c l =
     \<lparr>ep_backend = Be_nccl, ep_queue = Qc_collective, ep_node = 0, ep_process = -1,
      ep_device = d, ep_stream = s, ep_nativeHandle = c, ep_label = l\<rparr>"

definition make_rocm_endpoint :: "int \<Rightarrow> int \<Rightarrow> u64 \<Rightarrow> queue_class \<Rightarrow> string \<Rightarrow> endpoint" where
  "make_rocm_endpoint d s h q l =
     \<lparr>ep_backend = Be_rocm, ep_queue = q, ep_node = 0, ep_process = -1, ep_device = d,
      ep_stream = s, ep_nativeHandle = h, ep_label = l\<rparr>"

definition make_sycl_endpoint :: "int \<Rightarrow> int \<Rightarrow> u64 \<Rightarrow> queue_class \<Rightarrow> string \<Rightarrow> endpoint" where
  "make_sycl_endpoint d s h q l =
     \<lparr>ep_backend = Be_sycl, ep_queue = q, ep_node = 0, ep_process = -1, ep_device = d,
      ep_stream = s, ep_nativeHandle = h, ep_label = l\<rparr>"

definition make_vulkan_endpoint :: "int \<Rightarrow> int \<Rightarrow> u64 \<Rightarrow> queue_class \<Rightarrow> string \<Rightarrow> endpoint" where
  "make_vulkan_endpoint d f h q l =
     \<lparr>ep_backend = Be_vulkan, ep_queue = q, ep_node = 0, ep_process = -1, ep_device = d,
      ep_stream = f, ep_nativeHandle = h, ep_label = l\<rparr>"

record task_desc =
  td_label :: string
  td_domain :: async_domain
  td_queue :: queue_class
  td_priority :: int
  td_grainSize :: nat
  td_profile :: bool

definition default_task_desc :: task_desc where
  "default_task_desc =
     \<lparr>td_label = [], td_domain = Dom_control, td_queue = Qc_control, td_priority = 0,
      td_grainSize = 1, td_profile = False\<rparr>"

end
