(* ===== verification/Exec_Graph.thy ===== *)
theory Exec_Graph
  imports Async_Types
begin

text \<open>
  \<open>execution/ExecutionGraph.hpp\<close>: the declarative pass graph and its compiler. This theory holds
  the data, the builder and the whole of \<open>ExecutionGraph::compile\<close>, cut at the numbered stages
  of the source: hazard edges and adjacency (1), cost hints (1b), Kahn's algorithm (2), queue
  classes (3), lanes (4), timelines and synchronisation edges (5). Vectors are lists, pass
  indices and lane ids are naturals, byte counts and cycle estimates are 64-bit words.
\<close>

section \<open>Access modes and hazards\<close>

datatype access_mode = Am_none | Am_read | Am_write | Am_read_write

fun access_code :: "access_mode \<Rightarrow> u8" where
  "access_code Am_none = 0"
| "access_code Am_read = 1"
| "access_code Am_write = 2"
| "access_code Am_read_write = 3"

definition involves_read :: "access_mode \<Rightarrow> bool" where
  "involves_read m \<longleftrightarrow> access_code m AND access_code Am_read \<noteq> 0"

definition involves_write :: "access_mode \<Rightarrow> bool" where
  "involves_write m \<longleftrightarrow> access_code m AND access_code Am_write \<noteq> 0"

lemma involves_read_iff [enum_simps]: "involves_read m \<longleftrightarrow> m = Am_read \<or> m = Am_read_write"
  by (cases m) (simp_all add: involves_read_def)

lemma involves_write_iff [enum_simps]: "involves_write m \<longleftrightarrow> m = Am_write \<or> m = Am_read_write"
  by (cases m) (simp_all add: involves_write_def)

datatype access_domain =
  Ad_host_sequential | Ad_host_parallel | Ad_device_compute | Ad_device_graphics
| Ad_device_transfer | Ad_device_copy | Ad_any

datatype hazard_kind = Hz_none | Hz_read_after_write | Hz_write_after_read | Hz_write_after_write

definition classify_hazard :: "access_mode \<Rightarrow> access_mode \<Rightarrow> hazard_kind" where
  "classify_hazard earlier later =
     (let eW = involves_write earlier; lW = involves_write later; lR = involves_read later in
      if eW \<and> lR \<and> \<not> lW then Hz_read_after_write
      else if eW \<and> lW then Hz_write_after_write
      else if \<not> eW \<and> lW then Hz_write_after_read
      else Hz_none)"

section \<open>Resources, accesses, cost hints, passes\<close>

type_synonym resource_handle = u64

definition handle_valid :: "resource_handle \<Rightarrow> bool" where
  "handle_valid h \<longleftrightarrow> h \<noteq> 0"

record resource_descriptor =
  rd_label :: string
  rd_sizeBytes :: u64
  rd_initialDomain :: access_domain
  rd_transient :: bool

record access_decl =
  ac_resource :: resource_handle
  ac_mode :: access_mode
  ac_domain :: access_domain
  ac_offset :: u64
  ac_length :: u64

type_synonym hardware_affinity = u32

definition Hw_none :: hardware_affinity where "Hw_none = 0"
definition Hw_alu :: hardware_affinity where "Hw_alu = push_bit 0 1"
definition Hw_sfu :: hardware_affinity where "Hw_sfu = push_bit 1 1"
definition Hw_rop :: hardware_affinity where "Hw_rop = push_bit 2 1"
definition Hw_texture :: hardware_affinity where "Hw_texture = push_bit 3 1"
definition Hw_rt_core :: hardware_affinity where "Hw_rt_core = push_bit 4 1"
definition Hw_tensor_core :: hardware_affinity where "Hw_tensor_core = push_bit 5 1"
definition Hw_dma :: hardware_affinity where "Hw_dma = push_bit 6 1"
definition Hw_host_cpu :: hardware_affinity where "Hw_host_cpu = push_bit 7 1"

lemmas hw_flag_defs [enum_simps] =
  Hw_none_def Hw_alu_def Hw_sfu_def Hw_rop_def Hw_texture_def Hw_rt_core_def
  Hw_tensor_core_def Hw_dma_def Hw_host_cpu_def

definition hw_or :: "hardware_affinity \<Rightarrow> hardware_affinity \<Rightarrow> hardware_affinity" where
  "hw_or a b = a OR b"

definition hw_and :: "hardware_affinity \<Rightarrow> hardware_affinity \<Rightarrow> hardware_affinity" where
  "hw_and a b = a AND b"

definition has_affinity :: "hardware_affinity \<Rightarrow> hardware_affinity \<Rightarrow> bool" where
  "has_affinity s f \<longleftrightarrow> s AND f \<noteq> 0"

record cost_hint =
  ch_estimatedCycles :: u64
  ch_memoryBytesRead :: u64
  ch_memoryBytesWritten :: u64
  ch_affinity :: hardware_affinity
  ch_threadGroupCount :: u32
  ch_sharedMemPerGroup :: u32
  ch_userProvided :: bool

definition default_cost_hint :: cost_hint where
  "default_cost_hint =
     \<lparr>ch_estimatedCycles = 0, ch_memoryBytesRead = 0, ch_memoryBytesWritten = 0,
      ch_affinity = Hw_none, ch_threadGroupCount = 0, ch_sharedMemPerGroup = 0,
      ch_userProvided = False\<rparr>"

definition count_access :: "cost_hint \<Rightarrow> access_decl \<Rightarrow> cost_hint" where
  "count_access hint acc =
     (let bytes = (if ac_length acc > 0 then ac_length acc else 0);
          hint = (if involves_read (ac_mode acc)
                  then hint\<lparr>ch_memoryBytesRead := ch_memoryBytesRead hint + bytes\<rparr> else hint)
      in if involves_write (ac_mode acc)
         then hint\<lparr>ch_memoryBytesWritten := ch_memoryBytesWritten hint + bytes\<rparr> else hint)"

fun domain_affinity :: "access_domain \<Rightarrow> hardware_affinity" where
  "domain_affinity Ad_device_compute = Hw_alu"
| "domain_affinity Ad_device_graphics = hw_or Hw_alu Hw_rop"
| "domain_affinity Ad_device_transfer = Hw_dma"
| "domain_affinity Ad_device_copy = Hw_dma"
| "domain_affinity Ad_host_sequential = Hw_host_cpu"
| "domain_affinity Ad_host_parallel = Hw_host_cpu"
| "domain_affinity Ad_any = Hw_alu"

definition deduce_cost_hint :: "access_decl list \<Rightarrow> access_domain \<Rightarrow> cost_hint" where
  "deduce_cost_hint accesses preferred =
     (let hint = foldl count_access default_cost_hint accesses;
          hint = hint\<lparr>ch_affinity := domain_affinity preferred\<rparr>;
          total = ch_memoryBytesRead hint + ch_memoryBytesWritten hint
      in hint\<lparr>ch_estimatedCycles := (if total > 0 then (total + 63) div 64 else 1)\<rparr>)"

text \<open>
  The callback is a parameter of the pass type: its only use by the graph is to be called (or
  skipped when it is empty) when the pass is executed.
\<close>

record 'cb pass_node =
  pn_index :: nat
  pn_label :: string
  pn_callback :: "'cb option"
  pn_accesses :: "access_decl list"
  pn_preferredDomain :: access_domain
  pn_priority :: int
  pn_exclusiveLane :: bool
  pn_costHint :: cost_hint

definition default_pass :: "'cb pass_node" where
  "default_pass =
     \<lparr>pn_index = 0, pn_label = [], pn_callback = None, pn_accesses = [],
      pn_preferredDomain = Ad_any, pn_priority = 0, pn_exclusiveLane = False,
      pn_costHint = default_cost_hint\<rparr>"

section \<open>The builder\<close>

record 'cb graph =
  eg_nextResourceId :: u64
  eg_passes :: "'cb pass_node list"
  eg_resources :: "(resource_handle \<times> resource_descriptor) list"

definition empty_graph :: "'cb graph" where
  "empty_graph = \<lparr>eg_nextResourceId = 1, eg_passes = [], eg_resources = []\<rparr>"

definition importResource :: "'cb graph \<Rightarrow> resource_descriptor \<Rightarrow> 'cb graph \<times> resource_handle" where
  "importResource g desc =
     (let h = eg_nextResourceId g in
      (g\<lparr>eg_nextResourceId := h + 1, eg_resources := eg_resources g @ [(h, desc)]\<rparr>, h))"

definition createTransientResource ::
  "'cb graph \<Rightarrow> string \<Rightarrow> u64 \<Rightarrow> access_domain \<Rightarrow> 'cb graph \<times> resource_handle" where
  "createTransientResource g l bytes ad =
     importResource g
       \<lparr>rd_label = l, rd_sizeBytes = bytes, rd_initialDomain = ad, rd_transient = True\<rparr>"

definition addPass :: "'cb graph \<Rightarrow> string \<Rightarrow> 'cb graph \<times> nat" where
  "addPass g l =
     (let i = length (eg_passes g) in
      (g\<lparr>eg_passes := eg_passes g @ [default_pass\<lparr>pn_index := i, pn_label := l\<rparr>]\<rparr>, i))"

definition addPassWith ::
  "'cb graph \<Rightarrow> string \<Rightarrow> access_decl list \<Rightarrow> 'cb option \<Rightarrow> 'cb graph \<times> nat" where
  "addPassWith g l accesses cb =
     (let (g, i) = addPass g l in
      (g\<lparr>eg_passes := (eg_passes g)
           [i := (eg_passes g ! i)\<lparr>pn_accesses := accesses, pn_callback := cb\<rparr>]\<rparr>, i))"

definition numPasses :: "'cb graph \<Rightarrow> nat" where
  "numPasses g = length (eg_passes g)"

definition numResources :: "'cb graph \<Rightarrow> nat" where
  "numResources g = length (eg_resources g)"

text \<open>
  What the builder guarantees and the compiler relies on: the \<open>index\<close> of a pass is its position,
  so every index the compiler subscripts its vectors with is in range.
\<close>

definition wf_graph :: "'cb graph \<Rightarrow> bool" where
  "wf_graph g \<longleftrightarrow> (\<forall>i < length (eg_passes g). pn_index (eg_passes g ! i) = i)"

end
