(* ===== verification/Exec_Compile.thy ===== *)
theory Exec_Compile
  imports Exec_Graph
begin

text \<open>
  \<open>ExecutionGraph::compile\<close>, stage by stage. The source keeps one ready vector with a moving
  head: everything before the head has been copied to \<open>sortedPassIndices\<close>, so the model keeps the
  two parts apart (\<open>out\<close> and \<open>ready\<close>). A vector subscript is guarded by the length where the
  C++ would be undefined; under \<open>wf_graph\<close> no guard ever fails.
\<close>

section \<open>Stage 1: hazard edges and adjacency\<close>

record raw_edge =
  re_src :: nat
  re_dst :: nat
  re_resource :: resource_handle
  re_hazard :: hazard_kind

definition touches :: "'cb pass_node list \<Rightarrow> resource_handle \<Rightarrow> (nat \<times> access_mode) list" where
  "touches ps h =
     concat (map (\<lambda>p. map (\<lambda>a. (pn_index p, ac_mode a))
                        (filter (\<lambda>a. ac_resource a = h) (pn_accesses p))) ps)"

definition hazard_edges :: "resource_handle \<Rightarrow> nat \<times> access_mode \<Rightarrow> (nat \<times> access_mode) list
    \<Rightarrow> raw_edge list" where
  "hazard_edges h ti ts =
     concat (map (\<lambda>tj. let hz = classify_hazard (snd ti) (snd tj) in
        if hz \<noteq> Hz_none
        then [\<lparr>re_src = fst ti, re_dst = fst tj, re_resource = h, re_hazard = hz\<rparr>] else []) ts)"

fun pair_hazards :: "resource_handle \<Rightarrow> (nat \<times> access_mode) list \<Rightarrow> raw_edge list" where
  "pair_hazards h [] = []"
| "pair_hazards h (ti # ts) = hazard_edges h ti ts @ pair_hazards h ts"

definition raw_edges :: "'cb graph \<Rightarrow> raw_edge list" where
  "raw_edges g =
     concat (map (\<lambda>(h, desc). pair_hazards h (touches (eg_passes g) h)) (eg_resources g))"

type_synonym adjacency = "nat list list \<times> int list"

definition add_adj_edge :: "adjacency \<Rightarrow> raw_edge \<Rightarrow> adjacency" where
  "add_adj_edge ad e =
     (let (adj, inDegree) = ad; src = re_src e; dst = re_dst e in
      if dst \<in> set (adj ! src) then (adj, inDegree)
      else (adj[src := adj ! src @ [dst]], inDegree[dst := inDegree ! dst + 1]))"

definition build_adjacency :: "nat \<Rightarrow> raw_edge list \<Rightarrow> adjacency" where
  "build_adjacency n es = foldl add_adj_edge (replicate n [], replicate n 0) es"

section \<open>Stage 1b: cost hints\<close>

definition effective_cost :: "'cb pass_node \<Rightarrow> cost_hint" where
  "effective_cost p =
     (if ch_userProvided (pn_costHint p) then pn_costHint p
      else deduce_cost_hint (pn_accesses p) (pn_preferredDomain p))"

definition effective_costs :: "'cb graph \<Rightarrow> cost_hint list" where
  "effective_costs g = map effective_cost (eg_passes g)"

section \<open>Stage 2: Kahn's algorithm\<close>

definition initial_ready :: "int list \<Rightarrow> nat list" where
  "initial_ready inDegree = filter (\<lambda>i. inDegree ! i = 0) [0..<length inDegree]"

definition better_candidate :: "'cb graph \<Rightarrow> nat \<Rightarrow> nat \<Rightarrow> bool" where
  "better_candidate g cand best =
     (let candPass = eg_passes g ! cand; bestPass = eg_passes g ! best in
      if pn_priority candPass > pn_priority bestPass then True
      else pn_priority candPass = pn_priority bestPass
           \<and> ch_estimatedCycles (effective_costs g ! cand)
               > ch_estimatedCycles (effective_costs g ! best))"

definition pick_best :: "'cb graph \<Rightarrow> nat list \<Rightarrow> nat" where
  "pick_best g ready =
     foldl (\<lambda>best k. if better_candidate g (ready ! k) (ready ! best) then k else best)
       0 [1..<length ready]"

definition release_succ :: "int list \<times> nat list \<Rightarrow> nat \<Rightarrow> int list \<times> nat list" where
  "release_succ st s =
     (let (inDegree, ready) = st; d = inDegree ! s - 1 in
      if s < length inDegree
      then (inDegree[s := d], if d = 0 then ready @ [s] else ready) else (inDegree, ready))"

text \<open>
  The loop stops because a pass is appended only when its in-degree drops from one to zero: the
  number of positive in-degrees plus the length of the ready list goes down with every turn.
\<close>

definition pos_count :: "int list \<Rightarrow> nat" where
  "pos_count ds = length (filter (\<lambda>d. 0 < d) ds)"

lemma pos_count_update:
  "s < length ds \<Longrightarrow> pos_count (ds[s := d]) + (if 0 < ds ! s then 1 else 0)
    = pos_count ds + (if 0 < d then 1 else 0)"
proof (induction ds arbitrary: s)
  case (Cons x xs)
  show ?case
  proof (cases s)
    case (Suc n)
    then show ?thesis using Cons.IH [of n] Cons.prems by (auto simp: pos_count_def)
  qed (simp add: pos_count_def)
qed simp

lemma release_succ_measure:
  "pos_count (fst (release_succ st s)) + length (snd (release_succ st s))
    \<le> pos_count (fst st) + length (snd st)"
proof -
  obtain ds rq where st: "st = (ds, rq)" by (cases st)
  show ?thesis
  proof (cases "s < length ds")
    case True
    then show ?thesis using pos_count_update [OF True, of "ds ! s - 1"]
      by (cases "ds ! s = 1") (auto simp: st release_succ_def Let_def split: if_splits)
  qed (simp add: st release_succ_def)
qed

lemma release_succs_measure:
  "pos_count (fst (foldl release_succ st ss)) + length (snd (foldl release_succ st ss))
    \<le> pos_count (fst st) + length (snd st)"
proof (induction ss arbitrary: st)
  case (Cons s ss)
  show ?case using Cons [of "release_succ st s"] release_succ_measure [of st s] by simp
qed simp

function kahn_loop :: "'cb graph \<Rightarrow> nat list list \<Rightarrow> int list \<Rightarrow> nat list \<Rightarrow> nat list \<Rightarrow> nat list" where
  "kahn_loop g adj inDegree [] out = out"
| "kahn_loop g adj inDegree (r # rs) out =
     (let ready = swap_at 0 (pick_best g (r # rs)) (r # rs);
          cur = hd ready;
          st = foldl release_succ (inDegree, tl ready) (adj ! cur)
      in kahn_loop g adj (fst st) (snd st) (out @ [cur]))"
  by pat_completeness auto
termination
proof (relation "measure (\<lambda>(g, adj, inDegree, ready, out). pos_count inDegree + length ready)",
    goal_cases)
  case (2 g adj inDegree r rs out ready cur st)
  have "length (tl ready) = length rs" using 2(1) by simp
  then show ?case using release_succs_measure [of "(inDegree, tl ready)" "adj ! cur"] 2(3)
    by simp
qed simp

definition topo_order :: "'cb graph \<Rightarrow> nat list" where
  "topo_order g =
     (let (adj, inDegree) = build_adjacency (numPasses g) (raw_edges g)
      in kahn_loop g adj inDegree (initial_ready inDegree) [])"

section \<open>Stage 3: queue classes\<close>

fun domain_queue :: "access_domain \<Rightarrow> queue_class" where
  "domain_queue Ad_device_graphics = Qc_graphics"
| "domain_queue Ad_device_transfer = Qc_transfer"
| "domain_queue Ad_device_copy = Qc_transfer"
| "domain_queue Ad_host_sequential = Qc_control"
| "domain_queue Ad_host_parallel = Qc_control"
| "domain_queue Ad_device_compute = Qc_compute"
| "domain_queue Ad_any = Qc_compute"

definition queue_assignments :: "'cb graph \<Rightarrow> queue_class list" where
  "queue_assignments g =
     foldl (\<lambda>qa p. qa[pn_index p := domain_queue (pn_preferredDomain p)])
       (replicate (numPasses g) Qc_compute) (eg_passes g)"

section \<open>Stage 4: lanes\<close>

record exec_lane =
  el_id :: nat
  el_queueClass :: queue_class
  el_label :: string

record lane_state =
  ls_lane :: exec_lane
  ls_passes :: "nat list"
  ls_lastPass :: nat

definition preds_of :: "raw_edge list \<Rightarrow> nat \<Rightarrow> nat list" where
  "preds_of es p = remdups (sort (map re_src (filter (\<lambda>e. re_dst e = p) es)))"

definition new_lane :: "nat \<Rightarrow> queue_class \<Rightarrow> string \<Rightarrow> nat list \<Rightarrow> nat \<Rightarrow> lane_state" where
  "new_lane i qc l ps lp =
     \<lparr>ls_lane = \<lparr>el_id = i, el_queueClass = qc, el_label = l\<rparr>, ls_passes = ps, ls_lastPass = lp\<rparr>"

definition findOrCreatePrimaryLane :: "lane_state list \<Rightarrow> queue_class \<Rightarrow> lane_state list \<times> nat" where
  "findOrCreatePrimaryLane lss qc =
     (case find_index (\<lambda>s. el_queueClass (ls_lane s) = qc) lss of
        Some i \<Rightarrow> (lss, i)
      | None \<Rightarrow> (lss @ [new_lane (length lss) qc [] [] 0], length lss))"

definition hasPredOnLane :: "raw_edge list \<Rightarrow> nat list \<Rightarrow> nat \<Rightarrow> nat \<Rightarrow> bool" where
  "hasPredOnLane es la p laneId \<longleftrightarrow> list_ex (\<lambda>pred. la ! pred = laneId) (preds_of es p)"

definition hasConflictOnLane :: "raw_edge list \<Rightarrow> lane_state list \<Rightarrow> nat \<Rightarrow> nat \<Rightarrow> bool" where
  "hasConflictOnLane es lss p laneId \<longleftrightarrow>
     list_ex (\<lambda>q. list_ex (\<lambda>e. re_src e = p \<and> re_dst e = q \<or> re_src e = q \<and> re_dst e = p) es)
       (ls_passes (lss ! laneId))"

definition push_pass :: "lane_state list \<Rightarrow> nat \<Rightarrow> nat \<Rightarrow> lane_state list" where
  "push_pass lss i p =
     lss[i := (lss ! i)\<lparr>ls_passes := ls_passes (lss ! i) @ [p], ls_lastPass := p\<rparr>]"

type_synonym lane_assign = "lane_state list \<times> nat list"

definition put_on_lane :: "lane_state list \<Rightarrow> nat list \<Rightarrow> nat \<Rightarrow> nat \<Rightarrow> lane_assign" where
  "put_on_lane lss la i p = (push_pass lss i p, la[p := i])"

definition assign_pass ::
  "'cb graph \<Rightarrow> raw_edge list \<Rightarrow> queue_class list \<Rightarrow> lane_assign \<Rightarrow> nat \<Rightarrow> lane_assign" where
  "assign_pass g es qa st p =
     (let (lss, la) = st; pass = eg_passes g ! p; qc = qa ! p in
      if pn_exclusiveLane pass
      then (lss @ [new_lane (length lss) qc (pn_label pass) [p] p], la[p := length lss])
      else let (lss, primary) = findOrCreatePrimaryLane lss qc in
      if hasPredOnLane es la p primary then put_on_lane lss la primary p
      else case find (\<lambda>pred. qa ! pred = qc) (preds_of es p) of
        Some pred \<Rightarrow> put_on_lane lss la (la ! pred) p
      | None \<Rightarrow>
        if \<not> hasConflictOnLane es lss p primary then put_on_lane lss la primary p
        else case find (\<lambda>i. i \<noteq> primary \<and> el_queueClass (ls_lane (lss ! i)) = qc
                          \<and> \<not> hasConflictOnLane es lss p i) [0..<length lss] of
          Some i \<Rightarrow> put_on_lane lss la i p
        | None \<Rightarrow> (lss @ [new_lane (length lss) qc [] [p] p], la[p := length lss]))"

definition assign_lanes :: "'cb graph \<Rightarrow> raw_edge list \<Rightarrow> queue_class list \<Rightarrow> nat list \<Rightarrow> lane_assign" where
  "assign_lanes g es qa out =
     foldl (assign_pass g es qa) ([], replicate (numPasses g) 0) out"

section \<open>Stage 5: timelines and synchronisation edges\<close>

record sync_edge =
  se_srcPass :: nat
  se_dstPass :: nat
  se_resource :: resource_handle
  se_hazard :: hazard_kind
  se_crossLane :: bool
  se_srcLane :: nat
  se_dstLane :: nat
  se_srcStageMask :: u64
  se_dstStageMask :: u64

record compiled_graph =
  cg_sortedPassIndices :: "nat list"
  cg_syncEdges :: "sync_edge list"
  cg_queueAssignments :: "queue_class list"
  cg_laneAssignments :: "nat list"
  cg_lanes :: "exec_lane list"
  cg_laneTimelines :: "nat list list"
  cg_numCrossLaneSyncs :: nat

definition empty_compiled :: compiled_graph where
  "empty_compiled =
     \<lparr>cg_sortedPassIndices = [], cg_syncEdges = [], cg_queueAssignments = [],
      cg_laneAssignments = [], cg_lanes = [], cg_laneTimelines = [], cg_numCrossLaneSyncs = 0\<rparr>"

definition compiled_valid :: "compiled_graph \<Rightarrow> bool" where
  "compiled_valid c \<longleftrightarrow> cg_sortedPassIndices c \<noteq> []"

definition lane_timelines :: "nat \<Rightarrow> nat list \<Rightarrow> nat list \<Rightarrow> nat list list" where
  "lane_timelines n la out =
     foldl (\<lambda>ts p. ts[la ! p := ts ! (la ! p) @ [p]]) (replicate n []) out"

definition make_sync_edge :: "nat list \<Rightarrow> raw_edge \<Rightarrow> sync_edge" where
  "make_sync_edge la e =
     (let sl = la ! re_src e; dl = la ! re_dst e in
      \<lparr>se_srcPass = re_src e, se_dstPass = re_dst e, se_resource = re_resource e,
       se_hazard = re_hazard e, se_crossLane = (sl \<noteq> dl), se_srcLane = sl, se_dstLane = dl,
       se_srcStageMask = 0, se_dstStageMask = 0\<rparr>)"

definition compile :: "'cb graph \<Rightarrow> compiled_graph" where
  "compile g =
     (if numPasses g = 0 then empty_compiled
      else let es = raw_edges g; out = topo_order g in
        if length out \<noteq> numPasses g then empty_compiled
        else let qa = queue_assignments g;
                 (lss, la) = assign_lanes g es qa out;
                 syncs = map (make_sync_edge la) es
             in \<lparr>cg_sortedPassIndices = out, cg_syncEdges = syncs, cg_queueAssignments = qa,
                 cg_laneAssignments = la, cg_lanes = map ls_lane lss,
                 cg_laneTimelines = lane_timelines (length lss) la out,
                 cg_numCrossLaneSyncs = length (filter se_crossLane syncs)\<rparr>)"

end
