(* ===== verification/Exec_Order.thy ===== *)
theory Exec_Order
  imports Exec_Compile
begin

text \<open>
  Stages 1 and 2 of \<open>compile\<close> are correct: which hazard edges are found, what the adjacency lists
  and in-degrees hold, and that Kahn's loop lists the passes in an order every edge respects,
  all of them unless some pass has an edge to itself.
\<close>

section \<open>The builder keeps the indices right\<close>

lemma wf_graph_indices:
  "wf_graph g \<longleftrightarrow> map pn_index (eg_passes g) = [0..<numPasses g]"
  by (simp only: wf_graph_def numPasses_def map_eq_upt)

lemma wf_empty_graph [wf_intros]: "wf_graph empty_graph"
  by (simp add: wf_graph_def empty_graph_def)

lemma wf_importResource [wf_intros]: "wf_graph g \<Longrightarrow> wf_graph (fst (importResource g d))"
  by (simp add: wf_graph_def importResource_def Let_def)

lemma wf_addPass [wf_intros]: "wf_graph g \<Longrightarrow> wf_graph (fst (addPass g l))"
  by (auto simp: wf_graph_def addPass_def Let_def nth_append default_pass_def less_Suc_eq)

lemma wf_addPassWith [wf_intros]: "wf_graph g \<Longrightarrow> wf_graph (fst (addPassWith g l acs cb))"
  by (auto simp: wf_graph_def addPassWith_def addPass_def Let_def nth_append default_pass_def
      nth_list_update less_Suc_eq)

section \<open>Which hazard edges are found\<close>

definition hazard_edge :: "resource_handle \<Rightarrow> nat \<times> access_mode \<Rightarrow> nat \<times> access_mode \<Rightarrow> raw_edge" where
  "hazard_edge h ti tj =
     \<lparr>re_src = fst ti, re_dst = fst tj, re_resource = h,
      re_hazard = classify_hazard (snd ti) (snd tj)\<rparr>"

lemma classify_hazard_none_iff:
  "classify_hazard a b = Hz_none
    \<longleftrightarrow> \<not> involves_write b \<and> (\<not> involves_write a \<or> \<not> involves_read b)"
  by (auto simp: classify_hazard_def Let_def)

lemma set_hazard_edges:
  "set (hazard_edges h ti ts) =
    {hazard_edge h ti tj | tj. tj \<in> set ts \<and> classify_hazard (snd ti) (snd tj) \<noteq> Hz_none}"
  by (auto simp: hazard_edges_def hazard_edge_def Let_def split: if_splits)

lemma set_pair_hazards:
  "set (pair_hazards h ts) =
    {hazard_edge h ti tj | ti tj. before ts ti tj \<and> classify_hazard (snd ti) (snd tj) \<noteq> Hz_none}"
proof (induction ts)
  case (Cons t ts)
  then show ?case unfolding pair_hazards.simps set_append set_hazard_edges before.simps by blast
qed simp

lemma raw_edgeI:
  assumes "h \<in> fst ` set (eg_resources g)" and "before (touches (eg_passes g) h) ti tj"
    and "classify_hazard (snd ti) (snd tj) \<noteq> Hz_none"
  shows "hazard_edge h ti tj \<in> set (raw_edges g)"
proof -
  have "hazard_edge h ti tj \<in> set (pair_hazards h (touches (eg_passes g) h))"
    using assms(2,3) unfolding set_pair_hazards by blast
  then show ?thesis using assms(1) by (force simp: raw_edges_def)
qed

lemma raw_edgeE:
  assumes "e \<in> set (raw_edges g)"
  obtains h ti tj where "e = hazard_edge h ti tj" and "h \<in> fst ` set (eg_resources g)"
    and "before (touches (eg_passes g) h) ti tj" and "classify_hazard (snd ti) (snd tj) \<noteq> Hz_none"
proof -
  from assms obtain h d where "(h, d) \<in> set (eg_resources g)"
    and "e \<in> set (pair_hazards h (touches (eg_passes g) h))"
    by (auto simp: raw_edges_def)
  then show thesis using that unfolding set_pair_hazards by force
qed

lemma touches_Cons:
  "touches (p # ps) h =
    map (\<lambda>a. (pn_index p, ac_mode a)) (filter (\<lambda>a. ac_resource a = h) (pn_accesses p)) @ touches ps h"
  by (simp add: touches_def)

lemma set_touches:
  "set (touches ps h) =
    {(pn_index p, ac_mode a) | p a. p \<in> set ps \<and> a \<in> set (pn_accesses p) \<and> ac_resource a = h}"
  by (auto simp: touches_def)

lemma before_touches_le:
  assumes "sorted (map pn_index ps)" and "before (touches ps h) ti tj"
  shows "fst ti \<le> fst tj"
  using assms
proof (induction ps)
  case (Cons p ps)
  have hd: "\<forall>q \<in> set ps. pn_index p \<le> pn_index q" using Cons.prems(1) by simp
  from Cons.prems(2) consider
      (here) "before (map (\<lambda>a. (pn_index p, ac_mode a))
          (filter (\<lambda>a. ac_resource a = h) (pn_accesses p))) ti tj"
    | (later) "before (touches ps h) ti tj"
    | (across) "fst ti = pn_index p" "tj \<in> set (touches ps h)"
    by (auto simp: touches_Cons before_append)
  then show ?case
  proof cases
    case here
    from before_in_set [OF here] show ?thesis by auto
  next
    case later
    then show ?thesis using Cons by simp
  next
    case across
    then show ?thesis using hd by (auto simp: set_touches)
  qed
qed (simp add: touches_def)

lemma before_touches_passes:
  assumes "before ps p q" and "a \<in> set (pn_accesses p)" and "b \<in> set (pn_accesses q)"
    and "ac_resource a = h" and "ac_resource b = h"
  shows "before (touches ps h) (pn_index p, ac_mode a) (pn_index q, ac_mode b)"
  using assms by (induction ps) (auto simp: touches_Cons before_append set_touches)

lemma before_nth: "i < j \<Longrightarrow> j < length xs \<Longrightarrow> before xs (xs ! i) (xs ! j)"
proof (induction xs arbitrary: i j)
  case (Cons x xs)
  then show ?case by (cases i; cases j) auto
qed simp

text \<open>Edges stay in range and never go against the declaration order.\<close>

lemma raw_edge_bounds:
  assumes "wf_graph g" and "e \<in> set (raw_edges g)"
  shows "re_src e \<le> re_dst e" and "re_dst e < numPasses g"
proof -
  have idx: "map pn_index (eg_passes g) = [0..<numPasses g]"
    using assms(1) by (simp add: wf_graph_indices)
  from assms(2) obtain h ti tj where e: "e = hazard_edge h ti tj"
    and b: "before (touches (eg_passes g) h) ti tj"
    using raw_edgeE by blast
  show "re_src e \<le> re_dst e"
    using before_touches_le [OF _ b] idx by (simp add: e hazard_edge_def)
  from b have "tj \<in> set (touches (eg_passes g) h)" by (auto dest: before_in_set)
  then have "fst tj \<in> set (map pn_index (eg_passes g))" by (auto simp: set_touches)
  then show "re_dst e < numPasses g" by (simp add: idx e hazard_edge_def)
qed

text \<open>
  Two passes conflict on a resource the graph knows when both touch it and at least one writes:
  the specification of what \<open>compile\<close> must order.
\<close>

definition conflict_on :: "'cb graph \<Rightarrow> resource_handle \<Rightarrow> nat \<Rightarrow> nat \<Rightarrow> bool" where
  "conflict_on g h i j \<longleftrightarrow> h \<in> fst ` set (eg_resources g) \<and>
     (\<exists>a \<in> set (pn_accesses (eg_passes g ! i)). \<exists>b \<in> set (pn_accesses (eg_passes g ! j)).
        ac_resource a = h \<and> ac_resource b = h \<and> classify_hazard (ac_mode a) (ac_mode b) \<noteq> Hz_none)"

lemma conflict_has_edge:
  assumes "wf_graph g" and "i < j" and "j < numPasses g" and "conflict_on g h i j"
  shows "\<exists>e \<in> set (raw_edges g). re_src e = i \<and> re_dst e = j \<and> re_resource e = h"
proof -
  let ?ps = "eg_passes g"
  obtain a b where ab: "a \<in> set (pn_accesses (?ps ! i))" "b \<in> set (pn_accesses (?ps ! j))"
    "ac_resource a = h" "ac_resource b = h" "classify_hazard (ac_mode a) (ac_mode b) \<noteq> Hz_none"
    and h: "h \<in> fst ` set (eg_resources g)"
    using assms(4) by (auto simp: conflict_on_def)
  have "before ?ps (?ps ! i) (?ps ! j)"
    using assms(2,3) by (simp add: before_nth numPasses_def)
  from before_touches_passes [OF this ab(1-4)]
  have "before (touches ?ps h) (i, ac_mode a) (j, ac_mode b)"
    using assms(1-3) by (auto simp: wf_graph_def numPasses_def)
  then have "hazard_edge h (i, ac_mode a) (j, ac_mode b) \<in> set (raw_edges g)"
    using h ab(5) by (intro raw_edgeI) simp_all
  then show ?thesis by (force simp: hazard_edge_def)
qed

lemma edge_has_conflict:
  assumes "wf_graph g" and "e \<in> set (raw_edges g)" and "re_src e \<noteq> re_dst e"
  shows "re_src e < re_dst e \<and> conflict_on g (re_resource e) (re_src e) (re_dst e)"
proof -
  from assms(2) obtain h ti tj where e: "e = hazard_edge h ti tj"
    and h: "h \<in> fst ` set (eg_resources g)"
    and b: "before (touches (eg_passes g) h) ti tj"
    and hz: "classify_hazard (snd ti) (snd tj) \<noteq> Hz_none"
    using raw_edgeE by blast
  have nth: "\<And>p. p \<in> set (eg_passes g) \<Longrightarrow> eg_passes g ! pn_index p = p"
    using assms(1) by (auto simp: wf_graph_def in_set_conv_nth)
  have "\<exists>a \<in> set (pn_accesses (eg_passes g ! fst ti)). ac_resource a = h \<and> ac_mode a = snd ti"
    and "\<exists>a \<in> set (pn_accesses (eg_passes g ! fst tj)). ac_resource a = h \<and> ac_mode a = snd tj"
    using before_in_set [OF b] nth by (force simp: set_touches)+
  then obtain a b where "a \<in> set (pn_accesses (eg_passes g ! fst ti))" "ac_resource a = h"
    "ac_mode a = snd ti" "b \<in> set (pn_accesses (eg_passes g ! fst tj))" "ac_resource b = h"
    "ac_mode b = snd tj" by blast
  then have "conflict_on g h (fst ti) (fst tj)" using h hz unfolding conflict_on_def by metis
  then show ?thesis using raw_edge_bounds(1) [OF assms(1,2)] assms(3)
    by (simp add: e hazard_edge_def)
qed

section \<open>Adjacency lists and in-degrees\<close>

text \<open>
  After a prefix of the edges: \<open>adj\<close> lists each successor once, and the in-degree of a pass is
  the number of its distinct predecessors.
\<close>

definition indeg_ok :: "nat \<Rightarrow> nat list list \<Rightarrow> nat set \<Rightarrow> int list \<Rightarrow> bool" where
  "indeg_ok n adj done inDegree \<longleftrightarrow> length inDegree = n \<and>
     (\<forall>j < n. inDegree ! j = int (card {i. i < n \<and> i \<notin> done \<and> j \<in> set (adj ! i)}))"

definition adj_ok :: "nat \<Rightarrow> (nat \<times> nat) set \<Rightarrow> nat list list \<Rightarrow> bool" where
  "adj_ok n E adj \<longleftrightarrow> length adj = n \<and>
     (\<forall>i < n. distinct (adj ! i) \<and> set (adj ! i) = {j. (i, j) \<in> E})"

definition edge_pairs :: "raw_edge list \<Rightarrow> (nat \<times> nat) set" where
  "edge_pairs es = (\<lambda>e. (re_src e, re_dst e)) ` set es"

lemma edge_pairs_Cons [simp]:
  "edge_pairs (e # es) = insert (re_src e, re_dst e) (edge_pairs es)"
  by (simp add: edge_pairs_def)

lemma add_adj_edge_ok:
  assumes "adj_ok n E adj" and "indeg_ok n adj {} ds"
    and "re_src e < n" and "re_dst e < n" and "add_adj_edge (adj, ds) e = (adj', ds')"
  shows "adj_ok n (insert (re_src e, re_dst e) E) adj' \<and> indeg_ok n adj' {} ds'"
proof (cases "re_dst e \<in> set (adj ! re_src e)")
  case True
  then have "insert (re_src e, re_dst e) E = E" using assms(1,3) by (auto simp: adj_ok_def)
  then show ?thesis using True assms by (simp add: add_adj_edge_def Let_def)
next
  case False
  let ?s = "re_src e" and ?d = "re_dst e"
  have len: "length adj = n" "length ds = n"
    using assms(1,2) by (auto simp: adj_ok_def indeg_ok_def)
  have adj': "adj' = adj[?s := adj ! ?s @ [?d]]" and ds': "ds' = ds[?d := ds ! ?d + 1]"
    using False assms(5) by (auto simp: add_adj_edge_def Let_def)
  have A: "adj_ok n (insert (?s, ?d) E) adj'"
    using assms(1,3) False by (auto simp: adj_ok_def adj' nth_list_update)
  have "ds' ! j = int (card {i. i < n \<and> j \<in> set (adj' ! i)})" if "j < n" for j
  proof (cases "j = ?d")
    case True
    have "{i. i < n \<and> j \<in> set (adj' ! i)} = insert ?s {i. i < n \<and> j \<in> set (adj ! i)}"
      using True assms(3) len by (auto simp: adj' nth_list_update)
    moreover have "?s \<notin> {i. i < n \<and> j \<in> set (adj ! i)}" using False True by simp
    ultimately show ?thesis using assms(2) that True len by (simp add: ds' indeg_ok_def)
  next
    case neq: False
    have "{i. i < n \<and> j \<in> set (adj' ! i)} = {i. i < n \<and> j \<in> set (adj ! i)}"
      using neq len assms(3) by (auto simp: adj' nth_list_update split: if_splits)
    then show ?thesis using assms(2) that neq by (simp add: ds' indeg_ok_def)
  qed
  then show ?thesis using A len by (simp add: indeg_ok_def ds')
qed

lemma foldl_add_adj_edge_ok:
  assumes "adj_ok n E adj" and "indeg_ok n adj {} ds"
    and "\<forall>e \<in> set es. re_src e < n \<and> re_dst e < n"
    and "foldl add_adj_edge (adj, ds) es = (adj', ds')"
  shows "adj_ok n (edge_pairs es \<union> E) adj' \<and> indeg_ok n adj' {} ds'"
  using assms
proof (induction es arbitrary: E adj ds)
  case Nil
  then show ?case by (simp add: edge_pairs_def)
next
  case (Cons e es)
  obtain a d where ad: "add_adj_edge (adj, ds) e = (a, d)" by (cases "add_adj_edge (adj, ds) e")
  have "adj_ok n (insert (re_src e, re_dst e) E) a \<and> indeg_ok n a {} d"
    using add_adj_edge_ok [OF Cons.prems(1,2) _ _ ad] Cons.prems(3) by simp
  then show ?case
    using Cons.IH [of "insert (re_src e, re_dst e) E" a d] Cons.prems(3,4) ad by simp
qed

lemma build_adjacency_ok:
  assumes "\<forall>e \<in> set es. re_src e < n \<and> re_dst e < n" and "build_adjacency n es = (adj, ds)"
  shows "adj_ok n (edge_pairs es) adj \<and> indeg_ok n adj {} ds"
  using foldl_add_adj_edge_ok [of n "{}" "replicate n []" "replicate n 0" es adj ds] assms
  by (simp add: build_adjacency_def adj_ok_def indeg_ok_def)

section \<open>Kahn's loop\<close>

lemma pick_best_less: "ready \<noteq> [] \<Longrightarrow> pick_best g ready < length ready"
  unfolding pick_best_def by (rule foldl_index_less) auto

lemma release_succs:
  assumes "distinct ss" and "set ss \<subseteq> {0..<length ds}"
  shows "foldl release_succ (ds, rq) ss =
    (map (\<lambda>j. ds ! j - (if j \<in> set ss then 1 else 0)) [0..<length ds],
     rq @ filter (\<lambda>s. ds ! s = 1) ss)"
  using assms
proof (induction ss arbitrary: ds rq)
  case Nil
  then show ?case by (simp add: map_nth)
next
  case (Cons s ss)
  let ?ds = "ds[s := ds ! s - 1]"
  have s: "s < length ds" "s \<notin> set ss" using Cons.prems by auto
  have "map (\<lambda>j. ?ds ! j - (if j \<in> set ss then 1 else 0)) [0..<length ?ds]
      = map (\<lambda>j. ds ! j - (if j \<in> set (s # ss) then 1 else 0)) [0..<length ds]"
    using s by (auto simp: nth_list_update)
  moreover have "filter (\<lambda>t. ?ds ! t = 1) ss = filter (\<lambda>t. ds ! t = 1) ss"
    using s Cons.prems(2) by (intro filter_cong) (auto simp: nth_list_update)
  ultimately show ?case
    using Cons.IH [of ?ds "if ds ! s = 1 then rq @ [s] else rq"] Cons.prems s
    by (simp add: release_succ_def)
qed

text \<open>The loop invariant: \<open>out\<close> and \<open>ready\<close> hold exactly the passes without a pending predecessor.\<close>

definition kahn_inv :: "nat \<Rightarrow> nat list list \<Rightarrow> int list \<Rightarrow> nat list \<Rightarrow> nat list \<Rightarrow> bool" where
  "kahn_inv n adj ds ready out \<longleftrightarrow>
     length adj = n \<and> (\<forall>i < n. distinct (adj ! i) \<and> set (adj ! i) \<subseteq> {0..<n}) \<and>
     distinct (out @ ready) \<and> set (out @ ready) = {j. j < n \<and> ds ! j = 0} \<and>
     indeg_ok n adj (set out) ds \<and>
     (\<forall>j \<in> set out. \<forall>i < n. j \<in> set (adj ! i) \<longrightarrow> before out i j)"

lemma kahn_inv_init:
  assumes "adj_ok n E adj" and "indeg_ok n adj {} ds" and "E \<subseteq> {0..<n} \<times> {0..<n}"
  shows "kahn_inv n adj ds (initial_ready ds) []"
  using assms by (auto simp: kahn_inv_def adj_ok_def indeg_ok_def initial_ready_def)

lemma kahn_inv_step:
  assumes inv: "kahn_inv n adj ds (r # rs) out"
    and ready: "ready = swap_at 0 (pick_best g (r # rs)) (r # rs)"
    and st: "foldl release_succ (ds, tl ready) (adj ! hd ready) = (ds', rq')"
  shows "kahn_inv n adj ds' rq' (out @ [hd ready])"
proof -
  have best: "pick_best g (r # rs) < length (r # rs)" by (rule pick_best_less) simp
  then have sw: "set ready = set (r # rs)" "distinct ready = distinct (r # rs)"
    "length ready = Suc (length rs)"
    by (simp_all only: ready set_swap_at distinct_swap_at length_swap_at length_Cons zero_less_Suc)
  then obtain c rest where rdy: "ready = c # rest" by (cases ready) auto
  let ?cur = "hd ready" and ?rest = "tl ready"
  have mem: "set (out @ ready) = {j. j < n \<and> ds ! j = 0}" "distinct (out @ ready)"
    using inv sw(1,2) by (simp_all add: kahn_inv_def)
  then have cur: "?cur < n" "ds ! ?cur = 0" "?cur \<notin> set out" "?cur \<notin> set ?rest"
    by (auto simp: rdy)
  have len: "length ds = n" "length adj = n" using inv by (auto simp: kahn_inv_def indeg_ok_def)
  have succ: "distinct (adj ! ?cur)" "set (adj ! ?cur) \<subseteq> {0..<n}"
    using inv cur(1) by (auto simp: kahn_inv_def)
  have ds': "ds' = map (\<lambda>j. ds ! j - (if j \<in> set (adj ! ?cur) then 1 else 0)) [0..<n]"
    and rq': "rq' = ?rest @ filter (\<lambda>s. ds ! s = 1) (adj ! ?cur)"
    using release_succs [of "adj ! ?cur" ds ?rest] succ len st by auto
  have cnt: "ds ! j = int (card {i. i < n \<and> i \<notin> set out \<and> j \<in> set (adj ! i)})" if "j < n" for j
    using inv that by (simp add: kahn_inv_def indeg_ok_def)
  have cnt': "ds' ! j = int (card {i. i < n \<and> i \<notin> set (out @ [?cur]) \<and> j \<in> set (adj ! i)})"
    if j: "j < n" for j
  proof -
    let ?P = "{i. i < n \<and> i \<notin> set out \<and> j \<in> set (adj ! i)}"
    have eq: "{i. i < n \<and> i \<notin> set (out @ [?cur]) \<and> j \<in> set (adj ! i)} = ?P - {?cur}" by auto
    show ?thesis
    proof (cases "j \<in> set (adj ! ?cur)")
      case True
      then have "?cur \<in> ?P" using cur by simp
      then have "card ?P = Suc (card (?P - {?cur}))" by (intro card.remove) auto
      then show ?thesis unfolding eq using cnt [OF j] True j by (simp add: ds')
    next
      case False
      then have "?P - {?cur} = ?P" by auto
      then show ?thesis unfolding eq using cnt [OF j] False j by (simp add: ds')
    qed
  qed
  have zero: "j \<notin> set (adj ! ?cur)" if "j < n" "ds ! j = 0" for j
  proof
    assume "j \<in> set (adj ! ?cur)"
    then have "?cur \<in> {i. i < n \<and> i \<notin> set out \<and> j \<in> set (adj ! i)}" using cur by simp
    moreover have "{i. i < n \<and> i \<notin> set out \<and> j \<in> set (adj ! i)} = {}"
      using cnt [OF that(1)] that(2) by simp
    ultimately show False by blast
  qed
  have set': "set ((out @ [?cur]) @ rq') = {j. j < n \<and> ds' ! j = 0}"
  proof -
    have "x \<in> set ((out @ [?cur]) @ rq') \<longleftrightarrow> x < n \<and> ds' ! x = 0" for x
    proof -
      have "x \<in> set ((out @ [?cur]) @ rq')
          \<longleftrightarrow> x \<in> set (out @ ready) \<or> x \<in> set (adj ! ?cur) \<and> ds ! x = 1"
        unfolding rq' rdy by simp
      also have "\<dots> \<longleftrightarrow> x < n \<and> ds ! x = 0 \<or> x \<in> set (adj ! ?cur) \<and> ds ! x = 1"
        using mem(1) by blast
      also have "\<dots> \<longleftrightarrow> x < n \<and> ds' ! x = 0"
        using zero [of x] succ(2) by (cases "x < n") (auto simp: ds')
      finally show ?thesis .
    qed
    then show ?thesis by blast
  qed
  have dist': "distinct ((out @ [?cur]) @ rq')"
  proof -
    have "distinct (out @ [?cur] @ ?rest)" using mem(2) by (simp add: rdy)
    moreover have "\<forall>x \<in> set (out @ [?cur] @ ?rest). ds ! x = 0" using mem(1) by (auto simp: rdy)
    then have "set (out @ [?cur] @ ?rest) \<inter> set (filter (\<lambda>s. ds ! s = 1) (adj ! ?cur)) = {}"
      by auto
    ultimately show ?thesis using succ(1) by (auto simp: rq')
  qed
  have ord': "\<forall>j \<in> set (out @ [?cur]). \<forall>i < n. j \<in> set (adj ! i) \<longrightarrow> before (out @ [?cur]) i j"
  proof (intro ballI allI impI)
    fix j i assume j: "j \<in> set (out @ [?cur])" and i: "i < n" "j \<in> set (adj ! i)"
    show "before (out @ [?cur]) i j"
    proof (cases "j \<in> set out")
      case True
      then show ?thesis using inv i by (simp add: kahn_inv_def)
    next
      case False
      then have "j = ?cur" using j by simp
      then have "i \<in> set out" using cnt [OF cur(1)] cur(2) i by auto
      then show ?thesis using \<open>j = ?cur\<close> by simp
    qed
  qed
  show ?thesis
    using inv set' dist' ord' cnt' len unfolding kahn_inv_def indeg_ok_def by (simp add: ds')
qed

lemma kahn_loop_inv:
  assumes "kahn_inv n adj ds ready out"
  shows "\<exists>ds'. kahn_inv n adj ds' [] (kahn_loop g adj ds ready out)"
  using assms
proof (induction g adj ds ready out rule: kahn_loop.induct)
  case (1 g adj ds out)
  then show ?case by auto
next
  case (2 g adj ds r rs out)
  let ?ready = "swap_at 0 (pick_best g (r # rs)) (r # rs)"
  obtain ds' rq' where st: "foldl release_succ (ds, tl ?ready) (adj ! hd ?ready) = (ds', rq')"
    by (cases "foldl release_succ (ds, tl ?ready) (adj ! hd ?ready)")
  have "kahn_inv n adj ds' rq' (out @ [hd ?ready])" by (rule kahn_inv_step [OF 2(2) refl st])
  then show ?case using 2(1) [OF refl refl refl] by (simp add: st Let_def del: swap_at_def)
qed

section \<open>What the order guarantees\<close>

definition self_hazard :: "'cb graph \<Rightarrow> nat \<Rightarrow> bool" where
  "self_hazard g i \<longleftrightarrow> (\<exists>e \<in> set (raw_edges g). re_src e = i \<and> re_dst e = i)"

lemma topo_order_inv:
  assumes "wf_graph g"
  obtains adj ds where "adj_ok (numPasses g) (edge_pairs (raw_edges g)) adj"
    and "kahn_inv (numPasses g) adj ds [] (topo_order g)"
proof -
  let ?n = "numPasses g" and ?es = "raw_edges g"
  obtain adj ds where ba: "build_adjacency ?n ?es = (adj, ds)" by fastforce
  have b: "\<forall>e \<in> set ?es. re_src e < ?n \<and> re_dst e < ?n"
    using raw_edge_bounds [OF assms] by (meson le_less_trans)
  have ok: "adj_ok ?n (edge_pairs ?es) adj" "indeg_ok ?n adj {} ds"
    using build_adjacency_ok [OF b ba] by auto
  have "edge_pairs ?es \<subseteq> {0..<?n} \<times> {0..<?n}" using b by (auto simp: edge_pairs_def)
  from kahn_loop_inv [OF kahn_inv_init [OF ok this]]
  obtain ds' where "kahn_inv ?n adj ds' [] (kahn_loop g adj ds (initial_ready ds) [])" by blast
  then show thesis using that [OF ok(1)] by (simp add: topo_order_def ba)
qed

lemma topo_order_distinct: "wf_graph g \<Longrightarrow> distinct (topo_order g)"
  using topo_order_inv by (metis append_Nil2 kahn_inv_def)

lemma topo_order_subset: "wf_graph g \<Longrightarrow> set (topo_order g) \<subseteq> {0..<numPasses g}"
  by (rule topo_order_inv [of g]) (auto simp: kahn_inv_def)

lemma topo_order_edges:
  assumes "wf_graph g" and "e \<in> set (raw_edges g)" and "re_dst e \<in> set (topo_order g)"
  shows "before (topo_order g) (re_src e) (re_dst e)"
proof -
  obtain adj ds where ok: "adj_ok (numPasses g) (edge_pairs (raw_edges g)) adj"
    and inv: "kahn_inv (numPasses g) adj ds [] (topo_order g)"
    using topo_order_inv [OF assms(1)] .
  have src: "re_src e < numPasses g" using raw_edge_bounds [OF assms(1,2)] by simp
  then have "re_dst e \<in> set (adj ! re_src e)"
    using ok assms(2) by (auto simp: adj_ok_def edge_pairs_def)
  then show ?thesis using inv assms(3) src by (simp add: kahn_inv_def)
qed

lemma topo_order_complete:
  assumes "wf_graph g" and "\<forall>i < numPasses g. \<not> self_hazard g i"
  shows "length (topo_order g) = numPasses g"
proof -
  let ?n = "numPasses g" and ?o = "topo_order g"
  obtain adj ds where ok: "adj_ok ?n (edge_pairs (raw_edges g)) adj"
    and inv: "kahn_inv ?n adj ds [] ?o"
    using topo_order_inv [OF assms(1)] .
  have all: "j \<in> set ?o" if "j < ?n" for j
    using that
  proof (induction j rule: less_induct)
    case (less j)
    have "i \<in> set ?o" if i: "i < ?n" "j \<in> set (adj ! i)" for i
    proof -
      obtain e where e: "e \<in> set (raw_edges g)" "re_src e = i" "re_dst e = j"
        using i ok by (auto simp: adj_ok_def edge_pairs_def)
      have "i \<noteq> j" using assms(2) e i(1) by (auto simp: self_hazard_def)
      then have "i < j" using raw_edge_bounds(1) [OF assms(1) e(1)] e by simp
      then show ?thesis using less i by simp
    qed
    then have "{i. i < ?n \<and> i \<notin> set ?o \<and> j \<in> set (adj ! i)} = {}" by blast
    then have card0: "card {i. i < ?n \<and> i \<notin> set ?o \<and> j \<in> set (adj ! i)} = 0"
      by (simp only: card.empty)
    have "ds ! j = int (card {i. i < ?n \<and> i \<notin> set ?o \<and> j \<in> set (adj ! i)})"
      using inv less.prems unfolding kahn_inv_def indeg_ok_def by blast
    then have "ds ! j = 0" unfolding card0 by simp
    moreover have "set ?o = {j. j < ?n \<and> ds ! j = 0}"
      using inv unfolding kahn_inv_def append_Nil2 by blast
    ultimately show ?case using less.prems by blast
  qed
  then have "set ?o = {0..<?n}" using topo_order_subset [OF assms(1)] by auto
  then show ?thesis using distinct_card [OF topo_order_distinct [OF assms(1)]] by simp
qed

lemma topo_order_set:
  assumes "wf_graph g" and "length (topo_order g) = numPasses g"
  shows "set (topo_order g) = {0..<numPasses g}"
  using distinct_below_full [OF topo_order_distinct topo_order_subset] assms by blast

lemma topo_order_no_self:
  assumes "wf_graph g" and "length (topo_order g) = numPasses g" and "i < numPasses g"
  shows "\<not> self_hazard g i"
proof
  assume "self_hazard g i"
  then obtain e where e: "e \<in> set (raw_edges g)" "re_src e = i" "re_dst e = i"
    unfolding self_hazard_def by blast
  have "i \<in> set (topo_order g)" using topo_order_set [OF assms(1,2)] assms(3) by simp
  then have "before (topo_order g) i i" using topo_order_edges [OF assms(1) e(1)] e(2,3) by simp
  then show False using before_irrefl [OF topo_order_distinct [OF assms(1)]] by blast
qed

text \<open>
  A self edge comes from one pass alone: two of its access declarations name the same registered
  resource and, in their order, form a hazard.
\<close>

definition doubly_declared :: "'cb graph \<Rightarrow> nat \<Rightarrow> bool" where
  "doubly_declared g i \<longleftrightarrow> (let acs = pn_accesses (eg_passes g ! i) in
     \<exists>h \<in> fst ` set (eg_resources g). \<exists>a \<in> set acs. \<exists>b \<in> set acs.
       before (filter (\<lambda>a. ac_resource a = h) acs) a b
       \<and> classify_hazard (ac_mode a) (ac_mode b) \<noteq> Hz_none)"

lemma doubly_declared_alt:
  "doubly_declared g i \<longleftrightarrow> (\<exists>h \<in> fst ` set (eg_resources g). \<exists>a b.
     before (filter (\<lambda>a. ac_resource a = h) (pn_accesses (eg_passes g ! i))) a b
     \<and> classify_hazard (ac_mode a) (ac_mode b) \<noteq> Hz_none)"
  unfolding doubly_declared_def Let_def
proof (intro bex_cong refl iffI; elim exE bexE conjE)
  fix h a b
  let ?acs = "pn_accesses (eg_passes g ! i)"
  assume b: "before (filter (\<lambda>a. ac_resource a = h) ?acs) a b"
    and hz: "classify_hazard (ac_mode a) (ac_mode b) \<noteq> Hz_none"
  have "a \<in> set ?acs" "b \<in> set ?acs" using before_in_set [OF b] by simp_all
  then show "\<exists>a \<in> set ?acs. \<exists>b \<in> set ?acs. before (filter (\<lambda>a. ac_resource a = h) ?acs) a b
      \<and> classify_hazard (ac_mode a) (ac_mode b) \<noteq> Hz_none"
    using b hz by blast
qed blast

lemma before_map: "before (map f xs) u v \<longleftrightarrow> (\<exists>a b. before xs a b \<and> u = f a \<and> v = f b)"
  by (induction xs) auto

lemma before_touches_same:
  assumes "distinct (map pn_index ps)"
  shows "before (touches ps h) ti tj \<and> fst ti = fst tj \<longleftrightarrow> (\<exists>p \<in> set ps.
    before (map (\<lambda>a. (pn_index p, ac_mode a)) (filter (\<lambda>a. ac_resource a = h) (pn_accesses p))) ti tj)"
  using assms
proof (induction ps)
  case (Cons p ps)
  let ?own = "\<lambda>p. map (\<lambda>a. (pn_index p, ac_mode a)) (filter (\<lambda>a. ac_resource a = h) (pn_accesses p))"
  have own: "fst ti = pn_index p \<and> fst tj = pn_index p" if "before (?own p) ti tj"
    using before_in_set [OF that] by auto
  have apart: "fst ti \<noteq> fst tj" if "ti \<in> set (?own p)" "tj \<in> set (touches ps h)"
    using that Cons.prems by (auto simp: set_touches)
  show ?case
    using Cons own apart by (auto simp: touches_Cons before_append)
qed (simp add: touches_def)

lemma self_hazard_iff:
  assumes "wf_graph g" and "i < numPasses g"
  shows "self_hazard g i \<longleftrightarrow> doubly_declared g i"
proof -
  let ?ps = "eg_passes g"
  have idx: "map pn_index ?ps = [0..<numPasses g]" using assms(1) by (simp add: wf_graph_indices)
  have dist: "distinct (map pn_index ?ps)" unfolding idx by simp
  have nth_iff: "p \<in> set ?ps \<and> pn_index p = i \<longleftrightarrow> p = ?ps ! i" for p
    using assms by (auto simp: wf_graph_def in_set_conv_nth numPasses_def)
  have "self_hazard g i \<longleftrightarrow> (\<exists>h \<in> fst ` set (eg_resources g). \<exists>ti tj.
      (before (touches ?ps h) ti tj \<and> fst ti = fst tj) \<and> fst ti = i
      \<and> classify_hazard (snd ti) (snd tj) \<noteq> Hz_none)"
  proof
    assume "self_hazard g i"
    then obtain e where e: "e \<in> set (raw_edges g)" "re_src e = i" "re_dst e = i"
      unfolding self_hazard_def by blast
    from e(1) show "\<exists>h \<in> fst ` set (eg_resources g). \<exists>ti tj.
      (before (touches ?ps h) ti tj \<and> fst ti = fst tj) \<and> fst ti = i
      \<and> classify_hazard (snd ti) (snd tj) \<noteq> Hz_none"
      by (rule raw_edgeE) (use e(2,3) in \<open>force simp: hazard_edge_def\<close>)
  next
    assume "\<exists>h \<in> fst ` set (eg_resources g). \<exists>ti tj.
      (before (touches ?ps h) ti tj \<and> fst ti = fst tj) \<and> fst ti = i
      \<and> classify_hazard (snd ti) (snd tj) \<noteq> Hz_none"
    then obtain h ti tj where h: "h \<in> fst ` set (eg_resources g)" "before (touches ?ps h) ti tj"
      "classify_hazard (snd ti) (snd tj) \<noteq> Hz_none" "fst ti = i" "fst tj = i" by metis
    then show "self_hazard g i"
      using raw_edgeI [OF h(1-3)] by (force simp: self_hazard_def hazard_edge_def)
  qed
  also have "\<dots> \<longleftrightarrow> doubly_declared g i"
    unfolding before_touches_same [OF dist] before_map doubly_declared_alt
  proof (intro bex_cong refl iffI; elim exE bexE conjE)
    fix h ti tj p a b
    assume "p \<in> set ?ps" "before (filter (\<lambda>a. ac_resource a = h) (pn_accesses p)) a b"
      "ti = (pn_index p, ac_mode a)" "tj = (pn_index p, ac_mode b)" "fst ti = i"
      "classify_hazard (snd ti) (snd tj) \<noteq> Hz_none"
    then show "\<exists>a b. before (filter (\<lambda>a. ac_resource a = h) (pn_accesses (?ps ! i))) a b
        \<and> classify_hazard (ac_mode a) (ac_mode b) \<noteq> Hz_none"
      using nth_iff [of p] by auto
  next
    fix h a b
    assume "before (filter (\<lambda>a. ac_resource a = h) (pn_accesses (?ps ! i))) a b"
      "classify_hazard (ac_mode a) (ac_mode b) \<noteq> Hz_none"
    then show "\<exists>ti tj. (\<exists>p \<in> set ?ps. \<exists>a b.
        before (filter (\<lambda>a. ac_resource a = h) (pn_accesses p)) a b
        \<and> ti = (pn_index p, ac_mode a) \<and> tj = (pn_index p, ac_mode b))
        \<and> fst ti = i \<and> classify_hazard (snd ti) (snd tj) \<noteq> Hz_none"
      using nth_iff [of "?ps ! i"] by (intro exI conjI bexI [of _ "?ps ! i"] refl) auto
  qed
  finally show ?thesis .
qed

lemma compile_valid_topo:
  "compiled_valid (compile g) \<longleftrightarrow> numPasses g \<noteq> 0 \<and> length (topo_order g) = numPasses g"
  by (auto simp: compile_def compiled_valid_def empty_compiled_def Let_def split: prod.splits)

lemma compile_sorted:
  "compiled_valid (compile g) \<Longrightarrow> cg_sortedPassIndices (compile g) = topo_order g"
  by (auto simp: compile_def compiled_valid_def empty_compiled_def Let_def split: prod.splits)

end
