(* ===== verification/Exec_Lanes.thy ===== *)
theory Exec_Lanes
  imports Exec_Order
begin

text \<open>
  Stages 3 to 5 of \<open>compile\<close>: every pass gets the queue class of its domain, a lane carries one
  queue class, the timelines split the order by lane, and a hazard between two passes of one
  lane is already ordered by that lane's timeline. The invariant \<open>lane_inv\<close> is kept by every
  \<open>assign_pass\<close>; from it follows that the search for a secondary lane is never entered.
\<close>

section \<open>Queue classes\<close>

lemma foldl_assign_by_index:
  assumes "map pn_index ps = [k..<k + length ps]" and "k + length ps \<le> length qa"
  shows "foldl (\<lambda>qa p. qa[pn_index p := f p]) qa ps
    = take k qa @ map f ps @ drop (k + length ps) qa"
  using assms
proof (induction ps arbitrary: qa k)
  case (Cons p ps)
  have hd: "pn_index p = k" and tl: "map pn_index ps = [Suc k..<Suc k + length ps]"
    using Cons.prems(1) by (simp_all add: upt_conv_Cons del: upt_Suc)
  have k: "k < length qa" using Cons.prems(2) by simp
  have "take (Suc k) (qa[k := f p]) = take k qa @ [f p]"
    using k by (simp add: take_Suc_conv_app_nth)
  then show ?case
    using Cons.IH [OF tl, of "qa[k := f p]"] Cons.prems(2) by (simp add: hd)
qed simp

lemma queue_assignments_eq:
  assumes "wf_graph g"
  shows "queue_assignments g = map (\<lambda>p. domain_queue (pn_preferredDomain p)) (eg_passes g)"
  using foldl_assign_by_index [of "eg_passes g" 0 "replicate (numPasses g) Qc_compute"] assms
  by (simp add: queue_assignments_def wf_graph_indices numPasses_def)

lemma queue_assignments_nth:
  assumes "wf_graph g" and "p < numPasses g"
  shows "queue_assignments g ! p = domain_queue (pn_preferredDomain (eg_passes g ! p))"
  using assms by (simp add: queue_assignments_eq numPasses_def)

section \<open>The lane invariant\<close>

definition lane_class :: "lane_state list \<Rightarrow> nat \<Rightarrow> queue_class" where
  "lane_class lss i = el_queueClass (ls_lane (lss ! i))"

definition lane_inv :: "nat \<Rightarrow> queue_class list \<Rightarrow> lane_assign \<Rightarrow> nat list \<Rightarrow> bool" where
  "lane_inv n qa st done \<longleftrightarrow> length (snd st) = n \<and>
     (\<forall>p \<in> set done. snd st ! p < length (fst st) \<and> lane_class (fst st) (snd st ! p) = qa ! p) \<and>
     (\<forall>i < length (fst st). el_id (ls_lane (fst st ! i)) = i
        \<and> ls_passes (fst st ! i) = filter (\<lambda>p. snd st ! p = i) done)"

lemma lane_inv_init: "lane_inv n qa ([], replicate n 0) []"
  by (simp add: lane_inv_def)

lemma lane_inv_new:
  assumes "lane_inv n qa (lss, la) done" and "p < n" and "p \<notin> set done"
  shows "lane_inv n qa (lss @ [new_lane (length lss) (qa ! p) l [p] lp], la[p := length lss]) (done @ [p])"
  using assms
  by (auto simp: lane_inv_def lane_class_def new_lane_def nth_append nth_list_update less_Suc_eq
      intro!: filter_cong filter_False)

lemma lane_inv_put:
  assumes "lane_inv n qa (lss, la) done" and "p < n" and "p \<notin> set done"
    and "i < length lss" and "lane_class lss i = qa ! p"
  shows "lane_inv n qa (put_on_lane lss la i p) (done @ [p])"
proof -
  have "filter (\<lambda>q. la[p := i] ! q = k) (done @ [p])
      = filter (\<lambda>q. la ! q = k) done @ (if i = k then [p] else [])" for k
    using assms(1-3) by (auto simp: lane_inv_def nth_list_update intro!: filter_cong)
  then show ?thesis
    using assms
    by (auto simp: lane_inv_def lane_class_def put_on_lane_def push_pass_def nth_list_update)
qed

lemma findOrCreatePrimaryLane_inv:
  assumes "lane_inv n qa (lss, la) done"
    and "findOrCreatePrimaryLane lss qc = (lss', i)"
  shows "lane_inv n qa (lss', la) done" and "i < length lss'" and "lane_class lss' i = qc"
proof -
  show "lane_inv n qa (lss', la) done"
    using assms less_irrefl
    by (fastforce simp: lane_inv_def findOrCreatePrimaryLane_def new_lane_def lane_class_def nth_append
        less_Suc_eq split: option.splits intro!: filter_False [symmetric])
  show "i < length lss'" and "lane_class lss' i = qc"
    using assms(2) find_index_Some [of "\<lambda>s. el_queueClass (ls_lane s) = qc" lss i]
    by (auto simp: findOrCreatePrimaryLane_def lane_class_def new_lane_def split: option.splits)
qed

lemma set_preds_of: "set (preds_of es p) = {re_src e | e. e \<in> set es \<and> re_dst e = p}"
  by (auto simp: preds_of_def)

text \<open>
  A pass none of whose predecessors has its queue class conflicts with no pass already on a lane
  of that class: the test \<open>hasConflictOnLane\<close> cannot succeed.
\<close>

lemma no_conflict_on_lane:
  assumes inv: "lane_inv n qa (lss, la) done" and i: "i < length lss"
    and none: "\<forall>q \<in> set (preds_of es p). qa ! q \<noteq> lane_class lss i"
    and succ: "\<forall>e \<in> set es. re_src e = p \<longrightarrow> re_dst e \<notin> set done"
  shows "\<not> hasConflictOnLane es lss p i"
proof
  assume "hasConflictOnLane es lss p i"
  then obtain q e where q: "q \<in> set (ls_passes (lss ! i))" and e: "e \<in> set es"
    and c: "re_src e = p \<and> re_dst e = q \<or> re_src e = q \<and> re_dst e = p"
    by (auto simp: hasConflictOnLane_def list_ex_iff)
  have qd: "q \<in> set done" "la ! q = i" using inv i q by (auto simp: lane_inv_def)
  then have "re_src e = q \<and> re_dst e = p" using c succ e by blast
  then have "q \<in> set (preds_of es p)" using e by (auto simp: set_preds_of)
  moreover have "qa ! q = lane_class lss i" using inv qd by (auto simp: lane_inv_def)
  ultimately show False using none by blast
qed

text \<open>So \<open>assign_pass\<close> is this shorter choice.\<close>

definition assign_pass_spec ::
  "'cb graph \<Rightarrow> raw_edge list \<Rightarrow> queue_class list \<Rightarrow> lane_assign \<Rightarrow> nat \<Rightarrow> lane_assign" where
  "assign_pass_spec g es qa st p =
     (let (lss, la) = st; qc = qa ! p in
      if pn_exclusiveLane (eg_passes g ! p)
      then (lss @ [new_lane (length lss) qc (pn_label (eg_passes g ! p)) [p] p], la[p := length lss])
      else let (lss, primary) = findOrCreatePrimaryLane lss qc;
               same = filter (\<lambda>q. qa ! q = qc) (preds_of es p)
      in if same = [] \<or> primary \<in> set (map (nth la) same) then put_on_lane lss la primary p
         else put_on_lane lss la (la ! hd same) p)"

lemma find_filter: "find P xs = (case filter P xs of [] \<Rightarrow> None | x # _ \<Rightarrow> Some x)"
  by (induction xs) auto

lemma hasPredOnLane_same:
  assumes "lane_inv n qa (lss, la) done" and "set (preds_of es p) \<subseteq> set done"
    and "i < length lss"
  shows "hasPredOnLane es la p i
    \<longleftrightarrow> i \<in> set (map (nth la) (filter (\<lambda>q. qa ! q = lane_class lss i) (preds_of es p)))"
  using assms by (auto simp: hasPredOnLane_def list_ex_iff lane_inv_def)

lemma assign_pass_eq_spec:
  assumes inv: "lane_inv n qa (lss, la) done"
    and preds: "set (preds_of es p) \<subseteq> set done"
    and succ: "\<forall>e \<in> set es. re_src e = p \<longrightarrow> re_dst e \<notin> set done"
  shows "assign_pass g es qa (lss, la) p = assign_pass_spec g es qa (lss, la) p"
proof (cases "pn_exclusiveLane (eg_passes g ! p)")
  case False
  obtain lss' i where fc: "findOrCreatePrimaryLane lss (qa ! p) = (lss', i)" by fastforce
  note inv' = findOrCreatePrimaryLane_inv [OF inv fc]
  have pol: "hasPredOnLane es la p i
      \<longleftrightarrow> i \<in> set (map (nth la) (filter (\<lambda>q. qa ! q = qa ! p) (preds_of es p)))"
    using hasPredOnLane_same [OF inv'(1) preds inv'(2)] inv'(3) by simp
  show ?thesis
  proof (cases "filter (\<lambda>q. qa ! q = qa ! p) (preds_of es p)")
    case Nil
    then have "\<forall>q \<in> set (preds_of es p). qa ! q \<noteq> lane_class lss' i"
      by (simp add: inv'(3) filter_empty_conv)
    from no_conflict_on_lane [OF inv'(1,2) this succ] show ?thesis
      using False fc pol Nil by (simp add: assign_pass_def assign_pass_spec_def find_filter Let_def)
  next
    case (Cons q qs)
    then show ?thesis
      using False fc pol
      by (simp add: assign_pass_def assign_pass_spec_def find_filter Let_def
          del: list.set_map set_filter)
  qed
qed (simp add: assign_pass_def assign_pass_spec_def Let_def)

lemma assign_pass_spec_inv:
  assumes inv: "lane_inv n qa (lss, la) done"
    and preds: "set (preds_of es p) \<subseteq> set done" and p: "p < n" "p \<notin> set done"
  shows "lane_inv n qa (assign_pass_spec g es qa (lss, la) p) (done @ [p])"
proof (cases "pn_exclusiveLane (eg_passes g ! p)")
  case True
  then show ?thesis using lane_inv_new [OF inv p] by (simp add: assign_pass_spec_def Let_def)
next
  case False
  obtain lss' i where fc: "findOrCreatePrimaryLane lss (qa ! p) = (lss', i)" by fastforce
  note inv' = findOrCreatePrimaryLane_inv [OF inv fc]
  let ?same = "filter (\<lambda>q. qa ! q = qa ! p) (preds_of es p)"
  have put: "lane_inv n qa (put_on_lane lss' la i p) (done @ [p])"
    by (rule lane_inv_put [OF inv'(1) p inv'(2,3)])
  have put': "lane_inv n qa (put_on_lane lss' la (la ! hd ?same) p) (done @ [p])"
    if "?same \<noteq> []"
  proof -
    have "hd ?same \<in> set ?same" using that by (rule hd_in_set)
    then have "hd ?same \<in> set done" "qa ! hd ?same = qa ! p" using preds by auto
    then show ?thesis
      using inv'(1) by (intro lane_inv_put [OF inv'(1) p]) (auto simp: lane_inv_def)
  qed
  show ?thesis using False fc put put' by (auto simp: assign_pass_spec_def Let_def)
qed

section \<open>Whole runs of the assignment\<close>

text \<open>What the passes assigned so far owe to the order: \<open>done\<close> is a prefix every edge respects.\<close>

lemma prefix_edges:
  assumes "wf_graph g" and "length (topo_order g) = numPasses g"
    and "topo_order g = done @ p # rest"
  shows "set (preds_of (raw_edges g) p) \<subseteq> set done"
    and "\<forall>e \<in> set (raw_edges g). re_src e = p \<longrightarrow> re_dst e \<notin> set done"
    and "p < numPasses g" and "p \<notin> set done"
proof -
  have dist: "distinct (done @ p # rest)" using topo_order_distinct [OF assms(1)] assms(3) by simp
  have all: "set (done @ p # rest) = {0..<numPasses g}"
    using topo_order_set [OF assms(1,2)] assms(3) by simp
  have ord: "before (done @ p # rest) (re_src e) (re_dst e)" if e: "e \<in> set (raw_edges g)" for e
  proof -
    have "re_dst e \<in> set (topo_order g)"
      using raw_edge_bounds(2) [OF assms(1) e] all unfolding assms(3) by simp
    from topo_order_edges [OF assms(1) e this] show ?thesis unfolding assms(3) .
  qed
  show "set (preds_of (raw_edges g) p) \<subseteq> set done"
    using before_left [OF dist] ord by (auto simp: set_preds_of)
  show "\<forall>e \<in> set (raw_edges g). re_src e = p \<longrightarrow> re_dst e \<notin> set done"
    using before_right [OF dist] ord dist by fastforce
  show "p < numPasses g" using all by auto
  show "p \<notin> set done" using dist by simp
qed

abbreviation lanes_after :: "'cb graph \<Rightarrow> nat list \<Rightarrow> lane_assign" where
  "lanes_after g done \<equiv> assign_lanes g (raw_edges g) (queue_assignments g) done"

lemma assign_lanes_snoc:
  "assign_lanes g es qa (done @ [p]) = assign_pass g es qa (assign_lanes g es qa done) p"
  by (simp add: assign_lanes_def)

lemma lanes_after_inv:
  assumes "wf_graph g" and "length (topo_order g) = numPasses g" and "topo_order g = done @ rest"
  shows "lane_inv (numPasses g) (queue_assignments g) (lanes_after g done) done"
  using assms(3)
proof (induction "done" arbitrary: rest rule: rev_induct)
  case Nil
  then show ?case by (simp add: assign_lanes_def lane_inv_init)
next
  case (snoc p "done")
  have split: "topo_order g = done @ p # rest" using snoc.prems by simp
  note pre = prefix_edges [OF assms(1,2) split]
  obtain lss la where la: "lanes_after g done = (lss, la)" by fastforce
  have inv: "lane_inv (numPasses g) (queue_assignments g) (lss, la) done"
    using snoc.IH [OF split] la by simp
  show ?case
    using assign_pass_eq_spec [OF inv pre(1,2), of g]
      assign_pass_spec_inv [OF inv pre(1,3,4), of g]
    by (simp add: assign_lanes_snoc la)
qed

lemma lanes_after_step:
  assumes "wf_graph g" and "length (topo_order g) = numPasses g"
    and "topo_order g = done @ p # rest"
  shows "lanes_after g (done @ [p])
    = assign_pass_spec g (raw_edges g) (queue_assignments g) (lanes_after g done) p"
proof -
  obtain lss la where la: "lanes_after g done = (lss, la)" by fastforce
  have "lane_inv (numPasses g) (queue_assignments g) (lss, la) done"
    using lanes_after_inv [OF assms(1,2), of "done" "p # rest"] assms(3) la by simp
  from assign_pass_eq_spec [OF this prefix_edges(1,2) [OF assms]] show ?thesis
    by (simp add: assign_lanes_snoc la)
qed

text \<open>
  Once placed, a pass keeps its lane; and the primary lane of a class, once there, stays the
  primary lane.
\<close>

definition primary_lane :: "lane_state list \<Rightarrow> queue_class \<Rightarrow> nat option" where
  "primary_lane lss qc = find_index (\<lambda>s. el_queueClass (ls_lane s) = qc) lss"

lemma primary_lane_append:
  "primary_lane lss qc = Some i \<Longrightarrow> primary_lane (lss @ ms) qc = Some i"
  by (simp add: primary_lane_def find_index_append)

lemma length_push_pass [simp]: "length (push_pass lss k p) = length lss"
  by (simp add: push_pass_def)

lemma ls_lane_push [simp]: "i < length lss \<Longrightarrow> ls_lane (push_pass lss k p ! i) = ls_lane (lss ! i)"
  by (cases "k = i") (simp_all add: push_pass_def)

lemma ls_passes_push [simp]:
  "i < length lss \<Longrightarrow>
    ls_passes (push_pass lss k p ! i) = ls_passes (lss ! i) @ (if k = i then [p] else [])"
  by (cases "k = i") (simp_all add: push_pass_def)

lemma primary_lane_push [simp]: "primary_lane (push_pass lss k p) qc = primary_lane lss qc"
  unfolding primary_lane_def by (rule find_index_cong) simp_all

lemma findOrCreate_primary:
  "findOrCreatePrimaryLane lss qc = (lss', i) \<Longrightarrow> primary_lane lss' qc = Some i \<and> (\<exists>ms. lss' = lss @ ms)"
  by (auto simp: findOrCreatePrimaryLane_def primary_lane_def find_index_append new_lane_def
      split: option.splits)

lemma assign_spec_primary:
  assumes "primary_lane lss qc = Some i"
  shows "primary_lane (fst (assign_pass_spec g es qa (lss, la) p)) qc = Some i"
proof -
  obtain lss' k where fc: "findOrCreatePrimaryLane lss (qa ! p) = (lss', k)" by fastforce
  then have "primary_lane lss' qc = Some i"
    using findOrCreate_primary [OF fc] primary_lane_append [OF assms] by auto
  then show ?thesis
    using fc primary_lane_append [OF assms]
    by (auto simp: assign_pass_spec_def put_on_lane_def Let_def)
qed

lemma assign_spec_other:
  assumes "q \<noteq> p"
  shows "snd (assign_pass_spec g es qa (lss, la) p) ! q = la ! q"
  using assms by (auto simp: assign_pass_spec_def put_on_lane_def Let_def split: prod.splits)

lemma lanes_after_stable:
  assumes "wf_graph g" and "length (topo_order g) = numPasses g"
    and "topo_order g = done @ mid @ rest"
  shows "(q \<notin> set mid \<longrightarrow> snd (lanes_after g (done @ mid)) ! q = snd (lanes_after g done) ! q)
    \<and> (primary_lane (fst (lanes_after g done)) qc = Some i
        \<longrightarrow> primary_lane (fst (lanes_after g (done @ mid))) qc = Some i)"
  using assms(3)
proof (induction mid arbitrary: rest rule: rev_induct)
  case (snoc p mid)
  have split: "topo_order g = (done @ mid) @ p # rest" using snoc.prems by simp
  have step: "lanes_after g (done @ mid @ [p])
      = assign_pass_spec g (raw_edges g) (queue_assignments g) (lanes_after g (done @ mid)) p"
    using lanes_after_step [OF assms(1,2) split] by simp
  obtain lss la where la: "lanes_after g (done @ mid) = (lss, la)" by fastforce
  show ?case using snoc.IH [of "p # rest"] split unfolding step la
    by (auto simp: assign_spec_other assign_spec_primary la)
qed simp

section \<open>Timelines\<close>

lemma lane_timelines_aux:
  assumes "\<forall>p \<in> set xs. la ! p < length ts"
  shows "foldl (\<lambda>ts p. ts[la ! p := ts ! (la ! p) @ [p]]) ts xs
    = map (\<lambda>i. ts ! i @ filter (\<lambda>p. la ! p = i) xs) [0..<length ts]"
  using assms
proof (induction xs arbitrary: ts)
  case Nil
  then show ?case by (simp add: map_nth)
next
  case (Cons x xs)
  then show ?case by (auto simp: nth_list_update intro!: nth_equalityI)
qed

lemma lane_timelines_eq:
  assumes "\<forall>p \<in> set xs. la ! p < n"
  shows "lane_timelines n la xs = map (\<lambda>i. filter (\<lambda>p. la ! p = i) xs) [0..<n]"
  using lane_timelines_aux [of xs la "replicate n []"] assms
  by (auto simp: lane_timelines_def intro!: nth_equalityI)

text \<open>The compiled graph, field by field, when the compilation succeeds.\<close>

lemma compile_fields:
  assumes "wf_graph g" and "compiled_valid (compile g)"
  shows "cg_sortedPassIndices (compile g) = topo_order g"
    and "cg_queueAssignments (compile g) = queue_assignments g"
    and "cg_laneAssignments (compile g) = snd (lanes_after g (topo_order g))"
    and "cg_lanes (compile g) = map ls_lane (fst (lanes_after g (topo_order g)))"
    and "cg_laneTimelines (compile g)
      = map (\<lambda>i. filter (\<lambda>p. cg_laneAssignments (compile g) ! p = i) (topo_order g))
          [0..<length (cg_lanes (compile g))]"
    and "cg_syncEdges (compile g) = map (make_sync_edge (cg_laneAssignments (compile g))) (raw_edges g)"
    and "cg_numCrossLaneSyncs (compile g) = length (filter se_crossLane (cg_syncEdges (compile g)))"
proof -
  have v: "numPasses g \<noteq> 0" "length (topo_order g) = numPasses g"
    using assms(2) by (auto simp: compile_valid_topo)
  obtain lss la where la: "lanes_after g (topo_order g) = (lss, la)" by fastforce
  have inv: "lane_inv (numPasses g) (queue_assignments g) (lss, la) (topo_order g)"
    using lanes_after_inv [OF assms(1) v(2), of "topo_order g" "[]"] la by simp
  then have lt: "\<forall>p \<in> set (topo_order g). la ! p < length lss" by (auto simp: lane_inv_def)
  have c: "compile g = \<lparr>cg_sortedPassIndices = topo_order g,
      cg_syncEdges = map (make_sync_edge la) (raw_edges g),
      cg_queueAssignments = queue_assignments g, cg_laneAssignments = la,
      cg_lanes = map ls_lane lss,
      cg_laneTimelines = lane_timelines (length lss) la (topo_order g),
      cg_numCrossLaneSyncs = length (filter se_crossLane (map (make_sync_edge la) (raw_edges g)))\<rparr>"
    using v la by (simp add: compile_def Let_def)
  show "cg_sortedPassIndices (compile g) = topo_order g"
    and "cg_queueAssignments (compile g) = queue_assignments g"
    and "cg_laneAssignments (compile g) = snd (lanes_after g (topo_order g))"
    and "cg_lanes (compile g) = map ls_lane (fst (lanes_after g (topo_order g)))"
    and "cg_laneTimelines (compile g)
      = map (\<lambda>i. filter (\<lambda>p. cg_laneAssignments (compile g) ! p = i) (topo_order g))
          [0..<length (cg_lanes (compile g))]"
    and "cg_syncEdges (compile g) = map (make_sync_edge (cg_laneAssignments (compile g))) (raw_edges g)"
    and "cg_numCrossLaneSyncs (compile g) = length (filter se_crossLane (cg_syncEdges (compile g)))"
    unfolding c la by (simp_all add: lane_timelines_eq [OF lt])
qed

end
