(* ===== verification/Exec_Props.thy ===== *)
theory Exec_Props
  imports Exec_Lanes
begin

text \<open>
  What \<open>ExecutionGraph::compile\<close> promises its callers, stated over the compiled graph alone, and
  the example graph of the header comment (shadow, cull, shade) the statements are tried on.
\<close>

section \<open>An example: shadow map, culling, shading\<close>

definition acc :: "resource_handle \<Rightarrow> access_mode \<Rightarrow> access_domain \<Rightarrow> access_decl" where
  "acc r m d = \<lparr>ac_resource = r, ac_mode = m, ac_domain = d, ac_offset = 0, ac_length = 0\<rparr>"

definition buffer :: "string \<Rightarrow> resource_descriptor" where
  "buffer l = \<lparr>rd_label = l, rd_sizeBytes = 1024, rd_initialDomain = Ad_host_sequential,
     rd_transient = False\<rparr>"

definition set_pass :: "('cb pass_node \<Rightarrow> 'cb pass_node) \<Rightarrow> 'cb graph \<times> nat \<Rightarrow> 'cb graph" where
  "set_pass f gi = (fst gi)\<lparr>eg_passes := (eg_passes (fst gi))
     [snd gi := f (eg_passes (fst gi) ! snd gi)]\<rparr>"

definition shadow_graph :: "unit graph" where
  "shadow_graph =
     (let (g, depth) = importResource empty_graph (buffer ''shadow_depth'');
          (g, draws) = importResource g (buffer ''draw_cmds'');
          (g, scene) = importResource g (buffer ''scene_data'');
          g = set_pass (\<lambda>p. p\<lparr>pn_preferredDomain := Ad_device_graphics\<rparr>)
                (addPassWith g ''shadow'' [acc scene Am_read Ad_device_graphics,
                   acc depth Am_write Ad_device_graphics] (Some ()));
          g = set_pass (\<lambda>p. p\<lparr>pn_preferredDomain := Ad_device_compute\<rparr>)
                (addPassWith g ''cull'' [acc scene Am_read Ad_device_compute,
                   acc draws Am_write Ad_device_compute] (Some ()));
          g = set_pass (\<lambda>p. p\<lparr>pn_preferredDomain := Ad_device_graphics\<rparr>)
                (addPassWith g ''shade'' [acc depth Am_read Ad_device_graphics,
                   acc draws Am_read Ad_device_graphics, acc scene Am_read Ad_device_graphics] (Some ()))
      in g)"

lemma shadow_graph_wf: "wf_graph shadow_graph"
  by code_simp

lemma shadow_graph_num [simp]: "numPasses shadow_graph = 3"
  by code_simp

lemma shadow_graph_valid [simp]: "compiled_valid (compile shadow_graph)"
  by code_simp

lemma shadow_graph_conflict: "conflict_on shadow_graph 1 0 2"
  by code_simp

section \<open>The order\<close>

lemma valid_order:
  assumes "wf_graph g" and "compiled_valid (compile g)"
  shows "length (topo_order g) = numPasses g" and "set (topo_order g) = {0..<numPasses g}"
    and "distinct (topo_order g)"
  using assms topo_order_set topo_order_distinct by (auto simp: compile_valid_topo)

text \<open>
  C1: when \<open>compile\<close> succeeds, its order lists every pass exactly once, and of two passes that
  touch one resource with a write among the two accesses, the one declared first comes first.
\<close>
theorem compile_topological:
  assumes "wf_graph g" and "compiled_valid (compile g)"
  shows "distinct (cg_sortedPassIndices (compile g))
    \<and> set (cg_sortedPassIndices (compile g)) = {0..<numPasses g}
    \<and> (\<forall>h i j. i < j \<and> j < numPasses g \<and> conflict_on g h i j
         \<longrightarrow> before (cg_sortedPassIndices (compile g)) i j)"
proof -
  have "before (topo_order g) i j" if ij: "i < j" "j < numPasses g" "conflict_on g h i j" for h i j
  proof -
    obtain e where "e \<in> set (raw_edges g)" "re_src e = i" "re_dst e = j"
      using conflict_has_edge [OF assms(1) ij] by blast
    then show ?thesis using topo_order_edges [OF assms(1)] valid_order(2) [OF assms] ij(2) by auto
  qed
  then show ?thesis using valid_order [OF assms] by (auto simp: compile_fields(1) [OF assms])
qed

theorem compile_topological_witness:
  "cg_sortedPassIndices (compile shadow_graph) = [0, 1, 2]
    \<and> before (cg_sortedPassIndices (compile shadow_graph)) 0 2"
proof
  show "cg_sortedPassIndices (compile shadow_graph) = [0, 1, 2]" by code_simp
  show "before (cg_sortedPassIndices (compile shadow_graph)) 0 2"
    using compile_topological [OF shadow_graph_wf shadow_graph_valid] shadow_graph_conflict
    by (elim conjE) (erule allE [of _ 1], erule allE [of _ 0], erule allE [of _ 2], simp)
qed

text \<open>
  C2: \<open>compile\<close> rejects a non-empty graph exactly when some pass declares one registered
  resource twice with a hazard between the two declarations (a read and then a write, or two
  writes, also of disjoint byte ranges). The comment calls the rejection a cycle in the graph,
  but edges follow the declaration order, so no other cycle can arise.
\<close>
theorem compile_valid_iff:
  assumes "wf_graph g"
  shows "compiled_valid (compile g)
    \<longleftrightarrow> numPasses g \<noteq> 0 \<and> (\<forall>i < numPasses g. \<not> doubly_declared g i)"
  using topo_order_complete [OF assms] topo_order_no_self [OF assms] self_hazard_iff [OF assms]
  by (auto simp: compile_valid_topo)

definition two_writes_graph :: "unit graph" where
  "two_writes_graph =
     (let (g, r) = importResource empty_graph (buffer ''buf'')
      in fst (addPassWith g ''halves'' [(acc r Am_write Ad_device_compute)\<lparr>ac_length := 512\<rparr>,
           (acc r Am_write Ad_device_compute)\<lparr>ac_offset := 512, ac_length := 512\<rparr>] (Some ())))"

theorem compile_valid_iff_witness: "\<not> compiled_valid (compile two_writes_graph)"
proof -
  have wf: "wf_graph two_writes_graph" and dd: "doubly_declared two_writes_graph 0"
    and n: "0 < numPasses two_writes_graph"
    by (code_simp, code_simp, code_simp)
  show ?thesis using compile_valid_iff [OF wf] dd n by blast
qed

section \<open>Lanes\<close>

lemma valid_lane_inv:
  assumes "wf_graph g" and "compiled_valid (compile g)"
  shows "lane_inv (numPasses g) (queue_assignments g) (lanes_after g (topo_order g)) (topo_order g)"
  using lanes_after_inv [OF assms(1) valid_order(1) [OF assms], of "topo_order g" "[]"] by simp

text \<open>
  Every pass is on an existing lane whose id is its position and whose queue class is the
  one of the pass's preferred domain; so passes of different queue classes are never on one lane.
\<close>
theorem compile_lane_classes:
  assumes "wf_graph g" and "compiled_valid (compile g)" and "p < numPasses g"
  shows "let c = compile g; l = cg_laneAssignments c ! p in
    l < length (cg_lanes c) \<and> el_id (cg_lanes c ! l) = l
    \<and> el_queueClass (cg_lanes c ! l) = domain_queue (pn_preferredDomain (eg_passes g ! p))
    \<and> cg_queueAssignments c ! p = domain_queue (pn_preferredDomain (eg_passes g ! p))"
  using valid_lane_inv [OF assms(1,2)] valid_order(2) [OF assms(1,2)] assms(3)
    queue_assignments_nth [OF assms(1,3)]
  by (simp add: compile_fields(2-4) [OF assms(1,2)] lane_inv_def lane_class_def)

theorem compile_lane_classes_witness:
  "el_queueClass (cg_lanes (compile shadow_graph) ! (cg_laneAssignments (compile shadow_graph) ! 1))
    = Qc_compute"
proof -
  have "domain_queue (pn_preferredDomain (eg_passes shadow_graph ! 1)) = Qc_compute" by code_simp
  then show ?thesis
    using compile_lane_classes [OF shadow_graph_wf shadow_graph_valid, of 1] by (simp add: Let_def)
qed

text \<open>
  The timeline of a lane lists, in the compiled order, exactly the passes assigned to the
  lane; every pass is in the timeline of its own lane and in no other.
\<close>
theorem compile_timelines:
  assumes "wf_graph g" and "compiled_valid (compile g)"
  shows "length (cg_laneTimelines (compile g)) = length (cg_lanes (compile g))
    \<and> (\<forall>l < length (cg_lanes (compile g)). cg_laneTimelines (compile g) ! l
         = filter (\<lambda>p. cg_laneAssignments (compile g) ! p = l) (cg_sortedPassIndices (compile g)))
    \<and> (\<forall>p < numPasses g. \<forall>l < length (cg_lanes (compile g)).
         p \<in> set (cg_laneTimelines (compile g) ! l) \<longleftrightarrow> cg_laneAssignments (compile g) ! p = l)"
  using valid_order(2) [OF assms]
  by (simp add: compile_fields(1,5) [OF assms])

theorem compile_timelines_witness:
  "cg_laneTimelines (compile shadow_graph) = [[0, 2], [1]]
    \<and> 2 \<in> set (cg_laneTimelines (compile shadow_graph) ! 0)"
proof
  show "cg_laneTimelines (compile shadow_graph) = [[0, 2], [1]]" by code_simp
  have "cg_laneAssignments (compile shadow_graph) ! 2 = 0"
    and "0 < length (cg_lanes (compile shadow_graph))" by (code_simp, code_simp)
  then show "2 \<in> set (cg_laneTimelines (compile shadow_graph) ! 0)"
    using compile_timelines [OF shadow_graph_wf shadow_graph_valid, THEN conjunct2, THEN conjunct2,
        rule_format, of 2 0] by (simp only: shadow_graph_num)
qed

text \<open>
  C3: the synchronisation edges between two passes are exactly their conflicts, earlier
  declaration first; an edge is marked cross-lane exactly when the two lanes differ, and one that
  is not needs no primitive because the common lane's timeline already runs the passes in order.
\<close>
theorem compile_sync_edges:
  assumes "wf_graph g" and "compiled_valid (compile g)" and "i < numPasses g" and "j < numPasses g"
  shows "((\<exists>e \<in> set (cg_syncEdges (compile g)).
            se_srcPass e = i \<and> se_dstPass e = j \<and> se_resource e = h)
          \<longleftrightarrow> i < j \<and> conflict_on g h i j)
    \<and> (\<forall>e \<in> set (cg_syncEdges (compile g)). se_srcPass e = i \<and> se_dstPass e = j \<longrightarrow>
         se_crossLane e = (cg_laneAssignments (compile g) ! i \<noteq> cg_laneAssignments (compile g) ! j)
         \<and> (se_crossLane e \<or> before
              (cg_laneTimelines (compile g) ! (cg_laneAssignments (compile g) ! i)) i j))"
proof -
  let ?la = "cg_laneAssignments (compile g)"
  have noself: "re_src e \<noteq> re_dst e" if e: "e \<in> set (raw_edges g)" for e
  proof
    assume "re_src e = re_dst e"
    then have "self_hazard g (re_dst e)" using e unfolding self_hazard_def by metis
    then show False
      using topo_order_no_self [OF assms(1) valid_order(1) [OF assms(1,2)]]
        raw_edge_bounds(2) [OF assms(1) e] by blast
  qed
  have A: "(\<exists>e \<in> set (cg_syncEdges (compile g)).
      se_srcPass e = i \<and> se_dstPass e = j \<and> se_resource e = h)
    \<longleftrightarrow> (\<exists>e \<in> set (raw_edges g). re_src e = i \<and> re_dst e = j \<and> re_resource e = h)"
    by (simp add: compile_fields(6) [OF assms(1,2)] make_sync_edge_def Let_def)
  have B: "\<dots> \<longleftrightarrow> i < j \<and> conflict_on g h i j"
    using edge_has_conflict [OF assms(1) _ noself] conflict_has_edge [OF assms(1) _ assms(4)] by metis
  have C: "before (cg_laneTimelines (compile g) ! (?la ! i)) i j"
    if e: "e \<in> set (raw_edges g)" "re_src e = i" "re_dst e = j" "?la ! i = ?la ! j" for e
  proof -
    have "before (topo_order g) i j"
      using topo_order_edges [OF assms(1) e(1)] valid_order(2) [OF assms(1,2)] e(2,3) assms(4) by simp
    then have "before (filter (\<lambda>p. ?la ! p = ?la ! i) (topo_order g)) i j"
      by (rule before_filter) (simp_all add: e(4))
    moreover have "?la ! i < length (cg_lanes (compile g))"
      using compile_lane_classes [OF assms(1-3)] by (simp add: Let_def)
    ultimately show ?thesis by (simp add: compile_fields(5) [OF assms(1,2)])
  qed
  show ?thesis
    unfolding A B using C by (auto simp: compile_fields(6) [OF assms(1,2)] make_sync_edge_def Let_def)
qed

theorem compile_sync_edges_witness:
  "\<exists>e \<in> set (cg_syncEdges (compile shadow_graph)).
     se_srcPass e = 1 \<and> se_dstPass e = 2 \<and> se_resource e = 2"
proof -
  have "conflict_on shadow_graph 2 1 2" by code_simp
  then show ?thesis
    using compile_sync_edges [OF shadow_graph_wf shadow_graph_valid, of 1 2 2] by simp
qed

section \<open>Exclusive lanes\<close>

lemma later_passes_keep_lane:
  assumes "wf_graph g" and "compiled_valid (compile g)" and "topo_order g = done @ p # rest"
  shows "cg_laneAssignments (compile g) ! p = snd (lanes_after g (done @ [p])) ! p"
    and "q \<in> set done \<Longrightarrow> cg_laneAssignments (compile g) ! q = snd (lanes_after g done) ! q"
proof -
  note v = valid_order [OF assms(1,2)]
  have dist: "p \<notin> set rest" "q \<in> set done \<Longrightarrow> q \<notin> set (p # rest)" using v(3) assms(3) by auto
  show "cg_laneAssignments (compile g) ! p = snd (lanes_after g (done @ [p])) ! p"
    using lanes_after_stable [OF assms(1) v(1), of "done @ [p]" rest "[]" p] assms(3) dist(1)
    by (simp add: compile_fields(3) [OF assms(1,2)])
  show "q \<in> set done \<Longrightarrow> cg_laneAssignments (compile g) ! q = snd (lanes_after g done) ! q"
    using lanes_after_stable [OF assms(1) v(1), of "done" "p # rest" "[]" q] assms(3) dist(2)
    by (simp add: compile_fields(3) [OF assms(1,2)])
qed

text \<open>
  A pass that asks for an exclusive lane is never put on a lane some earlier pass already
  uses: it is the first pass of its lane's timeline.
\<close>
theorem exclusive_lane_fresh:
  assumes "wf_graph g" and "compiled_valid (compile g)" and "p < numPasses g"
    and "pn_exclusiveLane (eg_passes g ! p)" and "before (cg_sortedPassIndices (compile g)) q p"
  shows "cg_laneAssignments (compile g) ! q \<noteq> cg_laneAssignments (compile g) ! p"
proof -
  note v = valid_order [OF assms(1,2)]
  obtain d r where split: "topo_order g = d @ p # r"
    using v(2) assms(3) by (metis atLeastLessThan_iff in_set_conv_decomp zero_le)
  have q: "q \<in> set d"
    using assms(5) before_left v(3) unfolding compile_fields(1) [OF assms(1,2)] split by metis
  obtain lss la where la: "lanes_after g d = (lss, la)" by fastforce
  have inv: "lane_inv (numPasses g) (queue_assignments g) (lss, la) d"
    using lanes_after_inv [OF assms(1) v(1) split] la by simp
  have "snd (lanes_after g (d @ [p])) ! p = length lss"
    using lanes_after_step [OF assms(1) v(1) split] assms(3,4) inv
    by (simp add: la assign_pass_spec_def Let_def lane_inv_def)
  moreover have "snd (lanes_after g d) ! q < length lss" using inv q by (simp add: la lane_inv_def)
  ultimately show ?thesis using later_passes_keep_lane [OF assms(1,2) split] q by simp
qed

text \<open>
  The converse direction, that no later pass joins an exclusive lane, is what the source
  announces (\<open>needs a dedicated lane\<close>, \<open>Exclusive-lane passes always get their own lane\<close>) and does
  not do: the exclusive lane carries the queue class, so it is the primary lane that the next
  pass of the class finds.
\<close>

definition present_graph :: "unit graph" where
  "present_graph =
     (let (g, a) = importResource empty_graph (buffer ''backbuffer'');
          (g, b) = importResource g (buffer ''target'');
          g = set_pass (\<lambda>p. p\<lparr>pn_preferredDomain := Ad_device_graphics, pn_exclusiveLane := True\<rparr>)
                (addPassWith g ''present'' [acc a Am_write Ad_device_graphics] (Some ()));
          g = set_pass (\<lambda>p. p\<lparr>pn_preferredDomain := Ad_device_graphics\<rparr>)
                (addPassWith g ''draw'' [acc b Am_write Ad_device_graphics] (Some ()))
      in g)"

lemma present_graph_wf: "wf_graph present_graph"
  by code_simp

lemma present_graph_valid: "compiled_valid (compile present_graph)"
  by code_simp

theorem exclusive_lane_fresh_witness:
  "\<exists>g. wf_graph g \<and> compiled_valid (compile g) \<and> pn_exclusiveLane (eg_passes g ! (1::nat))
     \<and> cg_laneAssignments (compile (g :: unit graph)) ! 0 \<noteq> cg_laneAssignments (compile g) ! 1"
proof -
  let ?g = "shadow_graph\<lparr>eg_passes := (eg_passes shadow_graph)
    [1 := (eg_passes shadow_graph ! 1)\<lparr>pn_exclusiveLane := True,
       pn_preferredDomain := Ad_device_graphics\<rparr>]\<rparr>"
  have h: "wf_graph ?g" "compiled_valid (compile ?g)" "1 < numPasses ?g"
    "pn_exclusiveLane (eg_passes ?g ! 1)" "before (cg_sortedPassIndices (compile ?g)) 0 1"
    by (code_simp, code_simp, code_simp, code_simp, code_simp)
  show ?thesis using h(1,2,4) exclusive_lane_fresh [OF h] by blast
qed

lemma primary_lane_none:
  assumes "lane_inv n qa (lss, la) done" and "\<forall>i < length lss. ls_passes (lss ! i) \<noteq> []"
    and "\<forall>q \<in> set done. qa ! q \<noteq> c"
  shows "primary_lane lss c = None"
  unfolding primary_lane_def find_index_None_nth
proof (intro allI impI)
  fix i assume i: "i < length lss"
  then have "filter (\<lambda>p. la ! p = i) done \<noteq> []" using assms(1,2) by (auto simp: lane_inv_def)
  then obtain q where "q \<in> set done" "la ! q = i" by (auto simp: filter_empty_conv)
  then show "el_queueClass (ls_lane (lss ! i)) \<noteq> c"
    using assms(1,3) by (auto simp: lane_inv_def lane_class_def)
qed

lemma put_on_lane_nonempty:
  assumes "\<forall>i < length lss. i = k \<or> ls_passes (lss ! i) \<noteq> []"
    and "put_on_lane lss la k p = (lss', la')"
  shows "\<forall>i < length lss'. ls_passes (lss' ! i) \<noteq> []"
  using assms by (auto simp: put_on_lane_def)

lemma assign_spec_nonempty:
  assumes inv: "lane_inv n qa (lss, la) done" and "set (preds_of es p) \<subseteq> set done"
    and ne: "\<forall>i < length lss. ls_passes (lss ! i) \<noteq> []"
    and st: "assign_pass_spec g es qa (lss, la) p = (lss', la')"
  shows "\<forall>i < length lss'. ls_passes (lss' ! i) \<noteq> []"
proof (cases "pn_exclusiveLane (eg_passes g ! p)")
  case True
  then show ?thesis using ne st
    by (auto simp: assign_pass_spec_def Let_def new_lane_def nth_append less_Suc_eq)
next
  case False
  obtain ms k where fc: "findOrCreatePrimaryLane lss (qa ! p) = (ms, k)" by fastforce
  let ?same = "filter (\<lambda>q. qa ! q = qa ! p) (preds_of es p)"
  have cr: "\<forall>i < length ms. i = k \<or> ls_passes (ms ! i) \<noteq> []"
    using fc ne by (auto simp: findOrCreatePrimaryLane_def nth_append less_Suc_eq split: option.splits)
  show ?thesis
  proof (cases "?same = [] \<or> k \<in> set (map (nth la) ?same)")
    case True
    then show ?thesis
      using False fc st put_on_lane_nonempty [OF cr] by (simp add: assign_pass_spec_def Let_def)
  next
    case other: False
    have h: "hd ?same \<in> set done" "qa ! hd ?same = qa ! p"
      using hd_in_set [of ?same] other assms(2) by auto
    have "ms = lss"
    proof (rule ccontr)
      assume "ms \<noteq> lss"
      then have "primary_lane lss (qa ! p) = None"
        using fc by (auto simp: findOrCreatePrimaryLane_def primary_lane_def split: option.splits)
      then show False
        using inv h unfolding primary_lane_def find_index_None_nth
        by (auto simp: lane_inv_def lane_class_def)
    qed
    then show ?thesis
      using False other fc st put_on_lane_nonempty [of ms "la ! hd ?same"] ne
      by (simp add: assign_pass_spec_def Let_def)
  qed
qed

lemma lanes_after_nonempty:
  assumes "wf_graph g" and "length (topo_order g) = numPasses g" and "topo_order g = done @ rest"
  shows "\<forall>i < length (fst (lanes_after g done)). ls_passes (fst (lanes_after g done) ! i) \<noteq> []"
  using assms(3)
proof (induction "done" arbitrary: rest rule: rev_induct)
  case (snoc p "done")
  have split: "topo_order g = done @ p # rest" using snoc.prems by simp
  obtain lss la where la: "lanes_after g done = (lss, la)" by fastforce
  obtain ms lb where st: "assign_pass_spec g (raw_edges g) (queue_assignments g) (lss, la) p = (ms, lb)"
    by fastforce
  have "lane_inv (numPasses g) (queue_assignments g) (lss, la) done"
    using lanes_after_inv [OF assms(1,2) split] la by simp
  from assign_spec_nonempty [OF this prefix_edges(1) [OF assms(1,2) split] _ st] show ?case
    using snoc.IH [OF split] lanes_after_step [OF assms(1,2) split] la st by simp
qed (simp add: assign_lanes_def)

text \<open>
  When the first pass of a queue class in the compiled order is exclusive, every later
  non-exclusive pass of the class that depends on no pass of the class is put on that very lane.
\<close>
theorem exclusive_lane_shared:
  assumes "wf_graph g" and "compiled_valid (compile g)"
    and "cg_sortedPassIndices (compile g) = d @ p # m @ q # r"
    and "pn_exclusiveLane (eg_passes g ! p)" and "\<not> pn_exclusiveLane (eg_passes g ! q)"
    and "cg_queueAssignments (compile g) ! q = cg_queueAssignments (compile g) ! p"
    and "\<forall>x \<in> set d. cg_queueAssignments (compile g) ! x \<noteq> cg_queueAssignments (compile g) ! p"
    and "\<forall>e \<in> set (cg_syncEdges (compile g)). se_dstPass e = q \<longrightarrow>
      cg_queueAssignments (compile g) ! se_srcPass e \<noteq> cg_queueAssignments (compile g) ! p"
  shows "cg_laneAssignments (compile g) ! q = cg_laneAssignments (compile g) ! p"
proof -
  note v = valid_order [OF assms(1,2)]
  let ?qa = "queue_assignments g" and ?c = "queue_assignments g ! p"
  have qa: "cg_queueAssignments (compile g) = ?qa" by (rule compile_fields(2) [OF assms(1,2)])
  have sp: "topo_order g = d @ p # m @ q # r" and sq: "topo_order g = (d @ p # m) @ q # r"
    using assms(3) compile_fields(1) [OF assms(1,2)] by simp_all
  note p = prefix_edges(3) [OF assms(1) v(1) sp] and q = prefix_edges(3) [OF assms(1) v(1) sq]
  obtain lss la where la: "lanes_after g d = (lss, la)" by fastforce
  have inv: "lane_inv (numPasses g) ?qa (lss, la) d"
    using lanes_after_inv [OF assms(1) v(1) sp] la by simp
  have none: "primary_lane lss ?c = None"
    using primary_lane_none [OF inv _] lanes_after_nonempty [OF assms(1) v(1) sp] assms(7) qa la
    by simp
  have after: "lanes_after g (d @ [p])
      = (lss @ [new_lane (length lss) ?c (pn_label (eg_passes g ! p)) [p] p], la[p := length lss])"
    using lanes_after_step [OF assms(1) v(1) sp] assms(4) by (simp add: la assign_pass_spec_def Let_def)
  then have "primary_lane (fst (lanes_after g (d @ [p]))) ?c = Some (length lss)"
    using none by (simp add: primary_lane_def find_index_append new_lane_def)
  then have prim: "primary_lane (fst (lanes_after g (d @ p # m))) ?c = Some (length lss)"
    using lanes_after_stable [OF assms(1) v(1), of "d @ [p]" m "q # r" 0 ?c "length lss"] sp by simp
  obtain ls2 la2 where la2: "lanes_after g (d @ p # m) = (ls2, la2)" by fastforce
  have "filter (\<lambda>x. ?qa ! x = ?qa ! q) (preds_of (raw_edges g) q) = []"
    using assms(6,8) unfolding filter_empty_conv set_preds_of qa
    by (auto simp: compile_fields(6) [OF assms(1,2)] make_sync_edge_def Let_def)
  moreover have "findOrCreatePrimaryLane ls2 (?qa ! q) = (ls2, length lss)"
    using prim assms(6) by (simp add: la2 qa findOrCreatePrimaryLane_def primary_lane_def)
  ultimately have "lanes_after g ((d @ p # m) @ [q]) = put_on_lane ls2 la2 (length lss) q"
    using lanes_after_step [OF assms(1) v(1) sq] assms(5) by (simp add: la2 assign_pass_spec_def Let_def)
  then have "cg_laneAssignments (compile g) ! q = la2[q := length lss] ! q"
    using later_passes_keep_lane(1) [OF assms(1,2) sq] by (simp add: put_on_lane_def)
  moreover have "length la2 = numPasses g"
    using lanes_after_inv [OF assms(1) v(1) sq] la2 by (simp add: lane_inv_def)
  moreover have "cg_laneAssignments (compile g) ! p = length lss"
    using later_passes_keep_lane(1) [OF assms(1,2) sp] after inv p by (simp add: lane_inv_def)
  ultimately show ?thesis using q by simp
qed

theorem exclusive_lane_shared_witness:
  "pn_exclusiveLane (eg_passes present_graph ! 0)
    \<and> cg_laneAssignments (compile present_graph) ! 1 = cg_laneAssignments (compile present_graph) ! 0"
proof
  show ex: "pn_exclusiveLane (eg_passes present_graph ! 0)" by code_simp
  have h: "cg_sortedPassIndices (compile present_graph) = [] @ 0 # [] @ 1 # []"
    "\<not> pn_exclusiveLane (eg_passes present_graph ! 1)"
    "cg_queueAssignments (compile present_graph) ! 1 = cg_queueAssignments (compile present_graph) ! 0"
    "\<forall>e \<in> set (cg_syncEdges (compile present_graph)). se_dstPass e = 1 \<longrightarrow>
      cg_queueAssignments (compile present_graph) ! se_srcPass e
        \<noteq> cg_queueAssignments (compile present_graph) ! 0"
    by (code_simp, code_simp, code_simp, code_simp)
  show "cg_laneAssignments (compile present_graph) ! 1 = cg_laneAssignments (compile present_graph) ! 0"
    by (rule exclusive_lane_shared [OF present_graph_wf present_graph_valid h(1) ex h(2,3) _ h(4)]) simp
qed

end
