(* ===== verification/Exec_Run.thy ===== *)
theory Exec_Run
  imports Exec_Props
begin

text \<open>
  \<open>ExecutionGraph::executeInline\<close>: the passes run one after the other in the compiled order. A
  callback is a state transformer on the contents of the resources. The theorem is that the
  reordering by priority and cost cannot be observed: the final contents are those of running
  the passes in declaration order, for callbacks that keep to what their pass declares.
\<close>

section \<open>Interface: steps that commute unless they depend on each other\<close>

locale commuting_steps =
  fixes step :: "'p \<Rightarrow> 's \<Rightarrow> 's"
    and dep :: "'p \<Rightarrow> 'p \<Rightarrow> bool"
  assumes commute: "\<not> dep p q \<Longrightarrow> \<not> dep q p \<Longrightarrow> step p (step q s) = step q (step p s)"
begin

lemma move_front:
  assumes "\<forall>a \<in> set as. \<not> dep x a \<and> \<not> dep a x"
  shows "fold step (as @ x # bs) s = fold step (x # as @ bs) s"
  using assms by (induction as arbitrary: s) (auto simp: commute)

lemma fold_reorder:
  assumes "distinct xs" and "mset xs = mset ys"
    and "\<And>p q. before xs p q \<Longrightarrow> dep p q \<or> dep q p \<Longrightarrow> before ys p q"
  shows "fold step xs s = fold step ys s"
  using assms
proof (induction xs arbitrary: ys s)
  case (Cons x xs)
  have "distinct ys" using Cons.prems(1,2) by (metis mset_eq_imp_distinct_iff)
  have "x \<in> set ys" using Cons.prems(2) by (metis list.set_intros(1) set_mset_mset)
  then obtain as bs where ys: "ys = as @ x # bs" by (auto simp: in_set_conv_decomp)
  have free: "\<forall>a \<in> set as. \<not> dep x a \<and> \<not> dep a x"
  proof (rule ballI, rule ccontr)
    fix a assume a: "a \<in> set as" and "\<not> (\<not> dep x a \<and> \<not> dep a x)"
    have "a \<in> set (x # xs)" using a ys Cons.prems(2)
      by (metis Un_iff set_append set_mset_mset)
    moreover have "a \<noteq> x" using a ys \<open>distinct ys\<close> by auto
    ultimately have "before (x # xs) x a" by simp
    with Cons.prems(3) \<open>\<not> (\<not> dep x a \<and> \<not> dep a x)\<close> have "before ys x a" by blast
    moreover have "before ys a x" using a by (simp add: ys before_append)
    ultimately show False using before_asym \<open>distinct ys\<close> by metis
  qed
  have "fold step xs (step x s) = fold step (as @ bs) (step x s)"
  proof (rule Cons.IH)
    show "distinct xs" and "mset xs = mset (as @ bs)" using Cons.prems(1,2) ys by simp_all
    fix p q assume pq: "before xs p q" "dep p q \<or> dep q p"
    then have "before ys p q" using Cons.prems(3) by simp
    moreover have "p \<noteq> x" "q \<noteq> x" using before_in_set [OF pq(1)] Cons.prems(1) by auto
    ultimately show "before (as @ bs) p q" by (auto simp: ys before_append)
  qed
  then show ?case using move_front [OF free] by (simp add: ys)
qed simp

end

section \<open>Inline execution\<close>

type_synonym 'v store = "resource_handle \<Rightarrow> 'v"
type_synonym 'v callback = "'v store \<Rightarrow> 'v store"

definition run_pass :: "'v callback graph \<Rightarrow> nat \<Rightarrow> 'v store \<Rightarrow> 'v store" where
  "run_pass g p s = (case pn_callback (eg_passes g ! p) of None \<Rightarrow> s | Some f \<Rightarrow> f s)"

definition executeInline :: "'v callback graph \<Rightarrow> compiled_graph \<Rightarrow> 'v store \<Rightarrow> 'v store" where
  "executeInline g c s =
     (if \<not> compiled_valid c then s else fold (run_pass g) (cg_sortedPassIndices c) s)"

text \<open>What a pass declares, and a callback that keeps to it.\<close>

definition touched :: "'cb graph \<Rightarrow> nat \<Rightarrow> resource_handle set" where
  "touched g p = {h. h \<in> fst ` set (eg_resources g) \<and> (\<exists>a \<in> set (pn_accesses (eg_passes g ! p)).
     ac_resource a = h \<and> (involves_read (ac_mode a) \<or> involves_write (ac_mode a)))}"

definition written :: "'cb graph \<Rightarrow> nat \<Rightarrow> resource_handle set" where
  "written g p = {h. h \<in> fst ` set (eg_resources g) \<and> (\<exists>a \<in> set (pn_accesses (eg_passes g ! p)).
     ac_resource a = h \<and> involves_write (ac_mode a))}"

definition respects_decl :: "'v callback graph \<Rightarrow> nat \<Rightarrow> bool" where
  "respects_decl g p \<longleftrightarrow>
     (\<forall>s h. h \<notin> written g p \<longrightarrow> run_pass g p s h = s h) \<and>
     (\<forall>s t. (\<forall>h \<in> touched g p. s h = t h) \<longrightarrow>
        (\<forall>h \<in> written g p. run_pass g p s h = run_pass g p t h))"

definition exec_dep :: "'v callback graph \<Rightarrow> nat \<Rightarrow> nat \<Rightarrow> bool" where
  "exec_dep g i j \<longleftrightarrow> written g i \<inter> touched g j \<noteq> {} \<or> written g j \<inter> touched g i \<noteq> {}
     \<or> \<not> respects_decl g i \<or> \<not> respects_decl g j"

lemma no_conflict_apart:
  assumes "\<nexists>h. conflict_on g h i j"
  shows "written g i \<inter> touched g j = {}" and "written g j \<inter> touched g i = {}"
  using assms by (fastforce simp: written_def touched_def conflict_on_def classify_hazard_none_iff)+

lemma written_touched: "written g p \<subseteq> touched g p"
  by (auto simp: written_def touched_def)

lemma run_pass_apart:
  assumes "respects_decl g i" and "respects_decl g j"
    and "written g i \<inter> touched g j = {}" and "written g j \<inter> touched g i = {}"
  shows "run_pass g i (run_pass g j s) = run_pass g j (run_pass g i s)"
proof
  fix h
  have keep: "run_pass g j s h' = s h'" if "h' \<in> touched g i" for h'
    using assms(2,4) that unfolding respects_decl_def by blast
  have keep': "run_pass g i s h' = s h'" if "h' \<in> touched g j" for h'
    using assms(1,3) that unfolding respects_decl_def by blast
  consider (i) "h \<in> written g i" "h \<notin> written g j" | (j) "h \<in> written g j" "h \<notin> written g i"
    | (n) "h \<notin> written g i" "h \<notin> written g j"
    using assms(3) written_touched [of g j] by blast
  then show "run_pass g i (run_pass g j s) h = run_pass g j (run_pass g i s) h"
  proof cases
    case i
    then have "run_pass g i (run_pass g j s) h = run_pass g i s h"
      using assms(1) keep unfolding respects_decl_def by blast
    then show ?thesis using assms(2) i unfolding respects_decl_def by metis
  next
    case j
    then have "run_pass g j (run_pass g i s) h = run_pass g j s h"
      using assms(2) keep' unfolding respects_decl_def by blast
    then show ?thesis using assms(1) j unfolding respects_decl_def by metis
  next
    case n
    then show ?thesis using assms(1,2) unfolding respects_decl_def by metis
  qed
qed

interpretation inline: commuting_steps "run_pass g" "exec_dep g" for g
proof
  fix p q s
  assume "\<not> exec_dep g p q" and "\<not> exec_dep g q p"
  then show "run_pass g p (run_pass g q s) = run_pass g q (run_pass g p s)"
    unfolding exec_dep_def by (intro run_pass_apart) blast+
qed

text \<open>
  C4: running the compiled order gives the resource contents that running the passes in
  declaration order gives, whatever priorities and cost hints did to the order, as long as every
  callback writes only what its pass declares as written and depends only on what it declares.
\<close>
theorem executeInline_declaration_order:
  assumes "wf_graph g" and "compiled_valid (compile g)"
    and "\<forall>p < numPasses g. respects_decl g p"
  shows "executeInline g (compile g) s = fold (run_pass g) [0..<numPasses g] s"
proof -
  note top = compile_topological [OF assms(1,2)]
  let ?o = "cg_sortedPassIndices (compile g)"
  have "fold (run_pass g) [0..<numPasses g] s = fold (run_pass g) ?o s"
  proof (rule inline.fold_reorder)
    show "distinct [0..<numPasses g]" by simp
    show "mset [0..<numPasses g] = mset ?o"
      using top by (metis distinct_upt set_eq_iff_mset_eq_distinct set_upt)
    fix p q assume pq: "before [0..<numPasses g] p q" and "exec_dep g p q \<or> exec_dep g q p"
    then have pq': "p < q" "q < numPasses g" by (simp_all add: before_upt)
    with \<open>exec_dep g p q \<or> exec_dep g q p\<close> assms(3)
    have "written g p \<inter> touched g q \<noteq> {} \<or> written g q \<inter> touched g p \<noteq> {}"
      by (auto simp: exec_dep_def)
    then have "\<exists>h. conflict_on g h p q" using no_conflict_apart [of g p q] by blast
    then show "before ?o p q" using top pq' by blast
  qed
  then show ?thesis using assms(2) by (simp add: executeInline_def)
qed

text \<open>A run of the example: a pass that bumps its output, a later one that reads it.\<close>

definition bump_graph :: "nat callback graph" where
  "bump_graph =
     (let (g, a) = importResource empty_graph (buffer ''a'');
          (g, b) = importResource g (buffer ''b'');
          (g, _) = addPassWith g ''fill'' [acc a Am_write Ad_any] (Some (\<lambda>s. s(1 := 5)));
          (g, _) = addPassWith g ''copy'' [acc a Am_read Ad_any, acc b Am_write Ad_any]
                     (Some (\<lambda>s. s(2 := s 1 + 1)))
      in g)"

lemma bump_graph_passes:
  "fst ` set (eg_resources bump_graph) = {1, 2}" "numPasses bump_graph = 2"
  "written bump_graph 0 = {1}" "written bump_graph 1 = {2}" "touched bump_graph 1 = {1, 2}"
  "run_pass bump_graph 0 = (\<lambda>s. s(1 := 5))" "run_pass bump_graph 1 = (\<lambda>s. s(2 := s 1 + 1))"
  by (auto simp: bump_graph_def importResource_def empty_graph_def addPassWith_def addPass_def
      default_pass_def acc_def buffer_def numPasses_def written_def touched_def run_pass_def
      enum_simps)

theorem executeInline_declaration_order_witness:
  "executeInline bump_graph (compile bump_graph) (\<lambda>_. 0) 2 = 6"
proof -
  have h: "wf_graph bump_graph" "compiled_valid (compile bump_graph)" by (code_simp, code_simp)
  have "respects_decl bump_graph 0" and "respects_decl bump_graph 1"
    by (auto simp: respects_decl_def bump_graph_passes bump_graph_passes [unfolded One_nat_def])
  then have "\<forall>p < numPasses bump_graph. respects_decl bump_graph p"
    by (auto simp: bump_graph_passes less_2_cases_iff)
  from executeInline_declaration_order [OF h this, of "\<lambda>_. 0"] show ?thesis
    by (simp add: bump_graph_passes bump_graph_passes [unfolded One_nat_def]
        upt_rec [of 0] upt_rec [of 1] numeral_2_eq_2)
qed

end
