(* ===== verification/Exec_Cpu.thy ===== *)
theory Exec_Cpu
  imports Exec_Run
begin

text \<open>
  \<open>CpuGraphExecutor::execute\<close>: dependency counters and successor lists taken from the
  synchronisation edges, a root loop on the calling thread that launches every pass whose
  counter it reads as zero, and tasks that run their pass, count its successors down and launch
  those that reach zero. The scheduler is a bag of enqueued tasks; a step of the relation is one
  atomic operation of the root loop or of one task.
\<close>

section \<open>State and steps\<close>

record cpu_state =
  cx_deps :: "int list"
  cx_roots :: "nat list"
  cx_queue :: "nat list"
  cx_running :: "(nat \<times> nat list) list"
  cx_log :: "nat list"
  cx_remaining :: u32
  cx_complete :: bool

definition cpu_deps :: "nat \<Rightarrow> sync_edge list \<Rightarrow> int list" where
  "cpu_deps n es = foldl (\<lambda>ds e. ds[se_dstPass e := ds ! se_dstPass e + 1]) (replicate n 0) es"

definition cpu_succs :: "nat \<Rightarrow> sync_edge list \<Rightarrow> nat list list" where
  "cpu_succs n es =
     foldl (\<lambda>ss e. ss[se_srcPass e := ss ! se_srcPass e @ [se_dstPass e]]) (replicate n []) es"

text \<open>The state when \<open>execute\<close> reaches its root loop; \<open>None\<close> when it returns at once.\<close>

definition cpu_execute :: "'cb graph \<Rightarrow> compiled_graph \<Rightarrow> cpu_state option" where
  "cpu_execute g c =
     (if \<not> compiled_valid c then None
      else Some \<lparr>cx_deps = cpu_deps (numPasses g) (cg_syncEdges c),
             cx_roots = cg_sortedPassIndices c, cx_queue = [], cx_running = [], cx_log = [],
             cx_remaining = of_nat (length (cg_sortedPassIndices c)), cx_complete = False\<rparr>)"

definition cpu_launch :: "nat \<Rightarrow> cpu_state \<Rightarrow> cpu_state" where
  "cpu_launch p s = s\<lparr>cx_queue := cx_queue s @ [p]\<rparr>"

definition cpu_root :: "nat \<Rightarrow> cpu_state \<Rightarrow> cpu_state" where
  "cpu_root p s = (if cx_deps s ! p = 0 then cpu_launch p s else s)"

definition cpu_release :: "nat \<Rightarrow> cpu_state \<Rightarrow> cpu_state" where
  "cpu_release t s =
     (let old = cx_deps s ! t; s = s\<lparr>cx_deps := (cx_deps s)[t := old - 1]\<rparr>
      in if old = 1 then cpu_launch t s else s)"

definition cpu_finish :: "cpu_state \<Rightarrow> cpu_state" where
  "cpu_finish s =
     (let old = cx_remaining s; s = s\<lparr>cx_remaining := old - 1\<rparr>
      in if old = 1 then s\<lparr>cx_complete := True\<rparr> else s)"

inductive cpu_step :: "nat list list \<Rightarrow> cpu_state \<Rightarrow> cpu_state \<Rightarrow> bool" for succs where
  root: "cx_roots s = p # ps \<Longrightarrow> cpu_step succs s ((cpu_root p s)\<lparr>cx_roots := ps\<rparr>)"
| begin_task: "cx_queue s = q1 @ p # q2 \<Longrightarrow>
    cpu_step succs s (s\<lparr>cx_queue := q1 @ q2, cx_log := cx_log s @ [p],
      cx_running := (p, succs ! p) # cx_running s\<rparr>)"
| release: "cx_running s = r1 @ (p, t # ts) # r2 \<Longrightarrow>
    cpu_step succs s (cpu_release t (s\<lparr>cx_running := r1 @ (p, ts) # r2\<rparr>))"
| finish: "cx_running s = r1 @ (p, []) # r2 \<Longrightarrow>
    cpu_step succs s (cpu_finish (s\<lparr>cx_running := r1 @ r2\<rparr>))"

inductive cpu_reach :: "nat list list \<Rightarrow> cpu_state \<Rightarrow> cpu_state \<Rightarrow> bool" for succs s0 where
  start: "cpu_reach succs s0 s0"
| step: "cpu_reach succs s0 s \<Longrightarrow> cpu_step succs s t \<Longrightarrow> cpu_reach succs s0 t"

text \<open>The same steps as moves of a schedule: which queued or running task moves is its position.\<close>

datatype cpu_move = Root | Begin_at nat | Release_at nat | Finish_at nat

fun cpu_do :: "nat list list \<Rightarrow> cpu_state \<Rightarrow> cpu_move \<Rightarrow> cpu_state option" where
  "cpu_do succs s Root = (case cx_roots s of [] \<Rightarrow> None
     | p # ps \<Rightarrow> Some ((cpu_root p s)\<lparr>cx_roots := ps\<rparr>))"
| "cpu_do succs s (Begin_at i) = (if i < length (cx_queue s)
     then let p = cx_queue s ! i in
       Some (s\<lparr>cx_queue := take i (cx_queue s) @ drop (Suc i) (cx_queue s),
               cx_log := cx_log s @ [p], cx_running := (p, succs ! p) # cx_running s\<rparr>)
     else None)"
| "cpu_do succs s (Release_at i) = (if i < length (cx_running s)
     then case cx_running s ! i of (p, []) \<Rightarrow> None
       | (p, t # ts) \<Rightarrow> Some (cpu_release t (s\<lparr>cx_running :=
           take i (cx_running s) @ (p, ts) # drop (Suc i) (cx_running s)\<rparr>))
     else None)"
| "cpu_do succs s (Finish_at i) = (if i < length (cx_running s)
     then case cx_running s ! i of
         (p, []) \<Rightarrow> Some (cpu_finish (s\<lparr>cx_running := take i (cx_running s) @ drop (Suc i) (cx_running s)\<rparr>))
       | (p, t # ts) \<Rightarrow> None
     else None)"

fun cpu_schedule :: "nat list list \<Rightarrow> cpu_state \<Rightarrow> cpu_move list \<Rightarrow> cpu_state option" where
  "cpu_schedule succs s [] = Some s"
| "cpu_schedule succs s (m # ms) = Option.bind (cpu_do succs s m) (\<lambda>s. cpu_schedule succs s ms)"

lemma cpu_do_step: "cpu_do succs s m = Some t \<Longrightarrow> cpu_step succs s t"
  by (cases m)
    (auto split: list.splits if_splits prod.splits simp: Let_def
      intro: cpu_step.intros id_take_nth_drop [THEN sym, THEN ssubst] dest!: id_take_nth_drop)

lemma cpu_schedule_reach:
  "cpu_schedule succs s ms = Some t \<Longrightarrow> cpu_reach succs s0 s \<Longrightarrow> cpu_reach succs s0 t"
proof (induction ms arbitrary: s)
  case (Cons m ms)
  then obtain s' where "cpu_do succs s m = Some s'" and "cpu_schedule succs s' ms = Some t"
    by (auto split: bind_splits)
  then show ?case using Cons.IH cpu_reach.step [OF Cons.prems(2) cpu_do_step] by blast
qed simp

section \<open>The root loop races with the tasks it launches\<close>

definition diamond_graph :: "unit graph" where
  "diamond_graph =
     (let (g, x) = importResource empty_graph (buffer ''x'');
          (g, y) = importResource g (buffer ''y'');
          (g, z) = importResource g (buffer ''z'');
          (g, _) = addPassWith g ''r'' [acc x Am_write Ad_any] (Some ());
          (g, _) = addPassWith g ''a'' [acc x Am_read Ad_any, acc y Am_write Ad_any] (Some ());
          (g, _) = addPassWith g ''b'' [acc x Am_read Ad_any, acc z Am_write Ad_any] (Some ());
          (g, _) = addPassWith g ''s'' [acc y Am_read Ad_any, acc z Am_read Ad_any] (Some ())
      in g)"

lemma diamond_tables:
  "cpu_execute diamond_graph (compile diamond_graph)
    = Some \<lparr>cx_deps = [0, 1, 1, 2], cx_roots = [0, 1, 2, 3], cx_queue = [], cx_running = [],
        cx_log = [], cx_remaining = 4, cx_complete = False\<rparr>"
  "cpu_succs (numPasses diamond_graph) (cg_syncEdges (compile diamond_graph)) = [[1, 2], [3], [3], []]"
  by (code_simp, code_simp)

text \<open>
  The root loop tests the live counter, so a pass that a task has just launched is launched a
  second time when the loop comes to it. In the diamond r, a, b, s a reachable state has run a
  twice and, its second run having counted s down again, s before b, although s reads what b writes.
\<close>
theorem cpu_execute_double_launch:
  "\<exists>s0 s. cpu_execute diamond_graph (compile diamond_graph) = Some s0
    \<and> cpu_reach (cpu_succs (numPasses diamond_graph) (cg_syncEdges (compile diamond_graph))) s0 s
    \<and> cx_log s = [0, 1, 1, 3] \<and> conflict_on diamond_graph 3 2 3"
proof -
  let ?ss = "cpu_succs (numPasses diamond_graph) (cg_syncEdges (compile diamond_graph))"
  let ?moves = "[Root, Begin_at 0, Release_at 0, Root, Begin_at 0, Begin_at 0, Release_at 0,
    Release_at 1, Begin_at 0]"
  have "map_option cx_log (Option.bind (cpu_execute diamond_graph (compile diamond_graph))
      (\<lambda>s0. cpu_schedule ?ss s0 ?moves)) = Some [0, 1, 1, 3]" by code_simp
  then obtain s0 s where s0: "cpu_execute diamond_graph (compile diamond_graph) = Some s0"
    and s: "cpu_schedule ?ss s0 ?moves = Some s" and "cx_log s = [0, 1, 1, 3]"
    by (auto split: bind_splits)
  moreover have "conflict_on diamond_graph 3 2 3" by code_simp
  ultimately show ?thesis using s0 cpu_schedule_reach [OF s cpu_reach.start] by blast
qed

end
