(* ===== verification/Exec_Cpu_Safe.thy ===== *)
theory Exec_Cpu_Safe
  imports Exec_Cpu
begin

text \<open>
  \<open>CpuGraphExecutor::execute\<close> when the root loop is over before the first task starts: every pass
  runs once, in an order that respects the synchronisation edges, and every run ends with the
  completion event.
\<close>

section \<open>Correct once the root loop is over before the first task starts\<close>

text \<open>
  \<open>pending\<close> counts what the counter of \<open>t\<close> still waits for: the edges into \<open>t\<close> of passes not
  started, and those a running pass has yet to count down.
\<close>

definition pending :: "nat list list \<Rightarrow> nat list \<Rightarrow> (nat \<times> nat list) list \<Rightarrow> nat \<Rightarrow> nat" where
  "pending succs log run t =
     (\<Sum>p \<in> {..<length succs} - set log. count_list (succs ! p) t)
     + sum_list (map (\<lambda>r. count_list (snd r) t) run)"

definition cpu_inv :: "nat list list \<Rightarrow> cpu_state \<Rightarrow> bool" where
  "cpu_inv succs s \<longleftrightarrow> (let n = length succs in
     cx_roots s = [] \<and> distinct (cx_log s @ cx_queue s) \<and> set (cx_log s @ cx_queue s) \<subseteq> {..<n} \<and>
     (\<forall>r \<in> set (cx_running s). set (snd r) \<subseteq> {..<n}) \<and>
     length (cx_deps s) = n \<and> (\<forall>t < n. cx_deps s ! t = int (pending succs (cx_log s) (cx_running s) t)) \<and>
     (\<forall>t < n. t \<in> set (cx_log s @ cx_queue s) \<longleftrightarrow> cx_deps s ! t = 0) \<and>
     (\<forall>t \<in> set (cx_log s). \<forall>p < n. t \<in> set (succs ! p) \<longrightarrow> before (cx_log s) p t) \<and>
     length (cx_running s) \<le> length (cx_log s) \<and>
     cx_remaining s = of_nat (n - length (cx_log s) + length (cx_running s)) \<and>
     (cx_complete s \<longleftrightarrow> length (cx_log s) = n \<and> cx_running s = []))"

lemma pending_zero:
  "pending succs log run t = 0 \<Longrightarrow> p < length succs \<Longrightarrow> t \<in> set (succs ! p) \<Longrightarrow> p \<in> set log"
  by (auto simp: pending_def count_list_0_iff)

lemma pending_start:
  assumes "p < length succs" and "p \<notin> set log"
  shows "pending succs (log @ [p]) ((p, succs ! p) # run) t = pending succs log run t"
proof -
  have split: "{..<length succs} - set log = insert p ({..<length succs} - set (log @ [p]))"
    using assms by auto
  have "(\<Sum>q \<in> {..<length succs} - set log. count_list (succs ! q) t)
      = count_list (succs ! p) t
        + (\<Sum>q \<in> {..<length succs} - set (log @ [p]). count_list (succs ! q) t)"
    unfolding split by (rule sum.insert) auto
  then show ?thesis unfolding pending_def by simp
qed

lemma cpu_log_length:
  assumes "distinct log" and "set log \<subseteq> {..<n}"
  shows "length log \<le> n"
  using assms by (metis card_lessThan card_mono distinct_card finite_lessThan)

lemma cpu_inv_begin:
  assumes inv: "cpu_inv succs s" and succs: "\<forall>p < length succs. set (succs ! p) \<subseteq> {..<length succs}"
    and q: "cx_queue s = q1 @ p # q2"
  shows "cpu_inv succs (s\<lparr>cx_queue := q1 @ q2, cx_log := cx_log s @ [p],
    cx_running := (p, succs ! p) # cx_running s\<rparr>)"
proof -
  let ?n = "length succs"
  note i = inv [unfolded cpu_inv_def Let_def]
  have p: "p < ?n" "p \<notin> set (cx_log s)" "cx_deps s ! p = 0"
    using i q by auto
  have ord: "before (cx_log s @ [p]) p' p" if "p' < ?n" "p \<in> set (succs ! p')" for p'
    using pending_zero [of succs "cx_log s" "cx_running s" p p'] that i p by auto
  have "length (cx_log s @ [p]) \<le> ?n"
    using i q p by (intro cpu_log_length) auto
  then have len: "Suc (length (cx_log s)) \<le> ?n" by simp
  then have "?n - length (cx_log s @ [p]) + length ((p, succs ! p) # cx_running s)
      = ?n - length (cx_log s) + length (cx_running s)" by simp
  then have rem: "cx_remaining s
      = of_nat (?n - length (cx_log s @ [p]) + length ((p, succs ! p) # cx_running s))"
    using i by presburger
  have "length (cx_log s) \<noteq> ?n" using len by simp
  then have "\<not> cx_complete s" using i by simp
  then show ?thesis
    unfolding cpu_inv_def Let_def
    by (intro conjI; use i p(2) q ord succs p(1) rem in
      \<open>simp add: pending_start [OF p(1,2)] del: of_nat_Suc of_nat_add; blast?\<close>)
qed

lemma pending_release:
  "pending succs log (r1 @ (p, t # ts) # r2) u
    = pending succs log (r1 @ (p, ts) # r2) u + (if u = t then 1 else 0)"
  by (simp add: pending_def)

lemma cpu_inv_release:
  assumes inv: "cpu_inv succs s" and r: "cx_running s = r1 @ (p, t # ts) # r2"
  shows "cpu_inv succs (cpu_release t (s\<lparr>cx_running := r1 @ (p, ts) # r2\<rparr>))"
proof -
  let ?n = "length succs"
  note i = inv [unfolded cpu_inv_def Let_def]
  have t: "t < ?n" using i r by auto
  have dt: "cx_deps s ! t = int (pending succs (cx_log s) (r1 @ (p, ts) # r2) t) + 1"
    using i t by (simp add: r pending_release)
  then have "t \<notin> set (cx_log s @ cx_queue s)" using i t by auto
  moreover have "(cx_deps s)[t := cx_deps s ! t - 1] ! u
      = int (pending succs (cx_log s) (r1 @ (p, ts) # r2) u)" if "u < ?n" for u
    using i that dt by (simp add: r pending_release)
  ultimately show ?thesis
    using i t dt r
    by (auto simp: cpu_inv_def cpu_release_def cpu_launch_def Let_def pending_release)
qed

lemma cpu_inv_finish:
  assumes inv: "cpu_inv succs s" and n: "length succs < 2 ^ 32"
    and r: "cx_running s = r1 @ (p, []) # r2"
  shows "cpu_inv succs (cpu_finish (s\<lparr>cx_running := r1 @ r2\<rparr>))"
proof -
  let ?n = "length succs" and ?l = "length (cx_log s)"
  note i = inv [unfolded cpu_inv_def Let_def]
  let ?k = "?n - ?l + length (r1 @ r2)"
  have le: "?l \<le> ?n" using i by (intro cpu_log_length) auto
  have old: "cx_remaining s = of_nat (Suc ?k)" and k: "Suc ?k < 2 ^ 32"
    using i r le n by auto
  have one: "cx_remaining s = 1 \<longleftrightarrow> ?k = 0"
    unfolding old u32_of_nat_1 [OF k] by simp
  have pend: "pending succs (cx_log s) (cx_running s) t = pending succs (cx_log s) (r1 @ r2) t" for t
    by (simp add: r pending_def)
  have rest: "cx_remaining s - 1 = of_nat ?k" unfolding old by simp
  show ?thesis
  proof (cases "?k = 0")
    case True
    then have "length r1 = 0" "length r2 = 0" "?l = ?n"
      using le unfolding length_append by arith+
    then have "r1 = []" "r2 = []" "?l = ?n" by simp_all
    with True show ?thesis using i one rest pend r
      by (simp add: cpu_inv_def cpu_finish_def Let_def)
  next
    case False
    then have more: "\<not> (?l = ?n \<and> r1 @ r2 = [])" by auto
    have run: "\<not> cx_complete s" "length (r1 @ r2) \<le> ?l"
      "\<forall>q \<in> set (r1 @ r2). set (snd q) \<subseteq> {..<?n}" using i r by auto
    have ne: "cx_remaining s \<noteq> 1" unfolding one by (rule False)
    have fin: "cpu_finish (s\<lparr>cx_running := r1 @ r2\<rparr>)
        = s\<lparr>cx_running := r1 @ r2, cx_remaining := of_nat ?k\<rparr>"
      using ne rest by (simp add: cpu_finish_def Let_def del: of_nat_add)
    show ?thesis using i run more pend unfolding fin cpu_inv_def Let_def
      by (simp del: of_nat_add)
  qed
qed

lemma cpu_inv_step:
  assumes "cpu_step succs s t" and "cpu_inv succs s" and "length succs < 2 ^ 32"
    and "\<forall>p < length succs. set (succs ! p) \<subseteq> {..<length succs}"
  shows "cpu_inv succs t"
  using assms
proof (cases rule: cpu_step.cases)
  case root
  then show ?thesis using assms(2) by (simp add: cpu_inv_def Let_def)
qed (auto intro: cpu_inv_begin cpu_inv_release cpu_inv_finish)

lemma cpu_inv_reach:
  assumes "cpu_reach succs s t" and "cpu_inv succs s" and "length succs < 2 ^ 32"
    and "\<forall>p < length succs. set (succs ! p) \<subseteq> {..<length succs}"
  shows "cpu_inv succs t"
  using assms by (induction rule: cpu_reach.induct) (auto intro: cpu_inv_step)

section \<open>The tables of a compiled graph\<close>

lemma length_cpu_deps [simp]: "length (cpu_deps n es) = n"
  unfolding cpu_deps_def by (subst length_foldl_inv) simp_all

lemma length_cpu_succs [simp]: "length (cpu_succs n es) = n"
  unfolding cpu_succs_def by (subst length_foldl_inv) simp_all

lemma cpu_deps_nth:
  assumes "t < n"
  shows "cpu_deps n es ! t = int (length (filter (\<lambda>e. se_dstPass e = t) es))"
proof (induction es rule: rev_induct)
  case (snoc e es)
  have "cpu_deps n (es @ [e]) = (cpu_deps n es)[se_dstPass e := cpu_deps n es ! se_dstPass e + 1]"
    by (simp add: cpu_deps_def)
  then show ?case using snoc assms by (simp add: nth_list_update)
qed (simp add: cpu_deps_def assms)

lemma cpu_succs_nth:
  assumes "p < n"
  shows "cpu_succs n es ! p = map se_dstPass (filter (\<lambda>e. se_srcPass e = p) es)"
proof (induction es rule: rev_induct)
  case (snoc e es)
  have "cpu_succs n (es @ [e])
      = (cpu_succs n es)[se_srcPass e := cpu_succs n es ! se_srcPass e @ [se_dstPass e]]"
    by (simp add: cpu_succs_def)
  then show ?case using snoc assms by (simp add: nth_list_update)
qed (simp add: cpu_succs_def assms)

lemma cpu_succs_count:
  assumes "\<forall>e \<in> set es. se_srcPass e < n"
  shows "(\<Sum>p < n. count_list (map se_dstPass (filter (\<lambda>e. se_srcPass e = p) es)) t)
    = length (filter (\<lambda>e. se_dstPass e = t) es)"
  using assms
proof (induction es)
  case (Cons e es)
  have "(\<Sum>p < n. count_list (map se_dstPass (filter (\<lambda>e. se_srcPass e = p) (e # es))) t)
      = (\<Sum>p < n. (if p = se_srcPass e then if se_dstPass e = t then 1 else 0 else 0)
          + count_list (map se_dstPass (filter (\<lambda>e. se_srcPass e = p) es)) t)"
    by (rule sum.cong) auto
  then show ?case using Cons by (simp add: sum.distrib)
qed simp

section \<open>The state the root loop leaves\<close>

lemma root_schedule:
  "cpu_schedule ss s (replicate (length (cx_roots s)) Root)
    = Some (s\<lparr>cx_roots := [], cx_queue := cx_queue s @ filter (\<lambda>p. cx_deps s ! p = 0) (cx_roots s)\<rparr>)"
proof (induction "cx_roots s" arbitrary: s)
  case (Cons p ps)
  let ?s = "(cpu_root p s)\<lparr>cx_roots := ps\<rparr>"
  have "cpu_schedule ss s (replicate (length (cx_roots s)) Root)
      = cpu_schedule ss ?s (replicate (length (cx_roots ?s)) Root)"
    by (simp add: Cons.hyps(2) [symmetric])
  also have "\<dots> = Some (?s\<lparr>cx_roots := [],
      cx_queue := cx_queue ?s @ filter (\<lambda>p. cx_deps ?s ! p = 0) (cx_roots ?s)\<rparr>)"
    by (rule Cons.hyps(1)) simp
  finally show ?case
    by (simp add: Cons.hyps(2) [symmetric] cpu_root_def cpu_launch_def)
qed simp

text \<open>The state in which the root loop has ended and no task has started.\<close>

definition cpu_rooted :: "'cb graph \<Rightarrow> compiled_graph \<Rightarrow> cpu_state option" where
  "cpu_rooted g c = Option.bind (cpu_execute g c) (\<lambda>s0.
     cpu_schedule (cpu_succs (numPasses g) (cg_syncEdges c)) s0
       (replicate (length (cx_roots s0)) Root))"

definition edges_below :: "nat \<Rightarrow> sync_edge list \<Rightarrow> bool" where
  "edges_below n es \<longleftrightarrow> (\<forall>e \<in> set es. se_srcPass e < n \<and> se_dstPass e < n)"

lemma cpu_inv_rooted:
  assumes "edges_below (numPasses g) (cg_syncEdges c)" and "cpu_rooted g c = Some s"
    and "distinct (cg_sortedPassIndices c)" and "set (cg_sortedPassIndices c) = {0..<numPasses g}"
  shows "cpu_inv (cpu_succs (numPasses g) (cg_syncEdges c)) s"
proof -
  let ?n = "numPasses g" and ?es = "cg_syncEdges c" and ?o = "cg_sortedPassIndices c"
  have v: "compiled_valid c" using assms(2)
    by (auto simp: cpu_rooted_def cpu_execute_def split: if_splits)
  have len: "length ?o = ?n" using assms(3,4) by (metis card_atLeastLessThan diff_zero distinct_card)
  have n: "?n \<noteq> 0" using v len unfolding compiled_valid_def by (metis length_0_conv)
  have s: "s = \<lparr>cx_deps = cpu_deps ?n ?es, cx_roots = [],
      cx_queue = filter (\<lambda>p. cpu_deps ?n ?es ! p = 0) ?o, cx_running = [], cx_log = [],
      cx_remaining = of_nat ?n, cx_complete = False\<rparr>"
    using assms(2) v unfolding cpu_rooted_def cpu_execute_def
    by (simp only: if_False not_not bind.bind_lunit root_schedule option.inject if_not_P)
      (auto simp: len)
  have pend: "cpu_deps ?n ?es ! t = int (pending (cpu_succs ?n ?es) [] [] t)" if "t < ?n" for t
    using assms(1) that cpu_succs_count [of ?es ?n t]
    by (simp add: pending_def cpu_deps_nth cpu_succs_nth edges_below_def)
  have q: "\<forall>t < ?n. t \<in> set (filter (\<lambda>p. cpu_deps ?n ?es ! p = 0) ?o) \<longleftrightarrow> cpu_deps ?n ?es ! t = 0"
    and sub: "set (filter (\<lambda>p. cpu_deps ?n ?es ! p = 0) ?o) \<subseteq> {..<?n}"
    using assms(4) by auto
  show ?thesis unfolding cpu_inv_def Let_def s
    using q sub pend n assms(3) by (simp del: set_filter)
qed

section \<open>Every run ends with all passes run\<close>

lemma cpu_do_exists:
  assumes "\<And>m. cpu_do ss s m = None"
  shows "cx_roots s = [] \<and> cx_queue s = [] \<and> cx_running s = []"
proof (intro conjI)
  show "cx_roots s = []" using assms [of Root] by (auto split: list.splits)
  show "cx_queue s = []" using assms [of "Begin_at 0"] by (auto simp: Let_def split: if_splits)
  show "cx_running s = []"
    using assms [of "Release_at 0"] assms [of "Finish_at 0"]
    by (cases "cx_running s") (auto split: if_splits list.splits prod.splits)
qed

text \<open>
  In a state of the invariant in which no task can move, the first pass of a topological order that
  has not run would have no predecessor left to wait for.
\<close>

lemma cpu_stuck_complete:
  assumes inv: "cpu_inv ss s" and stuck: "cx_queue s = []" "cx_running s = []"
    and ord: "distinct ord" "set ord = {0..<length ss}"
    and topo: "\<forall>p < length ss. \<forall>t \<in> set (ss ! p). before ord p t"
  shows "cx_complete s" and "set (cx_log s) = {0..<length ss}"
proof -
  let ?n = "length ss"
  note i = inv [unfolded cpu_inv_def Let_def]
  have all: "t \<in> set (cx_log s)" if "ord = xs @ t # ys" for xs t ys
    using that
  proof (induction "length xs" arbitrary: xs t ys rule: less_induct)
    case less
    have t: "t < ?n" using ord(2) less.prems by auto
    have "p \<in> set (cx_log s)" if p: "p < ?n" "t \<in> set (ss ! p)" for p
    proof -
      have "p \<in> set xs" using topo p ord(1) less.prems before_left by metis
      then obtain xs1 xs2 where "xs = xs1 @ p # xs2" by (meson split_list)
      then show ?thesis using less.hyps [of xs1 p "xs2 @ t # ys"] less.prems by simp
    qed
    then have "pending ss (cx_log s) (cx_running s) t = 0"
      by (auto simp: pending_def stuck count_list_0_iff)
    then show ?case using i t stuck(1) by simp
  qed
  then have "{0..<?n} \<subseteq> set (cx_log s)" using ord(2) by (metis split_list subsetI)
  then show set: "set (cx_log s) = {0..<?n}" using i by auto
  have "length (cx_log s) = ?n" using i distinct_card [of "cx_log s"] by (simp add: set)
  then show "cx_complete s" using i stuck(2) by simp
qed

text \<open>What a state has still to do: start its passes, count down, finish its tasks.\<close>

definition cpu_work :: "nat list list \<Rightarrow> cpu_state \<Rightarrow> nat" where
  "cpu_work ss s = length (cx_roots s)
     + (\<Sum>p \<in> {..<length ss} - set (cx_log s). length (ss ! p) + 2)
     + sum_list (map (\<lambda>r. Suc (length (snd r))) (cx_running s))"

lemma cpu_work_step:
  assumes "cpu_step ss s t" and inv: "cpu_inv ss s"
  shows "cpu_work ss t < cpu_work ss s"
  using assms(1)
proof (cases rule: cpu_step.cases)
  case (begin_task q1 p q2)
  have p: "p < length ss" "p \<notin> set (cx_log s)"
    using inv begin_task by (auto simp: cpu_inv_def Let_def)
  then have split: "{..<length ss} - set (cx_log s)
      = insert p ({..<length ss} - set (cx_log s @ [p]))" by auto
  have "(\<Sum>q \<in> {..<length ss} - set (cx_log s). length (ss ! q) + 2)
      = (length (ss ! p) + 2)
        + (\<Sum>q \<in> {..<length ss} - set (cx_log s @ [p]). length (ss ! q) + 2)"
    unfolding split by (rule sum.insert) auto
  then show ?thesis using begin_task by (simp add: cpu_work_def)
qed (simp_all add: cpu_work_def cpu_root_def cpu_launch_def cpu_release_def cpu_finish_def Let_def)

section \<open>What execute guarantees from there\<close>

lemma compiled_edges:
  assumes "wf_graph g" and "compiled_valid (compile g)" and "e \<in> set (cg_syncEdges (compile g))"
  shows "\<exists>r \<in> set (raw_edges g). se_srcPass e = re_src r \<and> se_dstPass e = re_dst r"
  using assms(3) by (auto simp: compile_fields(6) [OF assms(1,2)] make_sync_edge_def Let_def)

lemma compiled_edges_below:
  assumes "wf_graph g" and "compiled_valid (compile g)"
  shows "edges_below (numPasses g) (cg_syncEdges (compile g))"
  using compiled_edges [OF assms] raw_edge_bounds [OF assms(1)]
  unfolding edges_below_def by (metis le_less_trans)

lemma cpu_succs_bound:
  "edges_below n es \<Longrightarrow> p < n \<Longrightarrow> set (cpu_succs n es ! p) \<subseteq> {..<n}"
  by (auto simp: cpu_succs_nth edges_below_def)

lemma compiled_conflict_succ:
  assumes "wf_graph g" and "compiled_valid (compile g)" and "i < j" and "j < numPasses g"
    and "conflict_on g h i j"
  shows "j \<in> set (cpu_succs (numPasses g) (cg_syncEdges (compile g)) ! i)"
proof -
  obtain r where "r \<in> set (raw_edges g)" "re_src r = i" "re_dst r = j"
    using conflict_has_edge [OF assms(1,3-5)] by blast
  then show ?thesis using assms(3,4)
    by (force simp: cpu_succs_nth compile_fields(6) [OF assms(1,2)] make_sync_edge_def Let_def)
qed

lemma compiled_inv:
  assumes "wf_graph g" and "compiled_valid (compile g)" and "numPasses g < 2 ^ 32"
    and "cpu_rooted g (compile g) = Some s1"
    and "cpu_reach (cpu_succs (numPasses g) (cg_syncEdges (compile g))) s1 s"
  shows "cpu_inv (cpu_succs (numPasses g) (cg_syncEdges (compile g))) s"
proof -
  note below = compiled_edges_below [OF assms(1,2)]
  have "cpu_inv (cpu_succs (numPasses g) (cg_syncEdges (compile g))) s1"
    using cpu_inv_rooted [OF below assms(4)] valid_order [OF assms(1,2)]
    by (simp add: compile_fields(1) [OF assms(1,2)])
  then show ?thesis
    using cpu_inv_reach [OF assms(5)] assms(3) cpu_succs_bound [OF below] by simp
qed

text \<open>
  C5: once the root loop is over, in every state any interleaving of the tasks reaches, no pass
  has been run twice, a pass that has run comes after each earlier pass it conflicts with, and the
  completion event is set exactly when every pass has run and no task is left.
\<close>
theorem cpu_execute_safe:
  assumes "wf_graph g" and "compiled_valid (compile g)" and "numPasses g < 2 ^ 32"
    and "cpu_rooted g (compile g) = Some s1"
    and "cpu_reach (cpu_succs (numPasses g) (cg_syncEdges (compile g))) s1 s"
  shows "distinct (cx_log s) \<and> set (cx_log s) \<subseteq> {0..<numPasses g}
    \<and> (\<forall>h i j. i < j \<and> j \<in> set (cx_log s) \<and> conflict_on g h i j \<longrightarrow> before (cx_log s) i j)
    \<and> (cx_complete s \<longleftrightarrow> set (cx_log s) = {0..<numPasses g} \<and> cx_running s = [])"
proof -
  let ?n = "numPasses g" and ?ss = "cpu_succs (numPasses g) (cg_syncEdges (compile g))"
  note inv = compiled_inv [OF assms]
  note i = inv [unfolded cpu_inv_def Let_def length_cpu_succs]
  have sub: "set (cx_log s) \<subseteq> {0..<?n}" and d: "distinct (cx_log s)" using i by auto
  have "before (cx_log s) i j" if "i < j" "j \<in> set (cx_log s)" "conflict_on g h i j" for h i j
    using compiled_conflict_succ [OF assms(1,2) that(1) _ that(3)] that sub inv
    by (force simp: cpu_inv_def Let_def)
  then have "\<forall>h i j. i < j \<and> j \<in> set (cx_log s) \<and> conflict_on g h i j \<longrightarrow> before (cx_log s) i j"
    by blast
  moreover have "length (cx_log s) = ?n \<longleftrightarrow> set (cx_log s) = {0..<?n}"
    using d sub distinct_below_full [OF d sub] distinct_card [OF d] by auto
  ultimately show ?thesis using i d sub by simp
qed

lemma diamond_num: "numPasses diamond_graph = 4"
  by code_simp

lemma diamond_facts:
  "wf_graph diamond_graph" "compiled_valid (compile diamond_graph)"
  "numPasses diamond_graph < 2 ^ 32" "conflict_on diamond_graph 1 0 2"
  by (code_simp, code_simp, simp add: diamond_num, code_simp)

text \<open>The source runs alone first; then both middle passes are queued.\<close>

lemma diamond_run:
  "\<exists>s1 s. cpu_rooted diamond_graph (compile diamond_graph) = Some s1
    \<and> cpu_schedule (cpu_succs (numPasses diamond_graph) (cg_syncEdges (compile diamond_graph))) s1
        [Begin_at 0, Release_at 0, Release_at 0, Begin_at 1] = Some s
    \<and> cx_log s = [0, 2]"
proof -
  have "map_option cx_log (Option.bind (cpu_rooted diamond_graph (compile diamond_graph))
      (\<lambda>s1. cpu_schedule (cpu_succs (numPasses diamond_graph)
        (cg_syncEdges (compile diamond_graph))) s1
        [Begin_at 0, Release_at 0, Release_at 0, Begin_at 1])) = Some [0, 2]"
    by code_simp
  then obtain s where s: "Option.bind (cpu_rooted diamond_graph (compile diamond_graph))
      (\<lambda>s1. cpu_schedule (cpu_succs (numPasses diamond_graph)
        (cg_syncEdges (compile diamond_graph))) s1
        [Begin_at 0, Release_at 0, Release_at 0, Begin_at 1]) = Some s" and "cx_log s = [0, 2]"
    by blast
  then show ?thesis unfolding bind_eq_Some_conv by blast
qed

theorem cpu_execute_safe_witness:
  "\<exists>s1 s. cpu_rooted diamond_graph (compile diamond_graph) = Some s1
    \<and> cpu_reach (cpu_succs (numPasses diamond_graph) (cg_syncEdges (compile diamond_graph))) s1 s
    \<and> cx_log s = [0, 2] \<and> before (cx_log s) 0 2"
proof -
  obtain s1 s where s1: "cpu_rooted diamond_graph (compile diamond_graph) = Some s1"
    and s: "cpu_schedule (cpu_succs (numPasses diamond_graph) (cg_syncEdges (compile diamond_graph)))
      s1 [Begin_at 0, Release_at 0, Release_at 0, Begin_at 1] = Some s" and log: "cx_log s = [0, 2]"
    using diamond_run by blast
  note r = cpu_schedule_reach [OF s cpu_reach.start]
  have "\<forall>h i j. i < j \<and> j \<in> set (cx_log s) \<and> conflict_on diamond_graph h i j
      \<longrightarrow> before (cx_log s) i j"
    using cpu_execute_safe [OF diamond_facts(1-3) s1 r] by (elim conjE)
  then have "before (cx_log s) 0 2" using diamond_facts(4) log by simp
  then show ?thesis using s1 r log by (intro exI conjI)
qed

lemma cpu_work_schedule:
  assumes "cpu_schedule ss s ms = Some t" and "cpu_inv ss s" and "length ss < 2 ^ 32"
    and "\<forall>p < length ss. set (ss ! p) \<subseteq> {..<length ss}"
  shows "length ms + cpu_work ss t \<le> cpu_work ss s"
  using assms(1,2)
proof (induction ms arbitrary: s)
  case (Cons m ms)
  then obtain s' where s': "cpu_do ss s m = Some s'" "cpu_schedule ss s' ms = Some t"
    by (auto split: bind_splits)
  note st = cpu_do_step [OF s'(1)]
  have "length ms + cpu_work ss t \<le> cpu_work ss s'"
    using Cons.IH s'(2) cpu_inv_step [OF st Cons.prems(2) assms(3,4)] by simp
  then show ?case using cpu_work_step [OF st Cons.prems(2)] by simp
qed simp

lemma cpu_succs_total:
  assumes "edges_below n es"
  shows "(\<Sum>p < n. length (cpu_succs n es ! p)) = length es"
proof -
  have "(\<Sum>p < n. length (filter (\<lambda>e. se_srcPass e = p) es)) = length es"
    if "\<forall>e \<in> set es. se_srcPass e < n" for es
    using that
  proof (induction es)
    case (Cons e es)
    have "(\<Sum>p < n. length (filter (\<lambda>e. se_srcPass e = p) (e # es)))
        = (\<Sum>p < n. (if p = se_srcPass e then 1 else 0) + length (filter (\<lambda>e. se_srcPass e = p) es))"
      by (rule sum.cong) auto
    then show ?case using Cons by (simp add: sum.distrib)
  qed simp
  from this [of es] show ?thesis using assms by (simp add: cpu_succs_nth edges_below_def)
qed

text \<open>
  C6: once the root loop is over, every schedule of the tasks is finite, of at most twice the
  passes plus the synchronisation edges atomic steps, and when no task can move any more all the
  passes have run and the completion event is set.
\<close>
theorem cpu_execute_completes:
  assumes "wf_graph g" and "compiled_valid (compile g)" and "numPasses g < 2 ^ 32"
    and "cpu_rooted g (compile g) = Some s1"
    and "cpu_schedule (cpu_succs (numPasses g) (cg_syncEdges (compile g))) s1 ms = Some s"
  shows "length ms \<le> 2 * numPasses g + length (cg_syncEdges (compile g))
    \<and> ((\<forall>m. cpu_do (cpu_succs (numPasses g) (cg_syncEdges (compile g))) s m = None)
        \<longrightarrow> cx_complete s \<and> mset (cx_log s) = mset [0..<numPasses g])"
proof -
  let ?n = "numPasses g" and ?es = "cg_syncEdges (compile g)"
  let ?ss = "cpu_succs ?n ?es"
  note below = compiled_edges_below [OF assms(1,2)]
  note inv1 = compiled_inv [OF assms(1-4) cpu_reach.start]
  note inv = compiled_inv [OF assms(1-4) cpu_schedule_reach [OF assms(5) cpu_reach.start]]
  have root: "cx_roots s1 = []" "cx_log s1 = []" "cx_running s1 = []"
    using assms(2,4) by (auto simp: cpu_rooted_def cpu_execute_def root_schedule split: if_splits)
  have "cpu_work ?ss s1 = length ?es + 2 * ?n"
    using cpu_succs_total [OF below] unfolding cpu_work_def root sum.distrib by simp
  then have "length ms \<le> 2 * ?n + length ?es"
    using cpu_work_schedule [OF assms(5) inv1] cpu_succs_bound [OF below] assms(3) by simp
  moreover have "cx_complete s \<and> mset (cx_log s) = mset [0..<?n]"
    if stuck: "\<forall>m. cpu_do ?ss s m = None"
  proof -
    have "before (topo_order g) p t" if "p < ?n" "t \<in> set (?ss ! p)" for p t
      using that compiled_edges [OF assms(1,2)] topo_order_edges [OF assms(1)]
        valid_order(2) [OF assms(1,2)] raw_edge_bounds(2) [OF assms(1)]
      by (fastforce simp: cpu_succs_nth)
    then have "cx_complete s" "set (cx_log s) = {0..<?n}"
      using cpu_stuck_complete [OF inv _ _ valid_order(3) [OF assms(1,2)]]
        cpu_do_exists [of ?ss s] stuck valid_order(2) [OF assms(1,2)] by simp_all
    moreover have "distinct (cx_log s)" using inv by (auto simp: cpu_inv_def Let_def)
    ultimately show ?thesis using set_eq_iff_mset_eq_distinct [of "cx_log s" "[0..<?n]"] by simp
  qed
  ultimately show ?thesis by blast
qed

theorem cpu_execute_completes_witness:
  "\<exists>s1 s. cpu_rooted diamond_graph (compile diamond_graph) = Some s1
    \<and> cpu_schedule (cpu_succs (numPasses diamond_graph) (cg_syncEdges (compile diamond_graph))) s1
        [Begin_at 0, Release_at 0, Release_at 0, Begin_at 1] = Some s
    \<and> 4 \<le> 2 * numPasses diamond_graph + length (cg_syncEdges (compile diamond_graph))"
proof -
  obtain s1 s where s1: "cpu_rooted diamond_graph (compile diamond_graph) = Some s1"
    and s: "cpu_schedule (cpu_succs (numPasses diamond_graph) (cg_syncEdges (compile diamond_graph)))
      s1 [Begin_at 0, Release_at 0, Release_at 0, Begin_at 1] = Some s"
    using diamond_run by blast
  from conjunct1 [OF cpu_execute_completes [OF diamond_facts(1-3) s1 s]]
  have "4 \<le> 2 * numPasses diamond_graph + length (cg_syncEdges (compile diamond_graph))" by simp
  then show ?thesis using s1 s by (intro exI conjI)
qed

end
