(* ===== verification/Ref_Count.thy ===== *)
theory Ref_Count
  imports Zpc_Prelude "HOL-Library.Monad_Syntax"
begin

text \<open>
  Intrusively counted handles, as \<open>AsyncStopToken\<close>/\<open>AsyncStopSource\<close> (\<open>ZpcAsync.hpp\<close>) and
  \<open>AsyncEvent\<close> (\<open>execution/AsyncEvent.hpp\<close>) implement them by hand. A store holds the heap of
  counted cells and the handle variables; a handle variable is alive or destroyed, and an alive one
  holds a cell's address or null. Every operation is partial: its result is \<open>None\<close> when it uses a
  destroyed variable or a deleted cell.
\<close>

record rc_cell =
  rc_refs :: u32

record 'c store =
  st_heap :: "nat \<Rightarrow> 'c option"
  st_next :: nat
  st_vars :: "nat option option list"

definition empty_store :: "'c store" where
  "empty_store = \<lparr>st_heap = (\<lambda>_. None), st_next = 0, st_vars = []\<rparr>"

section \<open>Variables and cells\<close>

definition read_var :: "nat \<Rightarrow> 'c store \<Rightarrow> nat option option" where
  "read_var v s = (if v < length (st_vars s) then st_vars s ! v else None)"

definition set_var :: "nat \<Rightarrow> nat option \<Rightarrow> 'c store \<Rightarrow> 'c store" where
  "set_var v p s = s\<lparr>st_vars := (st_vars s)[v := Some p]\<rparr>"

definition add_var :: "nat option \<Rightarrow> 'c store \<Rightarrow> 'c store" where
  "add_var p s = s\<lparr>st_vars := st_vars s @ [Some p]\<rparr>"

definition kill_var :: "nat \<Rightarrow> 'c store \<Rightarrow> 'c store" where
  "kill_var v s = s\<lparr>st_vars := (st_vars s)[v := None]\<rparr>"

definition alloc_cell :: "'c \<Rightarrow> 'c store \<Rightarrow> nat \<times> 'c store" where
  "alloc_cell c s = (st_next s,
     s\<lparr>st_heap := (st_heap s)(st_next s \<mapsto> c), st_next := Suc (st_next s)\<rparr>)"

definition retain :: "nat option \<Rightarrow> 'r rc_cell_scheme store \<Rightarrow> 'r rc_cell_scheme store option" where
  "retain p s = (case p of None \<Rightarrow> Some s
     | Some a \<Rightarrow> do {
         c \<leftarrow> st_heap s a;
         Some (s\<lparr>st_heap := (st_heap s)(a \<mapsto> c\<lparr>rc_refs := rc_refs c + 1\<rparr>)\<rparr>) })"

definition release :: "nat option \<Rightarrow> 'r rc_cell_scheme store \<Rightarrow> 'r rc_cell_scheme store option" where
  "release p s = (case p of None \<Rightarrow> Some s
     | Some a \<Rightarrow> do {
         c \<leftarrow> st_heap s a;
         Some (if rc_refs c = 1 then s\<lparr>st_heap := (st_heap s)(a := None)\<rparr>
               else s\<lparr>st_heap := (st_heap s)(a \<mapsto> c\<lparr>rc_refs := rc_refs c - 1\<rparr>)\<rparr>) })"

section \<open>The operations of a handle class\<close>

definition handle_null :: "'c store \<Rightarrow> 'c store" where
  "handle_null s = add_var None s"

definition handle_create :: "'r rc_cell_scheme \<Rightarrow> 'r rc_cell_scheme store \<Rightarrow> 'r rc_cell_scheme store" where
  "handle_create c s = (let (a, s) = alloc_cell (c\<lparr>rc_refs := 1\<rparr>) s in add_var (Some a) s)"

definition handle_copy :: "nat \<Rightarrow> 'r rc_cell_scheme store \<Rightarrow> 'r rc_cell_scheme store option" where
  "handle_copy w s = do { p \<leftarrow> read_var w s; retain p (add_var p s) }"

definition handle_move :: "nat \<Rightarrow> 'r rc_cell_scheme store \<Rightarrow> 'r rc_cell_scheme store option" where
  "handle_move w s = do { p \<leftarrow> read_var w s; Some (set_var w None (add_var p s)) }"

definition handle_copy_assign ::
    "nat \<Rightarrow> nat \<Rightarrow> 'r rc_cell_scheme store \<Rightarrow> 'r rc_cell_scheme store option" where
  "handle_copy_assign v w s = do {
     p \<leftarrow> read_var v s;
     q \<leftarrow> read_var w s;
     if v = w then Some s
     else do { s \<leftarrow> release p s; retain q (set_var v q s) } }"

definition handle_move_assign ::
    "nat \<Rightarrow> nat \<Rightarrow> 'r rc_cell_scheme store \<Rightarrow> 'r rc_cell_scheme store option" where
  "handle_move_assign v w s = do {
     p \<leftarrow> read_var v s;
     q \<leftarrow> read_var w s;
     if v = w then Some s
     else do { s \<leftarrow> release p s; Some (set_var w None (set_var v q s)) } }"

definition handle_destroy :: "nat \<Rightarrow> 'r rc_cell_scheme store \<Rightarrow> 'r rc_cell_scheme store option" where
  "handle_destroy v s = do { p \<leftarrow> read_var v s; s \<leftarrow> release p s; Some (kill_var v s) }"

section \<open>The counting invariant\<close>

definition holders :: "'c store \<Rightarrow> nat \<Rightarrow> nat" where
  "holders s a = count_list (st_vars s) (Some (Some a))"

text \<open>Every cell on the heap counts its holders, \<open>h\<close> of them, and is held.\<close>

definition cell_ok :: "bool \<Rightarrow> nat \<Rightarrow> 'r rc_cell_scheme option \<Rightarrow> bool" where
  "cell_ok known k x = (case x of None \<Rightarrow> k = 0
     | Some c \<Rightarrow> 0 < k \<and> k < 2 ^ 32 \<and> rc_refs c = of_nat k \<and> known)"

definition counted_by :: "(nat \<Rightarrow> nat) \<Rightarrow> 'r rc_cell_scheme store \<Rightarrow> bool" where
  "counted_by h s \<longleftrightarrow> (\<forall>a. cell_ok (a < st_next s) (h a) (st_heap s a))"

definition counted :: "'r rc_cell_scheme store \<Rightarrow> bool" where
  "counted s \<longleftrightarrow> counted_by (holders s) s"

definition inc :: "nat option \<Rightarrow> (nat \<Rightarrow> nat) \<Rightarrow> nat \<Rightarrow> nat" where
  "inc p h a = (if p = Some a then h a + 1 else h a)"

definition dec :: "nat option \<Rightarrow> (nat \<Rightarrow> nat) \<Rightarrow> nat \<Rightarrow> nat" where
  "dec p h a = (if p = Some a then h a - 1 else h a)"

lemma count_list_update:
  "i < length xs \<Longrightarrow> count_list (xs[i := v]) y + (if xs ! i = y then 1 else 0)
    = count_list xs y + (if v = y then 1 else 0)"
proof (induction xs arbitrary: i)
  case (Cons x xs)
  show ?case
  proof (cases i)
    case (Suc j)
    then show ?thesis using Cons.IH [of j] Cons.prems by auto
  qed simp
qed simp

lemma read_var_Some [simp]: "read_var v s = Some p \<longleftrightarrow> v < length (st_vars s) \<and> st_vars s ! v = Some p"
  by (simp add: read_var_def)

lemma read_var_cong [frame_simps]: "st_vars s = st_vars t \<Longrightarrow> read_var v s = read_var v t"
  by (simp add: read_var_def)

lemma holders_cong [frame_simps]: "st_vars s = st_vars t \<Longrightarrow> holders s = holders t"
  by (rule ext) (simp add: holders_def)

lemma holders_positive: "read_var v s = Some (Some a) \<Longrightarrow> 0 < holders s a"
  using count_list_0_iff [of "st_vars s" "Some (Some a)"] by (auto simp: holders_def in_set_conv_nth)

lemma holders_le: "holders s a \<le> length (st_vars s)"
  by (simp add: holders_def count_le_length)

lemma holders_add_var [simp]: "holders (add_var p s) = inc p (holders s)"
  by (rule ext) (simp add: holders_def add_var_def inc_def)

lemma holders_set_var:
  "read_var v s = Some p \<Longrightarrow> holders (set_var v q s) = inc q (dec p (holders s))"
proof (rule ext)
  fix a assume v: "read_var v s = Some p"
  then show "holders (set_var v q s) a = inc q (dec p (holders s)) a"
    using count_list_update [of v "st_vars s" "Some q" "Some (Some a)"] holders_positive [of v s a]
    by (auto simp: holders_def set_var_def inc_def dec_def)
qed

lemma holders_kill_var:
  "read_var v s = Some p \<Longrightarrow> holders (kill_var v s) = dec p (holders s)"
proof (rule ext)
  fix a assume v: "read_var v s = Some p"
  then show "holders (kill_var v s) a = dec p (holders s) a"
    using count_list_update [of v "st_vars s" None "Some (Some a)"] holders_positive [of v s a]
    by (auto simp: holders_def kill_var_def dec_def)
qed

section \<open>Counting and the counter\<close>

lemma counted_by_vars [simp]:
  "counted_by h (set_var v p s) = counted_by h s"
  "counted_by h (add_var p s) = counted_by h s"
  "counted_by h (kill_var v s) = counted_by h s"
  by (simp_all add: counted_by_def set_var_def add_var_def kill_var_def)

lemma counted_by_cell:
  "counted_by h s \<Longrightarrow> 0 < h a \<Longrightarrow> \<exists>c. st_heap s a = Some c \<and> h a < 2 ^ 32
    \<and> rc_refs c = of_nat (h a) \<and> a < st_next s"
  unfolding counted_by_def cell_ok_def by (drule spec [of _ a]) (auto split: option.splits)

lemma counted_by_update:
  assumes "counted_by h s" and "cell_ok (a < st_next s) k x"
  shows "counted_by (h(a := k)) (s\<lparr>st_heap := (st_heap s)(a := x)\<rparr>)"
  using assms by (simp add: counted_by_def)

lemma retain_counted:
  assumes "counted_by h s" and "\<And>a. p = Some a \<Longrightarrow> 0 < h a \<and> h a + 1 < 2 ^ 32"
  shows "\<exists>t. retain p s = Some t \<and> counted_by (inc p h) t \<and> st_vars t = st_vars s"
proof (cases p)
  case None
  then show ?thesis using assms(1) by (simp add: retain_def inc_def [abs_def])
next
  case (Some a)
  then obtain c where c: "st_heap s a = Some c" "rc_refs c = of_nat (h a)" "a < st_next s"
    using assms counted_by_cell by blast
  have "inc p h = h(a := h a + 1)" by (auto simp: inc_def Some)
  then show ?thesis
    using counted_by_update [OF assms(1), of a "h a + 1" "Some (c\<lparr>rc_refs := rc_refs c + 1\<rparr>)"]
      assms(2) [OF Some] c by (simp add: retain_def Some cell_ok_def add.commute)
qed

lemma release_counted:
  assumes "counted_by h s" and "\<And>a. p = Some a \<Longrightarrow> 0 < h a"
  shows "\<exists>t. release p s = Some t \<and> counted_by (dec p h) t \<and> st_vars t = st_vars s"
proof (cases p)
  case None
  then show ?thesis using assms(1) by (simp add: release_def dec_def [abs_def])
next
  case (Some a)
  then obtain c where c: "st_heap s a = Some c" "rc_refs c = of_nat (h a)" "a < st_next s"
    and h: "0 < h a" "h a < 2 ^ 32"
    using assms counted_by_cell by blast
  have dec: "dec p h = h(a := h a - 1)" by (auto simp: dec_def Some)
  show ?thesis
  proof (cases "h a = 1")
    case True
    then show ?thesis using counted_by_update [OF assms(1), of a 0 None] c dec Some
      by (simp add: release_def cell_ok_def)
  next
    case False
    have "rc_refs c \<noteq> 1" unfolding c(2) u32_of_nat_1 [OF h(2)] using False .
    moreover have "rc_refs c - 1 = of_nat (h a - 1)" using h(1) by (simp add: c(2) of_nat_diff)
    ultimately show ?thesis
      using counted_by_update [OF assms(1), of a "h a - 1" "Some (c\<lparr>rc_refs := rc_refs c - 1\<rparr>)"]
        c(1,3) dec Some False h by (simp add: release_def cell_ok_def)
  qed
qed

section \<open>The operations keep the count\<close>

lemma counted_empty [wf_intros, simp]: "counted empty_store"
  by (simp add: counted_def counted_by_def cell_ok_def empty_store_def holders_def)

lemma st_vars_simps [simp]:
  "st_vars empty_store = []"
  "st_vars (add_var p s) = st_vars s @ [Some p]"
  "st_vars (set_var v p s) = (st_vars s)[v := Some p]"
  "st_vars (kill_var v s) = (st_vars s)[v := None]"
  by (simp_all add: empty_store_def add_var_def set_var_def kill_var_def)

lemma counted_null: "counted s \<Longrightarrow> counted (handle_null s)"
  by (simp add: counted_def handle_null_def inc_def [abs_def])

lemma cell_ok_known: "cell_ok b k x \<Longrightarrow> (b \<Longrightarrow> b') \<Longrightarrow> cell_ok b' k x"
  by (auto simp: cell_ok_def split: option.splits)

lemma cell_ok_fresh: "cell_ok True 1 (Some (c\<lparr>rc_refs := 1\<rparr>))"
  by (simp add: cell_ok_def)

lemma counted_create: "counted s \<Longrightarrow> counted (handle_create c s)"
proof -
  assume s: "counted s"
  have "cell_ok (st_next s < st_next s) (holders s (st_next s)) (st_heap s (st_next s))"
    using s unfolding counted_def counted_by_def by blast
  then have fresh: "holders s (st_next s) = 0" by (simp add: cell_ok_def split: option.splits)
  let ?t = "snd (alloc_cell (c\<lparr>rc_refs := 1\<rparr>) s)"
  have "counted_by ((holders s)(st_next s := 1)) ?t"
    using s cell_ok_fresh [unfolded One_nat_def]
    by (auto simp: counted_def counted_by_def alloc_cell_def intro: cell_ok_known)
  moreover have "(holders s)(st_next s := 1) = inc (Some (st_next s)) (holders ?t)"
    using fresh by (auto simp: inc_def alloc_cell_def holders_def)
  ultimately show ?thesis by (simp add: handle_create_def counted_def alloc_cell_def)
qed

lemma handle_copy_ok:
  assumes "counted s" and "read_var w s = Some p" and "Suc (length (st_vars s)) < 2 ^ 32"
  shows "\<exists>t. handle_copy w s = Some t \<and> counted t \<and> st_vars t = st_vars s @ [Some p]"
proof -
  have "counted_by (holders s) (add_var p s)" using assms(1) by (simp add: counted_def)
  moreover have "0 < holders s a \<and> holders s a + 1 < 2 ^ 32" if "p = Some a" for a
    using that holders_positive [of w s a] holders_le [of s a] assms(2,3) by auto
  ultimately obtain t where t: "retain p (add_var p s) = Some t"
    "counted_by (inc p (holders s)) t" "st_vars t = st_vars (add_var p s)"
    using retain_counted by blast
  moreover have "holders t = inc p (holders s)" using holders_cong [OF t(3)] by simp
  ultimately show ?thesis using assms(2) by (simp add: handle_copy_def counted_def del: read_var_Some)
qed

lemma handle_move_ok:
  assumes "counted s" and "read_var w s = Some p"
  shows "\<exists>t. handle_move w s = Some t \<and> counted t
    \<and> st_vars t = (st_vars s)[w := Some None] @ [Some p]"
proof -
  let ?t = "set_var w None (add_var p s)"
  have w: "w < length (st_vars s)" "read_var w (add_var p s) = Some p"
    using assms(2) by (auto simp: read_var_def nth_append split: if_splits)
  have "dec p (inc p h) = h" for h by (auto simp: inc_def dec_def)
  then have "holders ?t = holders s"
    using holders_set_var [OF w(2)] by (simp add: inc_def [of None, abs_def])
  then show ?thesis using assms w(1)
    by (simp add: handle_move_def counted_def list_update_append1 del: read_var_Some)
qed

lemma handle_copy_assign_ok:
  assumes "counted s" and v: "read_var v s = Some p" and w: "read_var w s = Some q"
    and "length (st_vars s) < 2 ^ 32"
  shows "\<exists>t. handle_copy_assign v w s = Some t \<and> counted t \<and> st_vars t = (st_vars s)[v := Some q]"
proof (cases "v = w")
  case True
  then have "q = p" using v w by simp
  then have "(st_vars s)[v := Some q] = st_vars s" using v by (metis list_update_id read_var_Some)
  then show ?thesis using True assms by (simp add: handle_copy_assign_def del: read_var_Some)
next
  case False
  obtain t where t: "release p s = Some t" "counted_by (dec p (holders s)) t" "st_vars t = st_vars s"
    using release_counted [of "holders s" s p] assms(1) holders_positive [of v s] v
    by (auto simp: counted_def)
  let ?u = "set_var v q t"
  have "0 < dec p (holders s) a \<and> dec p (holders s) a + 1 < 2 ^ 32" if "q = Some a" for a
  proof -
    have "read_var w (kill_var v s) = Some (Some a)" using w False that
      by (simp add: read_var_def split: if_splits)
    then have "0 < holders (kill_var v s) a" by (rule holders_positive)
    moreover have "holders (kill_var v s) a < length (st_vars s)"
    proof -
      have "v < length (st_vars (kill_var v s))" "st_vars (kill_var v s) ! v = None" using v by auto
      then show ?thesis
        using count_list_update [of v "st_vars (kill_var v s)" "Some (Some a)" "Some (Some a)"]
          count_le_length [of "(st_vars s)[v := Some (Some a)]" "Some (Some a)"]
        by (simp add: holders_def)
    qed
    ultimately show ?thesis using holders_kill_var [OF v] assms(4) by simp
  qed
  then obtain u where u: "retain q ?u = Some u" "counted_by (inc q (dec p (holders s))) u"
    "st_vars u = st_vars ?u"
    using retain_counted [of "dec p (holders s)" ?u q] t(2) by auto
  have "holders u = inc q (dec p (holders s))"
    using holders_cong [OF u(3)] holders_cong [OF t(3)] v holders_set_var [of v t p q]
      read_var_cong [OF t(3), of v] by simp
  then show ?thesis using False v w t u
    by (simp add: handle_copy_assign_def counted_def del: read_var_Some)
qed

lemma handle_move_assign_ok:
  assumes "counted s" and v: "read_var v s = Some p" and w: "read_var w s = Some q"
  shows "\<exists>t. handle_move_assign v w s = Some t \<and> counted t
    \<and> st_vars t = (if v = w then st_vars s else (st_vars s)[v := Some q, w := Some None])"
proof (cases "v = w")
  case False
  obtain t where t: "release p s = Some t" "counted_by (dec p (holders s)) t" "st_vars t = st_vars s"
    using release_counted [of "holders s" s p] assms(1) holders_positive [of v s] v
    by (auto simp: counted_def)
  let ?u = "set_var v q t"
  have u: "holders ?u = inc q (dec p (holders s))"
    using holders_cong [OF t(3)] v holders_set_var [of v t p q] read_var_cong [OF t(3), of v] by simp
  have "read_var w ?u = Some q" using w False t(3) by (simp add: read_var_def split: if_splits)
  then have "holders (set_var w None ?u) = dec q (holders ?u)"
    using holders_set_var [of w ?u q None] by (simp add: inc_def [of None, abs_def])
  moreover have "dec q (inc q h) = h" for h by (auto simp: inc_def dec_def)
  ultimately show ?thesis using False v w t
    by (simp add: handle_move_assign_def counted_def u del: read_var_Some)
qed (use assms in \<open>simp add: handle_move_assign_def del: read_var_Some\<close>)

lemma handle_destroy_ok:
  assumes "counted s" and v: "read_var v s = Some p"
  shows "\<exists>t. handle_destroy v s = Some t \<and> counted t \<and> st_vars t = (st_vars s)[v := None]"
proof -
  obtain t where t: "release p s = Some t" "counted_by (dec p (holders s)) t" "st_vars t = st_vars s"
    using release_counted [of "holders s" s p] assms(1) holders_positive [of v s] v
    by (auto simp: counted_def)
  then have "holders (kill_var v t) = dec p (holders s)"
    using holders_cong [OF t(3)] v holders_kill_var [of v t p] read_var_cong [OF t(3), of v] by simp
  then show ?thesis using v t by (simp add: handle_destroy_def counted_def del: read_var_Some)
qed

section \<open>Programs over handles\<close>

datatype 'c handle_op =
  H_null | H_create 'c | H_copy nat | H_move nat | H_copy_assign nat nat | H_move_assign nat nat
| H_destroy nat

fun handle_do :: "'r rc_cell_scheme handle_op \<Rightarrow> 'r rc_cell_scheme store \<Rightarrow> 'r rc_cell_scheme store option" where
  "handle_do H_null s = Some (handle_null s)"
| "handle_do (H_create c) s = Some (handle_create c s)"
| "handle_do (H_copy w) s = handle_copy w s"
| "handle_do (H_move w) s = handle_move w s"
| "handle_do (H_copy_assign v w) s = handle_copy_assign v w s"
| "handle_do (H_move_assign v w) s = handle_move_assign v w s"
| "handle_do (H_destroy v) s = handle_destroy v s"

text \<open>The variables an operation uses are alive.\<close>

fun handle_live :: "'c handle_op \<Rightarrow> 'c store \<Rightarrow> bool" where
  "handle_live H_null s = True"
| "handle_live (H_create c) s = True"
| "handle_live (H_copy w) s = (read_var w s \<noteq> None)"
| "handle_live (H_move w) s = (read_var w s \<noteq> None)"
| "handle_live (H_copy_assign v w) s = (read_var v s \<noteq> None \<and> read_var w s \<noteq> None)"
| "handle_live (H_move_assign v w) s = (read_var v s \<noteq> None \<and> read_var w s \<noteq> None)"
| "handle_live (H_destroy v) s = (read_var v s \<noteq> None)"

fun handle_run :: "'r rc_cell_scheme handle_op list \<Rightarrow> 'r rc_cell_scheme store \<Rightarrow> 'r rc_cell_scheme store option" where
  "handle_run [] s = Some s"
| "handle_run (m # ms) s = do { s \<leftarrow> handle_do m s; handle_run ms s }"

lemma handle_do_counted:
  assumes "counted s" and "handle_live m s" and "Suc (length (st_vars s)) < 2 ^ 32"
  shows "\<exists>t. handle_do m s = Some t \<and> counted t \<and> length (st_vars t) \<le> Suc (length (st_vars s))"
  using assms
proof (cases m)
  case (H_create c)
  then show ?thesis using counted_create [OF assms(1), of c]
    by (simp add: handle_create_def alloc_cell_def)
next
  case (H_copy w)
  then show ?thesis using assms handle_copy_ok by fastforce
next
  case (H_move w)
  then show ?thesis using assms handle_move_ok by fastforce
next
  case (H_copy_assign v w)
  then show ?thesis using assms handle_copy_assign_ok by fastforce
next
  case (H_move_assign v w)
  then show ?thesis using assms handle_move_assign_ok by fastforce
next
  case (H_destroy v)
  then show ?thesis using assms handle_destroy_ok by fastforce
qed (simp add: counted_null, simp add: handle_null_def)

lemma handle_do_live: "handle_do m s = Some t \<Longrightarrow> handle_live m s"
  by (cases m) (auto simp: handle_copy_def handle_move_def handle_copy_assign_def
    handle_move_assign_def handle_destroy_def split: bind_splits)

lemma handle_run_counted:
  "handle_run ms s = Some t \<Longrightarrow> counted s \<Longrightarrow> length (st_vars s) + length ms < 2 ^ 32
    \<Longrightarrow> counted t \<and> length (st_vars t) \<le> length (st_vars s) + length ms"
proof (induction ms arbitrary: s)
  case (Cons m ms)
  then obtain u where u: "handle_do m s = Some u" "handle_run ms u = Some t"
    by (auto split: bind_splits)
  then have "counted u \<and> length (st_vars u) \<le> Suc (length (st_vars s))"
    using handle_do_counted [OF Cons.prems(2) handle_do_live [OF u(1)]] Cons.prems(3) by simp
  then show ?case using Cons.IH [OF u(2)] Cons.prems(3) by simp
qed simp

end
