(* ===== verification/Stop_Token.thy ===== *)
theory Stop_Token
  imports Ref_Count
begin

text \<open>
  \<open>AsyncStopState\<close>, \<open>AsyncStopToken\<close> and \<open>AsyncStopSource\<close> of \<open>ZpcAsync.hpp\<close>: a counted cell with
  two request bits, tokens that read them and sources that set them. Copying, moving and destroying
  tokens and sources are the handle operations of \<open>Ref_Count\<close>; each operation is one atomic access
  to the cell, so that a program of several threads is a sequence of them. Sources and tokens are
  not told apart: the model lets a token request a stop and a source be copied, which the classes do
  not, so what holds of it holds of them.
\<close>

record stop_state = rc_cell +
  ss_flags :: u32

type_synonym stop_store = "stop_state store"

definition new_stop_state :: stop_state where
  "new_stop_state = \<lparr>rc_refs = 1, ss_flags = 0\<rparr>"

definition source_create :: "stop_store \<Rightarrow> stop_store" where
  "source_create s = handle_create new_stop_state s"

definition source_token :: "nat \<Rightarrow> stop_store \<Rightarrow> stop_store option" where
  "source_token w s = do { p \<leftarrow> read_var w s; retain p (add_var p s) }"

definition flag_set :: "u32 \<Rightarrow> nat \<Rightarrow> stop_store \<Rightarrow> bool option" where
  "flag_set b v s = do {
     p \<leftarrow> read_var v s;
     case p of None \<Rightarrow> Some False
     | Some a \<Rightarrow> do { c \<leftarrow> st_heap s a; Some (ss_flags c AND b \<noteq> 0) } }"

definition stop_requested :: "nat \<Rightarrow> stop_store \<Rightarrow> bool option" where
  "stop_requested = flag_set 1"

definition interrupt_requested :: "nat \<Rightarrow> stop_store \<Rightarrow> bool option" where
  "interrupt_requested = flag_set 2"

text \<open>The compare-exchange loop ends with the bit or-ed into the value it last read.\<close>

definition request_flag :: "u32 \<Rightarrow> nat \<Rightarrow> stop_store \<Rightarrow> stop_store option" where
  "request_flag b v s = do {
     p \<leftarrow> read_var v s;
     case p of None \<Rightarrow> Some s
     | Some a \<Rightarrow> do {
         c \<leftarrow> st_heap s a;
         Some (s\<lparr>st_heap := (st_heap s)(a \<mapsto> c\<lparr>ss_flags := ss_flags c OR b\<rparr>)\<rparr>) } }"

definition request_stop :: "nat \<Rightarrow> stop_store \<Rightarrow> stop_store option" where
  "request_stop = request_flag 1"

definition request_interrupt :: "nat \<Rightarrow> stop_store \<Rightarrow> stop_store option" where
  "request_interrupt = request_flag 2"

section \<open>Programs over sources and tokens\<close>

datatype stop_op =
  Op_source | Op_token nat | Op_stop nat | Op_interrupt nat | Op_handle "stop_state handle_op"

text \<open>Tokens and sources are made by no other means than these.\<close>

fun stop_do :: "stop_op \<Rightarrow> stop_store \<Rightarrow> stop_store option" where
  "stop_do Op_source s = Some (source_create s)"
| "stop_do (Op_token w) s = source_token w s"
| "stop_do (Op_stop v) s = request_stop v s"
| "stop_do (Op_interrupt v) s = request_interrupt v s"
| "stop_do (Op_handle m) s = (case m of H_create _ \<Rightarrow> None | _ \<Rightarrow> handle_do m s)"

fun stop_live :: "stop_op \<Rightarrow> stop_store \<Rightarrow> bool" where
  "stop_live Op_source s = True"
| "stop_live (Op_token w) s = (read_var w s \<noteq> None)"
| "stop_live (Op_stop w) s = (read_var w s \<noteq> None)"
| "stop_live (Op_interrupt w) s = (read_var w s \<noteq> None)"
| "stop_live (Op_handle m) s = (case m of H_create _ \<Rightarrow> False | _ \<Rightarrow> handle_live m s)"

fun stop_run :: "stop_op list \<Rightarrow> stop_store \<Rightarrow> stop_store option" where
  "stop_run [] s = Some s"
| "stop_run (m # ms) s = do { s \<leftarrow> stop_do m s; stop_run ms s }"

section \<open>Counting\<close>

lemma source_token_copy: "source_token w s = handle_copy w s"
  by (simp add: source_token_def handle_copy_def)

lemma counted_cell:
  "counted s \<Longrightarrow> read_var v s = Some (Some a) \<Longrightarrow> \<exists>c. st_heap s a = Some c \<and> rc_refs c = of_nat (holders s a)"
  using counted_by_cell [of "holders s" s a] holders_positive [of v s a] by (auto simp: counted_def)

lemma request_flag_ok:
  assumes "counted s" and "read_var v s \<noteq> None"
  shows "\<exists>t. request_flag b v s = Some t \<and> counted t \<and> st_vars t = st_vars s"
proof -
  obtain p where p: "read_var v s = Some p" using assms(2) by blast
  show ?thesis
  proof (cases p)
    case None
    then show ?thesis using assms p by (simp add: request_flag_def del: read_var_Some)
  next
    case (Some a)
    obtain c where c: "st_heap s a = Some c" using counted_cell assms(1) p Some by blast
    let ?c = "c\<lparr>ss_flags := ss_flags c OR b\<rparr>"
    let ?t = "s\<lparr>st_heap := (st_heap s)(a \<mapsto> ?c)\<rparr>"
    have "cell_ok (a < st_next s) (holders s a) (Some c)"
      using assms(1) c unfolding counted_def counted_by_def by (metis)
    then have "cell_ok (a < st_next s) (holders s a) (Some ?c)" by (simp add: cell_ok_def)
    then have "counted_by ((holders s)(a := holders s a)) ?t"
      using assms(1) unfolding counted_def by (intro counted_by_update)
    moreover have "holders ?t = holders s" by (rule holders_cong) simp
    ultimately show ?thesis using p Some c
      by (simp add: request_flag_def counted_def del: read_var_Some)
  qed
qed

lemma stop_do_counted:
  assumes "counted s" and "stop_live m s" and "Suc (length (st_vars s)) < 2 ^ 32"
  shows "\<exists>t. stop_do m s = Some t \<and> counted t \<and> length (st_vars t) \<le> Suc (length (st_vars s))"
proof (cases m)
  case Op_source
  then show ?thesis using handle_do_counted [OF assms(1), of "H_create new_stop_state"] assms(3)
    by (simp add: source_create_def)
next
  case (Op_token w)
  then show ?thesis using handle_do_counted [OF assms(1), of "H_copy w"] assms
    by (simp add: source_token_copy)
next
  case (Op_stop v)
  then show ?thesis using request_flag_ok [OF assms(1), of v 1] assms(2) by (auto simp: request_stop_def)
next
  case (Op_interrupt v)
  then show ?thesis using request_flag_ok [OF assms(1), of v 2] assms(2)
    by (auto simp: request_interrupt_def)
next
  case (Op_handle h)
  then show ?thesis using handle_do_counted [OF assms(1), of h] assms
    by (auto split: handle_op.splits simp del: handle_do.simps handle_live.simps)
qed

lemma stop_do_live: "stop_do m s = Some t \<Longrightarrow> stop_live m s"
  by (cases m) (auto simp: source_token_def request_stop_def request_interrupt_def request_flag_def
    dest: handle_do_live split: bind_splits handle_op.splits simp del: handle_do.simps handle_live.simps)

lemma stop_run_counted:
  "stop_run ms s = Some t \<Longrightarrow> counted s \<Longrightarrow> length (st_vars s) + length ms < 2 ^ 32 \<Longrightarrow>
    counted t \<and> length (st_vars t) \<le> length (st_vars s) + length ms"
proof (induction ms arbitrary: s)
  case (Cons m ms)
  then obtain u where u: "stop_do m s = Some u" "stop_run ms u = Some t"
    by (auto split: bind_splits)
  then have "counted u \<and> length (st_vars u) \<le> Suc (length (st_vars s))"
    using stop_do_counted [OF Cons.prems(2) stop_do_live [OF u(1)]] Cons.prems(3) by simp
  then show ?case using Cons.IH [OF u(2)] Cons.prems(3) by simp
qed simp

section \<open>Requests are seen and stay\<close>

text \<open>
  \<open>flags_kept s t\<close>: whatever cell both states have, or \<open>s\<close> could have had, keeps its bits in \<open>t\<close>,
  and no address is handed out twice.
\<close>

definition flags_kept :: "stop_store \<Rightarrow> stop_store \<Rightarrow> bool" where
  "flags_kept s t \<longleftrightarrow> st_next s \<le> st_next t \<and>
     (\<forall>a d. a < st_next s \<longrightarrow> st_heap t a = Some d \<longrightarrow>
        (\<exists>c. st_heap s a = Some c \<and> ss_flags d = ss_flags c OR ss_flags d))"

lemma flags_kept_refl [simp]: "flags_kept s s"
  by (simp add: flags_kept_def)

lemma flags_kept_trans: "flags_kept s t \<Longrightarrow> flags_kept t u \<Longrightarrow> flags_kept s u"
proof -
  assume st: "flags_kept s t" and tu: "flags_kept t u"
  have "\<exists>c. st_heap s a = Some c \<and> ss_flags e = ss_flags c OR ss_flags e"
    if a: "a < st_next s" "st_heap u a = Some e" for a e
  proof -
    have "a < st_next t" using st a(1) by (auto simp: flags_kept_def)
    then obtain d where d: "st_heap t a = Some d" "ss_flags e = ss_flags d OR ss_flags e"
      using tu a(2) unfolding flags_kept_def by blast
    then obtain c where "st_heap s a = Some c" "ss_flags d = ss_flags c OR ss_flags d"
      using st a(1) unfolding flags_kept_def by blast
    then show ?thesis using d by (metis or.assoc)
  qed
  then show ?thesis using st tu by (auto simp: flags_kept_def)
qed

lemma flags_kept_frame:
  "st_heap t = st_heap s \<Longrightarrow> st_next t = st_next s \<Longrightarrow> flags_kept s t"
  by (simp add: flags_kept_def)

lemma flags_kept_retain: "retain p s = Some t \<Longrightarrow> flags_kept s t"
  by (auto simp: retain_def flags_kept_def split: option.splits bind_splits if_splits)

lemma flags_kept_release: "release p s = Some t \<Longrightarrow> flags_kept s t"
  by (auto simp: release_def flags_kept_def split: option.splits bind_splits if_splits)

lemma flags_kept_request: "request_flag b v s = Some t \<Longrightarrow> flags_kept s t"
  by (auto simp: request_flag_def flags_kept_def split: option.splits bind_splits if_splits)

lemma flags_kept_vars [simp]:
  "flags_kept s (add_var p s)" "flags_kept s (set_var v p s)" "flags_kept s (kill_var v s)"
  by (simp_all add: flags_kept_def add_var_def set_var_def kill_var_def)

lemma flags_kept_source: "flags_kept s (source_create s)"
  by (simp add: flags_kept_def source_create_def handle_create_def alloc_cell_def add_var_def)

lemmas flags_kept_intros = flags_kept_trans [OF flags_kept_release] flags_kept_retain
  flags_kept_trans [OF _ flags_kept_retain] flags_kept_vars flags_kept_request flags_kept_source

lemma flags_kept_handle:
  "handle_do m s = Some t \<Longrightarrow> \<forall>c. m \<noteq> H_create c \<Longrightarrow> flags_kept s t"
  by (cases m) (auto simp: handle_null_def handle_copy_def handle_move_def handle_copy_assign_def
    handle_move_assign_def handle_destroy_def split: bind_splits if_splits
    intro: flags_kept_intros flags_kept_trans [OF flags_kept_vars(1)]
      flags_kept_trans [OF flags_kept_vars(1) flags_kept_vars(2)]
      flags_kept_trans [OF flags_kept_release flags_kept_trans [OF flags_kept_vars(2)]])

lemma flags_kept_do: "stop_do m s = Some t \<Longrightarrow> flags_kept s t"
proof (cases m)
  case (Op_handle h)
  assume "stop_do m s = Some t"
  then show ?thesis using flags_kept_handle [of h s t] Op_handle
    by (auto split: handle_op.splits simp del: handle_do.simps)
qed (auto simp: source_token_copy request_stop_def request_interrupt_def
    intro: flags_kept_intros flags_kept_handle [of "H_copy _"])

lemma flags_kept_run: "stop_run ms s = Some t \<Longrightarrow> flags_kept s t"
  by (induction ms arbitrary: s)
    (auto split: bind_splits intro: flags_kept_trans [OF flags_kept_do])

section \<open>What tokens and sources guarantee\<close>

lemma counted_holders_iff:
  assumes "counted s"
  shows "st_heap s a \<noteq> None \<longleftrightarrow> (\<exists>v. read_var v s = Some (Some a))"
proof -
  have "st_heap s a \<noteq> None \<longleftrightarrow> holders s a \<noteq> 0"
    using assms unfolding counted_def counted_by_def cell_ok_def
    by (auto split: option.splits elim!: allE [of _ a])
  also have "\<dots> \<longleftrightarrow> Some (Some a) \<in> set (st_vars s)"
    by (simp add: holders_def count_list_0_iff)
  finally show ?thesis by (auto simp: in_set_conv_nth)
qed

text \<open>
  C7: whatever sources and tokens a program makes, copies, moves, assigns (to themselves too) and
  destroys, a state that is held is never deleted, one that is not held is never leaked, and every
  further operation on live tokens and sources is defined.
\<close>
theorem stop_state_lifetime:
  assumes "stop_run ms empty_store = Some s" and "Suc (length ms) < 2 ^ 32"
  shows "(\<forall>a. st_heap s a \<noteq> None \<longleftrightarrow> (\<exists>v. read_var v s = Some (Some a)))
    \<and> (\<forall>m. stop_live m s \<longrightarrow> stop_do m s \<noteq> None)"
proof -
  have s: "counted s" "length (st_vars s) \<le> length ms"
    using stop_run_counted [OF assms(1)] assms(2) by simp_all
  have "stop_do m s \<noteq> None" if "stop_live m s" for m
    using stop_do_counted [OF s(1) that] s(2) assms(2) by auto
  then show ?thesis using counted_holders_iff [OF s(1)] by blast
qed

text \<open>Two sources, the second's state moved over the first token's, then the second source gone.\<close>

definition stop_example :: "stop_op list" where
  "stop_example = [Op_source, Op_token 0, Op_source, Op_token 2, Op_handle (H_move_assign 1 3),
     Op_handle (H_copy_assign 1 1), Op_handle (H_destroy 2), Op_handle (H_copy 1)]"

lemma stop_example_run:
  "map_option st_vars (stop_run stop_example empty_store)
    = Some [Some (Some 0), Some (Some 1), None, Some None, Some (Some 1)]"
  by code_simp

theorem stop_state_lifetime_witness:
  "\<exists>s. stop_run stop_example empty_store = Some s \<and> st_heap s 1 \<noteq> None \<and> stop_do (Op_stop 0) s \<noteq> None"
proof -
  obtain s where s: "stop_run stop_example empty_store = Some s"
    "st_vars s = [Some (Some 0), Some (Some 1), None, Some None, Some (Some 1)]"
    using stop_example_run by blast
  have "read_var 1 s = Some (Some 1)" and "stop_live (Op_stop 0) s"
    using s(2) by (simp_all add: read_var_def)
  moreover have "Suc (length stop_example) < 2 ^ 32" by (simp add: stop_example_def)
  ultimately show ?thesis using stop_state_lifetime [OF s(1)] s(1) by blast
qed

lemma flag_set_iff:
  "read_var v s = Some (Some a) \<Longrightarrow> st_heap s a = Some c
    \<Longrightarrow> flag_set b v s = Some (ss_flags c AND b \<noteq> 0)"
  by (simp add: flag_set_def del: read_var_Some)

lemma flag_set_cong:
  assumes "st_vars s = st_vars t"
    and "\<And>a. read_var w t = Some (Some a) \<Longrightarrow> map_option (\<lambda>c. ss_flags c AND b \<noteq> 0) (st_heap s a)
      = map_option (\<lambda>c. ss_flags c AND b \<noteq> 0) (st_heap t a)"
  shows "flag_set b w s = flag_set b w t"
proof (cases "read_var w t")
  case (Some p)
  have "Option.bind x (\<lambda>c. Some (f c)) = map_option f x" for x :: "stop_state option" and f :: "stop_state \<Rightarrow> bool"
    by (cases x) simp_all
  then show ?thesis using Some assms(2) read_var_cong [OF assms(1), of w]
    by (simp add: flag_set_def del: read_var_Some split: option.splits)
qed (simp add: flag_set_def read_var_cong [OF assms(1)])

lemma or_keeps_bit: "(d :: u32) = c OR d \<Longrightarrow> c AND b \<noteq> 0 \<Longrightarrow> d AND b \<noteq> 0"
  by (metis and.commute bit.conj_disj_distrib or_eq_0_iff)

text \<open>
  C8: a stop requested through a source of a state is seen by every holder of that
  state from then on, whatever happens in between; it is not seen by holders of another state and
  is no interrupt request.
\<close>
theorem stop_request_seen:
  assumes "counted s" and "read_var v s = Some (Some a)" and "request_stop v s = Some s1"
  shows "(\<forall>ms t w. stop_run ms s1 = Some t \<and> length (st_vars s) + length ms < 2 ^ 32
        \<and> read_var w t = Some (Some a) \<longrightarrow> stop_requested w t = Some True)
    \<and> (\<forall>w. read_var w s \<noteq> Some (Some a) \<longrightarrow> stop_requested w s1 = stop_requested w s)
    \<and> (\<forall>w. interrupt_requested w s1 = interrupt_requested w s)"
proof -
  obtain c where c: "st_heap s a = Some c" and next_a: "a < st_next s"
    using counted_by_cell [of "holders s" s a] holders_positive [OF assms(2)] assms(1)
    by (auto simp: counted_def)
  have s1: "s1 = s\<lparr>st_heap := (st_heap s)(a \<mapsto> c\<lparr>ss_flags := ss_flags c OR 1\<rparr>)\<rparr>"
    using assms(2,3) c by (simp add: request_stop_def request_flag_def del: read_var_Some)
  have cnt: "counted s1" "st_vars s1 = st_vars s"
    using request_flag_ok [OF assms(1), of v 1] assms(2,3) by (auto simp: request_stop_def)
  have "stop_requested w t = Some True" if t: "stop_run ms s1 = Some t"
    and len: "length (st_vars s) + length ms < 2 ^ 32" and w: "read_var w t = Some (Some a)" for ms t w
  proof -
    obtain d where d: "st_heap t a = Some d"
      using stop_run_counted [OF t cnt(1)] len counted_cell [OF _ w] by (auto simp: cnt(2))
    have "a < st_next s1" using next_a by (simp add: s1)
    then have "ss_flags d = (ss_flags c OR 1) OR ss_flags d"
      using flags_kept_run [OF t] d unfolding flags_kept_def by (force simp: s1)
    then have "ss_flags d AND 1 \<noteq> 0" by (rule or_keeps_bit) (simp add: bit.conj_disj_distrib2)
    then show ?thesis using flag_set_iff [OF w d] by (simp add: stop_requested_def)
  qed
  moreover have "stop_requested w s1 = stop_requested w s" if "read_var w s \<noteq> Some (Some a)" for w
    unfolding stop_requested_def by (rule flag_set_cong [OF cnt(2)]) (use that in \<open>auto simp: s1\<close>)
  moreover have "interrupt_requested w s1 = interrupt_requested w s" for w
    unfolding interrupt_requested_def
    by (rule flag_set_cong [OF cnt(2)]) (simp add: s1 c bit.conj_disj_distrib2)
  ultimately show ?thesis by blast
qed

theorem stop_request_seen_witness:
  "\<exists>s s1 t. stop_run [Op_source, Op_token 0] empty_store = Some s \<and> request_stop 0 s = Some s1
    \<and> stop_run [Op_handle (H_destroy 0)] s1 = Some t \<and> stop_requested 1 t = Some True"
proof -
  have "stop_run [Op_source, Op_token 0] empty_store \<noteq> None" by code_simp
  then obtain s where s: "stop_run [Op_source, Op_token 0] empty_store = Some s" by blast
  then have vars: "st_vars s = [Some (Some 0), Some (Some 0)]"
    by (auto simp: source_create_def handle_create_def alloc_cell_def source_token_def retain_def
        empty_store_def read_var_def split: option.splits bind_splits)
  have cnt: "counted s" using stop_run_counted [OF s] by simp
  have v: "read_var 0 s = Some (Some 0)" using vars by (simp add: read_var_def)
  obtain s1 where s1: "request_stop 0 s = Some s1" "counted s1" "st_vars s1 = st_vars s"
    using request_flag_ok [OF cnt, of 0 1] v by (auto simp: request_stop_def)
  obtain t where t: "stop_run [Op_handle (H_destroy 0)] s1 = Some t" "st_vars t = [None, Some (Some 0)]"
    using handle_destroy_ok [OF s1(2), of 0] s1(3) vars by (auto simp: read_var_def)
  have "read_var 1 t = Some (Some 0)" using t(2) by (simp add: read_var_def)
  then have "stop_requested 1 t = Some True"
    using conjunct1 [OF stop_request_seen [OF cnt v s1(1)], rule_format,
        of "[Op_handle (H_destroy 0)]" t 1] t(1) vars by (simp del: read_var_Some)
  then show ?thesis using s s1(1) t(1) by blast
qed

end
