(* ===== verification/Static_Vector.thy ===== *)
theory Static_Vector
  imports Zpc_Prelude
begin

text \<open>
  \<open>StaticVector<T, Capacity>\<close> of \<open>ZpcAsync.hpp\<close>: raw storage for a fixed number of elements and
  the count of those constructed. A slot is \<open>Some x\<close> when an element has been constructed in it and
  not destroyed; constructing over an element, destroying an empty slot and reading one are the
  undefined behaviour the class must avoid, and are \<open>None\<close> here. \<open>emplace_back\<close> on a full vector
  throws.
\<close>

record 'a svec =
  sv_storage :: "'a option list"
  sv_size :: nat

datatype sv_error = Sv_throw | Sv_undefined

definition sv_capacity :: "'a svec \<Rightarrow> nat" where
  "sv_capacity v = length (sv_storage v)"

definition sv_new :: "nat \<Rightarrow> 'a svec" where
  "sv_new capacity = \<lparr>sv_storage = replicate capacity None, sv_size = 0\<rparr>"

definition sv_full :: "'a svec \<Rightarrow> bool" where
  "sv_full v \<longleftrightarrow> sv_size v = sv_capacity v"

definition sv_empty :: "'a svec \<Rightarrow> bool" where
  "sv_empty v \<longleftrightarrow> sv_size v = 0"

definition sv_get :: "'a svec \<Rightarrow> nat \<Rightarrow> 'a option" where
  "sv_get v i = (if i < sv_capacity v then sv_storage v ! i else None)"

definition sv_front :: "'a svec \<Rightarrow> 'a option" where
  "sv_front v = sv_get v 0"

definition sv_back :: "'a svec \<Rightarrow> 'a option" where
  "sv_back v = (if sv_size v = 0 then None else sv_get v (sv_size v - 1))"

definition sv_emplace_back :: "'a \<Rightarrow> 'a svec \<Rightarrow> sv_error + 'a svec" where
  "sv_emplace_back x v =
     (if sv_capacity v \<le> sv_size v then Inl Sv_throw
      else if sv_storage v ! sv_size v \<noteq> None then Inl Sv_undefined
      else Inr (v\<lparr>sv_storage := (sv_storage v)[sv_size v := Some x], sv_size := sv_size v + 1\<rparr>))"

definition sv_pop_back :: "'a svec \<Rightarrow> sv_error + 'a svec" where
  "sv_pop_back v =
     (if sv_size v = 0 then Inr v
      else let n = sv_size v - 1 in
        if sv_get v n = None then Inl Sv_undefined
        else Inr (v\<lparr>sv_storage := (sv_storage v)[n := None], sv_size := n\<rparr>))"

function sv_clear :: "'a svec \<Rightarrow> sv_error + 'a svec" where
  "sv_clear v =
     (if sv_size v = 0 then Inr v
      else let n = sv_size v - 1 in
        if sv_get v n = None then Inl Sv_undefined
        else sv_clear (v\<lparr>sv_storage := (sv_storage v)[n := None], sv_size := n\<rparr>))"
  by pat_completeness auto
termination by (relation "measure sv_size") auto

declare sv_clear.simps [simp del]

fun sv_append_from :: "'a svec \<Rightarrow> nat list \<Rightarrow> 'a svec \<Rightarrow> sv_error + 'a svec" where
  "sv_append_from o' [] v = Inr v"
| "sv_append_from o' (i # ks) v =
     (case sv_get o' i of None \<Rightarrow> Inl Sv_undefined
      | Some x \<Rightarrow> (case sv_emplace_back x v of Inl e \<Rightarrow> Inl e | Inr v \<Rightarrow> sv_append_from o' ks v))"

definition sv_copy :: "'a svec \<Rightarrow> sv_error + 'a svec" where
  "sv_copy o' = sv_append_from o' [0..<sv_size o'] (sv_new (sv_capacity o'))"

text \<open>Assignment between two vectors; assigning a vector to itself returns at once.\<close>

definition sv_assign :: "bool \<Rightarrow> 'a svec \<Rightarrow> 'a svec \<Rightarrow> sv_error + 'a svec" where
  "sv_assign same v o' =
     (if same then Inr v
      else case sv_clear v of Inl e \<Rightarrow> Inl e | Inr v \<Rightarrow> sv_append_from o' [0..<sv_size o'] v)"

section \<open>The vector as a bounded list\<close>

definition sv_ok :: "'a svec \<Rightarrow> bool" where
  "sv_ok v \<longleftrightarrow> sv_size v \<le> sv_capacity v \<and>
     (\<forall>i < sv_capacity v. sv_storage v ! i \<noteq> None \<longleftrightarrow> i < sv_size v)"

definition sv_list :: "'a svec \<Rightarrow> 'a list" where
  "sv_list v = map the (take (sv_size v) (sv_storage v))"

definition sv_of :: "nat \<Rightarrow> 'a list \<Rightarrow> 'a svec" where
  "sv_of capacity xs = \<lparr>sv_storage = map Some xs @ replicate (capacity - length xs) None,
     sv_size = length xs\<rparr>"

text \<open>A well-formed vector is determined by its capacity and the list it holds.\<close>

lemma sv_of_list: "sv_ok v \<Longrightarrow> v = sv_of (sv_capacity v) (sv_list v) \<and> length (sv_list v) \<le> sv_capacity v"
proof -
  assume ok: "sv_ok v"
  have "sv_storage v = map Some (sv_list v) @ replicate (sv_capacity v - sv_size v) None"
  proof (rule nth_equalityI)
    fix i assume "i < length (sv_storage v)"
    then show "sv_storage v ! i = (map Some (sv_list v) @ replicate (sv_capacity v - sv_size v) None) ! i"
      using ok by (cases "i < sv_size v")
        (auto simp: sv_ok_def sv_list_def sv_capacity_def nth_append)
  qed (use ok in \<open>simp add: sv_ok_def sv_list_def sv_capacity_def\<close>)
  moreover have "length (sv_list v) = sv_size v"
    using ok by (simp add: sv_ok_def sv_list_def sv_capacity_def)
  ultimately show ?thesis using ok by (cases v) (simp add: sv_of_def sv_ok_def)
qed

lemma sv_of_ok: "length xs \<le> n \<Longrightarrow> sv_ok (sv_of n xs) \<and> sv_list (sv_of n xs) = xs \<and> sv_capacity (sv_of n xs) = n"
  by (auto simp: sv_ok_def sv_of_def sv_list_def sv_capacity_def nth_append)

lemma sv_new_of: "sv_new n = sv_of n []"
  by (simp add: sv_new_def sv_of_def)

lemma sv_size_of [simp]: "sv_size (sv_of n xs) = length xs"
  by (simp add: sv_of_def)

lemma sv_capacity_of [simp]: "length xs \<le> n \<Longrightarrow> sv_capacity (sv_of n xs) = n"
  by (simp add: sv_of_def sv_capacity_def)

lemma sv_get_of: "length xs \<le> n \<Longrightarrow> sv_get (sv_of n xs) i = (if i < length xs then Some (xs ! i) else None)"
  by (auto simp: sv_get_def sv_of_def sv_capacity_def nth_append)

lemma sv_emplace_back_of:
  assumes "length xs \<le> n"
  shows "sv_emplace_back x (sv_of n xs) =
    (if length xs = n then Inl Sv_throw else Inr (sv_of n (xs @ [x])))"
proof (cases "length xs = n")
  case False
  then obtain k where "n = length xs + Suc k" using assms by (metis le_eq_less_or_eq less_natE add_Suc_right)
  then show ?thesis
    by (simp add: sv_emplace_back_def sv_of_def sv_capacity_def nth_append list_update_append)
qed (simp add: sv_emplace_back_def sv_of_def sv_capacity_def)

lemma sv_pop_of:
  assumes "length xs < n"
  shows "(sv_of n (xs @ [x]))\<lparr>sv_storage := (sv_storage (sv_of n (xs @ [x])))[length xs := None],
    sv_size := length xs\<rparr> = sv_of n xs"
proof -
  obtain k where "n = length xs + Suc k" using assms by (metis less_natE add_Suc_right)
  then show ?thesis by (simp add: sv_of_def list_update_append)
qed

lemma sv_pop_back_of:
  "length xs \<le> n \<Longrightarrow> sv_pop_back (sv_of n xs) = Inr (sv_of n (butlast xs))"
  by (cases xs rule: rev_cases) (simp_all add: sv_pop_back_def sv_pop_of sv_get_of Let_def)

lemma sv_clear_of: "length xs \<le> n \<Longrightarrow> sv_clear (sv_of n xs) = Inr (sv_of n [])"
proof (induction xs rule: rev_induct)
  case (snoc x xs)
  then show ?case by (subst sv_clear.simps) (simp add: sv_get_of sv_pop_of Let_def)
qed (subst sv_clear.simps, simp)

lemma sv_append_from_of:
  assumes "length xs \<le> n" and "length ys + length ks \<le> m" and "\<forall>i \<in> set ks. i < length xs"
  shows "sv_append_from (sv_of n xs) ks (sv_of m ys) = Inr (sv_of m (ys @ map ((!) xs) ks))"
  using assms(2,3)
proof (induction ks arbitrary: ys)
  case (Cons k ks)
  then show ?case using assms(1) by (simp add: sv_get_of sv_emplace_back_of)
qed simp

text \<open>
  C23: over well-formed vectors, which every operation returns, the class is a list bounded by its
  capacity: appending throws exactly when the vector is full, popping drops the last element of a
  non-empty one, clearing destroys all, and copy construction and assignment, to itself too, give
  the elements of the source; no operation constructs over an element or touches an empty slot.
\<close>
theorem static_vector_refines_list:
  assumes "sv_ok v" and "sv_ok w" and "sv_capacity w = sv_capacity v"
  shows "sv_emplace_back x v = (if length (sv_list v) = sv_capacity v then Inl Sv_throw
       else Inr (sv_of (sv_capacity v) (sv_list v @ [x])))
    \<and> sv_pop_back v = Inr (sv_of (sv_capacity v) (butlast (sv_list v)))
    \<and> sv_clear v = Inr (sv_new (sv_capacity v))
    \<and> sv_copy v = Inr v \<and> sv_assign False v w = Inr w \<and> sv_assign True v v = Inr v"
proof -
  obtain n xs ys where v: "v = sv_of n xs" "length xs \<le> n" and w: "w = sv_of n ys" "length ys \<le> n"
    and n: "n = sv_capacity v" and xs: "xs = sv_list v"
    using sv_of_list [OF assms(1)] sv_of_list [OF assms(2)] assms(3) by metis
  have "sv_copy v = Inr v" "sv_assign False v w = Inr w"
    using v(2) w(2) sv_append_from_of [of xs n "[]" "[0..<length xs]" n]
      sv_append_from_of [of ys n "[]" "[0..<length ys]" n]
    by (simp_all add: sv_copy_def sv_assign_def v(1) w(1) sv_clear_of sv_new_of map_nth)
  moreover have "sv_assign True v v = Inr v" by (simp add: sv_assign_def)
  moreover have "sv_emplace_back x v = (if length (sv_list v) = sv_capacity v then Inl Sv_throw
      else Inr (sv_of (sv_capacity v) (sv_list v @ [x])))"
    using sv_emplace_back_of [OF v(2)] by (simp add: v(1) sv_of_ok [OF v(2)])
  moreover have "sv_pop_back v = Inr (sv_of (sv_capacity v) (butlast (sv_list v)))"
    using sv_pop_back_of [OF v(2)] by (simp add: v(1) sv_of_ok [OF v(2)])
  moreover have "sv_clear v = Inr (sv_new (sv_capacity v))"
    using sv_clear_of [OF v(2)] by (simp add: v sv_new_of)
  ultimately show ?thesis by blast
qed

theorem static_vector_refines_list_witness:
  "sv_emplace_back (5 :: nat) (sv_of 2 [3, 4]) = Inl Sv_throw
    \<and> sv_pop_back (sv_of 2 [3, 4 :: nat]) = Inr (sv_of 2 [3])
    \<and> sv_assign False (sv_of 2 [3, 4 :: nat]) (sv_of 2 [7]) = Inr (sv_of 2 [7])"
  using static_vector_refines_list [of "sv_of 2 [3, 4 :: nat]" "sv_of 2 [7]" 5]
  by (simp add: sv_of_ok)

end
