(* ===== verification/Async_Runtime.thy ===== *)
theory Async_Runtime
  imports Async_Types "HOL-Library.Monad_Syntax"
begin

text \<open>
  The event and the runtime of \<open>execution/AsyncRuntime.hpp\<close>. The runtime's code runs on several
  threads: a thread is a stack of frames, the calls it has still to make, and a move of a thread
  performs the atomic part of its top frame (a critical section of an event's mutex, one atomic
  operation, a queue operation, a user's step) and pushes the calls that part leads to. Nested calls,
  such as the callbacks an event runs and the submissions these dispatch inline, are the frames
  pushed above the caller's rest.

  A user's step is a function of its context, of the flags of its stop token and of a world of the
  user's; it returns a poll status and the new world, or throws (\<open>None\<close>). Steps do not call the
  runtime. Executors are those of the file: inline and thread pools.
\<close>

section \<open>Events\<close>

record 'k event =
  ev_status :: task_status
  ev_callbacks :: "'k list"

definition new_event :: "'k event" where
  "new_event = \<lparr>ev_status = St_pending, ev_callbacks = []\<rparr>"

definition event_ready :: "'k event \<Rightarrow> bool" where
  "event_ready e \<longleftrightarrow> is_terminal (ev_status e)"

text \<open>The callbacks to run, and the event after the critical section.\<close>

definition event_transition :: "task_status \<Rightarrow> 'k event \<Rightarrow> 'k list \<times> 'k event" where
  "event_transition next e =
     (if is_terminal (ev_status e) then ([], e)
      else if is_terminal next then (ev_callbacks e, e\<lparr>ev_status := next, ev_callbacks := []\<rparr>)
      else ([], e\<lparr>ev_status := next\<rparr>))"

definition event_on_complete :: "'k \<Rightarrow> 'k event \<Rightarrow> bool \<times> 'k event" where
  "event_on_complete k e =
     (if is_terminal (ev_status e) then (True, e)
      else (False, e\<lparr>ev_callbacks := ev_callbacks e @ [k]\<rparr>))"

text \<open>What \<open>wait\<close> blocks on.\<close>

definition event_wait_over :: "'k event \<Rightarrow> bool" where
  "event_wait_over e \<longleftrightarrow> is_terminal (ev_status e)"

section \<open>Submissions and executors\<close>

record exec_context =
  ec_submissionId :: u64
  ec_desc :: task_desc
  ec_endpoint :: endpoint
  ec_cancellation :: "nat option"

type_synonym 'w astep = "exec_context \<Rightarrow> u32 \<Rightarrow> 'w \<Rightarrow> poll_status option \<times> 'w"

record 'w submission =
  sb_executor :: string
  sb_desc :: task_desc
  sb_endpoint :: endpoint
  sb_step :: "'w astep option"
  sb_prerequisites :: "nat list"
  sb_cancellation :: "nat option"
  sb_stopOnPrerequisiteFailure :: bool

record 'w sub_state =
  ss_id :: u64
  ss_executor :: string
  ss_desc :: task_desc
  ss_endpoint :: endpoint
  ss_cancellation :: "nat option"
  ss_step :: "'w astep option"
  ss_event :: nat
  ss_inFlight :: bool

record dep_state =
  dp_remaining :: u64
  dp_failed :: bool
  dp_cancelled :: bool

datatype executor = Ex_inline | Ex_pool nat

record pool =
  pl_running :: bool
  pl_stop :: bool
  pl_queue :: "nat list"

definition pool_capacity :: nat where
  "pool_capacity = 4096"

datatype callback =
  Cb_user nat
| Cb_dep (cb_prereq: nat) (cb_dep: nat) (cb_sub: nat) (cb_exec: executor) (cb_stop: bool)

datatype frame =
  Fr_transition nat task_status
| Fr_call callback
| Fr_countdown nat nat executor
| Fr_register nat callback
| Fr_dispatch nat executor
| Fr_exec nat executor
| Fr_enqueue nat nat
| Fr_worker nat
| Fr_run nat
| Fr_finalize nat poll_status
| Fr_release nat
| Fr_resume nat
| Fr_join nat

datatype role = Client | Worker nat | Exited

record thread =
  th_role :: role
  th_stack :: "frame list"

record 'w runtime =
  rt_events :: "callback event list"
  rt_subs :: "'w sub_state list"
  rt_deps :: "dep_state list"
  rt_pools :: "pool list"
  rt_executors :: "string \<Rightarrow> executor option"
  rt_nextId :: u64
  rt_flags :: "nat \<Rightarrow> u32"
  rt_threads :: "thread list"
  rt_world :: 'w
  rt_ran :: "nat list"
  rt_called :: "nat list"
  rt_resumed :: "(nat \<times> bool) list"

text \<open>
  \<open>AsyncRuntime\<close>'s constructor registers the inline executor and one pool, whose workers run; the
  pool's constructor clamps their number to 1..16.
\<close>

definition clamp_workers :: "nat \<Rightarrow> nat" where
  "clamp_workers n = (let n = (if n = 0 then 1 else n) in if 16 < n then 16 else n)"

definition new_pool :: pool where
  "new_pool = \<lparr>pl_running = True, pl_stop = False, pl_queue = []\<rparr>"

definition new_runtime :: "nat \<Rightarrow> nat \<Rightarrow> 'w \<Rightarrow> 'w runtime" where
  "new_runtime clients workers w =
     \<lparr>rt_events = [], rt_subs = [], rt_deps = [], rt_pools = [new_pool],
      rt_executors = [''inline'' \<mapsto> Ex_inline, ''thread_pool'' \<mapsto> Ex_pool 0],
      rt_nextId = 0, rt_flags = (\<lambda>_. 0),
      rt_threads = replicate clients \<lparr>th_role = Client, th_stack = []\<rparr>
        @ replicate (clamp_workers workers) \<lparr>th_role = Worker 0, th_stack = []\<rparr>,
      rt_world = w, rt_ran = [], rt_called = [], rt_resumed = []\<rparr>"

definition contains_executor :: "'w runtime \<Rightarrow> string \<Rightarrow> bool" where
  "contains_executor r name \<longleftrightarrow> rt_executors r name \<noteq> None"

definition register_executor :: "string \<Rightarrow> executor \<Rightarrow> 'w runtime \<Rightarrow> 'w runtime" where
  "register_executor name x r = r\<lparr>rt_executors := (rt_executors r)(name \<mapsto> x)\<rparr>"

definition get_executor :: "'w runtime \<Rightarrow> string \<Rightarrow> executor option" where
  "get_executor r name = rt_executors r name"

section \<open>The calls\<close>

definition token_flags :: "'w runtime \<Rightarrow> nat option \<Rightarrow> u32" where
  "token_flags r t = (case t of None \<Rightarrow> 0 | Some c \<Rightarrow> rt_flags r c)"

text \<open>\<open>stop_requested() || interrupt_requested()\<close> of a submission's token.\<close>

definition cancel_requested :: "'w runtime \<Rightarrow> nat \<Rightarrow> bool" where
  "cancel_requested r s =
     (let f = token_flags r (ss_cancellation (rt_subs r ! s)) in f AND 1 \<noteq> 0 \<or> f AND 2 \<noteq> 0)"

definition poll_task_status :: "poll_status \<Rightarrow> task_status" where
  "poll_task_status p = (if p = Poll_suspend then St_suspended
     else if p = Poll_completed then St_completed
     else if p = Poll_cancelled then St_cancelled else St_failed)"

definition run_step :: "nat \<Rightarrow> 'w runtime \<Rightarrow> poll_status \<times> 'w runtime" where
  "run_step s r =
     (let st = rt_subs r ! s;
          ctx = \<lparr>ec_submissionId = ss_id st, ec_desc = ss_desc st, ec_endpoint = ss_endpoint st,
                 ec_cancellation = ss_cancellation st\<rparr>
      in case ss_step st of None \<Rightarrow> (Poll_failed, r)
         | Some f \<Rightarrow>
             let (res, w) = f ctx (token_flags r (ss_cancellation st)) (rt_world r);
                 r = r\<lparr>rt_world := w, rt_ran := rt_ran r @ [s]\<rparr>
             in (case res of None \<Rightarrow> (Poll_failed, r) | Some p \<Rightarrow> (p, r)))"

definition set_inFlight :: "nat \<Rightarrow> bool \<Rightarrow> 'w runtime \<Rightarrow> 'w runtime" where
  "set_inFlight s b r = r\<lparr>rt_subs := (rt_subs r)[s := (rt_subs r ! s)\<lparr>ss_inFlight := b\<rparr>]\<rparr>"

definition sub_event :: "'w runtime \<Rightarrow> nat \<Rightarrow> nat" where
  "sub_event r s = ss_event (rt_subs r ! s)"

definition pool_push :: "nat \<Rightarrow> nat \<Rightarrow> 'w runtime \<Rightarrow> 'w runtime" where
  "pool_push p s r = r\<lparr>rt_pools := (rt_pools r)[p := (rt_pools r ! p)\<lparr>pl_queue := pl_queue (rt_pools r ! p) @ [s]\<rparr>]\<rparr>"

definition finish_frames :: "'w runtime \<Rightarrow> nat \<Rightarrow> task_status \<Rightarrow> frame list" where
  "finish_frames r s st = [Fr_transition (sub_event r s) st, Fr_release s]"

text \<open>\<open>start_frames\<close>: what the inline executor and a worker do with a submission they hold.\<close>

definition start_frames :: "'w runtime \<Rightarrow> nat \<Rightarrow> frame list" where
  "start_frames r s =
     (if cancel_requested r s then finish_frames r s St_cancelled
      else [Fr_transition (sub_event r s) St_running, Fr_run s])"

definition executor_submit :: "'w runtime \<Rightarrow> nat \<Rightarrow> executor \<Rightarrow> frame list" where
  "executor_submit r s x = (case x of
     Ex_inline \<Rightarrow> start_frames r s
   | Ex_pool p \<Rightarrow>
       if \<not> pl_running (rt_pools r ! p) then finish_frames r s St_failed
       else if cancel_requested r s then finish_frames r s St_cancelled
       else [Fr_enqueue s p])"

text \<open>The loop around \<open>try_enqueue\<close>, one attempt at a time.\<close>

definition pool_enqueue :: "nat \<Rightarrow> nat \<Rightarrow> 'w runtime \<Rightarrow> frame list \<times> 'w runtime" where
  "pool_enqueue s p r =
     (let pl = rt_pools r ! p in
      if length (pl_queue pl) < pool_capacity then ([], pool_push p s r)
      else if \<not> pl_running pl \<or> pl_stop pl then (finish_frames r s St_failed, r)
      else ([Fr_enqueue s p], r))"

definition dep_note :: "nat \<Rightarrow> task_status \<Rightarrow> 'w runtime \<Rightarrow> 'w runtime" where
  "dep_note d st r =
     (let dp = rt_deps r ! d in
      if st = St_failed then r\<lparr>rt_deps := (rt_deps r)[d := dp\<lparr>dp_failed := True\<rparr>]\<rparr>
      else if st = St_cancelled then r\<lparr>rt_deps := (rt_deps r)[d := dp\<lparr>dp_cancelled := True\<rparr>]\<rparr>
      else r)"

definition dep_countdown :: "nat \<Rightarrow> nat \<Rightarrow> executor \<Rightarrow> 'w runtime \<Rightarrow> frame list \<times> 'w runtime" where
  "dep_countdown d s x r =
     (let dp = rt_deps r ! d;
          r = r\<lparr>rt_deps := (rt_deps r)[d := dp\<lparr>dp_remaining := dp_remaining dp - 1\<rparr>]\<rparr>
      in if dp_remaining dp = 1 then
           ((if dp_failed dp then [Fr_transition (sub_event r s) St_failed]
             else if dp_cancelled dp then [Fr_transition (sub_event r s) St_cancelled]
             else [Fr_dispatch s x]), r)
         else ([], r))"

definition call_callback :: "callback \<Rightarrow> 'w runtime \<Rightarrow> frame list \<times> 'w runtime" where
  "call_callback k r = (case k of
     Cb_user n \<Rightarrow> ([], r\<lparr>rt_called := rt_called r @ [n]\<rparr>)
   | Cb_dep e d s x stop \<Rightarrow>
       ([Fr_countdown d s x], if stop then dep_note d (ev_status (rt_events r ! e)) r else r))"

definition set_event :: "nat \<Rightarrow> callback event \<Rightarrow> 'w runtime \<Rightarrow> 'w runtime" where
  "set_event e v r = r\<lparr>rt_events := (rt_events r)[e := v]\<rparr>"

definition log_resume :: "nat \<Rightarrow> bool \<Rightarrow> 'w runtime \<Rightarrow> 'w runtime" where
  "log_resume s b r = r\<lparr>rt_resumed := rt_resumed r @ [(s, b)]\<rparr>"

definition resume_call :: "nat \<Rightarrow> 'w runtime \<Rightarrow> frame list \<times> 'w runtime" where
  "resume_call s r =
     (let st = ev_status (rt_events r ! sub_event r s) in
      if st \<noteq> St_suspended \<and> st \<noteq> St_pending then ([], log_resume s False r)
      else case get_executor r (ss_executor (rt_subs r ! s)) of
        None \<Rightarrow> ([], log_resume s False r)
      | Some x \<Rightarrow> ([Fr_dispatch s x], log_resume s True r))"

definition workers_alive :: "nat \<Rightarrow> 'w runtime \<Rightarrow> bool" where
  "workers_alive p r \<longleftrightarrow> (\<exists>t \<in> set (rt_threads r). th_role t = Worker p)"

fun micro :: "frame \<Rightarrow> 'w runtime \<Rightarrow> frame list \<times> 'w runtime" where
  "micro (Fr_transition e st) r =
     (let (ks, v) = event_transition st (rt_events r ! e) in (map Fr_call ks, set_event e v r))"
| "micro (Fr_call k) r = call_callback k r"
| "micro (Fr_countdown d s x) r = dep_countdown d s x r"
| "micro (Fr_register e k) r =
     (let (now, v) = event_on_complete k (rt_events r ! e)
      in (if now then [Fr_call k] else [], set_event e v r))"
| "micro (Fr_dispatch s x) r =
     (if ss_inFlight (rt_subs r ! s) then ([], r) else ([Fr_exec s x], set_inFlight s True r))"
| "micro (Fr_exec s x) r = (executor_submit r s x, r)"
| "micro (Fr_enqueue s p) r = pool_enqueue s p r"
| "micro (Fr_worker s) r = (start_frames r s, r)"
| "micro (Fr_run s) r = (let (p, r) = run_step s r in ([Fr_finalize s p], r))"
| "micro (Fr_finalize s p) r = (finish_frames r s (poll_task_status p), r)"
| "micro (Fr_release s) r = ([], set_inFlight s False r)"
| "micro (Fr_resume s) r = resume_call s r"
| "micro (Fr_join p) r = (if workers_alive p r then [Fr_join p] else [], r)"

section \<open>Handles\<close>

text \<open>A handle names a submission's state or is empty.\<close>

definition submission_valid :: "nat option \<Rightarrow> bool" where
  "submission_valid h \<longleftrightarrow> h \<noteq> None"

definition handle_id :: "'w runtime \<Rightarrow> nat option \<Rightarrow> u64" where
  "handle_id r h = (case h of None \<Rightarrow> 0 | Some s \<Rightarrow> ss_id (rt_subs r ! s))"

definition handle_event :: "'w runtime \<Rightarrow> nat option \<Rightarrow> callback event" where
  "handle_event r h = (case h of None \<Rightarrow> new_event | Some s \<Rightarrow> rt_events r ! sub_event r s)"

definition handle_status :: "'w runtime \<Rightarrow> nat option \<Rightarrow> task_status" where
  "handle_status r h = (case h of None \<Rightarrow> St_failed | Some s \<Rightarrow> ev_status (rt_events r ! sub_event r s))"

section \<open>Moves of the threads\<close>

datatype 'w api =
  Api_create
| Api_complete nat task_status
| Api_on_complete nat nat
| Api_register string executor
| Api_submit "'w submission"
| Api_resume nat
| Api_request nat u32
| Api_shutdown nat

text \<open>
  \<open>submit\<close>: the throw is \<open>None\<close>. The submission's state, event and dependency state are new; the
  calls left are the dispatch, or the registrations with the prerequisites in order.
\<close>

definition make_sub :: "'w submission \<Rightarrow> u64 \<Rightarrow> nat \<Rightarrow> 'w sub_state" where
  "make_sub b i e =
     \<lparr>ss_id = i, ss_executor = sb_executor b, ss_desc = sb_desc b, ss_endpoint = sb_endpoint b,
      ss_cancellation = sb_cancellation b, ss_step = sb_step b, ss_event = e, ss_inFlight = False\<rparr>"

definition submit :: "'w submission \<Rightarrow> 'w runtime \<Rightarrow> (frame list \<times> 'w runtime) option" where
  "submit b r = do {
     x \<leftarrow> get_executor r (sb_executor b);
     let i = rt_nextId r + 1;
     let s = length (rt_subs r);
     let e = length (rt_events r);
     let d = length (rt_deps r);
     let r = r\<lparr>rt_nextId := i, rt_events := rt_events r @ [new_event],
               rt_subs := rt_subs r @ [make_sub b i e]\<rparr>;
     if sb_prerequisites b = [] then Some ([Fr_dispatch s x], r)
     else Some (map (\<lambda>p. Fr_register p (Cb_dep p d s x (sb_stopOnPrerequisiteFailure b)))
                  (sb_prerequisites b),
                r\<lparr>rt_deps := rt_deps r @ [\<lparr>dp_remaining = of_nat (length (sb_prerequisites b)),
                   dp_failed = False, dp_cancelled = False\<rparr>]\<rparr>) }"

text \<open>\<open>shutdown\<close> stops a pool once and then joins its workers.\<close>

definition pool_shutdown :: "nat \<Rightarrow> 'w runtime \<Rightarrow> frame list \<times> 'w runtime" where
  "pool_shutdown p r = (if pl_running (rt_pools r ! p)
     then ([Fr_join p],
       r\<lparr>rt_pools := (rt_pools r)[p := (rt_pools r ! p)\<lparr>pl_running := False, pl_stop := True\<rparr>]\<rparr>)
     else ([], r))"

text \<open>Calls with a handle that does not exist cannot be made.\<close>

definition sub_valid :: "'w runtime \<Rightarrow> 'w submission \<Rightarrow> bool" where
  "sub_valid r b \<longleftrightarrow> (\<forall>p \<in> set (sb_prerequisites b). p < length (rt_events r))"

fun api_call :: "'w api \<Rightarrow> 'w runtime \<Rightarrow> (frame list \<times> 'w runtime) option" where
  "api_call Api_create r = Some ([], r\<lparr>rt_events := rt_events r @ [new_event]\<rparr>)"
| "api_call (Api_complete e st) r =
     (if e < length (rt_events r) then Some ([Fr_transition e st], r) else None)"
| "api_call (Api_on_complete e n) r =
     (if e < length (rt_events r) then Some ([Fr_register e (Cb_user n)], r) else None)"
| "api_call (Api_register name x) r = (case x of
     Ex_inline \<Rightarrow> Some ([], register_executor name x r)
   | Ex_pool p \<Rightarrow> if p < length (rt_pools r) then Some ([], register_executor name x r) else None)"
| "api_call (Api_submit b) r = (if sub_valid r b then submit b r else None)"
| "api_call (Api_resume s) r = (if s < length (rt_subs r) then Some ([Fr_resume s], r) else None)"
| "api_call (Api_request c b) r = Some ([], r\<lparr>rt_flags := (rt_flags r)(c := rt_flags r c OR b)\<rparr>)"
| "api_call (Api_shutdown p) r =
     (if p < length (rt_pools r) then Some (pool_shutdown p r) else None)"

datatype 'w move = Step nat | Call nat "'w api" | Take nat | Exit nat

definition set_stack :: "nat \<Rightarrow> frame list \<Rightarrow> 'w runtime \<Rightarrow> 'w runtime" where
  "set_stack i fs r = r\<lparr>rt_threads := (rt_threads r)[i := (rt_threads r ! i)\<lparr>th_stack := fs\<rparr>]\<rparr>"

definition set_role :: "nat \<Rightarrow> role \<Rightarrow> 'w runtime \<Rightarrow> 'w runtime" where
  "set_role i x r = r\<lparr>rt_threads := (rt_threads r)[i := (rt_threads r ! i)\<lparr>th_role := x\<rparr>]\<rparr>"

definition stack :: "'w runtime \<Rightarrow> nat \<Rightarrow> frame list" where
  "stack r i = th_stack (rt_threads r ! i)"

text \<open>\<open>Take\<close> and \<open>Exit\<close> are the two exits of one round of a worker's loop.\<close>

fun rt_do :: "'w runtime \<Rightarrow> 'w move \<Rightarrow> 'w runtime option" where
  "rt_do r (Step i) = (if i < length (rt_threads r) then (case stack r i of
       [] \<Rightarrow> None
     | f # fs \<Rightarrow> (let (gs, r') = micro f r in Some (set_stack i (gs @ fs) r'))) else None)"
| "rt_do r (Call i a) =
     (if i < length (rt_threads r) \<and> th_role (rt_threads r ! i) = Client \<and> stack r i = []
      then do { (gs, r') \<leftarrow> api_call a r; Some (set_stack i gs r') } else None)"
| "rt_do r (Take i) = (if i < length (rt_threads r) \<and> stack r i = [] then
     (case th_role (rt_threads r ! i) of
        Worker p \<Rightarrow> (case pl_queue (rt_pools r ! p) of
            [] \<Rightarrow> None
          | s # ss \<Rightarrow> Some (set_stack i [Fr_worker s]
              (r\<lparr>rt_pools := (rt_pools r)[p := (rt_pools r ! p)\<lparr>pl_queue := ss\<rparr>]\<rparr>)))
      | _ \<Rightarrow> None) else None)"
| "rt_do r (Exit i) = (if i < length (rt_threads r) \<and> stack r i = [] then
     (case th_role (rt_threads r ! i) of
        Worker p \<Rightarrow> (if pl_stop (rt_pools r ! p) \<and> pl_queue (rt_pools r ! p) = []
          then Some (set_role i Exited r) else None)
      | _ \<Rightarrow> None) else None)"

fun rt_run :: "'w runtime \<Rightarrow> 'w move list \<Rightarrow> 'w runtime option" where
  "rt_run r [] = Some r"
| "rt_run r (m # ms) = do { r \<leftarrow> rt_do r m; rt_run r ms }"

end
