(* ===== verification/Async_Runtime_Inv.thy ===== *)
theory Async_Runtime_Inv
  imports Async_Runtime
begin

text \<open>
  Invariants of the runtime under every interleaving of its threads: references stay in range, a
  terminal event keeps its status and has no callbacks left, and a submission in flight is held by
  exactly one frame or queue entry.
\<close>

section \<open>References in range\<close>

definition callback_ok :: "'w runtime \<Rightarrow> callback \<Rightarrow> bool" where
  "callback_ok r k = (case k of Cb_user n \<Rightarrow> True
     | Cb_dep e d s x stop \<Rightarrow> e < length (rt_events r) \<and> d < length (rt_deps r) \<and>
         s < length (rt_subs r) \<and> (\<forall>p. x = Ex_pool p \<longrightarrow> p < length (rt_pools r)))"

fun frame_ok :: "'w runtime \<Rightarrow> frame \<Rightarrow> bool" where
  "frame_ok r (Fr_transition e st) = (e < length (rt_events r))"
| "frame_ok r (Fr_call k) = callback_ok r k"
| "frame_ok r (Fr_countdown d s x) = (d < length (rt_deps r) \<and> s < length (rt_subs r) \<and>
     (\<forall>p. x = Ex_pool p \<longrightarrow> p < length (rt_pools r)))"
| "frame_ok r (Fr_register e k) = (e < length (rt_events r) \<and> callback_ok r k)"
| "frame_ok r (Fr_dispatch s x) = (s < length (rt_subs r) \<and>
     (\<forall>p. x = Ex_pool p \<longrightarrow> p < length (rt_pools r)))"
| "frame_ok r (Fr_exec s x) = (s < length (rt_subs r) \<and>
     (\<forall>p. x = Ex_pool p \<longrightarrow> p < length (rt_pools r)))"
| "frame_ok r (Fr_enqueue s p) = (s < length (rt_subs r) \<and> p < length (rt_pools r))"
| "frame_ok r (Fr_worker s) = (s < length (rt_subs r))"
| "frame_ok r (Fr_run s) = (s < length (rt_subs r))"
| "frame_ok r (Fr_finalize s p) = (s < length (rt_subs r))"
| "frame_ok r (Fr_release s) = (s < length (rt_subs r))"
| "frame_ok r (Fr_resume s) = (s < length (rt_subs r))"
| "frame_ok r (Fr_join p) = (p < length (rt_pools r))"

definition event_ok :: "'w runtime \<Rightarrow> callback event \<Rightarrow> bool" where
  "event_ok r e \<longleftrightarrow> (\<forall>k \<in> set (ev_callbacks e). callback_ok r k) \<and>
     (is_terminal (ev_status e) \<longrightarrow> ev_callbacks e = [])"

definition thread_ok :: "'w runtime \<Rightarrow> thread \<Rightarrow> bool" where
  "thread_ok r t \<longleftrightarrow> (\<forall>f \<in> set (th_stack t). frame_ok r f) \<and>
     (\<forall>p. th_role t = Worker p \<longrightarrow> p < length (rt_pools r))"

definition rt_ok :: "'w runtime \<Rightarrow> bool" where
  "rt_ok r \<longleftrightarrow>
     (\<forall>t \<in> set (rt_threads r). thread_ok r t) \<and>
     (\<forall>e \<in> set (rt_events r). event_ok r e) \<and>
     (\<forall>b \<in> set (rt_subs r). ss_event b < length (rt_events r)) \<and>
     (\<forall>pl \<in> set (rt_pools r). \<forall>s \<in> set (pl_queue pl). s < length (rt_subs r)) \<and>
     (\<forall>n p. rt_executors r n = Some (Ex_pool p) \<longrightarrow> p < length (rt_pools r))"

text \<open>The store of a runtime never shrinks.\<close>

definition grows :: "'w runtime \<Rightarrow> 'w runtime \<Rightarrow> bool" where
  "grows r r' \<longleftrightarrow> length (rt_events r) \<le> length (rt_events r') \<and>
     length (rt_subs r) \<le> length (rt_subs r') \<and> length (rt_deps r) \<le> length (rt_deps r') \<and>
     length (rt_pools r) \<le> length (rt_pools r')"

lemma callback_ok_grows: "callback_ok r k \<Longrightarrow> grows r r' \<Longrightarrow> callback_ok r' k"
  by (auto simp: callback_ok_def grows_def split: callback.splits)

lemma frame_ok_grows: "frame_ok r f \<Longrightarrow> grows r r' \<Longrightarrow> frame_ok r' f"
  by (cases f) (auto simp: grows_def intro: callback_ok_grows)

lemma event_ok_grows: "event_ok r e \<Longrightarrow> grows r r' \<Longrightarrow> event_ok r' e"
  by (auto simp: event_ok_def intro: callback_ok_grows)

lemma thread_ok_grows: "thread_ok r t \<Longrightarrow> grows r r' \<Longrightarrow> thread_ok r' t"
  by (auto simp: thread_ok_def grows_def intro: frame_ok_grows)

text \<open>Which parts the pieces of the calls touch.\<close>

lemma set_inFlight_frame [frame_simps, simp]:
  "rt_events (set_inFlight s b r) = rt_events r" "rt_deps (set_inFlight s b r) = rt_deps r"
  "rt_pools (set_inFlight s b r) = rt_pools r" "rt_executors (set_inFlight s b r) = rt_executors r"
  "rt_threads (set_inFlight s b r) = rt_threads r" "length (rt_subs (set_inFlight s b r)) = length (rt_subs r)"
  "rt_called (set_inFlight s b r) = rt_called r" "rt_ran (set_inFlight s b r) = rt_ran r"
  by (simp_all add: set_inFlight_def)

lemma set_event_frame [frame_simps, simp]:
  "length (rt_events (set_event e v r)) = length (rt_events r)" "rt_deps (set_event e v r) = rt_deps r"
  "rt_pools (set_event e v r) = rt_pools r" "rt_executors (set_event e v r) = rt_executors r"
  "rt_threads (set_event e v r) = rt_threads r" "rt_subs (set_event e v r) = rt_subs r"
  "rt_called (set_event e v r) = rt_called r" "rt_ran (set_event e v r) = rt_ran r"
  "rt_events (set_event e v r) = (rt_events r)[e := v]"
  by (simp_all add: set_event_def)

lemma log_resume_frame [frame_simps, simp]:
  "rt_events (log_resume s b r) = rt_events r" "rt_deps (log_resume s b r) = rt_deps r"
  "rt_pools (log_resume s b r) = rt_pools r" "rt_executors (log_resume s b r) = rt_executors r"
  "rt_threads (log_resume s b r) = rt_threads r" "rt_subs (log_resume s b r) = rt_subs r"
  "rt_called (log_resume s b r) = rt_called r" "rt_ran (log_resume s b r) = rt_ran r"
  by (simp_all add: log_resume_def)

lemma pool_push_frame [frame_simps, simp]:
  "rt_events (pool_push p s r) = rt_events r" "rt_deps (pool_push p s r) = rt_deps r"
  "length (rt_pools (pool_push p s r)) = length (rt_pools r)"
  "rt_executors (pool_push p s r) = rt_executors r"
  "rt_threads (pool_push p s r) = rt_threads r" "rt_subs (pool_push p s r) = rt_subs r"
  "rt_called (pool_push p s r) = rt_called r" "rt_ran (pool_push p s r) = rt_ran r"
  by (simp_all add: pool_push_def)

lemma dep_note_frame [frame_simps, simp]:
  "rt_events (dep_note d st r) = rt_events r" "length (rt_deps (dep_note d st r)) = length (rt_deps r)"
  "rt_pools (dep_note d st r) = rt_pools r" "rt_executors (dep_note d st r) = rt_executors r"
  "rt_threads (dep_note d st r) = rt_threads r" "rt_subs (dep_note d st r) = rt_subs r"
  "rt_called (dep_note d st r) = rt_called r" "rt_ran (dep_note d st r) = rt_ran r"
  by (simp_all add: dep_note_def Let_def)

lemma run_step_frame [frame_simps, simp]:
  "rt_events (snd (run_step s r)) = rt_events r" "rt_deps (snd (run_step s r)) = rt_deps r"
  "rt_pools (snd (run_step s r)) = rt_pools r" "rt_executors (snd (run_step s r)) = rt_executors r"
  "rt_threads (snd (run_step s r)) = rt_threads r" "rt_subs (snd (run_step s r)) = rt_subs r"
  "rt_called (snd (run_step s r)) = rt_called r"
  by (simp_all add: run_step_def Let_def split_beta split: option.split)

lemma dep_countdown_frame [frame_simps, simp]:
  "rt_events (snd (dep_countdown d s x r)) = rt_events r"
  "length (rt_deps (snd (dep_countdown d s x r))) = length (rt_deps r)"
  "rt_pools (snd (dep_countdown d s x r)) = rt_pools r"
  "rt_executors (snd (dep_countdown d s x r)) = rt_executors r"
  "rt_threads (snd (dep_countdown d s x r)) = rt_threads r"
  "rt_subs (snd (dep_countdown d s x r)) = rt_subs r"
  "rt_called (snd (dep_countdown d s x r)) = rt_called r"
  "rt_ran (snd (dep_countdown d s x r)) = rt_ran r"
  by (simp_all add: dep_countdown_def Let_def)

lemma call_callback_frame [frame_simps, simp]:
  "rt_events (snd (call_callback k r)) = rt_events r"
  "length (rt_deps (snd (call_callback k r))) = length (rt_deps r)"
  "rt_pools (snd (call_callback k r)) = rt_pools r"
  "rt_executors (snd (call_callback k r)) = rt_executors r"
  "rt_threads (snd (call_callback k r)) = rt_threads r"
  "rt_subs (snd (call_callback k r)) = rt_subs r"
  "rt_ran (snd (call_callback k r)) = rt_ran r"
  by (simp_all add: call_callback_def split: callback.split)

lemma resume_call_frame [frame_simps, simp]:
  "rt_events (snd (resume_call s r)) = rt_events r" "rt_deps (snd (resume_call s r)) = rt_deps r"
  "rt_pools (snd (resume_call s r)) = rt_pools r"
  "rt_executors (snd (resume_call s r)) = rt_executors r"
  "rt_threads (snd (resume_call s r)) = rt_threads r" "rt_subs (snd (resume_call s r)) = rt_subs r"
  "rt_called (snd (resume_call s r)) = rt_called r" "rt_ran (snd (resume_call s r)) = rt_ran r"
  by (simp_all add: resume_call_def Let_def split: option.split)

lemma pool_enqueue_frame [frame_simps, simp]:
  "rt_events (snd (pool_enqueue s p r)) = rt_events r" "rt_deps (snd (pool_enqueue s p r)) = rt_deps r"
  "length (rt_pools (snd (pool_enqueue s p r))) = length (rt_pools r)"
  "rt_executors (snd (pool_enqueue s p r)) = rt_executors r"
  "rt_threads (snd (pool_enqueue s p r)) = rt_threads r" "rt_subs (snd (pool_enqueue s p r)) = rt_subs r"
  "rt_called (snd (pool_enqueue s p r)) = rt_called r" "rt_ran (snd (pool_enqueue s p r)) = rt_ran r"
  by (simp_all add: pool_enqueue_def Let_def)

lemma micro_grows [frame_simps, simp]:
  "length (rt_events (snd (micro f r))) = length (rt_events r)"
  "length (rt_subs (snd (micro f r))) = length (rt_subs r)"
  "length (rt_deps (snd (micro f r))) = length (rt_deps r)"
  "length (rt_pools (snd (micro f r))) = length (rt_pools r)"
  "rt_threads (snd (micro f r)) = rt_threads r"
  "rt_executors (snd (micro f r)) = rt_executors r"
  by (cases f; simp add: split_beta Let_def)+

section \<open>A frame's move keeps references in range\<close>

text \<open>The frames a move pushes are in range.\<close>

lemma rt_ok_event: "rt_ok r \<Longrightarrow> e < length (rt_events r) \<Longrightarrow> event_ok r (rt_events r ! e)"
  by (simp add: rt_ok_def)

lemma rt_ok_sub_event: "rt_ok r \<Longrightarrow> s < length (rt_subs r) \<Longrightarrow> sub_event r s < length (rt_events r)"
  by (simp add: rt_ok_def sub_event_def)

lemma sub_event_frame [frame_simps, simp]:
  "sub_event (rt_deps_update u r) s = sub_event r s"
  "sub_event (rt_events_update w r) s = sub_event r s"
  "sub_event (rt_pools_update v r) s = sub_event r s"
  by (simp_all add: sub_event_def)

lemma finish_frames_ok:
  "rt_ok r \<Longrightarrow> s < length (rt_subs r) \<Longrightarrow> f \<in> set (finish_frames r s st) \<Longrightarrow> frame_ok r f"
  by (auto simp: finish_frames_def rt_ok_sub_event)

lemma start_frames_ok:
  "rt_ok r \<Longrightarrow> s < length (rt_subs r) \<Longrightarrow> f \<in> set (start_frames r s) \<Longrightarrow> frame_ok r f"
  by (auto simp: start_frames_def rt_ok_sub_event split: if_splits dest: finish_frames_ok)

lemma micro_frames_ok:
  assumes "rt_ok r" and "frame_ok r f" and "g \<in> set (fst (micro f r))"
  shows "frame_ok r g"
proof (cases f)
  case (Fr_transition e st)
  then show ?thesis using assms rt_ok_event [OF assms(1), of e]
    by (auto simp: event_transition_def event_ok_def split: if_splits)
next
  case (Fr_resume s)
  then show ?thesis using assms
    by (auto simp: resume_call_def Let_def get_executor_def rt_ok_def split: option.splits if_splits)
qed (use assms in \<open>auto simp: call_callback_def callback_ok_def dep_countdown_def Let_def
    event_on_complete_def executor_submit_def pool_enqueue_def split_beta rt_ok_sub_event
    split: callback.splits if_splits executor.splits
    dest: finish_frames_ok start_frames_ok\<close>)

text \<open>So does the store it leaves.\<close>

definition store_ok :: "'w runtime \<Rightarrow> bool" where
  "store_ok r \<longleftrightarrow> (\<forall>e \<in> set (rt_events r). event_ok r e) \<and>
     (\<forall>b \<in> set (rt_subs r). ss_event b < length (rt_events r)) \<and>
     (\<forall>pl \<in> set (rt_pools r). \<forall>s \<in> set (pl_queue pl). s < length (rt_subs r)) \<and>
     (\<forall>n p. rt_executors r n = Some (Ex_pool p) \<longrightarrow> p < length (rt_pools r))"

lemma rt_ok_store: "rt_ok r \<longleftrightarrow> store_ok r \<and> (\<forall>t \<in> set (rt_threads r). thread_ok r t)"
  by (auto simp: rt_ok_def store_ok_def)

lemma event_ok_cong:
  fixes r r' :: "'w runtime"
  assumes "length (rt_events r') = length (rt_events r)" "length (rt_subs r') = length (rt_subs r)"
    "length (rt_deps r') = length (rt_deps r)" "length (rt_pools r') = length (rt_pools r)"
  shows "event_ok r' = event_ok r"
proof (rule ext)
  fix e
  have "grows r r'" "grows r' r" using assms by (simp_all add: grows_def)
  then show "event_ok r' e = event_ok r e" using event_ok_grows by blast
qed

lemma set_list_update_all: "\<forall>x \<in> set xs. P x \<Longrightarrow> P v \<Longrightarrow> \<forall>x \<in> set (xs[i := v]). P x"
  by (auto dest: set_update_subset_insert [THEN subsetD])

lemma store_ok_subs:
  assumes "store_ok r" and "s < length (rt_subs r)"
  shows "store_ok (set_inFlight s b r)"
proof -
  have "\<forall>b' \<in> set ((rt_subs r)[s := (rt_subs r ! s)\<lparr>ss_inFlight := b\<rparr>]). ss_event b' < length (rt_events r)"
    using assms by (intro set_list_update_all) (simp_all add: store_ok_def)
  moreover have "event_ok (set_inFlight s b r) = event_ok r" by (rule event_ok_cong) simp_all
  ultimately show ?thesis using assms by (simp add: store_ok_def set_inFlight_def)
qed

lemma store_ok_pool:
  "store_ok r \<Longrightarrow> p < length (rt_pools r) \<Longrightarrow> s \<in> set (pl_queue (rt_pools r ! p)) \<Longrightarrow> s < length (rt_subs r)"
  unfolding store_ok_def by (meson nth_mem)

lemma store_ok_event:
  assumes "store_ok r" and "event_ok r v"
  shows "store_ok (set_event e v r)"
proof -
  have "\<forall>x \<in> set ((rt_events r)[e := v]). event_ok r x"
    using assms by (intro set_list_update_all) (simp_all add: store_ok_def)
  moreover have "event_ok (set_event e v r) = event_ok r" by (rule event_ok_cong) simp_all
  ultimately show ?thesis using assms by (simp add: store_ok_def)
qed

lemma store_ok_queue:
  assumes "store_ok r" and "\<forall>s \<in> set (pl_queue pl). s < length (rt_subs r)"
  shows "store_ok (r\<lparr>rt_pools := (rt_pools r)[p := pl]\<rparr>)"
proof -
  have "\<forall>pl' \<in> set ((rt_pools r)[p := pl]). \<forall>s \<in> set (pl_queue pl'). s < length (rt_subs r)"
    using assms by (intro set_list_update_all) (simp_all add: store_ok_def)
  moreover have "event_ok (r\<lparr>rt_pools := (rt_pools r)[p := pl]\<rparr>) = event_ok r"
    by (rule event_ok_cong) simp_all
  ultimately show ?thesis using assms by (simp add: store_ok_def)
qed

lemma store_ok_push:
  assumes "store_ok r" and "s < length (rt_subs r)" and "p < length (rt_pools r)"
  shows "store_ok (pool_push p s r)"
  using assms unfolding pool_push_def by (intro store_ok_queue) (auto simp: store_ok_def)

lemma store_ok_cong:
  assumes "rt_events r' = rt_events r" "rt_subs r' = rt_subs r" "rt_pools r' = rt_pools r"
    "rt_executors r' = rt_executors r" "length (rt_deps r') = length (rt_deps r)"
  shows "store_ok r' = store_ok r"
proof -
  have "event_ok r' = event_ok r" by (rule event_ok_cong) (simp_all add: assms)
  then show ?thesis by (simp add: store_ok_def assms)
qed

lemma store_ok_micro:
  assumes "store_ok r" and "frame_ok r f"
  shows "store_ok (snd (micro f r))"
proof (cases f)
  case (Fr_transition e st)
  have "event_ok r (rt_events r ! e)" using assms Fr_transition by (simp add: store_ok_def)
  then have "event_ok r (snd (event_transition st (rt_events r ! e)))"
    by (simp add: event_transition_def event_ok_def)
  then show ?thesis using store_ok_event [OF assms(1)] Fr_transition by (simp add: split_beta)
next
  case (Fr_register e k)
  have "event_ok r (rt_events r ! e)" using assms Fr_register by (simp add: store_ok_def)
  then have "event_ok r (snd (event_on_complete k (rt_events r ! e)))"
    using assms(2) Fr_register by (simp add: event_on_complete_def event_ok_def)
  then show ?thesis using store_ok_event [OF assms(1)] Fr_register by (simp add: split_beta)
next
  case (Fr_dispatch s x)
  then show ?thesis using assms store_ok_subs [OF assms(1), of s] by simp
next
  case (Fr_enqueue s p)
  then show ?thesis using assms store_ok_push [OF assms(1), of s p]
    by (simp add: pool_enqueue_def Let_def)
next
  case (Fr_release s)
  then show ?thesis using assms store_ok_subs [OF assms(1), of s] by simp
next
  case (Fr_call k)
  then show ?thesis using assms store_ok_cong [of "snd (micro f r)" r]
    by (auto simp: call_callback_def split: callback.split)
qed (use assms store_ok_cong [of "snd (micro f r)" r] in \<open>simp_all add: split_beta\<close>)

lemma rt_ok_restack:
  assumes ok: "rt_ok r" and i: "i < length (rt_threads r)" and store: "store_ok r'" and g: "grows r r'"
    and th: "rt_threads r' = rt_threads r" and fs: "\<forall>f \<in> set fs. frame_ok r' f"
  shows "rt_ok (set_stack i fs r')"
proof -
  let ?t = "set_stack i fs r'"
  have all: "\<forall>t \<in> set (rt_threads r). thread_ok r' t"
    using ok thread_ok_grows [OF _ g] by (simp add: rt_ok_def)
  then have "thread_ok r' (rt_threads r ! i)" using i by simp
  then have "thread_ok r' ((rt_threads r ! i)\<lparr>th_stack := fs\<rparr>)" using fs by (simp add: thread_ok_def)
  then have "\<forall>t \<in> set (rt_threads ?t). thread_ok r' t"
    using set_list_update_all [OF all, of _ i] by (simp add: set_stack_def th)
  moreover have "thread_ok ?t = thread_ok r'"
  proof (rule ext)
    fix t
    have "grows r' ?t" "grows ?t r'" by (simp_all add: grows_def set_stack_def)
    then show "thread_ok ?t t = thread_ok r' t" using thread_ok_grows by blast
  qed
  moreover have "store_ok ?t" using store store_ok_cong [of ?t r'] by (simp add: set_stack_def)
  ultimately show ?thesis by (simp add: rt_ok_store)
qed

lemma rt_ok_top:
  assumes "rt_ok r" and "i < length (rt_threads r)" and "stack r i = f # fs"
  shows "frame_ok r f" and "\<forall>g \<in> set fs. frame_ok r g"
proof -
  have "thread_ok r (rt_threads r ! i)" using assms by (simp add: rt_ok_def)
  then show "frame_ok r f" and "\<forall>g \<in> set fs. frame_ok r g"
    using assms(3) by (auto simp: thread_ok_def stack_def)
qed

lemma rt_ok_step:
  assumes ok: "rt_ok r" and i: "i < length (rt_threads r)" and st: "stack r i = f # fs"
  shows "rt_ok (set_stack i (fst (micro f r) @ fs) (snd (micro f r)))"
proof -
  note f = rt_ok_top [OF ok i st]
  have g: "grows r (snd (micro f r))" by (simp add: grows_def)
  have "\<forall>g \<in> set (fst (micro f r) @ fs). frame_ok r g" using micro_frames_ok [OF ok f(1)] f(2) by auto
  then have "\<forall>g \<in> set (fst (micro f r) @ fs). frame_ok (snd (micro f r)) g"
    using frame_ok_grows [OF _ g] by blast
  then show ?thesis using store_ok_micro [of r f] ok f(1)
    by (intro rt_ok_restack [OF ok i _ g]) (simp_all add: rt_ok_store)
qed

section \<open>Every move keeps references in range\<close>

lemma store_ok_new_event: "store_ok r \<Longrightarrow> store_ok (r\<lparr>rt_events := rt_events r @ [new_event]\<rparr>)"
proof -
  let ?r = "r\<lparr>rt_events := rt_events r @ [new_event]\<rparr>"
  assume r: "store_ok r"
  have "grows r ?r" by (simp add: grows_def)
  then have "\<forall>e \<in> set (rt_events r). event_ok ?r e"
    using r event_ok_grows by (auto simp: store_ok_def)
  moreover have "event_ok ?r new_event" by (simp add: event_ok_def new_event_def)
  ultimately show ?thesis using r by (auto simp: store_ok_def)
qed

lemma submit_ok:
  assumes r: "store_ok r" and v: "sub_valid r b" and s: "submit b r = Some (gs, r')"
  shows "store_ok r' \<and> grows r r' \<and> rt_threads r' = rt_threads r \<and> (\<forall>f \<in> set gs. frame_ok r' f)"
proof -
  obtain x where x: "rt_executors r (sb_executor b) = Some x"
    using s by (auto simp: submit_def get_executor_def split: bind_splits)
  let ?r1 = "r\<lparr>rt_events := rt_events r @ [new_event]\<rparr>"
  let ?sub = "make_sub b (rt_nextId r + 1) (length (rt_events r))"
  let ?r2 = "r\<lparr>rt_nextId := rt_nextId r + 1, rt_events := rt_events r @ [new_event],
    rt_subs := rt_subs r @ [?sub]\<rparr>"
  have "grows ?r1 ?r2" by (simp add: grows_def)
  then have ev: "\<forall>e \<in> set (rt_events ?r1). event_ok ?r2 e"
    using store_ok_new_event [OF r] event_ok_grows by (fastforce simp: store_ok_def)
  have r2: "store_ok ?r2" using store_ok_new_event [OF r] ev
    by (auto simp: store_ok_def make_sub_def less_Suc_eq)
  have pool: "p < length (rt_pools r)" if "x = Ex_pool p" for p
    using r x that by (simp add: store_ok_def)
  show ?thesis
  proof (cases "sb_prerequisites b = []")
    case True
    then have "gs = [Fr_dispatch (length (rt_subs r)) x]" "r' = ?r2"
      using s x by (simp_all add: submit_def get_executor_def Let_def)
    then show ?thesis using r2 pool by (simp add: grows_def)
  next
    case False
    let ?d = "\<lparr>dp_remaining = of_nat (length (sb_prerequisites b)), dp_failed = False, dp_cancelled = False\<rparr>"
    let ?r3 = "?r2\<lparr>rt_deps := rt_deps r @ [?d]\<rparr>"
    have gs: "gs = map (\<lambda>p. Fr_register p (Cb_dep p (length (rt_deps r)) (length (rt_subs r)) x
        (sb_stopOnPrerequisiteFailure b))) (sb_prerequisites b)" and r': "r' = ?r3"
      using s x False by (simp_all add: submit_def get_executor_def Let_def)
    have "grows ?r2 ?r3" by (simp add: grows_def)
    then have "store_ok ?r3" using r2 event_ok_grows by (fastforce simp: store_ok_def)
    moreover have "\<forall>f \<in> set gs. frame_ok ?r3 f"
      using v pool by (auto simp: gs callback_ok_def sub_valid_def)
    ultimately show ?thesis by (simp add: r' grows_def)
  qed
qed

lemma api_call_ok:
  assumes r: "store_ok r" and a: "api_call a r = Some (gs, r')"
  shows "store_ok r' \<and> grows r r' \<and> rt_threads r' = rt_threads r \<and> (\<forall>f \<in> set gs. frame_ok r' f)"
proof (cases a)
  case Api_create
  then show ?thesis using a store_ok_new_event [OF r] by (auto simp: grows_def)
next
  case (Api_register name x)
  then have r': "r' = register_executor name x r" "gs = []" and x: "\<forall>p. x = Ex_pool p \<longrightarrow> p < length (rt_pools r)"
    using a by (auto split: executor.splits if_splits)
  have "event_ok r' = event_ok r" by (rule event_ok_cong) (simp_all add: r' register_executor_def)
  then show ?thesis using r x by (auto simp: r' grows_def store_ok_def register_executor_def)
next
  case (Api_submit b)
  then show ?thesis using a submit_ok [OF r, of b] by (simp split: if_splits)
next
  case (Api_request c b)
  then show ?thesis using a r store_ok_cong [of r' r] by (auto simp: grows_def)
next
  case (Api_shutdown p)
  let ?pl = "(rt_pools r ! p)\<lparr>pl_running := False, pl_stop := True\<rparr>"
  have p: "p < length (rt_pools r)" using a Api_shutdown by (simp split: if_splits)
  have "store_ok (r\<lparr>rt_pools := (rt_pools r)[p := ?pl]\<rparr>)"
    using store_ok_pool [OF r p] by (intro store_ok_queue [OF r]) simp
  then show ?thesis using a r p Api_shutdown by (auto simp: pool_shutdown_def grows_def split: if_splits)
qed (use a r in \<open>auto simp: grows_def callback_ok_def split: if_splits\<close>)

lemma rt_ok_do:
  assumes ok: "rt_ok r" and m: "rt_do r m = Some r'"
  shows "rt_ok r'"
proof (cases m)
  case (Step i)
  then show ?thesis using m rt_ok_step [OF ok, of i]
    by (auto simp: split_beta split: if_splits list.splits)
next
  case (Call i a)
  then obtain gs r2 where i: "i < length (rt_threads r)" and a: "api_call a r = Some (gs, r2)"
    and r': "r' = set_stack i gs r2"
    using m by (auto split: if_splits bind_splits)
  have "store_ok r" using ok by (simp add: rt_ok_store)
  from api_call_ok [OF this a] show ?thesis unfolding r' using rt_ok_restack [OF ok i] by blast
next
  case (Take i)
  then obtain p s ss where i: "i < length (rt_threads r)" and w: "th_role (rt_threads r ! i) = Worker p"
    and q: "pl_queue (rt_pools r ! p) = s # ss"
    and r': "r' = set_stack i [Fr_worker s]
      (r\<lparr>rt_pools := (rt_pools r)[p := (rt_pools r ! p)\<lparr>pl_queue := ss\<rparr>]\<rparr>)"
    using m by (auto split: if_splits role.splits list.splits)
  have "thread_ok r (rt_threads r ! i)" using ok i by (simp add: rt_ok_def)
  then have p: "p < length (rt_pools r)" using w by (simp add: thread_ok_def)
  then have "\<forall>s \<in> set (pl_queue (rt_pools r ! p)). s < length (rt_subs r)"
    using ok store_ok_pool by (auto simp: rt_ok_store)
  then have s: "s < length (rt_subs r)" "\<forall>s \<in> set ss. s < length (rt_subs r)" using q by simp_all
  show ?thesis unfolding r' using s ok store_ok_queue [of r "(rt_pools r ! p)\<lparr>pl_queue := ss\<rparr>" p]
    by (intro rt_ok_restack [OF ok i]) (simp_all add: grows_def rt_ok_store)
next
  case (Exit i)
  then obtain p where i: "i < length (rt_threads r)" and r': "r' = set_role i Exited r"
    using m by (auto split: if_splits role.splits)
  have all: "\<forall>t \<in> set (rt_threads r). thread_ok r t" using ok by (simp add: rt_ok_def)
  then have "thread_ok r (rt_threads r ! i)" using i by simp
  then have "thread_ok r ((rt_threads r ! i)\<lparr>th_role := Exited\<rparr>)" by (simp add: thread_ok_def)
  then have t: "\<forall>t \<in> set (rt_threads r'). thread_ok r t"
    using set_list_update_all [OF all, of _ i] by (simp add: r' set_role_def)
  have "grows r r'" by (simp add: grows_def r' set_role_def)
  moreover have "store_ok r'" using ok store_ok_cong [of r' r] by (simp add: rt_ok_store r' set_role_def)
  ultimately show ?thesis using t thread_ok_grows by (auto simp: rt_ok_store)
qed

lemma rt_ok_run: "rt_run r ms = Some r' \<Longrightarrow> rt_ok r \<Longrightarrow> rt_ok r'"
  by (induction ms arbitrary: r) (auto split: bind_splits dest: rt_ok_do)

lemma rt_ok_new: "rt_ok (new_runtime n k w)"
  by (auto simp: rt_ok_def new_runtime_def thread_ok_def new_pool_def)

end
