(* ===== verification/Async_Runtime_Own.thy ===== *)
theory Async_Runtime_Own
  imports Async_Runtime_Inv
begin

text \<open>
  The in-flight flag of a submission is a lock: whoever took it by the exchange in \<open>dispatch\<close> hands
  it from frame to queue to frame, and the one holder gives it back.
\<close>

section \<open>Holders of a submission\<close>

fun frame_owner :: "frame \<Rightarrow> nat option" where
  "frame_owner (Fr_exec s x) = Some s"
| "frame_owner (Fr_enqueue s p) = Some s"
| "frame_owner (Fr_worker s) = Some s"
| "frame_owner (Fr_run s) = Some s"
| "frame_owner (Fr_finalize s p) = Some s"
| "frame_owner (Fr_release s) = Some s"
| "frame_owner _ = None"

definition own :: "nat \<Rightarrow> frame list \<Rightarrow> nat" where
  "own s fs = length (filter (\<lambda>f. frame_owner f = Some s) fs)"

definition stack_own :: "'w runtime \<Rightarrow> nat \<Rightarrow> nat" where
  "stack_own r s = sum_list (map (\<lambda>t. own s (th_stack t)) (rt_threads r))"

definition queue_own :: "'w runtime \<Rightarrow> nat \<Rightarrow> nat" where
  "queue_own r s = sum_list (map (\<lambda>p. count_list (pl_queue p) s) (rt_pools r))"

definition flagged :: "'w runtime \<Rightarrow> nat \<Rightarrow> nat" where
  "flagged r s = (if s < length (rt_subs r) \<and> ss_inFlight (rt_subs r ! s) then 1 else 0)"

definition own_inv :: "'w runtime \<Rightarrow> bool" where
  "own_inv r \<longleftrightarrow> (\<forall>s. stack_own r s + queue_own r s = flagged r s)"

lemma own_simps [simp]:
  "own s [] = 0" "own s (f # fs) = (if frame_owner f = Some s then 1 else 0) + own s fs"
  "own s (fs @ gs) = own s fs + own s gs"
  by (simp_all add: own_def)

lemma own_calls [simp]: "own s (map Fr_call ks) = 0" "own s (map (\<lambda>p. Fr_register p (h p)) ps) = 0"
  by (induction ks; simp) (induction ps; simp)

lemma flagged_cong: "rt_subs r' = rt_subs r \<Longrightarrow> flagged r' s = flagged r s"
  by (simp add: flagged_def)

lemma flagged_push [simp]: "flagged (pool_push p s r) u = flagged r u"
  by (rule flagged_cong) simp

lemma flagged_set:
  "s < length (rt_subs r) \<Longrightarrow> flagged (set_inFlight s b r) u = (if u = s then (if b then 1 else 0) else flagged r u)"
  by (auto simp: flagged_def set_inFlight_def)

lemma queue_own_cong: "rt_pools r' = rt_pools r \<Longrightarrow> queue_own r' s = queue_own r s"
  by (simp add: queue_own_def)

lemma queue_own_push:
  "p < length (rt_pools r) \<Longrightarrow> queue_own (pool_push p s r) u = queue_own r u + (if u = s then 1 else 0)"
  using sum_list_update_nat [of p "rt_pools r" "\<lambda>p. count_list (pl_queue p) u"
      "(rt_pools r ! p)\<lparr>pl_queue := pl_queue (rt_pools r ! p) @ [s]\<rparr>"]
  by (auto simp: queue_own_def pool_push_def)

lemma stack_own_set:
  "i < length (rt_threads r) \<Longrightarrow> stack_own (set_stack i fs r) s + own s (stack r i) = stack_own r s + own s fs"
  using sum_list_update_nat [of i "rt_threads r" "\<lambda>t. own s (th_stack t)" "(rt_threads r ! i)\<lparr>th_stack := fs\<rparr>"]
  by (simp add: stack_own_def set_stack_def stack_def)

lemma set_stack_frame [frame_simps, simp]:
  "rt_subs (set_stack i fs r) = rt_subs r" "rt_pools (set_stack i fs r) = rt_pools r"
  "rt_events (set_stack i fs r) = rt_events r" "rt_deps (set_stack i fs r) = rt_deps r"
  "rt_called (set_stack i fs r) = rt_called r" "rt_ran (set_stack i fs r) = rt_ran r"
  by (simp_all add: set_stack_def)

lemma own_finish [simp]: "own u (finish_frames r s st) = (if u = s then 1 else 0)"
  by (simp add: finish_frames_def)

lemma own_start [simp]: "own u (start_frames r s) = (if u = s then 1 else 0)"
  by (simp add: start_frames_def)

text \<open>A frame's move passes what the frame holds on to the frames it pushes or to a queue.\<close>

lemma micro_own:
  assumes "frame_ok r f" and "\<And>s. f = Fr_release s \<Longrightarrow> ss_inFlight (rt_subs r ! s)"
  shows "own u (fst (micro f r)) + queue_own (snd (micro f r)) u + flagged r u
    = own u [f] + queue_own r u + flagged (snd (micro f r)) u"
proof (cases f)
  case (Fr_dispatch s x)
  have "flagged r s = (if ss_inFlight (rt_subs r ! s) then 1 else 0)"
    using assms(1) Fr_dispatch by (simp add: flagged_def)
  then show ?thesis using assms(1) Fr_dispatch
    by (simp add: flagged_set queue_own_cong [of "set_inFlight s True r" r])
next
  case (Fr_release s)
  have "flagged r s = 1" using assms Fr_release by (simp add: flagged_def)
  then show ?thesis using assms Fr_release
    by (simp add: flagged_set queue_own_cong [of "set_inFlight s False r" r])
next
  case (Fr_enqueue s p)
  then show ?thesis using assms(1)
    by (simp add: pool_enqueue_def Let_def queue_own_push)
next
  case (Fr_transition e st)
  then show ?thesis
    using queue_own_cong [of "snd (micro f r)" r u] flagged_cong [of "snd (micro f r)" r u]
    by (simp add: split_beta)
next
  case (Fr_call k)
  then show ?thesis
    using queue_own_cong [of "snd (micro f r)" r u] flagged_cong [of "snd (micro f r)" r u]
    by (simp add: call_callback_def split: callback.split)
next
  case (Fr_countdown d s x)
  then show ?thesis
    using queue_own_cong [of "snd (micro f r)" r u] flagged_cong [of "snd (micro f r)" r u]
    by (simp add: dep_countdown_def Let_def)
next
  case (Fr_register e k)
  then show ?thesis
    using queue_own_cong [of "snd (micro f r)" r u] flagged_cong [of "snd (micro f r)" r u]
    by (simp add: split_beta)
next
  case (Fr_exec s x)
  then show ?thesis by (simp add: executor_submit_def split: executor.split)
next
  case (Fr_run s)
  then show ?thesis
    using queue_own_cong [of "snd (micro f r)" r u] flagged_cong [of "snd (micro f r)" r u]
    by (simp add: split_beta)
next
  case (Fr_resume s)
  then show ?thesis
    using queue_own_cong [of "snd (micro f r)" r u] flagged_cong [of "snd (micro f r)" r u]
    by (simp add: resume_call_def Let_def split: option.split)
qed simp_all

lemma own_inv_step:
  assumes inv: "own_inv r" and ok: "rt_ok r" and i: "i < length (rt_threads r)" and st: "stack r i = f # fs"
  shows "own_inv (set_stack i (fst (micro f r) @ fs) (snd (micro f r)))"
proof -
  let ?r = "snd (micro f r)" and ?gs = "fst (micro f r)"
  have hold: "stack_own r s + queue_own r s = flagged r s" for s using inv by (simp add: own_inv_def)
  have stk: "own s (stack r i) \<le> stack_own r s" for s
    using elem_le_sum_list [of i "map (\<lambda>t. own s (th_stack t)) (rt_threads r)"] i
    by (simp add: stack_own_def stack_def)
  have "ss_inFlight (rt_subs r ! s)" if "f = Fr_release s" for s
    using hold [of s] stk [of s] st that by (auto simp: flagged_def split: if_splits)
  note m = micro_own [OF rt_ok_top(1) [OF ok i st] this]
  show ?thesis unfolding own_inv_def
  proof
    fix s
    have th: "stack_own ?r s = stack_own r s" "stack ?r i = stack r i"
      by (simp_all add: stack_own_def stack_def)
    have "stack_own (set_stack i (?gs @ fs) ?r) s + own s (f # fs) = stack_own r s + own s (?gs @ fs)"
      using stack_own_set [of i ?r "?gs @ fs" s] i th st by simp
    moreover have "queue_own (set_stack i (?gs @ fs) ?r) s = queue_own ?r s"
      "flagged (set_stack i (?gs @ fs) ?r) s = flagged ?r s"
      by (rule queue_own_cong flagged_cong, simp)+
    ultimately show "stack_own (set_stack i (?gs @ fs) ?r) s + queue_own (set_stack i (?gs @ fs) ?r) s
        = flagged (set_stack i (?gs @ fs) ?r) s"
      using m [of s] hold [of s] by simp
  qed
qed

lemma own_inv_restack:
  assumes "own_inv r" and i: "i < length (rt_threads r)" and "stack r i = []"
    and th: "rt_threads r' = rt_threads r"
    and m: "\<And>s. own s fs + queue_own r' s + flagged r s = queue_own r s + flagged r' s"
  shows "own_inv (set_stack i fs r')"
  unfolding own_inv_def
proof
  fix s
  have "stack_own r' s = stack_own r s" "stack r' i = []"
    using th assms(3) by (simp_all add: stack_own_def stack_def)
  then have "stack_own (set_stack i fs r') s = stack_own r s + own s fs"
    using stack_own_set [of i r' fs s] i th by simp
  moreover have "queue_own (set_stack i fs r') s = queue_own r' s"
    "flagged (set_stack i fs r') s = flagged r' s"
    by (rule queue_own_cong flagged_cong, simp)+
  moreover have "stack_own r s + queue_own r s = flagged r s" using assms(1) by (simp add: own_inv_def)
  ultimately show "stack_own (set_stack i fs r') s + queue_own (set_stack i fs r') s
      = flagged (set_stack i fs r') s" using m [of s] by simp
qed

lemma queue_own_update:
  "p < length (rt_pools r) \<Longrightarrow> queue_own (r\<lparr>rt_pools := (rt_pools r)[p := pl]\<rparr>) s
    + count_list (pl_queue (rt_pools r ! p)) s = queue_own r s + count_list (pl_queue pl) s"
  using sum_list_update_nat [of p "rt_pools r" "\<lambda>p. count_list (pl_queue p) s" pl]
  by (simp add: queue_own_def)

lemma api_own:
  assumes "api_call a r = Some (gs, r')"
  shows "rt_threads r' = rt_threads r"
    and "own s gs + queue_own r' s + flagged r s = queue_own r s + flagged r' s"
proof -
  show "rt_threads r' = rt_threads r" using assms
    by (cases a) (auto simp: register_executor_def submit_def pool_shutdown_def Let_def
      split: if_splits executor.splits bind_splits)
  show "own s gs + queue_own r' s + flagged r s = queue_own r s + flagged r' s"
  proof (cases a)
    case (Api_submit b)
    then show ?thesis using assms
      by (auto simp: submit_def Let_def queue_own_def flagged_def nth_append make_sub_def
          split: if_splits bind_splits)
  next
    case (Api_shutdown p)
    then show ?thesis using assms flagged_cong [of r' r s]
      queue_own_update [of p r "(rt_pools r ! p)\<lparr>pl_running := False, pl_stop := True\<rparr>" s]
      by (auto simp: pool_shutdown_def split: if_splits)
  next
    case (Api_register name x)
    then show ?thesis using assms queue_own_cong [of r' r] flagged_cong [of r' r]
      by (auto simp: register_executor_def split: if_splits executor.splits)
  qed (use assms queue_own_cong [of r' r] flagged_cong [of r' r] in \<open>auto split: if_splits\<close>)
qed

lemma own_inv_do:
  assumes ok: "rt_ok r" and inv: "own_inv r" and m: "rt_do r m = Some r'"
  shows "own_inv r'"
proof (cases m)
  case (Step i)
  then show ?thesis using m own_inv_step [OF inv ok, of i]
    by (auto simp: split_beta split: if_splits list.splits)
next
  case (Call i a)
  then obtain gs r2 where i: "i < length (rt_threads r)" "stack r i = []"
    and a: "api_call a r = Some (gs, r2)" and r': "r' = set_stack i gs r2"
    using m by (auto split: if_splits bind_splits)
  show ?thesis unfolding r' by (rule own_inv_restack [OF inv i api_own [OF a]])
next
  case (Take i)
  then obtain p s ss where i: "i < length (rt_threads r)" "stack r i = []"
    and w: "th_role (rt_threads r ! i) = Worker p" and q: "pl_queue (rt_pools r ! p) = s # ss"
    and r': "r' = set_stack i [Fr_worker s]
      (r\<lparr>rt_pools := (rt_pools r)[p := (rt_pools r ! p)\<lparr>pl_queue := ss\<rparr>]\<rparr>)"
    using m by (auto split: if_splits role.splits list.splits)
  let ?r2 = "r\<lparr>rt_pools := (rt_pools r)[p := (rt_pools r ! p)\<lparr>pl_queue := ss\<rparr>]\<rparr>"
  have "\<forall>t \<in> set (rt_threads r). thread_ok r t" using ok by (simp add: rt_ok_def)
  then have p: "p < length (rt_pools r)" using i(1) w by (auto simp: thread_ok_def)
  have "own u [Fr_worker s] + queue_own ?r2 u + flagged r u = queue_own r u + flagged ?r2 u" for u
    using queue_own_update [OF p, of "(rt_pools r ! p)\<lparr>pl_queue := ss\<rparr>" u] q flagged_cong [of ?r2 r u]
    by (cases "s = u") simp_all
  then show ?thesis unfolding r' by (intro own_inv_restack [OF inv i]) simp_all
next
  case (Exit i)
  then obtain p where i: "i < length (rt_threads r)" and r': "r' = set_role i Exited r"
    using m by (auto split: if_splits role.splits)
  have "stack_own r' s = stack_own r s" for s
    using sum_list_update_nat [of i "rt_threads r" "\<lambda>t. own s (th_stack t)"
        "(rt_threads r ! i)\<lparr>th_role := Exited\<rparr>"] i
    by (simp add: stack_own_def r' set_role_def)
  moreover have "queue_own r' s = queue_own r s" "flagged r' s = flagged r s" for s
    by (rule queue_own_cong flagged_cong, simp add: r' set_role_def)+
  ultimately show ?thesis using inv by (simp add: own_inv_def)
qed

lemma own_inv_run:
  "rt_run r ms = Some r' \<Longrightarrow> rt_ok r \<Longrightarrow> own_inv r \<Longrightarrow> own_inv r'"
proof (induction ms arbitrary: r)
  case (Cons m ms)
  then obtain r1 where "rt_do r m = Some r1" "rt_run r1 ms = Some r'" by (auto split: bind_splits)
  then show ?case using Cons rt_ok_do own_inv_do by blast
qed simp

lemma own_inv_new: "own_inv (new_runtime n k w)"
  by (simp add: own_inv_def stack_own_def queue_own_def flagged_def new_runtime_def new_pool_def)


text \<open>Submissions for examples: a step that always polls the same and counts its runs.\<close>

definition poll_step :: "poll_status \<Rightarrow> nat astep" where
  "poll_step p = (\<lambda>ctx flags n. (Some p, n + 1))"

definition sub_to :: "string \<Rightarrow> poll_status \<Rightarrow> nat list \<Rightarrow> nat submission" where
  "sub_to name p pres = \<lparr>sb_executor = name, sb_desc = default_task_desc,
     sb_endpoint = make_host_endpoint Be_inline_host Qc_control [], sb_step = Some (poll_step p),
     sb_prerequisites = pres, sb_cancellation = None, sb_stopOnPrerequisiteFailure = True\<rparr>"


end
