(* ===== verification/Async_Runtime_Calls.thy ===== *)
theory Async_Runtime_Calls
  imports Async_Runtime_Own
begin

text \<open>
  Events under every interleaving: a terminal status is final, and each callback runs exactly once,
  after its event became terminal.
\<close>

section \<open>A terminal status is final\<close>

definition status_kept :: "'w runtime \<Rightarrow> 'w runtime \<Rightarrow> bool" where
  "status_kept r r' \<longleftrightarrow> length (rt_events r) \<le> length (rt_events r') \<and>
     (\<forall>e < length (rt_events r). is_terminal (ev_status (rt_events r ! e)) \<longrightarrow>
        ev_status (rt_events r' ! e) = ev_status (rt_events r ! e))"

lemma status_kept_trans: "status_kept r s \<Longrightarrow> status_kept s t \<Longrightarrow> status_kept r t"
  unfolding status_kept_def by (metis le_trans less_le_trans)

lemma status_kept_same: "rt_events r' = rt_events r \<Longrightarrow> status_kept r r'"
  by (simp add: status_kept_def)

lemma status_kept_event:
  "is_terminal (ev_status (rt_events r ! e)) \<longrightarrow> ev_status v = ev_status (rt_events r ! e)
    \<Longrightarrow> status_kept r (set_event e v r)"
  by (auto simp: status_kept_def) (metis nth_list_update_eq nth_list_update_neq)+

lemma status_kept_micro: "status_kept r (snd (micro f r))"
proof (cases f)
  case (Fr_transition e st)
  then show ?thesis by (auto simp: split_beta event_transition_def intro!: status_kept_event)
next
  case (Fr_register e k)
  then show ?thesis by (auto simp: split_beta event_on_complete_def intro!: status_kept_event)
qed (auto simp: split_beta intro!: status_kept_same)

lemma status_kept_api: "api_call a r = Some (gs, r') \<Longrightarrow> status_kept r r'"
  by (cases a) (auto simp: status_kept_def nth_append register_executor_def submit_def pool_shutdown_def
    Let_def split: if_splits executor.splits bind_splits)

lemma status_kept_do: "rt_do r m = Some r' \<Longrightarrow> status_kept r r'"
proof (cases m)
  case (Step i)
  assume "rt_do r m = Some r'"
  then obtain f fs where "r' = set_stack i (fst (micro f r) @ fs) (snd (micro f r))"
    using Step by (auto simp: split_beta split: if_splits list.splits)
  then show ?thesis
    using status_kept_trans [OF status_kept_micro status_kept_same, of r' f r] by simp
next
  case (Call i a)
  assume "rt_do r m = Some r'"
  then obtain gs r2 where "api_call a r = Some (gs, r2)" "r' = set_stack i gs r2"
    using Call by (auto split: if_splits bind_splits)
  then show ?thesis using status_kept_trans [OF status_kept_api status_kept_same, of a r gs r2 r'] by simp
qed (auto simp: set_role_def intro!: status_kept_same split: if_splits role.splits list.splits)

lemma status_kept_run: "rt_run r ms = Some r' \<Longrightarrow> status_kept r r'"
proof (induction ms arbitrary: r)
  case (Cons m ms)
  then obtain r1 where "rt_do r m = Some r1" "rt_run r1 ms = Some r'" by (auto split: bind_splits)
  then show ?case using Cons status_kept_do status_kept_trans by blast
qed (simp add: status_kept_same)

section \<open>Callbacks still to run\<close>

fun frame_call :: "(callback \<Rightarrow> bool) \<Rightarrow> frame \<Rightarrow> bool" where
  "frame_call P (Fr_call k) = P k"
| "frame_call P (Fr_register e k) = P k"
| "frame_call P _ = False"

definition calls :: "(callback \<Rightarrow> bool) \<Rightarrow> frame list \<Rightarrow> nat" where
  "calls P fs = length (filter (frame_call P) fs)"

definition event_calls :: "(callback \<Rightarrow> bool) \<Rightarrow> 'w runtime \<Rightarrow> nat" where
  "event_calls P r = sum_list (map (\<lambda>e. length (filter P (ev_callbacks e))) (rt_events r))"

definition stack_calls :: "(callback \<Rightarrow> bool) \<Rightarrow> 'w runtime \<Rightarrow> nat" where
  "stack_calls P r = sum_list (map (\<lambda>t. calls P (th_stack t)) (rt_threads r))"

definition outstanding :: "(callback \<Rightarrow> bool) \<Rightarrow> 'w runtime \<Rightarrow> nat" where
  "outstanding P r = stack_calls P r + event_calls P r"

lemma calls_simps [simp]:
  "calls P [] = 0" "calls P (f # fs) = (if frame_call P f then 1 else 0) + calls P fs"
  "calls P (fs @ gs) = calls P fs + calls P gs"
  by (simp_all add: calls_def)

lemma calls_map [simp]:
  "calls P (map Fr_call ks) = length (filter P ks)"
  "calls P (map (\<lambda>p. Fr_register p (h p)) ps) = length (filter (\<lambda>p. P (h p)) ps)"
  by (induction ks; simp) (induction ps; simp)

lemma calls_finish [simp]: "calls P (finish_frames r s st) = 0" "calls P (start_frames r s) = 0"
  by (simp_all add: finish_frames_def start_frames_def)

lemma event_calls_cong: "rt_events r' = rt_events r \<Longrightarrow> event_calls P r' = event_calls P r"
  by (simp add: event_calls_def)

lemma event_calls_set:
  "e < length (rt_events r) \<Longrightarrow> event_calls P (set_event e v r) + length (filter P (ev_callbacks (rt_events r ! e)))
    = event_calls P r + length (filter P (ev_callbacks v))"
  using sum_list_update_nat [of e "rt_events r" "\<lambda>e. length (filter P (ev_callbacks e))" v]
  by (simp add: event_calls_def)

text \<open>A frame's move drops one callback exactly when it calls it.\<close>

lemma micro_calls:
  assumes "frame_ok r f"
  shows "calls P (fst (micro f r)) + event_calls P (snd (micro f r))
      + (case f of Fr_call k \<Rightarrow> if P k then 1 else 0 | _ \<Rightarrow> 0) = calls P [f] + event_calls P r"
proof (cases f)
  case (Fr_transition e st)
  let ?v = "snd (event_transition st (rt_events r ! e))"
  show ?thesis using assms Fr_transition event_calls_set [of e r P ?v]
    by (auto simp: split_beta event_transition_def split: if_splits)
next
  case (Fr_register e k)
  let ?v = "snd (event_on_complete k (rt_events r ! e))"
  show ?thesis using assms Fr_register event_calls_set [of e r P ?v]
    by (auto simp: split_beta event_on_complete_def split: if_splits)
next
  case (Fr_call k)
  then show ?thesis using event_calls_cong [of "snd (micro f r)" r P]
    by (simp add: call_callback_def split: callback.split)
next
  case (Fr_countdown d s x)
  then show ?thesis using event_calls_cong [of "snd (micro f r)" r P]
    by (simp add: dep_countdown_def Let_def)
next
  case (Fr_exec s x)
  then show ?thesis by (simp add: executor_submit_def split: executor.split)
next
  case (Fr_enqueue s p)
  then show ?thesis using event_calls_cong [of "snd (micro f r)" r P]
    by (simp add: pool_enqueue_def Let_def)
next
  case (Fr_resume s)
  then show ?thesis using event_calls_cong [of "snd (micro f r)" r P]
    by (simp add: resume_call_def Let_def split: option.split)
qed (use event_calls_cong [of "snd (micro f r)" r P] in \<open>simp_all add: split_beta\<close>)

lemma stack_calls_set:
  "i < length (rt_threads r) \<Longrightarrow> stack_calls P (set_stack i fs r) + calls P (stack r i) = stack_calls P r + calls P fs"
  using sum_list_update_nat [of i "rt_threads r" "\<lambda>t. calls P (th_stack t)" "(rt_threads r ! i)\<lparr>th_stack := fs\<rparr>"]
  by (simp add: stack_calls_def set_stack_def stack_def)

lemma outstanding_restack:
  assumes "i < length (rt_threads r)" and "rt_threads r' = rt_threads r"
  shows "outstanding P (set_stack i fs r') + calls P (stack r i) = stack_calls P r + calls P fs + event_calls P r'"
proof -
  have "stack_calls P r' = stack_calls P r" "stack r' i = stack r i"
    using assms(2) by (simp_all add: stack_calls_def stack_def)
  moreover have "event_calls P (set_stack i fs r') = event_calls P r'" by (rule event_calls_cong) simp
  ultimately show ?thesis using stack_calls_set [of i r' P fs] assms by (simp add: outstanding_def)
qed

text \<open>Only these calls of the interface register callbacks.\<close>

definition api_registers :: "(callback \<Rightarrow> bool) \<Rightarrow> 'w api \<Rightarrow> 'w runtime \<Rightarrow> nat" where
  "api_registers P a r = (case api_call a r of Some (gs, r') \<Rightarrow> calls P gs | None \<Rightarrow> 0)"

lemma event_calls_api: "api_call a r = Some (gs, r') \<Longrightarrow> event_calls P r' = event_calls P r"
  by (cases a) (auto simp: event_calls_def new_event_def register_executor_def submit_def pool_shutdown_def
    Let_def split: if_splits executor.splits bind_splits)

lemma outstanding_do:
  assumes ok: "rt_ok r" and m: "rt_do r m = Some r'"
  shows "outstanding P r' + (case m of Step i \<Rightarrow> (case stack r i of Fr_call k # _ \<Rightarrow> if P k then 1 else 0 | _ \<Rightarrow> 0) | _ \<Rightarrow> 0)
    = outstanding P r + (case m of Call i a \<Rightarrow> api_registers P a r | _ \<Rightarrow> 0)"
proof (cases m)
  case (Step i)
  then obtain f fs where i: "i < length (rt_threads r)" and st: "stack r i = f # fs"
    and r': "r' = set_stack i (fst (micro f r) @ fs) (snd (micro f r))"
    using m by (auto simp: split_beta split: if_splits list.splits)
  have "(case f # fs of Fr_call k # _ \<Rightarrow> if P k then 1 else 0 | _ \<Rightarrow> 0)
      = (case f of Fr_call k \<Rightarrow> if P k then 1 else 0 | _ \<Rightarrow> (0 :: nat))" by (cases f) simp_all
  then show ?thesis
    using outstanding_restack [OF i, of "snd (micro f r)" P "fst (micro f r) @ fs"]
      micro_calls [OF rt_ok_top(1) [OF ok i st], of P]
    by (simp add: Step st r' outstanding_def)
next
  case (Call i a)
  then obtain gs r2 where i: "i < length (rt_threads r)" "stack r i = []"
    and a: "api_call a r = Some (gs, r2)" and r': "r' = set_stack i gs r2"
    using m by (auto split: if_splits bind_splits)
  show ?thesis
    using outstanding_restack [OF i(1) api_own(1) [OF a], of P gs] event_calls_api [OF a, of P] i(2)
    by (simp add: Call r' outstanding_def api_registers_def a)
next
  case (Take i)
  then obtain p s ss where i: "i < length (rt_threads r)" "stack r i = []"
    and r': "r' = set_stack i [Fr_worker s]
      (r\<lparr>rt_pools := (rt_pools r)[p := (rt_pools r ! p)\<lparr>pl_queue := ss\<rparr>]\<rparr>)" (is "_ = set_stack _ _ ?r2")
    using m by (auto split: if_splits role.splits list.splits)
  have "event_calls P ?r2 = event_calls P r" by (rule event_calls_cong) simp
  then show ?thesis using outstanding_restack [OF i(1), of ?r2 P "[Fr_worker s]"] i(2)
    by (simp add: Take r' outstanding_def)
next
  case (Exit i)
  then obtain p where i: "i < length (rt_threads r)" and r': "r' = set_role i Exited r"
    using m by (auto split: if_splits role.splits)
  have "stack_calls P r' = stack_calls P r"
    using sum_list_update_nat [of i "rt_threads r" "\<lambda>t. calls P (th_stack t)"
        "(rt_threads r ! i)\<lparr>th_role := Exited\<rparr>"] i
    by (simp add: stack_calls_def r' set_role_def)
  moreover have "event_calls P r' = event_calls P r" by (rule event_calls_cong) (simp add: r' set_role_def)
  ultimately show ?thesis by (simp add: Exit outstanding_def)
qed

section \<open>What events guarantee\<close>

text \<open>
  C25: once an event is completed, cancelled or failed, nothing any thread does, completing it again
  included, changes its status.
\<close>
theorem terminal_status_final:
  assumes "rt_run r ms = Some r'" and "e < length (rt_events r)"
    and "is_terminal (ev_status (rt_events r ! e))"
  shows "e < length (rt_events r') \<and> ev_status (rt_events r' ! e) = ev_status (rt_events r ! e)"
  using status_kept_run [OF assms(1)] assms(2,3) by (auto simp: status_kept_def)

lemma cancelled_event_run:
  "\<exists>r. rt_run (new_runtime 2 1 (0::nat)) [Call 0 Api_create, Call 0 (Api_complete 0 St_cancelled), Step 0]
      = Some r \<and> length (rt_events r) = 1 \<and> ev_status (rt_events r ! 0) = St_cancelled
    \<and> rt_run r [Call 1 (Api_complete 0 St_completed), Step 1] \<noteq> None"
proof -
  have "map_option (\<lambda>r. (length (rt_events r), ev_status (rt_events r ! 0),
        rt_run r [Call 1 (Api_complete 0 St_completed), Step 1] = None))
      (rt_run (new_runtime 2 1 (0::nat)) [Call 0 Api_create, Call 0 (Api_complete 0 St_cancelled), Step 0])
    = Some (1, St_cancelled, False)" by code_simp
  then obtain r where r: "rt_run (new_runtime 2 1 (0::nat)) [Call 0 Api_create,
      Call 0 (Api_complete 0 St_cancelled), Step 0] = Some r"
    and "(length (rt_events r), ev_status (rt_events r ! 0),
        rt_run r [Call 1 (Api_complete 0 St_completed), Step 1] = None) = (1, St_cancelled, False)"
    by (rule map_option_SomeE)
  then have "length (rt_events r) = 1" "ev_status (rt_events r ! 0) = St_cancelled"
    "rt_run r [Call 1 (Api_complete 0 St_completed), Step 1] \<noteq> None"
    unfolding prod.inject by blast+
  then show ?thesis using r by blast
qed

theorem terminal_status_final_witness:
  "\<exists>r r'. rt_run (new_runtime 2 1 (0::nat)) [Call 0 Api_create, Call 0 (Api_complete 0 St_cancelled), Step 0]
      = Some r \<and> rt_run r [Call 1 (Api_complete 0 St_completed), Step 1] = Some r'
    \<and> ev_status (rt_events r' ! 0) = St_cancelled"
proof -
  obtain r r' where r: "rt_run (new_runtime 2 1 (0::nat)) [Call 0 Api_create,
        Call 0 (Api_complete 0 St_cancelled), Step 0] = Some r"
      "length (rt_events r) = 1" "ev_status (rt_events r ! 0) = St_cancelled"
    and r': "rt_run r [Call 1 (Api_complete 0 St_completed), Step 1] = Some r'"
    using cancelled_event_run by blast
  show ?thesis using terminal_status_final [OF r', of 0] r r' by auto
qed

fun registers :: "nat \<Rightarrow> 'w move \<Rightarrow> bool" where
  "registers n (Call i (Api_on_complete e k)) = (k = n)"
| "registers n _ = False"

lemma api_registers_user:
  assumes "api_call a r = Some (gs, r')"
  shows "api_registers ((=) (Cb_user n)) a r = (if registers n (Call i a) then 1 else 0)"
  using assms by (cases a) (auto simp: api_registers_def submit_def Let_def pool_shutdown_def
    filter_empty_conv split: if_splits bind_splits executor.splits)

lemma rt_called_micro:
  "rt_called (snd (micro f r)) = rt_called r @ (case f of Fr_call (Cb_user n) \<Rightarrow> [n] | _ \<Rightarrow> [])"
  by (cases f) (simp_all add: split_beta call_callback_def split: callback.split)

lemma called_do:
  assumes ok: "rt_ok r" and m: "rt_do r m = Some r'"
  shows "count_list (rt_called r') n + outstanding ((=) (Cb_user n)) r'
    = count_list (rt_called r) n + outstanding ((=) (Cb_user n)) r + (if registers n m then 1 else 0)"
proof (cases m)
  case (Step i)
  then obtain f fs where st: "stack r i = f # fs"
    and r': "r' = set_stack i (fst (micro f r) @ fs) (snd (micro f r))"
    using m by (auto simp: split_beta split: if_splits list.splits)
  show ?thesis using outstanding_do [OF ok m, of "(=) (Cb_user n)"] st
    by (cases f) (auto simp: Step r' rt_called_micro simp del: micro.simps split: callback.splits)
next
  case (Call i a)
  then obtain gs r2 where a: "api_call a r = Some (gs, r2)" and r': "r' = set_stack i gs r2"
    using m by (auto split: if_splits bind_splits)
  have "rt_called r2 = rt_called r" using a
    by (cases a) (auto simp: submit_def Let_def pool_shutdown_def register_executor_def
      split: if_splits bind_splits executor.splits)
  then show ?thesis
    using outstanding_do [OF ok m, of "(=) (Cb_user n)"] api_registers_user [OF a, of n i]
    by (simp add: Call r')
qed (use outstanding_do [OF ok m, of "(=) (Cb_user n)"] m in
  \<open>auto simp: set_role_def split: if_splits role.splits list.splits\<close>)

lemma called_run:
  "rt_run r ms = Some r' \<Longrightarrow> rt_ok r \<Longrightarrow> count_list (rt_called r') n + outstanding ((=) (Cb_user n)) r'
    = count_list (rt_called r) n + outstanding ((=) (Cb_user n)) r + length (filter (registers n) ms)"
proof (induction ms arbitrary: r)
  case (Cons m ms)
  then obtain r1 where r1: "rt_do r m = Some r1" "rt_run r1 ms = Some r'" by (auto split: bind_splits)
  then show ?case using Cons rt_ok_do [OF Cons.prems(2) r1(1)] called_do [OF Cons.prems(2) r1(1), of n]
    by auto
qed simp

text \<open>
  C26: under every interleaving, a user's callback never runs more often than it was registered, and
  when the threads have nothing left to do and every event is terminal it has run exactly once for
  each registration, whether that came before or after the event's completion.
\<close>
theorem callbacks_exactly_once:
  assumes "rt_run (new_runtime clients workers w) ms = Some r"
  shows "count_list (rt_called r) n \<le> length (filter (registers n) ms)
    \<and> ((\<forall>t \<in> set (rt_threads r). th_stack t = []) \<and> (\<forall>e \<in> set (rt_events r). is_terminal (ev_status e))
       \<longrightarrow> count_list (rt_called r) n = length (filter (registers n) ms))"
proof -
  have "outstanding P (new_runtime clients workers w) = 0" for P
    by (simp add: outstanding_def stack_calls_def event_calls_def new_runtime_def)
  then have eq: "count_list (rt_called r) n + outstanding ((=) (Cb_user n)) r = length (filter (registers n) ms)"
    using called_run [OF assms rt_ok_new, of n] by (simp add: new_runtime_def)
  have "rt_ok r" using rt_ok_run [OF assms rt_ok_new] .
  have "outstanding ((=) (Cb_user n)) r = 0"
    if "\<forall>t \<in> set (rt_threads r). th_stack t = []" "\<forall>e \<in> set (rt_events r). is_terminal (ev_status e)"
  proof -
    have "\<forall>e \<in> set (rt_events r). ev_callbacks e = []"
      using \<open>rt_ok r\<close> that(2) by (auto simp: rt_ok_def event_ok_def)
    then show ?thesis using that(1) by (simp add: outstanding_def stack_calls_def event_calls_def)
  qed
  then show ?thesis using eq by auto
qed

theorem callbacks_exactly_once_witness:
  "\<exists>r. rt_run (new_runtime 2 1 (0::nat)) [Call 0 Api_create, Call 0 (Api_on_complete 0 7),
      Call 1 (Api_complete 0 St_completed), Step 1, Step 0, Step 0, Call 1 (Api_on_complete 0 7), Step 1, Step 1]
      = Some r \<and> count_list (rt_called r) 7 = 2"
proof -
  let ?ms = "[Call 0 Api_create, Call 0 (Api_on_complete 0 7), Call 1 (Api_complete 0 St_completed),
    Step 1, Step 0, Step 0, Call 1 (Api_on_complete 0 7), Step 1, Step 1] :: nat move list"
  have "map_option (\<lambda>r. ((\<forall>t \<in> set (rt_threads r). th_stack t = []),
        (\<forall>e \<in> set (rt_events r). is_terminal (ev_status e))))
      (rt_run (new_runtime 2 1 (0::nat)) ?ms) = Some (True, True)" by code_simp
  then obtain r where r: "rt_run (new_runtime 2 1 (0::nat)) ?ms = Some r"
    and "((\<forall>t \<in> set (rt_threads r). th_stack t = []),
        (\<forall>e \<in> set (rt_events r). is_terminal (ev_status e))) = (True, True)" by (rule map_option_SomeE)
  then have "count_list (rt_called r) 7 = length (filter (registers 7) ?ms)"
    using callbacks_exactly_once [OF r, of 7] by simp
  then show ?thesis using r by auto
qed

end
