(* ===== verification/Async_Runtime_Deps.thy ===== *)
theory Async_Runtime_Deps
  imports Async_Runtime_Calls
begin

text \<open>
  Prerequisites: a submission that is not resumed runs only when all of them are terminal, and all
  completed if it asked to stop on failure. Resuming one that still waits for its prerequisites
  breaks this, and a resume that meets the submission in flight is lost.
\<close>

section \<open>The submission under study\<close>

text \<open>A submission, its dependency state, its prerequisites and whether a failed one stops it.\<close>

record dep_case =
  dc_sub :: nat
  dc_dep :: nat
  dc_pres :: "nat list"
  dc_stop :: bool

definition cb_mine :: "dep_case \<Rightarrow> callback \<Rightarrow> bool" where
  "cb_mine D k = (case k of Cb_user n \<Rightarrow> False | Cb_dep p d s x st \<Rightarrow> d = dc_dep D \<or> s = dc_sub D)"

text \<open>A callback of the case is one of its registrations, with prerequisite \<open>p\<close>.\<close>

definition cb_of :: "dep_case \<Rightarrow> nat \<Rightarrow> callback \<Rightarrow> bool" where
  "cb_of D p k = (case k of Cb_user n \<Rightarrow> False
     | Cb_dep q d s x st \<Rightarrow> q = p \<and> d = dc_dep D \<and> s = dc_sub D \<and> st = dc_stop D \<and> p \<in> set (dc_pres D))"

definition terminal_at :: "'w runtime \<Rightarrow> nat \<Rightarrow> bool" where
  "terminal_at r p \<longleftrightarrow> p < length (rt_events r) \<and> is_terminal (ev_status (rt_events r ! p))"

fun frame_clean :: "dep_case \<Rightarrow> 'w runtime \<Rightarrow> frame \<Rightarrow> bool" where
  "frame_clean D r (Fr_call k) = (cb_mine D k \<longrightarrow> (\<exists>p. cb_of D p k \<and> terminal_at r p))"
| "frame_clean D r (Fr_register e k) = (cb_mine D k \<longrightarrow> cb_of D e k)"
| "frame_clean D r (Fr_countdown d s x) = ((d = dc_dep D) = (s = dc_sub D))"
| "frame_clean D r (Fr_resume s) = (s \<noteq> dc_sub D)"
| "frame_clean D r _ = True"

definition all_frames :: "'w runtime \<Rightarrow> frame set" where
  "all_frames r = (\<Union>t \<in> set (rt_threads r). set (th_stack t))"

definition events_clean :: "dep_case \<Rightarrow> 'w runtime \<Rightarrow> bool" where
  "events_clean D r \<longleftrightarrow> (\<forall>e < length (rt_events r). \<forall>k \<in> set (ev_callbacks (rt_events r ! e)).
     cb_mine D k \<longrightarrow> cb_of D e k)"

definition clean :: "dep_case \<Rightarrow> 'w runtime \<Rightarrow> bool" where
  "clean D r \<longleftrightarrow> (\<forall>f \<in> all_frames r. frame_clean D r f) \<and> events_clean D r"

text \<open>A prerequisite whose callback has still to run, and one whose callback has run.\<close>

definition pre_open :: "dep_case \<Rightarrow> 'w runtime \<Rightarrow> nat \<Rightarrow> bool" where
  "pre_open D r p \<longleftrightarrow> (\<exists>k. cb_of D p k \<and> (Fr_register p k \<in> all_frames r \<or> Fr_call k \<in> all_frames r
     \<or> p < length (rt_events r) \<and> k \<in> set (ev_callbacks (rt_events r ! p))))"

definition pre_closed :: "dep_case \<Rightarrow> 'w runtime \<Rightarrow> nat \<Rightarrow> bool" where
  "pre_closed D r p \<longleftrightarrow> terminal_at r p \<and> (dc_stop D \<longrightarrow>
     (ev_status (rt_events r ! p) = St_failed \<longrightarrow> dp_failed (rt_deps r ! dc_dep D)) \<and>
     (ev_status (rt_events r ! p) = St_cancelled \<longrightarrow> dp_cancelled (rt_deps r ! dc_dep D)))"

definition is_countdown :: "nat \<Rightarrow> frame \<Rightarrow> bool" where
  "is_countdown d f = (case f of Fr_countdown e s x \<Rightarrow> e = d | _ \<Rightarrow> False)"

definition countdowns :: "nat \<Rightarrow> 'w runtime \<Rightarrow> nat" where
  "countdowns d r = sum_list (map (\<lambda>t. length (filter (is_countdown d) (th_stack t))) (rt_threads r))"

definition to_come :: "dep_case \<Rightarrow> 'w runtime \<Rightarrow> nat" where
  "to_come D r = outstanding (cb_mine D) r + countdowns (dc_dep D) r"

definition waiting :: "dep_case \<Rightarrow> 'w runtime \<Rightarrow> bool" where
  "waiting D r \<longleftrightarrow> (\<forall>x. Fr_dispatch (dc_sub D) x \<notin> all_frames r) \<and> flagged r (dc_sub D) = 0 \<and>
     dc_sub D \<notin> set (rt_ran r) \<and> to_come D r < 2 ^ 64 \<and>
     dp_remaining (rt_deps r ! dc_dep D) = of_nat (to_come D r) \<and>
     (\<forall>p \<in> set (dc_pres D). pre_open D r p \<or> pre_closed D r p)"

definition all_done :: "dep_case \<Rightarrow> 'w runtime \<Rightarrow> bool" where
  "all_done D r \<longleftrightarrow> (\<forall>p \<in> set (dc_pres D). terminal_at r p \<and>
     (dc_stop D \<longrightarrow> ev_status (rt_events r ! p) = St_completed))"

definition dep_inv :: "dep_case \<Rightarrow> 'w runtime \<Rightarrow> bool" where
  "dep_inv D r \<longleftrightarrow> dc_sub D < length (rt_subs r) \<and> dc_dep D < length (rt_deps r) \<and> clean D r \<and>
     (waiting D r \<or> all_done D r)"

section \<open>Stacks\<close>

lemma in_stack: "i < length (rt_threads r) \<Longrightarrow> f \<in> set (stack r i) \<Longrightarrow> f \<in> all_frames r"
  by (auto simp: all_frames_def stack_def intro!: bexI [OF _ nth_mem])

lemma all_frames_restack:
  assumes "i < length (rt_threads r)" and "rt_threads r' = rt_threads r" and "stack r i = ds @ fs"
  shows "all_frames (set_stack i (gs @ fs) r') \<subseteq> all_frames r \<union> set gs"
    and "all_frames r - set ds \<union> set gs \<subseteq> all_frames (set_stack i (gs @ fs) r')"
proof -
  let ?t = "(rt_threads r ! i)\<lparr>th_stack := gs @ fs\<rparr>"
  have ts: "rt_threads (set_stack i (gs @ fs) r') = (rt_threads r)[i := ?t]"
    using assms(2) by (simp add: set_stack_def)
  have "set fs \<subseteq> all_frames r" using in_stack [OF assms(1)] assms(3) by auto
  then show "all_frames (set_stack i (gs @ fs) r') \<subseteq> all_frames r \<union> set gs"
    unfolding all_frames_def ts using set_update_subset_insert [of "rt_threads r" i ?t] by fastforce
  have top: "set (gs @ fs) \<subseteq> all_frames (set_stack i (gs @ fs) r')"
    using set_update_memI [OF assms(1), of ?t] unfolding all_frames_def ts by fastforce
  have "g \<in> all_frames (set_stack i (gs @ fs) r')" if g: "g \<in> all_frames r" "g \<notin> set ds" for g
  proof -
    obtain t where "t \<in> set (rt_threads r)" "g \<in> set (th_stack t)"
      using g(1) by (auto simp: all_frames_def)
    then obtain j where j: "j < length (rt_threads r)" "g \<in> set (stack r j)"
      unfolding stack_def by (metis in_set_conv_nth)
    show ?thesis
    proof (cases "j = i")
      case True
      then show ?thesis using j g(2) assms(3) top by auto
    next
      case False
      then have "g \<in> set (stack (set_stack i (gs @ fs) r') j)"
        using j ts by (simp add: stack_def)
      then show ?thesis using j(1) by (intro in_stack) (simp_all add: ts)
    qed
  qed
  then show "all_frames r - set ds \<union> set gs \<subseteq> all_frames (set_stack i (gs @ fs) r')" using top by auto
qed

lemma countdowns_restack:
  assumes "i < length (rt_threads r)" and "rt_threads r' = rt_threads r"
  shows "countdowns d (set_stack i fs r') + length (filter (is_countdown d) (stack r i))
    = countdowns d r + length (filter (is_countdown d) fs)"
  using sum_list_update_nat [of i "rt_threads r" "\<lambda>t. length (filter (is_countdown d) (th_stack t))"
      "(rt_threads r ! i)\<lparr>th_stack := fs\<rparr>"] assms
  by (simp add: countdowns_def set_stack_def stack_def)

lemma outstanding_zero:
  assumes "outstanding P r = 0"
  shows "Fr_register e k \<in> all_frames r \<Longrightarrow> \<not> P k" and "Fr_call k \<in> all_frames r \<Longrightarrow> \<not> P k"
    and "e < length (rt_events r) \<Longrightarrow> k \<in> set (ev_callbacks (rt_events r ! e)) \<Longrightarrow> \<not> P k"
proof -
  have s: "\<forall>t \<in> set (rt_threads r). \<forall>f \<in> set (th_stack t). \<not> frame_call P f"
    and e: "\<forall>v \<in> set (rt_events r). \<forall>k \<in> set (ev_callbacks v). \<not> P k"
    using assms by (auto simp: outstanding_def stack_calls_def event_calls_def calls_def filter_empty_conv)
  show "Fr_register e k \<in> all_frames r \<Longrightarrow> \<not> P k" and "Fr_call k \<in> all_frames r \<Longrightarrow> \<not> P k"
    using s unfolding all_frames_def by (metis UN_E frame_call.simps(1,2))+
  show "e < length (rt_events r) \<Longrightarrow> k \<in> set (ev_callbacks (rt_events r ! e)) \<Longrightarrow> \<not> P k"
    using e by auto
qed

lemma terminal_at_kept: "terminal_at r p \<Longrightarrow> status_kept r r' \<Longrightarrow> terminal_at r' p
    \<and> ev_status (rt_events r' ! p) = ev_status (rt_events r ! p)"
  by (auto simp: terminal_at_def status_kept_def)

lemma all_done_kept: "all_done D r \<Longrightarrow> status_kept r r' \<Longrightarrow> all_done D r'"
  unfolding all_done_def using terminal_at_kept by metis

lemma frame_clean_kept:
  assumes "frame_clean D r f" and "status_kept r r'"
  shows "frame_clean D r' f"
proof (cases f)
  case (Fr_call k)
  then show ?thesis using assms terminal_at_kept [OF _ assms(2)] by (simp, blast)
qed (use assms in auto)

lemma cb_of_mine: "cb_of D p k \<Longrightarrow> cb_mine D k"
  by (auto simp: cb_of_def cb_mine_def split: callback.splits)

section \<open>The invariant under a frame's move\<close>

lemma micro_status: "status_kept r (set_stack i fs (snd (micro f r)))"
  using status_kept_trans [OF status_kept_micro status_kept_same, of _ f r] by simp

text \<open>Events: a move of the other frames leaves callbacks where they were registered.\<close>

lemma events_clean_set:
  assumes "events_clean D r" and "\<And>k. k \<in> set (ev_callbacks v) \<Longrightarrow> cb_mine D k \<Longrightarrow> cb_of D e k"
  shows "events_clean D (set_event e v r)"
  unfolding events_clean_def
proof (intro allI impI ballI)
  fix j k assume "j < length (rt_events (set_event e v r))" "cb_mine D k"
    and "k \<in> set (ev_callbacks (rt_events (set_event e v r) ! j))"
  then show "cb_of D j k" using assms by (cases "j = e") (auto simp: events_clean_def)
qed

lemma events_clean_micro:
  assumes "events_clean D r" and "frame_clean D r f"
  shows "events_clean D (snd (micro f r))"
proof (cases f)
  case (Fr_transition e st)
  show ?thesis
  proof (cases "e < length (rt_events r)")
    case True
    have "cb_of D e k" if "k \<in> set (ev_callbacks (snd (event_transition st (rt_events r ! e))))"
      "cb_mine D k" for k
      using that assms(1) True by (auto simp: event_transition_def events_clean_def split: if_splits)
    then show ?thesis using events_clean_set [OF assms(1)] Fr_transition by (simp add: split_beta)
  qed (use assms(1) Fr_transition in \<open>simp add: split_beta events_clean_def\<close>)
next
  case (Fr_register e k)
  show ?thesis
  proof (cases "e < length (rt_events r)")
    case True
    have "cb_of D e l" if "l \<in> set (ev_callbacks (snd (event_on_complete k (rt_events r ! e))))"
      "cb_mine D l" for l
      using that assms True Fr_register
      by (auto simp: event_on_complete_def events_clean_def split: if_splits)
    then show ?thesis using events_clean_set [OF assms(1)] Fr_register by (simp add: split_beta)
  qed (use assms(1) Fr_register in \<open>simp add: split_beta events_clean_def\<close>)
qed (use assms(1) in \<open>auto simp: events_clean_def split_beta\<close>)

lemma terminal_transition:
  assumes "e < length (rt_events r)" and "Fr_call k \<in> set (fst (micro (Fr_transition e st) r))"
  shows "k \<in> set (ev_callbacks (rt_events r ! e)) \<and> terminal_at (snd (micro (Fr_transition e st) r)) e"
  using assms by (auto simp: event_transition_def terminal_at_def split: if_splits)

lemma micro_frames_clean:
  assumes "frame_ok r f" and "events_clean D r" and "frame_clean D r f" and "g \<in> set (fst (micro f r))"
  shows "frame_clean D (snd (micro f r)) g"
proof (cases f)
  case (Fr_transition e st)
  then obtain k where k: "g = Fr_call k" using assms(4) by (auto simp: split_beta)
  have "e < length (rt_events r)" using assms(1) Fr_transition by simp
  then show ?thesis using terminal_transition [of e r k st] assms(2,4) Fr_transition
    unfolding k events_clean_def by auto
next
  case (Fr_register e k)
  have "g = Fr_call k \<and> terminal_at (snd (micro f r)) e"
    using assms(1,4) Fr_register
    by (auto simp: split_beta event_on_complete_def terminal_at_def split: if_splits)
  then show ?thesis using assms(3) Fr_register by auto
next
  case (Fr_call k)
  then show ?thesis using assms(3,4)
    by (auto simp: call_callback_def cb_mine_def cb_of_def split: callback.splits)
qed (use assms(4) in \<open>auto simp: dep_countdown_def Let_def executor_submit_def start_frames_def
    finish_frames_def pool_enqueue_def resume_call_def split_beta
    split: if_splits executor.splits option.splits\<close>)

lemma clean_step:
  assumes "rt_ok r" and "i < length (rt_threads r)" and "stack r i = f # fs" and "clean D r"
  shows "clean D (set_stack i (fst (micro f r) @ fs) (snd (micro f r)))"
proof -
  let ?r = "set_stack i (fst (micro f r) @ fs) (snd (micro f r))"
  have f: "frame_ok r f" "frame_clean D r f" "events_clean D r"
    using rt_ok_top(1) [OF assms(1-3)] assms(4) in_stack [OF assms(2), of f] assms(3)
    by (auto simp: clean_def)
  have sub: "all_frames ?r \<subseteq> all_frames r \<union> set (fst (micro f r))"
    by (rule all_frames_restack(1) [of i r _ "[f]"]) (use assms(2,3) in simp_all)
  have same: "status_kept (snd (micro f r)) ?r" by (rule status_kept_same) simp
  have "frame_clean D ?r g" if "g \<in> all_frames ?r" for g
  proof -
    from that sub consider "g \<in> all_frames r" | "g \<in> set (fst (micro f r))" by blast
    then show ?thesis
    proof cases
      case 1
      then have "frame_clean D r g" using assms(4) by (simp add: clean_def)
      then show ?thesis by (rule frame_clean_kept [OF _ micro_status])
    next
      case 2
      then show ?thesis using micro_frames_clean [OF f(1,3,2)] frame_clean_kept [OF _ same] by blast
    qed
  qed
  moreover have "events_clean D ?r"
    using events_clean_micro [OF f(3,2)] by (simp add: events_clean_def)
  ultimately show ?thesis by (simp add: clean_def)
qed

lemma top_clean:
  assumes "clean D r" and "i < length (rt_threads r)" and "stack r i = f # fs"
  shows "frame_clean D r f"
proof -
  have "f \<in> all_frames r" using in_stack [OF assms(2), of f] assms(3) by simp
  then show ?thesis using assms(1) unfolding clean_def by blast
qed

lemma dep_flag_update:
  "dp_failed (xs ! d) \<Longrightarrow> e = d \<longrightarrow> dp_failed v \<Longrightarrow> dp_failed (xs[e := v] ! d)"
  "dp_cancelled (xs ! d) \<Longrightarrow> e = d \<longrightarrow> dp_cancelled v \<Longrightarrow> dp_cancelled (xs[e := v] ! d)"
  by (metis list_update_beyond nth_list_update_eq nth_list_update_neq not_less)+

lemma dep_flags_micro:
  "dp_failed (rt_deps r ! d) \<Longrightarrow> dp_failed (rt_deps (snd (micro f r)) ! d)"
  "dp_cancelled (rt_deps r ! d) \<Longrightarrow> dp_cancelled (rt_deps (snd (micro f r)) ! d)"
  by (cases f; simp add: split_beta call_callback_def dep_countdown_def dep_note_def Let_def
      dep_flag_update split: callback.split)+

lemma pre_closed_step:
  assumes "pre_closed D r p"
  shows "pre_closed D (set_stack i fs (snd (micro f r))) p"
  using assms terminal_at_kept [OF _ micro_status [of r i fs f], of p] dep_flags_micro [of r "dc_dep D" f]
  by (simp add: pre_closed_def)

lemma called_closed:
  assumes "cb_of D p k" and "terminal_at r p" and "dc_dep D < length (rt_deps r)"
  shows "pre_closed D (set_stack i fs (snd (micro (Fr_call k) r))) p"
proof -
  obtain x where k: "k = Cb_dep p (dc_dep D) (dc_sub D) x (dc_stop D)"
    using assms(1) by (auto simp: cb_of_def split: callback.splits)
  have "terminal_at (set_stack i fs (snd (micro (Fr_call k) r))) p"
    using terminal_at_kept [OF assms(2) micro_status] by blast
  then show ?thesis using assms(3)
    by (simp add: pre_closed_def k call_callback_def dep_note_def Let_def)
qed

lemma callback_stays:
  assumes "p < length (rt_events r)" and "k \<in> set (ev_callbacks (rt_events r ! p))" and "frame_ok r f"
  shows "Fr_call k \<in> set (fst (micro f r)) \<or> k \<in> set (ev_callbacks (rt_events (snd (micro f r)) ! p))"
proof (cases f)
  case (Fr_transition e st)
  then show ?thesis using assms by (auto simp: event_transition_def nth_list_update)
next
  case (Fr_register e l)
  then show ?thesis using assms by (auto simp: event_on_complete_def nth_list_update)
qed (use assms in \<open>auto simp: split_beta\<close>)

lemma pre_open_step:
  assumes ok: "rt_ok r" and i: "i < length (rt_threads r)" and st: "stack r i = f # fs"
    and c: "clean D r" and d: "dc_dep D < length (rt_deps r)" and p: "pre_open D r p"
  defines "r' \<equiv> set_stack i (fst (micro f r) @ fs) (snd (micro f r))"
  shows "pre_open D r' p \<or> pre_closed D r' p"
proof -
  note f = rt_ok_top(1) [OF ok i st]
  have frames: "all_frames r - {f} \<union> set (fst (micro f r)) \<subseteq> all_frames r'"
    unfolding r'_def using all_frames_restack(2) [of i r "snd (micro f r)" "[f]" fs] i st by simp
  have ev: "rt_events r' = rt_events (snd (micro f r))" by (simp add: r'_def)
  obtain k where k: "cb_of D p k" and
    "Fr_register p k \<in> all_frames r \<or> Fr_call k \<in> all_frames r
     \<or> p < length (rt_events r) \<and> k \<in> set (ev_callbacks (rt_events r ! p))"
    using p by (auto simp: pre_open_def)
  then consider "f = Fr_register p k" | "f = Fr_call k"
    | "Fr_register p k \<in> all_frames r'" | "Fr_call k \<in> all_frames r'"
    | "p < length (rt_events r)" "k \<in> set (ev_callbacks (rt_events r ! p))"
    using frames by auto
  then show ?thesis
  proof cases
    case 1
    then have "Fr_call k \<in> set (fst (micro f r)) \<or> k \<in> set (ev_callbacks (rt_events r' ! p)) \<and> p < length (rt_events r')"
      using f by (auto simp: ev event_on_complete_def)
    then show ?thesis using k frames unfolding pre_open_def by blast
  next
    case 2
    then obtain q where "cb_of D q k" "terminal_at r q" using top_clean [OF c i st] 2 cb_of_mine [OF k] by auto
    then have "terminal_at r p" using k by (auto simp: cb_of_def split: callback.splits)
    then show ?thesis using called_closed [OF k _ d] 2 by (simp add: r'_def del: micro.simps)
  next
    case 5
    then have "Fr_call k \<in> set (fst (micro f r)) \<or> k \<in> set (ev_callbacks (rt_events r' ! p))"
      "p < length (rt_events r')"
      using callback_stays [OF 5 f] by (simp_all add: ev)
    then show ?thesis using k frames unfolding pre_open_def by blast
  qed (use k in \<open>auto simp: pre_open_def\<close>)
qed

lemma micro_countdowns:
  assumes "frame_clean D r f"
  shows "length (filter (is_countdown (dc_dep D)) (fst (micro f r)))
    = (case f of Fr_call k \<Rightarrow> if cb_mine D k then 1 else 0 | _ \<Rightarrow> 0)"
proof (cases f)
  case (Fr_call k)
  then show ?thesis using assms
    by (auto simp: call_callback_def is_countdown_def cb_mine_def cb_of_def split: callback.splits)
qed (auto simp: is_countdown_def split_beta dep_countdown_def Let_def executor_submit_def
    start_frames_def finish_frames_def pool_enqueue_def resume_call_def filter_empty_conv
    split: executor.splits option.splits)

lemma to_come_step:
  assumes ok: "rt_ok r" and i: "i < length (rt_threads r)" and st: "stack r i = f # fs" and c: "clean D r"
  shows "to_come D (set_stack i (fst (micro f r) @ fs) (snd (micro f r)))
    + (if is_countdown (dc_dep D) f then 1 else 0) = to_come D r"
proof -
  note fc = top_clean [OF c i st]
  have "(case f of Fr_call k \<Rightarrow> if P k then 1 else 0 | _ \<Rightarrow> 0) \<le> calls P [f]" for P
    by (cases f) simp_all
  then show ?thesis
    using outstanding_restack [OF i, of "snd (micro f r)" "cb_mine D" "fst (micro f r) @ fs"]
      countdowns_restack [OF i, of "snd (micro f r)" "dc_dep D" "fst (micro f r) @ fs"]
      micro_calls [OF rt_ok_top(1) [OF ok i st], of "cb_mine D"] micro_countdowns [OF fc] st
    by (cases "is_countdown (dc_dep D) f") (simp_all add: to_come_def outstanding_def)
qed

section \<open>The invariant is kept\<close>

lemma micro_dispatch:
  assumes "Fr_dispatch s x \<in> set (fst (micro f r))"
  shows "(\<exists>d. f = Fr_countdown d s x \<and> dp_remaining (rt_deps r ! d) = 1 \<and> \<not> dp_failed (rt_deps r ! d)
      \<and> \<not> dp_cancelled (rt_deps r ! d)) \<or> f = Fr_resume s"
  using assms by (cases f) (auto simp: call_callback_def dep_countdown_def Let_def executor_submit_def
    start_frames_def finish_frames_def pool_enqueue_def resume_call_def split_beta
    split: if_splits executor.splits option.splits callback.splits)

lemma micro_flagged:
  assumes "frame_ok r f" and "\<And>x. f \<noteq> Fr_dispatch s x" and "flagged r s = 0"
  shows "flagged (snd (micro f r)) s = 0"
proof (cases f)
  case (Fr_dispatch u x)
  then show ?thesis using assms by (auto simp: flagged_set)
next
  case (Fr_release u)
  then show ?thesis using assms by (simp add: flagged_set)
next
  case (Fr_call k)
  then show ?thesis using assms flagged_cong [of "snd (micro f r)" r s] by simp
next
  case (Fr_enqueue u p)
  then show ?thesis using assms by (simp add: pool_enqueue_def Let_def)
qed (use assms flagged_cong [of "snd (micro f r)" r s] in \<open>simp_all add: split_beta\<close>)

lemma micro_ran:
  "rt_ran (snd (micro f r)) = rt_ran r \<or> (\<exists>s. f = Fr_run s \<and> rt_ran (snd (micro f r)) = rt_ran r @ [s])"
  by (cases f) (simp_all add: split_beta run_step_def Let_def split: option.split)

lemma not_held:
  assumes "own_inv r" and "flagged r s = 0" and "i < length (rt_threads r)" and "f \<in> set (stack r i)"
  shows "frame_owner f \<noteq> Some s"
proof
  assume "frame_owner f = Some s"
  moreover have "own s fs = 0 \<Longrightarrow> f \<in> set fs \<Longrightarrow> frame_owner f \<noteq> Some s" for fs
    by (auto simp: own_def filter_empty_conv)
  moreover have "own s (stack r i) \<le> stack_own r s"
    using elem_le_sum_list [of i "map (\<lambda>t. own s (th_stack t)) (rt_threads r)"] assms(3)
    by (simp add: stack_own_def stack_def)
  moreover have "stack_own r s = 0" using assms(1,2) unfolding own_inv_def by (metis add_eq_0_iff_both_eq_0)
  ultimately show False using assms(4) by simp
qed

lemma dep_remaining_update:
  "dp_remaining v = dp_remaining (xs ! e) \<Longrightarrow> dp_remaining (xs[e := v] ! d) = dp_remaining (xs ! d)"
  by (metis list_update_beyond nth_list_update_eq nth_list_update_neq not_less)

lemma dep_remaining_micro:
  assumes "d < length (rt_deps r)"
  shows "dp_remaining (rt_deps (snd (micro f r)) ! d) = dp_remaining (rt_deps r ! d) - (if is_countdown d f then 1 else 0)"
proof (cases f)
  case (Fr_call k)
  then show ?thesis using assms
    by (auto simp: is_countdown_def call_callback_def dep_note_def Let_def dep_remaining_update
        split: callback.split)
next
  case (Fr_countdown e s x)
  then show ?thesis using assms by (auto simp: is_countdown_def dep_countdown_def Let_def nth_list_update)
qed (simp_all add: is_countdown_def split_beta)

lemma closed_all:
  assumes "\<forall>p \<in> set (dc_pres D). pre_open D r p \<or> pre_closed D r p" and "to_come D r = 0"
  shows "\<forall>p \<in> set (dc_pres D). pre_closed D r p"
proof -
  have "outstanding (cb_mine D) r = 0" using assms(2) by (simp add: to_come_def)
  then have "\<not> pre_open D r p" for p
    using outstanding_zero [of "cb_mine D" r] cb_of_mine unfolding pre_open_def by blast
  then show ?thesis using assms(1) by blast
qed

lemma closed_done:
  assumes "\<forall>p \<in> set (dc_pres D). pre_closed D r p" and "\<not> dp_failed (rt_deps r ! dc_dep D)"
    and "\<not> dp_cancelled (rt_deps r ! dc_dep D)"
  shows "all_done D r"
  unfolding all_done_def
proof (intro ballI conjI impI)
  fix p assume p: "p \<in> set (dc_pres D)"
  then show t: "terminal_at r p" using assms(1) by (simp add: pre_closed_def)
  assume "dc_stop D"
  then have "ev_status (rt_events r ! p) \<noteq> St_failed" "ev_status (rt_events r ! p) \<noteq> St_cancelled"
    using p assms by (auto simp: pre_closed_def)
  then show "ev_status (rt_events r ! p) = St_completed"
    using t by (auto simp: terminal_at_def is_terminal_def)
qed

lemma waiting_step:
  assumes ok: "rt_ok r" and own: "own_inv r" and i: "i < length (rt_threads r)" and st: "stack r i = f # fs"
    and c: "clean D r" and d: "dc_dep D < length (rt_deps r)" and w: "waiting D r"
  defines "r' \<equiv> set_stack i (fst (micro f r) @ fs) (snd (micro f r))"
  shows "waiting D r' \<or> all_done D r'"
proof -
  let ?s = "dc_sub D" and ?m = "snd (micro f r)"
  note f = rt_ok_top(1) [OF ok i st] and fc = top_clean [OF c i st]
  have nf: "\<And>x. f \<noteq> Fr_dispatch ?s x" and fl: "flagged r ?s = 0" and ran: "?s \<notin> set (rt_ran r)"
    using w in_stack [OF i, of f] st by (auto simp: waiting_def)
  have "frame_owner f \<noteq> Some ?s" using not_held [OF own fl i, of f] st by simp
  then have ran': "?s \<notin> set (rt_ran r')" using micro_ran [of f r] ran by (auto simp: r'_def simp del: micro.simps)
  have fl': "flagged r' ?s = 0" using micro_flagged [OF f nf fl] flagged_cong [of r' ?m ?s] by (simp add: r'_def)
  have pre: "\<forall>p \<in> set (dc_pres D). pre_open D r' p \<or> pre_closed D r' p"
    using w pre_open_step [OF ok i st c d] pre_closed_step unfolding waiting_def r'_def by blast
  have tc: "to_come D r' + (if is_countdown (dc_dep D) f then 1 else 0) = to_come D r"
    unfolding r'_def by (rule to_come_step [OF ok i st c])
  have "dp_remaining (rt_deps r ! dc_dep D) = of_nat (to_come D r')
      + (if is_countdown (dc_dep D) f then 1 else 0)"
    using w unfolding waiting_def tc [symmetric] by simp
  then have rem: "dp_remaining (rt_deps r' ! dc_dep D) = of_nat (to_come D r')"
    using dep_remaining_micro [OF d, of f] by (simp add: r'_def)
  have lim: "to_come D r' < 2 ^ 64" using w tc by (simp add: waiting_def)
  show ?thesis
  proof (cases "\<exists>x. Fr_dispatch ?s x \<in> set (fst (micro f r))")
    case True
    have nr: "f \<noteq> Fr_resume ?s" using fc by auto
    then obtain x e where e: "f = Fr_countdown e ?s x" "dp_remaining (rt_deps r ! e) = 1"
      "\<not> dp_failed (rt_deps r ! e)" "\<not> dp_cancelled (rt_deps r ! e)"
      using True micro_dispatch [of ?s _ f r] nr by blast
    have ed: "e = dc_dep D" using fc e(1) by simp
    then have "(of_nat (to_come D r) :: u64) = of_nat 1" and "to_come D r < 2 ^ 64"
      using w e(2) by (simp_all add: waiting_def)
    then have "to_come D r = 1" by (subst (asm) u64_of_nat_inj) simp_all
    then have "to_come D r' = 0" using tc e(1) ed by (simp add: is_countdown_def)
    moreover have "\<not> dp_failed (rt_deps r' ! dc_dep D)" "\<not> dp_cancelled (rt_deps r' ! dc_dep D)"
      using e d ed by (simp_all add: r'_def dep_countdown_def Let_def)
    ultimately show ?thesis using closed_done closed_all [OF pre] by blast
  next
    case False
    have "all_frames r' \<subseteq> all_frames r \<union> set (fst (micro f r))"
      unfolding r'_def by (rule all_frames_restack(1) [of i r _ "[f]"]) (use i st in simp_all)
    then have "\<forall>x. Fr_dispatch ?s x \<notin> all_frames r'" using False w unfolding waiting_def by blast
    then show ?thesis using fl' ran' pre rem lim by (simp add: waiting_def)
  qed
qed

lemma dep_inv_step:
  assumes ok: "rt_ok r" and own: "own_inv r" and i: "i < length (rt_threads r)" and st: "stack r i = f # fs"
    and inv: "dep_inv D r"
  shows "dep_inv D (set_stack i (fst (micro f r) @ fs) (snd (micro f r)))"
proof -
  have "clean D (set_stack i (fst (micro f r) @ fs) (snd (micro f r)))"
    using clean_step [OF ok i st] inv by (simp add: dep_inv_def)
  moreover have "waiting D (set_stack i (fst (micro f r) @ fs) (snd (micro f r)))
      \<or> all_done D (set_stack i (fst (micro f r) @ fs) (snd (micro f r)))"
    using inv waiting_step [OF ok own i st] all_done_kept [OF _ micro_status] unfolding dep_inv_def by blast
  ultimately show ?thesis using inv by (simp add: dep_inv_def)
qed

text \<open>The other moves: they add frames that do not concern the case, and keep the rest.\<close>

lemma dep_inv_restack:
  assumes inv: "dep_inv D r" and i: "i < length (rt_threads r)" and st: "stack r i = []"
    and th: "rt_threads r' = rt_threads r" and sk: "status_kept r r'"
    and sub: "dc_sub D < length (rt_subs r')" "flagged r' (dc_sub D) = flagged r (dc_sub D)"
    and dep: "dc_dep D < length (rt_deps r')" "rt_deps r' ! dc_dep D = rt_deps r ! dc_dep D"
    and ev: "rt_events r' = rt_events r \<or> rt_events r' = rt_events r @ [new_event]"
    and ran: "rt_ran r' = rt_ran r"
    and gs: "\<forall>g \<in> set gs. frame_clean D r' g \<and> \<not> frame_call (cb_mine D) g \<and> \<not> is_countdown (dc_dep D) g
      \<and> (\<forall>x. g \<noteq> Fr_dispatch (dc_sub D) x)"
  shows "dep_inv D (set_stack i gs r')"
proof -
  let ?t = "set_stack i gs r'"
  have fr: "all_frames ?t \<subseteq> all_frames r \<union> set gs" "all_frames r \<subseteq> all_frames ?t"
    using all_frames_restack [OF i th, of "[]" "[]" gs] st by auto
  have sk': "status_kept r ?t" and skt: "status_kept r' ?t"
    using status_kept_trans [OF sk status_kept_same [of ?t]] status_kept_same [of ?t r'] by simp_all
  have "frame_clean D ?t g" if "g \<in> all_frames ?t" for g
    using that fr(1) inv gs frame_clean_kept [OF _ sk', of D g] frame_clean_kept [OF _ skt, of D g]
    by (auto simp: dep_inv_def clean_def)
  moreover have "events_clean D ?t" using inv ev
    by (auto simp: dep_inv_def clean_def events_clean_def nth_append new_event_def less_Suc_eq)
  moreover have "waiting D ?t" if w: "waiting D r"
  proof -
    have "calls (cb_mine D) gs = 0" using gs by (auto simp: calls_def filter_empty_conv)
    moreover have "event_calls (cb_mine D) r' = event_calls (cb_mine D) r"
      using ev by (auto simp: event_calls_def new_event_def)
    ultimately have "outstanding (cb_mine D) ?t = outstanding (cb_mine D) r"
      using outstanding_restack [OF i th, of "cb_mine D" gs] st by (simp add: outstanding_def)
    moreover have "filter (is_countdown (dc_dep D)) gs = []" using gs by (auto simp: filter_empty_conv)
    then have "countdowns (dc_dep D) ?t = countdowns (dc_dep D) r"
      using countdowns_restack [OF i th, of "dc_dep D" gs] st by simp
    ultimately have tc: "to_come D ?t = to_come D r" by (simp add: to_come_def)
    have "pre_open D ?t p" if "pre_open D r p" for p
      using that fr(2) ev unfolding pre_open_def by (auto simp: nth_append)
    moreover have "pre_closed D ?t p" if "pre_closed D r p" for p
      using that terminal_at_kept [OF _ sk', of p] dep(2) by (simp add: pre_closed_def)
    ultimately have "\<forall>p \<in> set (dc_pres D). pre_open D ?t p \<or> pre_closed D ?t p"
      using w unfolding waiting_def by blast
    moreover have "\<forall>x. Fr_dispatch (dc_sub D) x \<notin> all_frames ?t"
      using w fr(1) gs by (auto simp: waiting_def)
    moreover have "flagged ?t (dc_sub D) = 0"
      using w sub(2) flagged_cong [of ?t r'] by (simp add: waiting_def)
    ultimately show ?thesis using w tc dep(2) ran unfolding waiting_def by simp
  qed
  ultimately show ?thesis using inv sub(1) dep(1) all_done_kept [OF _ sk', of D]
    by (auto simp: dep_inv_def clean_def)
qed

lemma dep_inv_stacks:
  assumes "map th_stack (rt_threads r') = map th_stack (rt_threads r)"
    and "rt_events r' = rt_events r" "rt_deps r' = rt_deps r" "rt_subs r' = rt_subs r" "rt_ran r' = rt_ran r"
  shows "dep_inv D r' = dep_inv D r"
proof -
  have "set ` set (map th_stack (rt_threads r')) = set ` set (map th_stack (rt_threads r))"
    using assms(1) by simp
  then have "all_frames r' = all_frames r" by (simp add: all_frames_def image_image)
  moreover have "sum_list (map h (map th_stack (rt_threads r'))) = sum_list (map h (map th_stack (rt_threads r)))"
    for h :: "frame list \<Rightarrow> nat" using assms(1) by simp
  then have "stack_calls P r' = stack_calls P r" "countdowns d r' = countdowns d r" for P d
    unfolding stack_calls_def countdowns_def by (simp_all add: o_def)
  moreover have "frame_clean D r' f = frame_clean D r f" for f
    by (cases f) (simp_all add: terminal_at_def assms(2))
  ultimately show ?thesis
    by (simp add: dep_inv_def clean_def events_clean_def waiting_def all_done_def pre_open_def pre_closed_def
        to_come_def outstanding_def event_calls_def flagged_def terminal_at_def assms(2-5))
qed

fun resumes :: "nat \<Rightarrow> 'w move \<Rightarrow> bool" where
  "resumes s (Call i (Api_resume u)) = (u = s)"
| "resumes s _ = False"

lemma dep_inv_api:
  assumes inv: "dep_inv D r" and a: "api_call a r = Some (gs, r')" and n: "\<not> resumes (dc_sub D) (Call i a)"
  shows "dc_sub D < length (rt_subs r') \<and> flagged r' (dc_sub D) = flagged r (dc_sub D)
    \<and> dc_dep D < length (rt_deps r') \<and> rt_deps r' ! dc_dep D = rt_deps r ! dc_dep D
    \<and> (rt_events r' = rt_events r \<or> rt_events r' = rt_events r @ [new_event]) \<and> rt_ran r' = rt_ran r
    \<and> (\<forall>g \<in> set gs. frame_clean D r' g \<and> \<not> frame_call (cb_mine D) g \<and> \<not> is_countdown (dc_dep D) g
      \<and> (\<forall>x. g \<noteq> Fr_dispatch (dc_sub D) x))"
proof (cases a)
  case (Api_submit b)
  then show ?thesis using a inv
    by (auto simp: submit_def Let_def dep_inv_def nth_append flagged_def cb_mine_def is_countdown_def
        split: if_splits bind_splits)
next
  case (Api_register name x)
  then show ?thesis using a inv
    by (auto simp: register_executor_def dep_inv_def flagged_def split: if_splits executor.splits)
next
  case (Api_shutdown p)
  then show ?thesis using a inv
    by (auto simp: pool_shutdown_def dep_inv_def flagged_def is_countdown_def split: if_splits)
qed (use a inv n in \<open>auto simp: dep_inv_def flagged_def cb_mine_def is_countdown_def split: if_splits\<close>)

lemma dep_inv_do:
  assumes ok: "rt_ok r" and own: "own_inv r" and inv: "dep_inv D r" and m: "rt_do r m = Some r'"
    and n: "\<not> resumes (dc_sub D) m"
  shows "dep_inv D r'"
proof (cases m)
  case (Step i)
  then show ?thesis using m dep_inv_step [OF ok own, of i _ _ D] inv
    by (auto simp: split_beta split: if_splits list.splits)
next
  case (Call i a)
  then obtain gs r2 where i: "i < length (rt_threads r)" "stack r i = []"
    and a: "api_call a r = Some (gs, r2)" and r': "r' = set_stack i gs r2"
    using m by (auto split: if_splits bind_splits)
  have "\<not> resumes (dc_sub D) (Call i a)" using n Call by simp
  from dep_inv_api [OF inv a this] show ?thesis unfolding r'
    by (intro dep_inv_restack [OF inv i api_own(1) [OF a] status_kept_api [OF a]]) blast+
next
  case (Take i)
  then obtain p s ss where i: "i < length (rt_threads r)" "stack r i = []"
    and r': "r' = set_stack i [Fr_worker s]
      (r\<lparr>rt_pools := (rt_pools r)[p := (rt_pools r ! p)\<lparr>pl_queue := ss\<rparr>]\<rparr>)"
    using m by (auto split: if_splits role.splits list.splits)
  show ?thesis unfolding r' using inv
    by (intro dep_inv_restack [OF inv i])
      (auto simp: dep_inv_def flagged_def is_countdown_def intro: status_kept_same)
next
  case (Exit i)
  then obtain p where i: "i < length (rt_threads r)" "stack r i = []" and r': "r' = set_role i Exited r"
    using m by (auto split: if_splits role.splits)
  have "map th_stack (rt_threads r') = map th_stack (rt_threads r)"
    using i(1) by (simp add: r' set_role_def map_update list_update_same_conv)
  then show ?thesis using dep_inv_stacks [of r' r D] inv by (simp add: r' set_role_def)
qed

lemma dep_inv_run:
  "rt_run r ms = Some r' \<Longrightarrow> rt_ok r \<Longrightarrow> own_inv r \<Longrightarrow> dep_inv D r
    \<Longrightarrow> \<forall>m \<in> set ms. \<not> resumes (dc_sub D) m \<Longrightarrow> dep_inv D r'"
proof (induction ms arbitrary: r)
  case (Cons m ms)
  then obtain r1 where r1: "rt_do r m = Some r1" "rt_run r1 ms = Some r'" by (auto split: bind_splits)
  have "rt_ok r1" "own_inv r1" using rt_ok_do own_inv_do Cons.prems r1(1) by blast+
  then show ?case using Cons.IH [OF r1(2)] Cons.prems dep_inv_do [OF _ _ _ r1(1)] by simp
qed simp

section \<open>A submission waits for its prerequisites\<close>

lemma frames_below:
  assumes "rt_ok r" and "f \<in> all_frames r"
  shows "frame_ok r f"
  using assms by (auto simp: all_frames_def rt_ok_def thread_ok_def)

lemma fresh_callback:
  assumes "callback_ok r k" and "dc_sub D = length (rt_subs r)" and "dc_dep D = length (rt_deps r)"
  shows "\<not> cb_mine D k"
  using assms by (auto simp: callback_ok_def cb_mine_def split: callback.splits)

lemma fresh_clean:
  assumes ok: "rt_ok r" and D: "dc_sub D = length (rt_subs r)" "dc_dep D = length (rt_deps r)"
  shows "\<forall>f \<in> all_frames r. frame_clean D r f \<and> \<not> frame_call (cb_mine D) f
      \<and> \<not> is_countdown (dc_dep D) f \<and> (\<forall>x. f \<noteq> Fr_dispatch (dc_sub D) x)"
    and "\<forall>e < length (rt_events r). \<forall>k \<in> set (ev_callbacks (rt_events r ! e)). \<not> cb_mine D k"
proof -
  show "\<forall>f \<in> all_frames r. frame_clean D r f \<and> \<not> frame_call (cb_mine D) f
      \<and> \<not> is_countdown (dc_dep D) f \<and> (\<forall>x. f \<noteq> Fr_dispatch (dc_sub D) x)"
  proof
    fix f assume "f \<in> all_frames r"
    then have "frame_ok r f" by (rule frames_below [OF ok])
    then show "frame_clean D r f \<and> \<not> frame_call (cb_mine D) f
        \<and> \<not> is_countdown (dc_dep D) f \<and> (\<forall>x. f \<noteq> Fr_dispatch (dc_sub D) x)"
      using fresh_callback [OF _ D] by (cases f) (auto simp: is_countdown_def D)
  qed
  show "\<forall>e < length (rt_events r). \<forall>k \<in> set (ev_callbacks (rt_events r ! e)). \<not> cb_mine D k"
    using ok fresh_callback [OF _ D] unfolding rt_ok_def event_ok_def by (meson nth_mem)
qed

text \<open>No submission has run that does not exist yet.\<close>

lemma ran_below_do: "rt_ok r \<Longrightarrow> \<forall>s \<in> set (rt_ran r). s < length (rt_subs r) \<Longrightarrow> rt_do r m = Some r'
    \<Longrightarrow> \<forall>s \<in> set (rt_ran r'). s < length (rt_subs r')"
proof (cases m)
  case (Step i)
  assume ok: "rt_ok r" and b: "\<forall>s \<in> set (rt_ran r). s < length (rt_subs r)" and "rt_do r m = Some r'"
  then obtain f fs where st: "i < length (rt_threads r)" "stack r i = f # fs"
    and r': "r' = set_stack i (fst (micro f r) @ fs) (snd (micro f r))"
    using Step by (auto simp: split_beta split: if_splits list.splits)
  then show ?thesis using b micro_ran [of f r] rt_ok_top(1) [OF ok st]
    by (auto simp del: micro.simps)
next
  case (Call i a)
  assume b: "\<forall>s \<in> set (rt_ran r). s < length (rt_subs r)" and "rt_do r m = Some r'"
  then obtain gs r2 where "api_call a r = Some (gs, r2)" "r' = set_stack i gs r2"
    using Call by (auto split: if_splits bind_splits)
  then show ?thesis using b
    by (cases a) (auto simp: register_executor_def submit_def pool_shutdown_def Let_def less_Suc_eq
      split: if_splits executor.splits bind_splits)
qed (auto simp: set_role_def split: if_splits role.splits list.splits)

lemma ran_below_run: "rt_run r ms = Some r' \<Longrightarrow> rt_ok r \<Longrightarrow> \<forall>s \<in> set (rt_ran r). s < length (rt_subs r)
    \<Longrightarrow> \<forall>s \<in> set (rt_ran r'). s < length (rt_subs r')"
proof (induction ms arbitrary: r)
  case (Cons m ms)
  then obtain r1 where r1: "rt_do r m = Some r1" "rt_run r1 ms = Some r'" by (auto split: bind_splits)
  then show ?case using Cons.IH [OF r1(2)] rt_ok_do [OF Cons.prems(2) r1(1)]
      ran_below_do [OF Cons.prems(2,3) r1(1)] by blast
qed simp

definition case_of :: "'w runtime \<Rightarrow> 'w submission \<Rightarrow> dep_case" where
  "case_of r b = \<lparr>dc_sub = length (rt_subs r), dc_dep = length (rt_deps r),
     dc_pres = sb_prerequisites b, dc_stop = sb_stopOnPrerequisiteFailure b\<rparr>"

lemma dep_inv_start:
  assumes ok: "rt_ok r" and ran: "\<forall>s \<in> set (rt_ran r). s < length (rt_subs r)"
    and m: "rt_do r (Call i (Api_submit b)) = Some r1"
    and pres: "sb_prerequisites b \<noteq> []" "length (sb_prerequisites b) < 2 ^ 64"
  shows "dep_inv (case_of r b) r1"
proof -
  let ?D = "case_of r b" and ?ps = "sb_prerequisites b"
  obtain gs r2 x where i: "i < length (rt_threads r)" "stack r i = []"
    and r1: "r1 = set_stack i gs r2"
    and gs: "gs = map (\<lambda>p. Fr_register p (Cb_dep p (length (rt_deps r)) (length (rt_subs r)) x
        (sb_stopOnPrerequisiteFailure b))) ?ps"
    and r2: "rt_threads r2 = rt_threads r" "rt_events r2 = rt_events r @ [new_event]"
      "rt_subs r2 = rt_subs r @ [make_sub b (rt_nextId r + 1) (length (rt_events r))]"
      "rt_deps r2 = rt_deps r @ [\<lparr>dp_remaining = of_nat (length ?ps), dp_failed = False, dp_cancelled = False\<rparr>]"
      "rt_ran r2 = rt_ran r"
    using m pres(1) by (auto simp: submit_def Let_def split: if_splits bind_splits)
  have D: "dc_sub ?D = length (rt_subs r)" "dc_dep ?D = length (rt_deps r)" "dc_pres ?D = ?ps"
    by (simp_all add: case_of_def)
  note fresh = fresh_clean [OF ok D(1,2)]
  have fr: "all_frames r1 \<subseteq> all_frames r \<union> set gs" "set gs \<subseteq> all_frames r1"
    using all_frames_restack [OF i(1) r2(1), of "[]" "[]" gs] i(2) by (auto simp: r1)
  have cb: "cb_of ?D p (Cb_dep p (length (rt_deps r)) (length (rt_subs r)) x (sb_stopOnPrerequisiteFailure b))"
    if "p \<in> set ?ps" for p using that by (simp add: cb_of_def case_of_def)
  have sk: "status_kept r r1" by (simp add: status_kept_def r1 r2 nth_append)
  have "frame_clean ?D r1 f" if "f \<in> all_frames r1" for f
  proof (cases "f \<in> set gs")
    case True
    then show ?thesis using cb by (auto simp: gs)
  next
    case False
    then have "frame_clean ?D r f" using that fr(1) fresh(1) by blast
    then show ?thesis by (rule frame_clean_kept [OF _ sk])
  qed
  moreover have "events_clean ?D r1" using fresh(2)
    by (auto simp: events_clean_def r1 r2 nth_append new_event_def less_Suc_eq)
  moreover have "waiting ?D r1"
  proof -
    have calls0: "calls (cb_mine ?D) (th_stack t) = 0 \<and> filter (is_countdown (dc_dep ?D)) (th_stack t) = []"
      if "t \<in> set (rt_threads r)" for t
      using that fresh(1) by (auto simp: calls_def filter_empty_conv all_frames_def)
    then have "stack_calls (cb_mine ?D) r = 0" "countdowns (dc_dep ?D) r = 0"
      by (simp_all add: stack_calls_def countdowns_def)
    moreover have "event_calls (cb_mine ?D) r2 = 0"
    proof -
      have "filter (cb_mine ?D) (ev_callbacks e) = []" if "e \<in> set (rt_events r)" for e
        using that fresh(2) by (metis (mono_tags, lifting) filter_False in_set_conv_nth)
      then show ?thesis by (simp add: event_calls_def r2 new_event_def)
    qed
    moreover have "calls (cb_mine ?D) gs = length ?ps"
      by (simp add: gs cb_mine_def D)
    moreover have "filter (is_countdown (dc_dep ?D)) gs = []"
      by (auto simp: gs filter_empty_conv is_countdown_def)
    ultimately have tc: "to_come ?D r1 = length ?ps"
      using outstanding_restack [OF i(1) r2(1), of "cb_mine ?D" gs]
        countdowns_restack [OF i(1) r2(1), of "dc_dep ?D" gs] i(2)
      by (simp add: to_come_def r1)
    have "Fr_dispatch (dc_sub ?D) y \<notin> all_frames r1" for y
      using fr(1) fresh(1) by (auto simp: gs)
    moreover have "pre_open ?D r1 p" if "p \<in> set ?ps" for p
      using cb [OF that] fr(2) that unfolding pre_open_def by (auto simp: gs)
    moreover have "dc_sub ?D \<notin> set (rt_ran r1)" using ran by (auto simp: r1 r2 D)
    ultimately show ?thesis using pres(2)
      unfolding waiting_def tc by (simp add: D r1 r2 nth_append flagged_def make_sub_def)
  qed
  ultimately show ?thesis by (simp add: dep_inv_def clean_def D r1 r2)
qed

text \<open>
  C27: a submission with prerequisites that nobody resumes is not in flight and has not run before
  all of them are terminal; if it stops on a failed prerequisite, not before all of them have
  completed. This holds under every interleaving of clients, workers and other submissions.
\<close>
theorem prerequisites_first:
  assumes "rt_run (new_runtime clients workers w) ms0 = Some r0"
    and "rt_do r0 (Call i (Api_submit b)) = Some r1" and "rt_run r1 ms = Some r"
    and "\<forall>m \<in> set ms. \<not> resumes (length (rt_subs r0)) m"
    and "sb_prerequisites b \<noteq> []" and "length (sb_prerequisites b) < 2 ^ 64"
    and "ss_inFlight (rt_subs r ! length (rt_subs r0)) \<or> length (rt_subs r0) \<in> set (rt_ran r)"
    and "p \<in> set (sb_prerequisites b)"
  shows "is_terminal (ev_status (rt_events r ! p))
    \<and> (sb_stopOnPrerequisiteFailure b \<longrightarrow> ev_status (rt_events r ! p) = St_completed)"
proof -
  let ?D = "case_of r0 b"
  have ok0: "rt_ok r0" "own_inv r0"
    by (rule rt_ok_run [OF assms(1) rt_ok_new], rule own_inv_run [OF assms(1) rt_ok_new own_inv_new])
  have ran: "\<forall>s \<in> set (rt_ran r0). s < length (rt_subs r0)"
    using ran_below_run [OF assms(1) rt_ok_new] by (simp add: new_runtime_def)
  have ok1: "rt_ok r1" "own_inv r1"
    by (rule rt_ok_do [OF ok0(1) assms(2)], rule own_inv_do [OF ok0 assms(2)])
  have "dep_inv ?D r1" using dep_inv_start [OF ok0(1) ran assms(2,5,6)] .
  then have inv: "dep_inv ?D r" using dep_inv_run [OF assms(3) ok1] assms(4) by (simp add: case_of_def)
  then have "\<not> waiting ?D r"
    using assms(7) by (auto simp: waiting_def dep_inv_def flagged_def case_of_def)
  then have "all_done ?D r" using inv by (simp add: dep_inv_def)
  then show ?thesis using assms(8) by (simp add: all_done_def terminal_at_def case_of_def)
qed

text \<open>The witness: a submission whose prerequisite is completed before the thread pool runs it.\<close>

definition pre_moves0 :: "nat move list" where
  "pre_moves0 = [Call 0 Api_create]"

definition pre_submit :: "nat submission" where
  "pre_submit = sub_to ''thread_pool'' Poll_completed [0]"

definition pre_moves :: "nat move list" where
  "pre_moves = [Step 0, Call 1 (Api_complete 0 St_completed), Step 1, Step 1, Step 1, Step 1, Step 1,
     Step 1, Take 2, Step 2, Step 2, Step 2]"

lemma pre_run:
  "\<exists>r0 r1 r. rt_run (new_runtime 2 1 0) pre_moves0 = Some r0
    \<and> rt_do r0 (Call 0 (Api_submit pre_submit)) = Some r1 \<and> rt_run r1 pre_moves = Some r
    \<and> length (rt_subs r0) = 0 \<and> 0 \<in> set (rt_ran r)"
proof -
  have "map_option (\<lambda>r0. (length (rt_subs r0), map_option (\<lambda>r. rt_ran r)
        (Option.bind (rt_do r0 (Call 0 (Api_submit pre_submit))) (\<lambda>r1. rt_run r1 pre_moves))))
      (rt_run (new_runtime 2 1 0) pre_moves0) = Some (0, Some [0])" by code_simp
  then obtain r0 where r0: "rt_run (new_runtime 2 1 0) pre_moves0 = Some r0"
    and "(length (rt_subs r0), map_option (\<lambda>r. rt_ran r)
        (Option.bind (rt_do r0 (Call 0 (Api_submit pre_submit))) (\<lambda>r1. rt_run r1 pre_moves))) = (0, Some [0])"
    by (rule map_option_SomeE)
  then have n: "length (rt_subs r0) = 0" and "map_option (\<lambda>r. rt_ran r)
        (Option.bind (rt_do r0 (Call 0 (Api_submit pre_submit))) (\<lambda>r1. rt_run r1 pre_moves)) = Some [0]"
    unfolding prod.inject by blast+
  from this(2) obtain r where "Option.bind (rt_do r0 (Call 0 (Api_submit pre_submit)))
      (\<lambda>r1. rt_run r1 pre_moves) = Some r" "rt_ran r = [0]" by (rule map_option_SomeE)
  then show ?thesis using r0 n unfolding bind_eq_Some_conv by fastforce
qed

theorem prerequisites_first_witness:
  "\<exists>r0 r1 r. rt_run (new_runtime 2 1 0) pre_moves0 = Some r0
    \<and> rt_do r0 (Call 0 (Api_submit pre_submit)) = Some r1 \<and> rt_run r1 pre_moves = Some r
    \<and> 0 \<in> set (rt_ran r) \<and> ev_status (rt_events r ! 0) = St_completed"
proof -
  obtain r0 r1 r where r: "rt_run (new_runtime 2 1 0) pre_moves0 = Some r0"
    "rt_do r0 (Call 0 (Api_submit pre_submit)) = Some r1" "rt_run r1 pre_moves = Some r"
    and n: "length (rt_subs r0) = 0" "0 \<in> set (rt_ran r)" using pre_run by blast
  have "\<forall>m \<in> set pre_moves. \<not> resumes (length (rt_subs r0)) m" by (simp add: pre_moves_def)
  moreover have "sb_prerequisites pre_submit = [0]" "sb_stopOnPrerequisiteFailure pre_submit"
    by (simp_all add: pre_submit_def sub_to_def)
  ultimately have "ev_status (rt_events r ! 0) = St_completed"
    using prerequisites_first [OF r, of 0] n by simp
  then show ?thesis using r n(2) by blast
qed

section \<open>What resume breaks\<close>

text \<open>
  \<open>resume\<close> accepts a pending submission, also one that waits for its prerequisites, and
  dispatches it at once: its step runs and its event completes while the prerequisite is pending, and
  when the prerequisite completes the step runs a second time.
\<close>
theorem resume_bypasses_prerequisites:
  "\<exists>r r'. rt_run (new_runtime 1 1 0) [Call 0 Api_create,
        Call 0 (Api_submit (sub_to ''inline'' Poll_completed [0])), Step 0, Call 0 (Api_resume 0),
        Step 0, Step 0, Step 0, Step 0, Step 0, Step 0, Step 0, Step 0] = Some r
    \<and> ev_status (rt_events r ! 0) = St_pending \<and> rt_ran r = [0]
    \<and> ev_status (rt_events r ! sub_event r 0) = St_completed
    \<and> rt_run r [Call 0 (Api_complete 0 St_completed), Step 0, Step 0, Step 0, Step 0, Step 0, Step 0, Step 0]
        = Some r' \<and> rt_ran r' = [0, 0]"
proof -
  let ?a = "rt_run (new_runtime 1 1 0) [Call 0 Api_create,
        Call 0 (Api_submit (sub_to ''inline'' Poll_completed [0])), Step 0, Call 0 (Api_resume 0),
        Step 0, Step 0, Step 0, Step 0, Step 0, Step 0, Step 0, Step 0]"
  let ?b = "\<lambda>r. rt_run r [Call 0 (Api_complete 0 St_completed), Step 0, Step 0, Step 0, Step 0, Step 0, Step 0, Step 0]"
  have "map_option (\<lambda>r. ((ev_status (rt_events r ! 0), rt_ran r, ev_status (rt_events r ! sub_event r 0)),
      map_option rt_ran (?b r))) ?a = Some ((St_pending, [0], St_completed), Some [0, 0])" by code_simp
  then obtain r where r: "?a = Some r" and "((ev_status (rt_events r ! 0), rt_ran r,
      ev_status (rt_events r ! sub_event r 0)), map_option rt_ran (?b r))
      = ((St_pending, [0], St_completed), Some [0, 0])" by (rule map_option_SomeE)
  then have "ev_status (rt_events r ! 0) = St_pending" "rt_ran r = [0]"
    "ev_status (rt_events r ! sub_event r 0) = St_completed" "map_option rt_ran (?b r) = Some [0, 0]"
    unfolding prod.inject by blast+
  then show ?thesis using r by (elim map_option_SomeE) blast
qed

text \<open>
  A \<open>resume\<close> that comes after the suspended status is published but before the in-flight flag
  is cleared returns true and does nothing: when all calls are over the submission is suspended, not
  in flight, in no queue, and the resume has reported success.
\<close>
theorem resume_lost:
  "\<exists>r. rt_run (new_runtime 2 1 0) [Call 0 (Api_submit (sub_to ''inline'' Poll_suspend [])),
        Step 0, Step 0, Step 0, Step 0, Step 0, Step 0, Call 1 (Api_resume 0), Step 1, Step 1, Step 0] = Some r
    \<and> list_all (\<lambda>t. th_stack t = []) (rt_threads r) \<and> rt_resumed r = [(0, True)] \<and> rt_ran r = [0]
    \<and> ev_status (rt_events r ! sub_event r 0) = St_suspended
    \<and> \<not> ss_inFlight (rt_subs r ! 0) \<and> queue_own r 0 = 0"
proof -
  let ?a = "rt_run (new_runtime 2 1 0) [Call 0 (Api_submit (sub_to ''inline'' Poll_suspend [])),
        Step 0, Step 0, Step 0, Step 0, Step 0, Step 0, Call 1 (Api_resume 0), Step 1, Step 1, Step 0]"
  have "map_option (\<lambda>r. (list_all (\<lambda>t. th_stack t = []) (rt_threads r), rt_resumed r, rt_ran r,
      ev_status (rt_events r ! sub_event r 0), ss_inFlight (rt_subs r ! 0), queue_own r 0)) ?a
    = Some (True, [(0, True)], [0], St_suspended, False, 0)" by code_simp
  then obtain r where r: "?a = Some r" and "(list_all (\<lambda>t. th_stack t = []) (rt_threads r), rt_resumed r, rt_ran r,
      ev_status (rt_events r ! sub_event r 0), ss_inFlight (rt_subs r ! 0), queue_own r 0)
    = (True, [(0, True)], [0], St_suspended, False, 0)" by (rule map_option_SomeE)
  then show ?thesis unfolding prod.inject by blast
qed

text \<open>
  A submission that passes the running check of a pool before \<open>shutdown\<close> and is enqueued after
  it is lost: the workers have exited, shutdown has returned, every call is over, and its event is
  still pending.
\<close>
theorem submission_lost_at_shutdown:
  "\<exists>r. rt_run (new_runtime 2 1 0) [Call 0 (Api_submit (sub_to ''thread_pool'' Poll_completed [])),
        Step 0, Step 0, Call 1 (Api_shutdown 0), Exit 2, Step 1, Step 0] = Some r
    \<and> list_all (\<lambda>t. th_stack t = [] \<and> th_role t \<noteq> Worker 0) (rt_threads r)
    \<and> pl_queue (rt_pools r ! 0) = [0] \<and> ev_status (rt_events r ! sub_event r 0) = St_pending"
proof -
  let ?a = "rt_run (new_runtime 2 1 0) [Call 0 (Api_submit (sub_to ''thread_pool'' Poll_completed [])),
        Step 0, Step 0, Call 1 (Api_shutdown 0), Exit 2, Step 1, Step 0]"
  have "map_option (\<lambda>r. (list_all (\<lambda>t. th_stack t = [] \<and> th_role t \<noteq> Worker 0) (rt_threads r),
      pl_queue (rt_pools r ! 0), ev_status (rt_events r ! sub_event r 0))) ?a
    = Some (True, [0], St_pending)" by code_simp
  then obtain r where r: "?a = Some r"
    and "(list_all (\<lambda>t. th_stack t = [] \<and> th_role t \<noteq> Worker 0) (rt_threads r),
      pl_queue (rt_pools r ! 0), ev_status (rt_events r ! sub_event r 0)) = (True, [0], St_pending)"
    by (rule map_option_SomeE)
  then show ?thesis unfolding prod.inject by blast
qed

end
