(* ===== verification/Async_Runtime_Seq.thy ===== *)
theory Async_Runtime_Seq
  imports Async_Runtime_Own
begin

text \<open>
  One thread running its frames to the end, which is what a call does when no other thread
  interferes; and what an inline submission without prerequisites amounts to then.
\<close>

text \<open>\<open>drain n fs r\<close> performs the frames \<open>fs\<close>, and what they push, in at most \<open>n\<close> moves.\<close>

fun drain :: "nat \<Rightarrow> frame list \<Rightarrow> 'w runtime \<Rightarrow> 'w runtime option" where
  "drain n [] r = Some r"
| "drain 0 (f # fs) r = None"
| "drain (Suc n) (f # fs) r = (let (gs, r) = micro f r in drain n (gs @ fs) r)"

lemma drain_more: "drain n fs r = Some r' \<Longrightarrow> n \<le> k \<Longrightarrow> drain k fs r = Some r'"
proof (induction n arbitrary: fs r k)
  case 0
  then show ?case by (cases fs) simp_all
next
  case (Suc n)
  then obtain j where j: "k = Suc j" "n \<le> j" by (cases k) auto
  show ?case
  proof (cases fs)
    case (Cons f gs)
    then have "drain n (fst (micro f r) @ gs) (snd (micro f r)) = Some r'"
      using Suc.prems(1) by (simp add: split_beta)
    then have "drain j (fst (micro f r) @ gs) (snd (micro f r)) = Some r'" using Suc.IH j(2) by blast
    then show ?thesis by (simp add: j(1) Cons split_beta)
  qed (use Suc.prems in simp)
qed

text \<open>A frame's move does not look at the stacks.\<close>

lemma set_stack_read [simp]:
  "rt_executors (set_stack i fs r) = rt_executors r" "rt_flags (set_stack i fs r) = rt_flags r"
  "rt_world (set_stack i fs r) = rt_world r" "rt_nextId (set_stack i fs r) = rt_nextId r"
  "sub_event (set_stack i fs r) s = sub_event r s" "get_executor (set_stack i fs r) n = get_executor r n"
  by (simp_all add: set_stack_def sub_event_def get_executor_def)

lemma token_flags_set_stack [simp]: "token_flags (set_stack i fs r) t = token_flags r t"
  by (simp add: token_flags_def split: option.split)

lemma frames_set_stack [simp]:
  "cancel_requested (set_stack i fs r) s = cancel_requested r s"
  "finish_frames (set_stack i fs r) s st = finish_frames r s st"
  "start_frames (set_stack i fs r) s = start_frames r s"
  by (simp_all add: cancel_requested_def finish_frames_def start_frames_def)

lemma workers_alive_set_stack [simp]: "workers_alive p (set_stack i fs r) = workers_alive p r"
proof -
  have "map th_role (rt_threads (set_stack i fs r)) = map th_role (rt_threads r)"
    by (simp add: set_stack_def map_update) (metis list_update_beyond list_update_same_conv length_map
        nth_map not_less)
  then have "set (map th_role (rt_threads (set_stack i fs r))) = set (map th_role (rt_threads r))" by simp
  then show ?thesis unfolding workers_alive_def set_map by (metis (mono_tags, lifting) image_iff)
qed

lemma set_stack_updates:
  "rt_deps_update u (set_stack i fs r) = set_stack i fs (rt_deps_update u r)"
  "rt_called_update c (set_stack i fs r) = set_stack i fs (rt_called_update c r)"
  "rt_ran_update c (set_stack i fs r) = set_stack i fs (rt_ran_update c r)"
  "rt_world_update w (set_stack i fs r) = set_stack i fs (rt_world_update w r)"
  "set_event e v (set_stack i fs r) = set_stack i fs (set_event e v r)"
  "set_inFlight s b (set_stack i fs r) = set_stack i fs (set_inFlight s b r)"
  "pool_push p s (set_stack i fs r) = set_stack i fs (pool_push p s r)"
  "log_resume s b (set_stack i fs r) = set_stack i fs (log_resume s b r)"
  by (simp_all add: set_stack_def set_event_def set_inFlight_def pool_push_def log_resume_def)

lemma micro_set_stack: "micro f (set_stack i fs r) = (fst (micro f r), set_stack i fs (snd (micro f r)))"
  by (cases f) (simp_all add: split_beta call_callback_def dep_note_def dep_countdown_def executor_submit_def
      pool_enqueue_def run_step_def resume_call_def Let_def set_stack_updates
      split: callback.split executor.split option.split)

text \<open>The moves of a thread alone are a drain.\<close>

lemma set_stack_twice [simp]: "set_stack i fs (set_stack i gs r) = set_stack i fs r"
  by (cases "i < length (rt_threads r)") (simp_all add: set_stack_def list_update_beyond)

lemma stack_set_stack [simp]: "i < length (rt_threads r) \<Longrightarrow> stack (set_stack i fs r) i = fs"
  by (simp add: stack_def set_stack_def)

lemma length_threads_set_stack [simp]: "length (rt_threads (set_stack i fs r)) = length (rt_threads r)"
  by (simp add: set_stack_def)

lemma drain_run:
  assumes "drain n fs r = Some r'" and "i < length (rt_threads r)"
  shows "\<exists>k \<le> n. rt_run (set_stack i fs r) (replicate k (Step i)) = Some (set_stack i [] r')"
  using assms
proof (induction n fs r rule: drain.induct)
  case (1 n r)
  then show ?case by (intro exI [of _ 0]) simp
next
  case (3 n f fs r)
  let ?m = "micro f r"
  have d: "drain n (fst ?m @ fs) (snd ?m) = Some r'" using 3(2) by (simp add: split_beta)
  have i: "i < length (rt_threads (snd ?m))" using 3(3) by simp
  obtain k where k: "rt_run (set_stack i (fst ?m @ fs) (snd ?m)) (replicate k (Step i)) = Some (set_stack i [] r')" "k \<le> n"
    using 3(1) [OF refl prod.collapse d i] by blast
  have "rt_do (set_stack i (f # fs) r) (Step i) = Some (set_stack i (fst ?m @ fs) (snd ?m))"
    using 3(3) by (simp add: micro_set_stack)
  then show ?case using k by (intro exI [of _ "Suc k"]) simp
qed simp

lemma drain_threads: "drain n fs r = Some r' \<Longrightarrow> rt_threads r' = rt_threads r"
proof (induction n arbitrary: fs r)
  case 0
  then show ?case by (cases fs) simp_all
next
  case (Suc n)
  show ?case
  proof (cases fs)
    case (Cons f gs)
    then have "drain n (fst (micro f r) @ gs) (snd (micro f r)) = Some r'"
      using Suc.prems(1) by (simp add: split_beta)
    then show ?thesis using Suc.IH by fastforce
  qed (use Suc.prems in simp)
qed

section \<open>An inline submission without prerequisites\<close>

text \<open>What running the step of a submission gives: the poll status and the world.\<close>

definition step_result :: "'w submission \<Rightarrow> u64 \<Rightarrow> u32 \<Rightarrow> 'w \<Rightarrow> poll_status \<times> 'w" where
  "step_result b i flags w = (case sb_step b of None \<Rightarrow> (Poll_failed, w)
     | Some f \<Rightarrow> let (p, w) = f \<lparr>ec_submissionId = i, ec_desc = sb_desc b, ec_endpoint = sb_endpoint b,
           ec_cancellation = sb_cancellation b\<rparr> flags w
         in (case p of None \<Rightarrow> Poll_failed | Some p \<Rightarrow> p, w))"

lemma micro_new_transition:
  assumes "ev_callbacks (rt_events r ! e) = []" and "\<not> is_terminal (ev_status (rt_events r ! e))"
  shows "micro (Fr_transition e st) r = ([], set_event e \<lparr>ev_status = st, ev_callbacks = []\<rparr> r)"
  using assms by (cases "rt_events r ! e") (auto simp: event_transition_def)

lemma inline_submission:
  assumes x: "rt_executors r (sb_executor b) = Some Ex_inline" and p: "sb_prerequisites b = []"
    and s: "submit b r = Some (fs, r1)"
  defines "flags \<equiv> token_flags r (sb_cancellation b)"
  defines "res \<equiv> step_result b (rt_nextId r + 1) flags (rt_world r)"
  shows "\<exists>r2. drain 7 fs r1 = Some r2 \<and> length (rt_subs r2) = Suc (length (rt_subs r))
    \<and> sub_event r2 (length (rt_subs r)) = length (rt_events r)
    \<and> \<not> ss_inFlight (rt_subs r2 ! length (rt_subs r))
    \<and> length (rt_events r2) = Suc (length (rt_events r))
    \<and> (if flags AND 1 \<noteq> 0 \<or> flags AND 2 \<noteq> 0
       then ev_status (rt_events r2 ! length (rt_events r)) = St_cancelled \<and> rt_world r2 = rt_world r
       else ev_status (rt_events r2 ! length (rt_events r)) = poll_task_status (fst res)
         \<and> rt_world r2 = snd res)"
proof -
  let ?s = "length (rt_subs r)" and ?e = "length (rt_events r)" and ?i = "rt_nextId r + 1"
  let ?run = "flags AND 1 = 0 \<and> flags AND 2 = 0"
  have fs: "fs = [Fr_dispatch ?s Ex_inline]" and r1: "r1 = r\<lparr>rt_nextId := ?i, rt_events := rt_events r @ [new_event],
      rt_subs := rt_subs r @ [make_sub b ?i ?e]\<rparr>"
    using s x p by (simp_all add: submit_def get_executor_def Let_def)
  define r2 where "r2 = set_inFlight ?s True r1"
  have sub2: "rt_subs r2 ! ?s = (make_sub b ?i ?e)\<lparr>ss_inFlight := True\<rparr>"
    "length (rt_subs r2) = Suc ?s" "rt_events r2 = rt_events r @ [new_event]"
    by (simp_all add: r2_def r1 set_inFlight_def nth_append)
  have flags2: "token_flags r2 (sb_cancellation b) = flags" "rt_world r2 = rt_world r"
    by (simp_all add: r2_def r1 set_inFlight_def flags_def token_flags_def split: option.split)
  have ev2: "sub_event r2 ?s = ?e" by (simp add: sub_event_def sub2 make_sub_def)
  have canc: "cancel_requested r2 ?s \<longleftrightarrow> \<not> ?run"
    by (auto simp: cancel_requested_def sub2 make_sub_def flags2 Let_def)
  have two: "drain (Suc (Suc n)) fs r1 = drain n (start_frames r2 ?s) r2" for n
  proof -
    have "\<not> ss_inFlight (rt_subs r1 ! ?s)" by (simp add: r1 make_sub_def nth_append)
    then show ?thesis by (simp add: fs executor_submit_def r2_def)
  qed
  have tr: "micro (Fr_transition ?e st) q = ([], set_event ?e \<lparr>ev_status = st, ev_callbacks = []\<rparr> q)"
    if "rt_events q = rt_events r @ [v]" "ev_callbacks v = []" "\<not> is_terminal (ev_status v)" for q v st
    by (rule micro_new_transition) (simp_all add: that nth_append)
  show ?thesis
  proof (cases ?run)
    case False
    let ?q = "set_inFlight ?s False (set_event ?e \<lparr>ev_status = St_cancelled, ev_callbacks = []\<rparr> r2)"
    have "start_frames r2 ?s = [Fr_transition ?e St_cancelled, Fr_release ?s]"
      using False by (simp add: start_frames_def finish_frames_def canc ev2)
    then have "drain (Suc (Suc 5)) fs r1 = Some ?q"
      unfolding two by (simp add: numeral_eq_Suc tr [of r2 new_event] sub2 new_event_def del: micro.simps(1))
    then show ?thesis using False sub2 ev2 flags2
      by (intro exI [of _ ?q]) (auto simp: set_inFlight_def sub_event_def nth_append set_event_def)
  next
    case True
    define q1 where "q1 = set_event ?e \<lparr>ev_status = St_running, ev_callbacks = []\<rparr> r2"
    define q2 where "q2 = snd (run_step ?s q1)"
    let ?st = "poll_task_status (fst res)"
    let ?q = "set_inFlight ?s False (set_event ?e \<lparr>ev_status = ?st, ev_callbacks = []\<rparr> q2)"
    have q1: "rt_subs q1 = rt_subs r2" "rt_world q1 = rt_world r" "token_flags q1 t = token_flags r2 t" for t
      by (simp_all add: q1_def set_event_def flags2 token_flags_def split: option.split)
    have rs: "fst (run_step ?s q1) = fst res" "rt_world q2 = snd res"
      unfolding q2_def run_step_def res_def step_result_def
      by (auto simp: q1 sub2 make_sub_def Let_def split_beta flags2 split: option.splits)
    have q2: "rt_subs q2 = rt_subs r2" "rt_events q2 = rt_events r @ [\<lparr>ev_status = St_running, ev_callbacks = []\<rparr>]"
      by (simp_all add: q2_def q1_def sub2)
    have "start_frames r2 ?s = [Fr_transition ?e St_running, Fr_run ?s]"
      using True by (simp add: start_frames_def canc ev2)
    moreover have "finish_frames q2 ?s st = [Fr_transition ?e st, Fr_release ?s]" for st
      using ev2 by (simp add: finish_frames_def sub_event_def q2)
    moreover have "micro (Fr_run ?s) q1 = ([Fr_finalize ?s (fst res)], q2)"
      by (simp add: split_beta rs q2_def)
    ultimately have "drain (Suc (Suc 5)) fs r1 = Some ?q"
      unfolding two by (simp add: numeral_eq_Suc tr [of r2 new_event] sub2 new_event_def q1_def [symmetric]
          tr [OF q2(2)] del: micro.simps(1) micro.simps(9))
    then show ?thesis using True sub2 ev2 rs q2
      by (intro exI [of _ ?q]) (auto simp: set_inFlight_def sub_event_def nth_append set_event_def)
  qed
qed

text \<open>
  C28: a client that submits to the inline executor without prerequisites, and is not interfered
  with, is done after at most seven atomic moves: the event has the status the step polled, or
  cancelled if the token asked for it, in which case the step has not run.
\<close>
theorem inline_submission_done:
  assumes "rt_executors r (sb_executor b) = Some Ex_inline" and "sb_prerequisites b = []"
    and "rt_do r (Call i (Api_submit b)) = Some r1"
  shows "\<exists>k \<le> 7. \<exists>r2. rt_run r1 (replicate k (Step i)) = Some r2 \<and> stack r2 i = []
    \<and> (let flags = token_flags r (sb_cancellation b);
           res = step_result b (rt_nextId r + 1) flags (rt_world r)
       in if flags AND 1 \<noteq> 0 \<or> flags AND 2 \<noteq> 0
          then ev_status (rt_events r2 ! length (rt_events r)) = St_cancelled \<and> rt_world r2 = rt_world r
          else ev_status (rt_events r2 ! length (rt_events r)) = poll_task_status (fst res)
            \<and> rt_world r2 = snd res)"
proof -
  obtain fs r' where i: "i < length (rt_threads r)" and s: "submit b r = Some (fs, r')"
    and r1: "r1 = set_stack i fs r'"
    using assms(3) by (auto split: if_splits bind_splits)
  have th: "rt_threads r' = rt_threads r" using api_own(1) [of "Api_submit b" r fs r'] s assms(2)
    by (simp add: sub_valid_def)
  from inline_submission [OF assms(1,2) s] obtain r2 where d: "drain 7 fs r' = Some r2"
    and e: "if token_flags r (sb_cancellation b) AND 1 \<noteq> 0 \<or> token_flags r (sb_cancellation b) AND 2 \<noteq> 0
       then ev_status (rt_events r2 ! length (rt_events r)) = St_cancelled \<and> rt_world r2 = rt_world r
       else ev_status (rt_events r2 ! length (rt_events r))
           = poll_task_status (fst (step_result b (rt_nextId r + 1) (token_flags r (sb_cancellation b)) (rt_world r)))
         \<and> rt_world r2 = snd (step_result b (rt_nextId r + 1) (token_flags r (sb_cancellation b)) (rt_world r))"
    by blast
  obtain k where k: "k \<le> 7" "rt_run r1 (replicate k (Step i)) = Some (set_stack i [] r2)"
    using drain_run [OF d, of i] i th by (auto simp: r1)
  have "length (rt_threads r2) = length (rt_threads r)" using drain_threads [OF d] th by simp
  then have "stack (set_stack i [] r2) i = []" using i by simp
  then show ?thesis using k e unfolding Let_def
    by (intro exI [of _ k] conjI exI [of _ "set_stack i [] r2"]) (simp_all only: set_stack_frame set_stack_read)
qed

theorem inline_submission_done_witness:
  "\<exists>r1 k r2. rt_do (new_runtime 1 1 0) (Call 0 (Api_submit (sub_to ''inline'' Poll_suspend []))) = Some r1
    \<and> rt_run r1 (replicate k (Step 0)) = Some r2 \<and> stack r2 0 = []
    \<and> ev_status (rt_events r2 ! 0) = St_suspended \<and> rt_world r2 = 1"
proof -
  let ?r = "new_runtime 1 1 (0 :: nat)" and ?b = "sub_to ''inline'' Poll_suspend []"
  have x: "rt_executors ?r (sb_executor ?b) = Some Ex_inline" "sb_prerequisites ?b = []"
    by (simp_all add: new_runtime_def sub_to_def)
  have "rt_do ?r (Call 0 (Api_submit ?b)) \<noteq> None"
    by (simp add: sub_valid_def x submit_def get_executor_def Let_def stack_def)
      (simp add: new_runtime_def sub_to_def)
  then obtain r1 where r1: "rt_do ?r (Call 0 (Api_submit ?b)) = Some r1" by blast
  have "step_result ?b (rt_nextId ?r + 1) 0 (rt_world ?r) = (Poll_suspend, 1)"
    by (simp add: step_result_def sub_to_def poll_step_def new_runtime_def)
  moreover have "token_flags ?r (sb_cancellation ?b) = 0" "length (rt_events ?r) = 0"
    by (simp_all add: token_flags_def sub_to_def new_runtime_def)
  ultimately show ?thesis using inline_submission_done [OF x r1] r1
    by (auto simp: Let_def poll_task_status_def)
qed

end
