(* ===== verification/Resource_Manager.thy ===== *)
theory Resource_Manager
  imports Async_Runtime_Seq "HOL-Library.AList"
begin

text \<open>
  \<open>AsyncResourceManager\<close> of \<open>execution/AsyncResourceManager.hpp\<close>. The manager's entries are the
  world of the runtime's steps, so that maintenance, a submission like any other, runs against them.
  A payload is an address (0 is null) and its destruction is recorded; a user's maintenance callback
  is a function of its contexts, of the token's flags and of a world of the user's, and may throw.
  The map from identifiers is an association list in the order of its iteration.
\<close>

section \<open>Data\<close>

datatype maint_kind = Mk_refresh | Mk_compact | Mk_evict | Mk_custom

datatype disposition = Md_scheduled | Md_not_found | Md_busy | Md_leased | Md_retired

record res_descriptor =
  rd_label :: string
  rd_executor :: string
  rd_endpoint :: endpoint
  rd_domain :: async_domain
  rd_queue :: queue_class
  rd_bytes :: nat
  rd_staleAfterEpochs :: u64
  rd_priority :: int
  rd_allowMaintenanceWhileLeased :: bool
  rd_evictWhenStale :: bool

record maint_request =
  mr_kind :: maint_kind
  mr_label :: string
  mr_requireIdle :: bool
  mr_requireDirty :: bool
  mr_clearDirtyOnSuccess :: bool
  mr_retireOnSuccess :: bool

record maint_context =
  mc_resource :: u64
  mc_descriptor :: res_descriptor
  mc_payload :: nat
  mc_request :: maint_request
  mc_epoch :: u64
  mc_leaseCount :: u64

type_synonym 'u maintain = "exec_context \<Rightarrow> u32 \<Rightarrow> maint_context \<Rightarrow> 'u \<Rightarrow> poll_status option \<times> 'u"

record 'u entry =
  en_handle :: u64
  en_descriptor :: res_descriptor
  en_maintain :: "'u maintain option"
  en_destroy :: bool
  en_payload :: nat
  en_leaseCount :: u64
  en_lastAccessEpoch :: u64
  en_dirty :: bool
  en_retired :: bool
  en_busy :: bool

record 'u manager =
  mg_entries :: "'u entry list"
  mg_map :: "(u64 \<times> nat) list"
  mg_nextId :: u64
  mg_epoch :: u64
  mg_destroyed :: "nat list"
  mg_user :: 'u

record manager_stats =
  st_total :: nat
  st_leased :: nat
  st_dirty :: nat
  st_busy :: nat
  st_retired :: nat

record snapshot =
  sn_leaseCount :: u64
  sn_lastAccessEpoch :: u64
  sn_dirty :: bool
  sn_busy :: bool
  sn_retired :: bool
  sn_stale :: bool

record ticket =
  tk_resource :: u64
  tk_disposition :: disposition
  tk_submission :: "nat option"

definition ticket_scheduled :: "ticket \<Rightarrow> bool" where
  "ticket_scheduled t \<longleftrightarrow> tk_disposition t = Md_scheduled \<and> tk_submission t \<noteq> None"

definition res_handle_valid :: "u64 \<Rightarrow> bool" where
  "res_handle_valid h \<longleftrightarrow> h \<noteq> 0"

definition new_manager :: "'u \<Rightarrow> 'u manager" where
  "new_manager u = \<lparr>mg_entries = [], mg_map = [], mg_nextId = 0, mg_epoch = 0, mg_destroyed = [], mg_user = u\<rparr>"

section \<open>Entries\<close>

definition entry :: "'u manager \<Rightarrow> nat \<Rightarrow> 'u entry" where
  "entry m e = mg_entries m ! e"

definition set_entry :: "nat \<Rightarrow> ('u entry \<Rightarrow> 'u entry) \<Rightarrow> 'u manager \<Rightarrow> 'u manager" where
  "set_entry e f m = m\<lparr>mg_entries := (mg_entries m)[e := f (entry m e)]\<rparr>"

definition destroy_payload_if_needed :: "nat \<Rightarrow> 'u manager \<Rightarrow> 'u manager" where
  "destroy_payload_if_needed e m =
     (let en = entry m e in
      if en_payload en = 0 \<or> \<not> en_destroy en then m
      else (set_entry e (\<lambda>en. en\<lparr>en_payload := 0\<rparr>) m)\<lparr>mg_destroyed := mg_destroyed m @ [en_payload en]\<rparr>)"

definition release_lease :: "nat \<Rightarrow> 'u manager \<Rightarrow> 'u manager" where
  "release_lease e m =
     (let remaining = en_leaseCount (entry m e) - 1;
          m = set_entry e (\<lambda>en. en\<lparr>en_leaseCount := remaining\<rparr>) m
      in if remaining = 0 \<and> en_retired (entry m e) \<and> \<not> en_busy (entry m e)
         then destroy_payload_if_needed e m else m)"

section \<open>Leases\<close>

text \<open>A lease holds an entry or is empty.\<close>

definition lease_handle :: "'u manager \<Rightarrow> nat option \<Rightarrow> u64" where
  "lease_handle m l = (case l of None \<Rightarrow> 0 | Some e \<Rightarrow> en_handle (entry m e))"

definition lease_descriptor :: "'u manager \<Rightarrow> nat option \<Rightarrow> res_descriptor option" where
  "lease_descriptor m l = map_option (\<lambda>e. en_descriptor (entry m e)) l"

definition lease_payload :: "'u manager \<Rightarrow> nat option \<Rightarrow> nat" where
  "lease_payload m l = (case l of None \<Rightarrow> 0 | Some e \<Rightarrow> en_payload (entry m e))"

definition lease_valid :: "'u manager \<Rightarrow> nat option \<Rightarrow> bool" where
  "lease_valid m l = (case l of None \<Rightarrow> False | Some e \<Rightarrow> \<not> en_retired (entry m e))"

definition lease_reset :: "nat option \<Rightarrow> 'u manager \<Rightarrow> nat option \<times> 'u manager" where
  "lease_reset l m = (case l of None \<Rightarrow> (None, m) | Some e \<Rightarrow> (None, release_lease e m))"

text \<open>Move assignment: what the target held is released, the source is left empty.\<close>

definition lease_assign :: "nat option \<Rightarrow> nat option \<Rightarrow> 'u manager \<Rightarrow> nat option \<times> nat option \<times> 'u manager" where
  "lease_assign dst src m = (src, None, snd (lease_reset dst m))"

section \<open>The manager's operations\<close>

definition register_resource ::
    "res_descriptor \<Rightarrow> 'u maintain option \<Rightarrow> bool \<Rightarrow> nat \<Rightarrow> 'u manager \<Rightarrow> u64 \<times> 'u manager" where
  "register_resource d f destroy payload m =
     (let i = mg_nextId m + 1;
          en = \<lparr>en_handle = i, en_descriptor = d, en_maintain = f, en_destroy = destroy,
                en_payload = payload, en_leaseCount = 0, en_lastAccessEpoch = mg_epoch m,
                en_dirty = False, en_retired = False, en_busy = False\<rparr>
      in (i, m\<lparr>mg_nextId := i, mg_entries := mg_entries m @ [en],
               mg_map := AList.update i (length (mg_entries m)) (mg_map m)\<rparr>))"

definition find_entry :: "'u manager \<Rightarrow> u64 \<Rightarrow> nat option" where
  "find_entry m h = map_of (mg_map m) h"

definition acquire :: "u64 \<Rightarrow> 'u manager \<Rightarrow> nat option \<times> 'u manager" where
  "acquire h m = (case find_entry m h of
     None \<Rightarrow> (None, m)
   | Some e \<Rightarrow> if en_retired (entry m e) then (None, m)
       else (Some e, set_entry e (\<lambda>en. en\<lparr>en_leaseCount := en_leaseCount en + 1,
               en_lastAccessEpoch := mg_epoch m\<rparr>) m))"

definition contains_resource :: "'u manager \<Rightarrow> u64 \<Rightarrow> bool" where
  "contains_resource m h \<longleftrightarrow> find_entry m h \<noteq> None"

definition is_stale :: "'u entry \<Rightarrow> u64 \<Rightarrow> bool" where
  "is_stale en epoch =
     (let staleAfter = rd_staleAfterEpochs (en_descriptor en) in
      if staleAfter = 0 then False
      else let lastAccess = en_lastAccessEpoch en
           in lastAccess \<le> epoch \<and> staleAfter \<le> epoch - lastAccess)"

definition describe :: "'u manager \<Rightarrow> u64 \<Rightarrow> (res_descriptor \<times> snapshot) option" where
  "describe m h = map_option (\<lambda>e. let en = entry m e in (en_descriptor en,
     \<lparr>sn_leaseCount = en_leaseCount en, sn_lastAccessEpoch = en_lastAccessEpoch en,
      sn_dirty = en_dirty en, sn_busy = en_busy en, sn_retired = en_retired en,
      sn_stale = is_stale en (mg_epoch m)\<rparr>)) (find_entry m h)"

definition touch :: "u64 \<Rightarrow> 'u manager \<Rightarrow> bool \<times> 'u manager" where
  "touch h m = (case find_entry m h of
     None \<Rightarrow> (False, m)
   | Some e \<Rightarrow> if en_retired (entry m e) then (False, m)
       else (True, set_entry e (\<lambda>en. en\<lparr>en_lastAccessEpoch := mg_epoch m\<rparr>) m))"

definition mark_dirty :: "u64 \<Rightarrow> bool \<Rightarrow> 'u manager \<Rightarrow> bool \<times> 'u manager" where
  "mark_dirty h dirty m = (case find_entry m h of
     None \<Rightarrow> (False, m)
   | Some e \<Rightarrow> if en_retired (entry m e) then (False, m)
       else let m = set_entry e (\<lambda>en. en\<lparr>en_dirty := dirty\<rparr>) m
            in (True, if dirty then set_entry e (\<lambda>en. en\<lparr>en_lastAccessEpoch := mg_epoch m\<rparr>) m else m))"

definition is_dirty :: "'u manager \<Rightarrow> u64 \<Rightarrow> bool" where
  "is_dirty m h = (case find_entry m h of None \<Rightarrow> False | Some e \<Rightarrow> en_dirty (entry m e))"

definition advance_epoch :: "u64 \<Rightarrow> 'u manager \<Rightarrow> u64 \<times> 'u manager" where
  "advance_epoch delta m = (mg_epoch m + delta, m\<lparr>mg_epoch := mg_epoch m + delta\<rparr>)"

section \<open>Maintenance\<close>

definition maint_step :: "nat \<Rightarrow> maint_request \<Rightarrow> u64 \<Rightarrow> 'u manager astep" where
  "maint_step e req scheduledEpoch ctx flags m =
     (let en = entry m e;
          mc = \<lparr>mc_resource = en_handle en, mc_descriptor = en_descriptor en, mc_payload = en_payload en,
                mc_request = req, mc_epoch = scheduledEpoch, mc_leaseCount = en_leaseCount en\<rparr>;
          (res, u) = (case en_maintain en of None \<Rightarrow> (Some Poll_completed, mg_user m)
                      | Some f \<Rightarrow> f ctx flags mc (mg_user m));
          m = m\<lparr>mg_user := u\<rparr>
      in case res of None \<Rightarrow> (None, m)
         | Some result \<Rightarrow>
           let ok = (result = Poll_completed);
               m = (if ok then set_entry e (\<lambda>en. en\<lparr>
                      en_dirty := (if mr_clearDirtyOnSuccess req then False else en_dirty en),
                      en_lastAccessEpoch := scheduledEpoch,
                      en_retired := (if mr_retireOnSuccess req then True else en_retired en)\<rparr>) m else m);
               m = (if result \<noteq> Poll_suspend then
                      let m = set_entry e (\<lambda>en. en\<lparr>en_busy := False\<rparr>) m
                      in if mr_retireOnSuccess req \<and> ok \<and> en_leaseCount (entry m e) = 0
                         then destroy_payload_if_needed e m else m
                    else m)
           in (Some (if flags AND 1 \<noteq> 0 \<or> flags AND 2 \<noteq> 0 then Poll_cancelled else result), m))"

definition maint_submission ::
    "'u entry \<Rightarrow> nat \<Rightarrow> maint_request \<Rightarrow> u64 \<Rightarrow> nat list \<Rightarrow> nat option \<Rightarrow> bool \<Rightarrow> 'u manager submission" where
  "maint_submission en e req epoch pres cancel stop =
     (let d = en_descriptor en in
      \<lparr>sb_executor = rd_executor d,
       sb_desc = default_task_desc\<lparr>
         td_label := (if length (mr_label req) \<noteq> 0 then mr_label req else rd_label d),
         td_domain := rd_domain d, td_queue := rd_queue d, td_priority := rd_priority d\<rparr>,
       sb_endpoint = rd_endpoint d, sb_step = Some (maint_step e req epoch),
       sb_prerequisites = pres, sb_cancellation = cancel, sb_stopOnPrerequisiteFailure = stop\<rparr>)"

definition skip :: "u64 \<Rightarrow> disposition \<Rightarrow> 'w runtime \<Rightarrow> ticket option \<times> frame list \<times> 'w runtime" where
  "skip h d r = (Some \<lparr>tk_resource = h, tk_disposition = d, tk_submission = None\<rparr>, [], r)"

definition set_world :: "'w \<Rightarrow> 'w runtime \<Rightarrow> 'w runtime" where
  "set_world w r = r\<lparr>rt_world := w\<rparr>"

text \<open>
  The ticket, the calls the submission still has to make, and the runtime; no ticket when the
  runtime throws, the in-flight mark being taken back.
\<close>

definition schedule_maintenance ::
    "u64 \<Rightarrow> maint_request \<Rightarrow> nat list \<Rightarrow> nat option \<Rightarrow> bool \<Rightarrow> 'u manager runtime
      \<Rightarrow> ticket option \<times> frame list \<times> 'u manager runtime" where
  "schedule_maintenance h req pres cancel stop r =
     (let m = rt_world r in
      case find_entry m h of None \<Rightarrow> skip h Md_not_found r
      | Some e \<Rightarrow>
        let en = entry m e;
            requireIdle = mr_requireIdle req \<or> \<not> rd_allowMaintenanceWhileLeased (en_descriptor en)
        in if en_retired en then skip h Md_retired r
           else if requireIdle \<and> en_leaseCount en \<noteq> 0 then skip h Md_leased r
           else if mr_requireDirty req \<and> \<not> en_dirty en then skip h Md_not_found r
           else if en_busy en then skip h Md_busy r
           else let r' = set_world (set_entry e (\<lambda>en. en\<lparr>en_busy := True\<rparr>) m) r
                in case submit (maint_submission en e req (mg_epoch m) pres cancel stop) r' of
                     None \<Rightarrow> (None, [], set_world (set_entry e (\<lambda>en. en\<lparr>en_busy := False\<rparr>) (rt_world r')) r')
                   | Some (fs, r'') \<Rightarrow>
                       (Some \<lparr>tk_resource = h, tk_disposition = Md_scheduled,
                              tk_submission = Some (length (rt_subs r))\<rparr>, fs, r''))"

text \<open>
  The loop over a snapshot of the entries; each submission makes its calls before the next entry is
  looked at. No list of tickets when a submission throws; no result when \<open>n\<close> moves are not enough
  for one of them.
\<close>

fun stale_loop :: "nat \<Rightarrow> nat list \<Rightarrow> u64 \<Rightarrow> maint_request \<Rightarrow> ticket list \<Rightarrow> 'u manager runtime
    \<Rightarrow> (ticket list option \<times> 'u manager runtime) option" where
  "stale_loop n [] epoch req ts r = Some (Some ts, r)"
| "stale_loop n (e # es) epoch req ts r =
     (let en = entry (rt_world r) e in
      if en_retired en then stale_loop n es epoch req ts r
      else if \<not> is_stale en epoch then stale_loop n es epoch req ts r
      else if \<not> rd_evictWhenStale (en_descriptor en) \<and> mr_kind req = Mk_evict then stale_loop n es epoch req ts r
      else if mr_requireDirty req \<and> \<not> en_dirty en then stale_loop n es epoch req ts r
      else case schedule_maintenance (en_handle en) req [] None True r of
             (None, _, r) \<Rightarrow> Some (None, r)
           | (Some t, fs, r) \<Rightarrow> (case drain n fs r of None \<Rightarrow> None
                | Some r \<Rightarrow> stale_loop n es epoch req (ts @ [t]) r))"

definition schedule_stale_maintenance ::
    "nat \<Rightarrow> maint_request \<Rightarrow> 'u manager runtime \<Rightarrow> (ticket list option \<times> 'u manager runtime) option" where
  "schedule_stale_maintenance n req r =
     stale_loop n (map snd (mg_map (rt_world r))) (mg_epoch (rt_world r)) req [] r"

section \<open>Collection, statistics and the end\<close>

definition collectable :: "'u entry \<Rightarrow> bool" where
  "collectable en \<longleftrightarrow> en_retired en \<and> en_leaseCount en = 0 \<and> \<not> en_busy en"

fun collect_loop :: "(u64 \<times> nat) list \<Rightarrow> 'u manager \<Rightarrow> nat \<times> (u64 \<times> nat) list \<times> 'u manager" where
  "collect_loop [] m = (0, [], m)"
| "collect_loop ((i, e) # kvs) m =
     (if collectable (entry m e)
      then let (k, kept, m) = collect_loop kvs (destroy_payload_if_needed e m) in (k + 1, kept, m)
      else let (k, kept, m) = collect_loop kvs m in (k, (i, e) # kept, m))"

definition collect_retired :: "'u manager \<Rightarrow> nat \<times> 'u manager" where
  "collect_retired m = (let (k, kept, m) = collect_loop (mg_map m) m in (k, m\<lparr>mg_map := kept\<rparr>))"

definition count_entry :: "'u entry \<Rightarrow> manager_stats \<Rightarrow> manager_stats" where
  "count_entry en s =
     s\<lparr>st_leased := st_leased s + (if en_leaseCount en \<noteq> 0 then 1 else 0),
       st_dirty := st_dirty s + (if en_dirty en then 1 else 0),
       st_busy := st_busy s + (if en_busy en then 1 else 0),
       st_retired := st_retired s + (if en_retired en then 1 else 0)\<rparr>"

definition manager_stats_of :: "'u manager \<Rightarrow> manager_stats" where
  "manager_stats_of m = foldl (\<lambda>s kv. count_entry (entry m (snd kv)) s)
     \<lparr>st_total = length (mg_map m), st_leased = 0, st_dirty = 0, st_busy = 0, st_retired = 0\<rparr> (mg_map m)"

definition destroy_manager :: "'u manager \<Rightarrow> 'u manager" where
  "destroy_manager m = foldl (\<lambda>m kv. destroy_payload_if_needed (snd kv) m) (m\<lparr>mg_map := []\<rparr>) (mg_map m)"

end
