(* ===== verification/Resource_Props.thy ===== *)
theory Resource_Props
  imports Resource_Manager
begin

text \<open>
  What the resource manager guarantees: leases protect payloads, payloads are destroyed once and not
  leaked, staleness without wrap-around, collection, and what a maintenance submission does to its
  entry, including the cases in which it leaves the entry busy for ever.
\<close>

section \<open>Entry updates\<close>

lemma entry_set_entry [simp]:
  "e < length (mg_entries m) \<Longrightarrow> entry (set_entry e f m) i = (if i = e then f (entry m e) else entry m i)"
  by (simp add: entry_def set_entry_def)

lemma set_entry_frame [simp]:
  "length (mg_entries (set_entry e f m)) = length (mg_entries m)" "mg_map (set_entry e f m) = mg_map m"
  "mg_nextId (set_entry e f m) = mg_nextId m" "mg_epoch (set_entry e f m) = mg_epoch m"
  "mg_destroyed (set_entry e f m) = mg_destroyed m" "mg_user (set_entry e f m) = mg_user m"
  by (simp_all add: set_entry_def)

lemma entry_cong [simp]:
  "entry (mg_user_update u m) e = entry m e" "entry (mg_destroyed_update d m) e = entry m e"
  "entry (mg_map_update k m) e = entry m e" "entry (mg_epoch_update x m) e = entry m e"
  by (simp_all add: entry_def)

lemma destroy_frame [simp]:
  "length (mg_entries (destroy_payload_if_needed e m)) = length (mg_entries m)"
  "mg_map (destroy_payload_if_needed e m) = mg_map m" "mg_nextId (destroy_payload_if_needed e m) = mg_nextId m"
  "mg_epoch (destroy_payload_if_needed e m) = mg_epoch m" "mg_user (destroy_payload_if_needed e m) = mg_user m"
  by (simp_all add: destroy_payload_if_needed_def Let_def)

lemma entry_destroy:
  "e < length (mg_entries m) \<Longrightarrow> entry (destroy_payload_if_needed e m) i =
    (if i = e \<and> en_destroy (entry m e) then (entry m e)\<lparr>en_payload := 0\<rparr> else entry m i)"
  by (auto simp: destroy_payload_if_needed_def Let_def)

section \<open>Programs over the manager\<close>

text \<open>
  The manager's operations as atomic moves, with the leases that are out. \<open>Mo_begin\<close> and \<open>Mo_run\<close> are
  the two halves of a maintenance: what scheduling does to the entry, and one run of the step.
\<close>

datatype 'u mg_op =
  Mo_register res_descriptor "'u maintain option" bool nat
| Mo_acquire u64
| Mo_release nat
| Mo_touch u64
| Mo_mark u64 bool
| Mo_advance u64
| Mo_begin nat
| Mo_run nat maint_request u64 exec_context u32
| Mo_collect

type_synonym 'u mg_state = "'u manager \<times> nat list"

fun mg_do :: "'u mg_op \<Rightarrow> 'u mg_state \<Rightarrow> 'u mg_state option" where
  "mg_do (Mo_register d f b p) (m, ls) = Some (snd (register_resource d f b p m), ls)"
| "mg_do (Mo_acquire h) (m, ls) = (case acquire h m of (None, m) \<Rightarrow> Some (m, ls) | (Some e, m) \<Rightarrow> Some (m, e # ls))"
| "mg_do (Mo_release e) (m, ls) = (if e \<in> set ls then Some (snd (lease_reset (Some e) m), remove1 e ls) else None)"
| "mg_do (Mo_touch h) (m, ls) = Some (snd (touch h m), ls)"
| "mg_do (Mo_mark h b) (m, ls) = Some (snd (mark_dirty h b m), ls)"
| "mg_do (Mo_advance d) (m, ls) = Some (snd (advance_epoch d m), ls)"
| "mg_do (Mo_begin e) (m, ls) =
     (if e < length (mg_entries m) \<and> \<not> en_retired (entry m e) \<and> \<not> en_busy (entry m e)
      then Some (set_entry e (\<lambda>en. en\<lparr>en_busy := True\<rparr>) m, ls) else None)"
| "mg_do (Mo_run e req ep ctx flags) (m, ls) =
     (if e < length (mg_entries m) \<and> en_busy (entry m e)
      then Some (snd (maint_step e req ep ctx flags m), ls) else None)"
| "mg_do Mo_collect (m, ls) = Some (snd (collect_retired m), ls)"

fun mg_run :: "'u mg_op list \<Rightarrow> 'u mg_state \<Rightarrow> 'u mg_state option" where
  "mg_run [] s = Some s"
| "mg_run (x # xs) s = Option.bind (mg_do x s) (mg_run xs)"

fun registered :: "'u mg_op \<Rightarrow> nat list" where
  "registered (Mo_register d f b p) = [p]"
| "registered _ = []"

section \<open>The invariant of an entry\<close>

text \<open>
  \<open>p\<close> is the payload the entry was registered with and \<open>k\<close> the number of its leases that are out.
\<close>

definition entry_inv :: "nat \<Rightarrow> nat \<Rightarrow> 'u entry \<Rightarrow> bool" where
  "entry_inv p k en \<longleftrightarrow> en_leaseCount en = of_nat k \<and> (en_retired en \<longrightarrow> \<not> en_busy en) \<and>
     (en_payload en = p \<or> en_payload en = 0 \<and> en_destroy en \<and> en_retired en \<and> k = 0)"

text \<open>A retired entry nobody holds has no payload left to destroy.\<close>

definition tidy :: "nat \<Rightarrow> 'u entry \<Rightarrow> bool" where
  "tidy k en \<longleftrightarrow> (en_retired en \<and> k = 0 \<and> en_destroy en \<longrightarrow> en_payload en = 0)"

definition destroyed_of :: "nat list \<Rightarrow> 'u manager \<Rightarrow> nat list" where
  "destroyed_of ps m = map ((!) ps) (filter (\<lambda>e. ps ! e \<noteq> 0 \<and> en_payload (entry m e) = 0) [0..<length ps])"

definition mg_inv :: "nat list \<Rightarrow> 'u mg_state \<Rightarrow> bool" where
  "mg_inv ps s \<longleftrightarrow> (case s of (m, ls) \<Rightarrow>
     length (mg_entries m) = length ps \<and> set ls \<subseteq> {0..<length ps} \<and>
     (\<forall>kv \<in> set (mg_map m). snd kv < length ps) \<and>
     (\<forall>e < length ps. entry_inv (ps ! e) (count_list ls e) (entry m e)) \<and>
     mset (mg_destroyed m) = mset (destroyed_of ps m))"

text \<open>An operation that changes one entry and no payload.\<close>

lemma mg_inv_update:
  assumes "mg_inv ps (m, ls)" and "e < length ps"
    and "en_payload (f (entry m e)) = en_payload (entry m e)"
    and "entry_inv (ps ! e) (count_list ls' e) (f (entry m e))"
    and "\<And>i. i \<noteq> e \<Longrightarrow> count_list ls' i = count_list ls i" and "set ls' \<subseteq> {0..<length ps}"
  shows "mg_inv ps (set_entry e f m, ls')"
proof -
  have len: "e < length (mg_entries m)" using assms(1,2) by (simp add: mg_inv_def)
  then have "destroyed_of ps (set_entry e f m) = destroyed_of ps m"
    using assms(3) by (auto simp: destroyed_of_def intro!: arg_cong [where f = "map ((!) ps)"] filter_cong)
  then show ?thesis using assms len by (auto simp: mg_inv_def)
qed

lemma mg_inv_frame:
  assumes "mg_inv ps (m, ls)" and "mg_entries m' = mg_entries m" and "mg_destroyed m' = mg_destroyed m"
    and "\<forall>kv \<in> set (mg_map m'). snd kv < length ps"
  shows "mg_inv ps (m', ls)"
  using assms by (simp add: mg_inv_def entry_def destroyed_of_def)

text \<open>Destroying the payload of a retired entry that nobody holds.\<close>

lemma destroyed_of_destroy:
  assumes "e < length ps" and "length (mg_entries m) = length ps" and "en_payload (entry m e) = ps ! e"
    and "ps ! e \<noteq> 0" and "en_destroy (entry m e)"
  shows "mset (destroyed_of ps (destroy_payload_if_needed e m)) = add_mset (ps ! e) (mset (destroyed_of ps m))"
proof -
  let ?P = "\<lambda>m e. ps ! e \<noteq> 0 \<and> en_payload (entry m e) = 0"
  let ?m = "destroy_payload_if_needed e m"
  have l: "e < length (mg_entries m)" using assms(1,2) by simp
  have "?P ?m = (\<lambda>i. ?P m i \<or> i = e)"
    by (rule ext) (use assms(3-5) entry_destroy [OF l] in auto)
  moreover have "mset (filter (\<lambda>i. ?P m i \<or> i = e) [0..<length ps]) = add_mset e (mset (filter (?P m) [0..<length ps]))"
    by (rule mset_filter_or) (use assms in auto)
  ultimately have "mset (filter (?P ?m) [0..<length ps]) = add_mset e (mset (filter (?P m) [0..<length ps]))"
    by (simp only:)
  then show ?thesis unfolding destroyed_of_def mset_map by simp
qed

lemma mg_inv_destroy:
  assumes inv: "mg_inv ps (m, ls)" and e: "e < length ps"
    and r: "en_retired (entry m e)" "count_list ls e = 0"
  shows "mg_inv ps (destroy_payload_if_needed e m, ls)"
    and "tidy (count_list ls e) (entry (destroy_payload_if_needed e m) e)"
    and "i \<noteq> e \<Longrightarrow> entry (destroy_payload_if_needed e m) i = entry m i"
proof -
  let ?m = "destroy_payload_if_needed e m"
  have l: "e < length (mg_entries m)" "length (mg_entries m) = length ps" using inv e by (simp_all add: mg_inv_def)
  have ei: "entry_inv (ps ! e) 0 (entry m e)" using inv e r(2) by (auto simp: mg_inv_def)
  show "tidy (count_list ls e) (entry ?m e)" by (simp add: tidy_def entry_destroy [OF l(1)])
  show "i \<noteq> e \<Longrightarrow> entry ?m i = entry m i" by (simp add: entry_destroy [OF l(1)])
  show "mg_inv ps (?m, ls)"
  proof (cases "en_payload (entry m e) = 0 \<or> \<not> en_destroy (entry m e)")
    case True
    then have "?m = m" by (auto simp: destroy_payload_if_needed_def Let_def)
    then show ?thesis using inv by simp
  next
    case False
    then have p: "en_payload (entry m e) = ps ! e" "ps ! e \<noteq> 0" "en_destroy (entry m e)"
      using ei by (auto simp: entry_inv_def)
    have "mset (destroyed_of ps ?m) = add_mset (ps ! e) (mset (destroyed_of ps m))"
      by (rule destroyed_of_destroy [OF e l(2) p])
    moreover have "mg_destroyed ?m = mg_destroyed m @ [ps ! e]"
      using p False by (simp add: destroy_payload_if_needed_def Let_def)
    moreover have "entry_inv (ps ! e) 0 (entry ?m e)"
      using ei p r(1) by (simp add: entry_destroy [OF l(1)] entry_inv_def)
    ultimately show ?thesis using inv r(2) by (auto simp: mg_inv_def entry_destroy [OF l(1)])
  qed
qed

section \<open>Every operation keeps the invariant\<close>

definition mg_ok :: "nat list \<Rightarrow> 'u mg_state \<Rightarrow> bool" where
  "mg_ok ps s \<longleftrightarrow> mg_inv ps s \<and>
     (\<forall>e < length ps. tidy (count_list (snd s) e) (entry (fst s) e))"

lemma mg_ok_update:
  assumes "mg_ok ps (m, ls)" and "e < length ps"
    and "en_payload (f (entry m e)) = en_payload (entry m e)"
    and "entry_inv (ps ! e) (count_list ls' e) (f (entry m e))" and "tidy (count_list ls' e) (f (entry m e))"
    and "\<And>i. i \<noteq> e \<Longrightarrow> count_list ls' i = count_list ls i" and "set ls' \<subseteq> {0..<length ps}"
  shows "mg_ok ps (set_entry e f m, ls')"
proof -
  have "e < length (mg_entries m)" using assms(1,2) by (simp add: mg_ok_def mg_inv_def)
  moreover have "mg_inv ps (set_entry e f m, ls')"
    by (rule mg_inv_update [where f = f and ls = ls]) (use assms in \<open>simp_all add: mg_ok_def\<close>)
  ultimately show ?thesis using assms by (auto simp: mg_ok_def)
qed

text \<open>The same for an operation after which the payload of the entry is destroyed.\<close>

lemma mg_ok_update_destroy:
  assumes "mg_ok ps (m, ls)" and "e < length ps"
    and "en_payload (f (entry m e)) = en_payload (entry m e)"
    and "entry_inv (ps ! e) (count_list ls' e) (f (entry m e))"
    and "en_retired (f (entry m e))" "count_list ls' e = 0"
    and "\<And>i. i \<noteq> e \<Longrightarrow> count_list ls' i = count_list ls i" and "set ls' \<subseteq> {0..<length ps}"
  shows "mg_ok ps (destroy_payload_if_needed e (set_entry e f m), ls')"
proof -
  let ?m = "set_entry e f m"
  have l: "e < length (mg_entries m)" using assms(1,2) by (simp add: mg_ok_def mg_inv_def)
  have i: "mg_inv ps (?m, ls')"
    by (rule mg_inv_update [where f = f and ls = ls]) (use assms in \<open>simp_all add: mg_ok_def\<close>)
  have r: "en_retired (entry ?m e)" using assms(5) l by simp
  have "tidy (count_list ls' j) (entry (destroy_payload_if_needed e ?m) j)" if "j < length ps" for j
  proof (cases "j = e")
    case False
    then have "entry (destroy_payload_if_needed e ?m) j = entry m j"
      using mg_inv_destroy(3) [OF i assms(2) r assms(6)] l by simp
    then show ?thesis using assms(1,7) False that by (simp add: mg_ok_def)
  qed (use mg_inv_destroy(2) [OF i assms(2) r assms(6)] in simp)
  then show ?thesis using mg_inv_destroy(1) [OF i assms(2) r assms(6)] by (simp add: mg_ok_def)
qed

lemma mg_ok_frame:
  assumes "mg_ok ps (m, ls)" and "mg_entries m' = mg_entries m" and "mg_destroyed m' = mg_destroyed m"
    and "mg_map m' = mg_map m"
  shows "mg_ok ps (m', ls)"
  using assms mg_inv_frame [of ps m ls m'] by (auto simp: mg_ok_def mg_inv_def entry_def)

lemma find_entry_bound:
  assumes "mg_ok ps (m, ls)" and "find_entry m h = Some e" shows "e < length ps"
  using assms map_of_SomeD by (fastforce simp: mg_ok_def mg_inv_def find_entry_def)

lemma entry_ok:
  assumes "mg_ok ps (m, ls)" and "e < length ps"
  shows "entry_inv (ps ! e) (count_list ls e) (entry m e)" and "tidy (count_list ls e) (entry m e)"
    and "set ls \<subseteq> {0..<length ps}" and "e < length (mg_entries m)"
  using assms by (auto simp: mg_ok_def mg_inv_def)

lemma set_update_subset: "set (AList.update k v al) \<subseteq> insert (k, v) (set al)"
  by (induction al) auto

lemma register_ok:
  assumes "mg_ok ps (m, ls)"
  shows "mg_ok (ps @ [p]) (snd (register_resource d f b p m), ls)"
proof -
  let ?m = "snd (register_resource d f b p m)"
  have i: "mg_inv ps (m, ls)" and t: "\<forall>e < length ps. tidy (count_list ls e) (entry m e)"
    using assms by (simp_all add: mg_ok_def)
  have l: "length (mg_entries m) = length ps" using i by (simp add: mg_inv_def)
  have old: "entry ?m e = entry m e" if "e < length ps" for e
    using that l by (simp add: register_resource_def entry_def Let_def nth_append)
  have new: "entry_inv p 0 (entry ?m (length ps))" "tidy 0 (entry ?m (length ps))"
     "en_payload (entry ?m (length ps)) = p"
    using l by (simp_all add: register_resource_def entry_def Let_def nth_append entry_inv_def tidy_def)
  have "length ps \<notin> set ls" using i by (auto simp: mg_inv_def)
  then have z: "count_list ls (length ps) = 0" by (simp add: count_list_0_iff)
  have "destroyed_of (ps @ [p]) ?m = destroyed_of ps m"
    using new(3) old unfolding destroyed_of_def
    by (auto simp: nth_append intro!: map_cong filter_cong)
  moreover have "mg_map ?m = AList.update (mg_nextId m + 1) (length ps) (mg_map m)"
    "mg_destroyed ?m = mg_destroyed m" "length (mg_entries ?m) = Suc (length ps)"
    using l by (simp_all add: register_resource_def Let_def)
  moreover have "snd kv < Suc (length ps)"
    if "kv \<in> set (AList.update (mg_nextId m + 1) (length ps) (mg_map m))" for kv
    using set_update_subset that i by (fastforce simp: mg_inv_def)
  ultimately show ?thesis using i t old new z
    by (auto simp: mg_ok_def mg_inv_def nth_append less_Suc_eq)
qed

lemma acquire_ok:
  assumes "mg_ok ps (m, ls)" and a: "acquire h m = (l, m')"
  shows "mg_ok ps (m', (case l of None \<Rightarrow> ls | Some e \<Rightarrow> e # ls))"
proof (cases l)
  case None
  then have "m' = m" using a by (auto simp: acquire_def split: option.splits if_splits)
  then show ?thesis using assms None by simp
next
  case (Some e)
  let ?f = "\<lambda>en. en\<lparr>en_leaseCount := en_leaseCount en + 1, en_lastAccessEpoch := mg_epoch m\<rparr>"
  have e: "find_entry m h = Some e" "\<not> en_retired (entry m e)" "m' = set_entry e ?f m"
    using a Some by (auto simp: acquire_def split: option.splits if_splits)
  note b = find_entry_bound [OF assms(1) e(1)]
  have "mg_ok ps (set_entry e ?f m, e # ls)"
    by (rule mg_ok_update [OF assms(1) b])
      (use entry_ok [OF assms(1) b] e(2) b in \<open>auto simp: entry_inv_def tidy_def\<close>)
  then show ?thesis by (simp add: Some e(3))
qed

lemma count_remove1: "count_list (remove1 x xs) y = count_list xs y - (if y = x then 1 else 0)"
  by (induction xs) (auto simp: count_list_0_iff)

lemma of_nat_pred_zero:
  assumes "(of_nat k :: u64) - 1 = 0" and "0 < k" and "k < 2 ^ 64" shows "k = 1"
proof -
  have "(of_nat k :: u64) = of_nat 1" using assms(1) by simp
  then have "take_bit 64 k = take_bit 64 1" by (simp add: word_unat_eq_iff unsigned_of_nat)
  then show ?thesis using assms(2,3) by (simp add: take_bit_nat_eq_self)
qed

lemma release_ok:
  assumes ok: "mg_ok ps (m, ls)" and e: "e \<in> set ls" and n: "length ls < 2 ^ 64"
  shows "mg_ok ps (release_lease e m, remove1 e ls)"
proof -
  let ?f = "\<lambda>en. en\<lparr>en_leaseCount := en_leaseCount (entry m e) - 1\<rparr>" and ?ls = "remove1 e ls"
  have b: "e < length ps" using entry_ok(3) [OF ok] ok e by (auto simp: mg_ok_def mg_inv_def)
  note en = entry_ok [OF ok b]
  let ?k = "count_list ls e"
  have k: "0 < ?k" "?k < 2 ^ 64"
    using e count_le_length [of ls e] n count_list_0_iff [of ls e] by (auto simp del: count_list_0_iff)
  have len: "en_leaseCount (entry m e) = of_nat ?k" using en(1) by (simp add: entry_inv_def)
  have c: "count_list ?ls e = ?k - 1" "\<And>i. i \<noteq> e \<Longrightarrow> count_list ?ls i = count_list ls i"
    by (simp_all add: count_remove1)
  have s: "set ?ls \<subseteq> {0..<length ps}" using en(3) set_remove1_subset by fastforce
  have f: "entry_inv (ps ! e) (?k - 1) (?f (entry m e))"
    using en(1) k by (auto simp: entry_inv_def of_nat_diff)
  show ?thesis
  proof (cases "en_leaseCount (entry m e) - 1 = 0 \<and> en_retired (entry m e) \<and> \<not> en_busy (entry m e)")
    case True
    then have "?k = 1" using of_nat_pred_zero [of ?k] k len by simp
    then have "mg_ok ps (destroy_payload_if_needed e (set_entry e ?f m), ?ls)"
      using f True c by (intro mg_ok_update_destroy [OF ok b _ _ _ _ _ s]) simp_all
    then show ?thesis using True en(4) by (simp add: release_lease_def Let_def)
  next
    case False
    have "tidy (?k - 1) (?f (entry m e))"
      using en(1) False k unfolding tidy_def entry_inv_def by (cases "?k = 1") auto
    then have "mg_ok ps (set_entry e ?f m, ?ls)"
      using f c by (intro mg_ok_update [OF ok b _ _ _ _ s]) simp_all
    then show ?thesis using False en(4) by (auto simp: release_lease_def Let_def)
  qed
qed

lemma flag_update_ok:
  assumes ok: "mg_ok ps (m, ls)" and e: "find_entry m h = Some e" "\<not> en_retired (entry m e)"
    and f: "\<And>en. en_payload (f en) = en_payload en" "\<And>en. en_leaseCount (f en) = en_leaseCount en"
      "\<And>en. en_retired (f en) = en_retired en" "\<And>en. en_busy (f en) = en_busy en"
      "\<And>en. en_destroy (f en) = en_destroy en"
  shows "mg_ok ps (set_entry e f m, ls)"
proof -
  note b = find_entry_bound [OF ok e(1)]
  show ?thesis
    by (rule mg_ok_update [OF ok b])
      (use entry_ok [OF ok b] e(2) f in \<open>simp_all add: entry_inv_def tidy_def\<close>)
qed

lemma touch_ok: "mg_ok ps (m, ls) \<Longrightarrow> mg_ok ps (snd (touch h m), ls)"
  by (auto simp: touch_def intro!: flag_update_ok [where h = h] split: option.split)

lemma set_entry_twice:
  "e < length (mg_entries m) \<Longrightarrow> set_entry e g (set_entry e f m) = set_entry e (\<lambda>en. g (f en)) m"
  by (simp add: set_entry_def entry_def)

lemma mark_dirty_ok:
  assumes ok: "mg_ok ps (m, ls)"
  shows "mg_ok ps (snd (mark_dirty h d m), ls)"
proof (cases "find_entry m h")
  case None
  then show ?thesis using ok by (simp add: mark_dirty_def)
next
  case (Some e)
  note b = find_entry_bound [OF ok Some]
  then show ?thesis using ok entry_ok(4) [OF ok b] Some
    by (auto simp: mark_dirty_def Let_def set_entry_twice intro!: flag_update_ok [where h = h])
qed

lemma begin_ok:
  assumes ok: "mg_ok ps (m, ls)" and b: "e < length ps" and r: "\<not> en_retired (entry m e)"
  shows "mg_ok ps (set_entry e (\<lambda>en. en\<lparr>en_busy := True\<rparr>) m, ls)"
  by (rule mg_ok_update [OF ok b]) (use entry_ok [OF ok b] r in \<open>auto simp: entry_inv_def tidy_def\<close>)

section \<open>A run of a maintenance step\<close>

text \<open>What the step does to the entry, given what the callback returned.\<close>

definition maint_update :: "maint_request \<Rightarrow> u64 \<Rightarrow> poll_status option \<Rightarrow> 'u entry \<Rightarrow> 'u entry" where
  "maint_update req epoch res en =
     (if res = Some Poll_completed then en\<lparr>
        en_dirty := (en_dirty en \<and> \<not> mr_clearDirtyOnSuccess req), en_lastAccessEpoch := epoch,
        en_retired := (en_retired en \<or> mr_retireOnSuccess req), en_busy := False\<rparr>
      else if res = None \<or> res = Some Poll_suspend then en
      else en\<lparr>en_busy := False\<rparr>)"

definition maint_result :: "nat \<Rightarrow> maint_request \<Rightarrow> u64 \<Rightarrow> exec_context \<Rightarrow> u32 \<Rightarrow> 'u manager
    \<Rightarrow> poll_status option \<times> 'u" where
  "maint_result e req ep ctx flags m =
     (let en = entry m e in case en_maintain en of None \<Rightarrow> (Some Poll_completed, mg_user m)
      | Some f \<Rightarrow> f ctx flags \<lparr>mc_resource = en_handle en, mc_descriptor = en_descriptor en, mc_payload = en_payload en,
          mc_request = req, mc_epoch = ep, mc_leaseCount = en_leaseCount en\<rparr> (mg_user m))"

lemma set_entry_id: "set_entry e (\<lambda>en. en) m = m"
  by (simp add: set_entry_def entry_def)

lemma maint_step_world:
  fixes m :: "'u manager" and req :: maint_request and ep :: u64 and ctx :: exec_context and flags :: u32
  assumes l: "e < length (mg_entries m)"
  defines "res \<equiv> maint_result e req ep ctx flags m"
  defines "m' \<equiv> set_entry e (maint_update req ep (fst res)) (m\<lparr>mg_user := snd res\<rparr>)"
  shows "snd (maint_step e req ep ctx flags m) =
    (if mr_retireOnSuccess req \<and> fst res = Some Poll_completed \<and> en_leaseCount (entry m e) = 0
     then destroy_payload_if_needed e m' else m')"
proof -
  let ?m = "m\<lparr>mg_user := snd res\<rparr>"
  have l': "e < length (mg_entries ?m)" using l by simp
  have upd: "maint_update req ep (Some Poll_completed) = (\<lambda>en. en\<lparr>
       en_dirty := (if mr_clearDirtyOnSuccess req then False else en_dirty en), en_lastAccessEpoch := ep,
       en_retired := (if mr_retireOnSuccess req then True else en_retired en), en_busy := False\<rparr>)"
    "maint_update req ep None = (\<lambda>en. en)" "maint_update req ep (Some Poll_suspend) = (\<lambda>en. en)"
    "p \<noteq> Poll_completed \<Longrightarrow> p \<noteq> Poll_suspend \<Longrightarrow>
      maint_update req ep (Some p) = (\<lambda>en. en\<lparr>en_busy := False\<rparr>)" for p
    by (auto simp: maint_update_def fun_eq_iff)
  have r: "maint_step e req ep ctx flags m = (let (res, u) = res; m = m\<lparr>mg_user := u\<rparr>
      in case res of None \<Rightarrow> (None, m)
         | Some result \<Rightarrow>
           let ok = (result = Poll_completed);
               m = (if ok then set_entry e (\<lambda>en. en\<lparr>
                      en_dirty := (if mr_clearDirtyOnSuccess req then False else en_dirty en),
                      en_lastAccessEpoch := ep,
                      en_retired := (if mr_retireOnSuccess req then True else en_retired en)\<rparr>) m else m);
               m = (if result \<noteq> Poll_suspend then
                      let m = set_entry e (\<lambda>en. en\<lparr>en_busy := False\<rparr>) m
                      in if mr_retireOnSuccess req \<and> ok \<and> en_leaseCount (entry m e) = 0
                         then destroy_payload_if_needed e m else m
                    else m)
           in (Some (if flags AND 1 \<noteq> 0 \<or> flags AND 2 \<noteq> 0 then Poll_cancelled else result), m))"
    unfolding maint_step_def res_def maint_result_def Let_def by simp
  show ?thesis
  proof (cases "fst res")
    case None
    then show ?thesis unfolding r m'_def by (simp add: split_beta upd set_entry_id)
  next
    case (Some p)
    then show ?thesis using l' unfolding r m'_def
      by (cases p) (simp_all add: split_beta Let_def upd set_entry_id set_entry_twice)
  qed
qed

lemma of_nat_zero:
  assumes "(of_nat k :: u64) = 0" and "k < 2 ^ 64" shows "k = 0"
proof -
  have "unat (of_nat k :: u64) = 0" using assms(1) by simp
  then show ?thesis using assms(2) by (simp add: unsigned_of_nat take_bit_nat_eq_self)
qed

lemma maint_step_ok:
  assumes ok: "mg_ok ps (m, ls)" and b: "e < length ps" and busy: "en_busy (entry m e)"
    and n: "length ls < 2 ^ 64"
  shows "mg_ok ps (snd (maint_step e req ep ctx flags m), ls)"
proof -
  let ?res = "maint_result e req ep ctx flags m"
  let ?m = "m\<lparr>mg_user := snd ?res\<rparr>" and ?f = "maint_update req ep (fst ?res)"
  have ok': "mg_ok ps (?m, ls)" by (rule mg_ok_frame [OF ok]) simp_all
  note en = entry_ok [OF ok' b] and l = entry_ok(4) [OF ok b]
  have nr: "\<not> en_retired (entry ?m e)" using en(1) busy by (auto simp: entry_inv_def)
  have p: "en_payload (?f (entry ?m e)) = en_payload (entry ?m e)"
    and i: "entry_inv (ps ! e) (count_list ls e) (?f (entry ?m e))"
    using en(1) by (auto simp: maint_update_def entry_inv_def)
  show ?thesis
  proof (cases "mr_retireOnSuccess req \<and> fst ?res = Some Poll_completed \<and> en_leaseCount (entry m e) = 0")
    case True
    have "en_leaseCount (entry m e) = of_nat (count_list ls e)"
      using entry_ok(1) [OF ok b] by (simp add: entry_inv_def)
    then have k: "count_list ls e = 0"
      using True of_nat_zero [of "count_list ls e"] count_le_length [of ls e] n by simp
    have "mg_ok ps (destroy_payload_if_needed e (set_entry e ?f ?m), ls)"
      by (rule mg_ok_update_destroy [where f = ?f, OF ok' b p i])
        (use True k en(3) in \<open>simp_all add: maint_update_def\<close>)
    then show ?thesis unfolding maint_step_world [OF l] using True by simp
  next
    case False
    have "tidy (count_list ls e) (?f (entry ?m e))"
      using False nr en(1) by (auto simp: maint_update_def tidy_def entry_inv_def)
    then have "mg_ok ps (set_entry e ?f ?m, ls)" 
      by (intro mg_ok_update [where f = ?f, OF ok' b p i]) (use en(3) in simp_all)
    then show ?thesis unfolding maint_step_world [OF l] using False by auto
  qed
qed

section \<open>Collection\<close>

lemma destroy_ok:
  assumes ok: "mg_ok ps (m, ls)" and b: "e < length ps" and r: "en_retired (entry m e)" "count_list ls e = 0"
  shows "mg_ok ps (destroy_payload_if_needed e m, ls)"
  using mg_ok_update_destroy [OF ok b, of "\<lambda>en. en" ls] entry_ok [OF ok b] r by (simp add: set_entry_id)

lemma collect_loop_ok:
  assumes "mg_ok ps (m, ls)" and "\<forall>kv \<in> set kvs. snd kv < length ps" and "length ls < 2 ^ 64"
  shows "mg_ok ps (snd (snd (collect_loop kvs m)), ls)
    \<and> set (fst (snd (collect_loop kvs m))) \<subseteq> set kvs"
  using assms(1,2)
proof (induction kvs m rule: collect_loop.induct)
  case (2 i e kvs m)
  have b: "e < length ps" using 2(4) by simp
  have len: "en_leaseCount (entry m e) = of_nat (count_list ls e)"
    using entry_ok(1) [OF 2(3) b] by (simp add: entry_inv_def)
  show ?case
  proof (cases "collectable (entry m e)")
    case True
    then have "count_list ls e = 0"
      using len of_nat_zero [of "count_list ls e"] count_le_length [of ls e] assms(3)
      by (simp add: collectable_def)
    then have "mg_ok ps (destroy_payload_if_needed e m, ls)"
      using destroy_ok [OF 2(3) b] True by (simp add: collectable_def)
    then show ?thesis using 2(1) [OF True] 2(4) True by (auto simp: split_beta)
  next
    case False
    then show ?thesis using 2(2) [OF False] 2(3,4) by (auto simp: split_beta)
  qed
qed simp

lemma mg_ok_map:
  assumes "mg_ok ps (m, ls)" and "\<forall>kv \<in> set k. snd kv < length ps"
  shows "mg_ok ps (m\<lparr>mg_map := k\<rparr>, ls)"
  using assms mg_inv_frame [of ps m ls "m\<lparr>mg_map := k\<rparr>"] by (simp add: mg_ok_def)

lemma collect_ok:
  assumes "mg_ok ps (m, ls)" and "length ls < 2 ^ 64"
  shows "mg_ok ps (snd (collect_retired m), ls)"
proof -
  have b: "\<forall>kv \<in> set (mg_map m). snd kv < length ps" using assms(1) by (simp add: mg_ok_def mg_inv_def)
  from collect_loop_ok [OF assms(1) b assms(2)] b show ?thesis
    by (auto simp: collect_retired_def split_beta Let_def intro!: mg_ok_map)
qed

section \<open>Leases and payloads\<close>

lemma advance_ok: "mg_ok ps (m, ls) \<Longrightarrow> mg_ok ps (snd (advance_epoch d m), ls)"
  by (rule mg_ok_frame) (simp_all add: advance_epoch_def)

lemma mg_do_ok:
  assumes ok: "mg_ok ps (m, ls)" and n: "length ls < 2 ^ 64" and d: "mg_do x (m, ls) = Some s'"
  shows "mg_ok (ps @ registered x) s' \<and> length (snd s') \<le> Suc (length ls)"
proof -
  have len: "length (mg_entries m) = length ps" using ok by (simp add: mg_ok_def mg_inv_def)
  show ?thesis
  proof (cases x)
    case (Mo_acquire h)
    obtain l m' where a: "acquire h m = (l, m')" by fastforce
    then show ?thesis using d acquire_ok [OF ok a] Mo_acquire by (auto split: option.splits)
  next
    case (Mo_release e)
    then show ?thesis using d release_ok [OF ok _ n]
      by (auto simp: lease_reset_def length_remove1 split: if_splits)
  qed (use d ok n len in \<open>auto simp: register_ok touch_ok mark_dirty_ok begin_ok
      maint_step_ok collect_ok advance_ok split: if_splits\<close>)
qed

lemma mg_run_ok:
  assumes "mg_ok ps (m, ls)" and "length ls + length xs < 2 ^ 64" and "mg_run xs (m, ls) = Some s'"
  shows "mg_ok (ps @ concat (map registered xs)) s'"
  using assms
proof (induction xs arbitrary: ps m ls)
  case (Cons x xs)
  obtain m1 ls1 where d: "mg_do x (m, ls) = Some (m1, ls1)" and r: "mg_run xs (m1, ls1) = Some s'"
    using Cons.prems(3) by (auto split: bind_splits)
  from mg_do_ok [OF Cons.prems(1) _ d] Cons.prems(2)
  have "mg_ok (ps @ registered x) (m1, ls1)" "length ls1 + length xs < 2 ^ 64" by simp_all
  from Cons.IH [OF this r] show ?case by simp
qed simp


definition plain_desc :: "string \<Rightarrow> u64 \<Rightarrow> res_descriptor" where
  "plain_desc x n = \<lparr>rd_label = ''r'', rd_executor = x, rd_endpoint = make_host_endpoint Be_inline_host Qc_compute [], rd_domain = Dom_thread,
     rd_queue = Qc_compute, rd_bytes = 0, rd_staleAfterEpochs = n, rd_priority = 0,
     rd_allowMaintenanceWhileLeased = True, rd_evictWhenStale = True\<rparr>"

definition evict_request :: maint_request where
  "evict_request = \<lparr>mr_kind = Mk_evict, mr_label = [], mr_requireIdle = False, mr_requireDirty = False,
     mr_clearDirtyOnSuccess = True, mr_retireOnSuccess = True\<rparr>"

definition lease_program :: "nat mg_op list" where
  "lease_program = [Mo_register (plain_desc ''inline'' 2) None True 7, Mo_acquire 1, Mo_begin 0,
     Mo_run 0 evict_request 0 \<lparr>ec_submissionId = 1, ec_desc = default_task_desc,
       ec_endpoint = make_host_endpoint Be_inline_host Qc_compute [], ec_cancellation = None\<rparr> 0,
     Mo_register (plain_desc ''inline'' 2) None True 8, Mo_release 0]"


section \<open>Staleness\<close>

text \<open>
  A resource is stale when its policy asks for it and the last access is at least that many
  epochs old, in true arithmetic: the unsigned subtraction never wraps, and a resource touched in a
  later epoch than the one compared with is not stale.
\<close>
theorem stale_without_wrap:
  "is_stale en epoch \<longleftrightarrow> rd_staleAfterEpochs (en_descriptor en) \<noteq> 0
     \<and> unat (en_lastAccessEpoch en) + unat (rd_staleAfterEpochs (en_descriptor en)) \<le> unat epoch"
proof (cases "en_lastAccessEpoch en \<le> epoch")
  case True
  then have "unat (epoch - en_lastAccessEpoch en) = unat epoch - unat (en_lastAccessEpoch en)"
    by (rule unat_sub)
  then show ?thesis using True by (auto simp: is_stale_def Let_def word_le_nat_alt)
next
  case False
  then show ?thesis by (auto simp: is_stale_def Let_def word_le_nat_alt)
qed

section \<open>Collection\<close>

lemma entry_destroy_any:
  "entry (destroy_payload_if_needed e m) i = entry m i
   \<or> entry (destroy_payload_if_needed e m) i = (entry m i)\<lparr>en_payload := 0\<rparr>"
  by (cases "e < length (mg_entries m)")
    (auto simp: destroy_payload_if_needed_def set_entry_def entry_def Let_def list_update_beyond)

lemma collectable_destroy [simp]:
  "collectable (entry (destroy_payload_if_needed e m) i) = collectable (entry m i)"
  using entry_destroy_any [of e m i] by (auto simp: collectable_def)

lemma collect_loop_spec:
  "fst (collect_loop kvs m) = length (filter (\<lambda>kv. collectable (entry m (snd kv))) kvs)
   \<and> fst (snd (collect_loop kvs m)) = filter (\<lambda>kv. \<not> collectable (entry m (snd kv))) kvs
   \<and> (\<forall>i. collectable (entry (snd (snd (collect_loop kvs m))) i) = collectable (entry m i))"
  by (induction kvs m rule: collect_loop.induct) (auto simp: split_beta)

lemma stats_total: "st_total (manager_stats_of m) = length (mg_map m)"
proof -
  have "st_total (foldl (\<lambda>s kv. count_entry (entry m (snd kv)) s) s kvs) = st_total s" for s and kvs :: "(u64 \<times> nat) list"
    by (induction kvs arbitrary: s) (simp_all add: count_entry_def)
  then show ?thesis by (simp add: manager_stats_of_def)
qed

lemma stats_retired: "st_retired (manager_stats_of m) = length (filter (\<lambda>kv. en_retired (entry m (snd kv))) (mg_map m))"
proof -
  have "st_retired (foldl (\<lambda>s kv. count_entry (entry m (snd kv)) s) s kvs)
      = st_retired s + length (filter (\<lambda>kv. en_retired (entry m (snd kv))) kvs)" for s and kvs :: "(u64 \<times> nat) list"
    by (induction kvs arbitrary: s) (simp_all add: count_entry_def)
  then show ?thesis by (simp add: manager_stats_of_def)
qed

text \<open>
  Collection removes exactly the resources that are retired, idle and without leases, returns
  their number, and keeps the others in order; the total falls by that number and a second
  collection finds nothing.
\<close>
theorem collect_retired_spec:
  "fst (collect_retired m) = length (filter (\<lambda>kv. collectable (entry m (snd kv))) (mg_map m))
   \<and> mg_map (snd (collect_retired m)) = filter (\<lambda>kv. \<not> collectable (entry m (snd kv))) (mg_map m)
   \<and> st_total (manager_stats_of (snd (collect_retired m))) + fst (collect_retired m) = st_total (manager_stats_of m)
   \<and> fst (collect_retired (snd (collect_retired m))) = 0"
proof -
  let ?c = "\<lambda>kv. collectable (entry m (snd kv))" and ?m = "snd (collect_retired m)"
  note s = collect_loop_spec [of "mg_map m" m]
  have 1: "fst (collect_retired m) = length (filter ?c (mg_map m))"
    and 2: "mg_map ?m = filter (\<lambda>kv. \<not> ?c kv) (mg_map m)"
    and 3: "\<And>i. collectable (entry ?m i) = collectable (entry m i)"
    using s by (simp_all add: collect_retired_def split_beta Let_def)
  have "fst (collect_retired ?m) = length (filter (\<lambda>kv. collectable (entry ?m (snd kv))) (mg_map ?m))"
    using collect_loop_spec [of "mg_map ?m" ?m] by (simp add: collect_retired_def [of ?m] split_beta Let_def)
  then have "fst (collect_retired ?m) = 0" by (simp add: 2 3 o_def)
  moreover have "length (filter (\<lambda>kv. \<not> ?c kv) (mg_map m)) + length (filter ?c (mg_map m)) = length (mg_map m)"
    using sum_length_filter_compl [of ?c "mg_map m"] by simp
  ultimately show ?thesis using 1 2 by (simp add: stats_total)
qed

section \<open>The outcome of a maintenance\<close>

lemma set_world_read [simp]:
  "rt_world (set_world w r) = w" "rt_executors (set_world w r) = rt_executors r" "rt_subs (set_world w r) = rt_subs r"
  "rt_events (set_world w r) = rt_events r" "rt_nextId (set_world w r) = rt_nextId r"
  "rt_flags (set_world w r) = rt_flags r"
  by (simp_all add: set_world_def)

lemma token_flags_set_world [simp]: "token_flags (set_world w r) t = token_flags r t"
  by (simp add: token_flags_def split: option.split)

lemma scheduled_submit:
  assumes "schedule_maintenance h req pres cancel stop r = (Some t, fs, r1)" and "tk_disposition t = Md_scheduled"
    and "find_entry (rt_world r) h = Some e"
  shows "submit (maint_submission (entry (rt_world r) e) e req (mg_epoch (rt_world r)) pres cancel stop)
      (set_world (set_entry e (\<lambda>en. en\<lparr>en_busy := True\<rparr>) (rt_world r)) r) = Some (fs, r1)"
    and "\<not> en_busy (entry (rt_world r) e)" and "\<not> en_retired (entry (rt_world r) e)"
    and "tk_submission t = Some (length (rt_subs r))"
  using assms by (auto simp: schedule_maintenance_def skip_def Let_def split: if_splits option.splits)

text \<open>The context in which the step of a submission without interference runs.\<close>

definition maint_exec_context :: "'u entry \<Rightarrow> nat \<Rightarrow> maint_request \<Rightarrow> u64 \<Rightarrow> nat option \<Rightarrow> u64 \<Rightarrow> exec_context" where
  "maint_exec_context en e req ep cancel i =
     (let b = maint_submission en e req ep [] cancel True
      in \<lparr>ec_submissionId = i, ec_desc = sb_desc b, ec_endpoint = sb_endpoint b, ec_cancellation = cancel\<rparr>)"

lemma maint_step_status:
  "fst (maint_step e req ep ctx flags m) = (case fst (maint_result e req ep ctx flags m) of
     None \<Rightarrow> None | Some p \<Rightarrow> Some (if flags AND 1 \<noteq> 0 \<or> flags AND 2 \<noteq> 0 then Poll_cancelled else p))"
  by (simp add: maint_step_def maint_result_def Let_def split_beta split: option.split)

lemma maint_step_entry:
  assumes "e < length (mg_entries m)"
  shows "(entry (snd (maint_step e req ep ctx flags m)) e)\<lparr>en_payload := p\<rparr>
    = (maint_update req ep (fst (maint_result e req ep ctx flags m)) (entry m e))\<lparr>en_payload := p\<rparr>"
  using assms by (auto simp: maint_step_world entry_destroy)

text \<open>
  Maintenance scheduled on the inline executor and not interfered with ends within seven moves.
  If the token asks for it, the callback does not run, the event is cancelled and the resource is as
  scheduling left it, busy. Otherwise the event has the status the callback returned (failed if it
  threw) and the resource is updated accordingly: after a completion it is idle, accessed in the
  epoch of the scheduling, clean and retired as the request says; after a suspension or a throw it
  is still busy; else it is idle and otherwise unchanged.
\<close>
theorem maintenance_outcome:
  assumes s: "schedule_maintenance h req [] cancel stop r = (Some t, fs, r1)" "tk_disposition t = Md_scheduled"
    and e: "find_entry (rt_world r) h = Some e" "e < length (mg_entries (rt_world r))"
    and x: "rt_executors r (rd_executor (en_descriptor (entry (rt_world r) e))) = Some Ex_inline"
  defines "m \<equiv> set_entry e (\<lambda>en. en\<lparr>en_busy := True\<rparr>) (rt_world r)"
    and "flags \<equiv> token_flags r cancel"
  defines "ctx \<equiv> maint_exec_context (entry (rt_world r) e) e req (mg_epoch m) cancel (rt_nextId r + 1)"
  defines "res \<equiv> fst (maint_result e req (mg_epoch m) ctx flags m)"
  shows "\<exists>r2. drain 7 fs r1 = Some r2 \<and> mg_map (rt_world r2) = mg_map (rt_world r) \<and>
    (if flags AND 1 \<noteq> 0 \<or> flags AND 2 \<noteq> 0
     then ev_status (rt_events r2 ! length (rt_events r)) = St_cancelled \<and> rt_world r2 = m
     else ev_status (rt_events r2 ! length (rt_events r))
            = (case res of None \<Rightarrow> St_failed | Some p \<Rightarrow> poll_task_status p)
       \<and> (entry (rt_world r2) e)\<lparr>en_payload := en_payload (entry m e)\<rparr>
            = maint_update req (mg_epoch m) res (entry m e))"
proof -
  let ?en = "entry (rt_world r) e" and ?r = "set_world m r"
  let ?b = "maint_submission ?en e req (mg_epoch (rt_world r)) [] cancel stop"
  have sub: "submit ?b ?r = Some (fs, r1)" using scheduled_submit(1) [OF s e(1)] by (simp add: m_def)
  have b: "rt_executors ?r (sb_executor ?b) = Some Ex_inline" "sb_prerequisites ?b = []"
      "sb_cancellation ?b = cancel" "sb_step ?b = Some (maint_step e req (mg_epoch m))"
    using x by (simp_all add: maint_submission_def Let_def m_def)
  have ctx: "ctx = \<lparr>ec_submissionId = rt_nextId r + 1, ec_desc = sb_desc ?b, ec_endpoint = sb_endpoint ?b,
      ec_cancellation = cancel\<rparr>"
    by (simp add: ctx_def maint_exec_context_def maint_submission_def Let_def m_def)
  let ?s = "maint_step e req (mg_epoch m) ctx flags m"
  have res: "step_result ?b (rt_nextId r + 1) flags m = (case fst ?s of None \<Rightarrow> Poll_failed | Some p \<Rightarrow> p, snd ?s)"
    unfolding step_result_def b ctx by (simp add: split_beta)
  have l: "e < length (mg_entries m)" using e(2) by (simp add: m_def)
  have map: "mg_map m = mg_map (rt_world r)" "mg_map (snd ?s) = mg_map m"
    by (simp add: m_def) (simp add: maint_step_world [OF l])
  have upd: "(entry (snd ?s) e)\<lparr>en_payload := en_payload (entry m e)\<rparr> = maint_update req (mg_epoch m) res (entry m e)"
    unfolding maint_step_entry [OF l] res_def by (simp add: maint_update_def)
  from inline_submission [OF b(1,2) sub] show ?thesis
    unfolding b(3) token_flags_set_world set_world_read flags_def [symmetric] res
    using upd map by (auto simp: maint_step_status res_def poll_task_status_def split: option.splits)
qed

text \<open>
  Maintenance that is cancelled before it runs, or whose callback throws, finishes its event
  without taking the in-flight mark back: the resource is never collected, and no later request on
  it schedules anything.
\<close>
theorem failed_maintenance_stays_busy:
  assumes s: "schedule_maintenance h req [] cancel stop r = (Some t, fs, r1)" "tk_disposition t = Md_scheduled"
    and e: "find_entry (rt_world r) h = Some e" "e < length (mg_entries (rt_world r))"
    and x: "rt_executors r (rd_executor (en_descriptor (entry (rt_world r) e))) = Some Ex_inline"
  defines "m \<equiv> set_entry e (\<lambda>en. en\<lparr>en_busy := True\<rparr>) (rt_world r)"
    and "flags \<equiv> token_flags r cancel"
  defines "ctx \<equiv> maint_exec_context (entry (rt_world r) e) e req (mg_epoch m) cancel (rt_nextId r + 1)"
  assumes bad: "flags AND 1 \<noteq> 0 \<or> flags AND 2 \<noteq> 0 \<or> fst (maint_result e req (mg_epoch m) ctx flags m) = None"
  shows "\<exists>r2. drain 7 fs r1 = Some r2 \<and> is_terminal (ev_status (rt_events r2 ! length (rt_events r)))
    \<and> \<not> collectable (entry (rt_world r2) e)
    \<and> (\<forall>req' pres cancel' stop'. \<exists>d. d \<noteq> Md_scheduled
        \<and> schedule_maintenance h req' pres cancel' stop' r2 = skip h d r2)"
proof -
  let ?p = "en_payload (entry m e)"
  from maintenance_outcome [OF s e x] bad obtain r2 where d: "drain 7 fs r1 = Some r2"
    "is_terminal (ev_status (rt_events r2 ! length (rt_events r)))" "mg_map (rt_world r2) = mg_map (rt_world r)"
    and w: "rt_world r2 = m \<or> (entry (rt_world r2) e)\<lparr>en_payload := ?p\<rparr> = entry m e"
    unfolding m_def [symmetric] flags_def [symmetric] ctx_def [unfolded m_def flags_def, symmetric]
    by (auto simp: maint_update_def m_def flags_def ctx_def split: if_splits)
  have "(entry (rt_world r2) e)\<lparr>en_payload := ?p\<rparr> = entry m e" using w by auto
  then have "en_busy ((entry (rt_world r2) e)\<lparr>en_payload := ?p\<rparr>)" using e(2) by (simp add: m_def)
  then have b: "en_busy (entry (rt_world r2) e)" "find_entry (rt_world r2) h = Some e"
    using e(1) d(3) by (simp_all add: find_entry_def)
  then have "\<exists>d. d \<noteq> Md_scheduled \<and> schedule_maintenance h req' pres cancel' stop' r2 = skip h d r2"
    for req' pres cancel' stop'
    unfolding schedule_maintenance_def Let_def by auto
  then show ?thesis using d b(1) by (auto simp: collectable_def)
qed

text \<open>A manager with one resource whose callback throws when the user's world is zero.\<close>

definition throwing :: "nat maintain" where
  "throwing ctx flags mc u = (if u = 0 then None else Some Poll_completed, u + 1)"

definition one_resource :: "nat \<Rightarrow> nat manager runtime" where
  "one_resource u = new_runtime 1 1 (snd (register_resource (plain_desc ''inline'' 2) (Some throwing) True 7 (new_manager u)))"

lemma one_resource_simps:
  "rt_world (one_resource u) = \<lparr>mg_entries = [\<lparr>en_handle = 1, en_descriptor = plain_desc ''inline'' 2,
      en_maintain = Some throwing, en_destroy = True, en_payload = 7, en_leaseCount = 0,
      en_lastAccessEpoch = 0, en_dirty = False, en_retired = False, en_busy = False\<rparr>],
    mg_map = [(1, 0)], mg_nextId = 1, mg_epoch = 0, mg_destroyed = [], mg_user = u\<rparr>"
  "rt_executors (one_resource u) = [''inline'' \<mapsto> Ex_inline, ''thread_pool'' \<mapsto> Ex_pool 0]"
  "rt_subs (one_resource u) = []" "rt_events (one_resource u) = []" "rt_nextId (one_resource u) = 0"
  "token_flags (one_resource u) None = 0"
  by (simp_all add: one_resource_def new_runtime_def register_resource_def new_manager_def Let_def token_flags_def)

lemma one_resource_schedule:
  "\<exists>t fs r1. schedule_maintenance 1 evict_request [] None True (one_resource u) = (Some t, fs, r1)
    \<and> tk_disposition t = Md_scheduled"
  by (simp add: schedule_maintenance_def find_entry_def one_resource_simps entry_def evict_request_def plain_desc_def
      maint_submission_def submit_def get_executor_def set_world_def Let_def)

theorem maintenance_outcome_witness:
  "\<exists>t fs r1 r2. schedule_maintenance 1 evict_request [] None True (one_resource 3) = (Some t, fs, r1)
    \<and> drain 7 fs r1 = Some r2 \<and> ev_status (rt_events r2 ! 0) = St_completed
    \<and> en_retired (entry (rt_world r2) 0) \<and> \<not> en_busy (entry (rt_world r2) 0)"
proof -
  obtain t fs r1 where s: "schedule_maintenance 1 evict_request [] None True (one_resource 3) = (Some t, fs, r1)"
    "tk_disposition t = Md_scheduled" using one_resource_schedule by blast
  have e: "find_entry (rt_world (one_resource 3)) 1 = Some 0" "0 < length (mg_entries (rt_world (one_resource 3)))"
    "rt_executors (one_resource 3) (rd_executor (en_descriptor (entry (rt_world (one_resource 3)) 0))) = Some Ex_inline"
    by (simp_all add: one_resource_simps find_entry_def entry_def plain_desc_def)
  from maintenance_outcome [OF s e] obtain r2 where d: "drain 7 fs r1 = Some r2" "ev_status (rt_events r2 ! 0) = St_completed"
    and u: "(entry (rt_world r2) 0)\<lparr>en_payload := 7\<rparr> = maint_update evict_request 0 (Some Poll_completed)
      ((entry (rt_world (one_resource 3)) 0)\<lparr>en_busy := True\<rparr>)"
    by (auto simp: one_resource_simps maint_result_def throwing_def entry_def set_entry_def poll_task_status_def)
  have "en_retired ((entry (rt_world r2) 0)\<lparr>en_payload := 7\<rparr>)" "\<not> en_busy ((entry (rt_world r2) 0)\<lparr>en_payload := 7\<rparr>)"
    unfolding u by (simp_all add: maint_update_def evict_request_def)
  then have "en_retired (entry (rt_world r2) 0)" "\<not> en_busy (entry (rt_world r2) 0)" by simp_all
  with s d show ?thesis by blast
qed

theorem failed_maintenance_stays_busy_witness:
  "\<exists>t fs r1 r2. schedule_maintenance 1 evict_request [] None True (one_resource 0) = (Some t, fs, r1)
    \<and> drain 7 fs r1 = Some r2 \<and> is_terminal (ev_status (rt_events r2 ! 0))
    \<and> \<not> collectable (entry (rt_world r2) 0)"
proof -
  obtain t fs r1 where s: "schedule_maintenance 1 evict_request [] None True (one_resource 0) = (Some t, fs, r1)"
    "tk_disposition t = Md_scheduled" using one_resource_schedule by blast
  have e: "find_entry (rt_world (one_resource 0)) 1 = Some 0" "0 < length (mg_entries (rt_world (one_resource 0)))"
    "rt_executors (one_resource 0) (rd_executor (en_descriptor (entry (rt_world (one_resource 0)) 0))) = Some Ex_inline"
    by (simp_all add: one_resource_simps find_entry_def entry_def plain_desc_def)
  have "fst (maint_result 0 evict_request ep ctx 0 (set_entry 0 (\<lambda>en. en\<lparr>en_busy := True\<rparr>) (rt_world (one_resource 0)))) = None"
    for ep ctx
    by (simp add: one_resource_simps maint_result_def throwing_def entry_def set_entry_def)
  then show ?thesis using failed_maintenance_stays_busy [OF s e] s(1) by (auto simp: one_resource_simps)
qed

end
