(* ===== verification/Double_Text.thy ===== *)
theory Double_Text
  imports Zpc_Prelude
begin

text \<open>
  The double-precision numbers of the validation reports: comparison, addition and subtraction with
  rounding to nearest even, conversion from unsigned integers, and the text \<open>operator<<\<close> gives them
  at its default precision. Every finite double is an integral multiple of 2 to the power -1074, so
  a finite value is its sign and its magnitude in that unit. The sign of a NaN is not kept.
\<close>

datatype double = NaN | Inf bool | Fin bool nat

definition ulp_min :: nat where
  "ulp_min = 2 ^ 1074"

definition dzero :: double where
  "dzero = Fin False 0"

section \<open>Rounding\<close>

fun nbits :: "nat \<Rightarrow> nat" where
  "nbits n = (if n = 0 then 0 else Suc (nbits (n div 2)))"

declare nbits.simps [simp del]

text \<open>Division with rounding to nearest, ties to even.\<close>

definition div_even :: "nat \<Rightarrow> nat \<Rightarrow> nat" where
  "div_even n d = (let q = n div d; r = n mod d in if d < 2 * r \<or> 2 * r = d \<and> odd q then q + 1 else q)"

definition round53 :: "nat \<Rightarrow> nat" where
  "round53 n = (if nbits n \<le> 53 then n else let s = nbits n - 53 in div_even n (2 ^ s) * 2 ^ s)"

definition make_double :: "bool \<Rightarrow> nat \<Rightarrow> double" where
  "make_double neg n = (let m = round53 n in if 2 ^ 2098 \<le> m then Inf neg else Fin neg m)"

section \<open>Arithmetic and comparison\<close>

definition signed_mag :: "bool \<Rightarrow> nat \<Rightarrow> int" where
  "signed_mag neg n = (if neg then - int n else int n)"

fun dadd :: "double \<Rightarrow> double \<Rightarrow> double" where
  "dadd NaN _ = NaN"
| "dadd _ NaN = NaN"
| "dadd (Inf s) (Inf t) = (if s = t then Inf s else NaN)"
| "dadd (Inf s) (Fin _ _) = Inf s"
| "dadd (Fin _ _) (Inf t) = Inf t"
| "dadd (Fin s m) (Fin t n) =
     (let v = signed_mag s m + signed_mag t n
      in if v = 0 then Fin (s \<and> t) 0 else make_double (v < 0) (nat \<bar>v\<bar>))"

fun dneg :: "double \<Rightarrow> double" where
  "dneg NaN = NaN"
| "dneg (Inf s) = Inf (\<not> s)"
| "dneg (Fin s n) = Fin (\<not> s) n"

definition dsub :: "double \<Rightarrow> double \<Rightarrow> double" where
  "dsub a b = dadd a (dneg b)"

fun dle :: "double \<Rightarrow> double \<Rightarrow> bool" where
  "dle NaN _ = False"
| "dle _ NaN = False"
| "dle (Inf s) (Inf t) = (s \<or> \<not> t)"
| "dle (Inf s) (Fin _ _) = s"
| "dle (Fin _ _) (Inf t) = (\<not> t)"
| "dle (Fin s m) (Fin t n) = (signed_mag s m \<le> signed_mag t n)"

definition double_of_nat :: "nat \<Rightarrow> double" where
  "double_of_nat n = make_double False (n * ulp_min)"

lemma dsub_self: "dsub (Fin s n) (Fin s n) = dzero"
  by (simp add: dsub_def dzero_def signed_mag_def)

lemma dle_NaN [simp]: "\<not> dle a NaN"
  by (cases a) simp_all

lemma dadd_NaN [simp]: "dadd a NaN = NaN"
  by (cases a) simp_all

section \<open>Decimal text\<close>

definition digit :: "nat \<Rightarrow> char" where
  "digit n = ''0123456789'' ! n"

fun show_nat :: "nat \<Rightarrow> string" where
  "show_nat n = (if n < 10 then [digit n] else show_nat (n div 10) @ [digit (n mod 10)])"

declare show_nat.simps [simp del]

text \<open>
  For a magnitude \<open>n\<close> in units of which \<open>u\<close> make 1: the decimal exponent when it is at least 1, and
  minus the exponent when it is smaller.
\<close>

fun exp_up :: "nat \<Rightarrow> nat \<Rightarrow> nat \<Rightarrow> nat \<Rightarrow> nat" where
  "exp_up u k n x = (if k \<noteq> 0 \<and> 10 ^ (x + 1) * u \<le> n then exp_up u (k - 1) n (x + 1) else x)"

fun exp_down :: "nat \<Rightarrow> nat \<Rightarrow> nat \<Rightarrow> nat \<Rightarrow> nat" where
  "exp_down u k n x = (if k \<noteq> 0 \<and> n * 10 ^ x < u then exp_down u (k - 1) n (x + 1) else x)"

declare exp_up.simps [simp del] exp_down.simps [simp del]

text \<open>The six significant digits as a number, with the exponent after rounding.\<close>

definition six_digits :: "nat \<Rightarrow> nat \<Rightarrow> nat \<times> int" where
  "six_digits u n =
     (let x = (if u \<le> n then int (exp_up u 310 n 0) else - int (exp_down u 330 n 0));
          d = (if x \<le> 5 then div_even (n * 10 ^ nat (5 - x)) u else div_even n (u * 10 ^ nat (x - 5)))
      in if d = 10 ^ 6 then (10 ^ 5, x + 1) else (d, x))"

definition strip_zeros :: "string \<Rightarrow> string" where
  "strip_zeros ds = rev (dropWhile (\<lambda>c. c = CHR ''0'') (rev ds))"

definition with_point :: "string \<Rightarrow> string \<Rightarrow> string" where
  "with_point ip frac = (let f = strip_zeros frac in if f = [] then ip else ip @ ''.'' @ f)"

definition show_exponent :: "int \<Rightarrow> string" where
  "show_exponent x = (if x < 0 then ''e-'' else ''e+'')
     @ (let ds = show_nat (nat \<bar>x\<bar>) in if length ds < 2 then ''0'' @ ds else ds)"

definition show_mag :: "nat \<Rightarrow> string" where
  "show_mag n = (if n = 0 then ''0'' else
     let (d, x) = six_digits ulp_min n; ds = show_nat d in
     if 0 \<le> x \<and> x < 6 then with_point (take (nat x + 1) ds) (drop (nat x + 1) ds)
     else if - 4 \<le> x \<and> x < 0 then with_point ''0'' (replicate (nat (- x) - 1) (CHR ''0'') @ ds)
     else with_point (take 1 ds) (drop 1 ds) @ show_exponent x)"

fun show_double :: "double \<Rightarrow> string" where
  "show_double NaN = ''nan''"
| "show_double (Inf s) = (if s then ''-inf'' else ''inf'')"
| "show_double (Fin s n) = (if s then ''-'' else []) @ show_mag n"

definition show_bool :: "bool \<Rightarrow> string" where
  "show_bool b = (if b then ''true'' else ''false'')"

text \<open>The digits depend only on the ratio, so small units do for computing them.\<close>

lemma div_even_scale:
  assumes "0 < c" shows "div_even (n * c) (d * c) = div_even n d"
proof -
  have "(d * c < 2 * (n mod d * c)) = (d < 2 * (n mod d))" "(2 * (n mod d * c) = d * c) = (2 * (n mod d) = d)"
    using assms mult_less_cancel2 [of d c "2 * (n mod d)"] mult_cancel2 [of "2 * (n mod d)" c d]
    by (simp_all add: mult.assoc)
  then show ?thesis using assms by (simp add: div_even_def mult_mod_left [symmetric] Let_def)
qed

lemma exp_up_scale: "0 < c \<Longrightarrow> exp_up (u * c) k (n * c) x = exp_up u k n x"
  by (induction u k n x rule: exp_up.induct) (subst (1 2) exp_up.simps, simp add: mult.assoc [symmetric])

lemma exp_down_scale: "0 < c \<Longrightarrow> exp_down (u * c) k (n * c) x = exp_down u k n x"
proof (induction u k n x rule: exp_down.induct)
  case (1 u k n x)
  have "(n * c * 10 ^ x < u * c) = (n * 10 ^ x < u)"
    using 1(2) mult_less_cancel2 [of "n * 10 ^ x" c u] by (simp add: mult_ac)
  then show ?case using 1 by (subst (1 2) exp_down.simps) simp
qed

lemma six_digits_scale:
  assumes "0 < c" shows "six_digits (u * c) (n * c) = six_digits u n"
proof -
  have "div_even (n * c * 10 ^ i) (u * c) = div_even (n * 10 ^ i) u" for i
    using div_even_scale [OF assms, of "n * 10 ^ i" u] by (simp add: mult_ac)
  moreover have "div_even (n * c) (u * c * 10 ^ i) = div_even n (u * 10 ^ i)" for i
    using div_even_scale [OF assms, of n "u * 10 ^ i"] by (simp add: mult_ac)
  ultimately show ?thesis using assms by (simp add: six_digits_def exp_up_scale exp_down_scale Let_def)
qed

text \<open>Doubles given in units of 2 to the power -52.\<close>

definition unit52 :: nat where
  "unit52 = 2 ^ 1022"

lemma six_digits_52: "six_digits ulp_min (n * unit52) = six_digits (2 ^ 52) n"
proof -
  have "ulp_min = 2 ^ 52 * unit52" unfolding ulp_min_def unit52_def power_add [symmetric] by simp
  moreover have "0 < unit52" by (simp add: unit52_def)
  ultimately show ?thesis using six_digits_scale [of unit52 "2 ^ 52" n] by simp
qed

definition double52 :: "bool \<Rightarrow> nat \<Rightarrow> double" where
  "double52 s n = Fin s (n * unit52)"

lemma unit52_pos [simp]: "unit52 \<noteq> 0" "0 < unit52"
  by (simp_all add: unit52_def)

lemma show_double52: "show_double (double52 s n) = (if s then ''-'' else []) @ (if n = 0 then ''0'' else
     let (d, x) = six_digits (2 ^ 52) n; ds = show_nat d in
     if 0 \<le> x \<and> x < 6 then with_point (take (nat x + 1) ds) (drop (nat x + 1) ds)
     else if - 4 \<le> x \<and> x < 0 then with_point ''0'' (replicate (nat (- x) - 1) (CHR ''0'') @ ds)
     else with_point (take 1 ds) (drop 1 ds) @ show_exponent x)"
  by (simp add: double52_def show_mag_def six_digits_52)

lemmas show_eval = six_digits_def div_even_def exp_up.simps exp_down.simps
  show_nat.simps with_point_def strip_zeros_def show_exponent_def digit_def Let_def

lemma show_double_samples:
  "show_double (double52 False (2 ^ 52)) = ''1''" "show_double (double52 False (2 ^ 52 + 1)) = ''1''"
  "show_double (double52 True (2 ^ 51)) = ''-0.5''" "show_double (double52 False (1234567 * 2 ^ 52)) = ''1.23457e+06''"
  by (simp_all add: show_double52 show_eval)

section \<open>Exact sums\<close>

lemma nbits_less: "n < 2 ^ nbits n"
proof (induction n rule: nbits.induct)
  case (1 n)
  then show ?case by (subst nbits.simps) (auto simp: div_less_iff_less_mult)
qed

lemma nbits_shift: "0 < k \<Longrightarrow> nbits (k * 2 ^ j) = nbits k + j"
proof (induction j)
  case (Suc j)
  then show ?case by (subst nbits.simps) (simp add: mult.left_commute)
qed simp

lemma div_even_exact: "0 < d \<Longrightarrow> div_even (q * d) d = q"
  by (simp add: div_even_def)

lemma round53_exact:
  assumes "nbits k \<le> 53" shows "round53 (k * 2 ^ j) = k * 2 ^ j"
proof (cases "k = 0 \<or> nbits k + j \<le> 53")
  case True
  then show ?thesis by (cases "k = 0") (auto simp: round53_def nbits_shift nbits.simps [of 0])
next
  case False
  let ?s = "nbits k + j - 53"
  have "?s \<le> j" using assms by simp
  then have e: "k * 2 ^ j = (k * 2 ^ (j - ?s)) * 2 ^ ?s" by (simp flip: power_add)
  have "div_even (k * 2 ^ j) (2 ^ ?s) = k * 2 ^ (j - ?s)" unfolding e by (rule div_even_exact) simp
  then have "div_even (k * 2 ^ j) (2 ^ ?s) * 2 ^ ?s = k * 2 ^ j" using e by (simp only:)
  then show ?thesis using False by (simp add: round53_def nbits_shift Let_def)
qed

lemma make_double52:
  assumes "nbits k \<le> 53" shows "make_double s (k * unit52) = double52 s k"
proof -
  have "k < 2 ^ 53"
    using nbits_less [of k] assms by (meson less_le_trans one_le_numeral power_increasing)
  then have "k * unit52 < 2 ^ 53 * unit52" by simp
  also have "\<dots> = 2 ^ (53 + 1022)" by (simp only: unit52_def power_add)
  also have "\<dots> \<le> 2 ^ 2098" by (rule power_increasing) simp_all
  finally have "\<not> 2 ^ 2098 \<le> k * unit52" by (simp only: not_le)
  moreover have "round53 (k * unit52) = k * unit52" unfolding unit52_def by (rule round53_exact [OF assms])
  ultimately show ?thesis unfolding make_double_def Let_def by (simp only: double52_def if_False)
qed

lemma dadd_double52_zero:
  assumes "nbits k \<le> 53" and "0 < k" shows "dadd (double52 False k) dzero = double52 False k"
proof -
  have "\<not> int (k * unit52) < 0" by (simp only: of_nat_less_0_iff not_False_eq_True)
  then show ?thesis using make_double52 [OF assms(1), of False] assms(2)
    by (simp add: double52_def dzero_def signed_mag_def Let_def del: of_nat_mult)
qed

lemma dle_double52: "dle (double52 False k) (double52 False j) \<longleftrightarrow> k \<le> j"
  by (simp add: double52_def signed_mag_def)

lemma nbits_one: "nbits (2 ^ 52) = 53" "nbits (2 ^ 52 + 1) = 53"
  by (simp_all add: nbits.simps)

end
