(* ===== verification/Small_String.thy ===== *)
theory Small_String
  imports Async_Runtime_Own
begin

text \<open>
  \<open>BasicSmallString<char>\<close> of \<open>types/SmallVector.hpp\<close>: a null-terminated string in a buffer of 32
  bytes. The names of executors, labels and queues are such strings. A C string argument is the list
  of its characters without the terminator; the bytes a constructor leaves uninitialised are an
  argument of the model.
\<close>

definition nul :: char where
  "nul = CHR 0x00"

definition nbytes :: nat where
  "nbytes = 32"

section \<open>Construction\<close>

definition cchar :: "string \<Rightarrow> nat \<Rightarrow> char" where
  "cchar s i = (if i < length s then s ! i else nul)"

definition ss_empty :: string where
  "ss_empty = replicate nbytes nul"

text \<open>The loops of the constructor from a C string and of the concatenation.\<close>

function copy_chars :: "string \<Rightarrow> nat \<Rightarrow> nat \<Rightarrow> string \<Rightarrow> nat \<times> string" where
  "copy_chars s j i buf =
     (if i + 1 \<noteq> nbytes \<and> cchar s j \<noteq> nul
      then copy_chars s (j + 1) (i + 1) (buf[i := cchar s j]) else (i, buf))"
  by pat_completeness auto
termination
  by (relation "measure (\<lambda>(s, j, i, buf). length s - j)") (auto simp: cchar_def split: if_splits)

declare copy_chars.simps [simp del]

definition ss_of_cstr :: "string \<Rightarrow> string" where
  "ss_of_cstr s = (let (i, buf) = copy_chars s 0 0 ss_empty in buf[i := nul])"

fun store_chars :: "string \<Rightarrow> nat list \<Rightarrow> string \<Rightarrow> string" where
  "store_chars s [] buf = buf"
| "store_chars s (i # ks) buf = store_chars s ks (buf[i := s ! i])"

definition ss_of_str :: "string \<Rightarrow> string \<Rightarrow> string" where
  "ss_of_str junk s =
     (let n = (if length s < nbytes then length s else nbytes - 1)
      in store_chars s [0..<n] (junk[n := nul]))"

section \<open>Reading\<close>

text \<open>\<open>size()\<close> runs to the first null; \<open>None\<close> when it runs off the buffer.\<close>

fun size_from :: "string \<Rightarrow> nat \<Rightarrow> nat option" where
  "size_from [] i = None"
| "size_from (c # cs) i = (if c = nul then Some i else size_from cs (i + 1))"

definition ss_size :: "string \<Rightarrow> nat option" where
  "ss_size buf = size_from buf 0"

definition ss_chars :: "string \<Rightarrow> string" where
  "ss_chars buf = takeWhile (\<lambda>c. c \<noteq> nul) buf"

function eq_from :: "string \<Rightarrow> nat \<Rightarrow> string \<Rightarrow> nat \<Rightarrow> bool" where
  "eq_from buf sz s i =
     (if i < sz \<and> cchar s i \<noteq> nul
      then (if buf ! i \<noteq> cchar s i then False else eq_from buf sz s (i + 1))
      else cchar buf i = nul \<and> cchar s i = nul)"
  by pat_completeness auto
termination by (relation "measure (\<lambda>(buf, sz, s, i). sz - i)") auto

declare eq_from.simps [simp del]

definition ss_eq :: "string \<Rightarrow> string \<Rightarrow> bool" where
  "ss_eq buf s = (case ss_size buf of None \<Rightarrow> False | Some sz \<Rightarrow> eq_from buf sz s 0)"

definition ss_append :: "string \<Rightarrow> string \<Rightarrow> string" where
  "ss_append a b =
     (let (i, buf) = copy_chars (ss_chars a) 0 0 ss_empty;
          (i, buf) = copy_chars (ss_chars b) 0 i buf
      in buf[i := nul])"

section \<open>The string a buffer holds\<close>

definition ss_ok :: "string \<Rightarrow> bool" where
  "ss_ok buf \<longleftrightarrow> length buf = nbytes \<and> nul \<in> set buf"

definition no_nul :: "string \<Rightarrow> bool" where
  "no_nul s \<longleftrightarrow> nul \<notin> set s"

lemma no_nul_chars [simp]: "no_nul (ss_chars buf)"
  by (auto simp: no_nul_def ss_chars_def dest: set_takeWhileD)

lemma no_nul_take [simp]: "no_nul s \<Longrightarrow> no_nul (take n s)" "no_nul s \<Longrightarrow> no_nul (drop n s)"
  by (auto simp: no_nul_def dest: in_set_takeD in_set_dropD)

lemma cchar_nul: "no_nul s \<Longrightarrow> cchar s i = nul \<longleftrightarrow> length s \<le> i"
  by (auto simp: cchar_def no_nul_def) (metis nth_mem)

lemma takeWhile_no_nul: "no_nul s \<Longrightarrow> takeWhile (\<lambda>c. c \<noteq> nul) (s @ nul # rest) = s"
  by (induction s) (auto simp: no_nul_def)

lemma size_from_append: "no_nul s \<Longrightarrow> size_from (s @ nul # rest) i = Some (i + length s)"
  by (induction s arbitrary: i) (auto simp: no_nul_def)

text \<open>Copying appends to the prefix written so far, up to the last byte but one.\<close>

lemma copy_chars_spec:
  assumes "no_nul s" and "length pre = i" and "i < nbytes" and "length buf = nbytes" and "take i buf = pre"
    and "j \<le> length s"
  shows "\<exists>buf'. copy_chars s j i buf = (length (take (nbytes - 1) (pre @ drop j s)), buf') \<and> length buf' = nbytes
    \<and> take (length (take (nbytes - 1) (pre @ drop j s))) buf' = take (nbytes - 1) (pre @ drop j s)"
  using assms
proof (induction "length s - j" arbitrary: j i pre buf)
  case 0
  then have "cchar s j = nul" "drop j s = []" by (simp_all add: cchar_def)
  then show ?case using 0 by (subst copy_chars.simps) simp
next
  case (Suc n)
  then have j: "j < length s" by simp
  then have c: "cchar s j = s ! j" "cchar s j \<noteq> nul"
    using Suc.prems(1) cchar_nul [of s j] by (auto simp: cchar_def)
  show ?case
  proof (cases "i + 1 = nbytes")
    case True
    then show ?thesis using Suc.prems by (subst copy_chars.simps) simp
  next
    case False
    have "take (i + 1) (buf[i := s ! j]) = pre @ [s ! j]"
      using Suc.prems(2-5) by (simp add: take_Suc_conv_app_nth)
    then have ih: "\<exists>buf'. copy_chars s (j + 1) (i + 1) (buf[i := s ! j])
        = (length (take (nbytes - 1) ((pre @ [s ! j]) @ drop (j + 1) s)), buf') \<and> length buf' = nbytes
      \<and> take (length (take (nbytes - 1) ((pre @ [s ! j]) @ drop (j + 1) s))) buf'
        = take (nbytes - 1) ((pre @ [s ! j]) @ drop (j + 1) s)"
      using Suc.hyps(2) Suc.prems False j by (intro Suc.hyps(1)) auto
    have app: "(pre @ [s ! j]) @ drop (j + 1) s = pre @ drop j s"
      using j by (simp add: Cons_nth_drop_Suc)
    have "copy_chars s j i buf = copy_chars s (j + 1) (i + 1) (buf[i := s ! j])"
      using c False by (subst copy_chars.simps) simp
    then show ?thesis using ih unfolding app by simp
  qed
qed

lemma terminated:
  assumes "length buf = nbytes" and "length s < nbytes" and "take (length s) buf = s" and "no_nul s"
  shows "ss_ok (buf[length s := nul]) \<and> ss_chars (buf[length s := nul]) = s
    \<and> ss_size (buf[length s := nul]) = Some (length s)"
proof -
  have "buf[length s := nul] = s @ nul # drop (Suc (length s)) buf"
    using assms(1-3) by (simp add: upd_conv_take_nth_drop)
  then show ?thesis using assms
    by (auto simp: ss_ok_def ss_chars_def takeWhile_no_nul ss_size_def size_from_append)
qed

lemma ss_of_cstr_chars:
  assumes "no_nul s"
  shows "ss_ok (ss_of_cstr s) \<and> ss_chars (ss_of_cstr s) = take (nbytes - 1) s
    \<and> ss_size (ss_of_cstr s) = Some (length (take (nbytes - 1) s))"
proof -
  obtain buf where b: "copy_chars s 0 0 ss_empty = (length (take (nbytes - 1) s), buf)"
    "length buf = nbytes" "take (length (take (nbytes - 1) s)) buf = take (nbytes - 1) s"
    using copy_chars_spec [OF assms, of "[]" 0 ss_empty 0] by (auto simp: ss_empty_def nbytes_def)
  have "length (take (nbytes - 1) s) < nbytes" by (simp add: nbytes_def)
  from terminated [OF b(2) this b(3)] assms show ?thesis
    unfolding ss_of_cstr_def b(1) Let_def prod.case by simp
qed

lemma store_chars_spec:
  assumes "length s \<le> length buf" and "n \<le> length s"
  shows "length (store_chars s [k..<n] buf) = length buf
    \<and> (\<forall>i < length buf. store_chars s [k..<n] buf ! i = (if k \<le> i \<and> i < n then s ! i else buf ! i))"
  using assms
proof (induction "n - k" arbitrary: k buf)
  case (Suc m)
  then have k: "k < n" by simp
  then have "[k..<n] = k # [Suc k..<n]" by (rule upt_conv_Cons)
  moreover have "length (store_chars s [Suc k..<n] (buf[k := s ! k])) = length (buf[k := s ! k])
      \<and> (\<forall>i < length (buf[k := s ! k]). store_chars s [Suc k..<n] (buf[k := s ! k]) ! i
        = (if Suc k \<le> i \<and> i < n then s ! i else buf[k := s ! k] ! i))"
    using Suc k by (intro Suc.hyps(1)) auto
  ultimately show ?case using k Suc.prems by (auto simp: nth_list_update) (metis le_antisym not_less_eq_eq)
qed auto

lemma ss_of_str_chars:
  assumes "no_nul s" and "length junk = nbytes"
  shows "ss_ok (ss_of_str junk s) \<and> ss_chars (ss_of_str junk s) = take (nbytes - 1) s"
proof -
  let ?n = "if length s < nbytes then length s else nbytes - 1"
  let ?s = "take (nbytes - 1) s"
  have n: "?n = length ?s" "?n < nbytes" "?n \<le> length s" by (auto simp: nbytes_def)
  let ?buf = "ss_of_str junk s"
  have sp: "length (store_chars s [0..<?n] (junk[?n := nul])) = nbytes
      \<and> (\<forall>i < nbytes. store_chars s [0..<?n] (junk[?n := nul]) ! i
        = (if i < ?n then s ! i else junk[?n := nul] ! i))"
  proof -
    have "store_chars s [0..<?n] b = store_chars (take nbytes s) [0..<?n] b" for b
    proof -
      have "\<forall>i \<in> set ks. i < nbytes \<Longrightarrow> store_chars s ks b = store_chars (take nbytes s) ks b" for ks b
        by (induction ks arbitrary: b) auto
      then show ?thesis using n(2) by auto
    qed
    then show ?thesis
      using store_chars_spec [of "take nbytes s" "junk[?n := nul]" ?n 0] assms(2) n(2,3) by auto
  qed
  then have len: "length ?buf = nbytes" and nth: "\<And>i. i < nbytes \<Longrightarrow> ?buf ! i
      = (if i < ?n then s ! i else junk[?n := nul] ! i)" by (simp_all add: ss_of_str_def Let_def)
  have "take ?n ?buf = ?s"
    by (rule nth_equalityI) (use n len nth in auto)
  moreover have "?buf[?n := nul] = ?buf"
    by (rule nth_equalityI) (use len nth assms(2) n(2) in \<open>auto simp: nth_list_update\<close>)
  ultimately show ?thesis using terminated [of ?buf ?s] len n assms(1) by simp
qed

lemma ss_append_chars:
  "ss_ok (ss_append a b) \<and> ss_chars (ss_append a b) = take (nbytes - 1) (ss_chars a @ ss_chars b)"
proof -
  let ?a = "ss_chars a" and ?b = "ss_chars b"
  let ?pre = "take (nbytes - 1) ?a"
  obtain buf where a: "copy_chars ?a 0 0 ss_empty = (length ?pre, buf)"
    "length buf = nbytes" "take (length ?pre) buf = ?pre"
    using copy_chars_spec [of ?a "[]" 0 ss_empty 0] by (auto simp: ss_empty_def nbytes_def)
  have pre: "length ?pre < nbytes" by (simp add: nbytes_def)
  let ?t = "take (nbytes - 1) (?a @ ?b)"
  have t: "take (nbytes - 1) (?pre @ ?b) = ?t" by (simp add: nbytes_def min_def)
  obtain buf' where b: "copy_chars ?b 0 (length ?pre) buf = (length ?t, buf')"
    "length buf' = nbytes" "take (length ?t) buf' = ?t"
    using copy_chars_spec [OF no_nul_chars [of b] refl pre a(2,3) le0, unfolded drop_0 t] by blast
  have "length ?t < nbytes" by (simp add: nbytes_def)
  moreover have "no_nul ?t" by (auto simp: no_nul_def ss_chars_def dest!: in_set_takeD set_takeWhileD)
  moreover have "ss_append a b = buf'[length ?t := nul]" using a(1) b(1) by (simp add: ss_append_def)
  ultimately show ?thesis using terminated [OF b(2) _ b(3)] by simp
qed

lemma eq_from_spec:
  assumes "no_nul s" and "ss_ok buf" and "i \<le> length (ss_chars buf)" and "i \<le> length s"
    and "take i s = take i (ss_chars buf)"
  shows "eq_from buf (length (ss_chars buf)) s i \<longleftrightarrow> ss_chars buf = s"
  using assms
proof (induction "length (ss_chars buf) - i" arbitrary: i)
  case 0
  let ?c = "ss_chars buf"
  have "nul \<in> set buf" using 0 by (simp add: ss_ok_def)
  then have "cchar buf (length ?c) = nul"
    using nth_length_takeWhile [of "\<lambda>c. c \<noteq> nul" buf] by (auto simp: cchar_def ss_chars_def)
  moreover have "i = length ?c" using 0 by simp
  ultimately show ?case using 0 cchar_nul [OF 0(2), of i] by (subst eq_from.simps) auto
next
  case (Suc m)
  let ?c = "ss_chars buf"
  have i: "i < length ?c" using Suc.hyps(2) by simp
  then have b: "buf ! i = ?c ! i" "?c ! i \<noteq> nul" "i < length buf"
    using takeWhile_nth [of i "\<lambda>c. c \<noteq> nul" buf] length_takeWhile_le [of "\<lambda>c. c \<noteq> nul" buf]
      no_nul_chars [of buf] by (auto simp: ss_chars_def no_nul_def) (metis nth_mem)
  show ?case
  proof (cases "i < length s")
    case False
    then have "cchar s i = nul" "s \<noteq> ?c" using i by (auto simp: cchar_def)
    then show ?thesis using b by (subst eq_from.simps) (auto simp: cchar_def)
  next
    case True
    then have c: "cchar s i = s ! i" "s ! i \<noteq> nul" using Suc.prems(1) cchar_nul [of s i] by (auto simp: cchar_def)
    show ?thesis
    proof (cases "buf ! i = s ! i")
      case False
      then show ?thesis using b c i by (subst eq_from.simps) auto
    next
      case eq: True
      then have "take (i + 1) s = take (i + 1) ?c" using Suc.prems(5) True i b(1) by (simp add: take_Suc_conv_app_nth)
      then have "eq_from buf (length ?c) s (i + 1) \<longleftrightarrow> ?c = s"
        using Suc.hyps(2) Suc.prems(1,2) True i by (intro Suc.hyps(1)) auto
      then show ?thesis using c i eq by (subst eq_from.simps) simp
    qed
  qed
qed

section \<open>What a small string keeps\<close>

lemma ss_size_chars:
  assumes "ss_ok buf" shows "ss_size buf = Some (length (ss_chars buf))"
proof -
  have "nul \<in> set buf" using assms by (simp add: ss_ok_def)
  then obtain xs ys where split: "buf = xs @ nul # ys" "nul \<notin> set xs" using split_list_first by metis
  then show ?thesis by (simp add: ss_size_def size_from_append no_nul_def ss_chars_def takeWhile_no_nul)
qed

lemma ss_eq_chars:
  assumes "no_nul s" and "ss_ok buf" shows "ss_eq buf s \<longleftrightarrow> ss_chars buf = s"
  using eq_from_spec [OF assms, of 0] by (simp add: ss_eq_def ss_size_chars [OF assms(2)])

text \<open>
  Building from a C string or a string object and concatenating keep the first 31 characters,
  always within the buffer and terminated; the size is that of the kept string, and comparison with
  a C string is equality with it.
\<close>
theorem small_string_truncates:
  assumes "no_nul s" and "length junk = nbytes" and "ss_ok buf"
  shows "ss_chars (ss_of_cstr s) = take 31 s \<and> ss_chars (ss_of_str junk s) = take 31 s
    \<and> ss_chars (ss_append a b) = take 31 (ss_chars a @ ss_chars b)
    \<and> ss_ok (ss_of_cstr s) \<and> ss_ok (ss_of_str junk s) \<and> ss_ok (ss_append a b)
    \<and> ss_size buf = Some (length (ss_chars buf)) \<and> (ss_eq buf s \<longleftrightarrow> ss_chars buf = s)"
proof -
  have "nbytes - 1 = 31" by (simp add: nbytes_def)
  then show ?thesis
    using ss_size_chars [OF assms(3)] ss_eq_chars [OF assms(1,3)] ss_of_cstr_chars [OF assms(1)] ss_of_str_chars [OF assms(1,2)] ss_append_chars [of a b] by metis
qed

theorem small_string_truncates_witness:
  "ss_chars (ss_of_cstr ''transfer'') = ''transfer'' \<and> ss_eq (ss_of_cstr ''transfer'') ''transfer''
    \<and> ss_chars (ss_append (ss_of_cstr ''thread'') (ss_of_cstr ''_pool'')) = ''thread_pool''"
proof -
  have nn: "no_nul ''transfer''" "no_nul ''thread''" "no_nul ''_pool''" by (simp_all add: no_nul_def nul_def)
  have junk: "length (replicate 32 CHR ''x'') = nbytes" by (simp add: nbytes_def)
  have "ss_ok (ss_of_cstr ''transfer'')"
    using ss_of_cstr_chars [OF nn(1)] by simp
  from small_string_truncates [OF nn(1) junk this, of "ss_of_cstr ''thread''" "ss_of_cstr ''_pool''"]
  show ?thesis using ss_of_cstr_chars [OF nn(2)] ss_of_cstr_chars [OF nn(3)]
    by (simp add: nbytes_def)
qed

text \<open>
  An executor registered under a name of 32 characters or more is in the runtime and cannot be
  submitted to: the submission carries the name cut to 31 characters, which is looked up in full.
\<close>
theorem long_executor_name_unreachable:
  assumes "no_nul name" and "32 \<le> length name" and "rt_executors r (take 31 name) = None"
  shows "contains_executor (register_executor name x r) name
    \<and> submit (b\<lparr>sb_executor := ss_chars (ss_of_cstr name)\<rparr>) (register_executor name x r) = None"
proof -
  have "ss_chars (ss_of_cstr name) = take 31 name"
    using ss_of_cstr_chars [OF assms(1)] by (simp add: nbytes_def)
  moreover have "length (take 31 name) \<noteq> length name" using assms(2) by simp
  then have "take 31 name \<noteq> name" by metis
  ultimately show ?thesis using assms(3)
    by (simp add: contains_executor_def register_executor_def submit_def get_executor_def)
qed

theorem long_executor_name_unreachable_witness:
  "submit ((sub_to ''inline'' Poll_completed [])\<lparr>sb_executor := ss_chars (ss_of_cstr (replicate 40 CHR ''q''))\<rparr>)
     (register_executor (replicate 40 CHR ''q'') Ex_inline (new_runtime 1 1 0)) = None"
proof -
  have "no_nul (replicate 40 CHR ''q'')" by (simp add: no_nul_def nul_def)
  moreover have "rt_executors (new_runtime 1 1 (0::nat)) (take 31 (replicate 40 CHR ''q'')) = None"
    by (simp add: new_runtime_def numeral_eq_Suc)
  ultimately show ?thesis
    using long_executor_name_unreachable [of "replicate 40 CHR ''q''" "new_runtime 1 1 0" Ex_inline
        "sub_to ''inline'' Poll_completed []"] by simp
qed

end
