(* ===== verification/Validation_Schema.thy ===== *)
theory Validation_Schema
  imports Double_Text Small_String
begin

text \<open>
  \<open>execution/ValidationSchema.hpp\<close>: measurements with acceptance thresholds, validation records and
  reports with their summaries. Small strings are the 32-byte buffers of \<open>Small_String\<close>.
\<close>

type_synonym small_string = string

datatype record_kind = Rk_validation | Rk_benchmark

datatype outcome = Oc_pass | Oc_fail | Oc_skip | Oc_error

datatype threshold_mode = Tm_none | Tm_less_equal | Tm_greater_equal | Tm_inclusive_range

definition is_success :: "outcome \<Rightarrow> bool" where
  "is_success oc \<longleftrightarrow> oc = Oc_pass \<or> oc = Oc_skip"

record threshold =
  th_mode :: threshold_mode
  th_reference :: double
  th_tolerance :: double
  th_lowerBound :: double
  th_upperBound :: double

definition default_threshold :: threshold where
  "default_threshold = \<lparr>th_mode = Tm_none, th_reference = dzero, th_tolerance = dzero,
     th_lowerBound = dzero, th_upperBound = dzero\<rparr>"

definition satisfied_by :: "threshold \<Rightarrow> double \<Rightarrow> bool" where
  "satisfied_by t v = (case th_mode t of
     Tm_none \<Rightarrow> True
   | Tm_less_equal \<Rightarrow> dle v (dadd (th_reference t) (th_tolerance t))
   | Tm_greater_equal \<Rightarrow> dle (th_reference t) (dadd v (th_tolerance t))
   | Tm_inclusive_range \<Rightarrow> dle (th_lowerBound t) v \<and> dle v (th_upperBound t))"

record measurement =
  ms_name :: small_string
  ms_unit :: small_string
  ms_value :: double
  ms_threshold :: threshold

definition default_measurement :: measurement where
  "default_measurement = \<lparr>ms_name = ss_empty, ms_unit = ss_empty, ms_value = dzero, ms_threshold = default_threshold\<rparr>"

definition measurement_accepted :: "measurement \<Rightarrow> bool" where
  "measurement_accepted ms = satisfied_by (ms_threshold ms) (ms_value ms)"

record vrecord =
  vr_recordId :: small_string
  vr_suite :: small_string
  vr_name :: small_string
  vr_backend :: small_string
  vr_executor :: small_string
  vr_target :: small_string
  vr_note :: small_string
  vr_kind :: record_kind
  vr_outcome :: outcome
  vr_durationNs :: u64
  vr_measurements :: "measurement list"

definition default_vrecord :: vrecord where
  "default_vrecord = \<lparr>vr_recordId = ss_empty, vr_suite = ss_empty, vr_name = ss_empty, vr_backend = ss_empty,
     vr_executor = ss_empty, vr_target = ss_empty, vr_note = ss_empty, vr_kind = Rk_validation,
     vr_outcome = Oc_pass, vr_durationNs = 0, vr_measurements = []\<rparr>"

fun all_accepted :: "measurement list \<Rightarrow> bool" where
  "all_accepted [] = True"
| "all_accepted (ms # mss) = (if \<not> measurement_accepted ms then False else all_accepted mss)"

definition record_accepted :: "vrecord \<Rightarrow> bool" where
  "record_accepted r = (if \<not> is_success (vr_outcome r) then False else all_accepted (vr_measurements r))"

text \<open>A small string that is not empty; its size is always defined when it is terminated.\<close>

definition ss_nonempty :: "small_string \<Rightarrow> bool" where
  "ss_nonempty s \<longleftrightarrow> ss_size s \<noteq> Some 0"

definition has_stable_id :: "vrecord \<Rightarrow> bool" where
  "has_stable_id r \<longleftrightarrow> ss_nonempty (vr_recordId r)"

record summary =
  sm_total :: nat
  sm_passed :: nat
  sm_failed :: nat
  sm_skipped :: nat
  sm_errored :: nat

definition summary_clear :: summary where
  "summary_clear = \<lparr>sm_total = 0, sm_passed = 0, sm_failed = 0, sm_skipped = 0, sm_errored = 0\<rparr>"

definition summary_observe :: "vrecord \<Rightarrow> summary \<Rightarrow> summary" where
  "summary_observe r s =
     (let s = s\<lparr>sm_total := sm_total s + 1\<rparr> in
      case vr_outcome r of
        Oc_pass \<Rightarrow> s\<lparr>sm_passed := sm_passed s + 1\<rparr>
      | Oc_fail \<Rightarrow> s\<lparr>sm_failed := sm_failed s + 1\<rparr>
      | Oc_skip \<Rightarrow> s\<lparr>sm_skipped := sm_skipped s + 1\<rparr>
      | Oc_error \<Rightarrow> s\<lparr>sm_errored := sm_errored s + 1\<rparr>)"

record report =
  rp_schemaVersion :: small_string
  rp_suite :: small_string
  rp_records :: "vrecord list"
  rp_summary :: summary

definition default_report :: report where
  "default_report = \<lparr>rp_schemaVersion = ss_of_cstr ''zpc.validation.v1'', rp_suite = ss_empty,
     rp_records = [], rp_summary = summary_clear\<rparr>"

definition refresh_summary :: "report \<Rightarrow> report" where
  "refresh_summary rp = rp\<lparr>rp_summary := foldl (\<lambda>s r. summary_observe r s) summary_clear (rp_records rp)\<rparr>"

section \<open>Small strings from arbitrary text\<close>

lemma cchar_takeWhile:
  assumes "j \<le> length (takeWhile (\<lambda>c. c \<noteq> nul) s)"
  shows "cchar (takeWhile (\<lambda>c. c \<noteq> nul) s) j = cchar s j"
proof (cases "j < length (takeWhile (\<lambda>c. c \<noteq> nul) s)")
  case True
  then show ?thesis using length_takeWhile_le [of "\<lambda>c. c \<noteq> nul" s] by (simp add: cchar_def takeWhile_nth)
next
  case False
  then show ?thesis using assms nth_length_takeWhile [of "\<lambda>c. c \<noteq> nul" s] by (auto simp: cchar_def)
qed

lemma copy_chars_takeWhile:
  "j \<le> length (takeWhile (\<lambda>c. c \<noteq> nul) s) \<Longrightarrow>
   copy_chars (takeWhile (\<lambda>c. c \<noteq> nul) s) j i buf = copy_chars s j i buf"
proof (induction s j i buf rule: copy_chars.induct)
  case (1 s j i buf)
  let ?t = "takeWhile (\<lambda>c. c \<noteq> nul) s"
  have c: "cchar ?t j = cchar s j" using cchar_takeWhile 1(2) by blast
  show ?case
  proof (cases "i + 1 \<noteq> nbytes \<and> cchar s j \<noteq> nul")
    case True
    then have "j + 1 \<le> length ?t" using 1(2) c by (auto simp: cchar_def split: if_splits)
    then have "copy_chars ?t (j + 1) (i + 1) (buf[i := cchar s j]) = copy_chars s (j + 1) (i + 1) (buf[i := cchar s j])"
      using 1(1) True by blast
    then show ?thesis using True c by (subst (1 2) copy_chars.simps) simp
  next
    case False
    then show ?thesis using c by (subst (1 2) copy_chars.simps) auto
  qed
qed

lemma ss_of_cstr_ok: "ss_ok (ss_of_cstr s)"
proof -
  let ?t = "takeWhile (\<lambda>c. c \<noteq> nul) s"
  have "no_nul ?t" by (auto simp: no_nul_def dest: set_takeWhileD)
  moreover have "ss_of_cstr s = ss_of_cstr ?t" by (simp add: ss_of_cstr_def copy_chars_takeWhile)
  ultimately show ?thesis by (simp add: ss_of_cstr_chars)
qed

section \<open>Acceptance and counting\<close>

lemma all_accepted_iff: "all_accepted mss \<longleftrightarrow> (\<forall>ms \<in> set mss. measurement_accepted ms)"
  by (induction mss) auto

lemma summary_counts:
  "foldl (\<lambda>s r. summary_observe r s) s rs =
   \<lparr>sm_total = sm_total s + length rs,
    sm_passed = sm_passed s + length (filter (\<lambda>r. vr_outcome r = Oc_pass) rs),
    sm_failed = sm_failed s + length (filter (\<lambda>r. vr_outcome r = Oc_fail) rs),
    sm_skipped = sm_skipped s + length (filter (\<lambda>r. vr_outcome r = Oc_skip) rs),
    sm_errored = sm_errored s + length (filter (\<lambda>r. vr_outcome r = Oc_error) rs)\<rparr>"
  by (induction rs arbitrary: s) (auto simp: summary_observe_def Let_def split: outcome.split)

lemma summary_partition:
  "length (filter (\<lambda>r. vr_outcome r = Oc_pass) rs) + length (filter (\<lambda>r. vr_outcome r = Oc_fail) rs)
   + length (filter (\<lambda>r. vr_outcome r = Oc_skip) rs) + length (filter (\<lambda>r. vr_outcome r = Oc_error) rs)
   = length rs"
proof (induction rs)
  case (Cons r rs)
  then show ?case by (cases "vr_outcome r") simp_all
qed simp

end
