(* ===== verification/Validation_Compare.thy ===== *)
theory Validation_Compare
  imports Validation_Schema
begin

text \<open>
  \<open>execution/ValidationCompare.hpp\<close>: the comparison of a current validation report with a baseline.
  A pointer argument that may be null is an option; the loops keep the flags of the current items
  already matched.
\<close>

datatype diff_status = Df_unchanged | Df_improved | Df_regressed | Df_added | Df_removed

definition diff_status_name :: "diff_status \<Rightarrow> string" where
  "diff_status_name s = (case s of Df_unchanged \<Rightarrow> ''unchanged'' | Df_improved \<Rightarrow> ''improved''
     | Df_regressed \<Rightarrow> ''regressed'' | Df_added \<Rightarrow> ''added'' | Df_removed \<Rightarrow> ''removed'')"

record measurement_diff =
  md_name :: small_string
  md_unit :: small_string
  md_hasBaseline :: bool
  md_hasCurrent :: bool
  md_baselineValue :: double
  md_currentValue :: double
  md_delta :: double
  md_baselineAccepted :: bool
  md_currentAccepted :: bool
  md_status :: diff_status

definition default_measurement_diff :: measurement_diff where
  "default_measurement_diff = \<lparr>md_name = ss_empty, md_unit = ss_empty, md_hasBaseline = False, md_hasCurrent = False,
     md_baselineValue = dzero, md_currentValue = dzero, md_delta = dzero, md_baselineAccepted = False,
     md_currentAccepted = False, md_status = Df_unchanged\<rparr>"

record record_diff =
  df_recordId :: small_string
  df_suite :: small_string
  df_name :: small_string
  df_backend :: small_string
  df_executor :: small_string
  df_target :: small_string
  df_kind :: record_kind
  df_hasBaseline :: bool
  df_hasCurrent :: bool
  df_baselineOutcome :: outcome
  df_currentOutcome :: outcome
  df_status :: diff_status
  df_measurements :: "measurement_diff list"

definition default_record_diff :: record_diff where
  "default_record_diff = \<lparr>df_recordId = ss_empty, df_suite = ss_empty, df_name = ss_empty, df_backend = ss_empty,
     df_executor = ss_empty, df_target = ss_empty, df_kind = Rk_validation, df_hasBaseline = False,
     df_hasCurrent = False, df_baselineOutcome = Oc_skip, df_currentOutcome = Oc_skip,
     df_status = Df_unchanged, df_measurements = []\<rparr>"

record comparison_summary =
  cs_total :: nat
  cs_unchanged :: nat
  cs_improved :: nat
  cs_regressed :: nat
  cs_added :: nat
  cs_removed :: nat

definition comparison_observe :: "diff_status \<Rightarrow> comparison_summary \<Rightarrow> comparison_summary" where
  "comparison_observe st s =
     (let s = s\<lparr>cs_total := cs_total s + 1\<rparr> in
      case st of
        Df_unchanged \<Rightarrow> s\<lparr>cs_unchanged := cs_unchanged s + 1\<rparr>
      | Df_improved \<Rightarrow> s\<lparr>cs_improved := cs_improved s + 1\<rparr>
      | Df_regressed \<Rightarrow> s\<lparr>cs_regressed := cs_regressed s + 1\<rparr>
      | Df_added \<Rightarrow> s\<lparr>cs_added := cs_added s + 1\<rparr>
      | Df_removed \<Rightarrow> s\<lparr>cs_removed := cs_removed s + 1\<rparr>)"

record comparison =
  cr_suite :: small_string
  cr_records :: "record_diff list"
  cr_summary :: comparison_summary
  cr_accepted :: bool

definition default_comparison :: comparison where
  "default_comparison = \<lparr>cr_suite = ss_empty, cr_records = [], cr_summary = \<lparr>cs_total = 0, cs_unchanged = 0,
     cs_improved = 0, cs_regressed = 0, cs_added = 0, cs_removed = 0\<rparr>, cr_accepted = True\<rparr>"

section \<open>Identity and progress\<close>

text \<open>Comparison of two small strings, the second as a C string.\<close>

definition ss_same :: "small_string \<Rightarrow> small_string \<Rightarrow> bool" where
  "ss_same a b = ss_eq a (ss_chars b)"

definition record_identity_equal :: "vrecord \<Rightarrow> vrecord \<Rightarrow> bool" where
  "record_identity_equal l r =
     (if has_stable_id l \<and> has_stable_id r then ss_same (vr_recordId l) (vr_recordId r)
      else ss_same (vr_suite l) (vr_suite r) \<and> ss_same (vr_name l) (vr_name r)
         \<and> ss_same (vr_backend l) (vr_backend r) \<and> ss_same (vr_executor l) (vr_executor r)
         \<and> ss_same (vr_target l) (vr_target r) \<and> vr_kind l = vr_kind r)"

definition measurement_identity_equal :: "measurement \<Rightarrow> measurement \<Rightarrow> bool" where
  "measurement_identity_equal l r \<longleftrightarrow> ss_same (ms_name l) (ms_name r) \<and> ss_same (ms_unit l) (ms_unit r)"

definition outcome_rank :: "outcome \<Rightarrow> int" where
  "outcome_rank oc = (case oc of Oc_error \<Rightarrow> 0 | Oc_fail \<Rightarrow> 1 | Oc_skip \<Rightarrow> 2 | Oc_pass \<Rightarrow> 3)"

definition compare_outcome_progress :: "outcome \<Rightarrow> outcome \<Rightarrow> diff_status" where
  "compare_outcome_progress baseline current =
     (let before = outcome_rank baseline; after = outcome_rank current in
      if before < after then Df_improved else if after < before then Df_regressed else Df_unchanged)"

section \<open>Measurements and records\<close>

definition compare_measurement :: "measurement option \<Rightarrow> measurement option \<Rightarrow> measurement_diff" where
  "compare_measurement baseline current =
     (let d = default_measurement_diff;
          d = (case baseline of None \<Rightarrow> d | Some b \<Rightarrow> d\<lparr>md_name := ms_name b, md_unit := ms_unit b,
                 md_hasBaseline := True, md_baselineValue := ms_value b,
                 md_baselineAccepted := measurement_accepted b\<rparr>);
          d = (case current of None \<Rightarrow> d | Some c \<Rightarrow> d\<lparr>md_name := ms_name c, md_unit := ms_unit c,
                 md_hasCurrent := True, md_currentValue := ms_value c,
                 md_currentAccepted := measurement_accepted c\<rparr>);
          d = d\<lparr>md_delta := dsub (md_currentValue d) (md_baselineValue d)\<rparr>
      in case (baseline, current) of
           (Some b, Some c) \<Rightarrow>
             if md_currentAccepted d \<and> \<not> md_baselineAccepted d then d\<lparr>md_status := Df_improved\<rparr>
             else if \<not> md_currentAccepted d \<and> md_baselineAccepted d then d\<lparr>md_status := Df_regressed\<rparr>
             else d\<lparr>md_status := Df_unchanged\<rparr>
         | (None, Some c) \<Rightarrow> d\<lparr>md_status := Df_added\<rparr>
         | (Some b, None) \<Rightarrow> d\<lparr>md_status := Df_removed\<rparr>
         | (None, None) \<Rightarrow> d)"

text \<open>The inner loop: the first current item not yet matched that has the identity.\<close>

definition match_index :: "('a \<Rightarrow> bool) \<Rightarrow> 'a list \<Rightarrow> bool list \<Rightarrow> nat option" where
  "match_index p cs matched = find (\<lambda>i. \<not> matched ! i \<and> p (cs ! i)) [0..<length cs]"

definition set_matched :: "nat option \<Rightarrow> bool list \<Rightarrow> bool list" where
  "set_matched i matched = (case i of None \<Rightarrow> matched | Some i \<Rightarrow> matched[i := True])"

definition merge_status :: "diff_status \<Rightarrow> diff_status \<Rightarrow> diff_status" where
  "merge_status m st = (if m = Df_regressed then Df_regressed
     else if m = Df_improved \<and> st = Df_unchanged then Df_improved else st)"

definition push_measurement :: "measurement_diff \<Rightarrow> record_diff \<Rightarrow> record_diff" where
  "push_measurement md d = d\<lparr>df_measurements := df_measurements d @ [md]\<rparr>"

fun baseline_measurements ::
    "measurement list \<Rightarrow> measurement list \<Rightarrow> bool list \<Rightarrow> record_diff \<Rightarrow> bool list \<times> record_diff" where
  "baseline_measurements cs [] matched d = (matched, d)"
| "baseline_measurements cs (b # bs) matched d =
     (let i = match_index (measurement_identity_equal b) cs matched;
          md = compare_measurement (Some b) (map_option ((!) cs) i);
          d = d\<lparr>df_status := merge_status (md_status md) (df_status d)\<rparr>
      in baseline_measurements cs bs (set_matched i matched) (push_measurement md d))"

definition unmatched :: "'a list \<Rightarrow> bool list \<Rightarrow> 'a list" where
  "unmatched cs matched = map ((!) cs) (filter (\<lambda>i. \<not> matched ! i) [0..<length cs])"

definition added_measurements :: "measurement list \<Rightarrow> record_diff \<Rightarrow> record_diff" where
  "added_measurements cs d = foldl (\<lambda>d c. push_measurement (compare_measurement None (Some c)) d) d cs"

definition removed_measurements :: "measurement list \<Rightarrow> record_diff \<Rightarrow> record_diff" where
  "removed_measurements bs d = foldl (\<lambda>d b. push_measurement (compare_measurement (Some b) None) d) d bs"

definition diff_header :: "vrecord \<Rightarrow> record_diff \<Rightarrow> record_diff" where
  "diff_header r d = d\<lparr>df_recordId := vr_recordId r, df_suite := vr_suite r, df_name := vr_name r,
     df_backend := vr_backend r, df_executor := vr_executor r, df_target := vr_target r, df_kind := vr_kind r\<rparr>"

definition compare_record :: "vrecord option \<Rightarrow> vrecord option \<Rightarrow> record_diff" where
  "compare_record baseline current =
     (let d = default_record_diff;
          d = (case baseline of None \<Rightarrow> d
               | Some b \<Rightarrow> (diff_header b d)\<lparr>df_hasBaseline := True, df_baselineOutcome := vr_outcome b\<rparr>);
          d = (case current of None \<Rightarrow> d
               | Some c \<Rightarrow> (diff_header c d)\<lparr>df_hasCurrent := True, df_currentOutcome := vr_outcome c\<rparr>)
      in case (baseline, current) of
           (Some b, Some c) \<Rightarrow>
             let d = d\<lparr>df_status := compare_outcome_progress (vr_outcome b) (vr_outcome c)\<rparr>;
                 cs = vr_measurements c;
                 (matched, d) = baseline_measurements cs (vr_measurements b) (replicate (length cs) False) d
             in added_measurements (unmatched cs matched) d
         | (None, Some c) \<Rightarrow> added_measurements (vr_measurements c) (d\<lparr>df_status := Df_added\<rparr>)
         | (Some b, None) \<Rightarrow> removed_measurements (vr_measurements b) (d\<lparr>df_status := Df_removed\<rparr>)
         | (None, None) \<Rightarrow> d)"

section \<open>Reports\<close>

definition push_record :: "record_diff \<Rightarrow> comparison \<Rightarrow> comparison" where
  "push_record d r = r\<lparr>cr_summary := comparison_observe (df_status d) (cr_summary r), cr_records := cr_records r @ [d]\<rparr>"

fun baseline_records :: "vrecord list \<Rightarrow> vrecord list \<Rightarrow> bool list \<Rightarrow> comparison \<Rightarrow> bool list \<times> comparison" where
  "baseline_records cs [] matched r = (matched, r)"
| "baseline_records cs (b # bs) matched r =
     (let i = match_index (record_identity_equal b) cs matched;
          d = compare_record (Some b) (map_option ((!) cs) i);
          r = (if df_status d = Df_regressed then r\<lparr>cr_accepted := False\<rparr> else r)
      in baseline_records cs bs (set_matched i matched) (push_record d r))"

definition compare_reports :: "report \<Rightarrow> report \<Rightarrow> comparison" where
  "compare_reports baseline current =
     (let r = default_comparison\<lparr>cr_suite := (if ss_nonempty (rp_suite current) then rp_suite current
                                               else rp_suite baseline)\<rparr>;
          cs = rp_records current;
          (matched, r) = baseline_records cs (rp_records baseline) (replicate (length cs) False) r
      in foldl (\<lambda>r c. push_record (compare_record None (Some c)) r) r (unmatched cs matched))"

section \<open>Matching\<close>

lemma match_index_Some:
  assumes "match_index p cs matched = Some i"
  shows "i < length cs" "\<not> matched ! i" "p (cs ! i)"
  using assms by (auto simp: match_index_def find_Some_iff)

text \<open>Positions of the current items a loop over the baseline leaves and takes.\<close>

fun match_loop :: "('b \<Rightarrow> 'a \<Rightarrow> bool) \<Rightarrow> 'a list \<Rightarrow> 'b list \<Rightarrow> bool list \<Rightarrow> ('b \<times> 'a option) list \<times> bool list" where
  "match_loop p cs [] matched = ([], matched)"
| "match_loop p cs (b # bs) matched =
     (let i = match_index (p b) cs matched; (ps, m) = match_loop p cs bs (set_matched i matched)
      in ((b, map_option ((!) cs) i) # ps, m))"

text \<open>The pairs list the baseline in order, and together with the items left they use every current item once.\<close>

lemma match_loop_fst: "map fst (fst (match_loop p cs bs matched)) = bs"
  by (induction p cs bs matched rule: match_loop.induct) (auto simp: split_beta Let_def)

lemma unmatched_set:
  assumes "length matched = length cs" and "i < length cs" and "\<not> matched ! i"
  shows "mset (unmatched cs matched) = add_mset (cs ! i) (mset (unmatched cs (matched[i := True])))"
proof -
  have "mset (filter (\<lambda>j. \<not> matched ! j) [0..<length cs])
      = add_mset i (mset (filter (\<lambda>j. \<not> matched[i := True] ! j) [0..<length cs]))"
  proof -
    have "filter (\<lambda>j. \<not> matched ! j) [0..<length cs]
        = filter (\<lambda>j. \<not> matched[i := True] ! j \<or> j = i) [0..<length cs]"
      by (rule filter_cong) (use assms in \<open>auto simp: nth_list_update\<close>)
    then show ?thesis
      using mset_filter_or [of "[0..<length cs]" i "\<lambda>j. \<not> matched[i := True] ! j"] assms by simp
  qed
  then show ?thesis unfolding unmatched_def mset_map by simp
qed

lemma match_loop_mset:
  assumes "length matched = length cs"
  shows "mset (List.map_filter snd (fst (match_loop p cs bs matched)))
      + mset (unmatched cs (snd (match_loop p cs bs matched))) = mset (unmatched cs matched)
    \<and> length (snd (match_loop p cs bs matched)) = length cs"
  using assms
proof (induction p cs bs matched rule: match_loop.induct)
  case (2 p cs b bs matched)
  show ?case
  proof (cases "match_index (p b) cs matched")
    case None
    then show ?thesis using 2 by (simp add: split_beta Let_def set_matched_def map_filter_simps)
  next
    case (Some i)
    note i = match_index_Some [OF Some]
    have "mset (unmatched cs matched) = add_mset (cs ! i) (mset (unmatched cs (matched[i := True])))"
      by (rule unmatched_set [OF 2(2) i(1,2)])
    then show ?thesis using 2 Some by (simp add: split_beta Let_def set_matched_def map_filter_simps)
  qed
qed (simp add: map_filter_simps)

lemma unmatched_fresh: "unmatched cs (replicate (length cs) False) = cs"
proof -
  have "filter (\<lambda>i. \<not> replicate (length cs) False ! i) [0..<length cs] = [0..<length cs]" by simp
  then show ?thesis by (simp add: unmatched_def map_nth)
qed

lemma match_loop_fresh:
  "mset (List.map_filter snd (fst (match_loop p cs bs (replicate (length cs) False))))
   + mset (unmatched cs (snd (match_loop p cs bs (replicate (length cs) False)))) = mset cs"
  using match_loop_mset [of "replicate (length cs) False" cs p bs] by (simp add: unmatched_fresh)

end
