(* ===== verification/Validation_Format.thy ===== *)
theory Validation_Format
  imports Validation_Compare
begin

text \<open>
  \<open>execution/ValidationFormat.hpp\<close>: validation reports and comparisons as JSON and as plain text. An
  output stream is the list of characters written to it. The second half says what the JSON printers
  write: the rendering of a document.
\<close>

section \<open>Names\<close>

definition record_kind_name :: "record_kind \<Rightarrow> string" where
  "record_kind_name k = (case k of Rk_validation \<Rightarrow> ''validation'' | Rk_benchmark \<Rightarrow> ''benchmark'')"

definition outcome_name :: "outcome \<Rightarrow> string" where
  "outcome_name oc = (case oc of Oc_pass \<Rightarrow> ''pass'' | Oc_fail \<Rightarrow> ''fail'' | Oc_skip \<Rightarrow> ''skip'' | Oc_error \<Rightarrow> ''error'')"

definition threshold_mode_name :: "threshold_mode \<Rightarrow> string" where
  "threshold_mode_name t = (case t of Tm_none \<Rightarrow> ''none'' | Tm_less_equal \<Rightarrow> ''less_equal''
     | Tm_greater_equal \<Rightarrow> ''greater_equal'' | Tm_inclusive_range \<Rightarrow> ''inclusive_range'')"

section \<open>JSON\<close>

definition quoted :: "string \<Rightarrow> string" where
  "quoted s = CHR 0x22 # s @ [CHR 0x22]"

definition json_escape_char :: "char \<Rightarrow> string" where
  "json_escape_char c =
     (if c = CHR 0x5C then [CHR 0x5C, CHR 0x5C]
      else if c = CHR 0x22 then [CHR 0x5C, CHR 0x22]
      else if c = CHR 0x0A then [CHR 0x5C, CHR ''n'']
      else if c = CHR 0x0D then [CHR 0x5C, CHR ''r'']
      else if c = CHR 0x09 then [CHR 0x5C, CHR ''t'']
      else [c])"

definition json_escaped :: "string \<Rightarrow> string" where
  "json_escaped s = concat (map json_escape_char s)"

definition json_string_field :: "string \<Rightarrow> small_string \<Rightarrow> string" where
  "json_string_field name v = quoted name @ '':'' @ quoted (json_escaped (ss_chars v))"

definition json_raw_field :: "string \<Rightarrow> string \<Rightarrow> string" where
  "json_raw_field name v = '','' @ quoted name @ '':'' @ v"

text \<open>The loop that writes a comma before every item but the first.\<close>

fun comma_join :: "string list \<Rightarrow> string" where
  "comma_join [] = []"
| "comma_join [s] = s"
| "comma_join (s # t # ss) = s @ '','' @ comma_join (t # ss)"

definition format_measurement_json :: "measurement \<Rightarrow> string" where
  "format_measurement_json ms =
     ''{'' @ json_string_field ''name'' (ms_name ms) @ '','' @ json_string_field ''unit'' (ms_unit ms)
     @ json_raw_field ''value'' (show_double (ms_value ms))
     @ json_raw_field ''accepted'' (show_bool (measurement_accepted ms))
     @ '','' @ quoted ''threshold'' @ '':{''
     @ quoted ''mode'' @ '':'' @ quoted (threshold_mode_name (th_mode (ms_threshold ms)))
     @ json_raw_field ''reference'' (show_double (th_reference (ms_threshold ms)))
     @ json_raw_field ''tolerance'' (show_double (th_tolerance (ms_threshold ms)))
     @ json_raw_field ''lowerBound'' (show_double (th_lowerBound (ms_threshold ms)))
     @ json_raw_field ''upperBound'' (show_double (th_upperBound (ms_threshold ms)))
     @ ''}}''"

definition format_record_json :: "vrecord \<Rightarrow> string" where
  "format_record_json r =
     ''{'' @ json_string_field ''recordId'' (vr_recordId r) @ '','' @ json_string_field ''suite'' (vr_suite r)
     @ '','' @ json_string_field ''name'' (vr_name r) @ '','' @ json_string_field ''backend'' (vr_backend r)
     @ '','' @ json_string_field ''executor'' (vr_executor r) @ '','' @ json_string_field ''target'' (vr_target r)
     @ '','' @ json_string_field ''note'' (vr_note r)
     @ json_raw_field ''kind'' (quoted (record_kind_name (vr_kind r)))
     @ json_raw_field ''outcome'' (quoted (outcome_name (vr_outcome r)))
     @ json_raw_field ''durationNs'' (show_nat (unat (vr_durationNs r)))
     @ json_raw_field ''accepted'' (show_bool (record_accepted r))
     @ json_raw_field ''measurements'' (''['' @ comma_join (map format_measurement_json (vr_measurements r)) @ '']'')
     @ ''}''"

definition format_report_json :: "report \<Rightarrow> string" where
  "format_report_json rp =
     (let rp = refresh_summary rp; s = rp_summary rp in
      ''{'' @ json_string_field ''schemaVersion'' (rp_schemaVersion rp) @ '','' @ json_string_field ''suite'' (rp_suite rp)
      @ '','' @ quoted ''summary'' @ '':{'' @ quoted ''total'' @ '':'' @ show_nat (sm_total s)
      @ json_raw_field ''passed'' (show_nat (sm_passed s)) @ json_raw_field ''failed'' (show_nat (sm_failed s))
      @ json_raw_field ''skipped'' (show_nat (sm_skipped s)) @ json_raw_field ''errored'' (show_nat (sm_errored s))
      @ ''},'' @ quoted ''records'' @ '':['' @ comma_join (map format_record_json (rp_records rp)) @ '']}'')"

definition format_measurement_diff_json :: "measurement_diff \<Rightarrow> string" where
  "format_measurement_diff_json d =
     ''{'' @ json_string_field ''name'' (md_name d) @ '','' @ json_string_field ''unit'' (md_unit d)
     @ json_raw_field ''hasBaseline'' (show_bool (md_hasBaseline d))
     @ json_raw_field ''hasCurrent'' (show_bool (md_hasCurrent d))
     @ json_raw_field ''baselineValue'' (show_double (md_baselineValue d))
     @ json_raw_field ''currentValue'' (show_double (md_currentValue d))
     @ json_raw_field ''delta'' (show_double (md_delta d))
     @ json_raw_field ''baselineAccepted'' (show_bool (md_baselineAccepted d))
     @ json_raw_field ''currentAccepted'' (show_bool (md_currentAccepted d))
     @ json_raw_field ''status'' (quoted (diff_status_name (md_status d))) @ ''}''"

definition format_record_diff_json :: "record_diff \<Rightarrow> string" where
  "format_record_diff_json d =
     ''{'' @ json_string_field ''recordId'' (df_recordId d) @ '','' @ json_string_field ''suite'' (df_suite d)
     @ '','' @ json_string_field ''name'' (df_name d) @ '','' @ json_string_field ''backend'' (df_backend d)
     @ '','' @ json_string_field ''executor'' (df_executor d) @ '','' @ json_string_field ''target'' (df_target d)
     @ json_raw_field ''kind'' (quoted (record_kind_name (df_kind d)))
     @ json_raw_field ''hasBaseline'' (show_bool (df_hasBaseline d))
     @ json_raw_field ''hasCurrent'' (show_bool (df_hasCurrent d))
     @ json_raw_field ''baselineOutcome'' (quoted (outcome_name (df_baselineOutcome d)))
     @ json_raw_field ''currentOutcome'' (quoted (outcome_name (df_currentOutcome d)))
     @ json_raw_field ''status'' (quoted (diff_status_name (df_status d)))
     @ json_raw_field ''measurements''
         (''['' @ comma_join (map format_measurement_diff_json (df_measurements d)) @ '']'')
     @ ''}''"

definition format_comparison_json :: "comparison \<Rightarrow> string" where
  "format_comparison_json r =
     (let s = cr_summary r in
      ''{'' @ json_string_field ''suite'' (cr_suite r)
      @ json_raw_field ''accepted'' (show_bool (cr_accepted r))
      @ '','' @ quoted ''summary'' @ '':{'' @ quoted ''total'' @ '':'' @ show_nat (cs_total s)
      @ json_raw_field ''unchanged'' (show_nat (cs_unchanged s)) @ json_raw_field ''improved'' (show_nat (cs_improved s))
      @ json_raw_field ''regressed'' (show_nat (cs_regressed s)) @ json_raw_field ''added'' (show_nat (cs_added s))
      @ json_raw_field ''removed'' (show_nat (cs_removed s))
      @ ''},'' @ quoted ''records'' @ '':['' @ comma_join (map format_record_diff_json (cr_records r)) @ '']}'')"

section \<open>Plain text\<close>

definition opt_field :: "string \<Rightarrow> small_string \<Rightarrow> string" where
  "opt_field name v = (if ss_nonempty v then name @ ss_chars v else [])"

definition format_record_line :: "vrecord \<Rightarrow> string" where
  "format_record_line r =
     [CHR 0x0A] @ ''- ['' @ outcome_name (vr_outcome r) @ ''] '' @ ss_chars (vr_name r)
     @ opt_field '' recordId='' (vr_recordId r) @ opt_field '' backend='' (vr_backend r)
     @ opt_field '' executor='' (vr_executor r) @ opt_field '' target='' (vr_target r)
     @ '' kind='' @ record_kind_name (vr_kind r) @ '' accepted='' @ show_bool (record_accepted r)
     @ (if vr_durationNs r \<noteq> 0 then '' durationNs='' @ show_nat (unat (vr_durationNs r)) else [])"

definition format_summary_text :: "report \<Rightarrow> string" where
  "format_summary_text rp =
     (let rp = refresh_summary rp; s = rp_summary rp in
      ''suite='' @ ss_chars (rp_suite rp) @ '' schema='' @ ss_chars (rp_schemaVersion rp)
      @ '' total='' @ show_nat (sm_total s) @ '' passed='' @ show_nat (sm_passed s)
      @ '' failed='' @ show_nat (sm_failed s) @ '' skipped='' @ show_nat (sm_skipped s)
      @ '' errored='' @ show_nat (sm_errored s)
      @ concat (map format_record_line (rp_records rp)))"

definition format_measurement_line :: "measurement \<Rightarrow> string" where
  "format_measurement_line ms =
     (let t = ms_threshold ms in
      [CHR 0x0A] @ ''  * '' @ ss_chars (ms_name ms) @ ''='' @ show_double (ms_value ms)
      @ (if ss_nonempty (ms_unit ms) then '' '' @ ss_chars (ms_unit ms) else [])
      @ '' accepted='' @ show_bool (measurement_accepted ms)
      @ '' threshold.mode='' @ threshold_mode_name (th_mode t)
      @ (case th_mode t of
           Tm_less_equal \<Rightarrow> '' threshold.reference='' @ show_double (th_reference t)
             @ '' threshold.tolerance='' @ show_double (th_tolerance t)
         | Tm_greater_equal \<Rightarrow> '' threshold.reference='' @ show_double (th_reference t)
             @ '' threshold.tolerance='' @ show_double (th_tolerance t)
         | Tm_inclusive_range \<Rightarrow> '' threshold.lowerBound='' @ show_double (th_lowerBound t)
             @ '' threshold.upperBound='' @ show_double (th_upperBound t)
         | Tm_none \<Rightarrow> []))"

definition format_record_details :: "vrecord \<Rightarrow> string" where
  "format_record_details r =
     (if ss_nonempty (vr_note r) then [CHR 0x0A] @ ''  note='' @ ss_chars (vr_note r) else [])
     @ concat (map format_measurement_line (vr_measurements r))"

definition format_report_text :: "report \<Rightarrow> string" where
  "format_report_text rp =
     (let rp = refresh_summary rp in
      format_summary_text rp @ concat (map format_record_details (rp_records rp)))"

definition format_measurement_diff_line :: "measurement_diff \<Rightarrow> string" where
  "format_measurement_diff_line d =
     [CHR 0x0A] @ ''  * ['' @ diff_status_name (md_status d) @ ''] '' @ ss_chars (md_name d)
     @ opt_field '' unit='' (md_unit d)
     @ (if md_hasBaseline d then '' baselineValue='' @ show_double (md_baselineValue d) else [])
     @ (if md_hasCurrent d then '' currentValue='' @ show_double (md_currentValue d) else [])
     @ '' delta='' @ show_double (md_delta d)
     @ '' baselineAccepted='' @ show_bool (md_baselineAccepted d)
     @ '' currentAccepted='' @ show_bool (md_currentAccepted d)"

definition format_record_diff_lines :: "record_diff \<Rightarrow> string" where
  "format_record_diff_lines d =
     [CHR 0x0A] @ ''- ['' @ diff_status_name (df_status d) @ ''] '' @ ss_chars (df_name d)
     @ opt_field '' recordId='' (df_recordId d) @ opt_field '' backend='' (df_backend d)
     @ opt_field '' executor='' (df_executor d) @ opt_field '' target='' (df_target d)
     @ '' kind='' @ record_kind_name (df_kind d)
     @ '' baselineOutcome='' @ outcome_name (df_baselineOutcome d)
     @ '' currentOutcome='' @ outcome_name (df_currentOutcome d)
     @ concat (map format_measurement_diff_line (df_measurements d))"

definition comparison_head :: "comparison \<Rightarrow> string" where
  "comparison_head r =
     (let s = cr_summary r in
      ''suite='' @ ss_chars (cr_suite r) @ '' accepted='' @ show_bool (cr_accepted r)
      @ '' total='' @ show_nat (cs_total s) @ '' unchanged='' @ show_nat (cs_unchanged s)
      @ '' improved='' @ show_nat (cs_improved s) @ '' regressed='' @ show_nat (cs_regressed s)
      @ '' added='' @ show_nat (cs_added s) @ '' removed='' @ show_nat (cs_removed s))"

definition format_comparison_summary_text :: "comparison \<Rightarrow> string" where
  "format_comparison_summary_text r = comparison_head r @ concat (map format_record_diff_lines (cr_records r))"

definition format_comparison_report_text :: "comparison \<Rightarrow> string" where
  "format_comparison_report_text r = comparison_head r @ concat (map format_record_diff_lines (cr_records r))"

end
