(* ===== verification/Validation_Persistence.thy ===== *)
theory Validation_Persistence
  imports Validation_Format
begin

text \<open>
  \<open>execution/ValidationPersistence.hpp\<close>: reading a validation report back from JSON, and files of
  reports. The JSON library is not modelled: \<open>parser\<close> is what \<open>Document::Parse\<close> makes of a text, with
  no value when it reports a parse error, and a number is what \<open>GetUint64\<close>, if it applies, and
  \<open>GetDouble\<close> return for it. An output object that a failing function has partly filled is dropped by
  every caller, so a failure is only its message.
\<close>

datatype json =
  Json_null
| Json_bool bool
| Json_string string
| Json_number "u64 option" double
| Json_array "json list"
| Json_object "(string \<times> json) list"

text \<open>A result is an error message or a value.\<close>

definition and_then :: "string + 'a \<Rightarrow> ('a \<Rightarrow> string + 'b) \<Rightarrow> string + 'b" where
  "and_then r f = (case r of Inl e \<Rightarrow> Inl e | Inr x \<Rightarrow> f x)"

section \<open>Names\<close>

definition parse_threshold_mode :: "string \<Rightarrow> threshold_mode option" where
  "parse_threshold_mode s =
     (if s = ''none'' then Some Tm_none
      else if s = ''less_equal'' then Some Tm_less_equal
      else if s = ''greater_equal'' then Some Tm_greater_equal
      else if s = ''inclusive_range'' then Some Tm_inclusive_range
      else None)"

definition parse_record_kind :: "string \<Rightarrow> record_kind option" where
  "parse_record_kind s =
     (if s = ''validation'' then Some Rk_validation
      else if s = ''benchmark'' then Some Rk_benchmark
      else None)"

definition parse_outcome :: "string \<Rightarrow> outcome option" where
  "parse_outcome s =
     (if s = ''pass'' then Some Oc_pass
      else if s = ''fail'' then Some Oc_fail
      else if s = ''skip'' then Some Oc_skip
      else if s = ''error'' then Some Oc_error
      else None)"

section \<open>Fields\<close>

definition parse_string_field :: "(string \<times> json) list \<Rightarrow> string \<Rightarrow> small_string \<Rightarrow> bool \<Rightarrow> string + small_string" where
  "parse_string_field kvs name v required =
     (case map_of kvs name of
        None \<Rightarrow> if \<not> required then Inr v else Inl (''missing string field: '' @ name)
      | Some j \<Rightarrow> (case j of Json_string s \<Rightarrow> Inr (ss_of_cstr s)
                            | _ \<Rightarrow> Inl (''invalid string field: '' @ name)))"

definition parse_number_field :: "(string \<times> json) list \<Rightarrow> string \<Rightarrow> double \<Rightarrow> bool \<Rightarrow> string + double" where
  "parse_number_field kvs name v required =
     (case map_of kvs name of
        None \<Rightarrow> if \<not> required then Inr v else Inl (''missing numeric field: '' @ name)
      | Some j \<Rightarrow> (case j of Json_number i d \<Rightarrow> Inr d
                            | _ \<Rightarrow> Inl (''invalid numeric field: '' @ name)))"

definition parse_threshold :: "json \<Rightarrow> threshold \<Rightarrow> string + threshold" where
  "parse_threshold j t = (case j of
     Json_object kvs \<Rightarrow>
       and_then (parse_string_field kvs ''mode'' ss_empty True) (\<lambda>modeName.
       case parse_threshold_mode (ss_chars modeName) of
         None \<Rightarrow> Inl (''unknown threshold mode: '' @ ss_chars modeName)
       | Some mode \<Rightarrow>
         and_then (parse_number_field kvs ''reference'' (th_reference t) False) (\<lambda>reference.
         and_then (parse_number_field kvs ''tolerance'' (th_tolerance t) False) (\<lambda>tolerance.
         and_then (parse_number_field kvs ''lowerBound'' (th_lowerBound t) False) (\<lambda>lower.
         and_then (parse_number_field kvs ''upperBound'' (th_upperBound t) False) (\<lambda>upper.
         Inr \<lparr>th_mode = mode, th_reference = reference, th_tolerance = tolerance,
              th_lowerBound = lower, th_upperBound = upper\<rparr>)))))
   | _ \<Rightarrow> Inl ''threshold must be an object'')"

definition parse_measurement :: "json \<Rightarrow> measurement \<Rightarrow> string + measurement" where
  "parse_measurement j ms = (case j of
     Json_object kvs \<Rightarrow>
       and_then (parse_string_field kvs ''name'' (ms_name ms) True) (\<lambda>name.
       and_then (parse_string_field kvs ''unit'' (ms_unit ms) False) (\<lambda>unit.
       and_then (parse_number_field kvs ''value'' (ms_value ms) True) (\<lambda>val.
       case map_of kvs ''threshold'' of
         None \<Rightarrow> Inl ''missing threshold field''
       | Some tj \<Rightarrow> and_then (parse_threshold tj (ms_threshold ms)) (\<lambda>t.
           Inr \<lparr>ms_name = name, ms_unit = unit, ms_value = val, ms_threshold = t\<rparr>))))
   | _ \<Rightarrow> Inl ''measurement must be an object'')"

text \<open>The loop over an array, up to the first failure.\<close>

fun parse_items :: "('a \<Rightarrow> string + 'b) \<Rightarrow> 'a list \<Rightarrow> 'b list \<Rightarrow> string + 'b list" where
  "parse_items f [] acc = Inr acc"
| "parse_items f (j # js) acc = and_then (f j) (\<lambda>x. parse_items f js (acc @ [x]))"

definition parse_duration :: "(string \<times> json) list \<Rightarrow> u64 \<Rightarrow> string + u64" where
  "parse_duration kvs v = (case map_of kvs ''durationNs'' of
     None \<Rightarrow> Inr v
   | Some j \<Rightarrow> (case j of Json_number (Some i) d \<Rightarrow> Inr i | _ \<Rightarrow> Inl ''invalid durationNs field''))"

definition parse_measurements :: "(string \<times> json) list \<Rightarrow> string + measurement list" where
  "parse_measurements kvs = (case map_of kvs ''measurements'' of
     Some (Json_array js) \<Rightarrow> parse_items (\<lambda>j. parse_measurement j default_measurement) js []
   | _ \<Rightarrow> Inl ''record measurements must be an array'')"

definition parse_record :: "json \<Rightarrow> vrecord \<Rightarrow> string + vrecord" where
  "parse_record j r = (case j of
     Json_object kvs \<Rightarrow>
       and_then (parse_string_field kvs ''recordId'' (vr_recordId r) False) (\<lambda>recordId.
       and_then (parse_string_field kvs ''suite'' (vr_suite r) False) (\<lambda>suite.
       and_then (parse_string_field kvs ''name'' (vr_name r) True) (\<lambda>name.
       and_then (parse_string_field kvs ''backend'' (vr_backend r) False) (\<lambda>backend.
       and_then (parse_string_field kvs ''executor'' (vr_executor r) False) (\<lambda>executor.
       and_then (parse_string_field kvs ''target'' (vr_target r) False) (\<lambda>target.
       and_then (parse_string_field kvs ''note'' (vr_note r) False) (\<lambda>note.
       and_then (parse_string_field kvs ''kind'' ss_empty True) (\<lambda>kindName.
       case parse_record_kind (ss_chars kindName) of
         None \<Rightarrow> Inl (''unknown record kind: '' @ ss_chars kindName)
       | Some kind \<Rightarrow>
         and_then (parse_string_field kvs ''outcome'' ss_empty True) (\<lambda>outcomeName.
         case parse_outcome (ss_chars outcomeName) of
           None \<Rightarrow> Inl (''unknown record outcome: '' @ ss_chars outcomeName)
         | Some oc \<Rightarrow>
           and_then (parse_duration kvs (vr_durationNs r)) (\<lambda>duration.
           and_then (parse_measurements kvs) (\<lambda>mss.
           Inr \<lparr>vr_recordId = recordId, vr_suite = suite, vr_name = name, vr_backend = backend,
                vr_executor = executor, vr_target = target, vr_note = note, vr_kind = kind,
                vr_outcome = oc, vr_durationNs = duration, vr_measurements = mss\<rparr>)))))))))))
   | _ \<Rightarrow> Inl ''record must be an object'')"

section \<open>Reports\<close>

definition parse_report :: "(string \<Rightarrow> json option) \<Rightarrow> string \<Rightarrow> string + report" where
  "parse_report parser text = (case parser text of
     None \<Rightarrow> Inl ''failed to parse validation JSON''
   | Some (Json_object kvs) \<Rightarrow>
       let parsed = default_report in
       and_then (parse_string_field kvs ''schemaVersion'' (rp_schemaVersion parsed) False) (\<lambda>schema.
       and_then (parse_string_field kvs ''suite'' (rp_suite parsed) True) (\<lambda>suite.
       case map_of kvs ''records'' of
         Some (Json_array js) \<Rightarrow>
           and_then (parse_items (\<lambda>j. parse_record j default_vrecord) js []) (\<lambda>rs.
           Inr (refresh_summary (parsed\<lparr>rp_schemaVersion := schema, rp_suite := suite, rp_records := rs\<rparr>)))
       | _ \<Rightarrow> Inl ''report records must be an array''))
   | Some _ \<Rightarrow> Inl ''validation report root must be an object'')"

text \<open>An error message that may have nowhere to go, and an output that may be null.\<close>

definition set_error :: "string option \<Rightarrow> string \<Rightarrow> string option" where
  "set_error err msg = (case err of None \<Rightarrow> None | Some _ \<Rightarrow> Some msg)"

definition clear_error :: "string option \<Rightarrow> string option" where
  "clear_error err = set_error err []"

definition parse_report_json ::
    "(string \<Rightarrow> json option) \<Rightarrow> string \<Rightarrow> report option \<Rightarrow> string option \<Rightarrow> bool \<times> report option \<times> string option" where
  "parse_report_json parser text out err = (case out of
     None \<Rightarrow> (False, None, set_error err ''report output must not be null'')
   | Some rp \<Rightarrow> (case parse_report parser text of
       Inl e \<Rightarrow> (False, Some rp, set_error err e)
     | Inr parsed \<Rightarrow> (True, Some parsed, clear_error err)))"

section \<open>Files\<close>

text \<open>
  A device: the contents of its files, which of them can be opened, the room left for the file being
  written, which reads fail, and the size of a stream's buffer. A text that fits the buffer is
  written when the stream is destroyed, after it has been asked whether it is good.
\<close>

record device =
  dv_files :: "string \<Rightarrow> string option"
  dv_writable :: "string \<Rightarrow> bool"
  dv_room :: nat
  dv_badRead :: "string \<Rightarrow> bool"
  dv_buffer :: nat

definition save_report :: "report \<Rightarrow> string \<Rightarrow> string option \<Rightarrow> device \<Rightarrow> bool \<times> string option \<times> device" where
  "save_report rp path err dv =
     (if \<not> dv_writable dv path then (False, set_error err (''failed to open file for writing: '' @ path), dv)
      else let text = format_report_json rp;
               good = (length text < dv_buffer dv \<or> length text \<le> dv_room dv);
               dv = dv\<lparr>dv_files := (dv_files dv)(path \<mapsto> take (dv_room dv) text)\<rparr>
           in if \<not> good then (False, set_error err (''failed to write validation file: '' @ path), dv)
              else (True, clear_error err, dv))"

definition load_report ::
    "(string \<Rightarrow> json option) \<Rightarrow> string \<Rightarrow> report option \<Rightarrow> string option \<Rightarrow> device
      \<Rightarrow> bool \<times> report option \<times> string option" where
  "load_report parser path out err dv = (case dv_files dv path of
     None \<Rightarrow> (False, out, set_error err (''failed to open validation file: '' @ path))
   | Some text \<Rightarrow>
       if dv_badRead dv path then (False, out, set_error err (''failed to read validation file: '' @ path))
       else parse_report_json parser text out err)"

text \<open>The comparison, the optional copy of the baseline, and the message.\<close>

definition compare_to_baseline_file ::
    "(string \<Rightarrow> json option) \<Rightarrow> string \<Rightarrow> report \<Rightarrow> comparison option \<Rightarrow> report option \<Rightarrow> string option \<Rightarrow> device
      \<Rightarrow> bool \<times> comparison option \<times> report option \<times> string option" where
  "compare_to_baseline_file parser path current out baseline err dv = (case out of
     None \<Rightarrow> (False, None, baseline, set_error err ''comparison output must not be null'')
   | Some cmp \<Rightarrow>
       (let (ok, loaded, err) = load_report parser path (Some default_report) err dv in
        if \<not> ok then (False, Some cmp, baseline, err)
        else case loaded of None \<Rightarrow> (False, Some cmp, baseline, err)
          | Some b \<Rightarrow> (True, Some (compare_reports b current),
                         (case baseline of None \<Rightarrow> None | Some _ \<Rightarrow> Some b), clear_error err)))"

end
