(* ===== verification/Validation_Compare_Props.thy ===== *)
theory Validation_Compare_Props
  imports Validation_Compare
begin

text \<open>
  What a comparison of validation reports says: how the records and measurements are paired, when a
  record counts as regressed or improved, and that a report never regresses against itself.
\<close>

section \<open>The loops as pairings\<close>

definition note_record :: "record_diff \<Rightarrow> comparison \<Rightarrow> comparison" where
  "note_record d r = push_record d (if df_status d = Df_regressed then r\<lparr>cr_accepted := False\<rparr> else r)"

lemma baseline_records_pairs:
  "baseline_records cs bs matched r =
    (snd (match_loop record_identity_equal cs bs matched),
     foldl (\<lambda>r d. note_record d r) r
       (map (\<lambda>(b, c). compare_record (Some b) c) (fst (match_loop record_identity_equal cs bs matched))))"
  by (induction cs bs matched r rule: baseline_records.induct)
    (simp_all add: Let_def split_beta note_record_def)

definition note_measurement :: "measurement_diff \<Rightarrow> record_diff \<Rightarrow> record_diff" where
  "note_measurement md d = push_measurement md (d\<lparr>df_status := merge_status (md_status md) (df_status d)\<rparr>)"

lemma baseline_measurements_pairs:
  "baseline_measurements cs bs matched d =
    (snd (match_loop measurement_identity_equal cs bs matched),
     foldl (\<lambda>d md. note_measurement md d) d
       (map (\<lambda>(b, c). compare_measurement (Some b) c) (fst (match_loop measurement_identity_equal cs bs matched))))"
  by (induction cs bs matched d rule: baseline_measurements.induct)
    (simp_all add: Let_def split_beta note_measurement_def)

lemma match_loop_identity:
  "list_all (\<lambda>(b, c). case c of None \<Rightarrow> True | Some c \<Rightarrow> p b c) (fst (match_loop p cs bs matched))"
  by (induction p cs bs matched rule: match_loop.induct)
    (auto simp: Let_def split_beta match_index_Some split: option.split)

section \<open>Records\<close>

lemma added_status: "md_status (compare_measurement None (Some c)) = Df_added"
  by (simp add: compare_measurement_def Let_def)

lemma record_added_status: "df_status (compare_record None (Some c)) = Df_added"
proof -
  have "df_status (added_measurements cs d) = df_status d" for cs d
    by (induction cs arbitrary: d) (simp_all add: added_measurements_def push_measurement_def)
  then show ?thesis by (simp add: compare_record_def Let_def)
qed

lemma note_measurement_foldl:
  "df_measurements (foldl (\<lambda>d md. note_measurement md d) d mds) = df_measurements d @ mds
   \<and> df_status (foldl (\<lambda>d md. note_measurement md d) d mds) =
      foldl (\<lambda>st md. merge_status (md_status md) st) (df_status d) mds"
  by (induction mds arbitrary: d) (simp_all add: note_measurement_def push_measurement_def)

lemma added_foldl:
  "df_measurements (added_measurements cs d) = df_measurements d @ map (\<lambda>c. compare_measurement None (Some c)) cs
   \<and> df_status (added_measurements cs d) = df_status d"
  by (induction cs arbitrary: d) (simp_all add: added_measurements_def push_measurement_def)

lemma merge_foldl:
  "st \<in> {Df_unchanged, Df_improved, Df_regressed} \<Longrightarrow>
   foldl (\<lambda>st md. merge_status (md_status md) st) st mds =
     (if st = Df_regressed \<or> list_ex (\<lambda>md. md_status md = Df_regressed) mds then Df_regressed
      else if st = Df_improved \<or> list_ex (\<lambda>md. md_status md = Df_improved) mds then Df_improved
      else Df_unchanged)"
  by (induction mds arbitrary: st) (auto simp: merge_status_def)

definition regresses :: "measurement \<times> measurement option \<Rightarrow> bool" where
  "regresses bc = (case bc of (b, c) \<Rightarrow> (case c of None \<Rightarrow> False
     | Some c \<Rightarrow> measurement_accepted b \<and> \<not> measurement_accepted c))"

definition improves :: "measurement \<times> measurement option \<Rightarrow> bool" where
  "improves bc = (case bc of (b, c) \<Rightarrow> (case c of None \<Rightarrow> False
     | Some c \<Rightarrow> \<not> measurement_accepted b \<and> measurement_accepted c))"

lemma paired_status:
  "md_status (compare_measurement (Some b) c) = Df_regressed \<longleftrightarrow> regresses (b, c)"
  "md_status (compare_measurement (Some b) c) = Df_improved \<longleftrightarrow> improves (b, c)"
  by (auto simp: compare_measurement_def Let_def regresses_def improves_def split: option.split)

lemma list_ex_paired:
  "list_ex (\<lambda>md. md_status md = Df_regressed) (map (\<lambda>(b, c). compare_measurement (Some b) c) ps) = list_ex regresses ps"
  "list_ex (\<lambda>md. md_status md = Df_improved) (map (\<lambda>(b, c). compare_measurement (Some b) c) ps) = list_ex improves ps"
  by (induction ps) (auto simp: paired_status)


section \<open>Reports\<close>

lemma note_record_foldl:
  fixes r :: comparison
  defines "n \<equiv> \<lambda>st ds. length (filter (\<lambda>d. df_status d = st) ds)"
  shows "foldl (\<lambda>r d. note_record d r) r ds = r\<lparr>cr_records := cr_records r @ ds,
     cr_accepted := (cr_accepted r \<and> list_all (\<lambda>d. df_status d \<noteq> Df_regressed) ds),
     cr_summary := \<lparr>cs_total = cs_total (cr_summary r) + length ds,
       cs_unchanged = cs_unchanged (cr_summary r) + n Df_unchanged ds,
       cs_improved = cs_improved (cr_summary r) + n Df_improved ds,
       cs_regressed = cs_regressed (cr_summary r) + n Df_regressed ds,
       cs_added = cs_added (cr_summary r) + n Df_added ds,
       cs_removed = cs_removed (cr_summary r) + n Df_removed ds\<rparr>\<rparr>"
proof (induction ds arbitrary: r)
  case (Cons d ds)
  have "note_record d r = r\<lparr>cr_records := cr_records r @ [d],
     cr_accepted := (cr_accepted r \<and> df_status d \<noteq> Df_regressed),
     cr_summary := comparison_observe (df_status d) (cr_summary r)\<rparr>"
    by (simp add: note_record_def push_record_def)
  then show ?case unfolding foldl.simps Cons.IH
    by (cases "df_status d") (simp_all add: comparison_observe_def Let_def n_def)
qed (simp add: n_def)

lemma push_added:
  "foldl (\<lambda>r c. push_record (compare_record None (Some c)) r) r cs =
   foldl (\<lambda>r d. note_record d r) r (map (\<lambda>c. compare_record None (Some c)) cs)"
  by (induction cs arbitrary: r) (simp_all add: note_record_def record_added_status)

lemma compare_reports_pairs:
  fixes b c :: report
  defines "m \<equiv> match_loop record_identity_equal (rp_records c) (rp_records b) (replicate (length (rp_records c)) False)"
  shows "compare_reports b c = foldl (\<lambda>r d. note_record d r)
      (default_comparison\<lparr>cr_suite := if ss_nonempty (rp_suite c) then rp_suite c else rp_suite b\<rparr>)
      (map (\<lambda>(x, y). compare_record (Some x) y) (fst m)
       @ map (\<lambda>y. compare_record None (Some y)) (unmatched (rp_records c) (snd m)))"
  by (simp add: compare_reports_def Let_def baseline_records_pairs push_added m_def)


section \<open>A report against itself\<close>

definition measurement_ok :: "measurement \<Rightarrow> bool" where
  "measurement_ok ms \<longleftrightarrow> ss_ok (ms_name ms) \<and> ss_ok (ms_unit ms)"

definition vrecord_ok :: "vrecord \<Rightarrow> bool" where
  "vrecord_ok r \<longleftrightarrow> ss_ok (vr_recordId r) \<and> ss_ok (vr_suite r) \<and> ss_ok (vr_name r) \<and> ss_ok (vr_backend r)
     \<and> ss_ok (vr_executor r) \<and> ss_ok (vr_target r) \<and> ss_ok (vr_note r) \<and> list_all measurement_ok (vr_measurements r)"

definition report_ok :: "report \<Rightarrow> bool" where
  "report_ok rp \<longleftrightarrow> ss_ok (rp_schemaVersion rp) \<and> ss_ok (rp_suite rp) \<and> list_all vrecord_ok (rp_records rp)"

lemma ss_same_iff: "ss_ok a \<Longrightarrow> ss_same a b \<longleftrightarrow> ss_chars a = ss_chars b"
  by (simp add: ss_same_def ss_eq_chars)

lemma match_index_first:
  assumes "n = k + j" and "0 < j" and "length cs = n" and "p (cs ! k)"
  shows "match_index p cs (replicate k True @ replicate j False) = Some k"
proof -
  have "(replicate k True @ replicate j False) ! k = False" using assms(2) by (simp add: nth_append)
  moreover have "(replicate k True @ replicate j False) ! i = True" if "i < k" for i
    using that by (simp add: nth_append)
  ultimately show ?thesis
    unfolding match_index_def find_Some_iff by (intro exI [of _ k]) (use assms in auto)
qed

lemma match_loop_self:
  assumes "\<And>x. x \<in> set cs \<Longrightarrow> p x x" and "length cs = k + j"
  shows "match_loop p cs (drop k cs) (replicate k True @ replicate j False)
    = (map (\<lambda>x. (x, Some x)) (drop k cs), replicate (k + j) True)"
  using assms(2)
proof (induction j arbitrary: k)
  case (Suc j)
  then have k: "k < length cs" by simp
  have "match_index (p (cs ! k)) cs (replicate k True @ replicate (Suc j) False) = Some k"
    by (rule match_index_first) (use Suc.prems k assms(1) in auto)
  moreover have "(replicate k True @ replicate (Suc j) False)[k := True] = replicate (Suc k) True @ replicate j False"
    by (simp add: list_update_append replicate_append_same flip: replicate_app_Cons_same)
  ultimately show ?case
    using Suc.IH [of "Suc k"] Suc.prems k by (simp add: Cons_nth_drop_Suc [OF k, symmetric] set_matched_def)
qed simp

lemma match_loop_refl:
  assumes "\<And>x. x \<in> set cs \<Longrightarrow> p x x"
  shows "match_loop p cs cs (replicate (length cs) False) = (map (\<lambda>x. (x, Some x)) cs, replicate (length cs) True)"
  using match_loop_self [of cs p 0 "length cs"] assms by simp

lemma unmatched_none: "unmatched cs (replicate (length cs) True) = []"
  by (simp add: unmatched_def)

lemma identity_refl:
  "vrecord_ok r \<Longrightarrow> record_identity_equal r r" "measurement_ok ms \<Longrightarrow> measurement_identity_equal ms ms"
  by (simp_all add: record_identity_equal_def measurement_identity_equal_def ss_same_iff vrecord_ok_def measurement_ok_def)

lemma measurement_self_status: "md_status (compare_measurement (Some ms) (Some ms)) = Df_unchanged"
  by (simp add: compare_measurement_def Let_def)

lemma record_self_status:
  assumes "vrecord_ok r" shows "df_status (compare_record (Some r) (Some r)) = Df_unchanged"
proof -
  let ?ms = "vr_measurements r"
  have m: "match_loop measurement_identity_equal ?ms ?ms (replicate (length ?ms) False)
      = (map (\<lambda>x. (x, Some x)) ?ms, replicate (length ?ms) True)"
    by (rule match_loop_refl) (use assms in \<open>auto simp: vrecord_ok_def list_all_iff identity_refl\<close>)
  have "foldl (\<lambda>st md. merge_status (md_status md) st) Df_unchanged
      (map (\<lambda>x. compare_measurement (Some x) (Some x)) ms) = Df_unchanged" for ms
    by (induction ms) (simp_all add: merge_status_def measurement_self_status)
  then show ?thesis
    by (simp add: compare_record_def Let_def baseline_measurements_pairs m added_foldl note_measurement_foldl
        compare_outcome_progress_def o_def)
qed

text \<open>
  A report compared with itself is accepted, has one difference per record, and every one is
  unchanged, whatever its thresholds, its duplicates and its records without identifiers.
\<close>
theorem comparison_reflexive:
  assumes "report_ok rp"
  shows "cr_accepted (compare_reports rp rp)
    \<and> length (cr_records (compare_reports rp rp)) = length (rp_records rp)
    \<and> list_all (\<lambda>d. df_status d = Df_unchanged) (cr_records (compare_reports rp rp))"
proof -
  let ?rs = "rp_records rp"
  have ok: "\<And>r. r \<in> set ?rs \<Longrightarrow> vrecord_ok r" using assms by (simp add: report_ok_def list_all_iff)
  have m: "match_loop record_identity_equal ?rs ?rs (replicate (length ?rs) False)
      = (map (\<lambda>x. (x, Some x)) ?rs, replicate (length ?rs) True)"
    by (rule match_loop_refl) (simp add: identity_refl ok)
  have "list_all (\<lambda>d. df_status d = Df_unchanged) (map (\<lambda>x. compare_record (Some x) (Some x)) ?rs)"
    using ok by (simp add: list_all_iff record_self_status)
  moreover have "list_all (\<lambda>d. df_status d \<noteq> Df_regressed) (map (\<lambda>x. compare_record (Some x) (Some x)) ?rs)"
    using ok by (simp add: list_all_iff record_self_status)
  ultimately show ?thesis
    unfolding compare_reports_pairs note_record_foldl m
    by (simp add: unmatched_none o_def default_comparison_def)
qed

definition sample_measurement :: "nat \<Rightarrow> measurement" where
  "sample_measurement n = default_measurement\<lparr>ms_name := ss_of_cstr ''time'', ms_value := double52 False n,
     ms_threshold := default_threshold\<lparr>th_mode := Tm_less_equal, th_reference := double52 False (2 ^ 52)\<rparr>\<rparr>"

definition sample_report :: "nat \<Rightarrow> report" where
  "sample_report n = default_report\<lparr>rp_suite := ss_of_cstr ''core'', rp_records :=
     [default_vrecord\<lparr>vr_name := ss_of_cstr ''sort'', vr_measurements := [sample_measurement n]\<rparr>]\<rparr>"

lemma ss_ok_simps [simp]: "ss_ok ss_empty" "no_nul s \<Longrightarrow> ss_ok (ss_of_cstr s)"
  by (simp_all add: ss_of_cstr_chars) (simp add: ss_ok_def ss_empty_def nbytes_def)

lemma sample_report_ok: "report_ok (sample_report n)"
  by (simp add: report_ok_def vrecord_ok_def measurement_ok_def sample_report_def sample_measurement_def
      default_report_def default_vrecord_def default_measurement_def no_nul_def nul_def)

theorem comparison_reflexive_witness:
  "cr_accepted (compare_reports (sample_report 7) (sample_report 7))
    \<and> length (cr_records (compare_reports (sample_report 7) (sample_report 7))) = 1"
  using comparison_reflexive [OF sample_report_ok [of 7]] by (simp add: sample_report_def default_report_def)

end
