(* ===== verification/Validation_Json.thy ===== *)
theory Validation_Json
  imports Validation_Persistence Validation_Compare_Props
begin

text \<open>
  What the JSON printers write and the readers accept, stated over documents: the printers write the
  rendering of a document, and the readers take the values of that document back to the report.
\<close>

section \<open>Documents\<close>

datatype jdoc = Jstr string | Jnum string | Jbool bool | Jarr "jdoc list" | Jobj "(string \<times> jdoc) list"

fun render :: "jdoc \<Rightarrow> string"
  and render_items :: "jdoc list \<Rightarrow> string list"
  and render_members :: "(string \<times> jdoc) list \<Rightarrow> string list" where
  "render (Jstr s) = quoted (json_escaped s)"
| "render (Jnum t) = t"
| "render (Jbool b) = show_bool b"
| "render (Jarr ds) = ''['' @ comma_join (render_items ds) @ '']''"
| "render (Jobj kvs) = ''{'' @ comma_join (render_members kvs) @ ''}''"
| "render_items [] = []"
| "render_items (d # ds) = render d # render_items ds"
| "render_members [] = []"
| "render_members ((k, d) # kvs) = (quoted k @ '':'' @ render d) # render_members kvs"

definition jss :: "small_string \<Rightarrow> jdoc" where
  "jss s = Jstr (ss_chars s)"

definition jdouble :: "double \<Rightarrow> jdoc" where
  "jdouble d = Jnum (show_double d)"

definition jnat :: "nat \<Rightarrow> jdoc" where
  "jnat n = Jnum (show_nat n)"

definition threshold_doc :: "threshold \<Rightarrow> jdoc" where
  "threshold_doc t = Jobj [(''mode'', Jstr (threshold_mode_name (th_mode t))), (''reference'', jdouble (th_reference t)),
     (''tolerance'', jdouble (th_tolerance t)), (''lowerBound'', jdouble (th_lowerBound t)),
     (''upperBound'', jdouble (th_upperBound t))]"

definition measurement_doc :: "measurement \<Rightarrow> jdoc" where
  "measurement_doc ms = Jobj [(''name'', jss (ms_name ms)), (''unit'', jss (ms_unit ms)), (''value'', jdouble (ms_value ms)),
     (''accepted'', Jbool (measurement_accepted ms)), (''threshold'', threshold_doc (ms_threshold ms))]"

definition record_doc :: "vrecord \<Rightarrow> jdoc" where
  "record_doc r = Jobj [(''recordId'', jss (vr_recordId r)), (''suite'', jss (vr_suite r)), (''name'', jss (vr_name r)),
     (''backend'', jss (vr_backend r)), (''executor'', jss (vr_executor r)), (''target'', jss (vr_target r)),
     (''note'', jss (vr_note r)), (''kind'', Jstr (record_kind_name (vr_kind r))),
     (''outcome'', Jstr (outcome_name (vr_outcome r))), (''durationNs'', jnat (unat (vr_durationNs r))),
     (''accepted'', Jbool (record_accepted r)), (''measurements'', Jarr (map measurement_doc (vr_measurements r)))]"

definition report_doc :: "report \<Rightarrow> jdoc" where
  "report_doc rp = (let s = rp_summary (refresh_summary rp) in
     Jobj [(''schemaVersion'', jss (rp_schemaVersion rp)), (''suite'', jss (rp_suite rp)),
       (''summary'', Jobj [(''total'', jnat (sm_total s)), (''passed'', jnat (sm_passed s)),
          (''failed'', jnat (sm_failed s)), (''skipped'', jnat (sm_skipped s)), (''errored'', jnat (sm_errored s))]),
       (''records'', Jarr (map record_doc (rp_records rp)))])"

definition measurement_diff_doc :: "measurement_diff \<Rightarrow> jdoc" where
  "measurement_diff_doc d = Jobj [(''name'', jss (md_name d)), (''unit'', jss (md_unit d)),
     (''hasBaseline'', Jbool (md_hasBaseline d)), (''hasCurrent'', Jbool (md_hasCurrent d)),
     (''baselineValue'', jdouble (md_baselineValue d)), (''currentValue'', jdouble (md_currentValue d)),
     (''delta'', jdouble (md_delta d)), (''baselineAccepted'', Jbool (md_baselineAccepted d)),
     (''currentAccepted'', Jbool (md_currentAccepted d)), (''status'', Jstr (diff_status_name (md_status d)))]"

definition record_diff_doc :: "record_diff \<Rightarrow> jdoc" where
  "record_diff_doc d = Jobj [(''recordId'', jss (df_recordId d)), (''suite'', jss (df_suite d)), (''name'', jss (df_name d)),
     (''backend'', jss (df_backend d)), (''executor'', jss (df_executor d)), (''target'', jss (df_target d)),
     (''kind'', Jstr (record_kind_name (df_kind d))), (''hasBaseline'', Jbool (df_hasBaseline d)),
     (''hasCurrent'', Jbool (df_hasCurrent d)), (''baselineOutcome'', Jstr (outcome_name (df_baselineOutcome d))),
     (''currentOutcome'', Jstr (outcome_name (df_currentOutcome d))), (''status'', Jstr (diff_status_name (df_status d))),
     (''measurements'', Jarr (map measurement_diff_doc (df_measurements d)))]"

definition comparison_doc :: "comparison \<Rightarrow> jdoc" where
  "comparison_doc r = (let s = cr_summary r in
     Jobj [(''suite'', jss (cr_suite r)), (''accepted'', Jbool (cr_accepted r)),
       (''summary'', Jobj [(''total'', jnat (cs_total s)), (''unchanged'', jnat (cs_unchanged s)),
          (''improved'', jnat (cs_improved s)), (''regressed'', jnat (cs_regressed s)), (''added'', jnat (cs_added s)),
          (''removed'', jnat (cs_removed s))]),
       (''records'', Jarr (map record_diff_doc (cr_records r)))])"

section \<open>The printers\<close>

lemma render_items_map: "render_items ds = map render ds"
  by (induction ds) simp_all

lemma no_escapes [simp]:
  "json_escaped (threshold_mode_name t) = threshold_mode_name t"
  "json_escaped (record_kind_name k) = record_kind_name k"
  "json_escaped (outcome_name oc) = outcome_name oc"
  "json_escaped (diff_status_name st) = diff_status_name st"
proof -
  show "json_escaped (threshold_mode_name t) = threshold_mode_name t"
    by (cases t) (simp_all add: json_escaped_def json_escape_char_def threshold_mode_name_def)
  show "json_escaped (record_kind_name k) = record_kind_name k"
    by (cases k) (simp_all add: json_escaped_def json_escape_char_def record_kind_name_def)
  show "json_escaped (outcome_name oc) = outcome_name oc"
    by (cases oc) (simp_all add: json_escaped_def json_escape_char_def outcome_name_def)
  show "json_escaped (diff_status_name st) = diff_status_name st"
    by (cases st) (simp_all add: json_escaped_def json_escape_char_def diff_status_name_def)
qed

lemmas doc_defs = json_string_field_def json_raw_field_def jss_def jdouble_def jnat_def

lemma measurement_renders: "format_measurement_json ms = render (measurement_doc ms)"
  by (simp add: format_measurement_json_def measurement_doc_def threshold_doc_def doc_defs)

lemma record_renders: "format_record_json r = render (record_doc r)"
  by (simp add: format_record_json_def record_doc_def doc_defs render_items_map ext [OF measurement_renders] o_def)

lemma measurement_diff_renders: "format_measurement_diff_json d = render (measurement_diff_doc d)"
  by (simp add: format_measurement_diff_json_def measurement_diff_doc_def doc_defs)

lemma record_diff_renders: "format_record_diff_json d = render (record_diff_doc d)"
  by (simp add: format_record_diff_json_def record_diff_doc_def doc_defs render_items_map ext [OF measurement_diff_renders] o_def)

lemma report_renders: "format_report_json rp = render (report_doc rp)"
  by (simp add: format_report_json_def report_doc_def doc_defs render_items_map ext [OF record_renders] o_def Let_def refresh_summary_def)


section \<open>Reading back\<close>

text \<open>\<open>num\<close> is how the JSON library reads the text of a number.\<close>

type_synonym reader = "string \<Rightarrow> u64 option \<times> double"

fun value_of :: "reader \<Rightarrow> jdoc \<Rightarrow> json"
  and values_of :: "reader \<Rightarrow> jdoc list \<Rightarrow> json list"
  and members_of :: "reader \<Rightarrow> (string \<times> jdoc) list \<Rightarrow> (string \<times> json) list" where
  "value_of num (Jstr s) = Json_string s"
| "value_of num (Jnum t) = Json_number (fst (num t)) (snd (num t))"
| "value_of num (Jbool b) = Json_bool b"
| "value_of num (Jarr ds) = Json_array (values_of num ds)"
| "value_of num (Jobj kvs) = Json_object (members_of num kvs)"
| "values_of num [] = []"
| "values_of num (d # ds) = value_of num d # values_of num ds"
| "members_of num [] = []"
| "members_of num ((k, d) # kvs) = (k, value_of num d) # members_of num kvs"

lemma values_of_map: "values_of num ds = map (value_of num) ds"
  by (induction ds) simp_all

text \<open>What a report is after its strings and doubles have been through their texts.\<close>

definition reread_ss :: "small_string \<Rightarrow> small_string" where
  "reread_ss s = ss_of_cstr (ss_chars s)"

definition reread_double :: "reader \<Rightarrow> double \<Rightarrow> double" where
  "reread_double num d = snd (num (show_double d))"

definition reread_threshold :: "reader \<Rightarrow> threshold \<Rightarrow> threshold" where
  "reread_threshold num t = \<lparr>th_mode = th_mode t, th_reference = reread_double num (th_reference t),
     th_tolerance = reread_double num (th_tolerance t), th_lowerBound = reread_double num (th_lowerBound t),
     th_upperBound = reread_double num (th_upperBound t)\<rparr>"

definition reread_measurement :: "reader \<Rightarrow> measurement \<Rightarrow> measurement" where
  "reread_measurement num ms = \<lparr>ms_name = reread_ss (ms_name ms), ms_unit = reread_ss (ms_unit ms),
     ms_value = reread_double num (ms_value ms), ms_threshold = reread_threshold num (ms_threshold ms)\<rparr>"

definition reread_record :: "reader \<Rightarrow> vrecord \<Rightarrow> vrecord" where
  "reread_record num r = \<lparr>vr_recordId = reread_ss (vr_recordId r), vr_suite = reread_ss (vr_suite r),
     vr_name = reread_ss (vr_name r), vr_backend = reread_ss (vr_backend r), vr_executor = reread_ss (vr_executor r),
     vr_target = reread_ss (vr_target r), vr_note = reread_ss (vr_note r), vr_kind = vr_kind r,
     vr_outcome = vr_outcome r, vr_durationNs = vr_durationNs r,
     vr_measurements = map (reread_measurement num) (vr_measurements r)\<rparr>"

definition reread_report :: "reader \<Rightarrow> report \<Rightarrow> report" where
  "reread_report num rp = refresh_summary (rp\<lparr>rp_schemaVersion := reread_ss (rp_schemaVersion rp),
     rp_suite := reread_ss (rp_suite rp), rp_records := map (reread_record num) (rp_records rp)\<rparr>)"

lemma short_name:
  "no_nul s \<Longrightarrow> length s \<le> 31 \<Longrightarrow> ss_chars (ss_of_cstr s) = s"
  by (simp add: ss_of_cstr_chars nbytes_def)

lemma names_read [simp]:
  "parse_threshold_mode (ss_chars (ss_of_cstr (threshold_mode_name t))) = Some t"
  "parse_record_kind (ss_chars (ss_of_cstr (record_kind_name k))) = Some k"
  "parse_outcome (ss_chars (ss_of_cstr (outcome_name oc))) = Some oc"
proof -
  show "parse_threshold_mode (ss_chars (ss_of_cstr (threshold_mode_name t))) = Some t"
    by (cases t) (simp_all add: threshold_mode_name_def parse_threshold_mode_def short_name no_nul_def nul_def)
  show "parse_record_kind (ss_chars (ss_of_cstr (record_kind_name k))) = Some k"
    by (cases k) (simp_all add: record_kind_name_def parse_record_kind_def short_name no_nul_def nul_def)
  show "parse_outcome (ss_chars (ss_of_cstr (outcome_name oc))) = Some oc"
    by (cases oc) (simp_all add: outcome_name_def parse_outcome_def short_name no_nul_def nul_def)
qed

lemma and_then_Inr [simp]: "and_then (Inr x) f = f x"
  by (simp add: and_then_def)

lemma parse_items_map: "\<lbrakk>\<And>x. x \<in> set xs \<Longrightarrow> f (g x) = Inr (h x)\<rbrakk> \<Longrightarrow> parse_items f (map g xs) acc = Inr (acc @ map h xs)"
  by (induction xs arbitrary: acc) simp_all

lemma threshold_reads: "parse_threshold (value_of num (threshold_doc t)) t' = Inr (reread_threshold num t)"
  by (simp add: parse_threshold_def threshold_doc_def parse_string_field_def parse_number_field_def jdouble_def
      reread_threshold_def reread_double_def)

lemma measurement_reads: "parse_measurement (value_of num (measurement_doc ms)) d = Inr (reread_measurement num ms)"
  by (simp add: parse_measurement_def measurement_doc_def parse_string_field_def parse_number_field_def jdouble_def
      jss_def threshold_reads reread_measurement_def reread_double_def reread_ss_def)

lemma record_reads:
  assumes "fst (num (show_nat (unat (vr_durationNs r)))) = Some (vr_durationNs r)"
  shows "parse_record (value_of num (record_doc r)) d = Inr (reread_record num r)"
proof -
  have "parse_items (\<lambda>j. parse_measurement j default_measurement)
      (map (\<lambda>x. value_of num (measurement_doc x)) (vr_measurements r)) []
    = Inr ([] @ map (reread_measurement num) (vr_measurements r))"
    by (rule parse_items_map) (rule measurement_reads)
  then show ?thesis using assms
    by (simp add: parse_record_def record_doc_def parse_string_field_def parse_duration_def parse_measurements_def
        jss_def jnat_def values_of_map reread_record_def reread_ss_def o_def)
qed

lemma report_reads:
  assumes "\<And>r. r \<in> set (rp_records rp) \<Longrightarrow> fst (num (show_nat (unat (vr_durationNs r)))) = Some (vr_durationNs r)"
    and "parser text = Some (value_of num (report_doc rp))"
  shows "parse_report parser text = Inr (reread_report num rp)"
proof -
  have "parse_items (\<lambda>j. parse_record j default_vrecord) (map (\<lambda>x. value_of num (record_doc x)) (rp_records rp)) []
      = Inr ([] @ map (reread_record num) (rp_records rp))"
    by (rule parse_items_map) (simp add: record_reads assms(1))
  then show ?thesis
    by (simp add: parse_report_def assms(2) report_doc_def Let_def parse_string_field_def jss_def values_of_map
        reread_report_def reread_ss_def default_report_def refresh_summary_def o_def)
qed


text \<open>A reader of decimal numbers.\<close>

definition read_nat :: "string \<Rightarrow> nat" where
  "read_nat s = foldl (\<lambda>n c. 10 * n + (of_char c - 48)) 0 s"

lemma read_show_nat: "read_nat (show_nat n) = n"
proof (induction n rule: show_nat.induct)
  case (1 n)
  have d: "of_char (digit k) = 48 + k" if "k < 10" for k
  proof -
    have "k \<in> {0, 1, 2, 3, 4, 5, 6, 7, 8, 9}" using that by auto
    then show ?thesis by (auto simp: digit_def)
  qed
  show ?case
  proof (cases "n < 10")
    case True
    then show ?thesis using d [of n] by (subst show_nat.simps) (simp add: read_nat_def)
  next
    case False
    then show ?thesis using 1 d [of "n mod 10"] by (subst show_nat.simps) (simp add: read_nat_def)
  qed
qed

definition decimal_reader :: reader where
  "decimal_reader t = (Some (of_nat (read_nat t)), double52 False (read_nat t * 2 ^ 52))"

definition only_parser :: "report \<Rightarrow> string \<Rightarrow> json option" where
  "only_parser rp s = (if s = render (report_doc rp) then Some (value_of decimal_reader (report_doc rp)) else None)"

definition big_device :: "nat \<Rightarrow> nat \<Rightarrow> device" where
  "big_device n b = \<lparr>dv_files = (\<lambda>_. None), dv_writable = (\<lambda>_. True), dv_room = n, dv_badRead = (\<lambda>_. False), dv_buffer = b\<rparr>"


section \<open>What is not kept\<close>

text \<open>A value above its bound by less than the printed precision.\<close>

definition close_report :: report where
  "close_report = sample_report (2 ^ 52 + 1)"

lemma close_record: "rp_records close_report = [default_vrecord\<lparr>vr_name := ss_of_cstr ''sort'',
    vr_measurements := [sample_measurement (2 ^ 52 + 1)]\<rparr>]"
  by (simp add: close_report_def sample_report_def default_report_def)

lemma sample_accepted: "nbits k \<le> 53 \<Longrightarrow> measurement_accepted (sample_measurement k) \<longleftrightarrow> k \<le> 2 ^ 52"
  using dadd_double52_zero [of "2 ^ 52"] nbits_one(1)
  by (simp add: measurement_accepted_def satisfied_by_def sample_measurement_def default_measurement_def
      default_threshold_def dle_double52)

lemma sample_rereads:
  assumes "snd (num ''1'') = double52 False (2 ^ 52)" and "snd (num ''0'') = dzero"
  shows "reread_measurement num (sample_measurement (2 ^ 52 + 1)) = (sample_measurement (2 ^ 52))
    \<lparr>ms_name := reread_ss (ss_of_cstr ''time''), ms_unit := reread_ss ss_empty\<rparr>"
proof -
  have z: "show_double dzero = ''0''" by (simp add: dzero_def show_mag_def)
  show ?thesis
    by (simp add: reread_measurement_def reread_threshold_def reread_double_def sample_measurement_def
        default_measurement_def default_threshold_def z show_double_samples [simplified] assms)
qed

lemma saved_baseline_differs:
  assumes "snd (num ''1'') = double52 False (2 ^ 52)" and "snd (num ''0'') = dzero"
  shows "\<not> cr_accepted (compare_reports (reread_report num close_report) close_report)"
proof -
  define c where "c = rp_records close_report ! 0"
  let ?b = "reread_record num c"
  have c: "rp_records close_report = [c]" "rp_records (reread_report num close_report) = [?b]"
    and cd: "c = default_vrecord\<lparr>vr_name := ss_of_cstr ''sort'', vr_measurements := [sample_measurement (2 ^ 52 + 1)]\<rparr>"
    by (simp_all add: c_def close_record reread_report_def refresh_summary_def)
  have nn: "no_nul ''sort''" "no_nul ''time''" "no_nul []" by (simp_all add: no_nul_def nul_def)
  have e: "ss_chars ss_empty = []" "ss_size ss_empty = Some 0"
    by (simp_all add: ss_chars_def ss_empty_def nbytes_def ss_size_def numeral_eq_Suc)
  have "ss_chars (reread_ss ss_empty) = []" using short_name [OF nn(3)] by (simp add: reread_ss_def e)
  note ss = e this
  have ok: "ss_ok (reread_ss s)" for s by (simp add: reread_ss_def)
  have same: "ss_same (reread_ss s) s" if "length (ss_chars s) \<le> 31" for s
    using that by (simp add: ss_same_iff ok) (simp add: reread_ss_def short_name)
  have len: "length (ss_chars (ss_of_cstr ''sort'')) \<le> 31" "length (ss_chars (ss_of_cstr ''time'')) \<le> 31"
    using nn by (simp_all add: short_name)
  have m: "measurement_identity_equal (reread_measurement num (sample_measurement (2 ^ 52 + 1))) (sample_measurement (2 ^ 52 + 1))"
    unfolding measurement_identity_equal_def reread_measurement_def
    by (simp add: sample_measurement_def default_measurement_def same len ss)
  have id: "record_identity_equal ?b c"
    by (simp add: record_identity_equal_def reread_record_def cd default_vrecord_def same len ss
        has_stable_id_def ss_nonempty_def)
  have reg: "regresses (reread_measurement num (sample_measurement (2 ^ 52 + 1)), Some (sample_measurement (2 ^ 52 + 1)))"
  proof -
    have "measurement_accepted (reread_measurement num (sample_measurement (2 ^ 52 + 1)))"
      using sample_accepted [OF nbits_one(1) [THEN eq_imp_le]]
      unfolding sample_rereads [OF assms] by (simp add: measurement_accepted_def)
    moreover have "\<not> measurement_accepted (sample_measurement (2 ^ 52 + 1))"
      using sample_accepted [OF nbits_one(2) [THEN eq_imp_le]] by simp
    ultimately show ?thesis by (simp add: regresses_def)
  qed
  have "df_status (compare_record (Some ?b) (Some c)) = Df_regressed"
    using reg m unfolding paired_status(1) [symmetric]
    by (simp add: compare_record_def cd Let_def baseline_measurements_pairs added_foldl note_measurement_foldl
        reread_record_def match_index_def note_measurement_def push_measurement_def merge_status_def)
  then show ?thesis using id
    by (simp add: compare_reports_pairs note_record_foldl c match_index_def)
qed

text \<open>
  C34: a report whose measurement exceeds its bound by less than the six digits that are printed is
  rejected, but read back from its file it is accepted; so comparing the report with the baseline file
  it was itself saved to finds a regression. Assumed of the JSON library: it parses the document and
  reads the numbers 0 and 1.
\<close>
theorem saved_baseline_regresses:
  assumes "parser (render (report_doc close_report)) = Some (value_of num (report_doc close_report))"
    and "fst (num ''0'') = Some 0" "snd (num ''1'') = double52 False (2 ^ 52)" "snd (num ''0'') = dzero"
    and "dv_files dv path = Some (format_report_json close_report)" "\<not> dv_badRead dv path"
  shows "\<not> list_all record_accepted (rp_records close_report)
    \<and> (\<exists>r b. compare_to_baseline_file parser path close_report (Some default_comparison) (Some default_report) err dv
          = (True, Some r, Some b, clear_error err)
        \<and> list_all record_accepted (rp_records b) \<and> \<not> cr_accepted r)"
proof -
  let ?rp = "reread_report num close_report"
  have "show_nat 0 = ''0''" by (simp add: show_nat.simps digit_def)
  then have "parse_report parser (format_report_json close_report) = Inr ?rp"
    unfolding report_renders
    by (intro report_reads [where num = num])
      (simp_all add: close_record default_vrecord_def assms(1,2))
  then have "compare_to_baseline_file parser path close_report (Some default_comparison) (Some default_report) err dv
      = (True, Some (compare_reports ?rp close_report), Some ?rp, clear_error (clear_error err))"
    using assms(5,6) by (simp add: compare_to_baseline_file_def load_report_def parse_report_json_def)
  moreover have "clear_error (clear_error err) = clear_error err"
    by (simp add: clear_error_def set_error_def split: option.split)
  moreover have "\<not> measurement_accepted (sample_measurement (2 ^ 52 + 1))"
    using sample_accepted [OF nbits_one(2) [THEN eq_imp_le]] by simp
  then have "\<not> list_all record_accepted (rp_records close_report)"
    unfolding close_record by (simp add: record_accepted_def default_vrecord_def)
  moreover have "measurement_accepted (reread_measurement num (sample_measurement (2 ^ 52 + 1)))"
    using sample_accepted [OF nbits_one(1) [THEN eq_imp_le]]
    unfolding sample_rereads [OF assms(3,4)] by (simp add: measurement_accepted_def)
  then have "list_all record_accepted (rp_records ?rp)"
    unfolding reread_report_def refresh_summary_def
    by (simp add: close_record reread_record_def record_accepted_def default_vrecord_def is_success_def)
  ultimately show ?thesis using saved_baseline_differs [OF assms(3,4)] by auto
qed

definition small_reader :: reader where
  "small_reader t = (if t = ''0'' then (Some 0, dzero) else decimal_reader t)"

theorem saved_baseline_regresses_witness:
  "\<exists>parser dv r b. compare_to_baseline_file parser ''base.json'' close_report (Some default_comparison)
      (Some default_report) None dv = (True, Some r, Some b, None) \<and> \<not> cr_accepted r"
proof -
  define parser where "parser = (\<lambda>s. if s = render (report_doc close_report)
     then Some (value_of small_reader (report_doc close_report)) else None)"
  define dv where "dv = (big_device 0 0)\<lparr>dv_files := [''base.json'' \<mapsto> format_report_json close_report]\<rparr>"
  have "parser (render (report_doc close_report)) = Some (value_of small_reader (report_doc close_report))"
    by (simp add: parser_def)
  moreover have "fst (small_reader ''0'') = Some 0" "snd (small_reader ''0'') = dzero"
    "snd (small_reader ''1'') = double52 False (2 ^ 52)"
    by (simp_all add: small_reader_def decimal_reader_def read_nat_def)
  moreover have "dv_files dv ''base.json'' = Some (format_report_json close_report)" "\<not> dv_badRead dv ''base.json''"
    by (simp_all add: dv_def big_device_def)
  ultimately show ?thesis
    using saved_baseline_regresses [of parser small_reader dv "''base.json''" None] by (auto simp: clear_error_def set_error_def)
qed

text \<open>
  A report that fits the stream's buffer is reported as saved when the device has no room for it:
  the write fails only when the stream is destroyed, and the file holds a prefix.
\<close>
theorem save_reports_lost_data:
  assumes "dv_writable dv path" and "dv_room dv < length (format_report_json rp)"
    and "length (format_report_json rp) < dv_buffer dv"
  shows "\<exists>dv'. save_report rp path err dv = (True, clear_error err, dv')
    \<and> dv_files dv' path = Some (take (dv_room dv) (format_report_json rp))
    \<and> dv_files dv' path \<noteq> Some (format_report_json rp)"
proof -
  have "length (take (dv_room dv) (format_report_json rp)) \<noteq> length (format_report_json rp)"
    using assms(2) by simp
  then have "take (dv_room dv) (format_report_json rp) \<noteq> format_report_json rp" by metis
  then show ?thesis using assms by (simp add: save_report_def Let_def)
qed

theorem save_reports_lost_data_witness:
  "\<exists>b. fst (save_report default_report ''r.json'' None (big_device 3 b))"
proof -
  let ?b = "Suc (length (format_report_json default_report))"
  have "3 < length (format_report_json default_report)"
    by (simp add: format_report_json_def Let_def json_string_field_def quoted_def)
  then show ?thesis
    using save_reports_lost_data [of "big_device 3 ?b" "''r.json''" default_report None]
    by (auto simp: big_device_def intro!: exI [of _ ?b])
qed

section \<open>Failures\<close>

lemma and_then_eq_Inr: "and_then r f = Inr y \<longleftrightarrow> (\<exists>x. r = Inr x \<and> f x = Inr y)"
  by (auto simp: and_then_def split: sum.split)

lemma string_field_ok: "parse_string_field kvs name v required = Inr s \<Longrightarrow> ss_ok v \<Longrightarrow> ss_ok s"
  by (auto simp: parse_string_field_def ss_of_cstr_ok split: option.splits json.splits if_splits)

lemma parse_items_all:
  "parse_items f js acc = Inr xs \<Longrightarrow> (\<And>j x. f j = Inr x \<Longrightarrow> P x) \<Longrightarrow> list_all P acc \<Longrightarrow> list_all P xs"
  by (induction js arbitrary: acc) (auto simp: and_then_eq_Inr)

lemma default_strings_ok: "ss_ok (ms_name default_measurement)" "ss_ok (ms_unit default_measurement)"
  "ss_ok (vr_recordId default_vrecord)" "ss_ok (vr_suite default_vrecord)" "ss_ok (vr_name default_vrecord)"
  "ss_ok (vr_backend default_vrecord)" "ss_ok (vr_executor default_vrecord)" "ss_ok (vr_target default_vrecord)"
  "ss_ok (vr_note default_vrecord)" "ss_ok (rp_suite default_report)" "ss_ok (rp_schemaVersion default_report)"
  by (simp_all add: default_measurement_def default_vrecord_def default_report_def ss_of_cstr_ok)

lemma measurement_parse_ok:
  assumes "parse_measurement j default_measurement = Inr ms" shows "measurement_ok ms"
  using assms
  by (auto simp: parse_measurement_def and_then_eq_Inr measurement_ok_def default_strings_ok string_field_ok
      split: json.splits option.splits)

lemma measurements_parse_ok: "parse_measurements kvs = Inr mss \<Longrightarrow> list_all measurement_ok mss"
  by (auto simp: parse_measurements_def split: option.splits json.splits
      elim!: parse_items_all [where P = measurement_ok] intro: measurement_parse_ok)

lemma record_parse_ok:
  assumes "parse_record j default_vrecord = Inr r" shows "vrecord_ok r"
  using assms
  by (auto simp: parse_record_def and_then_eq_Inr vrecord_ok_def measurements_parse_ok default_strings_ok string_field_ok
      split: json.splits option.splits)

text \<open>
  C35: parsing a report, whatever the text and the JSON library's answer, either fails with a message
  and leaves the caller's report as it was, or succeeds with a report whose strings are all terminated
  within their buffers and whose summary is that of its records, and clears the message.
\<close>
theorem parse_report_total:
  "(\<exists>e. parse_report_json parser text (Some rp) err = (False, Some rp, set_error err e))
   \<or> (\<exists>rp'. parse_report_json parser text (Some rp) err = (True, Some rp', clear_error err)
        \<and> report_ok rp' \<and> refresh_summary rp' = rp')"
proof (cases "parse_report parser text")
  case (Inl e)
  then have "parse_report_json parser text (Some rp) err = (False, Some rp, set_error err e)"
    by (simp add: parse_report_json_def)
  then show ?thesis by blast
next
  case (Inr rp')
  then obtain kvs where p: "parser text = Some (Json_object kvs)"
    by (cases "parser text") (auto simp: parse_report_def split: json.splits)
  obtain schema suite where f: "parse_string_field kvs ''schemaVersion'' (rp_schemaVersion default_report) False = Inr schema"
      "parse_string_field kvs ''suite'' (rp_suite default_report) True = Inr suite"
    and "(case map_of kvs ''records'' of
         Some (Json_array js) \<Rightarrow>
           and_then (parse_items (\<lambda>j. parse_record j default_vrecord) js []) (\<lambda>rs.
           Inr (refresh_summary (default_report\<lparr>rp_schemaVersion := schema, rp_suite := suite, rp_records := rs\<rparr>)))
       | _ \<Rightarrow> Inl ''report records must be an array'') = Inr rp'"
    using Inr unfolding parse_report_def p Let_def option.case json.case and_then_eq_Inr by blast
  then obtain js rs where r: "parse_items (\<lambda>j. parse_record j default_vrecord) js [] = Inr rs"
    and rp': "rp' = refresh_summary (default_report\<lparr>rp_schemaVersion := schema, rp_suite := suite, rp_records := rs\<rparr>)"
    by (cases "map_of kvs ''records''") (simp_all add: and_then_eq_Inr split: json.splits, blast)
  have "ss_ok schema" "ss_ok suite" using f(1,2) string_field_ok default_strings_ok(10,11) by blast+
  moreover have "list_all vrecord_ok rs" by (rule parse_items_all [OF r]) (simp_all add: record_parse_ok)
  ultimately have "report_ok rp' \<and> refresh_summary rp' = rp'"
    by (simp add: rp' report_ok_def refresh_summary_def)
  then show ?thesis using Inr by (simp add: parse_report_json_def)
qed

end
