(* ===== verification/Backend_Profile.thy ===== *)
theory Backend_Profile
  imports Async_Types
begin

text \<open>
  \<open>execution/AsyncBackendProfile.hpp\<close>: the profiles of the Vulkan and CUDA backends, their scores for
  a request and the selection between them. Codes are bytes; a byte that is the code of no enumerator
  stands for none of them. Scores are 32-bit words read as signed, with the wrap-around of words.
\<close>


section \<open>Codes\<close>

definition async_backend_code :: "async_backend \<Rightarrow> u8" where
  "async_backend_code b = (case b of Be_inline_host \<Rightarrow> 0 | Be_thread_pool \<Rightarrow> 1 | Be_asio \<Rightarrow> 2 | Be_process \<Rightarrow> 3
     | Be_cuda \<Rightarrow> 4 | Be_nccl \<Rightarrow> 5 | Be_rocm \<Rightarrow> 6 | Be_sycl \<Rightarrow> 7 | Be_vulkan \<Rightarrow> 8 | Be_custom \<Rightarrow> 9)"

definition async_domain_code :: "async_domain \<Rightarrow> u8" where
  "async_domain_code d = (case d of Dom_control \<Rightarrow> 0 | Dom_inter_node \<Rightarrow> 1 | Dom_process \<Rightarrow> 2 | Dom_thread \<Rightarrow> 3
     | Dom_compute \<Rightarrow> 4 | Dom_graphics \<Rightarrow> 5)"

definition async_queue_code :: "queue_class \<Rightarrow> u8" where
  "async_queue_code q = (case q of Qc_control \<Rightarrow> 0 | Qc_io \<Rightarrow> 1 | Qc_compute \<Rightarrow> 2 | Qc_transfer \<Rightarrow> 3
     | Qc_graphics \<Rightarrow> 4 | Qc_present \<Rightarrow> 5 | Qc_collective \<Rightarrow> 6 | Qc_copy \<Rightarrow> 7)"

definition from_code :: "('e \<Rightarrow> u8) \<Rightarrow> 'e list \<Rightarrow> u8 \<Rightarrow> 'e option" where
  "from_code code es c = find (\<lambda>e. code e = c) es"

definition async_backend_from_code :: "u8 \<Rightarrow> async_backend option" where
  "async_backend_from_code = from_code async_backend_code
     [Be_inline_host, Be_thread_pool, Be_asio, Be_process, Be_cuda, Be_nccl, Be_rocm, Be_sycl, Be_vulkan, Be_custom]"

definition async_domain_from_code :: "u8 \<Rightarrow> async_domain option" where
  "async_domain_from_code = from_code async_domain_code
     [Dom_control, Dom_inter_node, Dom_process, Dom_thread, Dom_compute, Dom_graphics]"

definition async_queue_from_code :: "u8 \<Rightarrow> queue_class option" where
  "async_queue_from_code = from_code async_queue_code
     [Qc_control, Qc_io, Qc_compute, Qc_transfer, Qc_graphics, Qc_present, Qc_collective, Qc_copy]"

definition async_preference_balanced :: u8 where "async_preference_balanced = 0"
definition async_preference_cross_platform :: u8 where "async_preference_cross_platform = 1"
definition async_preference_peak_performance :: u8 where "async_preference_peak_performance = 2"
definition async_preference_interactive :: u8 where "async_preference_interactive = 3"

definition async_utility :: "nat \<Rightarrow> u32" where
  "async_utility k = push_bit k 1"

definition async_utility_core_mask :: u32 where
  "async_utility_core_mask = async_utility 0 OR async_utility 1 OR async_utility 2 OR async_utility 3
     OR async_utility 4 OR async_utility 5"

definition async_utility_present :: u32 where "async_utility_present = async_utility 6"
definition async_utility_collective :: u32 where "async_utility_collective = async_utility 7"

definition async_backend_name_from_code :: "u8 \<Rightarrow> string" where
  "async_backend_name_from_code c = (case async_backend_from_code c of
     Some Be_vulkan \<Rightarrow> ''vulkan'' | Some Be_cuda \<Rightarrow> ''cuda'' | Some Be_thread_pool \<Rightarrow> ''thread_pool''
   | Some Be_inline_host \<Rightarrow> ''inline_host'' | Some Be_asio \<Rightarrow> ''asio'' | Some Be_process \<Rightarrow> ''process''
   | Some Be_nccl \<Rightarrow> ''nccl'' | Some Be_rocm \<Rightarrow> ''rocm'' | Some Be_sycl \<Rightarrow> ''sycl'' | Some Be_custom \<Rightarrow> ''custom''
   | None \<Rightarrow> ''unknown'')"

definition async_preference_name :: "u8 \<Rightarrow> string" where
  "async_preference_name p =
     (if p = async_preference_cross_platform then ''cross_platform''
      else if p = async_preference_peak_performance then ''peak_performance''
      else if p = async_preference_interactive then ''interactive''
      else if p = async_preference_balanced then ''balanced''
      else ''unknown'')"

section \<open>Profiles\<close>

record backend_profile =
  bp_backendCode :: u8
  bp_utilityMask :: u32
  bp_queueCapacity :: u32
  bp_transferCapacity :: u32
  bp_crossPlatformScore :: u32
  bp_performanceScore :: u32
  bp_interactiveScore :: u32
  bp_mobileReady :: bool
  bp_presentationReady :: bool
  bp_collectiveReady :: bool

definition default_profile :: backend_profile where
  "default_profile = \<lparr>bp_backendCode = async_backend_code Be_inline_host, bp_utilityMask = 0, bp_queueCapacity = 1,
     bp_transferCapacity = 0, bp_crossPlatformScore = 0, bp_performanceScore = 0, bp_interactiveScore = 0,
     bp_mobileReady = False, bp_presentationReady = False, bp_collectiveReady = False\<rparr>"

definition set_vulkan_defaults :: "backend_profile \<Rightarrow> backend_profile" where
  "set_vulkan_defaults p = p\<lparr>bp_backendCode := async_backend_code Be_vulkan,
     bp_utilityMask := async_utility_core_mask OR async_utility_present, bp_queueCapacity := 3,
     bp_transferCapacity := 1, bp_crossPlatformScore := 10, bp_performanceScore := 7, bp_interactiveScore := 9,
     bp_mobileReady := True, bp_presentationReady := True, bp_collectiveReady := False\<rparr>"

definition set_cuda_defaults :: "backend_profile \<Rightarrow> backend_profile" where
  "set_cuda_defaults p = p\<lparr>bp_backendCode := async_backend_code Be_cuda,
     bp_utilityMask := async_utility_core_mask OR async_utility_collective, bp_queueCapacity := 2,
     bp_transferCapacity := 2, bp_crossPlatformScore := 4, bp_performanceScore := 10, bp_interactiveScore := 6,
     bp_mobileReady := False, bp_presentationReady := False, bp_collectiveReady := True\<rparr>"

definition supports_utility :: "backend_profile \<Rightarrow> u32 \<Rightarrow> bool" where
  "supports_utility p b \<longleftrightarrow> bp_utilityMask p AND b = b"

definition supports_queue :: "backend_profile \<Rightarrow> u8 \<Rightarrow> bool" where
  "supports_queue p c = (case async_queue_from_code c of
     Some Qc_compute \<Rightarrow> True | Some Qc_transfer \<Rightarrow> True | Some Qc_copy \<Rightarrow> True
   | Some Qc_graphics \<Rightarrow> bp_presentationReady p | Some Qc_present \<Rightarrow> bp_presentationReady p
   | Some Qc_collective \<Rightarrow> bp_collectiveReady p
   | _ \<Rightarrow> bp_queueCapacity p \<noteq> 0)"

definition core_utility_coverage :: "backend_profile \<Rightarrow> bool" where
  "core_utility_coverage p \<longleftrightarrow> bp_utilityMask p AND async_utility_core_mask = async_utility_core_mask"

definition profile_backend_name :: "backend_profile \<Rightarrow> string" where
  "profile_backend_name p = async_backend_name_from_code (bp_backendCode p)"

record selection_request =
  sr_domainCode :: u8
  sr_queueCode :: u8
  sr_preferenceCode :: u8
  sr_requirePresent :: bool
  sr_requireCollective :: bool
  sr_requireMobileDeployment :: bool
  sr_requireHostInteractivity :: bool

definition default_request :: selection_request where
  "default_request = \<lparr>sr_domainCode = async_domain_code Dom_compute, sr_queueCode = async_queue_code Qc_compute,
     sr_preferenceCode = async_preference_balanced, sr_requirePresent = False, sr_requireCollective = False,
     sr_requireMobileDeployment = False, sr_requireHostInteractivity = False\<rparr>"

definition request_preference_name :: "selection_request \<Rightarrow> string" where
  "request_preference_name q = async_preference_name (sr_preferenceCode q)"

record selection =
  sl_backendCode :: u8
  sl_vulkanScore :: i32
  sl_cudaScore :: i32
  sl_sharedUtilityMask :: u32
  sl_sameCoreUtilityCoverage :: bool

definition selection_backend_name :: "selection \<Rightarrow> string" where
  "selection_backend_name s = async_backend_name_from_code (sl_backendCode s)"

definition selection_summary :: "selection \<Rightarrow> string" where
  "selection_summary s =
     (if sl_backendCode s = async_backend_code Be_vulkan then
        ''vulkan selected: broader deployment reach, graphics or present support, and better interactive fit''
      else if sl_backendCode s = async_backend_code Be_cuda then
        ''cuda selected: stronger compute throughput and collective-oriented performance path''
      else ''no backend selected'')"

record backend_comparison =
  bc_leftBackendCode :: u8
  bc_rightBackendCode :: u8
  bc_crossPlatformDelta :: i32
  bc_performanceDelta :: i32
  bc_interactiveDelta :: i32
  bc_sharedUtilityMask :: u32
  bc_sameCoreUtilityCoverage :: bool

definition backend_comparison_summary :: "backend_comparison \<Rightarrow> string" where
  "backend_comparison_summary c =
     (if 0 <s bc_crossPlatformDelta c \<and> bc_performanceDelta c <s 0 then
        ''left backend leads in deployment reach while right backend leads in peak throughput''
      else if bc_crossPlatformDelta c <s 0 \<and> 0 <s bc_performanceDelta c then
        ''right backend leads in deployment reach while left backend leads in peak throughput''
      else if 0 <s bc_interactiveDelta c then ''left backend is more interactive-friendly''
      else if bc_interactiveDelta c <s 0 then ''right backend is more interactive-friendly''
      else ''backends are closely matched on the compared dimensions'')"

definition make_vulkan_backend_profile :: backend_profile where
  "make_vulkan_backend_profile = set_vulkan_defaults default_profile"

definition make_cuda_backend_profile :: backend_profile where
  "make_cuda_backend_profile = set_cuda_defaults default_profile"

definition compare_backend_profiles :: "backend_profile \<Rightarrow> backend_profile \<Rightarrow> backend_comparison" where
  "compare_backend_profiles l r =
     (let shared = bp_utilityMask l AND bp_utilityMask r in
      \<lparr>bc_leftBackendCode = bp_backendCode l, bc_rightBackendCode = bp_backendCode r,
       bc_crossPlatformDelta = bp_crossPlatformScore l - bp_crossPlatformScore r,
       bc_performanceDelta = bp_performanceScore l - bp_performanceScore r,
       bc_interactiveDelta = bp_interactiveScore l - bp_interactiveScore r,
       bc_sharedUtilityMask = shared,
       bc_sameCoreUtilityCoverage = (shared AND async_utility_core_mask = async_utility_core_mask)\<rparr>)"

section \<open>Selection\<close>

definition score_backend_for_request :: "backend_profile \<Rightarrow> selection_request \<Rightarrow> i32" where
  "score_backend_for_request p q =
     (let score = 0;
          score = (if supports_queue p (sr_queueCode q) then score + 4 else score - 10);
          score = (if sr_requirePresent q \<and> \<not> bp_presentationReady p then score - 20 else score);
          score = (if sr_requireCollective q \<and> \<not> bp_collectiveReady p then score - 20 else score);
          score = (if sr_requireMobileDeployment q \<and> \<not> bp_mobileReady p then score - 20 else score);
          score = (if sr_requireHostInteractivity q then score + bp_interactiveScore p else score);
          score = (if sr_preferenceCode q = async_preference_cross_platform then score + bp_crossPlatformScore p * 2
            else if sr_preferenceCode q = async_preference_peak_performance then score + bp_performanceScore p * 2
            else if sr_preferenceCode q = async_preference_interactive then score + bp_interactiveScore p * 2
            else score + bp_crossPlatformScore p + bp_performanceScore p + bp_interactiveScore p);
          score = (if async_domain_from_code (sr_domainCode q) = Some Dom_graphics \<and> bp_presentationReady p
                   then score + 5 else score);
          score = (if async_domain_from_code (sr_domainCode q) = Some Dom_compute \<and> bp_collectiveReady p
                   then score + 2 else score)
      in score)"

definition select_backend_profile :: "selection_request \<Rightarrow> selection" where
  "select_backend_profile q =
     (let vulkan = make_vulkan_backend_profile; cuda = make_cuda_backend_profile;
          vs = score_backend_for_request vulkan q; cs = score_backend_for_request cuda q;
          shared = bp_utilityMask vulkan AND bp_utilityMask cuda
      in \<lparr>sl_backendCode = (if cs \<le>s vs then bp_backendCode vulkan else bp_backendCode cuda),
          sl_vulkanScore = vs, sl_cudaScore = cs, sl_sharedUtilityMask = shared,
          sl_sameCoreUtilityCoverage = (shared AND async_utility_core_mask = async_utility_core_mask)\<rparr>)"

definition make_profile_endpoint :: "backend_profile \<Rightarrow> int \<Rightarrow> int \<Rightarrow> u64 \<Rightarrow> queue_class \<Rightarrow> string \<Rightarrow> endpoint" where
  "make_profile_endpoint p device stream handle queue label =
     (case async_backend_from_code (bp_backendCode p) of
        Some Be_vulkan \<Rightarrow> make_vulkan_endpoint device stream handle queue label
      | Some Be_cuda \<Rightarrow> make_cuda_endpoint device stream handle queue label
      | _ \<Rightarrow> make_host_endpoint Be_inline_host queue label)"

section \<open>What the selection does\<close>

lemma from_backend_code: "async_backend_from_code (async_backend_code b) = Some b"
  by (cases b) (simp_all add: async_backend_from_code_def from_code_def async_backend_code_def)

lemma from_queue_code: "async_queue_from_code (async_queue_code q) = Some q"
  by (cases q) (simp_all add: async_queue_from_code_def from_code_def async_queue_code_def)

lemma from_domain_code: "async_domain_from_code (async_domain_code d) = Some d"
  by (cases d) (simp_all add: async_domain_from_code_def from_code_def async_domain_code_def)

text \<open>The margin of Vulkan over CUDA, part by part.\<close>

definition queue_margin :: "queue_class option \<Rightarrow> int" where
  "queue_margin q = (if q = Some Qc_graphics \<or> q = Some Qc_present then 14 else if q = Some Qc_collective then - 14 else 0)"

definition preference_margin :: "u8 \<Rightarrow> int" where
  "preference_margin p = (if p = 1 then 12 else if p = 2 then - 6 else if p = 3 then 6 else 6)"

definition domain_margin :: "async_domain option \<Rightarrow> int" where
  "domain_margin d = (if d = Some Dom_graphics then 5 else if d = Some Dom_compute then - 2 else 0)"

definition selection_margin :: "selection_request \<Rightarrow> int" where
  "selection_margin q = queue_margin (async_queue_from_code (sr_queueCode q))
     + (if sr_requirePresent q then 20 else 0) - (if sr_requireCollective q then 20 else 0)
     + (if sr_requireMobileDeployment q then 20 else 0) + (if sr_requireHostInteractivity q then 3 else 0)
     + preference_margin (sr_preferenceCode q) + domain_margin (async_domain_from_code (sr_domainCode q))"

text \<open>Scores as integers, and their distance from the wrap-around.\<close>

definition vulkan_points :: "selection_request \<Rightarrow> int" where
  "vulkan_points q = (if async_queue_from_code (sr_queueCode q) = Some Qc_collective then - 10 else 4)
     - (if sr_requireCollective q then 20 else 0) + (if sr_requireHostInteractivity q then 9 else 0)
     + (if sr_preferenceCode q = 1 then 20 else if sr_preferenceCode q = 2 then 14
        else if sr_preferenceCode q = 3 then 18 else 26)
     + (if async_domain_from_code (sr_domainCode q) = Some Dom_graphics then 5 else 0)"

definition cuda_points :: "selection_request \<Rightarrow> int" where
  "cuda_points q = (if async_queue_from_code (sr_queueCode q) = Some Qc_graphics
        \<or> async_queue_from_code (sr_queueCode q) = Some Qc_present then - 10 else 4)
     - (if sr_requirePresent q then 20 else 0) - (if sr_requireMobileDeployment q then 20 else 0)
     + (if sr_requireHostInteractivity q then 6 else 0)
     + (if sr_preferenceCode q = 1 then 8 else if sr_preferenceCode q = 2 then 20
        else if sr_preferenceCode q = 3 then 12 else 20)
     + (if async_domain_from_code (sr_domainCode q) = Some Dom_compute then 2 else 0)"

lemmas profile_defs = make_vulkan_backend_profile_def make_cuda_backend_profile_def set_vulkan_defaults_def
  set_cuda_defaults_def default_profile_def

lemmas preference_defs = async_preference_balanced_def async_preference_cross_platform_def
  async_preference_peak_performance_def async_preference_interactive_def

lemma supports_queue_presets:
  "supports_queue make_vulkan_backend_profile c \<longleftrightarrow> async_queue_from_code c \<noteq> Some Qc_collective"
  "supports_queue make_cuda_backend_profile c \<longleftrightarrow> async_queue_from_code c \<noteq> Some Qc_graphics
     \<and> async_queue_from_code c \<noteq> Some Qc_present"
  by (simp_all add: supports_queue_def profile_defs split: option.split queue_class.split)

lemma vulkan_score: "score_backend_for_request make_vulkan_backend_profile q = word_of_int (vulkan_points q)"
  unfolding score_backend_for_request_def supports_queue_presets Let_def preference_defs
  by (simp add: profile_defs vulkan_points_def)

lemma cuda_score: "score_backend_for_request make_cuda_backend_profile q = word_of_int (cuda_points q)"
  unfolding score_backend_for_request_def supports_queue_presets Let_def preference_defs
  by (simp add: profile_defs cuda_points_def)

lemma points_range: "- 46 \<le> vulkan_points q" "vulkan_points q \<le> 46" "- 46 \<le> cuda_points q" "cuda_points q \<le> 46"
  by (simp_all add: vulkan_points_def cuda_points_def)

lemma sint_small: "- 46 \<le> k \<Longrightarrow> k \<le> 46 \<Longrightarrow> sint (word_of_int k :: i32) = k"
  by (simp add: sint_sbintrunc' signed_take_bit_int_eq_self)

lemma points_margin: "vulkan_points q - cuda_points q = selection_margin q"
  by (auto simp: vulkan_points_def cuda_points_def selection_margin_def queue_margin_def preference_margin_def
      domain_margin_def)

lemma selected_backend:
  "sl_backendCode (select_backend_profile q) = async_backend_code (if 0 \<le> selection_margin q then Be_vulkan else Be_cuda)"
proof -
  have "bp_backendCode make_vulkan_backend_profile = async_backend_code Be_vulkan"
    "bp_backendCode make_cuda_backend_profile = async_backend_code Be_cuda"
    by (simp_all add: profile_defs)
  then show ?thesis using points_margin [of q] points_range [of q]
    by (auto simp: select_backend_profile_def Let_def vulkan_score cuda_score sint_small word_sle_eq)
qed

text \<open>
  The scores never wrap, and Vulkan is selected exactly when its margin over CUDA is not negative:
  the sum of what the queue, each requirement, the preference and the domain give, for every byte a
  request may hold.
\<close>
theorem backend_selection_margin:
  "sint (sl_vulkanScore (select_backend_profile q)) - sint (sl_cudaScore (select_backend_profile q)) = selection_margin q
   \<and> sl_backendCode (select_backend_profile q)
      = async_backend_code (if 0 \<le> selection_margin q then Be_vulkan else Be_cuda)
   \<and> sl_sameCoreUtilityCoverage (select_backend_profile q)"
proof -
  have "sl_sameCoreUtilityCoverage (select_backend_profile q)"
    by (simp add: select_backend_profile_def Let_def profile_defs async_utility_core_mask_def
        async_utility_present_def async_utility_collective_def async_utility_def)
  moreover have "sint (sl_vulkanScore (select_backend_profile q)) = vulkan_points q"
    "sint (sl_cudaScore (select_backend_profile q)) = cuda_points q"
    using points_range [of q] by (simp_all add: select_backend_profile_def Let_def vulkan_score cuda_score sint_small)
  ultimately show ?thesis using points_margin [of q] selected_backend by simp
qed

text \<open>
  The requirements of a request are not binding. A request for presentation, which CUDA does not
  have, gets CUDA when it is a compute request on the collective queue with a preference for peak
  performance, and asks for neither collectives, mobile deployment nor interactivity; and of the
  requests that need presentation or mobile deployment but no collectives, only these and their mobile
  counterparts do.
\<close>
theorem requirement_overridden:
  assumes "\<not> sr_requireCollective q" and "sr_requirePresent q \<or> sr_requireMobileDeployment q"
  shows "sl_backendCode (select_backend_profile q) = async_backend_code Be_cuda \<longleftrightarrow>
     async_queue_from_code (sr_queueCode q) = Some Qc_collective
     \<and> sr_preferenceCode q = async_preference_peak_performance
     \<and> async_domain_from_code (sr_domainCode q) = Some Dom_compute
     \<and> \<not> sr_requireHostInteractivity q \<and> \<not> (sr_requirePresent q \<and> sr_requireMobileDeployment q)"
proof -
  have "async_backend_code Be_vulkan \<noteq> async_backend_code Be_cuda" by (simp add: async_backend_code_def)
  moreover have "selection_margin q < 0 \<longleftrightarrow> async_queue_from_code (sr_queueCode q) = Some Qc_collective
     \<and> sr_preferenceCode q = 2 \<and> async_domain_from_code (sr_domainCode q) = Some Dom_compute
     \<and> \<not> sr_requireHostInteractivity q \<and> \<not> (sr_requirePresent q \<and> sr_requireMobileDeployment q)"
    using assms by (auto simp: selection_margin_def queue_margin_def preference_margin_def domain_margin_def)
  ultimately show ?thesis unfolding preference_defs selected_backend by auto
qed

theorem requirement_overridden_witness:
  "sl_backendCode (select_backend_profile (default_request\<lparr>sr_queueCode := async_queue_code Qc_collective,
     sr_preferenceCode := async_preference_peak_performance, sr_requirePresent := True\<rparr>)) = async_backend_code Be_cuda"
  by (subst requirement_overridden) (simp_all add: default_request_def from_queue_code from_domain_code)

end
