(* ===== verification/Native_Queue.thy ===== *)
theory Native_Queue
  imports Async_Runtime_Seq Backend_Profile
begin

text \<open>
  \<open>execution/AsyncNativeQueueAdapter.hpp\<close>: an executor that runs a submission's step on the calling
  thread and then records and synchronises a native queue. A native operation is a function of the
  runtime's world; the CUDA and Vulkan contexts are records of such operations. The submission is one
  thread's sequence of moves, with at most \<open>n\<close> moves for each drain. Descriptors whose codes name no
  backend or queue are not modelled.
\<close>

section \<open>Descriptors and bindings\<close>

definition native_capability :: "nat \<Rightarrow> u32" where
  "native_capability k = push_bit k 1"

definition capability_submit :: u32 where "capability_submit = native_capability 0"
definition capability_sync :: u32 where "capability_sync = native_capability 1"
definition capability_record :: u32 where "capability_record = native_capability 2"
definition capability_wait :: u32 where "capability_wait = native_capability 3"
definition capability_profile :: u32 where "capability_profile = native_capability 4"

record queue_descriptor =
  qd_backendCode :: u8
  qd_queueCode :: u8
  qd_device :: int
  qd_streamOrQueueId :: int
  qd_capabilityMask :: u32
  qd_syncAfterSubmit :: bool
  qd_recordAfterSubmit :: bool
  qd_interactive :: bool

definition descriptor_supports :: "queue_descriptor \<Rightarrow> u32 \<Rightarrow> bool" where
  "descriptor_supports d c \<longleftrightarrow> qd_capabilityMask d AND c = c"

definition descriptor_backend_name :: "queue_descriptor \<Rightarrow> string" where
  "descriptor_backend_name d = async_backend_name_from_code (qd_backendCode d)"

record 'w queue_ops =
  qo_queueHandle :: "('w \<Rightarrow> u64 \<times> 'w) option"
  qo_signalHandle :: "('w \<Rightarrow> u64 \<times> 'w) option"
  qo_sync :: "('w \<Rightarrow> bool \<times> 'w) option"
  qo_record :: "('w \<Rightarrow> bool \<times> 'w) option"
  qo_wait :: "(u64 \<Rightarrow> 'w \<Rightarrow> bool \<times> 'w) option"

record 'w queue_binding =
  qb_opaque :: u64
  qb_ops :: "'w queue_ops"

definition call_op :: "'w queue_binding \<Rightarrow> ('w \<Rightarrow> 'a \<times> 'w) option \<Rightarrow> 'a \<Rightarrow> 'w \<Rightarrow> 'a \<times> 'w" where
  "call_op b f dflt w = (case f of None \<Rightarrow> (dflt, w) | Some f \<Rightarrow> if qb_opaque b \<noteq> 0 then f w else (dflt, w))"

definition binding_queue_handle :: "'w queue_binding \<Rightarrow> 'w \<Rightarrow> u64 \<times> 'w" where
  "binding_queue_handle b = call_op b (qo_queueHandle (qb_ops b)) 0"

definition binding_signal_handle :: "'w queue_binding \<Rightarrow> 'w \<Rightarrow> u64 \<times> 'w" where
  "binding_signal_handle b = call_op b (qo_signalHandle (qb_ops b)) 0"

definition binding_sync :: "'w queue_binding \<Rightarrow> 'w \<Rightarrow> bool \<times> 'w" where
  "binding_sync b = call_op b (qo_sync (qb_ops b)) True"

definition binding_record :: "'w queue_binding \<Rightarrow> 'w \<Rightarrow> bool \<times> 'w" where
  "binding_record b = call_op b (qo_record (qb_ops b)) True"

definition binding_wait :: "'w queue_binding \<Rightarrow> u64 \<Rightarrow> 'w \<Rightarrow> bool \<times> 'w" where
  "binding_wait b signal = call_op b (map_option (\<lambda>f. f signal) (qo_wait (qb_ops b))) True"

definition make_native_queue_endpoint ::
    "queue_descriptor \<Rightarrow> 'w queue_binding \<Rightarrow> string \<Rightarrow> 'w \<Rightarrow> (endpoint \<times> 'w) option" where
  "make_native_queue_endpoint d b label w =
     (case (async_backend_from_code (qd_backendCode d), async_queue_from_code (qd_queueCode d)) of
        (Some backend, Some queue) \<Rightarrow> Some
          (if backend = Be_cuda then
             let (h, w) = binding_queue_handle b w
             in (make_cuda_endpoint (qd_device d) (qd_streamOrQueueId d) h queue label, w)
           else if backend = Be_vulkan then
             let (h, w) = binding_queue_handle b w
             in (make_vulkan_endpoint (qd_device d) (qd_streamOrQueueId d) h queue label, w)
           else (make_host_endpoint backend queue label, w))
      | _ \<Rightarrow> None)"

section \<open>The executor\<close>

record 'w native_executor =
  nx_name :: string
  nx_descriptor :: queue_descriptor
  nx_binding :: "'w queue_binding"

definition native_backend :: "'w native_executor \<Rightarrow> async_backend option" where
  "native_backend x = async_backend_from_code (qd_backendCode (nx_descriptor x))"

definition make_native_queue_executor :: "string \<Rightarrow> queue_descriptor \<Rightarrow> 'w queue_binding \<Rightarrow> 'w native_executor" where
  "make_native_queue_executor name d b = \<lparr>nx_name = name, nx_descriptor = d, nx_binding = b\<rparr>"

text \<open>What the native queue does once the step has been polled.\<close>

definition native_after :: "queue_descriptor \<Rightarrow> 'w queue_binding \<Rightarrow> poll_status \<Rightarrow> 'w \<Rightarrow> bool \<times> 'w" where
  "native_after d b poll w =
     (if poll = Poll_completed then
        let (ok, w) = (if qd_recordAfterSubmit d \<and> descriptor_supports d capability_record
                       then binding_record b w else (True, w))
        in if ok \<and> qd_syncAfterSubmit d \<and> descriptor_supports d capability_sync
           then binding_sync b w else (ok, w)
      else (True, w))"

definition set_endpoint :: "nat \<Rightarrow> endpoint \<Rightarrow> 'w runtime \<Rightarrow> 'w runtime" where
  "set_endpoint s ep r = r\<lparr>rt_subs := (rt_subs r)[s := (rt_subs r ! s)\<lparr>ss_endpoint := ep\<rparr>]\<rparr>"

definition native_submit :: "nat \<Rightarrow> 'w native_executor \<Rightarrow> nat \<Rightarrow> 'w runtime \<Rightarrow> 'w runtime option" where
  "native_submit n x s r = do {
     (ep, w) \<leftarrow> make_native_queue_endpoint (nx_descriptor x) (nx_binding x) (td_label (ss_desc (rt_subs r ! s))) (rt_world r);
     let r = set_endpoint s ep (r\<lparr>rt_world := w\<rparr>);
     if cancel_requested r s then drain n (finish_frames r s St_cancelled) r
     else do {
       r \<leftarrow> drain n [Fr_transition (sub_event r s) St_running] r;
       let (poll, r) = run_step s r;
       let (ok, w) = native_after (nx_descriptor x) (nx_binding x) poll (rt_world r);
       let r = r\<lparr>rt_world := w\<rparr>;
       drain n (finish_frames r s (poll_task_status (if ok then poll else Poll_failed))) r } }"

section \<open>CUDA and Vulkan queues\<close>

text \<open>The operations of a context the adapter calls.\<close>

record 'w cuda_context =
  cc_streamSpare :: "int \<Rightarrow> 'w \<Rightarrow> u64 \<times> 'w"
  cc_eventSpare :: "int \<Rightarrow> 'w \<Rightarrow> u64 \<times> 'w"
  cc_syncStreamSpare :: "int \<Rightarrow> 'w \<Rightarrow> 'w"
  cc_recordEventSpare :: "int \<Rightarrow> 'w \<Rightarrow> 'w"
  cc_spareStreamWaitForEvent :: "int \<Rightarrow> u64 \<Rightarrow> 'w \<Rightarrow> 'w"

record 'w cuda_queue_state =
  cq_context :: "'w cuda_context option"
  cq_streamId :: int

definition cuda_queue_handle :: "'w cuda_queue_state option \<Rightarrow> 'w \<Rightarrow> u64 \<times> 'w" where
  "cuda_queue_handle st w = (case st of None \<Rightarrow> (0, w) | Some s \<Rightarrow>
     (case cq_context s of None \<Rightarrow> (0, w) | Some c \<Rightarrow> cc_streamSpare c (cq_streamId s) w))"

definition cuda_signal_handle :: "'w cuda_queue_state option \<Rightarrow> 'w \<Rightarrow> u64 \<times> 'w" where
  "cuda_signal_handle st w = (case st of None \<Rightarrow> (0, w) | Some s \<Rightarrow>
     (case cq_context s of None \<Rightarrow> (0, w) | Some c \<Rightarrow> cc_eventSpare c (cq_streamId s) w))"

definition cuda_sync_queue :: "'w cuda_queue_state option \<Rightarrow> 'w \<Rightarrow> bool \<times> 'w" where
  "cuda_sync_queue st w = (case st of None \<Rightarrow> (False, w) | Some s \<Rightarrow>
     (case cq_context s of None \<Rightarrow> (False, w) | Some c \<Rightarrow> (True, cc_syncStreamSpare c (cq_streamId s) w)))"

definition cuda_record_queue :: "'w cuda_queue_state option \<Rightarrow> 'w \<Rightarrow> bool \<times> 'w" where
  "cuda_record_queue st w = (case st of None \<Rightarrow> (False, w) | Some s \<Rightarrow>
     (case cq_context s of None \<Rightarrow> (False, w) | Some c \<Rightarrow> (True, cc_recordEventSpare c (cq_streamId s) w)))"

definition cuda_wait_queue :: "'w cuda_queue_state option \<Rightarrow> u64 \<Rightarrow> 'w \<Rightarrow> bool \<times> 'w" where
  "cuda_wait_queue st signal w = (case st of None \<Rightarrow> (False, w) | Some s \<Rightarrow>
     (case cq_context s of None \<Rightarrow> (False, w)
      | Some c \<Rightarrow> (True, cc_spareStreamWaitForEvent c (cq_streamId s) signal w)))"

text \<open>The address of the state a binding allocates is an argument.\<close>

definition bind_cuda_native_queue :: "u64 \<Rightarrow> 'w cuda_context \<Rightarrow> int \<Rightarrow> 'w queue_binding" where
  "bind_cuda_native_queue addr c stream =
     (let st = Some \<lparr>cq_context = Some c, cq_streamId = stream\<rparr> in
      \<lparr>qb_opaque = addr, qb_ops = \<lparr>qo_queueHandle = Some (cuda_queue_handle st),
        qo_signalHandle = Some (cuda_signal_handle st), qo_sync = Some (cuda_sync_queue st),
        qo_record = Some (cuda_record_queue st), qo_wait = Some (cuda_wait_queue st)\<rparr>\<rparr>)"

definition make_cuda_native_queue_descriptor :: "int \<Rightarrow> int \<Rightarrow> bool \<Rightarrow> queue_descriptor" where
  "make_cuda_native_queue_descriptor device stream interactive =
     \<lparr>qd_backendCode = async_backend_code Be_cuda, qd_queueCode = async_queue_code Qc_compute, qd_device = device,
      qd_streamOrQueueId = stream,
      qd_capabilityMask = capability_submit OR capability_sync OR capability_record OR capability_wait
        OR capability_profile,
      qd_syncAfterSubmit = False, qd_recordAfterSubmit = True, qd_interactive = interactive\<rparr>"

record 'w vulkan_context =
  vc_getQueue :: "nat \<Rightarrow> u32 \<Rightarrow> 'w \<Rightarrow> u64 \<times> 'w"
  vc_waitIdle :: "u64 \<Rightarrow> 'w \<Rightarrow> 'w"

record 'w vulkan_queue_state =
  vq_context :: "'w vulkan_context option"
  vq_queueFamily :: nat
  vq_queueIndex :: u32

definition vulkan_queue_handle :: "'w vulkan_queue_state option \<Rightarrow> 'w \<Rightarrow> u64 \<times> 'w" where
  "vulkan_queue_handle st w = (case st of None \<Rightarrow> (0, w) | Some s \<Rightarrow>
     (case vq_context s of None \<Rightarrow> (0, w) | Some c \<Rightarrow> vc_getQueue c (vq_queueFamily s) (vq_queueIndex s) w))"

definition vulkan_sync_queue :: "'w vulkan_queue_state option \<Rightarrow> 'w \<Rightarrow> bool \<times> 'w" where
  "vulkan_sync_queue st w = (case st of None \<Rightarrow> (False, w) | Some s \<Rightarrow>
     (case vq_context s of None \<Rightarrow> (False, w)
      | Some c \<Rightarrow> (let (q, w) = vc_getQueue c (vq_queueFamily s) (vq_queueIndex s) w in (True, vc_waitIdle c q w))))"

definition bind_vulkan_native_queue :: "u64 \<Rightarrow> 'w vulkan_context \<Rightarrow> nat \<Rightarrow> u32 \<Rightarrow> 'w queue_binding" where
  "bind_vulkan_native_queue addr c family index =
     (let st = Some \<lparr>vq_context = Some c, vq_queueFamily = family, vq_queueIndex = index\<rparr> in
      \<lparr>qb_opaque = addr, qb_ops = \<lparr>qo_queueHandle = Some (vulkan_queue_handle st), qo_signalHandle = None,
        qo_sync = Some (vulkan_sync_queue st), qo_record = None, qo_wait = None\<rparr>\<rparr>)"

definition make_vulkan_native_queue_descriptor :: "int \<Rightarrow> int \<Rightarrow> bool \<Rightarrow> queue_descriptor" where
  "make_vulkan_native_queue_descriptor device family interactive =
     \<lparr>qd_backendCode = async_backend_code Be_vulkan, qd_queueCode = async_queue_code Qc_graphics, qd_device = device,
      qd_streamOrQueueId = family, qd_capabilityMask = capability_submit OR capability_sync,
      qd_syncAfterSubmit = True, qd_recordAfterSubmit = False, qd_interactive = interactive\<rparr>"

section \<open>The outcome of a native submission\<close>

lemma set_endpoint_read [simp]:
  "rt_world (set_endpoint s ep r) = rt_world r" "rt_events (set_endpoint s ep r) = rt_events r"
  "length (rt_subs (set_endpoint s ep r)) = length (rt_subs r)" "rt_flags (set_endpoint s ep r) = rt_flags r"
  by (simp_all add: set_endpoint_def)

lemma set_endpoint_sub:
  "s < length (rt_subs r) \<Longrightarrow> rt_subs (set_endpoint s ep r) ! s = (rt_subs r ! s)\<lparr>ss_endpoint := ep\<rparr>"
  by (simp add: set_endpoint_def)

lemma drain_finish:
  assumes "ev_callbacks (rt_events r ! sub_event r s) = []" "\<not> is_terminal (ev_status (rt_events r ! sub_event r s))"
    and "sub_event r s < length (rt_events r)" "s < length (rt_subs r)"
  shows "\<exists>r2. drain 2 (finish_frames r s st) r = Some r2 \<and> rt_world r2 = rt_world r
    \<and> ev_status (rt_events r2 ! sub_event r s) = st \<and> \<not> ss_inFlight (rt_subs r2 ! s)"
proof -
  let ?e = "sub_event r s"
  let ?r = "set_inFlight s False (set_event ?e \<lparr>ev_status = st, ev_callbacks = []\<rparr> r)"
  have "drain 2 (finish_frames r s st) r = Some ?r"
    using micro_new_transition [OF assms(1,2)] by (simp add: finish_frames_def numeral_2_eq_2 del: micro.simps(1))
  then show ?thesis using assms(3,4)
    by (intro exI [of _ ?r]) (simp add: set_inFlight_def set_event_def)
qed

lemma run_step_event:
  "fst (run_step s (set_event e v r)) = fst (run_step s r)"
  "rt_world (snd (run_step s (set_event e v r))) = rt_world (snd (run_step s r))"
  "rt_events (snd (run_step s r)) = rt_events r" "rt_subs (snd (run_step s r)) = rt_subs r"
  by (auto simp: run_step_def set_event_def token_flags_def Let_def split_beta split: option.split)

text \<open>
  A submission to a native queue whose event nobody listens to ends with its event terminal or
  suspended: cancelled without running if its token asks for it; otherwise as the step polled, except
  that a completed step fails when a native operation the descriptor asks for and supports fails. The
  native queue is touched only after a completed step, recording before synchronising.
\<close>
theorem native_submission_outcome:
  assumes "make_native_queue_endpoint (nx_descriptor x) (nx_binding x) (td_label (ss_desc (rt_subs r ! s))) (rt_world r)
      = Some (ep, w)"
    and "ev_callbacks (rt_events r ! sub_event r s) = []" "\<not> is_terminal (ev_status (rt_events r ! sub_event r s))"
    and "sub_event r s < length (rt_events r)" "s < length (rt_subs r)"
  defines "r1 \<equiv> set_endpoint s ep (r\<lparr>rt_world := w\<rparr>)"
  defines "p \<equiv> fst (run_step s r1)" and "w1 \<equiv> rt_world (snd (run_step s r1))"
  shows "\<exists>r2. native_submit 2 x s r = Some r2 \<and> \<not> ss_inFlight (rt_subs r2 ! s) \<and>
    (if cancel_requested r1 s
     then ev_status (rt_events r2 ! sub_event r s) = St_cancelled \<and> rt_world r2 = w
     else ev_status (rt_events r2 ! sub_event r s)
            = poll_task_status (if fst (native_after (nx_descriptor x) (nx_binding x) p w1) then p else Poll_failed)
       \<and> rt_world r2 = snd (native_after (nx_descriptor x) (nx_binding x) p w1))"
proof -
  let ?e = "sub_event r s"
  have e1: "sub_event r1 s = ?e" "rt_events r1 = rt_events r" "length (rt_subs r1) = length (rt_subs r)" "rt_world r1 = w"
    using assms(5) by (simp_all add: r1_def sub_event_def set_endpoint_sub)
  show ?thesis
  proof (cases "cancel_requested r1 s")
    case True
    obtain r2 where "drain 2 (finish_frames r1 s St_cancelled) r1 = Some r2 \<and> rt_world r2 = rt_world r1
        \<and> ev_status (rt_events r2 ! sub_event r1 s) = St_cancelled \<and> \<not> ss_inFlight (rt_subs r2 ! s)"
      using drain_finish [of r1 s St_cancelled] assms(2-5) e1 by auto
    then show ?thesis using True e1 by (simp add: native_submit_def assms(1) r1_def [symmetric])
  next
    case False
    define r2 where "r2 = set_event ?e \<lparr>ev_status = St_running, ev_callbacks = []\<rparr> r1"
    define r3 where "r3 = snd (run_step s r2)"
    let ?a = "native_after (nx_descriptor x) (nx_binding x) p w1"
    let ?r3 = "r3\<lparr>rt_world := snd ?a\<rparr>" and ?st = "poll_task_status (if fst ?a then p else Poll_failed)"
    have d: "drain 2 [Fr_transition ?e St_running] r1 = Some r2"
      using micro_new_transition [of r1 ?e St_running] assms(2,3) e1
      by (simp add: numeral_2_eq_2 r2_def del: micro.simps(1))
    have run: "run_step s r2 = (p, r3)" "rt_world r3 = w1" "rt_subs r3 = rt_subs r1"
      "rt_events r3 = (rt_events r)[?e := \<lparr>ev_status = St_running, ev_callbacks = []\<rparr>]"
      by (simp_all add: r3_def p_def w1_def r2_def run_step_event prod_eq_iff) (simp_all add: set_event_def e1)
    have e3: "sub_event ?r3 s = ?e" using e1(1) by (simp add: sub_event_def run(3))
    obtain r4 where "drain 2 (finish_frames ?r3 s ?st) ?r3 = Some r4 \<and> rt_world r4 = snd ?a
        \<and> ev_status (rt_events r4 ! ?e) = ?st \<and> \<not> ss_inFlight (rt_subs r4 ! s)"
      using drain_finish [of ?r3 s ?st] assms(4,5) e1(3) by (auto simp: e3 run)
    moreover have "native_submit 2 x s r = drain 2 (finish_frames ?r3 s ?st) ?r3"
      using False by (simp add: native_submit_def assms(1) r1_def [symmetric] e1(1) d run Let_def split_beta)
    ultimately show ?thesis using False by (intro exI [of _ r4]) simp
  qed
qed

definition failing_binding :: "nat queue_binding" where
  "failing_binding = \<lparr>qb_opaque = 1, qb_ops = \<lparr>qo_queueHandle = None, qo_signalHandle = None,
     qo_sync = Some (\<lambda>w. (False, w + 10)), qo_record = Some (\<lambda>w. (True, w + 100)), qo_wait = None\<rparr>\<rparr>"

definition native_runtime :: "nat runtime" where
  "native_runtime = (new_runtime 1 1 0)\<lparr>rt_events := [new_event],
     rt_subs := [make_sub (sub_to ''native'' Poll_completed []) 1 0]\<rparr>"

theorem native_submission_outcome_witness:
  "\<exists>r2. native_submit 2 (make_native_queue_executor ''native''
        ((make_vulkan_native_queue_descriptor 0 0 True)\<lparr>qd_recordAfterSubmit := True,
           qd_capabilityMask := capability_sync OR capability_record\<rparr>) failing_binding) 0 native_runtime = Some r2
     \<and> ev_status (rt_events r2 ! 0) = St_failed \<and> rt_world r2 = 111"
proof -
  let ?d = "(make_vulkan_native_queue_descriptor 0 0 True)\<lparr>qd_recordAfterSubmit := True,
     qd_capabilityMask := capability_sync OR capability_record\<rparr>"
  let ?x = "make_native_queue_executor ''native'' ?d failing_binding"
  let ?r = native_runtime and ?ep = "make_vulkan_endpoint 0 0 0 Qc_graphics []"
  let ?r1 = "set_endpoint 0 ?ep (?r\<lparr>rt_world := 0\<rparr>)"
  have ep: "make_native_queue_endpoint (nx_descriptor ?x) (nx_binding ?x) (td_label (ss_desc (rt_subs ?r ! 0))) (rt_world ?r)
      = Some (?ep, 0)"
    by (simp add: make_native_queue_endpoint_def make_native_queue_executor_def make_vulkan_native_queue_descriptor_def
        from_backend_code from_queue_code binding_queue_handle_def call_op_def failing_binding_def native_runtime_def
        new_runtime_def make_sub_def sub_to_def default_task_desc_def)
  have ev: "ev_callbacks (rt_events ?r ! sub_event ?r 0) = []" "\<not> is_terminal (ev_status (rt_events ?r ! sub_event ?r 0))"
    "sub_event ?r 0 < length (rt_events ?r)" "0 < length (rt_subs ?r)" "sub_event ?r 0 = 0"
    by (simp_all add: native_runtime_def sub_event_def make_sub_def new_event_def)
  have run: "fst (run_step 0 ?r1) = Poll_completed" "rt_world (snd (run_step 0 ?r1)) = 1" "\<not> cancel_requested ?r1 0"
    by (simp_all add: run_step_def native_runtime_def set_endpoint_def make_sub_def sub_to_def poll_step_def Let_def
        token_flags_def new_runtime_def cancel_requested_def)
  have "descriptor_supports ?d capability_record" "descriptor_supports ?d capability_sync"
    by (simp_all add: descriptor_supports_def capability_sync_def capability_record_def native_capability_def)
  then have "native_after (nx_descriptor ?x) (nx_binding ?x) Poll_completed 1 = (False, 111)"
    by (simp add: native_after_def make_native_queue_executor_def make_vulkan_native_queue_descriptor_def
        binding_record_def binding_sync_def call_op_def failing_binding_def)
  moreover have "poll_task_status Poll_failed = St_failed" by (simp add: poll_task_status_def)
  ultimately show ?thesis using native_submission_outcome [OF ep ev(1-4), unfolded run(1,2)] run(3) ev(5) by auto
qed

end
