(* ===== verification/Simulation.thy ===== *)
theory Simulation
  imports Zpc_Prelude
begin

text \<open>
  The contract of a data structure that is described by a simpler one: a representation invariant,
  an abstraction function, and a reference semantics of the operations. When every operation
  matches the reference, every sequence of operations does.
\<close>

fun run_ops :: "('op \<Rightarrow> 's \<Rightarrow> 's option) \<Rightarrow> 'op list \<Rightarrow> 's \<Rightarrow> 's option" where
  "run_ops step [] s = Some s"
| "run_ops step (x # xs) s = (case step x s of None \<Rightarrow> None | Some s \<Rightarrow> run_ops step xs s)"

lemma run_ops_append:
  "run_ops step (xs @ ys) s = (case run_ops step xs s of None \<Rightarrow> None | Some s \<Rightarrow> run_ops step ys s)"
  by (induction xs arbitrary: s) (auto split: option.splits)

locale simulation =
  fixes step :: "'op \<Rightarrow> 's \<Rightarrow> 's option"
    and spec :: "'op \<Rightarrow> 'a \<Rightarrow> 'a option"
    and ok :: "'s \<Rightarrow> bool"
    and rep :: "'s \<Rightarrow> 'a"
  assumes step_ok: "ok s \<Longrightarrow> step x s = Some s' \<Longrightarrow> ok s'"
    and step_rep: "ok s \<Longrightarrow> map_option rep (step x s) = spec x (rep s)"
begin

lemma run_ok: "ok s \<Longrightarrow> run_ops step xs s = Some s' \<Longrightarrow> ok s'"
  by (induction xs arbitrary: s) (auto split: option.splits dest: step_ok)

lemma run_rep: "ok s \<Longrightarrow> map_option rep (run_ops step xs s) = run_ops spec xs (rep s)"
proof (induction xs arbitrary: s)
  case (Cons x xs)
  show ?case
  proof (cases "step x s")
    case None
    then show ?thesis using step_rep [OF Cons.prems, of x] by simp
  next
    case (Some s')
    then have "spec x (rep s) = Some (rep s')" using step_rep [OF Cons.prems, of x] by simp
    then show ?thesis using Some Cons.IH [OF step_ok [OF Cons.prems Some]] by simp
  qed
qed simp

lemma run_total: "ok s \<Longrightarrow> run_ops spec xs (rep s) = Some a \<Longrightarrow> \<exists>s'. run_ops step xs s = Some s' \<and> ok s' \<and> rep s' = a"
  using run_rep [of s xs] run_ok [of s xs] by (auto simp: map_option_case split: option.splits)

end

end
