(* ===== verification/Ring_Buffer.thy ===== *)
theory Ring_Buffer
  imports Simulation "HOL-Library.Signed_Division"
begin

text \<open>
  \<open>RingBuffer<T, Size>\<close> of \<open>container/RingBuffer.hpp\<close>: a buffer of \<open>Size\<close> elements with the
  indices of the oldest and the newest one and the number of elements held. The three counters are
  32-bit \<open>int\<close>s: a step past the largest one is undefined behaviour, as is an index outside the
  buffer, and both are \<open>None\<close>. The length of the buffer is the template argument \<open>Size\<close>.
\<close>

record 'a ring =
  rb_buf :: "'a list"
  rb_head :: int
  rb_tail :: int
  rb_size :: int

definition Size :: "'a ring \<Rightarrow> int" where
  "Size r = int (length (rb_buf r))"

definition int_max :: int where
  "int_max = 2 ^ 31 - 1"

definition inc_int :: "int \<Rightarrow> int option" where
  "inc_int n = (if n = int_max then None else Some (n + 1))"

definition ring_new :: "'a list \<Rightarrow> 'a ring" where
  "ring_new buf = \<lparr>rb_buf = buf, rb_head = 1, rb_tail = 0, rb_size = 0\<rparr>"

definition incTail :: "'a ring \<Rightarrow> 'a ring option" where
  "incTail r = (case inc_int (rb_tail r) of None \<Rightarrow> None | Some t \<Rightarrow>
     case inc_int (rb_size r) of None \<Rightarrow> None | Some n \<Rightarrow>
     Some (r\<lparr>rb_tail := (if t = Size r then 0 else t), rb_size := n\<rparr>))"

definition decTail :: "'a ring \<Rightarrow> 'a ring" where
  "decTail r =
     (if rb_size r = 0 then r
      else let t = rb_tail r - 1 in
        r\<lparr>rb_tail := (if t < 0 then Size r - 1 else t), rb_size := rb_size r - 1\<rparr>)"

definition incHead :: "'a ring \<Rightarrow> 'a ring option" where
  "incHead r =
     (if rb_size r = 0 then Some r
      else case inc_int (rb_head r) of None \<Rightarrow> None | Some h \<Rightarrow>
        Some (r\<lparr>rb_head := (if h = Size r then 0 else h), rb_size := rb_size r - 1\<rparr>))"

text \<open>Access by a checked position, and the two accessors of the class.\<close>

definition buf_at :: "'a ring \<Rightarrow> int \<Rightarrow> 'a option" where
  "buf_at r i = (if 0 \<le> i \<and> i < Size r then Some (rb_buf r ! nat i) else None)"

definition ring_back :: "'a ring \<Rightarrow> 'a option" where
  "ring_back r = buf_at r (rb_tail r)"

definition ring_index :: "'a ring \<Rightarrow> int \<Rightarrow> 'a option" where
  "ring_index r index =
     (let index = index + rb_head r in
      if index < - int_max - 1 \<or> int_max < index then None else buf_at r (index smod Size r))"

definition store_back :: "'a \<Rightarrow> 'a ring \<Rightarrow> 'a ring option" where
  "store_back x r =
     (if 0 \<le> rb_tail r \<and> rb_tail r < Size r then Some (r\<lparr>rb_buf := (rb_buf r)[nat (rb_tail r) := x]\<rparr>) else None)"

text \<open>\<open>push_back()\<close> advances the indices and leaves the slot's old element in place.\<close>

definition push_slot :: "'a ring \<Rightarrow> 'a ring option" where
  "push_slot r = (case incTail r of None \<Rightarrow> None | Some r \<Rightarrow>
     if Size r < rb_size r then incHead r else Some r)"

definition push_back :: "'a \<Rightarrow> 'a ring \<Rightarrow> 'a ring option" where
  "push_back x r = (case push_slot r of None \<Rightarrow> None | Some r \<Rightarrow> store_back x r)"

definition ring_pop :: "'a ring \<Rightarrow> 'a ring" where
  "ring_pop r = decTail r"

definition ring_size :: "'a ring \<Rightarrow> int" where
  "ring_size r = rb_size r"

datatype 'a ring_op = Push 'a | Pop

fun ring_do :: "'a ring_op \<Rightarrow> 'a ring \<Rightarrow> 'a ring option" where
  "ring_do (Push x) r = push_back x r"
| "ring_do Pop r = Some (ring_pop r)"

section \<open>The buffer as a bounded list\<close>

text \<open>The elements from the oldest to the newest.\<close>

definition ring_list :: "'a ring \<Rightarrow> 'a list" where
  "ring_list r = map (\<lambda>i. rb_buf r ! nat ((rb_head r + int i) mod Size r)) [0..<nat (rb_size r)]"

definition ring_ok :: "nat \<Rightarrow> 'a ring \<Rightarrow> bool" where
  "ring_ok n r \<longleftrightarrow> length (rb_buf r) = n \<and> 2 \<le> n \<and> int n < int_max
     \<and> 0 \<le> rb_head r \<and> rb_head r < int n \<and> 0 \<le> rb_size r \<and> rb_size r \<le> int n
     \<and> rb_tail r = (rb_head r + rb_size r - 1) mod int n"

text \<open>The reference: a list of at most \<open>n\<close> elements that forgets its first when it is full.\<close>

fun bounded_do :: "nat \<Rightarrow> 'a ring_op \<Rightarrow> 'a list \<Rightarrow> 'a list option" where
  "bounded_do n (Push x) xs = Some ((if length xs = n then tl xs else xs) @ [x])"
| "bounded_do n Pop xs = Some (butlast xs)"

text \<open>Stepping an index to its neighbour in the circle.\<close>

lemma next_mod: "0 \<le> t \<Longrightarrow> t < n \<Longrightarrow> (if t + 1 = n then 0 else t + 1) = (t + 1) mod (n::int)"
  by auto

lemma prev_mod: "0 \<le> t \<Longrightarrow> t < n \<Longrightarrow> (if t - 1 < 0 then n - 1 else t - 1) = (t - 1) mod (n::int)"
  by (cases "t = 0") (auto simp: zmod_minus1)

lemma slots_distinct: "0 \<le> i \<Longrightarrow> i < j \<Longrightarrow> j < i + n \<Longrightarrow> (h + i) mod n \<noteq> (h + j) mod (n::int)"
proof
  assume a: "0 \<le> i" "i < j" "j < i + n" and "(h + i) mod n = (h + j) mod n"
  then have "n dvd (h + j) - (h + i)" by (metis mod_eq_dvd_iff)
  then show False using a zdvd_imp_le [of n "j - i"] by simp
qed

lemma ring_list_len [simp]: "length (ring_list r) = nat (rb_size r)"
  by (simp add: ring_list_def)

lemma ring_list_nth: "i < nat (rb_size r) \<Longrightarrow> ring_list r ! i = rb_buf r ! nat ((rb_head r + int i) mod Size r)"
  by (simp add: ring_list_def)

lemma push_slot_ok:
  assumes "ring_ok n r"
  shows "\<exists>r'. push_slot r = Some r' \<and> ring_ok n r' \<and> rb_buf r' = rb_buf r
    \<and> (if rb_size r = int n then rb_size r' = int n \<and> rb_head r' = (rb_head r + 1) mod int n
       else rb_size r' = rb_size r + 1 \<and> rb_head r' = rb_head r)"
proof -
  let ?n = "int n"
  let ?t = "(rb_head r + rb_size r) mod ?n"
  have r: "length (rb_buf r) = n" "2 \<le> n" "?n < int_max" "0 \<le> rb_head r" "rb_head r < ?n"
      "0 \<le> rb_size r" "rb_size r \<le> ?n" "rb_tail r = (rb_head r + rb_size r - 1) mod ?n"
    using assms by (simp_all add: ring_ok_def)
  have t: "0 \<le> rb_tail r" "rb_tail r < ?n" using r(2,8) by simp_all
  have "(rb_tail r + 1) mod ?n = ?t" by (simp add: r(8) mod_simps)
  then have tail: "incTail r = Some (r\<lparr>rb_tail := ?t, rb_size := rb_size r + 1\<rparr>)"
    unfolding incTail_def inc_int_def Size_def r(1) using r(1,3,7) t
    by (simp add: next_mod [OF t])
  show ?thesis
  proof (cases "rb_size r = ?n")
    case True
    have h: "(if rb_head r + 1 = ?n then 0 else rb_head r + 1) = (rb_head r + 1) mod ?n"
      using next_mod [OF r(4,5)] .
    have "((rb_head r + 1) mod ?n + ?n - 1) mod ?n = ((rb_head r + 1) mod ?n - 1 + ?n) mod ?n"
      by (rule arg_cong [of _ _ "\<lambda>k. k mod ?n"]) simp
    also have "\<dots> = (rb_head r + ?n) mod ?n" by (simp add: mod_simps)
    finally have "((rb_head r + 1) mod ?n + ?n - 1) mod ?n = (rb_head r + ?n) mod ?n" .
    then show ?thesis
      using True r h by (simp add: push_slot_def tail Size_def incHead_def inc_int_def ring_ok_def)
  next
    case False
    then show ?thesis using r by (simp add: push_slot_def tail Size_def ring_ok_def)
  qed
qed

lemma push_back_refines:
  assumes "ring_ok n r"
  shows "\<exists>r'. push_back x r = Some r' \<and> ring_ok n r'
    \<and> ring_list r' = (if length (ring_list r) = n then tl (ring_list r) else ring_list r) @ [x]"
proof -
  let ?n = "int n"
  obtain r1 where r1: "push_slot r = Some r1" "ring_ok n r1" "rb_buf r1 = rb_buf r"
      "if rb_size r = ?n then rb_size r1 = ?n \<and> rb_head r1 = (rb_head r + 1) mod ?n
       else rb_size r1 = rb_size r + 1 \<and> rb_head r1 = rb_head r"
    using push_slot_ok [OF assms] by blast
  define r' where "r' = r1\<lparr>rb_buf := (rb_buf r1)[nat (rb_tail r1) := x]\<rparr>"
  have n: "2 \<le> n" "0 \<le> rb_size r" "rb_size r \<le> ?n" "length (rb_buf r) = n" using assms by (simp_all add: ring_ok_def)
  have t: "rb_tail r1 = (rb_head r1 + rb_size r1 - 1) mod ?n" "length (rb_buf r1) = n"
    using r1(2) by (simp_all add: ring_ok_def)
  have tn: "0 \<le> rb_tail r1" "rb_tail r1 < ?n" unfolding t(1) using n(1) by simp_all
  have push: "push_back x r = Some r'"
    using tn t(2) by (simp add: push_back_def r1(1) store_back_def Size_def r'_def)
  have ok: "ring_ok n r'" using r1(2) by (simp add: ring_ok_def r'_def)
  have other: "nat ((rb_head r1 + int i) mod ?n) \<noteq> nat (rb_tail r1)" if "int i < rb_size r1 - 1" for i
  proof -
    have "rb_size r1 \<le> ?n" using r1(2) by (simp add: ring_ok_def)
    then have "(rb_head r1 + int i) mod ?n \<noteq> (rb_head r1 + (rb_size r1 - 1)) mod ?n"
      using that by (intro slots_distinct) auto
    then show ?thesis using tn n(1) unfolding t(1) by (simp add: add_diff_eq nat_eq_iff)
  qed
  have "ring_list r' = (if length (ring_list r) = n then tl (ring_list r) else ring_list r) @ [x]"
  proof (rule nth_equalityI)
    show "length (ring_list r') = length ((if length (ring_list r) = n then tl (ring_list r) else ring_list r) @ [x])"
      using r1(4) n by (auto simp: r'_def split: if_splits)
  next
    fix i assume "i < length (ring_list r')"
    then have i: "int i < rb_size r1" "i < nat (rb_size r')" by (simp_all add: r'_def)
    then have at: "ring_list r' ! i = (rb_buf r1)[nat (rb_tail r1) := x] ! nat ((rb_head r1 + int i) mod ?n)"
      using ring_list_nth [OF i(2)] t(2) by (simp add: r'_def Size_def)
    show "ring_list r' ! i = ((if length (ring_list r) = n then tl (ring_list r) else ring_list r) @ [x]) ! i"
    proof (cases "int i = rb_size r1 - 1")
      case True
      then have "(rb_head r1 + int i) mod ?n = rb_tail r1" by (simp add: t(1) add_diff_eq)
      moreover have "i = length (if length (ring_list r) = n then tl (ring_list r) else ring_list r)"
        using True r1(4) n by (auto split: if_splits)
      ultimately show ?thesis using at tn t(2) by (simp add: nth_append)
    next
      case False
      then have "ring_list r' ! i = rb_buf r ! nat ((rb_head r1 + int i) mod ?n)"
        using at other [of i] i(1) r1(3) by simp
      moreover have "(rb_head r1 + int i) mod ?n = (rb_head r + int (if rb_size r = ?n then Suc i else i)) mod ?n"
        using r1(4) by (simp add: mod_simps add.assoc split: if_splits)
      ultimately show ?thesis using False i(1) r1(4) n
        by (auto simp: nth_append nth_tl ring_list_nth Size_def split: if_splits)
    qed
  qed
  then show ?thesis using push ok by blast
qed

lemma ring_pop_refines:
  assumes "ring_ok n r"
  shows "ring_ok n (ring_pop r) \<and> ring_list (ring_pop r) = butlast (ring_list r)"
proof (cases "rb_size r = 0")
  case True
  then show ?thesis using assms by (simp add: ring_pop_def decTail_def ring_list_def)
next
  case False
  let ?n = "int n"
  have r: "length (rb_buf r) = n" "2 \<le> n" "0 \<le> rb_size r" "rb_tail r = (rb_head r + rb_size r - 1) mod ?n"
    using assms by (simp_all add: ring_ok_def)
  have t: "0 \<le> rb_tail r" "rb_tail r < ?n" using r(2,4) by simp_all
  have "(rb_tail r - 1) mod ?n = (rb_head r + (rb_size r - 1) - 1) mod ?n"
    by (simp add: r(4) mod_simps algebra_simps)
  then have p: "ring_pop r = r\<lparr>rb_tail := (rb_head r + (rb_size r - 1) - 1) mod ?n, rb_size := rb_size r - 1\<rparr>"
    unfolding ring_pop_def decTail_def Let_def Size_def r(1) prev_mod [OF t] using False by simp
  have "nat (rb_size r) = Suc (nat (rb_size r - 1))" using False r(3) by simp
  then have "ring_list (ring_pop r) = butlast (ring_list r)"
    unfolding ring_list_def by (simp add: p Size_def del: upt_Suc add: map_butlast upt_Suc_append)
  then show ?thesis using assms False r(3) by (auto simp: p ring_ok_def)
qed

interpretation ring: simulation ring_do "bounded_do n" "ring_ok n" ring_list for n
proof
  fix r r' :: "'a ring" and x
  assume ok: "ring_ok n r"
  have "\<exists>r'. ring_do x r = Some r' \<and> ring_ok n r' \<and> bounded_do n x (ring_list r) = Some (ring_list r')"
  proof (cases x)
    case (Push y)
    then show ?thesis using push_back_refines [OF ok, of y] by auto
  next
    case Pop
    then show ?thesis using ring_pop_refines [OF ok] by simp
  qed
  then show "map_option ring_list (ring_do x r) = bounded_do n x (ring_list r)"
    and "ring_do x r = Some r' \<Longrightarrow> ring_ok n r'" by auto
qed

lemma ring_new_ok: "2 \<le> length buf \<Longrightarrow> int (length buf) < int_max \<Longrightarrow> ring_ok (length buf) (ring_new buf)"
  by (simp add: ring_ok_def ring_new_def)

lemma ring_list_new [simp]: "ring_list (ring_new buf) = []"
  by (simp add: ring_list_def ring_new_def)

lemma bounded_total: "\<exists>ys. run_ops (bounded_do n) ops xs = Some ys"
proof (induction ops arbitrary: xs)
  case (Cons x ops)
  then show ?case by (cases x) auto
qed simp

lemma ring_index_list:
  assumes "ring_ok n r" "2 * int n < int_max" "i < length (ring_list r)"
  shows "ring_index r (int i) = Some (ring_list r ! i)"
proof -
  have "0 \<le> rb_head r" "rb_head r < int n" "int i < int n" "length (rb_buf r) = n" "0 < n"
    using assms by (auto simp: ring_ok_def)
  moreover have "(int i + rb_head r) smod int n = (rb_head r + int i) mod int n"
    using calculation by (simp add: signed_modulo_int_def add.commute sgn_if)
  ultimately show ?thesis
    using assms(2,3) by (simp add: ring_index_def Let_def Size_def buf_at_def ring_list_nth)
qed

lemma ring_back_list:
  assumes "ring_ok n r" "ring_list r \<noteq> []"
  shows "ring_back r = Some (last (ring_list r))"
proof -
  have "0 < nat (rb_size r)" using assms(2) by (metis length_greater_0_conv ring_list_len)
  moreover have "rb_tail r = (rb_head r + (rb_size r - 1)) mod int n" "length (rb_buf r) = n" "2 \<le> n"
    using assms(1) by (simp_all add: ring_ok_def add_diff_eq)
  ultimately show ?thesis
    using assms(2) by (simp add: ring_back_def buf_at_def Size_def last_conv_nth ring_list_nth)
qed

text \<open>
  C38: a ring buffer of at least two slots, driven by any sequence of \<open>push_back\<close> and \<open>pop\<close>, never
  leaves its buffer and holds what the bounded list that forgets its oldest element holds: \<open>size\<close>
  is its length, \<open>operator[]\<close> reads it from the oldest element on, and \<open>back\<close> is the newest one.
\<close>

theorem ring_buffer_refines:
  assumes "2 \<le> length buf" and "2 * int (length buf) < int_max"
  shows "\<exists>r xs. run_ops ring_do ops (ring_new buf) = Some r
    \<and> run_ops (bounded_do (length buf)) ops [] = Some xs
    \<and> ring_size r = int (length xs) \<and> length xs \<le> length buf
    \<and> map (ring_index r \<circ> int) [0..<length xs] = map Some xs
    \<and> (if xs = [] then True else ring_back r = Some (last xs))"
proof -
  have "int (length buf) < int_max" using assms(2) by simp
  note new = ring_new_ok [OF assms(1) this]
  obtain xs where xs: "run_ops (bounded_do (length buf)) ops [] = Some xs" using bounded_total by blast
  then obtain r where r: "run_ops ring_do ops (ring_new buf) = Some r" "ring_ok (length buf) r" "ring_list r = xs"
    using ring.run_total [OF new] by auto
  have "map (ring_index r \<circ> int) [0..<length xs] = map Some xs"
    by (rule nth_equalityI) (simp_all add: ring_index_list [OF r(2) assms(2)] flip: r(3))
  moreover have "ring_size r = int (length xs)" "length xs \<le> length buf"
    using r(2) by (auto simp: ring_size_def ring_ok_def simp flip: r(3))
  ultimately show ?thesis using r ring_back_list [OF r(2)] xs by auto
qed

theorem ring_buffer_refines_witness:
  "\<exists>r. run_ops ring_do [Push 1, Push 2, Push 3, Pop, Push (4::nat)] (ring_new [0, 0]) = Some r
     \<and> map (ring_index r \<circ> int) [0..<2] = [Some 2, Some 4]"
proof -
  have "run_ops (bounded_do 2) [Push 1, Push 2, Push 3, Pop, Push 4] [] = Some [2, 4 :: nat]" by simp
  then show ?thesis
    using ring_buffer_refines [of "[0, 0 :: nat]" "[Push 1, Push 2, Push 3, Pop, Push 4]"]
    by (auto simp: int_max_def numeral_2_eq_2)
qed

text \<open>
  With a single slot the head index starts outside the buffer at \<open>Size\<close> and never wraps: it
  counts the pushes, and the push after the \<open>2 ^ 31 - 1\<close>st overflows the \<open>int\<close>.
\<close>

theorem one_slot_ring_overflows:
  "run_ops ring_do (map Push xs) (ring_new [b]) =
     (if int_max < int (length xs) then None
      else Some \<lparr>rb_buf = [last (b # xs)], rb_head = max 1 (int (length xs)), rb_tail = 0,
                 rb_size = min 1 (int (length xs))\<rparr>)"
proof (induction xs rule: rev_induct)
  case Nil
  then show ?case by (simp add: ring_new_def int_max_def)
next
  case (snoc x xs)
  have push: "push_back x \<lparr>rb_buf = [y], rb_head = h, rb_tail = 0, rb_size = 1\<rparr> =
      (if h = int_max then None else Some \<lparr>rb_buf = [x], rb_head = h + 1, rb_tail = 0, rb_size = 1\<rparr>)"
    if "1 \<le> h" for y h
    using that by (simp add: push_back_def push_slot_def incTail_def incHead_def inc_int_def int_max_def Size_def store_back_def)
  have first: "push_back x \<lparr>rb_buf = [y], rb_head = 1, rb_tail = 0, rb_size = 0\<rparr> =
      Some \<lparr>rb_buf = [x], rb_head = 1, rb_tail = 0, rb_size = 1\<rparr>" for y
    by (simp add: push_back_def push_slot_def incTail_def inc_int_def int_max_def Size_def store_back_def)
  show ?case
  proof (cases xs)
    case Nil
    then show ?thesis by (simp add: first ring_new_def int_max_def)
  next
    case (Cons y ys)
    then have n: "max 1 (int (length xs)) = int (length xs)" "min 1 (int (length xs)) = 1" "1 \<le> int (length xs)"
      by simp_all
    show ?thesis unfolding map_append run_ops_append snoc.IH
      using n by (simp add: push)
  qed
qed

end
