(* ===== verification/Bit_Ops.thy ===== *)
theory Bit_Ops
  imports Zpc_Prelude Complex_Main
begin

text \<open>
  The bit manipulation routines of \<open>math/bit/Bits.h\<close> and the host intrinsics of
  \<open>execution/Intrinsics.hpp\<close>. Words are kept at their width; a shift by the width or more is
  undefined behaviour and is \<open>None\<close>, as is a loop that does not end.
\<close>

section \<open>Intrinsics\<close>

text \<open>The compiler's population count, and the count of the zero bits below the lowest set bit.\<close>

definition count_ones :: "'a::len word \<Rightarrow> nat" where
  "count_ones x = length (filter (bit x) [0..<LENGTH('a)])"

definition builtin_ctz :: "'a::len word \<Rightarrow> nat" where
  "builtin_ctz x = length (takeWhile (\<lambda>i. \<not> bit x i) [0..<LENGTH('a)])"

definition count_tailing_zeros :: "'a::len word \<Rightarrow> nat" where
  "count_tailing_zeros x = (if x = 0 then LENGTH('a) else builtin_ctz x)"

text \<open>The software versions: a de Bruijn sequence multiplied by the lowest set bit.\<close>

definition debruijn8 :: "nat list" where
  "debruijn8 = [0, 1, 6, 2, 7, 5, 4, 3]"

definition debruijn32 :: "nat list" where
  "debruijn32 = [0, 1, 28, 2, 29, 14, 24, 3, 30, 22, 20, 15, 25, 17, 4, 8,
     31, 27, 13, 23, 21, 19, 16, 7, 26, 12, 18, 6, 11, 5, 10, 9]"

definition debruijn64 :: "nat list" where
  "debruijn64 = [0, 1, 2, 53, 3, 7, 54, 27, 4, 38, 41, 8, 34, 55, 48, 28, 62, 5, 39, 46, 44, 42,
     22, 9, 24, 35, 59, 56, 49, 18, 29, 11, 63, 52, 6, 26, 37, 40, 33, 47, 61, 45, 43, 21,
     23, 58, 17, 10, 51, 25, 36, 32, 60, 20, 57, 16, 50, 31, 19, 15, 30, 14, 13, 12]"

definition software_ctz8 :: "u8 \<Rightarrow> nat" where
  "software_ctz8 x =
     (if x = 0 then 8
      else let v = ucast x :: u32 in debruijn8 ! unat (drop_bit 5 (ucast ((v AND - v) * 0x1D) :: u8)))"

definition software_ctz32 :: "u32 \<Rightarrow> nat" where
  "software_ctz32 x =
     (if x = 0 then 32
      else let v = x in debruijn32 ! unat (drop_bit 27 ((v AND - v) * 0x077CB531)))"

definition software_ctz64 :: "u64 \<Rightarrow> nat" where
  "software_ctz64 x =
     (if x = 0 then 64
      else let v = x in debruijn64 ! unat (drop_bit 58 ((v AND - v) * 0x022FDD63CC95386D)))"

section \<open>Morton codes\<close>

definition expand_bits_32 :: "u32 \<Rightarrow> u32" where
  "expand_bits_32 v =
     (let v = (v * 0x00010001) AND 0xFF0000FF;
          v = (v * 0x00000101) AND 0x0F00F00F;
          v = (v * 0x00000011) AND 0xC30C30C3;
          v = (v * 0x00000005) AND 0x49249249
      in v)"

definition expand_bits_64 :: "u32 \<Rightarrow> u64" where
  "expand_bits_64 v =
     (let x = ucast (v AND 0x1fffff) :: u64;
          x = (x OR push_bit 32 x) AND 0x1f00000000ffff;
          x = (x OR push_bit 16 x) AND 0x1f0000ff0000ff;
          x = (x OR push_bit 8 x) AND 0x100f00f00f00f00f;
          x = (x OR push_bit 4 x) AND 0x10c30c30c30c30c3;
          x = (x OR push_bit 2 x) AND 0x1249249249249249
      in x)"

definition compact_bits_32 :: "u32 \<Rightarrow> u32" where
  "compact_bits_32 v =
     (let v = v AND 0x9249249;
          v = (v XOR drop_bit 2 v) AND 0x30c30c3;
          v = (v XOR drop_bit 4 v) AND 0x0300f00f;
          v = (v XOR drop_bit 8 v) AND 0x30000ff;
          v = (v XOR drop_bit 16 v) AND 0x000003ff
      in v)"

definition compact_bits_64 :: "u64 \<Rightarrow> u32" where
  "compact_bits_64 v =
     (let v = v AND 0x1249249249249249;
          v = (v XOR drop_bit 2 v) AND 0x10c30c30c30c30c3;
          v = (v XOR drop_bit 4 v) AND 0x100f00f00f00f00f;
          v = (v XOR drop_bit 8 v) AND 0x1f0000ff0000ff;
          v = (v XOR drop_bit 16 v) AND 0x1f00000000ffff;
          v = (v XOR drop_bit 32 v) AND 0x1fffff
      in ucast v)"

text \<open>
  A coordinate is the rational number a finite \<open>float\<close> or \<open>double\<close> denotes. Scaling by a power of two
  is exact, and the conversion to \<open>u32\<close> drops the fraction; it is undefined outside the range of the
  target type.
\<close>

definition to_u32 :: "rat \<Rightarrow> u32 option" where
  "to_u32 x = (let n = (if 0 \<le> x then floor x else ceiling x) in
     if 0 \<le> n \<and> n < 2 ^ 32 then Some (word_of_int n) else None)"

definition morton_3d_32 :: "rat \<Rightarrow> rat \<Rightarrow> rat \<Rightarrow> u32 option" where
  "morton_3d_32 x y z =
     (case (to_u32 (x * 1024), to_u32 (y * 1024), to_u32 (z * 1024)) of
        (Some x, Some y, Some z) \<Rightarrow>
          Some (push_bit 2 (expand_bits_32 x) OR push_bit 1 (expand_bits_32 y) OR expand_bits_32 z)
      | _ \<Rightarrow> None)"

definition morton_3d_64 :: "rat \<Rightarrow> rat \<Rightarrow> rat \<Rightarrow> u64 option" where
  "morton_3d_64 x y z =
     (case (to_u32 (x * 2097152), to_u32 (y * 2097152), to_u32 (z * 2097152)) of
        (Some x, Some y, Some z) \<Rightarrow>
          Some (push_bit 2 (expand_bits_64 x) OR push_bit 1 (expand_bits_64 y) OR expand_bits_64 z)
      | _ \<Rightarrow> None)"

section \<open>Sizes and alignment\<close>

function bit_length :: "int \<Rightarrow> int" where
  "bit_length N = (if N > 0 then bit_length (drop_bit 1 N) + 1 else 0)"
  by pat_completeness auto
termination by (relation "measure nat") (auto simp: drop_bit_Suc)

declare bit_length.simps [simp del]

definition bit_count :: "int \<Rightarrow> int" where
  "bit_count N = (if N > 0 then bit_length (N - 1) else 0)"

text \<open>\<open>next_2pow\<close> shifts an \<open>int\<close>: the result must fit the type.\<close>

definition next_2pow :: "int \<Rightarrow> int option" where
  "next_2pow n = (let r = push_bit (nat (bit_count n)) 1 in if r < 2 ^ 31 then Some r else None)"

definition next_power_of_two :: "u32 \<Rightarrow> u32" where
  "next_power_of_two i =
     (let i = i - 1;
          i = i OR drop_bit 1 i;
          i = i OR drop_bit 2 i;
          i = i OR drop_bit 4 i;
          i = i OR drop_bit 8 i;
          i = i OR drop_bit 16 i
      in i + 1)"

definition round_down :: "'a::len word \<Rightarrow> 'a word \<Rightarrow> 'a word" where
  "round_down n alignment = n AND NOT (alignment - 1)"

definition round_up :: "'a::len word \<Rightarrow> 'a word \<Rightarrow> 'a word" where
  "round_up n alignment = (n + alignment - 1) AND NOT (alignment - 1)"

text \<open>\<open>interleaved_bit_mask<u64>\<close>: the loop sets every \<open>dim\<close>-th bit; a step of zero never ends.\<close>

partial_function (option) interleave_loop :: "u64 \<Rightarrow> u64 \<Rightarrow> u64 \<Rightarrow> u64 option" where
  "interleave_loop d curBit m =
     (if curBit < 64 then interleave_loop d (curBit + d) (m OR push_bit (unat curBit) 1) else Some m)"

definition interleaved_bit_mask :: "i32 \<Rightarrow> u64 option" where
  "interleaved_bit_mask d = interleave_loop (scast d) 0 0"

section \<open>Reversal, packing and spreading\<close>

function reverse_from :: "u64 \<Rightarrow> nat \<Rightarrow> u64" where
  "reverse_from data loc =
     (if data = 0 then 0 else push_bit loc (data AND 1) OR reverse_from (drop_bit 1 data) (loc - 1))"
  by pat_completeness auto
termination
proof (relation "measure (\<lambda>(data, loc). unat data)", simp)
  fix data :: u64 and loc :: nat
  assume "data \<noteq> 0"
  then have "unat data \<noteq> 0" by (simp add: unat_eq_zero)
  then show "((drop_bit 1 data, loc - 1), data, loc) \<in> measure (\<lambda>(data, loc). unat data)"
    by (simp add: unat_div_distrib drop_bit_Suc)
qed

declare reverse_from.simps [simp del]

definition binary_reverse :: "u64 \<Rightarrow> u64" where
  "binary_reverse data = reverse_from data 63"

text \<open>The loop of \<open>count_leading_zeros\<close> ends on a number that is not zero.\<close>

partial_function (option) count_zeros_loop :: "u64 \<Rightarrow> nat \<Rightarrow> nat option" where
  "count_zeros_loop data res =
     (if data AND 1 = 0 then count_zeros_loop (drop_bit 1 data) (res + 1) else Some res)"

definition count_leading_zeros :: "u64 \<Rightarrow> nat option" where
  "count_leading_zeros data =
     (let data = binary_reverse data in if data = 0 then Some 64 else count_zeros_loop data 0)"

text \<open>A left or right shift of a 64-bit word: the amount must be below 64.\<close>

definition shl64 :: "u64 \<Rightarrow> nat \<Rightarrow> u64 option" where
  "shl64 x n = (if n < 64 then Some (push_bit n x) else None)"

definition shr64 :: "u64 \<Rightarrow> nat \<Rightarrow> u64 option" where
  "shr64 x n = (if n < 64 then Some (drop_bit n x) else None)"

partial_function (option) pack_loop :: "u64 \<Rightarrow> u64 \<Rightarrow> u64 \<Rightarrow> nat \<Rightarrow> (u64 \<times> nat) option" where
  "pack_loop rm uldata ulresult n =
     (if rm = 0 then Some (ulresult, n)
      else case count_leading_zeros rm of None \<Rightarrow> None | Some lz \<Rightarrow>
        case shr64 uldata lz of None \<Rightarrow> None | Some uldata \<Rightarrow>
        case shl64 rm (lz + 1) of None \<Rightarrow> None | Some rm \<Rightarrow>
          pack_loop rm (drop_bit 1 uldata) (push_bit 1 ulresult OR (uldata AND 1)) (n + 1))"

definition bit_pack :: "u64 \<Rightarrow> u64 \<Rightarrow> i32 option" where
  "bit_pack m data =
     (case pack_loop (binary_reverse m) data 0 0 of None \<Rightarrow> None | Some (ulresult, n) \<Rightarrow>
        map_option (\<lambda>ulresult. ucast (binary_reverse ulresult)) (shl64 ulresult (64 - n)))"

partial_function (option) spread_loop :: "u64 \<Rightarrow> i32 \<Rightarrow> u64 \<Rightarrow> u64 option" where
  "spread_loop rm dat result =
     (if rm = 0 then Some result
      else case count_leading_zeros rm of None \<Rightarrow> None | Some lz \<Rightarrow>
        case shl64 result (lz + 1) of None \<Rightarrow> None | Some result \<Rightarrow>
        case shl64 rm (lz + 1) of None \<Rightarrow> None | Some rm \<Rightarrow>
          spread_loop rm (signed_drop_bit 1 dat) (result OR ucast (dat AND 1)))"

definition bit_spread :: "u64 \<Rightarrow> i32 \<Rightarrow> u64 option" where
  "bit_spread m data =
     (case spread_loop (binary_reverse m) data 0 of None \<Rightarrow> None | Some result \<Rightarrow>
        case count_leading_zeros m of None \<Rightarrow> None | Some lz \<Rightarrow> shr64 (binary_reverse result) lz)"

section \<open>Counting and testing bits\<close>

definition num_bits_on :: "u64 \<Rightarrow> u8" where
  "num_bits_on v =
     (let v = v - (drop_bit 1 v AND 0x5555555555555555);
          v = (v AND 0x3333333333333333) + (drop_bit 2 v AND 0x3333333333333333)
      in ucast (drop_bit 56 (((v + drop_bit 4 v) AND 0x0F0F0F0F0F0F0F0F) * 0x0101010101010101)))"

definition is_bit_on :: "u64 \<Rightarrow> nat \<Rightarrow> bool" where
  "is_bit_on m b = (m AND push_bit (b AND 63) 1 \<noteq> 0)"

end
