(* ===== verification/Bit_Mask.thy ===== *)
theory Bit_Mask
  imports Bit_Ops
begin

text \<open>
  \<open>bit_mask<Size>\<close> of \<open>types/Mask.hpp\<close>: a mask for at least \<open>Size\<close> bits in an array of 64-bit words.
  A mask is the list of its words; the template argument is passed to the operations that use it.
  Indices are \<open>int\<close>s: one whose word lies outside the array is undefined behaviour and \<open>None\<close> (the
  check under \<open>ZS_ENABLE_OFB_ACCESS_CHECK\<close> only prints).
\<close>

type_synonym bit_mask = "u64 list"

definition bits_per_word :: int where "bits_per_word = 8 * 8"
definition word_mask :: int where "word_mask = bits_per_word - 1"
definition log_2_word_size :: int where "log_2_word_size = bit_count bits_per_word"

definition word_count :: "nat \<Rightarrow> nat" where
  "word_count bit_size = (bit_size + nat bits_per_word - 1) div nat bits_per_word"

text \<open>The word of an index, and the word with the one bit of an index in it.\<close>

definition word_index :: "int \<Rightarrow> int" where
  "word_index n = drop_bit (nat log_2_word_size) n"

definition single_bit :: "int \<Rightarrow> u64" where
  "single_bit n = push_bit (nat (n AND word_mask)) 1"

definition word_at :: "bit_mask \<Rightarrow> int \<Rightarrow> u64 option" where
  "word_at m i = (if 0 \<le> i \<and> i < int (length m) then Some (m ! nat i) else None)"

definition update_word :: "bit_mask \<Rightarrow> int \<Rightarrow> (u64 \<Rightarrow> u64) \<Rightarrow> bit_mask option" where
  "update_word m i f = map_option (\<lambda>w. m[nat i := f w]) (word_at m i)"

section \<open>Construction and comparison\<close>

definition setOff_all :: "bit_mask \<Rightarrow> bit_mask" where
  "setOff_all m = map (\<lambda>w. 0) m"

definition setOn_all :: "bit_mask \<Rightarrow> bit_mask" where
  "setOn_all m = map (\<lambda>w. NOT 0) m"

definition set_all :: "bool \<Rightarrow> bit_mask \<Rightarrow> bit_mask" where
  "set_all on m = (let state = (if on then NOT 0 else 0) in map (\<lambda>w. state) m)"

text \<open>A mask is constructed on whatever its array holds.\<close>

definition mask_new :: "bit_mask \<Rightarrow> bit_mask" where
  "mask_new raw = setOff_all raw"

definition mask_of :: "bool \<Rightarrow> bit_mask \<Rightarrow> bit_mask" where
  "mask_of on raw = set_all on raw"

text \<open>The loops that compare count the words down and have seen all of them when they end at -1.\<close>

fun eq_loop :: "int \<Rightarrow> bit_mask \<Rightarrow> bit_mask \<Rightarrow> int" where
  "eq_loop n (w1 # m1) (w2 # m2) =
     (if n = 0 then - 1 else if w1 = w2 then eq_loop (n - 1) m1 m2 else n - 1)"
| "eq_loop n _ _ = n - 1"

definition mask_eq :: "bit_mask \<Rightarrow> bit_mask \<Rightarrow> bool" where
  "mask_eq m1 m2 \<longleftrightarrow> eq_loop (int (length m1)) m1 m2 = - 1"

definition mask_neq :: "bit_mask \<Rightarrow> bit_mask \<Rightarrow> bool" where
  "mask_neq m1 m2 \<longleftrightarrow> \<not> mask_eq m1 m2"

section \<open>Operations on whole masks\<close>

definition mask_and :: "bit_mask \<Rightarrow> bit_mask \<Rightarrow> bit_mask" where
  "mask_and = map2 (\<lambda>w1 w2. w1 AND w2)"

definition mask_or :: "bit_mask \<Rightarrow> bit_mask \<Rightarrow> bit_mask" where
  "mask_or = map2 (\<lambda>w1 w2. w1 OR w2)"

definition mask_minus :: "bit_mask \<Rightarrow> bit_mask \<Rightarrow> bit_mask" where
  "mask_minus = map2 (\<lambda>w1 w2. w1 AND NOT w2)"

definition mask_xor :: "bit_mask \<Rightarrow> bit_mask \<Rightarrow> bit_mask" where
  "mask_xor = map2 (\<lambda>w1 w2. w1 XOR w2)"

definition toggle_all :: "bit_mask \<Rightarrow> bit_mask" where
  "toggle_all m = map (\<lambda>w. NOT w) m"

definition mask_not :: "bit_mask \<Rightarrow> bit_mask" where
  "mask_not m = toggle_all m"

text \<open>The operators that return a mask apply the assignment to a copy of the left operand.\<close>

definition operator_and :: "bit_mask \<Rightarrow> bit_mask \<Rightarrow> bit_mask" where
  "operator_and m1 m2 = (let m = m1; m = mask_and m m2 in m)"

definition operator_or :: "bit_mask \<Rightarrow> bit_mask \<Rightarrow> bit_mask" where
  "operator_or m1 m2 = (let m = m1; m = mask_or m m2 in m)"

definition operator_xor :: "bit_mask \<Rightarrow> bit_mask \<Rightarrow> bit_mask" where
  "operator_xor m1 m2 = (let m = m1; m = mask_xor m m2 in m)"

definition memUsage :: "nat \<Rightarrow> int" where
  "memUsage bit_size = int (word_count bit_size) * 8"

section \<open>Single bits\<close>

definition setOn :: "int \<Rightarrow> bit_mask \<Rightarrow> bit_mask option" where
  "setOn n m = update_word m (word_index n) (\<lambda>w. w OR single_bit n)"

definition setOff :: "int \<Rightarrow> bit_mask \<Rightarrow> bit_mask option" where
  "setOff n m = update_word m (word_index n) (\<lambda>w. w AND NOT (single_bit n))"

definition set_bit_to :: "int \<Rightarrow> bool \<Rightarrow> bit_mask \<Rightarrow> bit_mask option" where
  "set_bit_to n on m = (if on then setOn n m else setOff n m)"

definition toggle :: "int \<Rightarrow> bit_mask \<Rightarrow> bit_mask option" where
  "toggle n m = update_word m (word_index n) (\<lambda>w. w XOR single_bit n)"

text \<open>The overloads for an execution space: one atomic read-modify-write of the word.\<close>

definition atomic_setOn :: "int \<Rightarrow> bit_mask \<Rightarrow> bit_mask option" where
  "atomic_setOn n m = update_word m (word_index n) (\<lambda>w. w OR single_bit n)"

definition atomic_setOff :: "int \<Rightarrow> bit_mask \<Rightarrow> bit_mask option" where
  "atomic_setOff n m = update_word m (word_index n) (\<lambda>w. w AND NOT (single_bit n))"

definition setFirstOn :: "bit_mask \<Rightarrow> bit_mask option" where "setFirstOn m = setOn 0 m"
definition setFirstOff :: "bit_mask \<Rightarrow> bit_mask option" where "setFirstOff m = setOff 0 m"

definition setLastOn :: "nat \<Rightarrow> bit_mask \<Rightarrow> bit_mask option" where
  "setLastOn bit_size m = setOn (int bit_size - 1) m"

definition setLastOff :: "nat \<Rightarrow> bit_mask \<Rightarrow> bit_mask option" where
  "setLastOff bit_size m = setOff (int bit_size - 1) m"

definition isOn :: "bit_mask \<Rightarrow> int \<Rightarrow> bool option" where
  "isOn m n = map_option (\<lambda>w. 0 \<noteq> (w AND single_bit n)) (word_at m (word_index n))"

definition isOff :: "bit_mask \<Rightarrow> int \<Rightarrow> bool option" where
  "isOff m n = map_option Not (isOn m n)"

section \<open>Tests, counts and searches\<close>

text \<open>The word loops of \<open>isOn()\<close> and \<open>isOff()\<close>.\<close>

fun all_loop :: "u64 \<Rightarrow> int \<Rightarrow> bit_mask \<Rightarrow> int" where
  "all_loop v n (w # m) = (if n = 0 then - 1 else if w = v then all_loop v (n - 1) m else n - 1)"
| "all_loop v n [] = n - 1"

definition isOn_all :: "bit_mask \<Rightarrow> bool" where
  "isOn_all m \<longleftrightarrow> all_loop (NOT 0) (int (length m)) m = - 1"

definition isOff_all :: "bit_mask \<Rightarrow> bool" where
  "isOff_all m \<longleftrightarrow> all_loop 0 (int (length m)) m = - 1"

text \<open>\<open>isConstant\<close> returns its result and the value it leaves in the reference parameter.\<close>

definition isConstant :: "bit_mask \<Rightarrow> bool \<times> bool" where
  "isConstant m =
     (let on = (hd m = NOT 0) in
      if \<not> on \<and> hd m \<noteq> 0 then (False, on)
      else (dropWhile (\<lambda>w. w = hd m) (tl m) = [], on))"

definition countOn :: "bit_mask \<Rightarrow> int" where
  "countOn m = foldl (\<lambda>s w. s + int (count_ones w)) 0 m"

definition countOff :: "nat \<Rightarrow> bit_mask \<Rightarrow> int" where
  "countOff bit_size m = int bit_size - countOn m"

fun count_words :: "int \<Rightarrow> bit_mask \<Rightarrow> int \<Rightarrow> (int \<times> bit_mask) option" where
  "count_words n [] s = (if n = 0 then Some (s, []) else None)"
| "count_words n (w # m) s = (if n = 0 then Some (s, w # m) else count_words (n - 1) m (s + int (count_ones w)))"

definition countOffset :: "bit_mask \<Rightarrow> int \<Rightarrow> int option" where
  "countOffset m k =
     (case count_words (word_index k) m 0 of
        Some (s, w # _) \<Rightarrow> Some (s + int (count_ones (w AND (single_bit k - 1))))
      | _ \<Rightarrow> None)"

text \<open>The searches go word by word; those for a bit that is off look at the complements.\<close>

fun skip_zero :: "int \<Rightarrow> bit_mask \<Rightarrow> int \<times> bit_mask" where
  "skip_zero n [] = (n, [])"
| "skip_zero n (w # m) = (if w = 0 then skip_zero (n + 1) m else (n, w # m))"

definition bit_position :: "int \<Rightarrow> u64 \<Rightarrow> int" where
  "bit_position n w = push_bit (nat log_2_word_size) n + int (count_tailing_zeros w)"

definition findFirstOn :: "nat \<Rightarrow> bit_mask \<Rightarrow> int" where
  "findFirstOn bit_size m =
     (case skip_zero 0 m of (n, []) \<Rightarrow> int bit_size | (n, w # _) \<Rightarrow> bit_position n w)"

definition findFirstOff :: "nat \<Rightarrow> bit_mask \<Rightarrow> int" where
  "findFirstOff bit_size m =
     (case skip_zero 0 (map (\<lambda>w. NOT w) m) of (n, []) \<Rightarrow> int bit_size | (n, w # _) \<Rightarrow> bit_position n w)"

text \<open>\<open>findNextOn\<close> and \<open>findNextOff\<close> have one body up to the complement of the words they read.\<close>

definition find_next :: "nat \<Rightarrow> bit_mask \<Rightarrow> int \<Rightarrow> int option" where
  "find_next bit_size m start =
     (let n = word_index start in
      if int (length m) \<le> n then Some (int bit_size)
      else case word_at m n of None \<Rightarrow> None | Some b \<Rightarrow>
        if b AND single_bit start \<noteq> 0 then Some start
        else let b = b AND push_bit (nat (start AND word_mask)) (NOT 0) in
          case skip_zero n (b # drop (nat n + 1) m) of
            (n, []) \<Rightarrow> Some (int bit_size)
          | (n, b # _) \<Rightarrow> Some (bit_position n b))"

definition findNextOn :: "nat \<Rightarrow> bit_mask \<Rightarrow> int \<Rightarrow> int option" where
  "findNextOn bit_size m start = find_next bit_size m start"

definition findNextOff :: "nat \<Rightarrow> bit_mask \<Rightarrow> int \<Rightarrow> int option" where
  "findNextOff bit_size m start = find_next bit_size (map (\<lambda>w. NOT w) m) start"

text \<open>The words of a narrower type, on a little-endian machine.\<close>

definition getWord :: "bit_mask \<Rightarrow> nat \<Rightarrow> 'a::len word option" where
  "getWord m n = map_option (\<lambda>w. ucast (drop_bit ((n * LENGTH('a)) mod 64) w))
     (word_at m (int ((n * LENGTH('a)) div 64)))"

end
