(* ===== verification/Bit_Props.thy ===== *)
theory Bit_Props
  imports Bit_Ops
begin

text \<open>
  The properties of the bit routines: each is characterised bit by bit, and the characterisations
  give the round trips and the agreement with the reference definitions.
\<close>

section \<open>Checking a word bit by bit\<close>

lemma upt64: "[0..<64] = [0, 1, 2, 3, 4, 5, 6, 7, 8, 9, 10, 11, 12, 13, 14, 15, 16, 17, 18, 19, 20, 21, 22, 23, 24, 25, 26, 27, 
     28, 29, 30, 31, 32, 33, 34, 35, 36, 37, 38, 39, 40, 41, 42, 43, 44, 45, 46, 47, 48, 49, 50, 51, 52, 
     53, 54, 55, 56, 57, 58, 59, 60, 61, 62, 63 :: nat]"
  by (simp add: upt_conv_Cons)

lemma below64:
  "list_all P [0, 1, 2, 3, 4, 5, 6, 7, 8, 9, 10, 11, 12, 13, 14, 15, 16, 17, 18, 19, 20, 21, 22, 23, 24, 25, 26, 27, 
     28, 29, 30, 31, 32, 33, 34, 35, 36, 37, 38, 39, 40, 41, 42, 43, 44, 45, 46, 47, 48, 49, 50, 51, 52, 
     53, 54, 55, 56, 57, 58, 59, 60, 61, 62, 63] \<Longrightarrow> n < 64 \<Longrightarrow> P (n::nat)"
  unfolding upt64 [symmetric] by (simp add: list_all_iff)

lemma below32:
  "list_all P [0, 1, 2, 3, 4, 5, 6, 7, 8, 9, 10, 11, 12, 13, 14, 15, 16, 17, 18, 19, 20, 21, 22, 23, 24, 25, 26, 27, 28, 29, 30, 31] \<Longrightarrow> n < 32 \<Longrightarrow> P (n::nat)"
  by (simp add: less_Suc_eq numeral_eq_Suc) blast

section \<open>Morton codes\<close>

lemma bit_expand_64: "n < 64 \<Longrightarrow> bit (expand_bits_64 v) n \<longleftrightarrow> 3 dvd n \<and> n < 63 \<and> bit v (n div 3)"
  unfolding expand_bits_64_def Let_def
  apply (erule below64 [rotated])
  apply (simp only: list.pred_inject HOL.simp_thms)
  apply (intro conjI; simp add: bit_simps)
  done

text \<open>
  Compacting moves the bits at the multiples of 3 together in blocks of doubling size: \<open>packed b w\<close>
  is the word whose blocks hold \<open>b\<close> of them.
\<close>

definition packed :: "nat \<Rightarrow> nat \<Rightarrow> 'a::len word \<Rightarrow> nat \<Rightarrow> bool" where
  "packed k b w n \<longleftrightarrow> n mod (3 * b) < b \<and> n div (3 * b) * b + n mod (3 * b) < k
     \<and> bit w (3 * (n div (3 * b) * b + n mod (3 * b)))"

lemma no_bit_64: "64 \<le> n \<Longrightarrow> \<not> bit (v::u64) n"
  by (rule impossible_bit) simp

lemma packed_step_64:
  assumes "list_all (\<lambda>n. bit v n = packed 21 b (w::u64) n) [0..<64]"
    and "(b, m) \<in> {(1, 0x10c30c30c30c30c3 :: u64), (2, 0x100f00f00f00f00f), (4, 0x1f0000ff0000ff),
           (8, 0x1f00000000ffff), (16, 0x1fffff)}"
  shows "list_all (\<lambda>n. bit ((v XOR drop_bit (2 * b) v) AND m) n = packed 21 (2 * b) w n) [0..<64]"
  using assms unfolding upt64
  by (elim insertE emptyE; simp add: packed_def bit_simps no_bit_64 flip: numeral_2_eq_2)

lemma bit_compact_64: "n < 32 \<Longrightarrow> bit (compact_bits_64 w) n \<longleftrightarrow> n < 21 \<and> bit w (3 * n)"
proof -
  assume n: "n < 32"
  define v0 where "v0 = w AND 0x1249249249249249"
  define v1 where "v1 = (v0 XOR drop_bit 2 v0) AND 0x10c30c30c30c30c3"
  define v2 where "v2 = (v1 XOR drop_bit 4 v1) AND 0x100f00f00f00f00f"
  define v3 where "v3 = (v2 XOR drop_bit 8 v2) AND 0x1f0000ff0000ff"
  define v4 where "v4 = (v3 XOR drop_bit 16 v3) AND 0x1f00000000ffff"
  define v5 where "v5 = (v4 XOR drop_bit 32 v4) AND 0x1fffff"
  have "list_all (\<lambda>n. bit v0 n = packed 21 1 w n) [0..<64]"
    unfolding v0_def upt64 by (simp add: packed_def bit_simps)
  then have "list_all (\<lambda>n. bit v1 n = packed 21 2 w n) [0..<64]"
    using packed_step_64 [of v0 1 w "0x10c30c30c30c30c3"] by (simp add: v1_def)
  then have "list_all (\<lambda>n. bit v2 n = packed 21 4 w n) [0..<64]"
    using packed_step_64 [of v1 2 w "0x100f00f00f00f00f"] by (simp add: v2_def)
  then have "list_all (\<lambda>n. bit v3 n = packed 21 8 w n) [0..<64]"
    using packed_step_64 [of v2 4 w "0x1f0000ff0000ff"] by (simp add: v3_def)
  then have "list_all (\<lambda>n. bit v4 n = packed 21 16 w n) [0..<64]"
    using packed_step_64 [of v3 8 w "0x1f00000000ffff"] by (simp add: v4_def)
  then have "list_all (\<lambda>n. bit v5 n = packed 21 32 w n) [0..<64]"
    using packed_step_64 [of v4 16 w "0x1fffff"] by (simp add: v5_def)
  moreover have "bit (compact_bits_64 w) n = bit v5 n"
    unfolding compact_bits_64_def Let_def v5_def v4_def v3_def v2_def v1_def v0_def using n by (simp add: bit_simps)
  ultimately show ?thesis using n by (simp add: list_all_iff packed_def)
qed

lemma upt32: "[0..<32] = [0, 1, 2, 3, 4, 5, 6, 7, 8, 9, 10, 11, 12, 13, 14, 15, 16, 17, 18, 19, 20, 21, 22, 23,
    24, 25, 26, 27, 28, 29, 30, 31 :: nat]"
  by (simp add: upt_conv_Cons)

lemma no_bit_32: "32 \<le> n \<Longrightarrow> \<not> bit (v::u32) n"
  by (rule impossible_bit) simp

lemma packed_step_32:
  assumes "list_all (\<lambda>n. bit v n = packed 10 b (w::u32) n) [0..<32]"
    and "(b, m) \<in> {(1, 0x30c30c3 :: u32), (2, 0x0300f00f), (4, 0x30000ff), (8, 0x000003ff)}"
  shows "list_all (\<lambda>n. bit ((v XOR drop_bit (2 * b) v) AND m) n = packed 10 (2 * b) w n) [0..<32]"
  using assms unfolding upt32
  by (elim insertE emptyE; simp add: packed_def bit_simps no_bit_32 flip: numeral_2_eq_2)

lemma bit_compact_32: "n < 32 \<Longrightarrow> bit (compact_bits_32 w) n \<longleftrightarrow> n < 10 \<and> bit w (3 * n)"
proof -
  assume n: "n < 32"
  define v0 where "v0 = w AND 0x9249249"
  define v1 where "v1 = (v0 XOR drop_bit 2 v0) AND 0x30c30c3"
  define v2 where "v2 = (v1 XOR drop_bit 4 v1) AND 0x0300f00f"
  define v3 where "v3 = (v2 XOR drop_bit 8 v2) AND 0x30000ff"
  define v4 where "v4 = (v3 XOR drop_bit 16 v3) AND 0x000003ff"
  have "list_all (\<lambda>n. bit v0 n = packed 10 1 w n) [0..<32]"
    unfolding v0_def upt32 by (simp add: packed_def bit_simps)
  then have "list_all (\<lambda>n. bit v1 n = packed 10 2 w n) [0..<32]"
    using packed_step_32 [of v0 1 w "0x30c30c3"] by (simp add: v1_def)
  then have "list_all (\<lambda>n. bit v2 n = packed 10 4 w n) [0..<32]"
    using packed_step_32 [of v1 2 w "0x0300f00f"] by (simp add: v2_def)
  then have "list_all (\<lambda>n. bit v3 n = packed 10 8 w n) [0..<32]"
    using packed_step_32 [of v2 4 w "0x30000ff"] by (simp add: v3_def)
  then have "list_all (\<lambda>n. bit v4 n = packed 10 16 w n) [0..<32]"
    using packed_step_32 [of v3 8 w "0x000003ff"] by (simp add: v4_def)
  moreover have "bit (compact_bits_32 w) n = bit v4 n"
    unfolding compact_bits_32_def Let_def v4_def v3_def v2_def v1_def v0_def by (rule refl)
  ultimately show ?thesis using n by (simp add: list_all_iff packed_def) auto
qed

text \<open>The multiplications of \<open>expand_bits_32\<close> add a shifted copy that shares no bit with the word.\<close>

definition spread :: "nat \<Rightarrow> u32 \<Rightarrow> nat \<Rightarrow> bool" where
  "spread b v n \<longleftrightarrow> n mod (3 * b) < b \<and> n div (3 * b) * b + n mod (3 * b) < 10
     \<and> bit v (n div (3 * b) * b + n mod (3 * b))"

lemma times_or:
  assumes "x AND push_bit k x = (0::u32)"
  shows "x * (2 ^ k + 1) = x OR push_bit k x"
  using disjunctive_add_eq_or [OF assms] by (simp add: push_bit_eq_mult algebra_simps)

lemma spread_step:
  assumes "list_all (\<lambda>n. bit x n = spread (2 * b) v n) [0..<32]"
    and "(b, m) \<in> {(8, 0xFF0000FF :: u32), (4, 0x0F00F00F), (2, 0xC30C30C3), (1, 0x49249249)}"
  shows "list_all (\<lambda>n. bit ((x * (2 ^ (2 * b) + 1)) AND m) n = spread b v n) [0..<32]"
proof -
  have "list_all (\<lambda>n. bit (x AND push_bit (2 * b) x) n = bit (0::u32) n) [0..<32]"
    using assms unfolding upt32
    by (elim insertE emptyE; simp add: spread_def bit_simps flip: numeral_2_eq_2)
  then have "x AND push_bit (2 * b) x = 0"
    by (intro bit_word_eqI) (simp add: list_all_iff)
  note eq = times_or [OF this]
  show ?thesis
    using assms unfolding eq upt32
    by (elim insertE emptyE; simp add: spread_def bit_simps flip: numeral_2_eq_2)
qed

lemma bit_above:
  assumes "unat v < 2 ^ k" "k \<le> n"
  shows "\<not> bit (v::'a::len word) n"
proof
  assume "bit v n"
  then have "bit (unat v) n" using bit_imp_le_length by (auto simp: bit_unsigned_iff)
  then have "unat v div 2 ^ n \<noteq> 0" by (metis bit_iff_odd even_zero)
  then have "2 ^ n \<le> unat v" by (simp add: div_eq_0_iff not_less)
  moreover have "(2::nat) ^ k \<le> 2 ^ n" using assms(2) by simp
  ultimately show False using assms(1) by simp
qed

lemma bit_expand_32:
  assumes "v < 1024" and n: "n < 32"
  shows "bit (expand_bits_32 v) n \<longleftrightarrow> 3 dvd n \<and> n < 30 \<and> bit v (n div 3)"
proof -
  define v1 where "v1 = (v * 0x00010001) AND 0xFF0000FF"
  define v2 where "v2 = (v1 * 0x00000101) AND 0x0F00F00F"
  define v3 where "v3 = (v2 * 0x00000011) AND 0xC30C30C3"
  define v4 where "v4 = (v3 * 0x00000005) AND 0x49249249"
  have "unat v < 2 ^ 10" using assms(1) by (simp add: word_less_nat_alt)
  note small = bit_above [OF this]
  have "list_all (\<lambda>n. bit v n = spread 16 v n) [0..<32]"
    unfolding upt32 by (simp add: spread_def small flip: numeral_2_eq_2)
  then have "list_all (\<lambda>n. bit v1 n = spread 8 v n) [0..<32]"
    using spread_step [of v 8 v "0xFF0000FF"] by (simp add: v1_def)
  then have "list_all (\<lambda>n. bit v2 n = spread 4 v n) [0..<32]"
    using spread_step [of v1 4 v "0x0F00F00F"] by (simp add: v2_def)
  then have "list_all (\<lambda>n. bit v3 n = spread 2 v n) [0..<32]"
    using spread_step [of v2 2 v "0xC30C30C3"] by (simp add: v3_def)
  then have "list_all (\<lambda>n. bit v4 n = spread 1 v n) [0..<32]"
    using spread_step [of v3 1 v "0x49249249"] by (simp add: v4_def)
  moreover have "expand_bits_32 v = v4"
    unfolding expand_bits_32_def Let_def v4_def v3_def v2_def v1_def by (rule refl)
  ultimately show ?thesis using n by (simp add: list_all_iff spread_def dvd_eq_mod_eq_0) auto
qed

end
