(* ===== verification/Bit_Theorems.thy ===== *)
theory Bit_Theorems
  imports Bit_Props
begin

text \<open>
  What the bit routines promise: Morton codes decode to the grid cell they were made from, the
  software and the parallel bit counts agree with the plain definitions, packing and spreading
  under a mask are inverse to each other.
\<close>

section \<open>Morton codes\<close>

lemma to_u32_scaled:
  assumes "0 \<le> x" "x < 1" "k \<le> 31"
  shows "\<exists>w. to_u32 (x * 2 ^ k) = Some w \<and> unat w = nat \<lfloor>x * 2 ^ k\<rfloor> \<and> unat w < 2 ^ k"
proof -
  let ?n = "\<lfloor>x * 2 ^ k\<rfloor>"
  have n: "0 \<le> ?n" "?n < 2 ^ k" using assms by (simp_all add: floor_less_iff)
  have "(2::int) ^ k \<le> 2 ^ 31" using assms(3) by (rule power_increasing) simp
  also have "(2::int) ^ 31 < 2 ^ 32" by simp
  finally have "?n < 2 ^ 32" using n(2) by (rule order_less_trans [rotated])
  then have "to_u32 (x * 2 ^ k) = Some (word_of_int ?n)" "unat (word_of_int ?n :: u32) = nat ?n"
    unfolding to_u32_def Let_def using n assms(1) by (simp_all del: floor_less_iff floor_less_numeral add: unsigned_of_int take_bit_int_eq_self)
  then show ?thesis using n by (auto simp: nat_less_iff)
qed

lemma bit_morton_64:
  assumes "n < 64"
  shows "n < 63 \<longrightarrow> bit (push_bit 2 (expand_bits_64 x) OR push_bit 1 (expand_bits_64 y) OR expand_bits_64 z) n
    = bit (if n mod 3 = 0 then z else if n mod 3 = 1 then y else x) (n div 3)"
  using assms unfolding bit_or_iff bit_push_bit_iff
  apply (elim below64 [rotated])
  apply (simp only: list.pred_inject HOL.simp_thms)
  apply (intro conjI; simp add: bit_expand_64)
  done

lemma compact_expand_64:
  assumes "unat x < 2 ^ 21" "unat y < 2 ^ 21" "unat z < 2 ^ 21"
  defines "m \<equiv> push_bit 2 (expand_bits_64 x) OR push_bit 1 (expand_bits_64 y) OR expand_bits_64 z"
  shows "compact_bits_64 (drop_bit 2 m) = x \<and> compact_bits_64 (drop_bit 1 m) = y \<and> compact_bits_64 m = z"
proof -
  note above = bit_above [OF assms(1)] bit_above [OF assms(2)] bit_above [OF assms(3)]
  have bits: "bit m (3 * n) = bit z n" "bit m (Suc (3 * n)) = bit y n" "bit m (Suc (Suc (3 * n))) = bit x n"
    if "n < 21" for n
  proof -
    have "Suc (3 * n) mod 3 = 1" "Suc (Suc (3 * n)) mod 3 = 2" "Suc (3 * n) div 3 = n" "Suc (Suc (3 * n)) div 3 = n"
      by presburger+
    then show "bit m (3 * n) = bit z n" "bit m (Suc (3 * n)) = bit y n" "bit m (Suc (Suc (3 * n))) = bit x n"
      using that unfolding m_def by (subst bit_morton_64 [rule_format]; simp)+
  qed
  have "bit (compact_bits_64 (drop_bit 2 m)) n = bit x n \<and> bit (compact_bits_64 (drop_bit 1 m)) n = bit y n
      \<and> bit (compact_bits_64 m) n = bit z n" if "n < 32" for n
    unfolding bit_compact_64 [OF that] bit_drop_bit_eq comp_def
    using above [of n] bits [of n] by (cases "n < 21") (simp_all add: not_less)
  then show ?thesis by (auto intro!: bit_word_eqI)
qed

lemma bit_morton_32:
  assumes "n < 32" "x < 1024" "y < 1024" "z < 1024"
  shows "n < 30 \<longrightarrow> bit (push_bit 2 (expand_bits_32 x) OR push_bit 1 (expand_bits_32 y) OR expand_bits_32 z) n
    = bit (if n mod 3 = 0 then z else if n mod 3 = 1 then y else x) (n div 3)"
  using assms(2-4,1) unfolding bit_or_iff bit_push_bit_iff
  apply (elim below32 [rotated])
  apply (simp only: list.pred_inject HOL.simp_thms)
  apply (intro conjI; simp add: bit_expand_32)
  done

lemma compact_expand_32:
  assumes "unat x < 2 ^ 10" "unat y < 2 ^ 10" "unat z < 2 ^ 10"
  defines "m \<equiv> push_bit 2 (expand_bits_32 x) OR push_bit 1 (expand_bits_32 y) OR expand_bits_32 z"
  shows "compact_bits_32 (drop_bit 2 m) = x \<and> compact_bits_32 (drop_bit 1 m) = y \<and> compact_bits_32 m = z"
proof -
  note above = bit_above [OF assms(1)] bit_above [OF assms(2)] bit_above [OF assms(3)]
  have small: "x < 1024" "y < 1024" "z < 1024" using assms(1-3) by (simp_all add: word_less_nat_alt)
  have bits: "bit m (3 * n) = bit z n" "bit m (Suc (3 * n)) = bit y n" "bit m (Suc (Suc (3 * n))) = bit x n"
    if "n < 10" for n
  proof -
    have "Suc (3 * n) mod 3 = 1" "Suc (Suc (3 * n)) mod 3 = 2" "Suc (3 * n) div 3 = n" "Suc (Suc (3 * n)) div 3 = n"
      by presburger+
    then show "bit m (3 * n) = bit z n" "bit m (Suc (3 * n)) = bit y n" "bit m (Suc (Suc (3 * n))) = bit x n"
      using that small unfolding m_def by (subst bit_morton_32 [rule_format]; simp)+
  qed
  have "bit (compact_bits_32 (drop_bit 2 m)) n = bit x n \<and> bit (compact_bits_32 (drop_bit 1 m)) n = bit y n
      \<and> bit (compact_bits_32 m) n = bit z n" if "n < 32" for n
    unfolding bit_compact_32 [OF that] bit_drop_bit_eq comp_def
    using above [of n] bits [of n] by (cases "n < 10") (simp_all add: not_less)
  then show ?thesis by (auto intro!: bit_word_eqI)
qed

text \<open>
  A Morton code of coordinates in the unit cube decodes to the cell of the grid they lie in:
  compacting every third bit, from the third, the second or the first on, gives each coordinate
  scaled by the grid's resolution and rounded down, for 10 bits as for 21 bits a side.
\<close>

theorem morton_code_decodes:
  assumes "0 \<le> x" "x < 1" "0 \<le> y" "y < 1" "0 \<le> z" "z < 1"
  shows "map_option (\<lambda>m. map (\<lambda>k. unat (compact_bits_32 (drop_bit k m))) [2, 1, 0]) (morton_3d_32 x y z)
      = Some (map (\<lambda>c. nat \<lfloor>c * 2 ^ 10\<rfloor>) [x, y, z])
    \<and> map_option (\<lambda>m. map (\<lambda>k. unat (compact_bits_64 (drop_bit k m))) [2, 1, 0]) (morton_3d_64 x y z)
      = Some (map (\<lambda>c. nat \<lfloor>c * 2 ^ 21\<rfloor>) [x, y, z])"
proof
  obtain a b c where *: "to_u32 (x * 2 ^ 10) = Some a" "to_u32 (y * 2 ^ 10) = Some b" "to_u32 (z * 2 ^ 10) = Some c"
      "unat a = nat \<lfloor>x * 2 ^ 10\<rfloor>" "unat b = nat \<lfloor>y * 2 ^ 10\<rfloor>" "unat c = nat \<lfloor>z * 2 ^ 10\<rfloor>"
      "unat a < 2 ^ 10" "unat b < 2 ^ 10" "unat c < 2 ^ 10"
    using to_u32_scaled [OF assms(1,2), of 10] to_u32_scaled [OF assms(3,4), of 10] to_u32_scaled [OF assms(5,6), of 10]
    by auto
  show "map_option (\<lambda>m. map (\<lambda>k. unat (compact_bits_32 (drop_bit k m))) [2, 1, 0]) (morton_3d_32 x y z)
      = Some (map (\<lambda>c. nat \<lfloor>c * 2 ^ 10\<rfloor>) [x, y, z])"
    using compact_expand_32 [OF *(7-9)] *(1-6) by (simp add: morton_3d_32_def)
next
  obtain a b c where *: "to_u32 (x * 2 ^ 21) = Some a" "to_u32 (y * 2 ^ 21) = Some b" "to_u32 (z * 2 ^ 21) = Some c"
      "unat a = nat \<lfloor>x * 2 ^ 21\<rfloor>" "unat b = nat \<lfloor>y * 2 ^ 21\<rfloor>" "unat c = nat \<lfloor>z * 2 ^ 21\<rfloor>"
      "unat a < 2 ^ 21" "unat b < 2 ^ 21" "unat c < 2 ^ 21"
    using to_u32_scaled [OF assms(1,2), of 21] to_u32_scaled [OF assms(3,4), of 21] to_u32_scaled [OF assms(5,6), of 21]
    by auto
  show "map_option (\<lambda>m. map (\<lambda>k. unat (compact_bits_64 (drop_bit k m))) [2, 1, 0]) (morton_3d_64 x y z)
      = Some (map (\<lambda>c. nat \<lfloor>c * 2 ^ 21\<rfloor>) [x, y, z])"
    using compact_expand_64 [OF *(7-9)] *(1-6) by (simp add: morton_3d_64_def)
qed

theorem morton_code_decodes_witness:
  "map_option (\<lambda>m. map (\<lambda>k. unat (compact_bits_32 (drop_bit k m))) [2, 1, 0]) (morton_3d_32 (1/2) (3/4) 0)
     = Some [512, 768, 0]"
  using morton_code_decodes [of "1/2" "3/4" 0] by simp

text \<open>
  On the face \<open>x = 1\<close> of the cube the 32-bit code does not keep to the lower ten bits: the eleventh
  leaves the word and the code is the origin's.
\<close>

lemma morton_32_face: "morton_3d_32 1 0 0 = morton_3d_32 0 0 0"
  by (simp add: morton_3d_32_def to_u32_def expand_bits_32_def)

section \<open>The lowest set bit\<close>

lemma builtin_ctz_spec:
  assumes "x \<noteq> (0::'a::len word)"
  shows "builtin_ctz x < LENGTH('a) \<and> bit x (builtin_ctz x) \<and> (\<forall>i < builtin_ctz x. \<not> bit x i)"
proof -
  let ?xs = "[0..<LENGTH('a)]"
  obtain n where "bit x n" using assms bit_eq_iff [of x 0] by auto
  then have "\<exists>i \<in> set ?xs. \<not> \<not> bit x i" using bit_imp_le_length by fastforce
  then have len: "length (takeWhile (\<lambda>i. \<not> bit x i) ?xs) < length ?xs"
    by (metis not_less take_all takeWhile_eq_all_conv takeWhile_eq_take)
  then have "bit x (?xs ! builtin_ctz x)"
    unfolding builtin_ctz_def using nth_length_takeWhile by fastforce
  moreover have "\<not> bit x i" if "i < builtin_ctz x" for i
    using that len takeWhile_nth [of i "\<lambda>i. \<not> bit x i" ?xs] nth_mem [of i "takeWhile (\<lambda>i. \<not> bit x i) ?xs"]
    unfolding builtin_ctz_def by (auto dest: set_takeWhileD)
  ultimately show ?thesis using len by (simp add: builtin_ctz_def)
qed

lemma lowest_bit:
  assumes "x \<noteq> (0::'a::len word)"
  shows "x AND - x = 2 ^ builtin_ctz x"
proof -
  let ?k = "builtin_ctz x"
  have k: "?k < LENGTH('a)" "bit x ?k" "\<And>i. i < ?k \<Longrightarrow> \<not> bit x i"
    using builtin_ctz_spec [OF assms] by auto
  define h where "h = x AND NOT (mask (Suc ?k))"
  have "x = h OR 2 ^ ?k"
    by (rule bit_word_eqI) (use k in \<open>auto simp: h_def bit_simps less_Suc_eq_le le_eq_less_or_eq\<close>)
  moreover have "h AND 2 ^ ?k = 0" "h AND mask ?k = 0"
    by (auto intro!: bit_word_eqI simp: h_def bit_simps)
  ultimately have "x - 1 = h + mask ?k"
    by (simp add: mask_eq_exp_minus_1 flip: disjunctive_add_eq_or)
  also have "\<dots> = h OR mask ?k"
    using \<open>h AND mask ?k = 0\<close> by (rule disjunctive_add_eq_or)
  finally have "- x = NOT (h OR mask ?k)" by (simp add: minus_eq_not_minus_1)
  then show ?thesis
    by (intro bit_word_eqI) (use k in \<open>auto simp: h_def bit_simps less_Suc_eq_le le_eq_less_or_eq not_less\<close>)
qed

lemma debruijn64_table:
  "k < 64 \<Longrightarrow> debruijn64 ! unat (drop_bit 58 (2 ^ k * 0x022FDD63CC95386D :: u64)) = k"
  apply (erule below64 [rotated])
  apply (simp only: list.pred_inject HOL.simp_thms)
  apply (intro conjI; simp add: debruijn64_def)
  done

lemma debruijn32_table:
  "k < 32 \<Longrightarrow> debruijn32 ! unat (drop_bit 27 (2 ^ k * 0x077CB531 :: u32)) = k"
  apply (erule below32 [rotated])
  apply (simp only: list.pred_inject HOL.simp_thms)
  apply (intro conjI; simp add: debruijn32_def)
  done

lemma debruijn8_table:
  "k < 8 \<Longrightarrow> debruijn8 ! unat (drop_bit 5 (ucast (2 ^ k * 0x1D :: u32) :: u8)) = k"
proof -
  assume "k < 8"
  then have "k \<in> {0, 1, 2, 3, 4, 5, 6, 7}" by auto
  then show ?thesis by (elim insertE emptyE; simp add: debruijn8_def)
qed

text \<open>
  The software count of trailing zeros looks the position of the lowest set bit up in a table,
  through the top bits of a de Bruijn sequence shifted by that position; for words of 8, 32 and 64
  bits it is the compiler's count.
\<close>

theorem software_ctz_agrees:
  "software_ctz8 a = count_tailing_zeros a \<and> software_ctz32 b = count_tailing_zeros b
   \<and> software_ctz64 c = count_tailing_zeros c"
proof (intro conjI)
  show "software_ctz64 c = count_tailing_zeros c"
    using builtin_ctz_spec [of c]
    by (simp add: software_ctz64_def count_tailing_zeros_def lowest_bit debruijn64_table)
  show "software_ctz32 b = count_tailing_zeros b"
    using builtin_ctz_spec [of b]
    by (simp add: software_ctz32_def count_tailing_zeros_def lowest_bit debruijn32_table)
  show "software_ctz8 a = count_tailing_zeros a"
  proof (cases "a = 0")
    case False
    let ?v = "ucast a :: u32"
    note a = builtin_ctz_spec [OF False]
    have "bit ?v (builtin_ctz a)" using a by (simp add: bit_simps)
    then have v: "?v \<noteq> 0" by auto
    note u = builtin_ctz_spec [OF v]
    have "bit ?v (builtin_ctz a)" using a by (simp add: bit_simps)
    then have "builtin_ctz ?v \<le> builtin_ctz a" using u by (metis not_le)
    moreover have "bit a (builtin_ctz ?v)" using u by (simp add: bit_simps)
    then have "builtin_ctz a \<le> builtin_ctz ?v" using a by (metis not_le)
    ultimately show ?thesis
      using False a v by (simp add: software_ctz8_def count_tailing_zeros_def lowest_bit debruijn8_table)
  qed (simp add: software_ctz8_def count_tailing_zeros_def)
qed

section \<open>Powers of two\<close>

lemma next_power_smear:
  "\<exists>s. next_power_of_two i = s + 1 \<and> (\<forall>n. bit s n \<longleftrightarrow> (\<exists>d < 32. bit (i - 1) (n + d)))"
proof -
  define m where "m = i - 1"
  define s1 where "s1 = m OR drop_bit 1 m"
  define s2 where "s2 = s1 OR drop_bit 2 s1"
  define s4 where "s4 = s2 OR drop_bit 4 s2"
  define s8 where "s8 = s4 OR drop_bit 8 s4"
  define s16 where "s16 = s8 OR drop_bit 16 s8"
  have "bit m n \<longleftrightarrow> (\<exists>d < 1. bit m (n + d))" for n by simp
  note * = smear_step [where m = m, OF this]
  note * = smear_step [where m = m, OF * [folded s1_def]]
  note * = smear_step [where m = m, OF * [simplified, folded s2_def]]
  note * = smear_step [where m = m, OF * [simplified, folded s4_def]]
  note * = smear_step [where m = m, OF * [simplified, folded s8_def]]
  have "next_power_of_two i = s16 + 1"
    unfolding next_power_of_two_def Let_def s16_def s8_def s4_def s2_def s1_def m_def by (rule refl)
  then show ?thesis using * [simplified, folded s16_def] by (auto simp: m_def)
qed

lemma bit_length_range:
  "0 \<le> N \<Longrightarrow> 0 \<le> bit_length N \<and> N < 2 ^ nat (bit_length N)
    \<and> (N \<noteq> 0 \<longrightarrow> 0 < bit_length N \<and> 2 ^ (nat (bit_length N) - 1) \<le> N)"
proof (induction N rule: bit_length.induct)
  case (1 N)
  show ?case
  proof (cases "N = 0")
    case True
    then show ?thesis by (simp add: bit_length.simps)
  next
    case False
    let ?h = "drop_bit 1 N"
    have h: "0 \<le> ?h" "?h = N div 2" using 1(2) by (simp_all add: drop_bit_Suc)
    have l: "bit_length N = bit_length ?h + 1" using False 1(2) by (subst bit_length.simps) simp
    have ih: "0 \<le> bit_length ?h" "N div 2 < 2 ^ nat (bit_length ?h)"
        "N div 2 \<noteq> 0 \<Longrightarrow> 0 < bit_length ?h \<and> 2 ^ (nat (bit_length ?h) - 1) \<le> N div 2"
      using 1(1) False 1(2) h by simp_all
    have n: "nat (bit_length N) = Suc (nat (bit_length ?h))" using l ih(1) by simp
    have "N < 2 ^ nat (bit_length N)" using ih(2) by (simp add: n)
    moreover have "2 ^ (nat (bit_length N) - 1) \<le> N"
    proof (cases "N div 2 = 0")
      case True
      then have "bit_length ?h = 0" using h(2) by (subst bit_length.simps) simp
      then show ?thesis using False 1(2) by (simp add: n)
    next
      case False
      then have "nat (bit_length ?h) = Suc (nat (bit_length ?h) - 1)" using ih(3) by simp
      then have "(2::int) ^ nat (bit_length ?h) = 2 * 2 ^ (nat (bit_length ?h) - 1)" by (metis power_Suc)
      moreover have "2 ^ (nat (bit_length ?h) - 1) \<le> N div 2" using ih(3) [OF False] by blast
      then have "2 * 2 ^ (nat (bit_length ?h) - 1) \<le> N" by linarith
      ultimately show ?thesis by (simp add: n)
    qed
    ultimately show ?thesis using l ih(1) by simp
  qed
qed

lemma bit_length_least: "0 \<le> N \<Longrightarrow> N < 2 ^ k \<Longrightarrow> bit_length N \<le> int k"
proof (rule ccontr)
  assume a: "0 \<le> N" "N < 2 ^ k" "\<not> bit_length N \<le> int k"
  then have "N \<noteq> 0" using bit_length.simps [of 0] by auto
  then have "2 ^ (nat (bit_length N) - 1) \<le> N" using bit_length_range [OF a(1)] by blast
  moreover have "(2::int) ^ k \<le> 2 ^ (nat (bit_length N) - 1)"
    using a(3) by (intro power_increasing) auto
  ultimately show False using a(2) by linarith
qed

lemma bit_top:
  assumes "0 \<le> N" "N \<noteq> (0::int)"
  shows "bit N (nat (bit_length N) - 1)"
proof -
  let ?k = "nat (bit_length N) - 1"
  have "Suc ?k = nat (bit_length N)" using bit_length_range [OF assms(1)] assms(2) by auto
  then have "2 ^ ?k \<le> N" "N < 2 * 2 ^ ?k"
    using bit_length_range [OF assms(1)] assms(2) by (simp, metis power_Suc)
  then have "N div 2 ^ ?k = 1" by (intro int_div_pos_eq [of _ _ _ "N - 2 ^ ?k"]) auto
  then show ?thesis by (simp add: bit_iff_odd)
qed

text \<open>
  \<open>next_power_of_two\<close>, which smears the bits of \<open>i - 1\<close>, is the shift \<open>next_2pow\<close> makes: the
  least power of two that is not below \<open>i\<close>. Above \<open>2 ^ 31\<close> that power is \<open>2 ^ 32\<close>, which is 0 in
  32 bits.
\<close>

theorem next_power_of_two_least:
  assumes "i \<noteq> 0"
  defines "k \<equiv> nat (bit_count (uint i))"
  shows "next_power_of_two i = word_of_int (2 ^ k)
    \<and> (\<forall>j. uint i \<le> 2 ^ j \<longleftrightarrow> k \<le> j)"
proof -
  let ?m = "i - 1"
  have i: "0 < uint i" using assms(1) by (metis uint_ge_0 order_le_less unsigned_eq_0_iff)
  then have "1 \<le> i" by (simp add: word_le_def)
  then have m: "uint ?m = uint i - 1" by (simp add: uint_minus_simple_alt)
  have k: "k = nat (bit_length (uint i - 1))" using i by (simp add: k_def bit_count_def)
  have r: "uint i - 1 < 2 ^ k" using bit_length_range [of "uint i - 1"] i by (simp add: k)
  have um: "unat ?m < 2 ^ k"
    using r unfolding m [symmetric] unat_eq_nat_uint
    by (subst nat_less_iff) (simp_all only: uint_ge_0 of_nat_power of_nat_numeral)
  obtain s where s: "next_power_of_two i = s + 1" "\<And>n. bit s n \<longleftrightarrow> (\<exists>d < 32. bit ?m (n + d))"
    using next_power_smear by blast
  have "uint i \<le> 2 ^ 32 - 1" using uint_bounded [of i] by simp
  then have "bit_length (uint i - 1) \<le> int 32" using i by (intro bit_length_least) auto
  then have "k \<le> 32" using k by simp
  have "bit s n \<longleftrightarrow> n < k" if "n < 32" for n
  proof
    assume "bit s n"
    then obtain d where "bit ?m (n + d)" using s(2) by blast
    then show "n < k" using bit_above [OF um, of "n + d"] by (meson not_less trans_le_add1)
  next
    assume "n < k"
    have "bit_length 0 = 0" by (subst bit_length.simps) simp
    then have "uint i - 1 \<noteq> 0" using \<open>n < k\<close> unfolding k by (metis nat_0 not_less0)
    then have "bit (uint ?m) (k - 1)" using bit_top [of "uint i - 1"] i unfolding m k by simp
    then have "bit ?m (n + (k - 1 - n))" using \<open>n < k\<close> by (simp add: bit_uint_iff)
    moreover have "k - 1 - n < 32" using \<open>k \<le> 32\<close> \<open>n < k\<close> by linarith
    ultimately show "bit s n" using s(2) by blast
  qed
  then have "s = mask k" by (intro bit_word_eqI) (simp add: bit_mask_iff)
  then have "next_power_of_two i = word_of_int (2 ^ k)" by (simp add: s(1) mask_eq_exp_minus_1)
  moreover have "uint i \<le> 2 ^ j \<longleftrightarrow> k \<le> j" for j
  proof
    assume "uint i \<le> 2 ^ j"
    then show "k \<le> j" using bit_length_least [of "uint i - 1" j] i by (simp add: k)
  next
    assume "k \<le> j"
    then have "(2::int) ^ k \<le> 2 ^ j" by (rule power_increasing) simp
    then show "uint i \<le> 2 ^ j" using r by linarith
  qed
  ultimately show ?thesis by blast
qed

theorem next_power_of_two_least_witness:
  "\<exists>k. next_power_of_two 5 = word_of_int (2 ^ k) \<and> (\<forall>j. 5 \<le> (2::int) ^ j \<longleftrightarrow> k \<le> j)"
  using next_power_of_two_least [of 5] by auto

end
