(* ===== verification/Bit_Mask_Props.thy ===== *)
theory Bit_Mask_Props
  imports Bit_Mask Bit_Theorems Simulation
begin

text \<open>
  A bit mask as the set of its bits that are on, among all the bits its words hold: single-bit and
  whole-mask operations are set operations, counts are cardinalities, searches give the next element.
\<close>

section \<open>Words and indices\<close>

lemma log_2_word_size [simp]: "log_2_word_size = 6"
proof -
  have "bit_length 63 = 6" by (simp add: bit_length.simps)
  then show ?thesis by (simp add: log_2_word_size_def bits_per_word_def bit_count_def)
qed

lemma word_mask [simp]: "word_mask = 63"
  by (simp add: word_mask_def bits_per_word_def)

lemma word_count_eq: "word_count n = (n + 63) div 64"
  by (simp add: word_count_def bits_per_word_def)

lemma word_index_int [simp]: "word_index (int k) = int (k div 64)"
  by (simp add: word_index_def drop_bit_eq_div zdiv_int)

lemma and_63: "nat (int k AND 63) = k mod 64"
proof -
  have "int k AND 63 = take_bit 6 (int k)" by (simp add: take_bit_eq_mask mask_eq_exp_minus_1)
  then show ?thesis by (simp add: take_bit_eq_mod nat_mod_as_int)
qed

lemma bit_single_bit: "bit (single_bit (int k)) j \<longleftrightarrow> j = k mod 64"
  unfolding single_bit_def word_mask and_63 bit_push_bit_iff bit_1_iff using mod_less_divisor [of 64 k] by auto

lemma word_at_int: "word_at m (int i) = (if i < length m then Some (m ! i) else None)"
  by (simp add: word_at_def)

lemma update_word_int:
  "update_word m (int i) f = (if i < length m then Some (m[i := f (m ! i)]) else None)"
  by (simp add: update_word_def word_at_int)

lemma below_words: "k div 64 < n \<longleftrightarrow> k < 64 * (n::nat)"
  by (simp add: div_less_iff_less_mult mult.commute)

lemma word_index_neg: "n < 0 \<Longrightarrow> word_index n < 0"
  by (simp add: word_index_def drop_bit_eq_div div_neg_pos_less0)

section \<open>The set of the bits that are on\<close>

definition on_bits :: "bit_mask \<Rightarrow> nat set" where
  "on_bits m = {i. i < 64 * length m \<and> bit (m ! (i div 64)) (i mod 64)}"

lemma on_bits_Nil [simp]: "on_bits [] = {}"
  by (simp add: on_bits_def)

lemma on_bits_Cons: "on_bits (w # m) = {j. bit w j} \<union> (+) 64 ` on_bits m"
proof (rule set_eqI)
  fix i
  show "i \<in> on_bits (w # m) \<longleftrightarrow> i \<in> {j. bit w j} \<union> (+) 64 ` on_bits m"
  proof (cases "i < 64")
    case True
    then show ?thesis by (auto simp: on_bits_def)
  next
    case False
    then have "i = 64 + (i - 64)" "i div 64 = Suc ((i - 64) div 64)" "i mod 64 = (i - 64) mod 64"
      by (simp_all add: le_div_geq le_mod_geq)
    moreover have "\<not> bit w i" using False by (simp add: no_bit_64)
    moreover have "i \<in> (+) 64 ` on_bits m \<longleftrightarrow> i - 64 \<in> on_bits m"
      using False by (auto simp: image_iff intro: bexI [of _ "i - 64"])
    ultimately show ?thesis using False by (simp add: on_bits_def) linarith
  qed
qed

lemma finite_on_bits [simp]: "finite (on_bits m)"
  by (rule finite_subset [of _ "{..<64 * length m}"]) (auto simp: on_bits_def)

lemma on_bits_below: "i \<in> on_bits m \<Longrightarrow> i < 64 * length m"
  by (simp add: on_bits_def)

lemma on_bits_empty: "on_bits m = {} \<longleftrightarrow> list_all (\<lambda>w. w = 0) m"
proof (induction m)
  case (Cons w m)
  have "{j. bit w j} = {} \<longleftrightarrow> w = 0" using no_bit_64 [of _ w] by (auto simp: bit_eq_iff) (meson not_less)
  then show ?case using Cons by (simp add: on_bits_Cons)
qed simp

lemma on_bits_map2:
  assumes "length m1 = length m2" "\<And>v w j. j < 64 \<Longrightarrow> bit (f v w) j \<longleftrightarrow> P (bit v j) (bit w j)" "\<not> P False False"
  shows "on_bits (map2 f m1 m2) = {i. P (i \<in> on_bits m1) (i \<in> on_bits m2)}"
proof (rule set_eqI)
  fix i
  show "i \<in> on_bits (map2 f m1 m2) \<longleftrightarrow> i \<in> {i. P (i \<in> on_bits m1) (i \<in> on_bits m2)}"
    using assms by (cases "i < 64 * length m2") (auto simp: on_bits_def below_words [symmetric])
qed

lemma on_bits_map:
  assumes "\<And>w j. j < 64 \<Longrightarrow> bit (f w) j \<longleftrightarrow> P (bit w j)"
  shows "on_bits (map f m) = {i. i < 64 * length m \<and> P (i \<in> on_bits m)}"
  using assms by (auto simp: on_bits_def below_words)

lemma on_bits_update:
  assumes "k < 64 * length m" "\<And>j. j < 64 \<Longrightarrow> bit w' j \<longleftrightarrow> (if j = k mod 64 then b else bit (m ! (k div 64)) j)"
  shows "on_bits (m[k div 64 := w']) = (if b then insert k (on_bits m) else on_bits m - {k})"
proof (rule set_eqI)
  fix i
  have "i div 64 = k div 64 \<and> i mod 64 = k mod 64 \<longleftrightarrow> i = k" by (metis div_mult_mod_eq)
  then show "i \<in> on_bits (m[k div 64 := w']) \<longleftrightarrow> i \<in> (if b then insert k (on_bits m) else on_bits m - {k})"
    using assms by (cases "i div 64 = k div 64") (auto simp: on_bits_def below_words)
qed

lemma mask_ext: "length m1 = length m2 \<Longrightarrow> on_bits m1 = on_bits m2 \<Longrightarrow> m1 = m2"
proof (rule nth_equalityI)
  fix i assume a: "length m1 = length m2" "on_bits m1 = on_bits m2" "i < length m1"
  show "m1 ! i = m2 ! i"
  proof (rule bit_word_eqI)
    fix j assume "j < LENGTH(64)"
    then have "64 * i + j \<in> on_bits m \<longleftrightarrow> bit (m ! i) j" if "i < length m" for m
      using that by (auto simp: on_bits_def)
    then show "bit (m1 ! i) j = bit (m2 ! i) j" using a by metis
  qed
qed simp

section \<open>Operations as set operations\<close>

datatype mask_op = Set_on int | Set_off int | Flip int | Set_all bool | Flip_all
  | And_with bit_mask | Or_with bit_mask | Minus_with bit_mask | Xor_with bit_mask

text \<open>The other operand of a binary operation is a mask of the same type, so of the same length.\<close>

fun mask_do :: "mask_op \<Rightarrow> bit_mask \<Rightarrow> bit_mask option" where
  "mask_do (Set_on n) m = setOn n m"
| "mask_do (Set_off n) m = setOff n m"
| "mask_do (Flip n) m = toggle n m"
| "mask_do (Set_all on) m = Some (set_all on m)"
| "mask_do Flip_all m = Some (toggle_all m)"
| "mask_do (And_with m') m = (if length m' = length m then Some (mask_and m m') else None)"
| "mask_do (Or_with m') m = (if length m' = length m then Some (mask_or m m') else None)"
| "mask_do (Minus_with m') m = (if length m' = length m then Some (mask_minus m m') else None)"
| "mask_do (Xor_with m') m = (if length m' = length m then Some (mask_xor m m') else None)"

fun set_do :: "nat \<Rightarrow> mask_op \<Rightarrow> nat set \<Rightarrow> nat set option" where
  "set_do len (Set_on n) A = (if 0 \<le> n \<and> n < 64 * int len then Some (insert (nat n) A) else None)"
| "set_do len (Set_off n) A = (if 0 \<le> n \<and> n < 64 * int len then Some (A - {nat n}) else None)"
| "set_do len (Flip n) A =
     (if 0 \<le> n \<and> n < 64 * int len then Some (if nat n \<in> A then A - {nat n} else insert (nat n) A) else None)"
| "set_do len (Set_all on) A = Some (if on then {..<64 * len} else {})"
| "set_do len Flip_all A = Some ({..<64 * len} - A)"
| "set_do len (And_with m) A = (if length m = len then Some (A \<inter> on_bits m) else None)"
| "set_do len (Or_with m) A = (if length m = len then Some (A \<union> on_bits m) else None)"
| "set_do len (Minus_with m) A = (if length m = len then Some (A - on_bits m) else None)"
| "set_do len (Xor_with m) A = (if length m = len then Some ((A - on_bits m) \<union> (on_bits m - A)) else None)"

lemma update_bit:
  assumes "\<And>w j. 0 \<le> n \<Longrightarrow> j < 64 \<Longrightarrow> bit (f w) j \<longleftrightarrow> (if j = nat n mod 64 then g (bit w j) else bit w j)"
  shows "map_option on_bits (update_word m (word_index n) f)
    = (if 0 \<le> n \<and> n < 64 * int (length m)
       then Some (if g (nat n \<in> on_bits m) then insert (nat n) (on_bits m) else on_bits m - {nat n}) else None)"
proof (cases "0 \<le> n")
  case True
  then obtain k where n: "n = int k" using nonneg_int_cases by blast
  show ?thesis
  proof (cases "k < 64 * length m")
    case k: True
    then have "k \<in> on_bits m \<longleftrightarrow> bit (m ! (k div 64)) (k mod 64)" by (simp add: on_bits_def)
    then show ?thesis
      using k assms n
      by (simp add: update_word_int below_words on_bits_update [of k m _ "g (k \<in> on_bits m)"] del: if_split_asm)
  qed (simp add: n update_word_int below_words)
next
  case False
  then show ?thesis using word_index_neg [of n] by (simp add: update_word_def word_at_def)
qed

lemma mask_do_sets: "map_option on_bits (mask_do x m) = set_do (length m) x (on_bits m)"
proof (cases x)
  case (Set_on n)
  have "map_option on_bits (update_word m (word_index n) (\<lambda>w. w OR single_bit n)) =
    (if 0 \<le> n \<and> n < 64 * int (length m)
     then Some (if (\<lambda>b. True) (nat n \<in> on_bits m) then insert (nat n) (on_bits m) else on_bits m - {nat n}) else None)"
    by (rule update_bit) (use bit_single_bit [of "nat n"] in \<open>auto simp: bit_or_iff\<close>)
  then show ?thesis by (auto simp: Set_on setOn_def)
next
  case (Set_off n)
  have "map_option on_bits (update_word m (word_index n) (\<lambda>w. w AND NOT (single_bit n))) =
    (if 0 \<le> n \<and> n < 64 * int (length m)
     then Some (if (\<lambda>b. False) (nat n \<in> on_bits m) then insert (nat n) (on_bits m) else on_bits m - {nat n}) else None)"
    by (rule update_bit) (use bit_single_bit [of "nat n"] in \<open>auto simp: bit_and_iff bit_not_iff\<close>)
  then show ?thesis by (auto simp: Set_off setOff_def)
next
  case (Flip n)
  have "map_option on_bits (update_word m (word_index n) (\<lambda>w. w XOR single_bit n)) =
    (if 0 \<le> n \<and> n < 64 * int (length m)
     then Some (if (\<lambda>b. \<not> b) (nat n \<in> on_bits m) then insert (nat n) (on_bits m) else on_bits m - {nat n}) else None)"
    by (rule update_bit) (use bit_single_bit [of "nat n"] in \<open>auto simp: bit_xor_iff\<close>)
  then show ?thesis by (auto simp: Flip toggle_def)
next
  case (Set_all on)
  have "on_bits (map (\<lambda>w. if on then NOT 0 else 0) m) = {i. i < 64 * length m \<and> on}"
    using on_bits_map [of "\<lambda>w. if on then NOT 0 else 0" "\<lambda>b. on" m] by (simp add: bit_not_iff)
  then show ?thesis using Set_all by (cases on) (auto simp: set_all_def)
next
  case Flip_all
  have "on_bits (map (\<lambda>w. NOT w) m) = {i. i < 64 * length m \<and> i \<notin> on_bits m}"
    using on_bits_map [of "\<lambda>w. NOT w" Not m] by (simp add: bit_not_iff)
  then show ?thesis using Flip_all by (auto simp: toggle_all_def)
next
  case (And_with m')
  then show ?thesis
    using on_bits_map2 [of m m' "\<lambda>v w. v AND w" "\<lambda>a b. a \<and> b"] by (auto simp: mask_and_def bit_and_iff)
next
  case (Or_with m')
  then show ?thesis
    using on_bits_map2 [of m m' "\<lambda>v w. v OR w" "\<lambda>a b. a \<or> b"] by (auto simp: mask_or_def bit_or_iff)
next
  case (Minus_with m')
  then show ?thesis
    using on_bits_map2 [of m m' "\<lambda>v w. v AND NOT w" "\<lambda>a b. a \<and> \<not> b"]
    by (auto simp: mask_minus_def bit_and_iff bit_not_iff)
next
  case (Xor_with m')
  then show ?thesis
    using on_bits_map2 [of m m' "\<lambda>v w. v XOR w" "\<lambda>a b. a \<noteq> b"] by (auto simp: mask_xor_def bit_xor_iff)
qed

lemma length_mask_do: "mask_do x m = Some m' \<Longrightarrow> length m' = length m"
  by (cases x) (auto simp: setOn_def setOff_def toggle_def update_word_def set_all_def toggle_all_def
      mask_and_def mask_or_def mask_minus_def mask_xor_def split: if_splits)

interpretation mask: simulation mask_do "set_do n" "\<lambda>m. length m = n" on_bits for n
  by unfold_locales (auto simp: mask_do_sets dest: length_mask_do)

lemma on_bits_new [simp]: "on_bits (mask_new raw) = {}"
  by (auto simp: mask_new_def setOff_all_def on_bits_def below_words)

lemma mask_run_sets:
  "map_option on_bits (run_ops mask_do ops (mask_new raw)) = run_ops (set_do (length raw)) ops {}"
proof -
  have "length (mask_new raw) = length raw" by (simp add: mask_new_def setOff_all_def)
  from mask.run_rep [OF this, of ops] show ?thesis by simp
qed

text \<open>
  C39: a bit mask is the set of its bits that are on. Whatever operations are applied to a new mask,
  the bits that are on at the end are those the same operations leave on sets: a single-bit
  operation inserts, removes or flips its index, and is defined exactly on the indices of the bits
  the words hold; the operations on whole masks are intersection, union, difference, symmetric
  difference and complement.
\<close>

theorem bit_mask_refines_sets:
  "map_option on_bits (run_ops mask_do ops (mask_new raw)) = run_ops (set_do (length raw)) ops {}"
  by (rule mask_run_sets)

section \<open>Counts\<close>

lemma count_ones_card: "count_ones w = card {j. bit (w::u64) j}"
proof -
  have "count_ones w = length (filter (bit w) [0..<64])" by (simp add: count_ones_def)
  also have "\<dots> = card (set (filter (bit w) [0..<64]))"
    by (simp only: distinct_card distinct_filter distinct_upt)
  also have "set (filter (bit w) [0..<64]) = {j. bit w j}"
    using no_bit_64 [of _ w] by (auto simp: not_le [symmetric])
  finally show ?thesis .
qed

lemma finite_word_bits [simp]: "finite {j. bit (w::u64) j}"
  by (rule finite_subset [of _ "{..<64}"]) (use no_bit_64 [of _ w] in \<open>auto simp: not_le [symmetric]\<close>)

lemma card_on_bits_Cons: "card (on_bits (w # m)) = count_ones w + card (on_bits m)"
proof -
  have "{j. bit w j} \<inter> (+) 64 ` on_bits m = {}" using no_bit_64 [of _ w] by auto
  then show ?thesis by (simp add: on_bits_Cons card_Un_disjoint count_ones_card card_image)
qed

lemma countOn_card: "countOn m = int (card (on_bits m))"
proof -
  have "foldl (\<lambda>s w. s + int (count_ones w)) a m = a + int (card (on_bits m))" for a
    by (induction m arbitrary: a) (simp_all add: card_on_bits_Cons)
  then show ?thesis by (simp add: countOn_def)
qed

lemma count_words_int:
  "count_words (int n) m s = (if n \<le> length m then Some (s + countOn (take n m), drop n m) else None)"
proof (induction m arbitrary: n s)
  case Nil
  then show ?case by (simp add: countOn_def)
next
  case (Cons w m)
  show ?case
  proof (cases n)
    case 0
    then show ?thesis by (simp add: countOn_def)
  next
    case (Suc k)
    then have "count_words (int n) (w # m) s = count_words (int k) m (s + int (count_ones w))" by simp
    then show ?thesis using Suc by (simp add: Cons.IH countOn_card card_on_bits_Cons)
  qed
qed

lemma count_words_neg: "n < 0 \<Longrightarrow> count_words n m s = None"
  by (induction m arbitrary: n s) auto

lemma on_bits_append: "on_bits (m1 @ m2) = on_bits m1 \<union> (+) (64 * length m1) ` on_bits m2"
  by (induction m1) (auto simp: on_bits_Cons image_Un image_image algebra_simps)

lemma on_bits_split:
  assumes "k < length m"
  shows "on_bits m = on_bits (take k m) \<union> (+) (64 * k) ` {j. bit (m ! k) j} \<union> (+) (64 * (k + 1)) ` on_bits (drop (k + 1) m)"
proof -
  have "m = take k m @ m ! k # drop (k + 1) m" using assms by (simp add: id_take_nth_drop)
  then have "on_bits m = on_bits (take k m @ m ! k # drop (k + 1) m)" by simp
  also have "\<dots> = on_bits (take k m) \<union> (+) (64 * k) ` {j. bit (m ! k) j} \<union> (+) (64 * (k + 1)) ` on_bits (drop (k + 1) m)"
    using assms by (auto simp: on_bits_append on_bits_Cons image_Un image_image algebra_simps)
  finally show ?thesis .
qed

lemma split_below:
  assumes "r < 64" "n = 64 * q + (r::nat)"
  shows "64 * q + j < n \<longleftrightarrow> j < r" "\<not> 64 * (q + 1) + j < n"
  using assms by auto

lemma single_bit_mask: "single_bit (int k) - 1 = mask (k mod 64)"
  by (simp add: single_bit_def and_63 mask_eq_exp_minus_1 push_bit_of_1)

lemma countOffset_card:
  "countOffset m k = (if 0 \<le> k \<and> k < 64 * int (length m) then Some (int (card {i \<in> on_bits m. i < nat k})) else None)"
proof (cases "0 \<le> k")
  case True
  then obtain n where k: "k = int n" using nonneg_int_cases by blast
  let ?q = "n div 64"
  show ?thesis
  proof (cases "n < 64 * length m")
    case n: True
    then have q: "?q < length m" by (simp add: below_words)
    then have drop: "drop ?q m = m ! ?q # drop (Suc ?q) m" by (rule Cons_nth_drop_Suc [symmetric])
    let ?w = "m ! ?q AND mask (n mod 64)"
    have "{i \<in> on_bits m. i < n} = on_bits (take ?q m @ [?w])"
    proof -
      have "{i \<in> on_bits m. i < n} = on_bits (take ?q m) \<union> (+) (64 * ?q) ` {j. bit ?w j}"
      proof (rule set_eqI)
        fix i
        have n': "n = 64 * ?q + n mod 64" "n mod 64 < 64" by simp_all
        have "i \<in> on_bits (take ?q m) \<Longrightarrow> i < 64 * ?q" using on_bits_below [of i "take ?q m"] q by simp
        moreover note split_below [OF n'(2,1)]
        ultimately show "i \<in> {i \<in> on_bits m. i < n} \<longleftrightarrow> i \<in> on_bits (take ?q m) \<union> (+) (64 * ?q) ` {j. bit ?w j}"
          using n' unfolding on_bits_split [OF q] bit_and_iff bit_mask_iff by (auto intro: less_le_trans)
      qed
      then show ?thesis using q by (simp add: on_bits_append on_bits_Cons min_def)
    qed
    then have "int (card {i \<in> on_bits m. i < n}) = countOn (take ?q m @ [?w])" by (simp add: countOn_card)
    also have "\<dots> = countOn (take ?q m) + int (count_ones ?w)" by (simp add: countOn_def)
    finally show ?thesis
      using n q k by (simp add: countOffset_def count_words_int drop single_bit_mask)
  next
    case False
    then show ?thesis
      using k by (auto simp: countOffset_def count_words_int below_words [symmetric] not_less split: list.splits)
  qed
next
  case False
  then have "word_index k < 0" by (simp add: word_index_neg)
  then show ?thesis using False by (simp add: countOffset_def count_words_neg)
qed

section \<open>Searches\<close>

definition found :: "nat \<Rightarrow> int \<times> bit_mask \<Rightarrow> int" where
  "found bit_size r = (case r of (n, []) \<Rightarrow> int bit_size | (n, w # _) \<Rightarrow> bit_position n w)"

definition next_on :: "nat \<Rightarrow> nat set \<Rightarrow> nat" where
  "next_on bit_size A = (if A = {} then bit_size else Min A)"

lemma Min_word_bits: "w \<noteq> 0 \<Longrightarrow> Min ({j. bit (w::u64) j} \<union> (+) 64 ` A) = count_tailing_zeros w" if "finite A"
proof -
  assume w: "w \<noteq> 0"
  note z = builtin_ctz_spec [OF w]
  show "Min ({j. bit w j} \<union> (+) 64 ` A) = count_tailing_zeros w"
    using w z that by (intro Min_eqI) (auto simp: count_tailing_zeros_def not_le [symmetric])
qed

lemma skip_zero_found:
  "found bit_size (skip_zero n m) = (if on_bits m = {} then int bit_size else 64 * n + int (Min (on_bits m)))"
proof (induction m arbitrary: n)
  case Nil
  then show ?case by (simp add: found_def)
next
  case (Cons w m)
  show ?case
  proof (cases "w = 0")
    case True
    then have "on_bits (w # m) = (+) 64 ` on_bits m" by (simp add: on_bits_Cons)
    moreover have "Min ((+) 64 ` on_bits m) = 64 + Min (on_bits m)" if "on_bits m \<noteq> {}"
      using that by (intro mono_Min_commute [symmetric]) (auto simp: mono_def)
    ultimately show ?thesis using True Cons.IH [of "n + 1"] by (simp add: algebra_simps)
  next
    case False
    then have "{j. bit w j} \<noteq> {}" using builtin_ctz_spec [OF False] by blast
    then show ?thesis
      using False Min_word_bits [OF finite_on_bits False, of m]
      by (auto simp: on_bits_Cons found_def bit_position_def push_bit_eq_mult)
  qed
qed

lemma findFirstOn_eq: "findFirstOn bit_size m = int (next_on bit_size (on_bits m))"
  using skip_zero_found [of bit_size 0 m] by (simp add: findFirstOn_def found_def next_on_def)

lemma on_bits_not: "on_bits (map (\<lambda>w. NOT w) m) = {..<64 * length m} - on_bits m"
  using on_bits_map [of "\<lambda>w. NOT w" Not m] by (auto simp: bit_not_iff)

lemma findFirstOff_eq: "findFirstOff bit_size m = int (next_on bit_size ({..<64 * length m} - on_bits m))"
  using skip_zero_found [of bit_size 0 "map (\<lambda>w. NOT w) m"]
  by (simp add: findFirstOff_def found_def next_on_def on_bits_not)

lemma Min_shift: "finite A \<Longrightarrow> A \<noteq> {} \<Longrightarrow> Min ((+) k ` A) = k + Min (A :: nat set)"
  by (intro mono_Min_commute [symmetric]) (auto simp: mono_def)

lemma find_next_eq:
  "find_next bit_size m (int k) = Some (int (next_on bit_size {i \<in> on_bits m. k \<le> i}))"
proof (cases "k < 64 * length m")
  case False
  then have "{i \<in> on_bits m. k \<le> i} = {}" by (auto simp: on_bits_def)
  then show ?thesis using False by (simp add: find_next_def next_on_def below_words [symmetric] not_less)
next
  case True
  let ?q = "k div 64" and ?r = "k mod 64"
  have k: "k = 64 * ?q + ?r" "?r < 64" by simp_all
  have q: "?q < length m" using True by (simp add: below_words)
  let ?w = "m ! ?q"
  let ?b = "?w AND push_bit ?r (NOT 0)"
  let ?B = "on_bits (?b # drop (?q + 1) m)"
  have b: "bit ?b j \<longleftrightarrow> ?r \<le> j \<and> bit ?w j" for j
    using no_bit_64 [of j ?w] unfolding bit_and_iff bit_push_bit_iff bit_not_iff by (cases "j < 64") auto
  have A: "{i \<in> on_bits m. k \<le> i} = (+) (64 * ?q) ` ?B"
  proof -
    have "i \<in> on_bits (take ?q m) \<Longrightarrow> \<not> k \<le> i" for i
      using on_bits_below [of i "take ?q m"] q k(1) by simp
    moreover have "k \<le> 64 * ?q + j \<longleftrightarrow> ?r \<le> j" "k \<le> 64 * (?q + 1) + j" for j
      using split_below [OF k(2,1), of j] by linarith+
    ultimately show ?thesis
      unfolding on_bits_split [OF q] on_bits_Cons image_Un image_image b
      by (auto simp: algebra_simps dest: less_le_trans)
  qed
  show ?thesis
  proof (cases "bit ?w ?r")
    case on: True
    then have "Min {i \<in> on_bits m. k \<le> i} = k" "k \<in> on_bits m"
      using True by (auto intro!: Min_eqI simp: on_bits_def)
    moreover have "?w AND single_bit (int k) \<noteq> 0"
      using on bit_single_bit [of k ?r] by (metis bit_0_eq bit_and_iff bot_apply bot_bool_def)
    ultimately show ?thesis using q by (auto simp: find_next_def word_at_int next_on_def)
  next
    case off: False
    have zero: "?w AND single_bit (int k) = 0"
      by (rule bit_word_eqI) (use off bit_single_bit [of k] in \<open>auto simp: bit_and_iff\<close>)
    have "find_next bit_size m (int k) = Some (found bit_size (skip_zero (int ?q) (?b # drop (?q + 1) m)))"
      using q zero by (simp add: find_next_def word_at_int found_def and_63 Let_def split: prod.split list.split)
    also have "found bit_size (skip_zero (int ?q) (?b # drop (?q + 1) m)) = int (next_on bit_size {i \<in> on_bits m. k \<le> i})"
      unfolding skip_zero_found A next_on_def by (simp add: Min_shift)
    finally show ?thesis .
  qed
qed

lemma find_next_neg: "n < 0 \<Longrightarrow> find_next bit_size m n = None"
  using word_index_neg [of n] by (simp add: find_next_def word_at_def)

section \<open>Tests\<close>

lemma isOn_eq: "isOn m n = (if 0 \<le> n \<and> n < 64 * int (length m) then Some (nat n \<in> on_bits m) else None)"
proof (cases "0 \<le> n")
  case True
  then obtain k where n: "n = int k" using nonneg_int_cases by blast
  have "0 \<noteq> (w AND single_bit (int k)) \<longleftrightarrow> bit w (k mod 64)" for w
  proof
    assume "0 \<noteq> (w AND single_bit (int k))"
    then obtain j where "bit (w AND single_bit (int k)) j" by (auto simp: bit_eq_iff)
    then show "bit w (k mod 64)" by (auto simp: bit_and_iff bit_single_bit)
  next
    assume "bit w (k mod 64)"
    then have "bit (w AND single_bit (int k)) (k mod 64)" by (simp add: bit_and_iff bit_single_bit)
    then show "0 \<noteq> (w AND single_bit (int k))" by auto
  qed
  then show ?thesis by (simp add: n isOn_def word_at_int below_words on_bits_def)
next
  case False
  then show ?thesis using word_index_neg [of n] by (simp add: isOn_def word_at_def)
qed

lemma all_loop_eq: "all_loop v (int (length m)) m = - 1 \<longleftrightarrow> list_all (\<lambda>w. w = v) m"
proof -
  have "int (length m) \<le> n \<Longrightarrow> all_loop v n m = n - int (length m) - 1 \<and> list_all (\<lambda>w. w = v) m
      \<or> 0 \<le> all_loop v n m \<and> \<not> list_all (\<lambda>w. w = v) m" for n
  proof (induction m arbitrary: n)
    case (Cons w m)
    then show ?case using Cons.IH [of "n - 1"] by auto
  qed simp
  from this [of "int (length m)"] show ?thesis by auto
qed

lemma isOff_all_eq: "isOff_all m \<longleftrightarrow> on_bits m = {}"
  by (simp add: isOff_all_def all_loop_eq on_bits_empty)

lemma isOn_all_eq: "isOn_all m \<longleftrightarrow> on_bits m = {..<64 * length m}"
proof -
  have "isOn_all m \<longleftrightarrow> list_all (\<lambda>w. w = 0) (map (\<lambda>w. NOT w) m)"
    by (simp add: isOn_all_def all_loop_eq list_all_iff) (metis bit.compl_zero bit.double_compl)
  also have "\<dots> \<longleftrightarrow> {..<64 * length m} - on_bits m = {}"
    by (simp only: on_bits_empty [symmetric] on_bits_not)
  also have "\<dots> \<longleftrightarrow> on_bits m = {..<64 * length m}" using on_bits_below by auto
  finally show ?thesis .
qed

lemma eq_loop_eq: "length m1 = length m2 \<Longrightarrow> mask_eq m1 m2 \<longleftrightarrow> m1 = m2"
proof -
  have "length m1 = length m2 \<Longrightarrow> int (length m1) \<le> n \<Longrightarrow>
      eq_loop n m1 m2 = n - int (length m1) - 1 \<and> m1 = m2 \<or> 0 \<le> eq_loop n m1 m2 \<and> m1 \<noteq> m2" for n
  proof (induction n m1 m2 rule: eq_loop.induct)
    case (1 n w1 m1 w2 m2)
    then show ?case by (cases "w1 = w2") auto
  qed auto
  from this [of "int (length m1)"] show "length m1 = length m2 \<Longrightarrow> mask_eq m1 m2 \<longleftrightarrow> m1 = m2"
    by (auto simp: mask_eq_def)
qed

lemma isConstant_eq:
  assumes "m \<noteq> []"
  shows "fst (isConstant m) \<longleftrightarrow> on_bits m = {} \<or> on_bits m = {..<64 * length m}"
    and "fst (isConstant m) \<Longrightarrow> snd (isConstant m) \<longleftrightarrow> on_bits m \<noteq> {}"
proof -
  obtain w ws where m: "m = w # ws" using assms by (cases m) auto
  have on: "on_bits m = {..<64 * length m} \<longleftrightarrow> list_all (\<lambda>x. x = NOT 0) m"
    using isOn_all_eq [of m] by (simp add: isOn_all_def all_loop_eq)
  have "dropWhile (\<lambda>x. x = w) ws = [] \<longleftrightarrow> list_all (\<lambda>x. x = w) ws" by (simp add: list_all_iff)
  then show "fst (isConstant m) \<longleftrightarrow> on_bits m = {} \<or> on_bits m = {..<64 * length m}"
    unfolding on on_bits_empty by (auto simp: m isConstant_def Let_def)
  then show "fst (isConstant m) \<Longrightarrow> snd (isConstant m) \<longleftrightarrow> on_bits m \<noteq> {}"
    unfolding on on_bits_empty by (auto simp: m isConstant_def Let_def split: if_splits)
qed

section \<open>What the queries answer\<close>

text \<open>
  C40: on any mask the queries answer for the set of its bits that are on: \<open>countOn\<close> is its size,
  \<open>isOn\<close> is membership, \<open>countOffset(k)\<close> counts its elements below \<open>k\<close>, and the four searches give
  the least element, from a start on, of the set or of its complement, and \<open>Size\<close> when there is none.
  An index outside the words is undefined for the reads of one word.
\<close>

theorem bit_mask_queries:
  defines "inside \<equiv> \<lambda>m n. 0 \<le> n \<and> n < 64 * int (length m)"
  shows "countOn m = int (card (on_bits m))
    \<and> isOn m n = (if inside m n then Some (nat n \<in> on_bits m) else None)
    \<and> countOffset m n = (if inside m n then Some (int (card {i \<in> on_bits m. i < nat n})) else None)
    \<and> findFirstOn bit_size m = int (next_on bit_size (on_bits m))
    \<and> findFirstOff bit_size m = int (next_on bit_size ({..<64 * length m} - on_bits m))
    \<and> findNextOn bit_size m n = (if n < 0 then None else Some (int (next_on bit_size {i \<in> on_bits m. nat n \<le> i})))
    \<and> findNextOff bit_size m n =
        (if n < 0 then None else Some (int (next_on bit_size {i. nat n \<le> i \<and> i < 64 * length m \<and> i \<notin> on_bits m})))"
proof -
  have off: "{i. nat n \<le> i \<and> i < 64 * length m \<and> i \<notin> on_bits m} = {i \<in> {..<64 * length m} - on_bits m. nat n \<le> i}"
    by auto
  show ?thesis
    using find_next_eq [of bit_size m "nat n"] find_next_eq [of bit_size "map (\<lambda>w. NOT w) m" "nat n"]
    by (auto simp: inside_def countOn_card isOn_eq countOffset_card findFirstOn_eq findFirstOff_eq findNextOn_def
        findNextOff_def find_next_neg on_bits_not off)
qed

text \<open>
  The tests of whole masks: \<open>isOn()\<close> and \<open>isOff()\<close> hold when every bit of every word is on or off,
  \<open>isConstant\<close> when one of them does, and two masks of one type compare equal when their words are.
\<close>

theorem bit_mask_tests:
  "(isOn_all m \<longleftrightarrow> on_bits m = {..<64 * length m}) \<and> (isOff_all m \<longleftrightarrow> on_bits m = {})
   \<and> (m = [] \<or> fst (isConstant m) = (isOn_all m \<or> isOff_all m))
   \<and> (length m = length m' \<and> mask_eq m m' \<longleftrightarrow> m = m')"
  using isConstant_eq(1) [of m] eq_loop_eq [of m m'] by (auto simp: isOn_all_eq isOff_all_eq)

lemma words_cover:
  "64 * ((n + 63) div 64) = (if 64 dvd n then n else n - n mod 64 + (64::nat)) \<and> n \<le> 64 * ((n + 63) div 64)"
proof -
  define q r where "q = n div 64" and "r = n mod 64"
  have n: "n = 64 * q + r" "r < 64" by (simp_all add: q_def r_def)
  show ?thesis
  proof (cases "r = 0")
    case True
    then show ?thesis using n by simp
  next
    case False
    then have "(n + 63) div 64 = q + 1" using n by (intro div_nat_eqI) auto
    moreover have "\<not> 64 dvd n" using False by (simp add: r_def dvd_eq_mod_eq_0)
    ultimately show ?thesis using n unfolding r_def [symmetric] by simp
  qed
qed

text \<open>
  The words may hold more bits than \<open>Size\<close>. When all bits are set at once the ones above \<open>Size\<close>
  are set too: \<open>countOn\<close> counts them and \<open>countOff\<close> is negative. When every bit below \<open>Size\<close> is set
  by its index, \<open>isOn()\<close> says no. And \<open>countOffset(Size)\<close> reads past the words when \<open>Size\<close> fills
  them.
\<close>

theorem padding_bits_counted:
  fixes n :: nat and w :: u64
  defines "raw \<equiv> replicate (word_count n) w"
  shows "countOn (mask_of True raw) = 64 * int ((n + 63) div 64)
    \<and> countOff n (mask_of True raw) = (if 64 dvd n then 0 else int (n mod 64) - 64)
    \<and> map_option (\<lambda>m. (countOn m, isOn_all m)) (run_ops mask_do (map (Set_on \<circ> int) [0..<n]) (mask_new raw))
        = Some (int n, 64 dvd n)
    \<and> (countOffset (mask_of True raw) (int n) = None \<longleftrightarrow> 64 dvd n)"
proof -
  let ?c = "64 * word_count n"
  have c: "?c = (if 64 dvd n then n else n - n mod 64 + 64)" "n \<le> ?c"
    using words_cover [of n] by (simp_all add: word_count_eq)
  have on: "on_bits (mask_of True raw) = {..<?c}" "length (mask_of True raw) = word_count n"
    using mask_do_sets [of "Set_all True" raw] by (simp_all add: mask_of_def set_all_def raw_def)
  have full: "{..<n} = {..<?c} \<longleftrightarrow> 64 dvd n" using c by (auto split: if_splits)
  have "run_ops (set_do (word_count n)) (map (Set_on \<circ> int) [0..<k]) {} = Some {..<k}" if "k \<le> n" for k
    using that c(2)
  proof (induction k)
    case (Suc k)
    then show ?case by (simp add: run_ops_append lessThan_Suc)
  qed simp
  then have "map_option on_bits (run_ops mask_do (map (Set_on \<circ> int) [0..<n]) (mask_new raw)) = Some {..<n}"
    using mask_run_sets [of "map (Set_on \<circ> int) [0..<n]" raw] by (simp add: raw_def)
  then obtain m where m: "run_ops mask_do (map (Set_on \<circ> int) [0..<n]) (mask_new raw) = Some m" "on_bits m = {..<n}"
    by auto
  have "length m = word_count n"
    using mask.run_ok [OF _ m(1), of "word_count n"] by (simp add: mask_new_def setOff_all_def raw_def)
  then have "map_option (\<lambda>m. (countOn m, isOn_all m)) (run_ops mask_do (map (Set_on \<circ> int) [0..<n]) (mask_new raw))
      = Some (int n, 64 dvd n)"
    using full by (simp add: m countOn_card isOn_all_eq)
  moreover have "countOffset (mask_of True raw) (int n) = None \<longleftrightarrow> \<not> n < ?c"
    by (simp add: countOffset_card on)
  moreover have "\<not> n < ?c \<longleftrightarrow> 64 dvd n" using c(1) by (auto split: if_splits)
  moreover have "int n - int ?c = (if 64 dvd n then 0 else int (n mod 64) - 64)"
    using c(1) by (simp add: of_nat_diff split: if_splits)
  ultimately show ?thesis by (simp add: countOff_def countOn_card on word_count_eq)
qed

text \<open>
  The atomic overloads set the same bits in whatever order the threads' updates of the words
  come: the result of any sequence of them depends on the set of the indices only.
\<close>

theorem atomic_sets_any_order:
  "map_option on_bits (run_ops atomic_setOn ns m) =
    (if list_all (\<lambda>n. 0 \<le> n \<and> n < 64 * int (length m)) ns then Some (on_bits m \<union> nat ` set ns) else None)"
proof (induction ns arbitrary: m)
  case (Cons n ns)
  have step: "map_option on_bits (atomic_setOn n m) =
      (if 0 \<le> n \<and> n < 64 * int (length m) then Some (insert (nat n) (on_bits m)) else None)"
    using mask_do_sets [of "Set_on n" m] by (simp add: setOn_def atomic_setOn_def)
  show ?case
  proof (cases "atomic_setOn n m")
    case None
    then show ?thesis using step by (auto split: if_splits)
  next
    case (Some m')
    moreover have "length m' = length m"
      using length_mask_do [of "Set_on n" m m'] Some by (simp add: setOn_def atomic_setOn_def)
    ultimately show ?thesis using step Cons.IH [of m'] by (auto split: if_splits)
  qed
qed simp

end
