(* ===== verification/Bit_Pack.thy ===== *)
theory Bit_Pack
  imports Bit_Props
begin

text \<open>
  \<open>bit_pack\<close> and \<open>bit_spread\<close> of \<open>math/bit/Bits.h\<close> against their references: the bits of a word
  gathered from the positions of a mask, and put back there. Both loops walk the mask from its
  lowest bit, as the highest bit of the reversed mask.
\<close>

section \<open>Reversal and leading zeros\<close>

lemma bit_reverse_from:
  "loc < 64 \<Longrightarrow> unat data < 2 ^ Suc loc \<Longrightarrow> bit (reverse_from data loc) n \<longleftrightarrow> n \<le> loc \<and> bit data (loc - n)"
proof (induction data loc arbitrary: n rule: reverse_from.induct)
  case (1 data loc)
  show ?case
  proof (cases "data = 0")
    case True
    then show ?thesis by (simp add: reverse_from.simps)
  next
    case False
    have half: "unat (drop_bit 1 data) < 2 ^ loc"
      using 1(3) by (simp add: unat_div_distrib drop_bit_Suc less_mult_imp_div_less mult.commute)
    have head: "bit (push_bit loc (data AND 1)) n \<longleftrightarrow> n = loc \<and> bit data 0"
      using 1(2) by (auto simp: bit_simps)
    have tail: "bit (reverse_from (drop_bit 1 data) (loc - 1)) n \<longleftrightarrow> n < loc \<and> bit data (loc - n)"
    proof (cases loc)
      case 0
      then have "drop_bit 1 data = 0" using half by (simp add: unat_eq_zero)
      then show ?thesis using 0 by (simp add: reverse_from.simps)
    next
      case (Suc k)
      then show ?thesis using 1(1) [OF False, of n] 1(2) half
        by (auto simp: bit_simps Suc_diff_le)
    qed
    have eq: "reverse_from data loc = push_bit loc (data AND 1) OR reverse_from (drop_bit 1 data) (loc - 1)"
      using False by (subst reverse_from.simps) (rule if_not_P)
    show ?thesis unfolding eq bit_or_iff head tail by auto
  qed
qed

lemma binary_reverse_eq: "binary_reverse x = word_reverse x"
proof (rule bit_word_eqI)
  fix n assume "n < LENGTH(64)"
  then show "bit (binary_reverse x) n = bit (word_reverse x) n"
    using bit_reverse_from [of 63 x n] unsigned_less [of x] less_Suc_eq_le [of n 63]
    by (simp add: binary_reverse_def bit_word_reverse_iff)
qed

lemma count_zeros_loop_eq:
  "bit x k \<Longrightarrow> (\<And>i. i < k \<Longrightarrow> \<not> bit x i) \<Longrightarrow> count_zeros_loop x r = Some (r + k)"
proof (induction k arbitrary: x r)
  case 0
  then have "bit (x AND 1) 0" by (simp add: bit_and_iff bit_1_iff)
  then have "x AND 1 \<noteq> 0"
    by (rule contrapos_pn) (simp only: bit_0_eq bot_apply bot_bool_def not_False_eq_True)
  then show ?case by (subst count_zeros_loop.simps) simp
next
  case (Suc k)
  have "x AND 1 = 0" by (rule bit_word_eqI) (use Suc.prems(2) [of 0] in \<open>auto simp: bit_and_iff bit_1_iff intro!: gr0I\<close>)
  moreover have "count_zeros_loop (drop_bit 1 x) (r + 1) = Some (r + 1 + k)"
    using Suc.prems by (intro Suc.IH) (auto simp: bit_simps)
  ultimately show ?case by (subst count_zeros_loop.simps) simp
qed

lemma count_leading_zeros_eq:
  assumes "k < 64" "bit x (63 - k)" "\<And>i. i < k \<Longrightarrow> \<not> bit x (63 - i)"
  shows "count_leading_zeros x = Some k"
proof -
  have "bit (word_reverse x) k" "\<And>i. i < k \<Longrightarrow> \<not> bit (word_reverse x) i"
    using assms by (auto simp: bit_word_reverse_iff)
  moreover then have "word_reverse x \<noteq> 0" by auto
  ultimately show ?thesis
    using count_zeros_loop_eq [of "word_reverse x" k 0]
    by (simp add: count_leading_zeros_def binary_reverse_eq Let_def)
qed

lemma count_leading_zeros_0: "count_leading_zeros 0 = Some 64"
  by (simp add: count_leading_zeros_def binary_reverse_def reverse_from.simps)

section \<open>The positions of a mask\<close>

lemma filter_upt_Cons:
  "filter P [s..<n] = p # ps \<Longrightarrow> s \<le> p \<and> p < n \<and> P p \<and> (\<forall>i. s \<le> i \<longrightarrow> i < p \<longrightarrow> \<not> P i) \<and> ps = filter P [Suc p..<n]"
proof (induction "n - s" arbitrary: s)
  case (Suc d)
  then have s: "[s..<n] = s # [Suc s..<n]" by (simp add: upt_conv_Cons)
  show ?case
  proof (cases "P s")
    case False
    then have tail: "filter P [Suc s..<n] = p # ps" using Suc.prems s by simp
    have "d = n - Suc s" using Suc.hyps(2) by linarith
    from Suc.hyps(1) [OF this tail]
    have *: "Suc s \<le> p \<and> p < n \<and> P p \<and> (\<forall>i. Suc s \<le> i \<longrightarrow> i < p \<longrightarrow> \<not> P i) \<and> ps = filter P [Suc p..<n]"
      .
    have "\<forall>i. s \<le> i \<longrightarrow> i < p \<longrightarrow> \<not> P i"
    proof (intro allI impI)
      fix i assume "s \<le> i" "i < p"
      then show "\<not> P i" using False * by (cases "i = s") auto
    qed
    moreover have "s \<le> p" using * by linarith
    ultimately show ?thesis using * by blast
  qed (use Suc.prems Suc.hyps(2) s in auto)
qed simp

definition positions :: "u64 \<Rightarrow> nat \<Rightarrow> nat list" where
  "positions m s = filter (bit m) [s..<64]"

lemma positions_Cons:
  assumes "positions m s = p # ps"
  shows "s \<le> p" "p < 64" "ps = positions m (Suc p)" "count_leading_zeros (push_bit s (word_reverse m)) = Some (p - s)"
proof -
  have p: "s \<le> p" "p < 64" "bit m p" "\<And>i. s \<le> i \<Longrightarrow> i < p \<Longrightarrow> \<not> bit m i" "ps = positions m (Suc p)"
    using filter_upt_Cons [OF assms [unfolded positions_def]] by (auto simp: positions_def)
  show "count_leading_zeros (push_bit s (word_reverse m)) = Some (p - s)"
    by (rule count_leading_zeros_eq) (use p in \<open>auto simp: bit_simps\<close>)
  show "s \<le> p" "p < 64" "ps = positions m (Suc p)" using p by auto
qed

lemma positions_Nil: "positions m s = [] \<longleftrightarrow> push_bit s (word_reverse m) = 0"
proof -
  have "push_bit s (word_reverse m) = 0 \<longleftrightarrow> (\<forall>n. s \<le> n \<and> n < 64 \<longrightarrow> \<not> bit m (63 - (n - s)))"
    by (auto simp: bit_eq_iff bit_simps)
  also have "\<dots> \<longleftrightarrow> (\<forall>i \<in> set [s..<64]. \<not> bit m i)"
  proof (intro iffI ballI allI impI)
    fix i assume a: "\<forall>n. s \<le> n \<and> n < 64 \<longrightarrow> \<not> bit m (63 - (n - s))" and i: "i \<in> set [s..<64]"
    have "s \<le> 63 - (i - s)" "63 - (i - s) < 64" "63 - (63 - (i - s) - s) = i" using i by auto
    then show "\<not> bit m i" using a by metis
  next
    fix n assume a: "\<forall>i \<in> set [s..<64]. \<not> bit m i" and n: "s \<le> n \<and> n < 64"
    then have "63 - (n - s) \<in> set [s..<64]" by auto
    then show "\<not> bit m (63 - (n - s))" using a by blast
  qed
  also have "\<dots> \<longleftrightarrow> positions m s = []" by (simp add: positions_def filter_empty_conv)
  finally show ?thesis by simp
qed

section \<open>Packing\<close>

definition gather_step :: "u64 \<Rightarrow> u64 \<Rightarrow> nat \<Rightarrow> u64" where
  "gather_step data u p = push_bit 1 u OR (drop_bit p data AND 1)"

lemma bit_gather_step: "bit (gather_step data u p) j \<longleftrightarrow> (if j = 0 then bit data p else j < 64 \<and> bit u (j - 1))"
  unfolding gather_step_def bit_or_iff bit_push_bit_iff bit_and_iff bit_1_iff bit_drop_bit_eq by auto

lemma reverse_0: "word_reverse m = 0 \<longleftrightarrow> m = (0::u64)"
proof
  assume "word_reverse m = 0"
  then have "m = word_reverse 0" by (metis word_rev_rev)
  also have "\<dots> = 0" by (rule bit_word_eqI) (simp add: bit_simps)
  finally show "m = 0" .
next
  assume "m = 0"
  then show "word_reverse m = 0" by (intro bit_word_eqI) (simp add: bit_simps)
qed

lemma pack_loop_eq:
  "positions m s = ps \<Longrightarrow> s \<le> 64 \<Longrightarrow> \<not> (s = 0 \<and> ps = [63]) \<Longrightarrow>
   pack_loop (push_bit s (word_reverse m)) (drop_bit s data) u k =
     Some (foldl (gather_step data) u ps, k + length ps)"
proof (induction ps arbitrary: s u k)
  case Nil
  then have "push_bit s (word_reverse m) = 0" using positions_Nil by blast
  then show ?case by (subst pack_loop.simps) simp
next
  case (Cons p ps)
  note p = positions_Cons [OF Cons.prems(1)]
  have "p - s + 1 < 64"
  proof (rule ccontr)
    assume "\<not> p - s + 1 < 64"
    then have "s = 0" "p = 63" using p(1,2) by auto
    then show False using Cons.prems(3) p(3) by (simp add: positions_def)
  qed
  then have shl: "shl64 (push_bit s (word_reverse m)) (p - s + 1) = Some (push_bit (Suc p) (word_reverse m))"
    using p(1) by (simp add: shl64_def)
  have shr: "shr64 (drop_bit s data) (p - s) = Some (drop_bit p data)"
    using p(1,2) by (simp add: shr64_def)
  have nz: "push_bit s (word_reverse m) \<noteq> 0" using positions_Nil [of m s] Cons.prems(1) by simp
  have "pack_loop (push_bit s (word_reverse m)) (drop_bit s data) u k
      = pack_loop (push_bit (Suc p) (word_reverse m)) (drop_bit (Suc p) data) (gather_step data u p) (k + 1)"
    by (subst pack_loop.simps)
      (simp only: if_not_P [OF nz] p(4) shl shr option.case gather_step_def drop_bit_drop_bit plus_1_eq_Suc)
  also have "pack_loop (push_bit (Suc p) (word_reverse m)) (drop_bit (Suc p) data) (gather_step data u p) (k + 1)
      = Some (foldl (gather_step data) (gather_step data u p) ps, k + 1 + length ps)"
    using p(2,3) by (intro Cons.IH) auto
  finally show ?case by simp
qed

lemma bit_gather:
  "length ps \<le> 64 \<Longrightarrow>
   bit (foldl (gather_step data) 0 ps) j \<longleftrightarrow> j < length ps \<and> bit data (ps ! (length ps - 1 - j))"
proof (induction ps arbitrary: j rule: rev_induct)
  case (snoc p ps)
  show ?case using snoc.IH [of "j - 1"] snoc.prems
    by (cases j) (auto simp: bit_gather_step nth_append)
qed simp

text \<open>The reference: the bits of the data at the set positions of the mask, lowest first.\<close>

definition gather_bits :: "u64 \<Rightarrow> u64 \<Rightarrow> u64" where
  "gather_bits m data = horner_sum of_bool 2 (map (bit data) (positions m 0))"

lemma length_positions: "length (positions m 0) = count_ones m" "length (positions m 0) \<le> 64"
proof -
  show "length (positions m 0) = count_ones m" by (simp add: positions_def count_ones_def)
  have "length (filter (bit m) [0..<64]) \<le> length [0..<64]" by (rule length_filter_le)
  then show "length (positions m 0) \<le> 64" by (simp add: positions_def)
qed

lemma bit_gather_bits:
  "bit (gather_bits m data) j \<longleftrightarrow> j < length (positions m 0) \<and> bit data (positions m 0 ! j)"
  using length_positions [of m] by (auto simp: gather_bits_def bit_horner_sum_bit_word_iff)

text \<open>The masks whose only set bit is the highest one: their loop shifts by the whole word.\<close>

lemma positions_top: "positions m 0 = [63] \<longleftrightarrow> m = 2 ^ 63"
proof
  assume a: "positions m 0 = [63]"
  show "m = 2 ^ 63"
  proof (rule bit_word_eqI)
    fix n assume "n < LENGTH(64)"
    moreover have "n \<in> set (positions m 0) \<longleftrightarrow> n < 64 \<and> bit m n" by (auto simp: positions_def)
    ultimately show "bit m n = bit (2 ^ 63 :: u64) n" unfolding bit_exp_iff by (auto simp: a)
  qed
next
  assume "m = 2 ^ 63"
  then have "positions m 0 = filter (\<lambda>i. i = 63) [0..<64]"
    unfolding positions_def by (intro filter_cong refl) (simp only: bit_exp_iff, auto)
  then show "positions m 0 = [63]" by (simp add: upt64)
qed

lemma bit_pack_eq:
  assumes "m \<noteq> 0" "m \<noteq> 2 ^ 63"
  shows "bit_pack m data = Some (ucast (gather_bits m data))"
proof -
  let ?ps = "positions m 0"
  let ?u = "foldl (gather_step data) 0 ?ps"
  have loop: "pack_loop (binary_reverse m) data 0 0 = Some (?u, length ?ps)"
    using pack_loop_eq [of m 0 ?ps data 0 0] assms(2) positions_top [of m] by (simp add: binary_reverse_eq)
  have "?ps \<noteq> []"
  proof
    assume "?ps = []"
    then have "word_reverse m = 0" using positions_Nil [of m 0] by simp
    then show False using assms(1) reverse_0 by blast
  qed
  then have "64 - length ?ps < 64" by simp
  moreover have "binary_reverse (push_bit (64 - length ?ps) ?u) = gather_bits m data"
  proof (rule bit_word_eqI)
    fix n assume "n < LENGTH(64)"
    then show "bit (binary_reverse (push_bit (64 - length ?ps) ?u)) n = bit (gather_bits m data) n"
      using length_positions(2) [of m] bit_gather [OF length_positions(2) [of m]]
      by (auto simp: binary_reverse_eq bit_simps bit_gather_bits)
  qed
  ultimately show ?thesis by (simp add: bit_pack_def loop shl64_def)
qed

section \<open>Spreading\<close>

definition data_bit :: "i32 \<Rightarrow> nat \<Rightarrow> u64" where
  "data_bit dat r = ucast (signed_drop_bit r dat AND 1)"

fun spread_ref :: "i32 \<Rightarrow> nat \<Rightarrow> nat \<Rightarrow> u64 \<Rightarrow> nat list \<Rightarrow> u64" where
  "spread_ref dat s r res [] = res"
| "spread_ref dat s r res (p # ps) = spread_ref dat (Suc p) (Suc r) (push_bit (Suc p - s) res OR data_bit dat r) ps"

lemma spread_loop_eq:
  "positions m s = ps \<Longrightarrow> s \<le> 64 \<Longrightarrow> \<not> (s = 0 \<and> ps = [63]) \<Longrightarrow>
   spread_loop (push_bit s (word_reverse m)) (signed_drop_bit r dat) res = Some (spread_ref dat s r res ps)"
proof (induction ps arbitrary: s r res)
  case Nil
  then have "push_bit s (word_reverse m) = 0" using positions_Nil by blast
  then show ?case by (subst spread_loop.simps) simp
next
  case (Cons p ps)
  note p = positions_Cons [OF Cons.prems(1)]
  have small: "p - s + 1 < 64"
  proof (rule ccontr)
    assume "\<not> p - s + 1 < 64"
    then have "s = 0" "p = 63" using p(1,2) by auto
    then show False using Cons.prems(3) p(3) by (simp add: positions_def)
  qed
  then have shl: "shl64 (push_bit s (word_reverse m)) (p - s + 1) = Some (push_bit (Suc p) (word_reverse m))"
    using p(1) by (simp add: shl64_def)
  have sh: "shl64 res (p - s + 1) = Some (push_bit (Suc p - s) res)"
    using p(1) small by (simp add: shl64_def Suc_diff_le)
  have nz: "push_bit s (word_reverse m) \<noteq> 0" using positions_Nil [of m s] Cons.prems(1) by simp
  have "spread_loop (push_bit s (word_reverse m)) (signed_drop_bit r dat) res
      = spread_loop (push_bit (Suc p) (word_reverse m)) (signed_drop_bit (Suc r) dat)
          (push_bit (Suc p - s) res OR data_bit dat r)"
    by (subst spread_loop.simps)
      (simp only: if_not_P [OF nz] p(4) shl sh option.case data_bit_def signed_drop_bit_signed_drop_bit plus_1_eq_Suc)
  also have "\<dots> = Some (spread_ref dat (Suc p) (Suc r) (push_bit (Suc p - s) res OR data_bit dat r) ps)"
    using p(2,3) by (intro Cons.IH) auto
  finally show ?case by simp
qed

text \<open>The bit of the data an index stands for: the sign repeats above the last one.\<close>

definition int_bit :: "i32 \<Rightarrow> nat \<Rightarrow> bool" where "int_bit dat r = bit dat (min r 31)"

lemma bit_data_bit: "bit (data_bit dat r) j \<longleftrightarrow> j = 0 \<and> int_bit dat r"
  unfolding data_bit_def int_bit_def bit_unsigned_iff bit_and_iff bit_1_iff bit_signed_drop_bit_iff
  by (auto simp: min_def not_le)

lemma bit_spread_ref:
  "sorted_wrt (<) ps \<Longrightarrow> list_all (\<lambda>p. s \<le> p \<and> p < 64) ps \<Longrightarrow> ps \<noteq> [] \<Longrightarrow> j < 64 \<Longrightarrow>
   bit (spread_ref dat s r res ps) j \<longleftrightarrow>
     (\<exists>i < length ps. j = last ps - ps ! i \<and> int_bit dat (r + i))
     \<or> Suc (last ps) - s \<le> j \<and> bit res (j - (Suc (last ps) - s))"
proof (induction ps arbitrary: s r res j)
  case (Cons p ps)
  let ?res = "push_bit (Suc p - s) res OR data_bit dat r"
  have res: "bit ?res k \<longleftrightarrow> k = 0 \<and> int_bit dat r \<or> Suc p - s \<le> k \<and> bit res (k - (Suc p - s))" if "k < 64" for k
    using that unfolding bit_or_iff bit_push_bit_iff bit_data_bit by auto
  show ?case
  proof (cases "ps = []")
    case True
    then show ?thesis using res [OF Cons.prems(4)] by auto
  next
    case False
    have p: "p < last ps" "last ps < 64" "s \<le> p" "list_all (\<lambda>q. Suc p \<le> q \<and> q < 64) ps" "sorted_wrt (<) ps"
      using Cons.prems(1,2) False by (auto simp: list_all_iff)
    have "bit (spread_ref dat s r res (p # ps)) j \<longleftrightarrow>
        (\<exists>i < length ps. j = last ps - ps ! i \<and> int_bit dat (Suc r + i))
        \<or> last ps - p \<le> j \<and> bit ?res (j - (last ps - p))"
      using Cons.IH [OF p(5,4) False Cons.prems(4), of "Suc r" ?res] by simp
    also have "last ps - p \<le> j \<and> bit ?res (j - (last ps - p)) \<longleftrightarrow>
        j = last ps - p \<and> int_bit dat r
        \<or> Suc (last ps) - s \<le> j \<and> bit res (j - (Suc (last ps) - s))"
    proof -
      have "j - (last ps - p) - (Suc p - s) = j - (Suc (last ps) - s)" using p by auto
      then show ?thesis using res [of "j - (last ps - p)"] Cons.prems(4) p by auto
    qed
    finally have 1: "bit (spread_ref dat s r res (p # ps)) j \<longleftrightarrow>
        (\<exists>i < length ps. j = last ps - ps ! i \<and> int_bit dat (Suc r + i))
        \<or> j = last ps - p \<and> int_bit dat r \<or> Suc (last ps) - s \<le> j \<and> bit res (j - (Suc (last ps) - s))" .
    have 2: "(\<exists>i < Suc (length ps). j = last ps - (p # ps) ! i \<and> int_bit dat (r + i))
        \<longleftrightarrow> j = last ps - p \<and> int_bit dat r \<or> (\<exists>i < length ps. j = last ps - ps ! i \<and> int_bit dat (Suc r + i))"
      unfolding Ex_less_Suc2 by simp
    show ?thesis using False unfolding 1 length_Cons last_ConsR [OF False] 2 by blast
  qed
qed simp


lemma sorted_positions: "sorted_wrt (<) (positions m s)"
  unfolding positions_def by (intro sorted_wrt_filter) simp

lemma sorted_last: "sorted_wrt (<) xs \<Longrightarrow> x \<in> set xs \<Longrightarrow> x \<le> last (xs :: nat list)"
  by (induction xs) (auto, metis last_in_set less_imp_le)

lemma highest_position:
  assumes "m \<noteq> 0"
  shows "positions m 0 \<noteq> []" "last (positions m 0) < 64"
    "count_leading_zeros m = Some (63 - last (positions m 0))"
proof -
  let ?ps = "positions m 0"
  show ne: "?ps \<noteq> []" using assms positions_Nil [of m 0] reverse_0 [of m] by simp
  have mem: "n \<in> set ?ps \<longleftrightarrow> n < 64 \<and> bit m n" for n by (auto simp: positions_def)
  have last: "last ?ps < 64" "bit m (last ?ps)" using last_in_set [OF ne] mem by auto
  then show "last ?ps < 64" by simp
  have "\<not> bit m (63 - i)" if "i < 63 - last ?ps" for i
  proof
    assume "bit m (63 - i)"
    then have "63 - i \<le> last ?ps" using sorted_last [OF sorted_positions] mem [of "63 - i"] by simp
    then show False using that by linarith
  qed
  then show "count_leading_zeros m = Some (63 - last ?ps)"
    using last by (intro count_leading_zeros_eq) auto
qed

definition scatter :: "u64 \<Rightarrow> i32 \<Rightarrow> nat \<Rightarrow> bool" where
  "scatter m dat k \<longleftrightarrow> (\<exists>i < length (positions m 0). k = positions m 0 ! i \<and> int_bit dat i)"

lemma bit_spread_eq:
  assumes "m \<noteq> 0" "m \<noteq> 2 ^ 63"
  shows "\<exists>w. bit_spread m dat = Some w \<and> (\<forall>k. bit w k \<longleftrightarrow> scatter m dat k)"
proof -
  let ?ps = "positions m 0"
  let ?L = "last ?ps"
  let ?r = "spread_ref dat 0 0 0 ?ps"
  let ?w = "drop_bit (63 - ?L) (word_reverse ?r)"
  note top = highest_position [OF assms(1)]
  have "spread_loop (binary_reverse m) dat 0 = Some ?r"
    using spread_loop_eq [of m 0 ?ps 0 dat 0] assms(2) positions_top [of m] by (simp add: binary_reverse_eq)
  then have "bit_spread m dat = Some ?w"
    using top(2) by (simp add: bit_spread_def top(3) shr64_def binary_reverse_eq)
  moreover have "bit ?w k \<longleftrightarrow> scatter m dat k" for k
  proof -
    have below: "i < length ?ps \<Longrightarrow> ?ps ! i \<le> ?L \<and> ?ps ! i < 64" for i
      using sorted_last [OF sorted_positions [of m 0] nth_mem, of i] top(2) by auto
    have all: "list_all (\<lambda>p. 0 \<le> p \<and> p < 64) ?ps" by (simp add: positions_def list_all_iff)
    have "bit ?w k \<longleftrightarrow> k \<le> ?L \<and> bit ?r (?L - k)"
      using top(2) by (auto simp: bit_simps)
    also have "\<dots> \<longleftrightarrow> k \<le> ?L \<and> (\<exists>i < length ?ps. ?L - k = ?L - ?ps ! i \<and> int_bit dat i)"
      using top(2) bit_spread_ref [OF sorted_positions [of m 0] all top(1), of "?L - k" dat 0 0] by auto
    also have "\<dots> \<longleftrightarrow> scatter m dat k"
      using below unfolding scatter_def by (metis diff_diff_cancel)
    finally show ?thesis .
  qed
  ultimately show ?thesis by blast
qed

section \<open>The two together\<close>

text \<open>
  \<open>bit_pack\<close> collects the bits of the data at the set positions of the mask and \<open>bit_spread\<close> puts
  them back: for a mask of at most 32 bits the two leave of the data what the mask selects. Both
  are undefined for the mask with no bit and for the mask whose only bit is the highest one, where
  they shift a 64-bit word by 64.
\<close>

theorem bit_pack_spread:
  "bit_pack m data = (if m = 0 \<or> m = 2 ^ 63 then None else Some (ucast (gather_bits m data)))
   \<and> (if m = 0 \<or> m = 2 ^ 63 then bit_spread m dat = None
      else if 32 < count_ones m then True
      else bit_spread m (the (bit_pack m data)) = Some (data AND m))"
proof -
  consider "m = 0" | "m = 2 ^ 63" | "m \<noteq> 0" "m \<noteq> 2 ^ 63" by blast
  then show ?thesis
  proof cases
    case 1
    then show ?thesis
      by (simp add: bit_pack_def bit_spread_def binary_reverse_def reverse_from.simps pack_loop.simps
          spread_loop.simps shl64_def shr64_def count_leading_zeros_0)
  next
    case 2
    then have ps: "positions m 0 = [63]" by (simp only: positions_top)
    have clz: "count_leading_zeros (word_reverse m) = Some 63"
      using positions_Cons(4) [OF ps] by simp
    have "word_reverse m \<noteq> 0" using positions_Nil [of m 0] ps by simp
    then have "pack_loop (word_reverse m) data 0 0 = None" "spread_loop (word_reverse m) dat 0 = None"
      by (subst pack_loop.simps spread_loop.simps, simp add: clz shr64_def shl64_def)+
    then show ?thesis using 2 by (simp add: bit_pack_def bit_spread_def binary_reverse_eq)
  next
    case 3
    note pack = bit_pack_eq [OF 3, of data]
    obtain w where w: "bit_spread m (ucast (gather_bits m data)) = Some w"
        "\<And>k. bit w k \<longleftrightarrow> scatter m (ucast (gather_bits m data)) k"
      using bit_spread_eq [OF 3] by blast
    have "w = data AND m" if "\<not> 32 < count_ones m"
    proof (rule bit_word_eqI)
      fix k assume "k < LENGTH(64)"
      have "bit m k \<longleftrightarrow> (\<exists>i < length (positions m 0). k = positions m 0 ! i)"
        using \<open>k < LENGTH(64)\<close> set_conv_nth [of "positions m 0"] by (auto simp: positions_def)
      moreover have "int_bit (ucast (gather_bits m data)) i \<longleftrightarrow> bit data (positions m 0 ! i)"
        if "i < length (positions m 0)" for i
        using that \<open>\<not> 32 < count_ones m\<close> length_positions(1) [of m]
        by (auto simp: int_bit_def bit_simps bit_gather_bits min_def)
      ultimately show "bit w k = bit (data AND m) k"
        by (auto simp: w(2) scatter_def bit_and_iff)
    qed
    then show ?thesis using 3 pack w(1) by auto
  qed
qed

end
