(* ===== verification/Rb_Map.thy ===== *)
theory Rb_Map
  imports Zpc_Prelude "HOL-Library.Monad_Syntax"
begin

text \<open>
  \<open>RBTreeMap\<close> of \<open>container/RBTreeMap.hpp\<close>: an ordered map as a red-black tree of nodes linked by
  pointers to the children and to the parent, with a header node whose children are the first and
  the last node and whose parent is the root. Nodes live in a heap and a pointer is an address, 0
  when null. Following a null or dangling pointer, and a failing assertion, are \<open>None\<close>. Keys are
  compared by the order of their type.
\<close>

section \<open>Nodes and the map\<close>

datatype colour = RED | BLACK
datatype direction = LEFT | ROOT | RIGHT

record ('k, 'v) rb_node =
  color :: colour
  parent :: nat
  left_child :: nat
  right_child :: nat
  first :: 'k
  second :: 'v

record ('k, 'v) rb_map =
  rb_heap :: "nat \<Rightarrow> ('k, 'v) rb_node option"
  rb_next :: nat
  header :: nat
  root :: nat
  cnt :: nat

type_synonym ('k, 'v, 'a) rb_op = "('k, 'v) rb_map \<Rightarrow> 'a option"

definition deref :: "nat \<Rightarrow> ('k, 'v, ('k, 'v) rb_node) rb_op" where
  "deref a s = (if a = 0 then None else rb_heap s a)"

definition modify :: "nat \<Rightarrow> (('k, 'v) rb_node \<Rightarrow> ('k, 'v) rb_node) \<Rightarrow> ('k, 'v, ('k, 'v) rb_map) rb_op" where
  "modify a f s = do { n \<leftarrow> deref a s; Some (s\<lparr>rb_heap := (rb_heap s)(a \<mapsto> f n)\<rparr>) }"

text \<open>\<open>delete\<close>: nothing for a null pointer; a node that is gone cannot be deleted or followed again.\<close>

definition free :: "nat \<Rightarrow> ('k, 'v, ('k, 'v) rb_map) rb_op" where
  "free a s =
     (if a = 0 then Some s else do { n \<leftarrow> deref a s; Some (s\<lparr>rb_heap := (rb_heap s)(a := None)\<rparr>) })"

text \<open>\<open>new Node(key, value)\<close>: a fresh address and a red node without links.\<close>

definition new_node :: "'k \<Rightarrow> 'v \<Rightarrow> ('k, 'v) rb_map \<Rightarrow> nat \<times> ('k, 'v) rb_map" where
  "new_node k v s =
     (let a = rb_next s;
          n = \<lparr>color = RED, parent = 0, left_child = 0, right_child = 0, first = k, second = v\<rparr>
      in (a, s\<lparr>rb_heap := (rb_heap s)(a \<mapsto> n), rb_next := a + 1\<rparr>))"

definition isRoot :: "nat \<Rightarrow> ('k, 'v) rb_map \<Rightarrow> bool" where
  "isRoot a s \<longleftrightarrow> root s = a"

definition getDirection :: "nat \<Rightarrow> ('k, 'v, direction) rb_op" where
  "getDirection a s =
     (if \<not> isRoot a s then do {
        n \<leftarrow> deref a s;
        p \<leftarrow> deref (parent n) s;
        Some (if a = left_child p then LEFT else RIGHT) }
      else Some ROOT)"

definition getSibling :: "nat \<Rightarrow> ('k, 'v, nat) rb_op" where
  "getSibling a s = do {
     d \<leftarrow> getDirection a s;
     n \<leftarrow> deref a s;
     p \<leftarrow> deref (parent n) s;
     Some (if d = LEFT then right_child p else left_child p) }"

definition hasSibling :: "nat \<Rightarrow> ('k, 'v, bool) rb_op" where
  "hasSibling a s = (if isRoot a s then Some False else do { b \<leftarrow> getSibling a s; Some (b \<noteq> 0) })"

definition getUncle :: "nat \<Rightarrow> ('k, 'v, nat) rb_op" where
  "getUncle a s = do { n \<leftarrow> deref a s; getSibling (parent n) s }"

definition hasUncle :: "nat \<Rightarrow> ('k, 'v, bool) rb_op" where
  "hasUncle a s = (if isRoot a s then Some False else do { n \<leftarrow> deref a s; hasSibling (parent n) s })"

definition getGrandParent :: "nat \<Rightarrow> ('k, 'v, nat) rb_op" where
  "getGrandParent a s = do { n \<leftarrow> deref a s; p \<leftarrow> deref (parent n) s; Some (parent p) }"

definition is_red :: "nat \<Rightarrow> ('k, 'v, bool) rb_op" where
  "is_red a s = do { n \<leftarrow> deref a s; Some (color n = RED) }"

text \<open>A header without a tree; its key and value are the defaults of their types.\<close>

definition rb_new :: "'k \<Rightarrow> 'v \<Rightarrow> ('k, 'v) rb_map" where
  "rb_new k v =
     \<lparr>rb_heap = [1 \<mapsto> \<lparr>color = RED, parent = 0, left_child = 1, right_child = 1, first = k, second = v\<rparr>],
      rb_next = 2, header = 1, root = 0, cnt = 0\<rparr>"

definition rb_size :: "('k, 'v) rb_map \<Rightarrow> nat" where
  "rb_size s = cnt s"

definition rb_empty :: "('k, 'v) rb_map \<Rightarrow> bool" where
  "rb_empty s \<longleftrightarrow> cnt s = 0"

text \<open>\<open>release\<close> deletes the nodes below a node.\<close>

partial_function (option) release :: "nat \<Rightarrow> ('k, 'v, ('k, 'v) rb_map) rb_op" where
  [code]: "release a s = do {
     s \<leftarrow> modify a (\<lambda>n. n\<lparr>parent := 0\<rparr>) s;
     n \<leftarrow> deref a s;
     s \<leftarrow> (if left_child n \<noteq> 0 then do {
              s \<leftarrow> (if left_child n \<noteq> a then do { s \<leftarrow> release (left_child n) s; free (left_child n) s } else Some s);
              modify a (\<lambda>n. n\<lparr>left_child := 0\<rparr>) s }
            else Some s);
     n \<leftarrow> deref a s;
     (if right_child n \<noteq> 0 \<and> right_child n \<noteq> a
      then do { s \<leftarrow> release (right_child n) s; free (right_child n) s }
      else Some s) }"

definition rb_clear :: "('k, 'v, ('k, 'v) rb_map) rb_op" where
  "rb_clear s = do {
     s \<leftarrow> modify (header s) (\<lambda>n. n\<lparr>left_child := header s, right_child := header s\<rparr>) s;
     s \<leftarrow> (if root s \<noteq> 0 then do {
              s \<leftarrow> release (root s) s;
              s \<leftarrow> modify (header s) (\<lambda>n. n\<lparr>parent := 0\<rparr>) s;
              s \<leftarrow> free (root s) s;
              Some (s\<lparr>root := 0\<rparr>) }
            else Some s);
     Some (s\<lparr>cnt := 0\<rparr>) }"

section \<open>Rotations\<close>

definition set_parent :: "nat \<Rightarrow> nat \<Rightarrow> ('k, 'v, ('k, 'v) rb_map) rb_op" where
  "set_parent a p s = (if a \<noteq> 0 then modify a (\<lambda>n. n\<lparr>parent := p\<rparr>) s else Some s)"

definition maintainRelationship :: "nat \<Rightarrow> ('k, 'v, ('k, 'v) rb_map) rb_op" where
  "maintainRelationship a s = do {
     n \<leftarrow> deref a s;
     s \<leftarrow> set_parent (left_child n) a s;
     n \<leftarrow> deref a s;
     set_parent (right_child n) a s }"

text \<open>The slot that pointed to a node, by its direction, gets another node.\<close>

definition replace_child :: "direction \<Rightarrow> nat \<Rightarrow> nat \<Rightarrow> ('k, 'v, ('k, 'v) rb_map) rb_op" where
  "replace_child d p b s =
     (case d of
        ROOT \<Rightarrow> do { s \<leftarrow> modify (header s) (\<lambda>n. n\<lparr>parent := b\<rparr>) s; Some (s\<lparr>root := b\<rparr>) }
      | LEFT \<Rightarrow> modify p (\<lambda>n. n\<lparr>left_child := b\<rparr>) s
      | RIGHT \<Rightarrow> modify p (\<lambda>n. n\<lparr>right_child := b\<rparr>) s)"

definition rotateLeft :: "nat \<Rightarrow> ('k, 'v, ('k, 'v) rb_map) rb_op" where
  "rotateLeft a s = do {
     n \<leftarrow> deref a s;
     d \<leftarrow> getDirection a s;
     let b = right_child n;
     m \<leftarrow> deref b s;
     s \<leftarrow> modify a (\<lambda>n. n\<lparr>right_child := left_child m\<rparr>) s;
     s \<leftarrow> modify b (\<lambda>m. m\<lparr>left_child := a\<rparr>) s;
     s \<leftarrow> maintainRelationship a s;
     s \<leftarrow> maintainRelationship b s;
     s \<leftarrow> replace_child d (parent n) b s;
     modify b (\<lambda>m. m\<lparr>parent := parent n\<rparr>) s }"

definition rotateRight :: "nat \<Rightarrow> ('k, 'v, ('k, 'v) rb_map) rb_op" where
  "rotateRight a s = do {
     n \<leftarrow> deref a s;
     d \<leftarrow> getDirection a s;
     let b = left_child n;
     m \<leftarrow> deref b s;
     s \<leftarrow> modify a (\<lambda>n. n\<lparr>left_child := right_child m\<rparr>) s;
     s \<leftarrow> modify b (\<lambda>m. m\<lparr>right_child := a\<rparr>) s;
     s \<leftarrow> maintainRelationship a s;
     s \<leftarrow> maintainRelationship b s;
     s \<leftarrow> replace_child d (parent n) b s;
     modify b (\<lambda>m. m\<lparr>parent := parent n\<rparr>) s }"

definition rotateSameDirection :: "nat \<Rightarrow> direction \<Rightarrow> ('k, 'v, ('k, 'v) rb_map) rb_op" where
  "rotateSameDirection a d s =
     (if d = ROOT then None else if d = LEFT then rotateLeft a s else rotateRight a s)"

definition rotateOppositeDirection :: "nat \<Rightarrow> direction \<Rightarrow> ('k, 'v, ('k, 'v) rb_map) rb_op" where
  "rotateOppositeDirection a d s =
     (if d = ROOT then None else if d = LEFT then rotateRight a s else rotateLeft a s)"

section \<open>Insertion\<close>

definition paint :: "nat \<Rightarrow> colour \<Rightarrow> ('k, 'v, ('k, 'v) rb_map) rb_op" where
  "paint a c s = modify a (\<lambda>n. n\<lparr>color := c\<rparr>) s"

text \<open>
  Parent red, uncle black or missing. Case 5 turns an inner node outwards, which makes its parent
  the node of case 6.
\<close>

definition turn_outwards :: "nat \<Rightarrow> ('k, 'v, nat \<times> ('k, 'v) rb_map) rb_op" where
  "turn_outwards a s = do {
     n \<leftarrow> deref a s;
     d \<leftarrow> getDirection a s;
     dp \<leftarrow> getDirection (parent n) s;
     (if d \<noteq> dp then do {
        s \<leftarrow> (if d = LEFT then rotateRight (parent n) s else rotateLeft (parent n) s);
        Some (parent n, s) }
      else Some (a, s)) }"

definition rotate_grandparent :: "nat \<Rightarrow> ('k, 'v, ('k, 'v) rb_map) rb_op" where
  "rotate_grandparent a s = do {
     n \<leftarrow> deref a s;
     dp \<leftarrow> getDirection (parent n) s;
     g \<leftarrow> getGrandParent a s;
     s \<leftarrow> (if dp = LEFT then rotateRight g s else rotateLeft g s);
     n \<leftarrow> deref a s;
     s \<leftarrow> paint (parent n) BLACK s;
     b \<leftarrow> getSibling a s;
     paint b RED s }"

definition insert_rotations :: "nat \<Rightarrow> ('k, 'v, ('k, 'v) rb_map) rb_op" where
  "insert_rotations a s = do { (a, s) \<leftarrow> turn_outwards a s; rotate_grandparent a s }"

partial_function (option) maintainAfterInsert :: "nat \<Rightarrow> ('k, 'v, ('k, 'v) rb_map) rb_op" where
  [code]: "maintainAfterInsert a s =
     (if isRoot a s then do {
        r \<leftarrow> is_red a s;
        (if r then paint a BLACK s else None) }
      else do {
        n \<leftarrow> deref a s;
        p \<leftarrow> deref (parent n) s;
        if color p = BLACK then Some s
        else if isRoot (parent n) s then paint (parent n) BLACK s
        else do {
          hu \<leftarrow> hasUncle a s;
          ur \<leftarrow> (if hu then do { u \<leftarrow> getUncle a s; is_red u s } else Some False);
          if ur then do {
            u \<leftarrow> getUncle a s;
            s \<leftarrow> paint (parent n) BLACK s;
            s \<leftarrow> paint u BLACK s;
            g \<leftarrow> getGrandParent a s;
            s \<leftarrow> paint g RED s;
            maintainAfterInsert g s }
          else insert_rotations a s } })"

text \<open>A new node below \<open>p\<close>, on the given side; the header follows when it is a new end.\<close>

definition link_left :: "nat \<Rightarrow> 'k \<Rightarrow> 'v \<Rightarrow> ('k, 'v, nat \<times> ('k, 'v) rb_map) rb_op" where
  "link_left p k v s = do {
     let (a, s) = new_node k v s;
     s \<leftarrow> modify p (\<lambda>n. n\<lparr>left_child := a\<rparr>) s;
     s \<leftarrow> modify a (\<lambda>n. n\<lparr>parent := p\<rparr>) s;
     h \<leftarrow> deref (header s) s;
     s \<leftarrow> (if left_child h = p then modify (header s) (\<lambda>n. n\<lparr>left_child := a\<rparr>) s else Some s);
     s \<leftarrow> maintainAfterInsert a s;
     Some (a, s\<lparr>cnt := cnt s + 1\<rparr>) }"

definition link_right :: "nat \<Rightarrow> 'k \<Rightarrow> 'v \<Rightarrow> ('k, 'v, nat \<times> ('k, 'v) rb_map) rb_op" where
  "link_right p k v s = do {
     let (a, s) = new_node k v s;
     s \<leftarrow> modify p (\<lambda>n. n\<lparr>right_child := a\<rparr>) s;
     s \<leftarrow> modify a (\<lambda>n. n\<lparr>parent := p\<rparr>) s;
     h \<leftarrow> deref (header s) s;
     s \<leftarrow> (if right_child h = p then modify (header s) (\<lambda>n. n\<lparr>right_child := a\<rparr>) s else Some s);
     s \<leftarrow> maintainAfterInsert a s;
     Some (a, s\<lparr>cnt := cnt s + 1\<rparr>) }"

text \<open>The first node of an empty map.\<close>

definition insert_root :: "'k \<Rightarrow> 'v \<Rightarrow> ('k, 'v, nat \<times> ('k, 'v) rb_map) rb_op" where
  "insert_root k v s = do {
     let (a, s) = new_node k v s;
     let s = s\<lparr>root := a\<rparr>;
     s \<leftarrow> modify a (\<lambda>n. n\<lparr>parent := header s, color := BLACK\<rparr>) s;
     s \<leftarrow> modify (header s) (\<lambda>n. n\<lparr>parent := a, left_child := a, right_child := a\<rparr>) s;
     Some (a, s\<lparr>cnt := cnt s + 1\<rparr>) }"

partial_function (option) getNodeOrProvide :: "nat \<Rightarrow> 'k::linorder \<Rightarrow> 'v \<Rightarrow> ('k, 'v, nat \<times> ('k, 'v) rb_map) rb_op" where
  [code]: "getNodeOrProvide a k v s = do {
     n \<leftarrow> deref a s;
     if k = first n then Some (a, s)
     else if k < first n then
       (if left_child n = 0 then link_left a k v s else getNodeOrProvide (left_child n) k v s)
     else
       (if right_child n = 0 then link_right a k v s else getNodeOrProvide (right_child n) k v s) }"

partial_function (option) insert_node :: "nat \<Rightarrow> 'k::linorder \<Rightarrow> 'v \<Rightarrow> bool \<Rightarrow> ('k, 'v, ('k, 'v) rb_map) rb_op" where
  [code]: "insert_node a k v replace s = do {
     n \<leftarrow> deref a s;
     if k = first n then (if replace then modify a (\<lambda>n. n\<lparr>second := v\<rparr>) s else Some s)
     else if k < first n then
       (if left_child n = 0 then map_option snd (link_left a k v s) else insert_node (left_child n) k v replace s)
     else
       (if right_child n = 0 then map_option snd (link_right a k v s) else insert_node (right_child n) k v replace s) }"

definition rb_insert :: "'k::linorder \<Rightarrow> 'v \<Rightarrow> ('k, 'v, ('k, 'v) rb_map) rb_op" where
  "rb_insert k v s = (if root s = 0 then map_option snd (insert_root k v s) else insert_node (root s) k v True s)"

text \<open>\<open>getOrDefault\<close> and \<open>operator[]\<close> return the node whose value they refer to; \<open>v\<close> is the default.\<close>

definition getOrDefault :: "'k::linorder \<Rightarrow> 'v \<Rightarrow> ('k, 'v, nat \<times> ('k, 'v) rb_map) rb_op" where
  "getOrDefault k v s = (if root s = 0 then insert_root k v s else getNodeOrProvide (root s) k v s)"

definition rb_index :: "'k::linorder \<Rightarrow> 'v \<Rightarrow> ('k, 'v, nat \<times> ('k, 'v) rb_map) rb_op" where
  "rb_index k v s = getOrDefault k v s"

section \<open>Lookup\<close>

partial_function (option) getNode :: "nat \<Rightarrow> 'k::linorder \<Rightarrow> ('k, 'v, nat) rb_op" where
  [code]: "getNode a k s = do {
     n \<leftarrow> deref a s;
     if k = first n then Some a
     else if k < first n then (if left_child n = 0 then Some 0 else getNode (left_child n) k s)
     else (if right_child n = 0 then Some 0 else getNode (right_child n) k s) }"

datatype rb_error = No_such_mapping

definition rb_get :: "'k::linorder \<Rightarrow> ('k, 'v, rb_error + 'v) rb_op" where
  "rb_get k s =
     (if root s = 0 then Some (Inl No_such_mapping)
      else do {
        a \<leftarrow> getNode (root s) k s;
        if a \<noteq> 0 then do { n \<leftarrow> deref a s; Some (Inr (second n)) } else Some (Inl No_such_mapping) })"

definition rb_at :: "'k::linorder \<Rightarrow> ('k, 'v, rb_error + 'v) rb_op" where
  "rb_at k s = rb_get k s"

text \<open>\<open>count\<close> does not test for an empty map.\<close>

definition rb_count :: "'k::linorder \<Rightarrow> ('k, 'v, nat) rb_op" where
  "rb_count k s = do { a \<leftarrow> getNode (root s) k s; Some (if a \<noteq> 0 then 1 else 0) }"

end
