(* ===== verification/Rb_Iterate.thy ===== *)
theory Rb_Iterate
  imports Rb_Map
begin

text \<open>
  \<open>RBTreeMap\<close> of \<open>container/RBTreeMap.hpp\<close>, its read-only walks: iterators and their ends, the
  bounds and the traversal.
\<close>

section \<open>Iterators\<close>

partial_function (option) leftmost :: "nat \<Rightarrow> ('k, 'v, nat) rb_op" where
  [code]: "leftmost a s = do { n \<leftarrow> deref a s; if left_child n \<noteq> 0 then leftmost (left_child n) s else Some a }"

partial_function (option) rightmost :: "nat \<Rightarrow> ('k, 'v, nat) rb_op" where
  [code]: "rightmost a s = do { n \<leftarrow> deref a s; if right_child n \<noteq> 0 then rightmost (right_child n) s else Some a }"

partial_function (option) climb_right :: "nat \<Rightarrow> nat \<Rightarrow> ('k, 'v, nat \<times> nat) rb_op" where
  [code]: "climb_right a y s = do { n \<leftarrow> deref y s; if a = right_child n then climb_right y (parent n) s else Some (a, y) }"

partial_function (option) climb_left :: "nat \<Rightarrow> nat \<Rightarrow> ('k, 'v, nat \<times> nat) rb_op" where
  [code]: "climb_left a y s = do { n \<leftarrow> deref y s; if a = left_child n then climb_left y (parent n) s else Some (a, y) }"

text \<open>The step to the next node and to the previous one; the test for the header is the one of \<open>decrement\<close>.\<close>

definition step_next :: "nat \<Rightarrow> ('k, 'v, nat) rb_op" where
  "step_next a s = do {
     n \<leftarrow> deref a s;
     if right_child n \<noteq> 0 then leftmost (right_child n) s
     else do {
       (a, y) \<leftarrow> climb_right a (parent n) s;
       n \<leftarrow> deref a s;
       Some (if right_child n \<noteq> y then y else a) } }"

definition step_prev :: "nat \<Rightarrow> ('k, 'v, nat) rb_op" where
  "step_prev a s = do {
     n \<leftarrow> deref a s;
     if left_child n \<noteq> 0 then rightmost (left_child n) s
     else do {
       (a, y) \<leftarrow> climb_left a (parent n) s;
       n \<leftarrow> deref a s;
       Some (if left_child n \<noteq> y then y else a) } }"

definition at_end :: "nat \<Rightarrow> ('k, 'v, bool) rb_op" where
  "at_end a s = do {
     n \<leftarrow> deref a s;
     if color n = RED then do { p \<leftarrow> deref (parent n) s; Some (parent p = a) } else Some False }"

definition iterator_increment :: "nat \<Rightarrow> ('k, 'v, nat) rb_op" where
  "iterator_increment a s = step_next a s"

definition iterator_decrement :: "nat \<Rightarrow> ('k, 'v, nat) rb_op" where
  "iterator_decrement a s = do {
     e \<leftarrow> at_end a s;
     if e then do { n \<leftarrow> deref a s; Some (right_child n) } else step_prev a s }"

definition const_iterator_increment :: "nat \<Rightarrow> ('k, 'v, nat) rb_op" where
  "const_iterator_increment a s = step_next a s"

definition const_iterator_decrement :: "nat \<Rightarrow> ('k, 'v, nat) rb_op" where
  "const_iterator_decrement a s = do {
     e \<leftarrow> at_end a s;
     if e then do { n \<leftarrow> deref a s; Some (right_child n) } else step_prev a s }"

definition reverse_iterator_increment :: "nat \<Rightarrow> ('k, 'v, nat) rb_op" where
  "reverse_iterator_increment a s = step_prev a s"

definition reverse_iterator_decrement :: "nat \<Rightarrow> ('k, 'v, nat) rb_op" where
  "reverse_iterator_decrement a s = do {
     e \<leftarrow> at_end a s;
     if e then do { n \<leftarrow> deref a s; Some (left_child n) } else step_next a s }"

definition const_reverse_iterator_increment :: "nat \<Rightarrow> ('k, 'v, nat) rb_op" where
  "const_reverse_iterator_increment a s = step_prev a s"

text \<open>This one takes the right link of the header where \<open>reverse_iterator_impl\<close> takes the left.\<close>

definition const_reverse_iterator_decrement :: "nat \<Rightarrow> ('k, 'v, nat) rb_op" where
  "const_reverse_iterator_decrement a s = do {
     e \<leftarrow> at_end a s;
     if e then do { n \<leftarrow> deref a s; Some (right_child n) } else step_next a s }"

definition rb_begin :: "('k, 'v, nat) rb_op" where
  "rb_begin s = do { h \<leftarrow> deref (header s) s; Some (left_child h) }"

definition rb_end :: "('k, 'v) rb_map \<Rightarrow> nat" where
  "rb_end s = header s"

definition rb_rbegin :: "('k, 'v, nat) rb_op" where
  "rb_rbegin s = do { h \<leftarrow> deref (header s) s; Some (right_child h) }"

section \<open>Bounds\<close>

partial_function (option) climb_to_left_turn :: "nat \<Rightarrow> ('k, 'v, nat) rb_op" where
  [code]: "climb_to_left_turn a s = do {
     d \<leftarrow> getDirection a s;
     if d = RIGHT then do { n \<leftarrow> deref a s; climb_to_left_turn (parent n) s } else Some a }"

definition next_above :: "nat \<Rightarrow> ('k, 'v, nat) rb_op" where
  "next_above a s = do { a \<leftarrow> climb_to_left_turn a s; n \<leftarrow> deref a s; Some (parent n) }"

partial_function (option) lower_bound_from :: "nat \<Rightarrow> 'k::linorder \<Rightarrow> ('k, 'v, nat) rb_op" where
  [code]: "lower_bound_from a k s =
     (if a = 0 then Some (header s)
      else do {
        n \<leftarrow> deref a s;
        if k = first n then Some a
        else if k < first n then (if left_child n \<noteq> 0 then lower_bound_from (left_child n) k s else Some a)
        else (if right_child n \<noteq> 0 then lower_bound_from (right_child n) k s else next_above a s) })"

definition lower_bound :: "'k::linorder \<Rightarrow> ('k, 'v, nat) rb_op" where
  "lower_bound k s = (if root s = 0 then Some (header s) else lower_bound_from (root s) k s)"

text \<open>\<open>upper_bound\<close> gives the header when the left turn is the parentless one.\<close>

definition next_above_checked :: "nat \<Rightarrow> ('k, 'v, nat) rb_op" where
  "next_above_checked a s = do {
     a \<leftarrow> climb_to_left_turn a s;
     n \<leftarrow> deref a s;
     Some (if parent n = 0 then header s else parent n) }"

partial_function (option) upper_bound_from :: "nat \<Rightarrow> 'k::linorder \<Rightarrow> ('k, 'v, nat) rb_op" where
  [code]: "upper_bound_from a k s =
     (if a = 0 then Some (header s)
      else do {
        n \<leftarrow> deref a s;
        if k < first n then (if left_child n \<noteq> 0 then upper_bound_from (left_child n) k s else Some a)
        else (if right_child n \<noteq> 0 then upper_bound_from (right_child n) k s else next_above_checked a s) })"

definition upper_bound :: "'k::linorder \<Rightarrow> ('k, 'v, nat) rb_op" where
  "upper_bound k s = (if root s = 0 then Some (header s) else upper_bound_from (root s) k s)"

section \<open>Traversal\<close>

text \<open>The action is a function of the node and of a state it updates; it does not change the map.\<close>

partial_function (option) push_left :: "nat \<Rightarrow> nat list \<Rightarrow> ('k, 'v, nat list) rb_op" where
  [code]: "push_left a st s =
     (if a = 0 then Some st else do { n \<leftarrow> deref a s; push_left (left_child n) (a # st) s })"

partial_function (option) traverse ::
    "(('k, 'v) rb_node \<Rightarrow> 'x \<Rightarrow> 'x) \<Rightarrow> nat \<Rightarrow> nat list \<Rightarrow> 'x \<Rightarrow> ('k, 'v, 'x) rb_op" where
  [code]: "traverse act a st x s =
     (if a = 0 \<and> st = [] then Some x
      else do {
        st \<leftarrow> push_left a st s;
        (case st of
           [] \<Rightarrow> Some x
         | b # st \<Rightarrow> do { n \<leftarrow> deref b s; traverse act (right_child n) st (act n x) s }) })"

definition inorderTraversal :: "(('k, 'v) rb_node \<Rightarrow> 'x \<Rightarrow> 'x) \<Rightarrow> 'x \<Rightarrow> ('k, 'v, 'x) rb_op" where
  "inorderTraversal act x s = (if root s = 0 then Some x else traverse act (root s) [] x s)"

definition forEach :: "('k \<Rightarrow> 'v \<Rightarrow> 'x \<Rightarrow> 'x) \<Rightarrow> 'x \<Rightarrow> ('k, 'v, 'x) rb_op" where
  "forEach act x s = inorderTraversal (\<lambda>n. act (first n) (second n)) x s"

text \<open>\<open>forEachMut\<close>: the action writes the value of the node it visits.\<close>

partial_function (option) traverse_mut ::
    "('k \<Rightarrow> 'v \<Rightarrow> 'v) \<Rightarrow> nat \<Rightarrow> nat list \<Rightarrow> ('k, 'v, ('k, 'v) rb_map) rb_op" where
  [code]: "traverse_mut f a st s =
     (if a = 0 \<and> st = [] then Some s
      else do {
        st \<leftarrow> push_left a st s;
        (case st of
           [] \<Rightarrow> Some s
         | b # st \<Rightarrow> do {
             s \<leftarrow> modify b (\<lambda>n. n\<lparr>second := f (first n) (second n)\<rparr>) s;
             n \<leftarrow> deref b s;
             traverse_mut f (right_child n) st s }) })"

definition forEachMut :: "('k \<Rightarrow> 'v \<Rightarrow> 'v) \<Rightarrow> ('k, 'v, ('k, 'v) rb_map) rb_op" where
  "forEachMut f s = (if root s = 0 then Some s else traverse_mut f (root s) [] s)"

end
