(* ===== verification/Rb_Erase.thy ===== *)
theory Rb_Erase
  imports Rb_Iterate
begin

text \<open>
  \<open>RBTreeMap\<close> of \<open>container/RBTreeMap.hpp\<close>: the removal of keys and positions, with the rebalancing
  that precedes the unlinking of a black leaf. A failing assertion and an access to a deleted node
  are \<open>None\<close>.
\<close>

definition require :: "bool \<Rightarrow> 's \<Rightarrow> 's option" where
  "require b s = (if b then Some s else None)"

definition is_black_or_null :: "nat \<Rightarrow> ('k, 'v, bool) rb_op" where
  "is_black_or_null a s = (if a = 0 then Some True else do { r \<leftarrow> is_red a s; Some (\<not> r) })"

definition close_nephew :: "direction \<Rightarrow> ('k, 'v) rb_node \<Rightarrow> nat" where
  "close_nephew d n = (if d = LEFT then left_child n else right_child n)"

definition distant_nephew :: "direction \<Rightarrow> ('k, 'v) rb_node \<Rightarrow> nat" where
  "distant_nephew d n = (if d = LEFT then right_child n else left_child n)"

section \<open>Rebalancing\<close>

text \<open>Case 1: a red sibling moves above the parent; the result is the new sibling.\<close>

definition red_sibling :: "nat \<Rightarrow> direction \<Rightarrow> nat \<Rightarrow> ('k, 'v, nat \<times> ('k, 'v) rb_map) rb_op" where
  "red_sibling a d b s = do {
     n \<leftarrow> deref a s;
     rp \<leftarrow> is_red (parent n) s;
     s \<leftarrow> require (\<not> rp) s;
     m \<leftarrow> deref b s;
     rl \<leftarrow> is_red (left_child m) s;
     s \<leftarrow> require (\<not> rl) s;
     rr \<leftarrow> is_red (right_child m) s;
     s \<leftarrow> require (\<not> rr) s;
     s \<leftarrow> rotateSameDirection (parent n) d s;
     s \<leftarrow> paint b BLACK s;
     s \<leftarrow> paint (parent n) RED s;
     b \<leftarrow> getSibling a s;
     Some (b, s) }"

text \<open>Case 4: a red close nephew moves above the sibling; the result is the new sibling.\<close>

definition red_close_nephew :: "nat \<Rightarrow> direction \<Rightarrow> nat \<Rightarrow> ('k, 'v, nat \<times> ('k, 'v) rb_map) rb_op" where
  "red_close_nephew a d b s = do {
     m \<leftarrow> deref b s;
     s \<leftarrow> rotateOppositeDirection b d s;
     s \<leftarrow> paint (close_nephew d m) BLACK s;
     s \<leftarrow> paint b RED s;
     b \<leftarrow> getSibling a s;
     Some (b, s) }"

text \<open>Case 5: a red distant nephew; the sibling takes the place and the color of the parent.\<close>

definition red_distant_nephew :: "nat \<Rightarrow> direction \<Rightarrow> nat \<Rightarrow> ('k, 'v, ('k, 'v) rb_map) rb_op" where
  "red_distant_nephew a d b s = do {
     m \<leftarrow> deref b s;
     cb \<leftarrow> is_black_or_null (close_nephew d m) s;
     s \<leftarrow> require cb s;
     dr \<leftarrow> is_red (distant_nephew d m) s;
     s \<leftarrow> require dr s;
     n \<leftarrow> deref a s;
     s \<leftarrow> rotateSameDirection (parent n) d s;
     n \<leftarrow> deref a s;
     p \<leftarrow> deref (parent n) s;
     s \<leftarrow> paint b (color p) s;
     s \<leftarrow> paint (parent n) BLACK s;
     (if distant_nephew d m \<noteq> 0 then paint (distant_nephew d m) BLACK s else Some s) }"

partial_function (option) maintainAfterRemove :: "nat \<Rightarrow> ('k, 'v, ('k, 'v) rb_map) rb_op" where
  [code]: "maintainAfterRemove a s =
     (if isRoot a s then Some s
      else do {
        r \<leftarrow> is_red a s;
        hs \<leftarrow> hasSibling a s;
        s \<leftarrow> require (\<not> r \<and> hs) s;
        d \<leftarrow> getDirection a s;
        b \<leftarrow> getSibling a s;
        br \<leftarrow> is_red b s;
        (b, s) \<leftarrow> (if br then red_sibling a d b s else Some (b, s));
        m \<leftarrow> deref b s;
        cb \<leftarrow> is_black_or_null (close_nephew d m) s;
        db \<leftarrow> is_black_or_null (distant_nephew d m) s;
        s \<leftarrow> require (color m = BLACK) s;
        (if cb \<and> db then do {
           n \<leftarrow> deref a s;
           p \<leftarrow> deref (parent n) s;
           s \<leftarrow> paint b RED s;
           (if color p = RED then paint (parent n) BLACK s else maintainAfterRemove (parent n) s) }
         else do {
           (b, s) \<leftarrow> (if \<not> cb then red_close_nephew a d b s else Some (b, s));
           red_distant_nephew a d b s }) })"

section \<open>Removal\<close>

text \<open>The header gives up the node as its first or last one.\<close>

definition release_first :: "nat \<Rightarrow> ('k, 'v, ('k, 'v) rb_map) rb_op" where
  "release_first a s = do {
     h \<leftarrow> deref (header s) s;
     (if left_child h = a then do {
        n \<leftarrow> deref a s;
        b \<leftarrow> (if right_child n \<noteq> 0 then leftmost (right_child n) s else Some (parent n));
        modify (header s) (\<lambda>n. n\<lparr>left_child := b\<rparr>) s }
      else Some s) }"

definition release_last :: "nat \<Rightarrow> ('k, 'v, ('k, 'v) rb_map) rb_op" where
  "release_last a s = do {
     h \<leftarrow> deref (header s) s;
     (if right_child h = a then do {
        n \<leftarrow> deref a s;
        b \<leftarrow> (if left_child n \<noteq> 0 then rightmost (left_child n) s else Some (parent n));
        modify (header s) (\<lambda>n. n\<lparr>right_child := b\<rparr>) s }
      else Some s) }"

text \<open>Case 1: a node with two children changes places with its successor.\<close>

partial_function (option) successor_below :: "nat \<Rightarrow> nat \<Rightarrow> ('k, 'v, nat \<times> nat) rb_op" where
  [code]: "successor_below p a s = do {
     n \<leftarrow> deref a s;
     if left_child n \<noteq> 0 then successor_below a (left_child n) s else Some (p, a) }"

definition take_links :: "('k, 'v) rb_node \<Rightarrow> ('k, 'v) rb_node \<Rightarrow> ('k, 'v) rb_node" where
  "take_links m n =
     n\<lparr>parent := parent m, left_child := left_child m, right_child := right_child m, color := color m\<rparr>"

definition swap_links :: "nat \<Rightarrow> nat \<Rightarrow> ('k, 'v, ('k, 'v) rb_map) rb_op" where
  "swap_links a b s = do {
     n \<leftarrow> deref a s;
     m \<leftarrow> deref b s;
     s \<leftarrow> modify a (take_links m) s;
     modify b (take_links n) s }"

definition swap_successor :: "nat \<Rightarrow> ('k, 'v, ('k, 'v) rb_map) rb_op" where
  "swap_successor a s = do {
     n \<leftarrow> deref a s;
     (p, b) \<leftarrow> successor_below a (right_child n) s;
     m \<leftarrow> deref b s;
     d \<leftarrow> getDirection b s;
     s \<leftarrow> (if d = ROOT then Some s else replace_child d (parent m) a s);
     n \<leftarrow> deref a s;
     d \<leftarrow> getDirection a s;
     s \<leftarrow> replace_child d (parent n) b s;
     s \<leftarrow> swap_links a b s;
     s \<leftarrow> maintainRelationship a s;
     s \<leftarrow> maintainRelationship b s;
     maintainRelationship p s }"

text \<open>
  Case 2: a leaf. The node is read again after its \<open>delete\<close>, for the parent whose child is reset.
\<close>

definition unlink_leaf :: "nat \<Rightarrow> ('k, 'v, ('k, 'v) rb_map) rb_op" where
  "unlink_leaf a s = do {
     s \<leftarrow> require (\<not> isRoot a s) s;
     n \<leftarrow> deref a s;
     s \<leftarrow> (if color n = BLACK then maintainAfterRemove a s else Some s);
     d \<leftarrow> getDirection a s;
     n \<leftarrow> deref a s;
     p \<leftarrow> deref (parent n) s;
     s \<leftarrow> free (if d = LEFT then left_child p else right_child p) s;
     n \<leftarrow> deref a s;
     (if d = LEFT then modify (parent n) (\<lambda>n. n\<lparr>left_child := 0\<rparr>) s
      else modify (parent n) (\<lambda>n. n\<lparr>right_child := 0\<rparr>) s) }"

text \<open>Case 3: a node with one child, which takes its place.\<close>

definition unlink_single :: "nat \<Rightarrow> ('k, 'v, ('k, 'v) rb_map) rb_op" where
  "unlink_single a s = do {
     n \<leftarrow> deref a s;
     s \<leftarrow> require (left_child n = 0 \<or> right_child n = 0) s;
     let b = (if left_child n \<noteq> 0 then left_child n else right_child n);
     d \<leftarrow> getDirection a s;
     s \<leftarrow> replace_child d (parent n) b s;
     m \<leftarrow> deref b s;
     s \<leftarrow> free (parent m) s;
     s \<leftarrow> modify b (\<lambda>m. m\<lparr>parent := parent n\<rparr>) s;
     (if color n = BLACK then do {
        r \<leftarrow> is_red b s;
        (if r then paint b BLACK s else maintainAfterRemove b s) }
      else Some s) }"

definition unlink :: "nat \<Rightarrow> ('k, 'v, ('k, 'v) rb_map) rb_op" where
  "unlink a s = do {
     n \<leftarrow> deref a s;
     s \<leftarrow> (if left_child n \<noteq> 0 \<and> right_child n \<noteq> 0 then swap_successor a s else Some s);
     n \<leftarrow> deref a s;
     (if left_child n = 0 \<and> right_child n = 0 then unlink_leaf a s else unlink_single a s) }"

definition remove_here :: "nat \<Rightarrow> ('k, 'v, ('k, 'v) rb_map) rb_op" where
  "remove_here a s = do {
     s \<leftarrow> release_first a s;
     s \<leftarrow> release_last a s;
     (if cnt s = 1 then rb_clear s
      else do { s \<leftarrow> unlink a s; Some (s\<lparr>cnt := cnt s - 1\<rparr>) }) }"

text \<open>The result tells whether the key was there. The callers pass an empty action.\<close>

partial_function (option) rb_remove :: "nat \<Rightarrow> 'k::linorder \<Rightarrow> ('k, 'v, bool \<times> ('k, 'v) rb_map) rb_op" where
  [code]: "rb_remove a k s = do {
     n \<leftarrow> deref a s;
     if k \<noteq> first n then do {
       let b = (if k < first n then left_child n else right_child n);
       (if b = 0 then Some (False, s)
        else do {
          (removed, s) \<leftarrow> rb_remove b k s;
          (if removed then do { s \<leftarrow> maintainRelationship a s; Some (True, s) } else Some (False, s)) }) }
     else do { s \<leftarrow> remove_here a s; Some (True, s) } }"

definition erase_key :: "'k::linorder \<Rightarrow> ('k, 'v, nat \<times> ('k, 'v) rb_map) rb_op" where
  "erase_key k s =
     (if root s = 0 then Some (0, s)
      else do { (removed, s) \<leftarrow> rb_remove (root s) k s; Some (if removed then 1 else 0, s) })"

definition erase_at :: "nat \<Rightarrow> ('k::linorder, 'v, nat \<times> ('k, 'v) rb_map) rb_op" where
  "erase_at a s =
     (if a = 0 \<or> a = rb_end s then Some (a, s)
      else do {
        b \<leftarrow> iterator_increment a s;
        n \<leftarrow> deref a s;
        (_, s) \<leftarrow> rb_remove (root s) (first n) s;
        Some (b, s) })"

partial_function (option) erase_until :: "nat \<Rightarrow> nat \<Rightarrow> ('k::linorder, 'v, ('k, 'v) rb_map) rb_op" where
  [code]: "erase_until a b s =
     (if a = b then Some s
      else do {
        c \<leftarrow> iterator_increment a s;
        n \<leftarrow> deref a s;
        (_, s) \<leftarrow> rb_remove (root s) (first n) s;
        erase_until c b s })"

definition erase_range :: "nat \<Rightarrow> nat \<Rightarrow> ('k::linorder, 'v, nat \<times> ('k, 'v) rb_map) rb_op" where
  "erase_range a b s = do {
     f \<leftarrow> rb_begin s;
     (if a = f \<and> b = rb_end s then do { s \<leftarrow> rb_clear s; Some (rb_end s, s) }
      else do { s \<leftarrow> erase_until a b s; Some (b, s) }) }"

end
