(* ===== verification/Rb_Tree.thy ===== *)
theory Rb_Tree
  imports Rb_Erase
begin

text \<open>
  Trees of node addresses and the places in them, as the proofs about \<open>RBTreeMap\<close> use them: a tree
  in its context, the entries in order, the balance invariant, and the repair of a tree after an
  insertion (\<open>ins_fix\<close>) and before a removal (\<open>del_fix\<close>) as functions on places.
\<close>

section \<open>Trees and places\<close>

datatype ('k, 'v) ptree = Lf | Nd nat colour "('k, 'v) ptree" 'k 'v "('k, 'v) ptree"

fun adr :: "('k, 'v) ptree \<Rightarrow> nat" where
  "adr Lf = 0"
| "adr (Nd a c l k v r) = a"

fun col :: "('k, 'v) ptree \<Rightarrow> colour" where
  "col Lf = BLACK"
| "col (Nd a c l k v r) = c"

fun entries :: "('k, 'v) ptree \<Rightarrow> (nat \<times> 'k \<times> 'v) list" where
  "entries Lf = []"
| "entries (Nd a c l k v r) = entries l @ (a, k, v) # entries r"

fun addrs :: "('k, 'v) ptree \<Rightarrow> nat list" where
  "addrs Lf = []"
| "addrs (Nd a c l k v r) = addrs l @ a # addrs r"

lemma addrs_entries: "addrs t = map fst (entries t)"
  by (induction t) auto

text \<open>A node whose child on the side \<open>d\<close> (\<open>True\<close> for left) is \<open>x\<close> and whose other child is \<open>y\<close>.\<close>

fun nd :: "bool \<Rightarrow> nat \<Rightarrow> colour \<Rightarrow> ('k, 'v) ptree \<Rightarrow> 'k \<Rightarrow> 'v \<Rightarrow> ('k, 'v) ptree \<Rightarrow> ('k, 'v) ptree" where
  "nd True a c x k v y = Nd a c x k v y"
| "nd False a c x k v y = Nd a c y k v x"

lemma nd_facts [simp]:
  "adr (nd d a c x k v y) = a" "col (nd d a c x k v y) = c" "nd d a c x k v y \<noteq> Lf"
  "nd (\<not> d) a c x k v y = nd d a c y k v x"
  by (cases d; simp)+

lemma set_entries_nd:
  "set (entries (nd d a c x k v y)) = insert (a, k, v) (set (entries x) \<union> set (entries y))"
  by (cases d) auto

lemma set_addrs_nd [simp]: "set (addrs (nd d a c x k v y)) = insert a (set (addrs x) \<union> set (addrs y))"
  by (cases d) auto

lemma distinct_addrs_nd [simp]:
  "distinct (addrs (nd d a c x k v y)) \<longleftrightarrow>
     a \<notin> set (addrs x) \<and> a \<notin> set (addrs y) \<and> distinct (addrs x) \<and> distinct (addrs y)
     \<and> set (addrs x) \<inter> set (addrs y) = {}"
  by (cases d) auto

datatype ('k, 'v) frame = Fr bool nat colour 'k 'v "('k, 'v) ptree"

text \<open>A context is the path to the root: innermost frame first, each with the other child.\<close>

fun plug :: "('k, 'v) frame list \<Rightarrow> ('k, 'v) ptree \<Rightarrow> ('k, 'v) ptree" where
  "plug [] t = t"
| "plug (Fr d a c k v s # C) t = plug C (nd d a c t k v s)"

lemma plug_append: "plug (C @ D) t = plug D (plug C t)"
  by (induction C t rule: plug.induct) simp_all

fun pre :: "('k, 'v) frame list \<Rightarrow> (nat \<times> 'k \<times> 'v) list" where
  "pre [] = []"
| "pre (Fr d a c k v s # C) = pre C @ (if d then [] else entries s @ [(a, k, v)])"

fun post :: "('k, 'v) frame list \<Rightarrow> (nat \<times> 'k \<times> 'v) list" where
  "post [] = []"
| "post (Fr d a c k v s # C) = (if d then (a, k, v) # entries s else []) @ post C"

lemma pre_post_append: "pre (C @ D) = pre D @ pre C" "post (C @ D) = post C @ post D"
  by (induction C rule: pre.induct) simp_all

lemma entries_nd:
  "entries (nd d a c x k v y) = (if d then entries x @ (a, k, v) # entries y else entries y @ (a, k, v) # entries x)"
  by (cases d) auto

lemma entries_plug: "entries (plug C t) = pre C @ entries t @ post C"
  by (induction C t rule: plug.induct) (auto simp: entries_nd)

fun ctx_addrs :: "('k, 'v) frame list \<Rightarrow> nat list" where
  "ctx_addrs [] = []"
| "ctx_addrs (Fr d a c k v s # C) = a # addrs s @ ctx_addrs C"

lemma set_addrs_plug: "set (addrs (plug C t)) = set (addrs t) \<union> set (ctx_addrs C)"
  by (induction C t rule: plug.induct) auto

lemma distinct_addrs_plug:
  "distinct (addrs (plug C t)) \<longleftrightarrow>
     distinct (addrs t) \<and> distinct (ctx_addrs C) \<and> set (addrs t) \<inter> set (ctx_addrs C) = {}"
  by (induction C t rule: plug.induct) auto

fun ccol :: "('k, 'v) frame list \<Rightarrow> colour" where
  "ccol [] = BLACK"
| "ccol (Fr d a c k v s # C) = c"

section \<open>Balance\<close>

text \<open>\<open>rbt n t\<close>: every path of \<open>t\<close> has \<open>n\<close> black nodes and no red node has a red child.\<close>

fun rbt :: "nat \<Rightarrow> ('k, 'v) ptree \<Rightarrow> bool" where
  "rbt n Lf \<longleftrightarrow> n = 0"
| "rbt n (Nd a RED l k v r) \<longleftrightarrow> col l = BLACK \<and> col r = BLACK \<and> rbt n l \<and> rbt n r"
| "rbt n (Nd a BLACK l k v r) \<longleftrightarrow> (\<exists>m. n = Suc m \<and> rbt m l \<and> rbt m r)"

lemma rbt_nd_RED [simp]:
  "rbt n (nd d a RED x k v y) \<longleftrightarrow> col x = BLACK \<and> col y = BLACK \<and> rbt n x \<and> rbt n y"
  by (cases d) auto

lemma rbt_nd_BLACK [simp]: "rbt n (nd d a BLACK x k v y) \<longleftrightarrow> (\<exists>m. n = Suc m \<and> rbt m x \<and> rbt m y)"
  by (cases d) auto

text \<open>\<open>rbc n C\<close>: the context takes a tree of black height \<open>n\<close>; its root is black.\<close>

fun rbc :: "nat \<Rightarrow> ('k, 'v) frame list \<Rightarrow> bool" where
  "rbc n [] \<longleftrightarrow> True"
| "rbc n (Fr d a RED k v s # C) \<longleftrightarrow> C \<noteq> [] \<and> ccol C = BLACK \<and> col s = BLACK \<and> rbt n s \<and> rbc n C"
| "rbc n (Fr d a BLACK k v s # C) \<longleftrightarrow> rbt n s \<and> rbc (Suc n) C"

definition balanced :: "('k, 'v) ptree \<Rightarrow> bool" where
  "balanced t \<longleftrightarrow> col t = BLACK \<and> (\<exists>n. rbt n t)"

definition fits :: "('k, 'v) frame list \<Rightarrow> ('k, 'v) ptree \<Rightarrow> bool" where
  "fits C t \<longleftrightarrow> (\<exists>n. rbc n C \<and> rbt n t) \<and> (col t = RED \<longrightarrow> C \<noteq> [] \<and> ccol C = BLACK)"

lemma fits_frame: "fits (Fr d a c k v s # C) t \<longleftrightarrow> fits C (nd d a c t k v s)"
  by (cases c) (cases "col t"; auto simp: fits_def)+

lemma balanced_plug: "balanced (plug C t) \<longleftrightarrow> fits C t"
proof (induction C t rule: plug.induct)
  case (1 t)
  then show ?case by (cases "col t") (auto simp: balanced_def fits_def)
qed (simp add: fits_frame)

section \<open>Parts of a tree\<close>

fun kid :: "bool \<Rightarrow> ('k, 'v) ptree \<Rightarrow> ('k, 'v) ptree" where
  "kid d Lf = Lf"
| "kid d (Nd a c l k v r) = (if d then l else r)"

fun key :: "('k, 'v) ptree \<Rightarrow> 'k" where
  "key (Nd a c l k v r) = k"

fun val :: "('k, 'v) ptree \<Rightarrow> 'v" where
  "val (Nd a c l k v r) = v"

fun repaint :: "colour \<Rightarrow> ('k, 'v) ptree \<Rightarrow> ('k, 'v) ptree" where
  "repaint c Lf = Lf"
| "repaint c (Nd a c' l k v r) = Nd a c l k v r"

lemma kid_nd [simp]: "kid d (nd d a c x k v y) = x" "kid (\<not> d) (nd d a c x k v y) = y"
  by (cases d; simp)+

lemma parts_nd [simp]:
  "key (nd d a c x k v y) = k" "val (nd d a c x k v y) = v" "repaint c' (nd d a c x k v y) = nd d a c' x k v y"
  by (cases d; simp)+

lemma nd_view: "t \<noteq> Lf \<Longrightarrow> t = nd d (adr t) (col t) (kid d t) (key t) (val t) (kid (\<not> d) t)"
  by (cases t; cases d) auto

lemma nd_exhaust [case_names Lf nd]:
  assumes "t = Lf \<Longrightarrow> P" and "\<And>a c x k v y. t = nd d a c x k v y \<Longrightarrow> P"
  shows P
  using assms nd_view [of t d] by metis

lemma repaint_facts [simp]: "entries (repaint c t) = entries t" "adr (repaint c t) = adr t" "repaint c t = Lf \<longleftrightarrow> t = Lf"
  "t \<noteq> Lf \<Longrightarrow> col (repaint c t) = c"
  by (cases t; simp)+

lemma rbt_repaint_BLACK [simp]: "rbt n t \<Longrightarrow> col t = RED \<Longrightarrow> rbt (Suc n) (repaint BLACK t)"
  by (cases t) auto

lemma rbt_repaint_RED:
  "rbt (Suc n) t \<Longrightarrow> col t = BLACK \<Longrightarrow> col (kid d t) = BLACK \<Longrightarrow> col (kid (\<not> d) t) = BLACK \<Longrightarrow> rbt n (repaint RED t)"
  by (cases t; cases d) auto

lemma col_RED_Nd: "col t = RED \<Longrightarrow> t \<noteq> Lf"
  by auto

lemma rbt_Suc_Nd: "rbt (Suc n) t \<Longrightarrow> t \<noteq> Lf"
  by auto

section \<open>Repair after an insertion\<close>

text \<open>The tree at the place has a red root, which may stand below a red frame.\<close>

fun ins_fix :: "('k, 'v) frame list \<Rightarrow> ('k, 'v) ptree \<Rightarrow> ('k, 'v) ptree" where
  "ins_fix [] t = repaint BLACK t"
| "ins_fix [Fr d p c k v s] t = nd d p BLACK t k v s"
| "ins_fix (Fr d p c k v s # Fr d' g c' k' v' u # C) t =
     (if c = BLACK then plug (Fr d p c k v s # Fr d' g c' k' v' u # C) t
      else if col u = RED then ins_fix C (nd d' g RED (nd d p BLACK t k v s) k' v' (repaint BLACK u))
      else if d = d' then plug C (nd d p BLACK t k v (nd d g RED s k' v' u))
      else plug C (nd d' (adr t) BLACK (nd d' p RED s k v (kid d' t)) (key t) (val t)
                     (nd d' g RED (kid (\<not> d') t) k' v' u)))"

lemma entries_ins_fix: "t \<noteq> Lf \<Longrightarrow> entries (ins_fix C t) = pre C @ entries t @ post C"
proof (induction C t rule: ins_fix.induct)
  case (3 d p c k v s d' g c' k' v' u C t)
  show ?case
  proof (cases "c = RED \<and> col u \<noteq> RED \<and> d \<noteq> d'")
    case True
    then have "entries t = entries (nd d' (adr t) (col t) (kid d' t) (key t) (val t) (kid (\<not> d') t))"
      using nd_view [OF 3(2), of d'] by simp
    then show ?thesis using True by (cases d'; simp add: entries_plug)
  next
    case False
    then show ?thesis using 3 by (cases c; cases d; cases d') (auto simp: entries_plug)
  qed
qed (auto simp: entries_nd)

lemma balanced_ins_fix:
  "col t = RED \<Longrightarrow> rbc n C \<Longrightarrow> rbt n t \<Longrightarrow> balanced (ins_fix C t)"
proof (induction C t arbitrary: n rule: ins_fix.induct)
  case (1 t)
  then show ?case by (cases t) (auto simp: balanced_def)
next
  case (2 d p c k v s t)
  then show ?case by (cases c) (auto simp: balanced_def)
next
  case (3 d p c k v s d' g c' k' v' u C t)
  consider "c = BLACK" | "c = RED" "col u = RED" | "c = RED" "col u = BLACK" "d = d'"
    | "c = RED" "col u = BLACK" "d' = (\<not> d)" using colour.exhaust by metis
  then show ?case
  proof cases
    case 1
    then show ?thesis using 3(2-4) by (auto simp: balanced_plug fits_frame [symmetric] fits_def simp del: plug.simps)
  next
    case 2
    then have "c' = BLACK" and "u \<noteq> Lf" using "3.prems" by (cases c'; auto)+
    then show ?thesis using 2 "3.prems" "3.IH" [of "Suc n"] by auto
  next
    case 3
    then show ?thesis using "3.prems" by (cases c') (auto simp: balanced_plug fits_def)
  next
    case 4
    obtain a x tk tv y where "t = nd d' a RED x tk tv y" using "3.prems"(1) nd_view [of t d'] col_RED_Nd by metis
    then show ?thesis using 4 "3.prems" by (cases c') (auto simp: balanced_plug fits_def)
  qed
qed

section \<open>Repair before a removal\<close>

text \<open>
  The tree at the place is one black node short of what its context takes. \<open>del_black\<close> is the step
  with a black sibling, where \<open>up\<close> is the repaired rest of the context; the tree itself stays.
\<close>

definition del_black ::
    "bool \<Rightarrow> nat \<Rightarrow> colour \<Rightarrow> 'k \<Rightarrow> 'v \<Rightarrow> ('k, 'v) ptree \<Rightarrow> ('k, 'v) frame list \<Rightarrow> ('k, 'v) frame list
     \<Rightarrow> ('k, 'v) frame list" where
  "del_black d p c k v s C up =
     (let x = kid d s; y = kid (\<not> d) s in
      if col x = BLACK \<and> col y = BLACK then Fr d p BLACK k v (repaint RED s) # (if c = RED then C else up)
      else if col x = RED
      then Fr d p BLACK k v (kid d x)
             # Fr d (adr x) c (key x) (val x) (nd d (adr s) BLACK (kid (\<not> d) x) (key s) (val s) y) # C
      else Fr d p BLACK k v x # Fr d (adr s) c (key s) (val s) (repaint BLACK y) # C)"

fun del_fix :: "('k, 'v) frame list \<Rightarrow> ('k, 'v) frame list" where
  "del_fix [] = []"
| "del_fix (Fr d p c k v s # C) =
     (if col s = RED
      then del_black d p RED k v (kid d s) (Fr d (adr s) BLACK (key s) (val s) (kid (\<not> d) s) # C) []
      else del_black d p c k v s C (del_fix C))"

lemma RED_view:
  assumes "col t = RED"
  obtains a x k v y where "t = nd d a RED x k v y"
  using assms nd_view [of t d] col_RED_Nd [OF assms] by metis

lemma del_black_sides:
  assumes "s \<noteq> Lf" and "c = BLACK \<Longrightarrow> pre up = pre C \<and> post up = post C"
  shows "pre (del_black d p c k v s C up) = pre (Fr d p c k v s # C)
         \<and> post (del_black d p c k v s C up) = post (Fr d p c k v s # C)"
proof -
  obtain b sc x k' v' y where s: "s = nd d b sc x k' v' y" using nd_view [OF assms(1), of d] by metis
  consider "col x = RED" | "col x = BLACK" "col y = RED" | "col x = BLACK" "col y = BLACK"
    using colour.exhaust by metis
  then show ?thesis
  proof cases
    case 1
    obtain a l kx vx r where "x = nd d a RED l kx vx r" using RED_view [OF 1] by metis
    then show ?thesis by (cases d) (simp_all add: s del_black_def)
  next
    case 2
    then show ?thesis by (cases d) (simp_all add: s del_black_def)
  next
    case 3
    then show ?thesis using assms(2) by (cases d; cases c) (simp_all add: s del_black_def)
  qed
qed

lemma rbc_del_black:
  assumes "rbc (Suc n) (Fr d p c k v s # C)" and "col s = BLACK" and "c = BLACK \<Longrightarrow> rbc (Suc n) up"
  shows "rbc n (del_black d p c k v s C up)"
proof -
  have "s \<noteq> Lf" using assms(1) by (cases c) auto
  then obtain b x k' v' y where s: "s = nd d b BLACK x k' v' y" using nd_view [of s d] assms(2) by metis
  consider "col x = RED" | "col x = BLACK" "col y = RED" | "col x = BLACK" "col y = BLACK"
    using colour.exhaust by metis
  then show ?thesis
  proof cases
    case 1
    obtain a l kx vx r where "x = nd d a RED l kx vx r" using RED_view [OF 1] by metis
    then show ?thesis using assms(1) by (cases c) (simp_all add: s del_black_def)
  next
    case 2
    then show ?thesis using assms(1) col_RED_Nd [of y] by (cases c) (simp_all add: s del_black_def)
  next
    case 3
    then show ?thesis using assms(1,3) by (cases c) (simp_all add: s del_black_def)
  qed
qed

lemma del_fix_sides:
  "rbc (Suc n) C \<Longrightarrow> pre (del_fix C) = pre C \<and> post (del_fix C) = post C"
proof (induction C arbitrary: n rule: del_fix.induct)
  case (2 d p c k v s C)
  have s: "s \<noteq> Lf" using 2(2) by (cases c) auto
  show ?case
  proof (cases "col s")
    case RED
    then obtain b x k' v' y where v: "s = nd d b RED x k' v' y" using nd_view [OF s, of d] by metis
    have "x \<noteq> Lf" using 2(2) RED v by (cases c) auto
    then show ?thesis using del_black_sides [of x RED "[]" _ d p k v] v by (cases d) auto
  next
    case BLACK
    have "c = BLACK \<longrightarrow> pre (del_fix C) = pre C \<and> post (del_fix C) = post C"
      using 2(1) [of "Suc n"] 2(2) BLACK by auto
    then show ?thesis using del_black_sides [OF s] BLACK by simp
  qed
qed simp

lemma rbc_del_fix: "rbc (Suc n) C \<Longrightarrow> rbc n (del_fix C)"
proof (induction C arbitrary: n rule: del_fix.induct)
  case (2 d p c k v s C)
  have s: "s \<noteq> Lf" using 2(2) by (cases c) auto
  show ?case
  proof (cases "col s")
    case RED
    then obtain b x k' v' y where v: "s = nd d b RED x k' v' y" using nd_view [OF s, of d] by metis
    show ?thesis using 2(2) RED v by (cases c) (auto intro!: rbc_del_black)
  next
    case BLACK
    then show ?thesis using 2 by (auto intro!: rbc_del_black)
  qed
qed simp

end
