(* ===== verification/Rb_Heap.thy ===== *)
theory Rb_Heap
  imports Rb_Tree
begin

text \<open>
  When a state of \<open>RBTreeMap\<close> holds a tree: every node of the tree is in the heap with its links,
  the header is a node of its own, and the heap has nothing else. Reading and changing a node at a
  place of the tree, and the rotations, are stated as facts about such states.
\<close>

section \<open>A tree in a heap\<close>

type_synonym ('k, 'v) heap = "nat \<Rightarrow> ('k, 'v) rb_node option"

definition mk :: "colour \<Rightarrow> nat \<Rightarrow> bool \<Rightarrow> nat \<Rightarrow> nat \<Rightarrow> 'k \<Rightarrow> 'v \<Rightarrow> ('k, 'v) rb_node" where
  "mk c p d x y k v =
     \<lparr>color = c, parent = p, left_child = (if d then x else y), right_child = (if d then y else x), first = k, second = v\<rparr>"

lemma mk_simps [simp]:
  "color (mk c p d x y k v) = c" "parent (mk c p d x y k v) = p" "first (mk c p d x y k v) = k"
  "second (mk c p d x y k v) = v" "left_child (mk c p True x y k v) = x" "right_child (mk c p True x y k v) = y"
  "left_child (mk c p False x y k v) = y" "right_child (mk c p False x y k v) = x"
  "(mk c p d x y k v)\<lparr>color := c'\<rparr> = mk c' p d x y k v" "(mk c p d x y k v)\<lparr>parent := p'\<rparr> = mk c p' d x y k v"
  "(mk c p d x y k v)\<lparr>second := v'\<rparr> = mk c p d x y k v'"
  "(mk c p True x y k v)\<lparr>left_child := z\<rparr> = mk c p True z y k v" "(mk c p True x y k v)\<lparr>right_child := z\<rparr> = mk c p True x z k v"
  "(mk c p False x y k v)\<lparr>left_child := z\<rparr> = mk c p False x z k v" "(mk c p False x y k v)\<lparr>right_child := z\<rparr> = mk c p False z y k v"
  by (simp_all add: mk_def)

lemma mk_swap: "mk c p False x y k v = mk c p True y x k v"
  by (simp add: mk_def)

fun tree_in :: "('k, 'v) heap \<Rightarrow> nat \<Rightarrow> ('k, 'v) ptree \<Rightarrow> bool" where
  "tree_in H p Lf \<longleftrightarrow> True"
| "tree_in H p (Nd a c l k v r) \<longleftrightarrow>
     a \<noteq> 0 \<and> H a = Some (mk c p True (adr l) (adr r) k v) \<and> tree_in H a l \<and> tree_in H a r"

lemma tree_in_nd [simp]:
  "tree_in H p (nd d a c x k v y) \<longleftrightarrow>
     a \<noteq> 0 \<and> H a = Some (mk c p d (adr x) (adr y) k v) \<and> tree_in H a x \<and> tree_in H a y"
  by (cases d) (auto simp: mk_swap)

lemma tree_in_cong: "(\<And>x. x \<in> set (addrs t) \<Longrightarrow> H x = H' x) \<Longrightarrow> tree_in H p t \<longleftrightarrow> tree_in H' p t"
  by (induction t arbitrary: p) auto

lemma tree_in_upd [simp]: "a \<notin> set (addrs t) \<Longrightarrow> tree_in (H(a := n)) p t \<longleftrightarrow> tree_in H p t"
  by (rule tree_in_cong) auto

lemma tree_in_no_zero: "tree_in H p t \<Longrightarrow> 0 \<notin> set (addrs t)"
  by (induction t arbitrary: p) auto

lemma adr_zero: "tree_in H p t \<Longrightarrow> adr t = 0 \<longleftrightarrow> t = Lf"
  by (cases t) auto

lemma adr_pos: "tree_in H p t \<Longrightarrow> 0 < adr t \<longleftrightarrow> t \<noteq> Lf"
  by (cases t) auto

lemma adr_in: "t \<noteq> Lf \<Longrightarrow> adr t \<in> set (addrs t)"
  by (cases t) auto

fun top :: "nat \<Rightarrow> ('k, 'v) frame list \<Rightarrow> nat" where
  "top h [] = h"
| "top h (Fr d a c k v s # C) = a"

fun ctx_in :: "('k, 'v) heap \<Rightarrow> nat \<Rightarrow> ('k, 'v) frame list \<Rightarrow> nat \<Rightarrow> bool" where
  "ctx_in H h [] x \<longleftrightarrow> True"
| "ctx_in H h (Fr d a c k v s # C) x \<longleftrightarrow>
     a \<noteq> 0 \<and> H a = Some (mk c (top h C) d x (adr s) k v) \<and> tree_in H a s \<and> ctx_in H h C a"

lemma tree_in_plug: "tree_in H h (plug C t) \<longleftrightarrow> tree_in H (top h C) t \<and> ctx_in H h C (adr t)"
  by (induction C t rule: plug.induct) auto

lemma set_ctx_addrs_frame:
  "set (ctx_addrs (Fr d a c k v s # C)) = insert a (set (addrs s) \<union> set (ctx_addrs C))"
  by (cases d) auto

lemma ctx_in_cong:
  "(\<And>x. x \<in> set (ctx_addrs C) \<Longrightarrow> H x = H' x) \<Longrightarrow> ctx_in H h C y \<longleftrightarrow> ctx_in H' h C y"
proof (induction C arbitrary: y)
  case (Cons f C)
  obtain d a c k v s where f: "f = Fr d a c k v s" by (cases f) auto
  have "tree_in H a s = tree_in H' a s" by (rule tree_in_cong) (use Cons.prems f in auto)
  moreover have "ctx_in H h C a = ctx_in H' h C a" by (rule Cons.IH) (use Cons.prems f in auto)
  ultimately show ?case using f Cons.prems by simp
qed simp

lemma ctx_in_upd [simp]: "a \<notin> set (ctx_addrs C) \<Longrightarrow> ctx_in (H(a := n)) h C y \<longleftrightarrow> ctx_in H h C y"
  by (rule ctx_in_cong) auto

section \<open>States that hold a tree\<close>

text \<open>What the restructuring operations leave alone: the header but for its parent, and the counters.\<close>

record ('k, 'v) rb_env =
  e_header :: nat
  e_next :: nat
  e_cnt :: nat
  e_node :: "('k, 'v) rb_node"

definition shape :: "('k, 'v) rb_env \<Rightarrow> ('k, 'v) rb_map \<Rightarrow> ('k, 'v) ptree \<Rightarrow> bool" where
  "shape e s t \<longleftrightarrow>
     e_header e = header s \<and> rb_next s = e_next e \<and> cnt s = e_cnt e \<and> root s = adr t
     \<and> header s \<noteq> 0 \<and> rb_heap s (header s) = Some ((e_node e)\<lparr>parent := adr t\<rparr>)
     \<and> tree_in (rb_heap s) (header s) t \<and> distinct (header s # addrs t)
     \<and> dom (rb_heap s) = insert (header s) (set (addrs t)) \<and> (\<forall>x \<in> insert (header s) (set (addrs t)). x < e_next e)"

lemma shapeD:
  assumes "shape e s t"
  shows "e_header e = header s" "root s = adr t" "cnt s = e_cnt e" "rb_next s = e_next e"
    "header s \<noteq> 0" "rb_heap s (header s) = Some ((e_node e)\<lparr>parent := adr t\<rparr>)"
    "tree_in (rb_heap s) (header s) t" "header s \<notin> set (addrs t)" "distinct (addrs t)"
    "dom (rb_heap s) = insert (header s) (set (addrs t))"
  using assms by (auto simp: shape_def)

lemma shape_plugD:
  assumes "shape e s (plug C t)"
  shows "tree_in (rb_heap s) (top (header s) C) t" "ctx_in (rb_heap s) (header s) C (adr t)"
    "distinct (addrs t)" "distinct (ctx_addrs C)" "set (addrs t) \<inter> set (ctx_addrs C) = {}"
    "header s \<notin> set (addrs t)" "header s \<notin> set (ctx_addrs C)" "root s = adr (plug C t)"
  using assms by (auto simp: shape_def tree_in_plug set_addrs_plug distinct_addrs_plug)

lemma deref_header: "shape e s t \<Longrightarrow> deref (header s) s = Some ((e_node e)\<lparr>parent := adr t\<rparr>)"
  unfolding shape_def deref_def by metis

lemma deref_focus: "shape e s (plug C (nd d a c x k v y)) \<Longrightarrow>
    deref a s = Some (mk c (top (header s) C) d (adr x) (adr y) k v)"
  using shape_plugD(1) [of e s C "nd d a c x k v y"] by (simp add: deref_def)

lemma adr_plug_frame: "adr (plug (f # C) t) \<in> set (ctx_addrs (f # C))"
proof (induction C arbitrary: f t)
  case Nil
  then show ?case by (cases f) simp
next
  case (Cons g C)
  obtain d a c k v u where f: "f = Fr d a c k v u" by (cases f) auto
  show ?case using Cons [of g "nd d a c t k v u"] f by auto
qed

lemma adr_plug_eq: "adr t = adr t' \<Longrightarrow> adr (plug C t) = adr (plug C t')"
proof (induction C arbitrary: t t')
  case (Cons f C)
  then show ?case by (cases f) simp
qed simp

lemma isRoot_focus:
  assumes "shape e s (plug C t)" and "t \<noteq> Lf"
  shows "isRoot (adr t) s \<longleftrightarrow> C = []"
proof (cases C)
  case Nil
  then show ?thesis using assms by (simp add: isRoot_def shape_def)
next
  case (Cons f D)
  then have "adr t \<noteq> root s"
    using adr_plug_frame [of f D t] adr_in [OF assms(2)] shape_plugD(5,8) [OF assms(1)] by auto
  then show ?thesis using Cons by (simp add: isRoot_def)
qed

fun cdir :: "('k, 'v) frame list \<Rightarrow> direction" where
  "cdir [] = ROOT"
| "cdir (Fr d a c k v s # C) = (if d then LEFT else RIGHT)"

lemma modify_deref: "deref a s = Some n \<Longrightarrow> modify a f s = Some (s\<lparr>rb_heap := (rb_heap s)(a \<mapsto> f n)\<rparr>)"
  by (simp add: modify_def)

lemma deref_upd [simp]: "deref x (s\<lparr>rb_heap := H\<rparr>) = (if x = 0 then None else H x)"
  by (simp add: deref_def)

lemma getDirection_focus:
  assumes "shape e s (plug C t)" and "t \<noteq> Lf"
  shows "getDirection (adr t) s = Some (cdir C)"
proof (cases C)
  case Nil
  then show ?thesis using isRoot_focus [OF assms] by (simp add: getDirection_def)
next
  case (Cons f D)
  obtain d a c k v u where f: "f = Fr d a c k v u" by (cases f) auto
  obtain b c' x k' v' y where t: "t = nd True b c' x k' v' y" using nd_view [OF assms(2)] by metis
  have t': "deref (adr t) s = Some (mk c' a True (adr x) (adr y) k' v')"
    using deref_focus assms(1) unfolding t Cons f by fastforce
  have p: "deref a s = Some (mk c (top (header s) D) d (adr t) (adr u) k v)"
    using deref_focus [of e s D d a c t k v u] assms(1) by (simp add: Cons f)
  have "adr t \<noteq> adr u" using shape_plugD(5) [OF assms(1)] adr_in [OF assms(2)] adr_in [of u]
      shape_plugD(1) [OF assms(1)] by (cases "u = Lf") (auto simp: Cons f t)
  then show ?thesis using isRoot_focus [OF assms] t' p by (simp add: getDirection_def Cons f)
qed

lemma tree_in_reparent:
  assumes "tree_in H q t" and "t \<noteq> Lf" and "distinct (addrs t)" and "H (adr t) = Some n"
  shows "tree_in (H(adr t \<mapsto> n\<lparr>parent := p\<rparr>)) p t"
  using assms by (cases t) auto

text \<open>A changed tree is linked to its place, as the rotations end.\<close>

lemma splice:
  assumes sh: "shape e s (plug C t)" and t: "t \<noteq> Lf" "t' \<noteq> Lf"
    and out: "\<And>x. x \<notin> set (addrs t) \<Longrightarrow> H x = rb_heap s x"
    and dom: "dom H = dom (rb_heap s) - (set (addrs t) - set (addrs t'))"
    and t': "tree_in H q t'" "set (addrs t') \<subseteq> set (addrs t)" "distinct (addrs t')"
  shows "\<exists>s2. Option.bind (replace_child (cdir C) (top (header s) C) (adr t') (s\<lparr>rb_heap := H\<rparr>))
                 (modify (adr t') (\<lambda>m. m\<lparr>parent := top (header s) C\<rparr>)) = Some s2
              \<and> shape e s2 (plug C t')"
proof -
  have b: "adr t' \<noteq> 0" "adr t' \<in> set (addrs t)" using adr_zero [OF t'(1)] t t' adr_in [of t'] by auto
  then obtain n where n: "H (adr t') = Some n" using t'(1) t(2) by (cases t') auto
  note D = shapeD [OF sh] and P = shape_plugD [OF sh]
  show ?thesis
  proof (cases C)
    case Nil
    have h: "header s \<noteq> adr t'" "H (header s) = Some ((e_node e)\<lparr>parent := adr t\<rparr>)"
      using P(6) b(2) out [OF P(6)] D(6) by (auto simp: Nil)
    define H2 where "H2 = H(header s \<mapsto> (e_node e)\<lparr>parent := adr t'\<rparr>, adr t' \<mapsto> n\<lparr>parent := header s\<rparr>)"
    have "tree_in (H(header s \<mapsto> (e_node e)\<lparr>parent := adr t'\<rparr>)) q t'" using t'(1) contra_subsetD [OF t'(2) P(6)] by simp
    from tree_in_reparent [OF this t(2) t'(3)] have "tree_in H2 (header s) t'" using n h by (simp add: H2_def)
    moreover have "dom H2 = insert (header s) (set (addrs t'))"
      using dom n h P(6) t'(2) D(10) by (auto simp: H2_def Nil)
    ultimately have "shape e (s\<lparr>root := adr t', rb_heap := H2\<rparr>) t'"
      using sh t' h by (auto simp: shape_def Nil H2_def)
    then show ?thesis using h n b D(5) by (simp add: Nil replace_child_def modify_def deref_def H2_def)
  next
    case (Cons f E)
    obtain d a c k v u where f: "f = Fr d a c k v u" by (cases f) auto
    have a: "a \<noteq> 0" "a \<notin> set (addrs t)" "a \<noteq> adr t'" "a \<noteq> header s"
        "H a = Some (mk c (top (header s) E) d (adr t) (adr u) k v)"
      using P b out by (auto simp: Cons f)
    define H2 where "H2 = H(a \<mapsto> mk c (top (header s) E) d (adr t') (adr u) k v, adr t' \<mapsto> n\<lparr>parent := a\<rparr>)"
    have "tree_in (H(a \<mapsto> mk c (top (header s) E) d (adr t') (adr u) k v)) q t'" using t'(1) contra_subsetD [OF t'(2) a(2)] by simp
    from tree_in_reparent [OF this t(2) t'(3)] have tr: "tree_in H2 a t'" using n a by (simp add: H2_def)
    have eq: "H2 x = rb_heap s x" if "x \<notin> insert a (set (addrs t))" for x
      using that b(2) out [of x] by (auto simp: H2_def)
    have eq': "H2 x = rb_heap s x" if "x \<in> set (addrs u) \<union> set (ctx_addrs E)" for x
      by (rule eq) (use that P(4,5) in \<open>auto simp: Cons f\<close>)
    have "tree_in H2 a u" using P(2) tree_in_cong [of u H2 "rb_heap s"] eq' by (simp add: Cons f)
    moreover have "ctx_in H2 (header s) E a" using P(2) ctx_in_cong [of E H2 "rb_heap s"] eq' by (simp add: Cons f)
    ultimately have "tree_in H2 (header s) (plug C t')" using tr a by (simp add: tree_in_plug Cons f H2_def)
    moreover have "dom H2 = insert (header s) (set (addrs (plug C t')))"
      using dom n a P(5,6) t'(2) D(10) by (auto simp: H2_def set_addrs_plug)
    moreover have "set (addrs t') \<inter> set (ctx_addrs C) = {}" "header s \<notin> set (addrs t')" using t'(2) P(5,6) by auto
    moreover have "\<forall>x \<in> set (addrs t'). x < e_next e" using t'(2) sh by (auto simp: shape_def set_addrs_plug)
    moreover have "H2 (header s) = rb_heap s (header s)" using eq P(6) a(4) by auto
    moreover have "adr (plug C t') = adr (plug C t)"
      using adr_plug_eq [of "nd d a c t' k v u" "nd d a c t k v u" E] by (simp add: Cons f)
    ultimately have "shape e (s\<lparr>rb_heap := H2\<rparr>) (plug C t')"
      using sh t'(3) by (simp add: shape_def set_addrs_plug distinct_addrs_plug ball_Un)
    moreover have "replace_child (cdir C) (top (header s) C) (adr t') (s\<lparr>rb_heap := H\<rparr>)
        = Some (s\<lparr>rb_heap := H(a \<mapsto> mk c (top (header s) E) d (adr t') (adr u) k v)\<rparr>)"
      using a by (cases d) (simp_all add: Cons f replace_child_def modify_def)
    ultimately show ?thesis using a b n by (simp add: Cons f modify_def H2_def)
  qed
qed

section \<open>Rotations\<close>

definition agree :: "nat set \<Rightarrow> ('k, 'v) heap \<Rightarrow> ('k, 'v) heap \<Rightarrow> bool" where
  "agree X H H' \<longleftrightarrow> dom H' = dom H \<and> (\<forall>x. x \<notin> X \<longrightarrow> H' x = H x)"

lemma tree_in_agree: "agree X H H' \<Longrightarrow> tree_in H p t \<Longrightarrow> X \<inter> set (addrs t) = {} \<Longrightarrow> tree_in H' p t"
  by (subst tree_in_cong [of t H' H]) (auto simp: agree_def)

lemma ctx_in_agree: "agree X H H' \<Longrightarrow> ctx_in H h C y \<Longrightarrow> X \<inter> set (ctx_addrs C) = {} \<Longrightarrow> ctx_in H' h C y"
  by (subst ctx_in_cong [of C H' H]) (auto simp: agree_def)

lemma set_parent_tree:
  assumes "tree_in (rb_heap s) p t" and "distinct (addrs t)"
  obtains H where "set_parent (adr t) q s = Some (s\<lparr>rb_heap := H\<rparr>)" "tree_in H q t"
    "agree (set (addrs t)) (rb_heap s) H"
proof (cases t)
  case Lf
  show ?thesis by (rule that [of "rb_heap s"]) (auto simp: set_parent_def agree_def Lf)
next
  case (Nd a c l k v r)
  show ?thesis
    by (rule that [of "(rb_heap s)(a \<mapsto> mk c q True (adr l) (adr r) k v)"])
      (use assms in \<open>auto simp: set_parent_def agree_def modify_def deref_def Nd\<close>)
qed

lemma maintainRelationship_tree:
  assumes n: "rb_heap s a = Some (mk c p d (adr x) (adr y) k v)" "a \<noteq> 0"
    and x: "tree_in (rb_heap s) qx x" and y: "tree_in (rb_heap s) qy y"
    and dist: "distinct (addrs (nd d a c x k v y))"
  obtains H where "maintainRelationship a s = Some (s\<lparr>rb_heap := H\<rparr>)" "tree_in H a x" "tree_in H a y"
    "agree (set (addrs x) \<union> set (addrs y)) (rb_heap s) H"
proof -
  define l r where "l = (if d then x else y)" and "r = (if d then y else x)"
  have n': "rb_heap s a = Some (mk c p True (adr l) (adr r) k v)"
    using n by (cases d) (simp_all add: l_def r_def mk_swap)
  obtain p' q' where l: "tree_in (rb_heap s) p' l" and r: "tree_in (rb_heap s) q' r"
    using x y by (cases d) (auto simp: l_def r_def)
  have dl: "distinct (addrs l)" "distinct (addrs r)" "a \<notin> set (addrs l)" "a \<notin> set (addrs r)"
      "set (addrs l) \<inter> set (addrs r) = {}"
    using dist by (cases d; auto simp: l_def r_def)+
  obtain H1 where H1: "set_parent (adr l) a s = Some (s\<lparr>rb_heap := H1\<rparr>)" "tree_in H1 a l"
      "agree (set (addrs l)) (rb_heap s) H1"
    using set_parent_tree [OF l dl(1)] .
  have "tree_in H1 q' r" using tree_in_agree [OF H1(3) r] dl(5) by simp
  then obtain H2 where H2: "set_parent (adr r) a (s\<lparr>rb_heap := H1\<rparr>) = Some (s\<lparr>rb_heap := H2\<rparr>)"
      "tree_in H2 a r" "agree (set (addrs r)) H1 H2"
    using set_parent_tree [of "s\<lparr>rb_heap := H1\<rparr>" q' r a] dl(2) by auto
  have "tree_in H2 a l" using tree_in_agree [OF H2(3) H1(2)] dl(5) by auto
  moreover have "agree (set (addrs x) \<union> set (addrs y)) (rb_heap s) H2"
    using H1(3) H2(3) by (cases d) (auto simp: agree_def l_def r_def)
  moreover have "H1 a = rb_heap s a" using H1(3) dl by (simp add: agree_def)
  then have "maintainRelationship a s = Some (s\<lparr>rb_heap := H2\<rparr>)"
    using n' n(2) H1(1) H2(1) by (simp add: maintainRelationship_def deref_def)
  ultimately show ?thesis using that H2(2) by (cases d) (auto simp: l_def r_def)
qed

text \<open>Both rotations at once: \<open>rotate True\<close> is \<open>rotateLeft\<close>, \<open>rotate False\<close> is \<open>rotateRight\<close>.\<close>

definition rotate :: "bool \<Rightarrow> nat \<Rightarrow> ('k, 'v, ('k, 'v) rb_map) rb_op" where
  "rotate d a s = (if d then rotateLeft a s else rotateRight a s)"

lemma rotate_steps:
  assumes n: "deref a s = Some (mk c p d x b k v)" and m: "deref b s = Some (mk c' a d y z k' v')"
    and ab: "a \<noteq> b" and dir: "getDirection a s = Some D"
    and s1: "maintainRelationship a (s\<lparr>rb_heap := (rb_heap s)(a \<mapsto> mk c p d x y k v, b \<mapsto> mk c' a d a z k' v')\<rparr>) = Some s1"
    and s2: "maintainRelationship b s1 = Some s2"
  shows "rotate d a s = Option.bind (replace_child D p b s2) (modify b (\<lambda>m. m\<lparr>parent := p\<rparr>))"
proof -
  have nz: "a \<noteq> 0" "b \<noteq> 0" "rb_heap s a = Some (mk c p d x b k v)" "rb_heap s b = Some (mk c' a d y z k' v')"
    using n m by (auto simp: deref_def split: if_splits)
  show ?thesis
    using nz dir s1 s2 ab by (cases d) (simp_all add: rotate_def rotateLeft_def rotateRight_def Let_def deref_def modify_def [abs_def])
qed

lemma rotate_shape:
  assumes sh: "shape e s (plug C (nd d a c x k v (nd d b c' y k' v' z)))"
  obtains s' where "rotate d a s = Some s'" "shape e s' (plug C (nd d b c' (nd d a c x k v y) k' v' z))"
proof -
  let ?t = "nd d a c x k v (nd d b c' y k' v' z)" and ?t' = "nd d b c' (nd d a c x k v y) k' v' z"
  let ?p = "top (header s) C" and ?H = "rb_heap s"
  let ?H1 = "?H(a \<mapsto> mk c ?p d (adr x) (adr y) k v, b \<mapsto> mk c' a d a (adr z) k' v')"
  note P = shape_plugD [OF sh]
  have T: "a \<noteq> 0" "b \<noteq> 0" "?H a = Some (mk c ?p d (adr x) b k v)" "?H b = Some (mk c' a d (adr y) (adr z) k' v')"
      "tree_in ?H a x" "tree_in ?H b y" "tree_in ?H b z"
    using P(1) by auto
  have dist: "distinct (addrs (nd d a c x k v y))" "distinct (addrs ?t')" "a \<noteq> b"
      "b \<notin> set (addrs x)" "b \<notin> set (addrs y)" "b \<notin> set (addrs z)" "a \<notin> set (addrs z)"
      "set (addrs z) \<inter> (set (addrs x) \<union> set (addrs y)) = {}"
    using P(3) by auto
  have "tree_in ?H1 a x" "tree_in ?H1 b y" "?H1 a = Some (mk c ?p d (adr x) (adr y) k v)"
    using T dist by auto
  then obtain H2 where H2: "maintainRelationship a (s\<lparr>rb_heap := ?H1\<rparr>) = Some (s\<lparr>rb_heap := H2\<rparr>)"
      "tree_in H2 a x" "tree_in H2 a y" "agree (set (addrs x) \<union> set (addrs y)) ?H1 H2"
    using maintainRelationship_tree [of "s\<lparr>rb_heap := ?H1\<rparr>" a c ?p d x y k v a b] T(1) dist(1) by force
  have "H2 a = ?H1 a" "H2 b = ?H1 b" using H2(4) dist by (auto simp: agree_def)
  moreover have "tree_in H2 b z"
    by (rule tree_in_agree [OF H2(4)]) (use T dist in auto)
  ultimately have "tree_in H2 ?p (nd d a c x k v y)" "H2 b = Some (mk c' a d a (adr z) k' v')" "tree_in H2 b z"
    using H2(2,3) T(1) dist(3) by auto
  then obtain H3 where H3: "maintainRelationship b (s\<lparr>rb_heap := H2\<rparr>) = Some (s\<lparr>rb_heap := H3\<rparr>)"
      "tree_in H3 b (nd d a c x k v y)" "tree_in H3 b z" "agree (set (addrs (nd d a c x k v y)) \<union> set (addrs z)) H2 H3"
    using maintainRelationship_tree [of "s\<lparr>rb_heap := H2\<rparr>" b c' a d "nd d a c x k v y" z k' v' ?p b] T(2) dist(2) by force
  have "H3 b = H2 b" using H3(4) dist by (auto simp: agree_def)
  then have t': "tree_in H3 a ?t'" using H3(2,3) T(2) \<open>H2 b = Some _\<close> by simp
  have "dom H3 = dom ?H - (set (addrs ?t) - set (addrs ?t'))" using H2(4) H3(4) T by (auto simp: agree_def)
  moreover have "H3 q = ?H q" if "q \<notin> set (addrs ?t)" for q
    using that H2(4) H3(4) by (auto simp: agree_def)
  ultimately obtain s' where s': "Option.bind (replace_child (cdir C) ?p b (s\<lparr>rb_heap := H3\<rparr>))
        (modify b (\<lambda>m. m\<lparr>parent := ?p\<rparr>)) = Some s'" "shape e s' (plug C ?t')"
    using splice [OF sh _ _ _ _ t' _ dist(2)] by auto
  have "rotate d a s = Some s'"
    using rotate_steps [OF _ _ dist(3) _ H2(1) H3(1)] getDirection_focus [OF sh] T s'(1) by (simp add: deref_def)
  then show ?thesis using that s'(2) by blast
qed

section \<open>Reading and painting at a place\<close>

lemma node_shape:
  assumes "shape e s (plug C (nd d a c x k v y))"
  shows "shape e (s\<lparr>rb_heap := (rb_heap s)(a \<mapsto> mk c' (top (header s) C) d (adr x) (adr y) k v')\<rparr>)
           (plug C (nd d a c' x k v' y))"
proof -
  note P = shape_plugD [OF assms]
  let ?H = "(rb_heap s)(a \<mapsto> mk c' (top (header s) C) d (adr x) (adr y) k v')"
  have a: "a \<notin> set (ctx_addrs C)" "a \<noteq> header s" using P(5,6) by auto
  have "ctx_in ?H (header s) C a" using P(2) a by simp
  moreover have "tree_in ?H (top (header s) C) (nd d a c' x k v' y)" using P(1,3) by auto
  ultimately have "tree_in ?H (header s) (plug C (nd d a c' x k v' y))" by (simp add: tree_in_plug)
  moreover have "a \<in> dom (rb_heap s)" using P(1) by auto
  ultimately show ?thesis
    using assms a adr_plug_eq [of "nd d a c' x k v' y" "nd d a c x k v y" C]
    by (auto simp: shape_def set_addrs_plug distinct_addrs_plug)
qed

lemma paint_shape:
  assumes "shape e s (plug C t)" and "t \<noteq> Lf"
  obtains s' where "paint (adr t) c s = Some s'" "shape e s' (plug C (repaint c t))"
proof -
  obtain d a c' x k v y where t: "t = nd d a c' x k v y" using nd_view [OF assms(2)] by metis
  note sh = assms(1) [unfolded t]
  have "paint a c s = Some (s\<lparr>rb_heap := (rb_heap s)(a \<mapsto> mk c (top (header s) C) d (adr x) (adr y) k v)\<rparr>)"
    by (simp add: paint_def modify_deref [OF deref_focus [OF sh]])
  then show ?thesis using that node_shape [OF sh, of c v] by (simp add: t)
qed

lemma parent_focus:
  assumes "shape e s (plug C t)" and "t \<noteq> Lf"
  obtains n where "deref (adr t) s = Some n" "parent n = top (header s) C" "color n = col t"
proof -
  obtain d a c' x k v y where t: "t = nd d a c' x k v y" using nd_view [OF assms(2)] by metis
  show ?thesis using that deref_focus [OF assms(1) [unfolded t]] by (simp add: t)
qed

lemma deref_frame:
  assumes "shape e s (plug (Fr d a c k v u # C) t)"
  shows "deref a s = Some (mk c (top (header s) C) d (adr t) (adr u) k v)"
  using deref_focus [of e s C d a c t k v u] assms by simp

lemma getSibling_focus:
  assumes "shape e s (plug (Fr d a c k v u # C) t)" and "t \<noteq> Lf"
  shows "getSibling (adr t) s = Some (adr u)"
proof -
  obtain n where "deref (adr t) s = Some n" "parent n = a"
    by (rule parent_focus [OF assms]) simp
  then show ?thesis using getDirection_focus [OF assms] deref_frame [OF assms(1)]
    by (cases d) (simp_all add: getSibling_def)
qed

lemma hasSibling_focus:
  assumes "shape e s (plug (Fr d a c k v u # C) t)" and "t \<noteq> Lf"
  shows "hasSibling (adr t) s = Some (u \<noteq> Lf)"
proof -
  have "tree_in (rb_heap s) a u" using shape_plugD(2) [OF assms(1)] by simp
  then show ?thesis using isRoot_focus [OF assms] getSibling_focus [OF assms] adr_zero by (auto simp: hasSibling_def)
qed

lemma is_red_tree:
  assumes "shape e s (plug C t)" and "t \<noteq> Lf"
  shows "is_red (adr t) s = Some (col t = RED)"
  by (rule parent_focus [OF assms]) (simp add: is_red_def)

section \<open>Replacing a subtree\<close>

text \<open>\<open>replace_child\<close> does not see the part \<open>X\<close> of the heap below the place.\<close>

lemma replace_child_frame:
  assumes "replace_child D q b s = Some s1" and "q \<notin> X" "header s \<notin> X"
    and "\<And>x. x \<notin> X \<Longrightarrow> H x = rb_heap s x"
  shows "replace_child D q b (s\<lparr>rb_heap := H\<rparr>) = Some (s1\<lparr>rb_heap := (\<lambda>x. if x \<in> X then H x else rb_heap s1 x)\<rparr>)"
proof -
  have upd: "H(y \<mapsto> n) = (\<lambda>x. if x \<in> X then H x else ((rb_heap s)(y \<mapsto> n)) x)" if "y \<notin> X" for y n
    using that assms(4) by (auto simp: fun_eq_iff)
  show ?thesis
    using assms upd by (cases D) (auto simp: replace_child_def modify_def deref_def intro!: rb_map.equality
        split: bind_splits if_splits cong: if_cong)
qed

lemma replace_child_dom: "replace_child D q b s = Some s1 \<Longrightarrow> dom (rb_heap s1) = dom (rb_heap s)"
  by (cases D) (auto simp: replace_child_def modify_def deref_def split: bind_splits if_splits)

lemma replace_child_place:
  assumes sh: "shape e s (plug C t)"
  obtains s1 where "replace_child (cdir C) (top (header s) C) b s = Some s1" "header s1 = header s" "cnt s1 = cnt s"
    "rb_next s1 = rb_next s" "\<And>x. x \<in> set (addrs t) \<Longrightarrow> rb_heap s1 x = rb_heap s x"
    "C = [] \<Longrightarrow> root s1 = b" "C \<noteq> [] \<Longrightarrow> root s1 = root s"
proof (cases C)
  case Nil
  show ?thesis
    by (rule that [of "s\<lparr>rb_heap := (rb_heap s)(header s \<mapsto> (e_node e)\<lparr>parent := b\<rparr>), root := b\<rparr>"])
      (use shapeD [OF sh] Nil in \<open>auto simp: replace_child_def modify_def deref_def\<close>)
next
  case (Cons f E)
  obtain d a c k v u where f: "f = Fr d a c k v u" by (cases f) auto
  have a: "a \<noteq> 0" "a \<notin> set (addrs t)" "rb_heap s a = Some (mk c (top (header s) E) d (adr t) (adr u) k v)"
    using shape_plugD(2,5) [OF sh] by (auto simp: Cons f)
  show ?thesis
    by (rule that [of "s\<lparr>rb_heap := (rb_heap s)(a \<mapsto> mk c (top (header s) E) d b (adr u) k v)\<rparr>"])
      (use a in \<open>cases d; auto simp: Cons f replace_child_def modify_def deref_def\<close>)+
qed

text \<open>After the slot is replaced, any change below the place that makes the new tree is enough.\<close>

lemma relink:
  assumes sh: "shape e s (plug C t)" and t: "t \<noteq> Lf" "t' \<noteq> Lf"
    and s1: "replace_child (cdir C) (top (header s) C) (adr t') s = Some s1"
    and out: "\<And>x. x \<notin> set (addrs t) \<Longrightarrow> H x = rb_heap s1 x"
    and dom: "dom H = dom (rb_heap s) - (set (addrs t) - set (addrs t'))"
    and t': "tree_in H (top (header s) C) t'" "set (addrs t') \<subseteq> set (addrs t)" "distinct (addrs t')"
  shows "shape e (s1\<lparr>rb_heap := H\<rparr>) (plug C t')"
proof -
  define H0 where "H0 = (\<lambda>x. if x \<in> set (addrs t) then H x else rb_heap s x)"
  have q: "top (header s) C \<notin> set (addrs t)" "header s \<notin> set (addrs t)"
    using shape_plugD(5,6) [OF sh] by (cases C; cases "hd C"; auto)+
  have "dom H0 = dom (rb_heap s) - (set (addrs t) - set (addrs t'))"
  proof (rule set_eqI)
    fix x
    show "x \<in> dom H0 \<longleftrightarrow> x \<in> dom (rb_heap s) - (set (addrs t) - set (addrs t'))"
      using dom t'(2) by (cases "x \<in> set (addrs t)") (auto simp: H0_def)
  qed
  moreover have tr: "tree_in H0 (top (header s) C) t'"
    by (subst tree_in_cong [of t' H0 H]) (use t'(1,2) in \<open>auto simp: H0_def\<close>)
  ultimately obtain s2 where s2: "Option.bind (replace_child (cdir C) (top (header s) C) (adr t') (s\<lparr>rb_heap := H0\<rparr>))
        (modify (adr t') (\<lambda>m. m\<lparr>parent := top (header s) C\<rparr>)) = Some s2" "shape e s2 (plug C t')"
    using splice [OF sh t _ _ tr t'(2,3)] by (auto simp: H0_def)
  have "(\<lambda>x. if x \<in> set (addrs t) then H0 x else rb_heap s1 x) = H" using out by (auto simp: H0_def)
  then have "replace_child (cdir C) (top (header s) C) (adr t') (s\<lparr>rb_heap := H0\<rparr>) = Some (s1\<lparr>rb_heap := H\<rparr>)"
    using replace_child_frame [OF s1 q, of H0] by (simp add: H0_def)
  moreover obtain a c l k v r where n: "t' = Nd a c l k v r" using t(2) by (cases t') auto
  then have "modify (adr t') (\<lambda>m. m\<lparr>parent := top (header s) C\<rparr>) (s1\<lparr>rb_heap := H\<rparr>) = Some (s1\<lparr>rb_heap := H\<rparr>)"
    using t'(1) by (simp add: modify_def fun_upd_idem)
  ultimately show ?thesis using s2 by simp
qed

end
