(* ===== verification/Rb_Insert.thy ===== *)
theory Rb_Insert
  imports Rb_Heap
begin

text \<open>
  Insertion into \<open>RBTreeMap\<close>: the repair after an insertion runs to its end and makes \<open>ins_fix\<close> of
  the tree, and an insertion gives the tree whose entries are those before it and the new one.
\<close>

section \<open>The repair\<close>

lemma getGrandParent_focus:
  assumes "shape e s (plug (Fr d a c k v u # C) t)" and "t \<noteq> Lf"
  shows "getGrandParent (adr t) s = Some (top (header s) C)"
proof -
  obtain n where "deref (adr t) s = Some n" "parent n = a" by (rule parent_focus [OF assms]) simp
  then show ?thesis using deref_frame [OF assms(1)] by (simp add: getGrandParent_def)
qed

lemma getDirection_frame:
  "shape e s (plug (Fr d a c k v u # C) t) \<Longrightarrow> getDirection a s = Some (cdir C)"
  using getDirection_focus [of e s C "nd d a c t k v u"] by simp

lemma rotate_grandparent_shape:
  assumes sh: "shape e s (plug (Fr d p cp k v w # Fr d g cg k' v' u # C) t)" and t: "t \<noteq> Lf"
  obtains s' where "rotate_grandparent (adr t) s = Some s'"
    "shape e s' (plug C (nd d p BLACK t k v (nd d g RED w k' v' u)))"
proof -
  obtain n where n: "deref (adr t) s = Some n" "parent n = p" by (rule parent_focus [OF sh t]) simp
  have dp: "getDirection p s = Some (if d then LEFT else RIGHT)" using getDirection_frame [OF sh] by simp
  have g: "getGrandParent (adr t) s = Some g" using getGrandParent_focus [OF sh t] by simp
  obtain s1 where s1: "rotate (\<not> d) g s = Some s1" "shape e s1 (plug C (nd d p cp t k v (nd d g cg w k' v' u)))"
    using rotate_shape [of e s C "\<not> d" g cg u k' v' p cp w k v t] sh by auto
  have sh1: "shape e s1 (plug (Fr d p cp k v (nd d g cg w k' v' u) # C) t)" using s1(2) by simp
  obtain n1 where n1: "deref (adr t) s1 = Some n1" "parent n1 = p" by (rule parent_focus [OF sh1 t]) simp
  obtain s2 where s2: "paint p BLACK s1 = Some s2" "shape e s2 (plug C (nd d p BLACK t k v (nd d g cg w k' v' u)))"
    using paint_shape [OF s1(2), of BLACK] by auto
  have b: "getSibling (adr t) s2 = Some g" using getSibling_focus [of e s2 d p BLACK k v _ C t] s2(2) t by simp
  obtain s3 where s3: "paint g RED s2 = Some s3" "shape e s3 (plug C (nd d p BLACK t k v (nd d g RED w k' v' u)))"
    using paint_shape [of e s2 "Fr (\<not> d) p BLACK k v t # C" "nd d g cg w k' v' u" RED] s2(2) by auto
  have "rotate_grandparent (adr t) s = Some s3"
    using n dp g s1(1) n1 s2(1) b s3(1) by (cases d) (simp_all add: rotate_grandparent_def rotate_def)
  then show ?thesis using that s3(2) by blast
qed

lemma turn_outwards_shape:
  assumes sh: "shape e s (plug (Fr (\<not> d) p cp k v w # Fr d g cg k' v' u # C) (nd d a c x ka va y))"
  obtains s' where "turn_outwards a s = Some (p, s')"
    "shape e s' (plug (Fr d a c ka va y # Fr d g cg k' v' u # C) (nd d p cp w k v x))"
proof -
  obtain n where n: "deref a s = Some n" "parent n = p" using parent_focus [OF sh] by auto
  have dp: "getDirection p s = Some (if d then LEFT else RIGHT)" using getDirection_frame [OF sh] by simp
  have da: "getDirection a s = Some (if d then RIGHT else LEFT)" using getDirection_focus [OF sh] by simp
  obtain s1 where "rotate d p s = Some s1" "shape e s1 (plug (Fr d g cg k' v' u # C) (nd d a c (nd d p cp w k v x) ka va y))"
    using rotate_shape [of e s "Fr d g cg k' v' u # C" d p cp w k v a c x ka va y] sh by auto
  then show ?thesis using that n dp da by (cases d) (simp_all add: turn_outwards_def rotate_def)
qed

lemma insert_rotations_shape:
  assumes sh: "shape e s (plug (Fr d p RED k v w # Fr d' g cg k' v' u # C) t)" and t: "t \<noteq> Lf" "col t = RED"
    and u: "col u = BLACK"
  obtains s' where "insert_rotations (adr t) s = Some s'"
    "shape e s' (ins_fix (Fr d p RED k v w # Fr d' g cg k' v' u # C) t)"
proof (cases "d = d'")
  case True
  obtain n where n: "deref (adr t) s = Some n" "parent n = p" by (rule parent_focus [OF sh t(1)]) simp
  have "turn_outwards (adr t) s = Some (adr t, s)"
    using n getDirection_frame [OF sh] getDirection_focus [OF sh t(1)] True by (simp add: turn_outwards_def)
  moreover obtain s' where "rotate_grandparent (adr t) s = Some s'"
      "shape e s' (plug C (nd d p BLACK t k v (nd d g RED w k' v' u)))"
    using rotate_grandparent_shape [of e s d p RED k v w g cg k' v' u C t] sh t(1) True by auto
  ultimately show ?thesis using that u True by (simp add: insert_rotations_def)
next
  case False
  then have d: "d = (\<not> d')" by simp
  obtain a c x ka va y where tt: "t = nd d' a c x ka va y" using nd_view [OF t(1)] by metis
  obtain s1 where s1: "turn_outwards a s = Some (p, s1)"
      "shape e s1 (plug (Fr d' a c ka va y # Fr d' g cg k' v' u # C) (nd d' p RED w k v x))"
    using turn_outwards_shape [of e s d' p RED k v w g cg k' v' u C a c x ka va y] sh d tt by auto
  obtain s2 where "rotate_grandparent p s1 = Some s2"
      "shape e s2 (plug C (nd d' a BLACK (nd d' p RED w k v x) ka va (nd d' g RED y k' v' u)))"
    using rotate_grandparent_shape [OF s1(2)] by auto
  then show ?thesis using that u s1(1) False tt by (simp add: insert_rotations_def)
qed

lemma maintainAfterInsert_shape:
  "shape e s (plug C t) \<Longrightarrow> col t = RED \<Longrightarrow> \<exists>s'. maintainAfterInsert (adr t) s = Some s' \<and> shape e s' (ins_fix C t)"
proof (induction C t arbitrary: s rule: ins_fix.induct)
  case (1 t)
  have t: "t \<noteq> Lf" using 1(2) by auto
  obtain s' where "paint (adr t) BLACK s = Some s'" "shape e s' (repaint BLACK t)"
    using paint_shape [OF 1(1) t, of BLACK] by auto
  then show ?case using isRoot_focus [OF 1(1) t] is_red_tree [OF 1(1) t] 1(2)
    by (subst maintainAfterInsert.simps) simp
next
  case (2 d p c k v w t)
  have t: "t \<noteq> Lf" using 2(2) by auto
  obtain n where n: "deref (adr t) s = Some n" "parent n = p" by (rule parent_focus [OF 2(1) t]) simp
  have sh: "shape e s (plug [] (nd d p c t k v w))" using 2(1) by simp
  obtain s' where "paint p BLACK s = Some s'" "shape e s' (nd d p BLACK t k v w)"
    using paint_shape [OF sh, of BLACK] by auto
  then show ?case using isRoot_focus [OF 2(1) t] isRoot_focus [OF sh] n deref_frame [OF 2(1)] sh
    by (subst maintainAfterInsert.simps) (cases c; simp)
next
  case (3 d p c k v w d' g c' k' v' u C t)
  have t: "t \<noteq> Lf" using "3.prems"(2) by auto
  note sh = "3.prems"(1)
  obtain n where n: "deref (adr t) s = Some n" "parent n = p" by (rule parent_focus [OF sh t]) simp
  have sp: "shape e s (plug (Fr d' g c' k' v' u # C) (nd d p c t k v w))" using sh by simp
  have pr: "\<not> isRoot (adr t) s" "\<not> isRoot p s" using isRoot_focus [OF sh t] isRoot_focus [OF sp] by simp_all
  note p = deref_frame [OF sh]
  have hu: "hasUncle (adr t) s = Some (u \<noteq> Lf)" using hasSibling_focus [OF sp] n pr by (simp add: hasUncle_def)
  have gu: "getUncle (adr t) s = Some (adr u)" using getSibling_focus [OF sp] n by (simp add: getUncle_def)
  have su: "shape e s (plug (Fr (\<not> d') g c' k' v' (nd d p c t k v w) # C) u)" using sp by simp
  show ?case
  proof (cases c)
    case BLACK
    then show ?thesis using sh pr n p by (subst maintainAfterInsert.simps) simp
  next
    case RED
    show ?thesis
    proof (cases "col u")
      case BLACK
      obtain s' where "insert_rotations (adr t) s = Some s'"
          "shape e s' (ins_fix (Fr d p RED k v w # Fr d' g c' k' v' u # C) t)"
        using insert_rotations_shape [of e s d p k v w d' g c' k' v' u C t] sh t "3.prems"(2) BLACK RED by auto
      moreover have "u \<noteq> Lf \<Longrightarrow> is_red (adr u) s = Some False" using is_red_tree [OF su] BLACK by simp
      ultimately show ?thesis using pr n p hu gu RED by (subst maintainAfterInsert.simps) auto
    next
      case red: RED
      then have u: "u \<noteq> Lf" by auto
      obtain s1 where s1: "paint p BLACK s = Some s1" "shape e s1 (plug (Fr d' g c' k' v' u # C) (nd d p BLACK t k v w))"
        using paint_shape [OF sp, of BLACK] by auto
      obtain s2 where s2: "paint (adr u) BLACK s1 = Some s2"
          "shape e s2 (plug (Fr (\<not> d') g c' k' v' (nd d p BLACK t k v w) # C) (repaint BLACK u))"
        using paint_shape [of e s1 "Fr (\<not> d') g c' k' v' (nd d p BLACK t k v w) # C" u BLACK] s1(2) u by auto
      have "shape e s2 (plug (Fr d p BLACK k v w # Fr d' g c' k' v' (repaint BLACK u) # C) t)" using s2(2) by simp
      from getGrandParent_focus [OF this t] have g: "getGrandParent (adr t) s2 = Some g" by simp
      let ?t = "nd d' g RED (nd d p BLACK t k v w) k' v' (repaint BLACK u)"
      have "shape e s2 (plug C (nd d' g c' (nd d p BLACK t k v w) k' v' (repaint BLACK u)))" using s2(2) by simp
      from paint_shape [OF this, of RED] obtain s3 where s3: "paint g RED s2 = Some s3" "shape e s3 (plug C ?t)" by auto
      obtain s' where "maintainAfterInsert g s3 = Some s'" "shape e s' (ins_fix C ?t)"
        using "3.IH" [OF _ _ s3(2)] RED red by auto
      moreover have "is_red (adr u) s = Some True" using is_red_tree [OF su u] red by simp
      ultimately show ?thesis using pr n p hu gu u RED red s1(1) s2(1) g s3(1)
        by (subst maintainAfterInsert.simps) simp
    qed
  qed
qed

section \<open>Maps that hold a balanced tree in order\<close>

abbreviation keys_of :: "(nat \<times> 'k \<times> 'v) list \<Rightarrow> 'k list" where
  "keys_of es \<equiv> map (fst \<circ> snd) es"

text \<open>The header knows the first and the last node of the address list \<open>xs\<close>.\<close>

definition ends :: "('k, 'v) rb_env \<Rightarrow> nat list \<Rightarrow> bool" where
  "ends e xs \<longleftrightarrow> left_child (e_node e) = hd (xs @ [e_header e]) \<and> right_child (e_node e) = last (e_header e # xs)"

definition holds :: "('k::linorder, 'v) rb_env \<Rightarrow> ('k, 'v) rb_map \<Rightarrow> ('k, 'v) ptree \<Rightarrow> bool" where
  "holds e s t \<longleftrightarrow> shape e s t \<and> ends e (addrs t) \<and> color (e_node e) = RED \<and> e_cnt e = length (entries t)
     \<and> balanced t \<and> sorted_wrt (<) (keys_of (entries t))"

definition represents :: "('k::linorder, 'v) rb_map \<Rightarrow> ('k, 'v) ptree \<Rightarrow> bool" where
  "represents s t \<longleftrightarrow> (\<exists>e. holds e s t)"

section \<open>A new leaf\<close>

lemma header_shape:
  assumes "shape e s t"
  shows "shape (e\<lparr>e_node := n\<rparr>) (s\<lparr>rb_heap := (rb_heap s)(header s \<mapsto> n\<lparr>parent := adr t\<rparr>)\<rparr>) t"
  using assms by (auto simp: shape_def)

lemma new_leaf_shape:
  assumes sh: "shape e s (plug (Fr d p c k' v' u # C) Lf)" and a: "a = rb_next s"
  shows "shape (e\<lparr>e_next := a + 1\<rparr>)
     (s\<lparr>rb_next := a + 1,
        rb_heap := (rb_heap s)(p \<mapsto> mk c (top (header s) C) d a (adr u) k' v', a \<mapsto> mk RED p True 0 0 k v)\<rparr>)
     (plug (Fr d p c k' v' u # C) (Nd a RED Lf k v Lf))"
proof -
  note P = shape_plugD [OF sh]
  have fresh: "a \<noteq> header s" "a \<noteq> p" "a \<notin> set (addrs u)" "a \<notin> set (ctx_addrs C)" "a \<noteq> 0"
    using sh a by (auto simp: shape_def set_addrs_plug)
  have p: "p \<noteq> header s" "p \<notin> set (addrs u)" "p \<notin> set (ctx_addrs C)" "p \<noteq> 0" "set (addrs u) \<inter> set (ctx_addrs C) = {}"
      "distinct (addrs u)" "distinct (ctx_addrs C)" "p \<in> dom (rb_heap s)"
    using P(2,4,7) by auto
  define H where "H = (rb_heap s)(p \<mapsto> mk c (top (header s) C) d a (adr u) k' v', a \<mapsto> mk RED p True 0 0 k v)"
  have "tree_in H (header s) (plug (Fr d p c k' v' u # C) (Nd a RED Lf k v Lf))"
    using P(2) fresh p by (simp add: tree_in_plug H_def)
  moreover have "adr (plug (Fr d p c k' v' u # C) (Nd a RED Lf k v Lf)) = root s"
    using P(8) adr_plug_eq [of "nd d p c (Nd a RED Lf k v Lf) k' v' u" "nd d p c Lf k' v' u" C] by simp
  moreover have "dom H = insert (header s) (set (addrs (plug (Fr d p c k' v' u # C) (Nd a RED Lf k v Lf))))"
    using p(8) shapeD(10) [OF sh] by (auto simp: H_def set_addrs_plug)
  moreover have "H (header s) = rb_heap s (header s)" using fresh p by (simp add: H_def)
  ultimately show ?thesis using sh fresh p a unfolding H_def [symmetric]
    by (auto simp: shape_def set_addrs_plug distinct_addrs_plug intro: less_SucI)
qed

text \<open>The last step of an insertion, for both sides.\<close>

definition link :: "bool \<Rightarrow> nat \<Rightarrow> 'k \<Rightarrow> 'v \<Rightarrow> ('k, 'v, nat \<times> ('k, 'v) rb_map) rb_op" where
  "link d p k v s = (if d then link_left p k v s else link_right p k v s)"

definition near :: "bool \<Rightarrow> ('k, 'v) rb_node \<Rightarrow> nat" where
  "near d n = (if d then left_child n else right_child n)"

definition set_near :: "bool \<Rightarrow> nat \<Rightarrow> ('k, 'v) rb_node \<Rightarrow> ('k, 'v) rb_node" where
  "set_near d a n = (if d then n\<lparr>left_child := a\<rparr> else n\<lparr>right_child := a\<rparr>)"

lemma set_near_parent: "set_near d a (n\<lparr>parent := q\<rparr>) = (set_near d a n)\<lparr>parent := q\<rparr>"
  by (cases d) (simp_all add: set_near_def)

lemma link_steps:
  assumes sh: "shape e s (plug (Fr d p c k' v' u # C) Lf)"
    and sh': "shape e' s' (plug (Fr d p c k' v' u # C) (Nd a RED Lf k v Lf))"
    and a: "a = rb_next s"
    and s': "s' = s\<lparr>rb_next := a + 1,
        rb_heap := (rb_heap s)(p \<mapsto> mk c (top (header s) C) d a (adr u) k' v', a \<mapsto> mk RED p True 0 0 k v)\<rparr>"
    and m: "maintainAfterInsert a (if near d (e_node e) = p
              then s'\<lparr>rb_heap := (rb_heap s')(header s \<mapsto> set_near d a ((e_node e)\<lparr>parent := root s\<rparr>))\<rparr> else s') = Some s2"
  shows "link d p k v s = Some (a, s2\<lparr>cnt := cnt s2 + 1\<rparr>)"
proof -
  have p: "rb_heap s p = Some (mk c (top (header s) C) d 0 (adr u) k' v')" "p \<noteq> 0" "p \<noteq> a" "a \<noteq> 0"
    using shape_plugD(2) [OF sh] shape_plugD(1,5) [OF sh'] by auto
  have h: "rb_heap s (header s) = Some ((e_node e)\<lparr>parent := root s\<rparr>)" "header s \<noteq> 0" "header s \<noteq> p" "header s \<noteq> a"
    using shapeD(2,6) [OF sh] shapeD(5) [OF sh] shape_plugD(6,7) [OF sh'] s' by auto
  have n: "\<lparr>color = RED, parent = p, left_child = 0, right_child = 0, first = k, second = v\<rparr> = mk RED p True 0 0 k v" for p
    by (simp add: mk_def)
  show ?thesis using m p h
    by (cases d) (auto simp: link_def link_left_def link_right_def new_node_def Let_def modify_def deref_def n
        near_def set_near_def s' a [symmetric] fun_upd_twist split: if_splits)
qed

lemma hd_is_middle: "distinct (xs @ p # ys) \<Longrightarrow> hd (xs @ p # zs) = p \<longleftrightarrow> xs = []"
  by (cases xs) auto

lemma last_is_middle: "distinct (xs @ p # ys) \<Longrightarrow> last (h # xs @ p # ys) = p \<longleftrightarrow> ys = []"
  by (cases ys rule: rev_cases) auto

lemma ends_link:
  assumes "ends e (map fst (pre (Fr d p c k' v' u # C) @ post (Fr d p c k' v' u # C)))"
    and "distinct (map fst (pre (Fr d p c k' v' u # C) @ post (Fr d p c k' v' u # C)))"
  shows "ends (e\<lparr>e_next := n, e_node := (if near d (e_node e) = p then set_near d a (e_node e) else e_node e), e_cnt := m\<rparr>)
           (map fst (pre (Fr d p c k' v' u # C)) @ a # map fst (post (Fr d p c k' v' u # C)))"
proof (cases d)
  case True
  let ?xs = "map fst (pre C)" and ?ys = "addrs u @ map fst (post C)"
  have "left_child (e_node e) = p \<longleftrightarrow> ?xs = []"
    using assms True hd_is_middle [of ?xs p ?ys "?ys @ [e_header e]"] by (simp add: ends_def addrs_entries)
  then show ?thesis using assms(1) True by (cases "pre C") (auto simp: ends_def near_def set_near_def)
next
  case False
  let ?xs = "map fst (pre C) @ addrs u" and ?ys = "map fst (post C)"
  have "right_child (e_node e) = p \<longleftrightarrow> ?ys = []"
    using assms False last_is_middle [of ?xs p ?ys "e_header e"] by (simp add: ends_def addrs_entries)
  moreover have "hd (?xs @ p # a # ?ys @ [e_header e]) = hd (?xs @ p # ?ys @ [e_header e])"
    by (cases ?xs) auto
  ultimately show ?thesis using assms(1) False
    by (cases "post C" rule: rev_cases) (auto simp: ends_def near_def set_near_def addrs_entries)
qed

lemma link_holds:
  assumes h: "holds e s (plug (Fr d p c k' v' u # C) Lf)"
    and srt: "sorted_wrt (<) (keys_of (pre (Fr d p c k' v' u # C) @ (rb_next s, k, v) # post (Fr d p c k' v' u # C)))"
  shows "\<exists>e' s' t. link d p k v s = Some (rb_next s, s') \<and> holds e' s' t
           \<and> entries t = pre (Fr d p c k' v' u # C) @ (rb_next s, k, v) # post (Fr d p c k' v' u # C)"
proof -
  let ?C = "Fr d p c k' v' u # C"
  define a where "a = rb_next s"
  have sh: "shape e s (plug ?C Lf)" and bal: "fits ?C Lf" using h by (auto simp: holds_def balanced_plug [symmetric])
  define s1 where "s1 = s\<lparr>rb_next := a + 1, rb_heap := (rb_heap s)(p \<mapsto> mk c (top (header s) C) d a (adr u) k' v', a \<mapsto> mk RED p True 0 0 k v)\<rparr>"
  have sh1: "shape (e\<lparr>e_next := a + 1\<rparr>) s1 (plug ?C (Nd a RED Lf k v Lf))"
    unfolding s1_def by (rule new_leaf_shape [OF sh a_def])
  define n where "n = (if near d (e_node e) = p then set_near d a (e_node e) else e_node e)"
  define s2 where "s2 = (if near d (e_node e) = p
      then s1\<lparr>rb_heap := (rb_heap s1)(header s \<mapsto> set_near d a ((e_node e)\<lparr>parent := root s\<rparr>))\<rparr> else s1)"
  have "adr (plug ?C (Nd a RED Lf k v Lf)) = root s" "header s1 = header s"
    using shapeD(2) [OF sh1] by (simp_all add: s1_def)
  then have sh2: "shape (e\<lparr>e_next := a + 1, e_node := n\<rparr>) s2 (plug ?C (Nd a RED Lf k v Lf))"
    using header_shape [OF sh1, of n] sh1 by (auto simp: s2_def n_def set_near_parent)
  obtain s3 where s3: "maintainAfterInsert a s2 = Some s3"
      "shape (e\<lparr>e_next := a + 1, e_node := n\<rparr>) s3 (ins_fix ?C (Nd a RED Lf k v Lf))"
    using maintainAfterInsert_shape [OF sh2] by auto
  have "link d p k v s = Some (a, s3\<lparr>cnt := cnt s3 + 1\<rparr>)"
    by (rule link_steps [OF sh sh1 a_def s1_def]) (use s3(1) in \<open>simp add: s2_def\<close>)
  moreover define T where "T = ins_fix ?C (Nd a RED Lf k v Lf)"
  have T: "entries T = pre ?C @ (a, k, v) # post ?C" using entries_ins_fix [of "Nd a RED Lf k v Lf" ?C] by (simp add: T_def)
  let ?e = "e\<lparr>e_next := a + 1, e_node := n, e_cnt := e_cnt e + 1\<rparr>"
  have "shape ?e (s3\<lparr>cnt := cnt s3 + 1\<rparr>) T" using s3(2) unfolding T_def [symmetric] by (simp add: shape_def)
  moreover have "addrs (plug ?C Lf) = map fst (pre ?C @ post ?C)"
    by (simp only: addrs_entries entries_plug entries.simps append_Nil)
  then have "ends e (map fst (pre ?C @ post ?C))" "distinct (map fst (pre ?C @ post ?C))"
    using h shapeD(9) [OF sh] by (simp_all only: holds_def)
  from ends_link [OF this, where n = "a + 1" and a = a and m = "e_cnt e + 1"] have "ends ?e (addrs T)"
    unfolding n_def by (simp only: addrs_entries T list.map map_append fst_conv)
  moreover obtain m where "rbc m ?C" "rbt m (Lf :: ('a, 'b) ptree)" using bal by (auto simp: fits_def)
  then have "balanced T" unfolding T_def by (intro balanced_ins_fix [of _ m]) auto
  ultimately have "holds ?e (s3\<lparr>cnt := cnt s3 + 1\<rparr>) T"
    using h srt by (auto simp: holds_def T a_def n_def set_near_def entries_plug)
  then show ?thesis using T \<open>link d p k v s = _\<close> unfolding a_def by blast
qed

section \<open>The descent\<close>

text \<open>
  What an insertion makes of the entries: a present key keeps its node and gets the value (or
  keeps its own when \<open>r\<close> is false), a new one gets the node \<open>a\<close> at its place.
\<close>

fun put :: "bool \<Rightarrow> nat \<Rightarrow> 'k::linorder \<Rightarrow> 'v \<Rightarrow> (nat \<times> 'k \<times> 'v) list \<Rightarrow> (nat \<times> 'k \<times> 'v) list" where
  "put r a k v [] = [(a, k, v)]"
| "put r a k v ((b, k', v') # es) =
     (if k = k' then (b, k', if r then v else v') # es
      else if k < k' then (a, k, v) # (b, k', v') # es
      else (b, k', v') # put r a k v es)"

lemma put_skip: "\<forall>x \<in> set (keys_of es). x < k \<Longrightarrow> put r a k v (es @ fs) = es @ put r a k v fs"
  by (induction es) auto

lemma put_below: "\<forall>x \<in> set (keys_of es). k < x \<Longrightarrow> put r a k v es = (a, k, v) # es"
  by (cases es) auto

lemma put_middle:
  assumes "sorted_wrt (<) (keys_of (es @ (b, k, w) # fs))"
  shows "put r a k v (es @ (b, k, w) # fs) = es @ (b, k, if r then v else w) # fs"
  using assms by (subst put_skip) (auto simp: sorted_wrt_append)

lemma put_between:
  assumes "\<forall>x \<in> set (keys_of es). x < k" and "\<forall>x \<in> set (keys_of fs). k < x"
  shows "put r a k v (es @ fs) = es @ (a, k, v) # fs"
  using put_skip [OF assms(1)] put_below [OF assms(2)] by simp

lemma sorted_between:
  assumes "sorted_wrt (<) (keys_of (es @ fs))" "\<forall>x \<in> set (keys_of es). x < k" "\<forall>x \<in> set (keys_of fs). k < x"
  shows "sorted_wrt (<) (keys_of (es @ (a, k, v) # fs))"
  using assms by (auto simp: sorted_wrt_append)

text \<open>The place reached for \<open>k\<close>: everything before it is smaller, everything after it larger.\<close>

definition splits :: "('k::linorder, 'v) frame list \<Rightarrow> 'k \<Rightarrow> bool" where
  "splits C k \<longleftrightarrow> (\<forall>x \<in> set (keys_of (pre C)). x < k) \<and> (\<forall>x \<in> set (keys_of (post C)). k < x)"

lemma splits_left:
  assumes "sorted_wrt (<) (keys_of (entries (plug C (Nd a c l k' v r))))" "splits C k" "k < k'"
  shows "splits (Fr True a c k' v r # C) k"
  using assms by (auto simp: splits_def entries_plug sorted_wrt_append ball_Un intro: less_trans [OF assms(3)])

lemma splits_right:
  assumes "sorted_wrt (<) (keys_of (entries (plug C (Nd a c l k' v r))))" "splits C k" "k' < k"
  shows "splits (Fr False a c k' v l # C) k"
  using assms by (auto simp: splits_def entries_plug sorted_wrt_append ball_Un intro: less_trans [OF _ assms(3)])

lemma link_put:
  assumes h: "holds e s (plug (Fr d p c k' v' u # C) Lf)" and k: "splits (Fr d p c k' v' u # C) k"
  shows "\<exists>s' t. link d p k v s = Some (rb_next s, s') \<and> represents s' t
           \<and> entries t = put r (rb_next s) k v (entries (plug (Fr d p c k' v' u # C) Lf))
           \<and> (rb_next s, k, v) \<in> set (entries t)"
proof -
  have e: "entries (plug (Fr d p c k' v' u # C) Lf) = pre (Fr d p c k' v' u # C) @ post (Fr d p c k' v' u # C)"
    by (simp only: entries_plug entries.simps append_Nil)
  have s: "sorted_wrt (<) (keys_of (pre (Fr d p c k' v' u # C) @ post (Fr d p c k' v' u # C)))"
    using h unfolding holds_def e by blast
  have le: "\<forall>x \<in> set (keys_of (pre (Fr d p c k' v' u # C))). x < k" "\<forall>x \<in> set (keys_of (post (Fr d p c k' v' u # C))). k < x"
    using k unfolding splits_def by blast+
  show ?thesis using link_holds [OF h sorted_between [OF s le], of v] put_between [OF le, of r "rb_next s" v]
    unfolding e represents_def by (metis in_set_conv_decomp)
qed

lemma balanced_value: "balanced (plug C (Nd a c l k v r)) \<longleftrightarrow> balanced (plug C (Nd a c l k w r))"
  by (cases c) (simp_all add: balanced_plug fits_def)

lemma set_value_holds:
  assumes h: "holds e s (plug C (Nd a c l k w r))"
  shows "\<exists>s'. modify a (\<lambda>n. n\<lparr>second := v\<rparr>) s = Some s' \<and> holds e s' (plug C (Nd a c l k v r))"
proof -
  have sh: "shape e s (plug C (nd True a c l k w r))" using h by (simp add: holds_def)
  have "holds e (s\<lparr>rb_heap := (rb_heap s)(a \<mapsto> mk c (top (header s) C) True (adr l) (adr r) k v)\<rparr>) (plug C (Nd a c l k v r))"
    using h node_shape [OF sh, of c v] balanced_value [of C a c l k w r v]
    by (simp add: holds_def entries_plug addrs_entries)
  then show ?thesis using modify_deref [OF deref_focus [OF sh]] by auto
qed

lemma holds_deref:
  "holds e s (plug C (Nd a c l k v r)) \<Longrightarrow> deref a s = Some (mk c (top (header s) C) True (adr l) (adr r) k v)
     \<and> (adr l = 0 \<longleftrightarrow> l = Lf) \<and> (adr r = 0 \<longleftrightarrow> r = Lf)"
  using deref_focus [of e s C True a c l k v r] shape_plugD(1) [of e s C "Nd a c l k v r"]
  by (auto simp: holds_def adr_zero)

lemma holds_sorted: "holds e s t \<Longrightarrow> sorted_wrt (<) (keys_of (entries t))"
  by (simp add: holds_def)

lemma put_found:
  assumes "holds e s (plug C (Nd a c l k w r))"
  shows "put b a' k v (entries (plug C (Nd a c l k w r))) = entries (plug C (Nd a c l k (if b then v else w) r))"
  using put_middle [of "pre C @ entries l" a k w "entries r @ post C" b a' v] holds_sorted [OF assms]
  by (simp add: entries_plug)

lemma insert_node_put:
  "holds e s (plug C t) \<Longrightarrow> t \<noteq> Lf \<Longrightarrow> splits C k \<Longrightarrow>
     \<exists>s' T. insert_node (adr t) k v r s = Some s' \<and> represents s' T
       \<and> entries T = put r (rb_next s) k v (entries (plug C t))"
proof (induction t arbitrary: C)
  case (Nd a c x k' w y)
  note h = Nd.prems(1) and n = holds_deref [OF Nd.prems(1)]
  consider "k = k'" | "k < k'" | "k' < k" by fastforce
  then show ?case
  proof cases
    case 1
    then show ?thesis using set_value_holds [of e s C a c x k w y v] h n put_found [of e s C a c x k w y r]
      by (subst insert_node.simps) (auto simp: represents_def)
  next
    case 2
    let ?C = "Fr True a c k' w y # C"
    have k: "splits ?C k" by (rule splits_left [OF holds_sorted [OF h] Nd.prems(3) 2])
    show ?thesis
    proof (cases "x = Lf")
      case True
      then show ?thesis using link_put [of e s True a c k' w y C k v r] h n k 2
        by (subst insert_node.simps) (auto simp: link_def)
    next
      case False
      then show ?thesis using Nd.IH(1) [of ?C] h n k 2 by (subst insert_node.simps) auto
    qed
  next
    case 3
    let ?C = "Fr False a c k' w x # C"
    have k: "splits ?C k" by (rule splits_right [OF holds_sorted [OF h] Nd.prems(3) 3])
    show ?thesis
    proof (cases "y = Lf")
      case True
      then show ?thesis using link_put [of e s False a c k' w x C k v r] h n k 3
        by (subst insert_node.simps) (auto simp: link_def)
    next
      case False
      then show ?thesis using Nd.IH(2) [of ?C] h n k 3 by (subst insert_node.simps) auto
    qed
  qed
qed simp

text \<open>\<open>getNodeOrProvide\<close> makes the same descent and gives the node of the key.\<close>

lemma getNodeOrProvide_put:
  "holds e s (plug C t) \<Longrightarrow> t \<noteq> Lf \<Longrightarrow> splits C k \<Longrightarrow>
     \<exists>b s' T w. getNodeOrProvide (adr t) k v s = Some (b, s') \<and> represents s' T
       \<and> entries T = put False (rb_next s) k v (entries (plug C t)) \<and> (b, k, w) \<in> set (entries T)"
proof (induction t arbitrary: C)
  case (Nd a c x k' w y)
  note h = Nd.prems(1) and n = holds_deref [OF Nd.prems(1)]
  consider "k = k'" | "k < k'" | "k' < k" by fastforce
  then show ?case
  proof cases
    case 1
    then have "getNodeOrProvide a k v s = Some (a, s)" using n by (subst getNodeOrProvide.simps) simp
    moreover have "entries (plug C (Nd a c x k' w y)) = put False (rb_next s) k v (entries (plug C (Nd a c x k' w y)))"
      using put_found [of e s C a c x k w y False] h 1 by simp
    moreover have "(a, k, w) \<in> set (entries (plug C (Nd a c x k' w y)))" using 1 by (simp add: entries_plug)
    ultimately show ?thesis using h by (auto simp: represents_def)
  next
    case 2
    let ?C = "Fr True a c k' w y # C"
    have k: "splits ?C k" by (rule splits_left [OF holds_sorted [OF h] Nd.prems(3) 2])
    show ?thesis
    proof (cases "x = Lf")
      case True
      then show ?thesis using link_put [of e s True a c k' w y C k v False] h n k 2
        by (subst getNodeOrProvide.simps) (fastforce simp: link_def)
    next
      case False
      then show ?thesis using Nd.IH(1) [of ?C] h n k 2 by (subst getNodeOrProvide.simps) auto
    qed
  next
    case 3
    let ?C = "Fr False a c k' w x # C"
    have k: "splits ?C k" by (rule splits_right [OF holds_sorted [OF h] Nd.prems(3) 3])
    show ?thesis
    proof (cases "y = Lf")
      case True
      then show ?thesis using link_put [of e s False a c k' w x C k v False] h n k 3
        by (subst getNodeOrProvide.simps) (fastforce simp: link_def)
    next
      case False
      then show ?thesis using Nd.IH(2) [of ?C] h n k 3 by (subst getNodeOrProvide.simps) auto
    qed
  qed
qed simp

lemma insert_root_holds:
  assumes h: "holds e s Lf"
  shows "\<exists>s'. insert_root k v s = Some (rb_next s, s') \<and> represents s' (Nd (rb_next s) BLACK Lf k v Lf)"
proof -
  have sh: "shape e s Lf" using h by (simp add: holds_def)
  define a where "a = rb_next s"
  have a: "a \<noteq> 0" "header s < a" "header s \<noteq> a" "header s \<noteq> 0" "rb_heap s (header s) = Some ((e_node e)\<lparr>parent := 0\<rparr>)"
      "dom (rb_heap s) = {header s}" "e_next e = a" "e_header e = header s" "cnt s = e_cnt e" "e_cnt e = 0"
    using h by (auto simp: holds_def shape_def a_def)
  define n where "n = (e_node e)\<lparr>left_child := a, right_child := a\<rparr>"
  have np: "n\<lparr>parent := a\<rparr> = (e_node e)\<lparr>parent := a, left_child := a, right_child := a\<rparr>"
    by (cases "e_node e") (simp add: n_def)
  define s' where "s' = s\<lparr>rb_next := a + 1, root := a,
      rb_heap := (rb_heap s)(a \<mapsto> mk BLACK (header s) True 0 0 k v, header s \<mapsto> n\<lparr>parent := a\<rparr>), cnt := cnt s + 1\<rparr>"
  have mk: "\<lparr>color = c, parent = q, left_child = 0, right_child = 0, first = k, second = v\<rparr> = mk c q True 0 0 k v" for c q
    by (simp add: mk_def)
  have "insert_root k v s = Some (a, s')"
    using a by (simp add: insert_root_def new_node_def Let_def modify_def deref_def mk a_def [symmetric] s'_def np)
  moreover have "shape (e\<lparr>e_next := a + 1, e_node := n, e_cnt := 1\<rparr>) s' (Nd a BLACK Lf k v Lf)"
    using a by (auto simp: shape_def s'_def)
  then have "holds (e\<lparr>e_next := a + 1, e_node := n, e_cnt := 1\<rparr>) s' (Nd a BLACK Lf k v Lf)"
    using h by (simp add: holds_def ends_def n_def balanced_def)
  ultimately show ?thesis unfolding represents_def a_def by blast
qed

section \<open>Insertion as a whole\<close>

lemma rb_new_represents: "represents (rb_new k v) Lf"
proof -
  let ?n = "\<lparr>color = RED, parent = 0, left_child = 1, right_child = 1, first = k, second = v\<rparr>"
  have "holds \<lparr>e_header = 1, e_next = 2, e_cnt = 0, e_node = ?n\<rparr> (rb_new k v) Lf"
    by (simp add: holds_def shape_def rb_new_def ends_def balanced_def)
  then show ?thesis by (auto simp: represents_def)
qed

lemma represents_root:
  assumes "represents s t"
  shows "root s = adr t" and "root s = 0 \<longleftrightarrow> t = Lf"
proof -
  obtain e where "shape e s t" using assms by (auto simp: represents_def holds_def)
  from shapeD(2,7) [OF this] show "root s = adr t" "root s = 0 \<longleftrightarrow> t = Lf" using adr_zero by auto
qed

lemma splits_Nil [simp]: "splits [] k"
  by (simp add: splits_def)

lemma rb_insert_put:
  assumes "represents s t"
  shows "\<exists>s' t'. rb_insert k v s = Some s' \<and> represents s' t' \<and> entries t' = put True (rb_next s) k v (entries t)"
proof (cases "t = Lf")
  case True
  obtain s' where "insert_root k v s = Some (rb_next s, s')" "represents s' (Nd (rb_next s) BLACK Lf k v Lf)"
    using insert_root_holds assms True by (metis represents_def)
  then show ?thesis using represents_root [OF assms] True
    by (intro exI [of _ s'] exI [of _ "Nd (rb_next s) BLACK Lf k v Lf"]) (simp add: rb_insert_def)
next
  case False
  obtain e where "holds e s t" using assms by (auto simp: represents_def)
  then show ?thesis using insert_node_put [of e s "[]" t k v True] False represents_root [OF assms]
    by (simp add: rb_insert_def)
qed

lemma getOrDefault_put:
  assumes "represents s t"
  shows "\<exists>b s' t' w. getOrDefault k v s = Some (b, s') \<and> represents s' t'
           \<and> entries t' = put False (rb_next s) k v (entries t) \<and> (b, k, w) \<in> set (entries t')"
proof (cases "t = Lf")
  case True
  obtain s' where "insert_root k v s = Some (rb_next s, s')" "represents s' (Nd (rb_next s) BLACK Lf k v Lf)"
    using insert_root_holds assms True by (metis represents_def)
  then show ?thesis using represents_root [OF assms] True
    by (intro exI [of _ "rb_next s"] exI [of _ s'] exI [of _ "Nd (rb_next s) BLACK Lf k v Lf"] exI [of _ v])
      (simp add: getOrDefault_def)
next
  case False
  obtain e where "holds e s t" using assms by (auto simp: represents_def)
  then show ?thesis using getNodeOrProvide_put [of e s "[]" t k v] False represents_root [OF assms]
    by (simp add: getOrDefault_def)
qed

end
