(* ===== verification/Rb_Query.thy ===== *)
theory Rb_Query
  imports Rb_Insert
begin

text \<open>
  Reading \<open>RBTreeMap\<close>: lookups give what the entries say, iterators step to the neighbours in the
  order of the keys, the bounds stop at the right entry, and a traversal visits the entries in order.
\<close>

section \<open>Lookup\<close>

fun addr_of :: "'k \<Rightarrow> (nat \<times> 'k \<times> 'v) list \<Rightarrow> nat" where
  "addr_of k [] = 0"
| "addr_of k ((a, k', v) # es) = (if k = k' then a else addr_of k es)"

definition rb_map_of :: "(nat \<times> 'k \<times> 'v) list \<Rightarrow> 'k \<Rightarrow> 'v option" where
  "rb_map_of es = map_of (map snd es)"

lemma addr_of_append: "k \<notin> set (keys_of es) \<Longrightarrow> addr_of k (es @ fs) = addr_of k fs"
  by (induction es) auto

lemma addr_of_absent: "k \<notin> set (keys_of es) \<Longrightarrow> addr_of k es = 0"
  by (induction es) auto

lemma addr_of_left: "k \<notin> set (keys_of fs) \<Longrightarrow> addr_of k (es @ fs) = addr_of k es"
  by (induction es) (auto simp: addr_of_absent)

lemma splits_addr_of: "splits C k \<Longrightarrow> addr_of k (entries (plug C t)) = addr_of k (entries t)"
proof -
  assume "splits C k"
  then have "k \<notin> set (keys_of (pre C))" "k \<notin> set (keys_of (post C))" by (auto simp: splits_def)
  then show ?thesis by (metis entries_plug addr_of_append addr_of_left)
qed

lemma getNode_addr_of:
  "holds e s (plug C t) \<Longrightarrow> t \<noteq> Lf \<Longrightarrow> splits C k \<Longrightarrow> getNode (adr t) k s = Some (addr_of k (entries (plug C t)))"
proof (induction t arbitrary: C)
  case (Nd a c x k' w y)
  note h = Nd.prems(1) and n = holds_deref [OF Nd.prems(1)]
  consider "k = k'" | "k < k'" | "k' < k" by fastforce
  then show ?case
  proof cases
    case 1
    have "k \<notin> set (keys_of (entries x))"
      using holds_sorted [OF h] 1 by (auto simp: entries_plug sorted_wrt_append)
    then show ?thesis using n 1 splits_addr_of [OF Nd.prems(3)]
      by (subst getNode.simps) (simp add: addr_of_append)
  next
    case 2
    let ?C = "Fr True a c k' w y # C"
    have k: "splits ?C k" by (rule splits_left [OF holds_sorted [OF h] Nd.prems(3) 2])
    show ?thesis
    proof (cases "x = Lf")
      case True
      then show ?thesis using splits_addr_of [OF k, of Lf] n 2 by (subst getNode.simps) auto
    next
      case False
      then show ?thesis using Nd.IH(1) [of ?C] h n k 2 by (subst getNode.simps) auto
    qed
  next
    case 3
    let ?C = "Fr False a c k' w x # C"
    have k: "splits ?C k" by (rule splits_right [OF holds_sorted [OF h] Nd.prems(3) 3])
    show ?thesis
    proof (cases "y = Lf")
      case True
      then show ?thesis using splits_addr_of [OF k, of Lf] n 3 by (subst getNode.simps) auto
    next
      case False
      then show ?thesis using Nd.IH(2) [of ?C] h n k 3 by (subst getNode.simps) auto
    qed
  qed
qed simp

text \<open>The node of every entry is in the heap.\<close>

lemma entry_place: "x \<in> set (entries t) \<Longrightarrow> \<exists>C c l r. t = plug C (Nd (fst x) c l (fst (snd x)) (snd (snd x)) r)"
proof (induction t)
  case (Nd a c l k v r)
  then consider "x \<in> set (entries l)" | "x = (a, k, v)" | "x \<in> set (entries r)" by auto
  then show ?case
  proof cases
    case 1
    then obtain C c' l' r' where "l = plug C (Nd (fst x) c' l' (fst (snd x)) (snd (snd x)) r')" using Nd.IH(1) by blast
    then show ?thesis using plug_append [of C "[Fr True a c k v r]"] by (metis nd.simps(1) plug.simps)
  next
    case 2
    then show ?thesis by (metis fst_conv plug.simps(1) snd_conv)
  next
    case 3
    then obtain C c' l' r' where "r = plug C (Nd (fst x) c' l' (fst (snd x)) (snd (snd x)) r')" using Nd.IH(2) by blast
    then show ?thesis using plug_append [of C "[Fr False a c k v l]"] by (metis nd.simps(2) plug.simps)
  qed
qed simp

lemma entry_deref:
  assumes "holds e s t" and "(a, k, v) \<in> set (entries t)"
  shows "\<exists>n. deref a s = Some n \<and> first n = k \<and> second n = v"
proof -
  obtain C c l r where "t = plug C (Nd a c l k v r)" using entry_place [OF assms(2)] by auto
  then show ?thesis using holds_deref assms(1) by fastforce
qed

lemma addr_of_in: "k \<in> set (keys_of es) \<Longrightarrow> (addr_of k es, k, the (rb_map_of es k)) \<in> set es"
proof (induction es)
  case (Cons x es)
  then show ?case by (cases x; cases "k = fst (snd x)") (auto simp: rb_map_of_def simp del: set_map)
qed simp

lemma rb_map_of_absent: "k \<notin> set (keys_of es) \<longleftrightarrow> rb_map_of es k = None"
  by (induction es) (auto simp: rb_map_of_def)

lemma addr_of_zero: 
  assumes "holds e s t"
  shows "addr_of k (entries t) = 0 \<longleftrightarrow> rb_map_of (entries t) k = None"
proof (cases "k \<in> set (keys_of (entries t))")
  case True
  then have "addr_of k (entries t) \<in> set (addrs t)" using addr_of_in [OF True] by (force simp: addrs_entries)
  moreover have "0 \<notin> set (addrs t)" using assms tree_in_no_zero shapeD(7) by (fastforce simp: holds_def)
  ultimately show ?thesis using True rb_map_of_absent by metis
next
  case False
  then show ?thesis using addr_of_absent rb_map_of_absent by metis
qed

lemma rb_get_represents:
  assumes "represents s t"
  shows "rb_get k s = Some (case rb_map_of (entries t) k of None \<Rightarrow> Inl No_such_mapping | Some v \<Rightarrow> Inr v)"
proof (cases "t = Lf")
  case True
  then show ?thesis using represents_root [OF assms] by (simp add: rb_get_def rb_map_of_def)
next
  case False
  obtain e where h: "holds e s t" using assms by (auto simp: represents_def)
  have g: "getNode (root s) k s = Some (addr_of k (entries t))"
    using getNode_addr_of [of e s "[]" t k] h False represents_root [OF assms] by simp
  show ?thesis
  proof (cases "rb_map_of (entries t) k")
    case None
    then show ?thesis using addr_of_zero [OF h, of k] g represents_root [OF assms] False by (simp add: rb_get_def)
  next
    case (Some v)
    then have "(addr_of k (entries t), k, v) \<in> set (entries t)"
      using addr_of_in [of k "entries t"] rb_map_of_absent [of k "entries t"] by auto
    from entry_deref [OF h this] show ?thesis
      using Some addr_of_zero [OF h, of k] g represents_root [OF assms] False by (auto simp: rb_get_def)
  qed
qed

lemma rb_count_represents:
  assumes "represents s t"
  shows "rb_count k s = (if t = Lf then None else Some (if rb_map_of (entries t) k = None then 0 else 1))"
proof (cases "t = Lf")
  case True
  then show ?thesis using represents_root [OF assms] by (simp add: rb_count_def getNode.simps deref_def)
next
  case False
  obtain e where h: "holds e s t" using assms by (auto simp: represents_def)
  then show ?thesis
    using getNode_addr_of [of e s "[]" t k] addr_of_zero [OF h, of k] False represents_root [OF assms]
    by (auto simp: rb_count_def)
qed

end
