(* ===== verification/Rb_Walk.thy ===== *)
theory Rb_Walk
  imports Rb_Query
begin

text \<open>
  The walks over \<open>RBTreeMap\<close>: the steps of the iterators, the bounds, the traversal, and the release
  of all nodes by \<open>clear\<close>.
\<close>

section \<open>The ends of a subtree\<close>

lemma leftmost_tree:
  "shape e s (plug C t) \<Longrightarrow> t \<noteq> Lf \<Longrightarrow> leftmost (adr t) s = Some (hd (addrs t))"
proof (induction t arbitrary: C)
  case (Nd a c l k v r)
  have n: "deref a s = Some (mk c (top (header s) C) True (adr l) (adr r) k v)"
    using deref_focus [of e s C True a c l k v r] Nd.prems by simp
  show ?case
  proof (cases "l = Lf")
    case True
    then show ?thesis using n by (subst leftmost.simps) simp
  next
    case False
    have "adr l \<noteq> 0" using shape_plugD(1) [OF Nd.prems(1)] False by (auto simp: adr_pos)
    moreover have "leftmost (adr l) s = Some (hd (addrs l))"
      using Nd.IH(1) [of "Fr True a c k v r # C"] Nd.prems False by simp
    moreover have "addrs l \<noteq> []" using False by (cases l) auto
    ultimately show ?thesis using n by (subst leftmost.simps) simp
  qed
qed simp

lemma rightmost_tree:
  "shape e s (plug C t) \<Longrightarrow> t \<noteq> Lf \<Longrightarrow> rightmost (adr t) s = Some (last (addrs t))"
proof (induction t arbitrary: C)
  case (Nd a c l k v r)
  have n: "deref a s = Some (mk c (top (header s) C) True (adr l) (adr r) k v)"
    using deref_focus [of e s C True a c l k v r] Nd.prems by simp
  show ?case
  proof (cases "r = Lf")
    case True
    then show ?thesis using n by (subst rightmost.simps) simp
  next
    case False
    have "adr r \<noteq> 0" using shape_plugD(1) [OF Nd.prems(1)] False by (auto simp: adr_pos)
    moreover have "rightmost (adr r) s = Some (last (addrs r))"
      using Nd.IH(2) [of "Fr False a c k v l # C"] Nd.prems False by simp
    moreover have "addrs r \<noteq> []" using False by (cases r) auto
    ultimately show ?thesis using n by (subst rightmost.simps) simp
  qed
qed simp

section \<open>Climbing to the next entry\<close>

text \<open>The end of a step after the climb.\<close>

definition settle_right :: "nat \<Rightarrow> nat \<Rightarrow> ('k, 'v, nat) rb_op" where
  "settle_right a y s = do { n \<leftarrow> deref a s; Some (if right_child n \<noteq> y then y else a) }"

definition settle_left :: "nat \<Rightarrow> nat \<Rightarrow> ('k, 'v, nat) rb_op" where
  "settle_left a y s = do { n \<leftarrow> deref a s; Some (if left_child n \<noteq> y then y else a) }"

lemma node_links:
  assumes "shape e s (plug C t)" and "t \<noteq> Lf" and "x = header s \<or> x \<in> set (ctx_addrs C)"
  shows "\<exists>n. deref (adr t) s = Some n \<and> left_child n \<noteq> x \<and> right_child n \<noteq> x \<and> adr t \<noteq> x"
proof -
  obtain a c l k v r where t: "t = nd True a c l k v r" using nd_view [OF assms(2)] by metis
  note P = shape_plugD [OF assms(1)]
  have "x \<noteq> 0" using P(2) shapeD(5) [OF assms(1)] tree_in_no_zero [OF shapeD(7) [OF assms(1)]] assms(3)
    by (cases "x = 0") (auto simp: set_addrs_plug)
  moreover have "x \<notin> set (addrs t)" using P(5,6) assms(3) by auto
  ultimately have "adr l \<noteq> x" "adr r \<noteq> x" "a \<noteq> x" using adr_in [of l] adr_in [of r] by (cases "l = Lf"; cases "r = Lf"; auto simp: t)+
  then show ?thesis using deref_focus [OF assms(1) [unfolded t]] by (simp add: t)
qed

lemma climb_right_tree:
  "shape e s (plug C t) \<Longrightarrow> t \<noteq> Lf \<Longrightarrow>
     \<exists>b y. climb_right (adr t) (top (header s) C) s = Some (b, y)
       \<and> settle_right b y s = Some (hd (map fst (post C) @ [header s]))"
proof (induction C arbitrary: t)
  case Nil
  let ?h = "header s"
  obtain n where n: "deref (adr t) s = Some n" "right_child n \<noteq> ?h" "adr t \<noteq> ?h"
    using node_links [OF Nil(1,2)] by auto
  note h = deref_header [OF Nil(1)]
  show ?case
  proof (cases "right_child (e_node e) = adr t")
    case True
    have "climb_right ?h (adr t) s = Some (?h, adr t)" using n by (subst climb_right.simps) auto
    then show ?thesis using h n True by (subst climb_right.simps) (simp add: settle_right_def)
  next
    case False
    then show ?thesis using h n by (subst climb_right.simps) (auto simp: settle_right_def)
  qed
next
  case (Cons f C)
  obtain d a c k v u where f: "f = Fr d a c k v u" by (cases f) auto
  have sh: "shape e s (plug (Fr d a c k v u # C) t)" using Cons.prems(1) f by simp
  note p = deref_frame [OF sh]
  show ?case
  proof (cases d)
    case True
    obtain n where n: "deref (adr t) s = Some n" "right_child n \<noteq> a" "adr t \<noteq> a"
      using node_links [OF sh Cons.prems(2), of a] by auto
    have "adr t \<noteq> adr u" using node_links [OF sh Cons.prems(2), of "adr u"] adr_in [of u]
        shape_plugD(1) [OF sh] adr_zero Cons.prems(2) by (cases "u = Lf") force+
    then show ?thesis using n p True f by (subst climb_right.simps) (auto simp: settle_right_def)
  next
    case False
    then show ?thesis using Cons.IH [of "nd d a c t k v u"] sh p f by (subst climb_right.simps) simp
  qed
qed

lemma climb_left_tree:
  "shape e s (plug C t) \<Longrightarrow> t \<noteq> Lf \<Longrightarrow>
     \<exists>b y. climb_left (adr t) (top (header s) C) s = Some (b, y)
       \<and> settle_left b y s = Some (last (header s # map fst (pre C)))"
proof (induction C arbitrary: t)
  case Nil
  let ?h = "header s"
  obtain n where n: "deref (adr t) s = Some n" "left_child n \<noteq> ?h" "adr t \<noteq> ?h"
    using node_links [OF Nil(1,2)] by auto
  note h = deref_header [OF Nil(1)]
  show ?case
  proof (cases "left_child (e_node e) = adr t")
    case True
    have "climb_left ?h (adr t) s = Some (?h, adr t)" using n by (subst climb_left.simps) auto
    then show ?thesis using h n True by (subst climb_left.simps) (simp add: settle_left_def)
  next
    case False
    then show ?thesis using h n by (subst climb_left.simps) (auto simp: settle_left_def)
  qed
next
  case (Cons f C)
  obtain d a c k v u where f: "f = Fr d a c k v u" by (cases f) auto
  have sh: "shape e s (plug (Fr d a c k v u # C) t)" using Cons.prems(1) f by simp
  note p = deref_frame [OF sh]
  show ?case
  proof (cases d)
    case False
    obtain n where n: "deref (adr t) s = Some n" "left_child n \<noteq> a" "adr t \<noteq> a"
      using node_links [OF sh Cons.prems(2), of a] by auto
    have "adr t \<noteq> adr u" using node_links [OF sh Cons.prems(2), of "adr u"] adr_in [of u]
        shape_plugD(1) [OF sh] adr_zero Cons.prems(2) by (cases "u = Lf") force+
    then show ?thesis using n p False f by (subst climb_left.simps) (auto simp: settle_left_def)
  next
    case True
    then show ?thesis using Cons.IH [of "nd d a c t k v u"] sh p f by (subst climb_left.simps) simp
  qed
qed

section \<open>Steps of the iterators\<close>

lemma step_next_tree:
  assumes sh: "shape e s (plug C (Nd a c l k v r))"
  shows "step_next a s = Some (hd (addrs r @ map fst (post C) @ [header s]))"
proof -
  have n: "deref a s = Some (mk c (top (header s) C) True (adr l) (adr r) k v)"
    using deref_focus [of e s C True a c l k v r] sh by simp
  show ?thesis
  proof (cases "r = Lf")
    case True
    obtain b y where "climb_right a (top (header s) C) s = Some (b, y)"
        "settle_right b y s = Some (hd (map fst (post C) @ [header s]))"
      using climb_right_tree [OF sh] by auto
    then show ?thesis using n True by (simp add: step_next_def settle_right_def)
  next
    case False
    moreover have "adr r \<noteq> 0" using shape_plugD(1) [OF sh] False by (auto simp: adr_pos)
    moreover have "addrs r \<noteq> []" using False by (cases r) auto
    ultimately show ?thesis using n leftmost_tree [of e s "Fr False a c k v l # C" r] sh by (simp add: step_next_def)
  qed
qed

lemma step_prev_tree:
  assumes sh: "shape e s (plug C (Nd a c l k v r))"
  shows "step_prev a s = Some (last (header s # map fst (pre C) @ addrs l))"
proof -
  have n: "deref a s = Some (mk c (top (header s) C) True (adr l) (adr r) k v)"
    using deref_focus [of e s C True a c l k v r] sh by simp
  show ?thesis
  proof (cases "l = Lf")
    case True
    obtain b y where "climb_left a (top (header s) C) s = Some (b, y)"
        "settle_left b y s = Some (last (header s # map fst (pre C)))"
      using climb_left_tree [OF sh] by auto
    then show ?thesis using n True by (simp add: step_prev_def settle_left_def)
  next
    case False
    moreover have "adr l \<noteq> 0" using shape_plugD(1) [OF sh] False by (auto simp: adr_pos)
    moreover have "addrs l \<noteq> []" using False by (cases l) auto
    ultimately show ?thesis using n rightmost_tree [of e s "Fr True a c k v r # C" l] sh by (simp add: step_prev_def)
  qed
qed

text \<open>The same by the position of the entry in the order.\<close>

lemma place_of_entry:
  assumes sh: "shape e s t" and t: "addrs t = xs @ a # ys"
  obtains C c l k v r where "t = plug C (Nd a c l k v r)" "xs = map fst (pre C) @ addrs l" "ys = addrs r @ map fst (post C)"
proof -
  have "a \<in> set (addrs t)" using t by simp
  then obtain x where "x \<in> set (entries t)" "fst x = a" by (auto simp: addrs_entries)
  then obtain C c l k v r where p: "t = plug C (Nd a c l k v r)" using entry_place by metis
  let ?xs = "map fst (pre C) @ addrs l" and ?ys = "addrs r @ map fst (post C)"
  have eq: "xs @ a # ys = ?xs @ a # ?ys"
    using t unfolding p by (simp add: addrs_entries entries_plug)
  moreover have "distinct (xs @ a # ys)" using shapeD(9) [OF sh] t by simp
  then have "a \<notin> set xs" "a \<notin> set ys" by auto
  ultimately have "xs = ?xs" "ys = ?ys" using append_Cons_eq_iff [of a xs ys ?xs ?ys] by blast+
  then show ?thesis using that p by blast
qed

lemma step_entry:
  assumes sh: "shape e s t" and t: "addrs t = xs @ a # ys"
  shows "step_next a s = Some (hd (ys @ [header s]))" "step_prev a s = Some (last (header s # xs))"
proof -
  obtain C c l k v r where p: "t = plug C (Nd a c l k v r)" "xs = map fst (pre C) @ addrs l" "ys = addrs r @ map fst (post C)"
    by (rule place_of_entry [OF sh t])
  show "step_next a s = Some (hd (ys @ [header s]))" "step_prev a s = Some (last (header s # xs))"
    using step_next_tree [OF sh [unfolded p(1)]] step_prev_tree [OF sh [unfolded p(1)]] p by simp_all
qed

lemma holds_header:
  assumes "holds e s t"
  shows "deref (header s) s = Some ((e_node e)\<lparr>parent := adr t\<rparr>)"
    "left_child (e_node e) = hd (addrs t @ [header s])" "right_child (e_node e) = last (header s # addrs t)"
    "color (e_node e) = RED"
  using assms deref_header shapeD(1) by (fastforce simp: holds_def ends_def)+

lemma at_end_header:
  assumes h: "holds e s t" and t: "t \<noteq> Lf"
  shows "at_end (header s) s = Some True"
proof -
  have "shape e s (plug [] t)" using h by (simp add: holds_def)
  from parent_focus [OF this t] obtain n where "deref (adr t) s = Some n" "parent n = header s" by auto
  then show ?thesis using holds_header [OF h] by (simp add: at_end_def)
qed

lemma at_end_entry:
  assumes h: "holds e s (plug C t)" and t: "t \<noteq> Lf"
  shows "at_end (adr t) s = Some False"
proof -
  have sh: "shape e s (plug C t)" using h by (simp add: holds_def)
  obtain n where n: "deref (adr t) s = Some n" "parent n = top (header s) C" "color n = col t"
    by (rule parent_focus [OF sh t])
  show ?thesis
  proof (cases C)
    case Nil
    then show ?thesis using n h by (simp add: at_end_def holds_def balanced_def)
  next
    case (Cons f D)
    obtain d a c k v u where f: "f = Fr d a c k v u" by (cases f) auto
    have p: "deref a s = Some (mk c (top (header s) D) d (adr t) (adr u) k v)"
      using deref_frame [of e s d a c k v u D t] sh Cons f by simp
    have above: "top (header s) D = header s \<or> top (header s) D \<in> set (ctx_addrs C)"
      by (cases D; cases "hd D") (auto simp: Cons f)
    have "top (header s) D \<noteq> adr t" using node_links [OF sh t above] by metis
    then show ?thesis using n p by (simp add: at_end_def Cons f)
  qed
qed

section \<open>Bounds\<close>

text \<open>The first entry whose key satisfies \<open>P\<close>, or the header.\<close>

definition first_such :: "('k \<Rightarrow> bool) \<Rightarrow> (nat \<times> 'k \<times> 'v) list \<Rightarrow> nat \<Rightarrow> nat" where
  "first_such P es h = hd (map fst (filter (\<lambda>x. P (fst (snd x))) es) @ [h])"

definition cuts :: "('k \<Rightarrow> bool) \<Rightarrow> ('k, 'v) frame list \<Rightarrow> bool" where
  "cuts P C \<longleftrightarrow> (\<forall>x \<in> set (pre C). \<not> P (fst (snd x))) \<and> (\<forall>x \<in> set (post C). P (fst (snd x)))"

lemma first_such_Lf: "cuts P C \<Longrightarrow> first_such P (entries (plug C Lf)) h = hd (map fst (post C) @ [h])"
  by (simp add: first_such_def entries_plug cuts_def)

lemma first_such_here:
  assumes "cuts P C" "P k" "\<forall>x \<in> set (entries l). \<not> P (fst (snd x))"
  shows "first_such P (entries (plug C (Nd a c l k v r))) h = a"
  using assms by (simp add: first_such_def entries_plug cuts_def)

lemma climb_to_left_turn_tree:
  "shape e s (plug C t) \<Longrightarrow> t \<noteq> Lf \<Longrightarrow>
     \<exists>b n. climb_to_left_turn (adr t) s = Some b \<and> deref b s = Some n \<and> parent n = hd (map fst (post C) @ [header s])"
proof (induction C arbitrary: t)
  case Nil
  obtain n where "deref (adr t) s = Some n" "parent n = header s" using parent_focus [OF Nil(1,2)] by auto
  then show ?case using getDirection_focus [OF Nil(1,2)] by (subst climb_to_left_turn.simps) simp
next
  case (Cons f C)
  obtain d a c k v u where f: "f = Fr d a c k v u" by (cases f) auto
  have sh: "shape e s (plug (Fr d a c k v u # C) t)" using Cons.prems(1) f by simp
  obtain n where n: "deref (adr t) s = Some n" "parent n = a" by (rule parent_focus [OF sh Cons.prems(2)]) simp
  show ?case using Cons.IH [of "nd d a c t k v u"] sh n f getDirection_focus [OF sh Cons.prems(2)]
    by (subst climb_to_left_turn.simps) (cases d; simp)
qed

lemma next_above_tree:
  assumes "shape e s (plug C t)" and "t \<noteq> Lf"
  shows "next_above (adr t) s = Some (hd (map fst (post C) @ [header s]))
         \<and> next_above_checked (adr t) s = Some (hd (map fst (post C) @ [header s]))"
proof -
  have "hd (map fst (post C) @ [header s]) \<noteq> 0"
  proof (cases "post C")
    case Nil
    then show ?thesis using shapeD(5) [OF assms(1)] by simp
  next
    case (Cons x xs)
    then have "fst x \<in> set (addrs (plug C t))" by (simp add: addrs_entries entries_plug)
    then have "fst x \<noteq> 0" using tree_in_no_zero [OF shapeD(7) [OF assms(1)]] by metis
    then show ?thesis using Cons by simp
  qed
  then show ?thesis using climb_to_left_turn_tree [OF assms] by (auto simp: next_above_def next_above_checked_def)
qed

lemma not_null: "holds e s (plug C (Nd a c l k v r)) \<Longrightarrow> a \<noteq> 0"
  using shape_plugD(1) [of e s C "Nd a c l k v r"] by (simp add: holds_def)

lemma bound_left:
  assumes "sorted_wrt (<) (keys_of (entries (plug C (Nd a c l k' v r))))" and "cuts P C" and "P k'"
    and "\<And>x y. P x \<Longrightarrow> x < y \<Longrightarrow> P y"
  shows "cuts P (Fr True a c k' v r # C)"
  using assms by (auto simp: cuts_def entries_plug sorted_wrt_append ball_Un)

lemma bound_right:
  assumes "sorted_wrt (<) (keys_of (entries (plug C (Nd a c l k' v r))))" and "cuts P C" and "\<not> P k'"
    and "\<And>x y. P x \<Longrightarrow> x < y \<Longrightarrow> P y"
  shows "cuts P (Fr False a c k' v l # C)"
  using assms by (fastforce simp: cuts_def entries_plug sorted_wrt_append ball_Un)

lemma lower_bound_tree:
  "holds e s (plug C t) \<Longrightarrow> t \<noteq> Lf \<Longrightarrow> cuts (\<lambda>x. k \<le> x) C \<Longrightarrow>
     lower_bound_from (adr t) k s = Some (first_such (\<lambda>x. k \<le> x) (entries (plug C t)) (header s))"
proof (induction t arbitrary: C)
  case (Nd a c x k' w y)
  note h = Nd.prems(1) and n = holds_deref [OF Nd.prems(1)] and a = not_null [OF Nd.prems(1)]
  have sh: "shape e s (plug C (Nd a c x k' w y))" using h by (simp add: holds_def)
  consider "k = k'" | "k < k'" | "k' < k" by fastforce
  then show ?case
  proof cases
    case 1
    have "\<forall>z \<in> set (entries x). \<not> k \<le> fst (snd z)"
      using holds_sorted [OF h] 1 by (auto simp: entries_plug sorted_wrt_append not_le)
    then show ?thesis using n a 1 first_such_here [OF Nd.prems(3), of k' x a c w y] by (subst lower_bound_from.simps) simp
  next
    case 2
    let ?C = "Fr True a c k' w y # C"
    have k: "cuts (\<lambda>x. k \<le> x) ?C" by (rule bound_left [OF holds_sorted [OF h] Nd.prems(3)]) (use 2 in auto)
    show ?thesis
    proof (cases "x = Lf")
      case True
      then show ?thesis using first_such_Lf [OF k] n a 2 by (subst lower_bound_from.simps) auto
    next
      case False
      then show ?thesis using Nd.IH(1) [of ?C] h n a k 2 by (subst lower_bound_from.simps) auto
    qed
  next
    case 3
    let ?C = "Fr False a c k' w x # C"
    have k: "cuts (\<lambda>x. k \<le> x) ?C" by (rule bound_right [OF holds_sorted [OF h] Nd.prems(3)]) (use 3 in auto)
    show ?thesis
    proof (cases "y = Lf")
      case True
      then show ?thesis using first_such_Lf [OF k] next_above_tree [OF sh] n a 3
        by (subst lower_bound_from.simps) auto
    next
      case False
      then show ?thesis using Nd.IH(2) [of ?C] h n a k 3 by (subst lower_bound_from.simps) auto
    qed
  qed
qed simp

lemma upper_bound_tree:
  "holds e s (plug C t) \<Longrightarrow> t \<noteq> Lf \<Longrightarrow> cuts (\<lambda>x. k < x) C \<Longrightarrow>
     upper_bound_from (adr t) k s = Some (first_such (\<lambda>x. k < x) (entries (plug C t)) (header s))"
proof (induction t arbitrary: C)
  case (Nd a c x k' w y)
  note h = Nd.prems(1) and n = holds_deref [OF Nd.prems(1)] and a = not_null [OF Nd.prems(1)]
  have sh: "shape e s (plug C (Nd a c x k' w y))" using h by (simp add: holds_def)
  show ?case
  proof (cases "k < k'")
    case True
    let ?C = "Fr True a c k' w y # C"
    have k: "cuts (\<lambda>x. k < x) ?C" by (rule bound_left [OF holds_sorted [OF h] Nd.prems(3)]) (use True in auto)
    show ?thesis
    proof (cases "x = Lf")
      case Lf: True
      then show ?thesis using first_such_Lf [OF k] n a True by (subst upper_bound_from.simps) auto
    next
      case False
      then show ?thesis using Nd.IH(1) [of ?C] h n a k True by (subst upper_bound_from.simps) auto
    qed
  next
    case False
    let ?C = "Fr False a c k' w x # C"
    have k: "cuts (\<lambda>x. k < x) ?C" by (rule bound_right [OF holds_sorted [OF h] Nd.prems(3)]) (use False in auto)
    show ?thesis
    proof (cases "y = Lf")
      case True
      then show ?thesis using first_such_Lf [OF k] next_above_tree [OF sh] n a False
        by (subst upper_bound_from.simps) auto
    next
      case Nd: False
      then show ?thesis using Nd.IH(2) [of ?C] h n a k False by (subst upper_bound_from.simps) auto
    qed
  qed
qed simp

lemma cuts_Nil [simp]: "cuts P []"
  by (simp add: cuts_def)

lemma bounds_represents:
  assumes "represents s t"
  shows "lower_bound k s = Some (first_such (\<lambda>x. k \<le> x) (entries t) (header s))
         \<and> upper_bound k s = Some (first_such (\<lambda>x. k < x) (entries t) (header s))"
proof (cases "t = Lf")
  case True
  then show ?thesis using represents_root [OF assms] by (simp add: lower_bound_def upper_bound_def first_such_def)
next
  case False
  obtain e where "holds e s t" using assms by (auto simp: represents_def)
  then show ?thesis using lower_bound_tree [of e s "[]" t k] upper_bound_tree [of e s "[]" t k] False represents_root [OF assms]
    by (simp add: lower_bound_def upper_bound_def)
qed

section \<open>Traversal\<close>

text \<open>The stack at a place: the ancestors left to the left, innermost first.\<close>

fun stk :: "('k, 'v) frame list \<Rightarrow> nat list" where
  "stk [] = []"
| "stk (Fr d a c k v s # C) = (if d then a # stk C else stk C)"

lemma stk_empty: "stk C = [] \<longleftrightarrow> post C = []"
  by (induction C rule: stk.induct) auto

lemma push_left_tree:
  "shape e s (plug C t) \<Longrightarrow>
     \<exists>D. push_left (adr t) (stk C) s = Some (stk D) \<and> plug D Lf = plug C t \<and> post D = entries t @ post C"
proof (induction t arbitrary: C)
  case Lf
  then show ?case by (intro exI [of _ C]) (subst push_left.simps, simp)
next
  case (Nd a c l k v r)
  have n: "deref a s = Some (mk c (top (header s) C) True (adr l) (adr r) k v)" "a \<noteq> 0"
    using deref_focus [of e s C True a c l k v r] shape_plugD(1) [OF Nd.prems] Nd.prems by simp_all
  obtain D where "push_left (adr l) (stk (Fr True a c k v r # C)) s = Some (stk D)"
      "plug D Lf = plug C (Nd a c l k v r)" "post D = entries l @ post (Fr True a c k v r # C)"
    using Nd.IH(1) [of "Fr True a c k v r # C"] Nd.prems by auto
  then show ?case using n by (intro exI [of _ D]) (subst push_left.simps, simp)
qed

text \<open>The innermost ancestor on the stack: the subtree left of it is complete.\<close>

lemma pop_place:
  "stk C = b # st \<Longrightarrow> \<exists>D c l k v r. plug C t = plug D (Nd b c l k v r) \<and> stk D = st \<and> post C = (b, k, v) # entries r @ post D"
proof (induction C arbitrary: t)
  case (Cons f C)
  obtain d a c k v u where f: "f = Fr d a c k v u" by (cases f) auto
  show ?case
  proof (cases d)
    case True
    then show ?thesis using Cons.prems f by auto
  next
    case False
    then show ?thesis using Cons.IH [of "nd d a c t k v u"] Cons.prems f by simp
  qed
qed simp

lemma traverse_tree:
  "shape e s (plug C t) \<Longrightarrow>
     traverse (\<lambda>n. f (first n) (second n)) (adr t) (stk C) x s = Some (fold (\<lambda>(a, k, v). f k v) (entries t @ post C) x)"
proof (induction "length (entries t @ post C)" arbitrary: C t x rule: less_induct)
  case less
  show ?case
  proof (cases "adr t = 0 \<and> stk C = []")
    case True
    then have "t = Lf" "post C = []" using shape_plugD(1) [OF less.prems] by (auto simp: adr_zero stk_empty)
    then show ?thesis using True by (subst traverse.simps) simp
  next
    case False
    obtain D where D: "push_left (adr t) (stk C) s = Some (stk D)" "plug D Lf = plug C t" "post D = entries t @ post C"
      using push_left_tree [OF less.prems] by auto
    have ne: "\<not> (t = Lf \<and> post C = [])" using False by (auto simp: stk_empty)
    then have "post D \<noteq> []" using D(3) by (cases t) auto
    then obtain b st where st: "stk D = b # st" using stk_empty [of D] by (cases "stk D") auto
    obtain E c l k v r where E: "plug D Lf = plug E (Nd b c l k v r)" "stk E = st" "post D = (b, k, v) # entries r @ post E"
      using pop_place [OF st] by metis
    let ?F = "Fr False b c k v l # E"
    have sh: "shape e s (plug ?F r)" using less.prems D(2) E(1) by simp
    have n: "deref b s = Some (mk c (top (header s) E) True (adr l) (adr r) k v)"
      using deref_focus [of e s E True b c l k v r] sh by simp
    have rest: "entries t @ post C = (b, k, v) # entries r @ post E" using D(3) E(3) by metis
    then have "length (entries r @ post ?F) < length (entries t @ post C)" by simp
    from less.hyps [OF this sh, of "f k v x"]
    have "traverse (\<lambda>n. f (first n) (second n)) (adr r) (stk ?F) (f k v x) s
        = Some (fold (\<lambda>(a, k, v). f k v) (entries t @ post C) x)" by (simp add: rest del: fold_append)
    then show ?thesis using False D(1) st n E(2) by (subst traverse.simps) auto
  qed
qed

lemma forEach_represents:
  assumes "represents s t"
  shows "forEach f x s = Some (fold (\<lambda>(a, k, v). f k v) (entries t) x)"
proof -
  obtain e where "shape e s (plug [] t)" using assms by (auto simp: represents_def holds_def)
  then show ?thesis using traverse_tree [of e s "[]" t f x] represents_root [OF assms]
    by (auto simp: forEach_def inorderTraversal_def)
qed

text \<open>The same walk when it writes the values.\<close>

definition rewritten :: "('k \<Rightarrow> 'v \<Rightarrow> 'v) \<Rightarrow> (nat \<times> 'k \<times> 'v) list \<Rightarrow> (nat \<times> 'k \<times> 'v) list" where
  "rewritten f es = map (\<lambda>(a, k, v). (a, k, f k v)) es"

lemma traverse_mut_tree:
  "shape e s (plug C t) \<Longrightarrow> balanced (plug C t) \<Longrightarrow>
     \<exists>s' t'. traverse_mut f (adr t) (stk C) s = Some s' \<and> shape e s' t' \<and> balanced t'
       \<and> entries t' = pre C @ rewritten f (entries t @ post C)"
proof (induction "length (entries t @ post C)" arbitrary: C t s rule: less_induct)
  case less
  show ?case
  proof (cases "adr t = 0 \<and> stk C = []")
    case True
    then have "t = Lf" "post C = []" using shape_plugD(1) [OF less.prems(1)] by (auto simp: adr_zero stk_empty)
    then show ?thesis using True less.prems
      by (intro exI [of _ s] exI [of _ "plug C Lf"]) (subst traverse_mut.simps, simp add: entries_plug rewritten_def)
  next
    case False
    obtain D where D: "push_left (adr t) (stk C) s = Some (stk D)" "plug D Lf = plug C t" "post D = entries t @ post C"
      using push_left_tree [OF less.prems(1)] by auto
    have ne: "\<not> (t = Lf \<and> post C = [])" using False by (auto simp: stk_empty)
    then have "post D \<noteq> []" using D(3) by (cases t) auto
    then obtain b st where st: "stk D = b # st" using stk_empty [of D] by (cases "stk D") auto
    obtain E c l k v r where E: "plug D Lf = plug E (Nd b c l k v r)" "stk E = st" "post D = (b, k, v) # entries r @ post E"
      using pop_place [OF st] by metis
    have "entries (plug C t) = pre E @ entries l @ (b, k, v) # entries r @ post E"
      using arg_cong [OF E(1), of entries] D(2) by (simp add: entries_plug)
    then have preC: "pre C = pre E @ entries l"
      using D(3) E(3) by (simp add: entries_plug)
    have sE: "shape e s (plug E (nd True b c l k v r))" using less.prems(1) D(2) E(1) by simp
    let ?s = "s\<lparr>rb_heap := (rb_heap s)(b \<mapsto> mk c (top (header s) E) True (adr l) (adr r) k (f k v))\<rparr>"
    let ?F = "Fr False b c k (f k v) l # E"
    have m: "modify b (\<lambda>n. n\<lparr>second := f (first n) (second n)\<rparr>) s = Some ?s"
      using modify_deref [OF deref_focus [OF sE]] by simp
    have sh: "shape e ?s (plug ?F r)" using node_shape [OF sE, of c "f k v"] by simp
    have n: "deref b ?s = Some (mk c (top (header s) E) True (adr l) (adr r) k (f k v))"
      using shape_plugD(1) [OF sE] by simp
    have bal: "balanced (plug ?F r)"
      using less.prems(2) D(2) E(1) balanced_value [of E b c l k v r "f k v"] by simp
    have rest: "entries t @ post C = (b, k, v) # entries r @ post E" using D(3) E(3) by metis
    then have "length (entries r @ post ?F) < length (entries t @ post C)" by simp
    from less.hyps [OF this sh bal] obtain s' t' where "traverse_mut f (adr r) (stk ?F) ?s = Some s'" "shape e s' t'" "balanced t'"
        "entries t' = pre ?F @ rewritten f (entries r @ post ?F)"
      by blast
    moreover from this(4) have "entries t' = pre C @ rewritten f (entries t @ post C)"
      unfolding rest preC by (simp add: rewritten_def)
    ultimately show ?thesis using False D(1) st m n E(2) by (subst traverse_mut.simps) auto
  qed
qed

lemma forEachMut_represents:
  assumes "represents s t"
  shows "\<exists>s' t'. forEachMut f s = Some s' \<and> represents s' t' \<and> entries t' = rewritten f (entries t)"
proof (cases "t = Lf")
  case True
  then show ?thesis using represents_root [OF assms] assms by (auto simp: forEachMut_def rewritten_def)
next
  case False
  obtain e where h: "holds e s t" using assms by (auto simp: represents_def)
  then have "shape e s (plug [] t)" "balanced (plug [] t)" by (simp_all add: holds_def)
  from traverse_mut_tree [OF this, of f] obtain s' t' where w: "traverse_mut f (adr t) [] s = Some s'" "shape e s' t'" "balanced t'"
      "entries t' = rewritten f (entries t)"
    by auto
  have "map fst (entries t') = map fst (entries t)" "keys_of (entries t') = keys_of (entries t)"
    using w(4) by (auto simp: rewritten_def)
  then have "holds e s' t'" using h w(2,3) by (simp add: holds_def addrs_entries) (metis length_map)
  then show ?thesis using w(1,4) False represents_root [OF assms] by (auto simp: forEachMut_def represents_def)
qed

section \<open>Release of all nodes\<close>

text \<open>The links downwards, with any parents.\<close>

fun down :: "('k, 'v) heap \<Rightarrow> ('k, 'v) ptree \<Rightarrow> bool" where
  "down H Lf \<longleftrightarrow> True"
| "down H (Nd a c l k v r) \<longleftrightarrow>
     a \<noteq> 0 \<and> (\<exists>p. H a = Some (mk c p True (adr l) (adr r) k v)) \<and> down H l \<and> down H r"

lemma tree_in_down: "tree_in H p t \<Longrightarrow> down H t"
  by (induction t arbitrary: p) auto

lemma down_cong: "(\<And>x. x \<in> set (addrs t) \<Longrightarrow> H' x = H x) \<Longrightarrow> down H t \<Longrightarrow> down H' t"
  by (induction t) auto

lemma down_zero: "down H t \<Longrightarrow> adr t = 0 \<longleftrightarrow> t = Lf"
  by (cases t) auto

definition del :: "('k, 'v) ptree \<Rightarrow> ('k, 'v) heap \<Rightarrow> ('k, 'v) heap" where
  "del t H = (\<lambda>x. if x \<in> set (addrs t) then None else H x)"

lemma del_Lf [simp]: "del Lf H = H"
  by (simp add: del_def)

text \<open>The part of \<open>release\<close> for one child: the subtree goes.\<close>

lemma release_free:
  assumes t: "t \<noteq> Lf" "down (rb_heap s) t"
    and "\<exists>H n. release (adr t) s = Some (s\<lparr>rb_heap := H\<rparr>) \<and> H (adr t) = Some n
           \<and> (\<forall>x. x \<noteq> adr t \<longrightarrow> H x = del t (rb_heap s) x)"
  shows "Option.bind (release (adr t) s) (free (adr t)) = Some (s\<lparr>rb_heap := del t (rb_heap s)\<rparr>)"
proof -
  obtain H n where H: "release (adr t) s = Some (s\<lparr>rb_heap := H\<rparr>)" "H (adr t) = Some n"
      "\<And>x. x \<noteq> adr t \<Longrightarrow> H x = del t (rb_heap s) x"
    using assms(3) by blast
  have "H(adr t := None) = del t (rb_heap s)" using H(3) adr_in [OF t(1)] by (auto simp: del_def fun_eq_iff)
  then show ?thesis using H(1,2) down_zero [OF t(2)] t(1) by (simp add: free_def)
qed

lemma release_tree:
  "down (rb_heap s) t \<Longrightarrow> t \<noteq> Lf \<Longrightarrow> distinct (addrs t) \<Longrightarrow>
     \<exists>H n. release (adr t) s = Some (s\<lparr>rb_heap := H\<rparr>) \<and> H (adr t) = Some n
       \<and> (\<forall>x. x \<noteq> adr t \<longrightarrow> H x = del t (rb_heap s) x)"
proof (induction t arbitrary: s)
  case (Nd a c l k v r)
  obtain p where a: "a \<noteq> 0" "rb_heap s a = Some (mk c p True (adr l) (adr r) k v)" using Nd.prems(1) by auto
  have dist: "a \<notin> set (addrs l)" "a \<notin> set (addrs r)" "set (addrs l) \<inter> set (addrs r) = {}" using Nd.prems(3) by auto
  define H1 where "H1 = (rb_heap s)(a \<mapsto> mk c 0 True (adr l) (adr r) k v)"
  have dl: "down H1 l" by (rule down_cong [of l H1 "rb_heap s"]) (use Nd.prems(1) dist in \<open>auto simp: H1_def\<close>)
  define H2 where "H2 = (if l = Lf then H1 else (del l H1)(a \<mapsto> mk c 0 True 0 (adr r) k v))"
  have l: "Option.bind (release (adr l) (s\<lparr>rb_heap := H1\<rparr>)) (free (adr l)) = Some (s\<lparr>rb_heap := del l H1\<rparr>)" if "l \<noteq> Lf"
    using release_free [OF that, of "s\<lparr>rb_heap := H1\<rparr>"] Nd.IH(1) [of "s\<lparr>rb_heap := H1\<rparr>", OF _ that] dl Nd.prems(3)
    by simp
  have dr: "down H2 r"
    by (rule down_cong [of r H2 "rb_heap s"]) (use Nd.prems(1) dist in \<open>auto simp: H1_def H2_def del_def\<close>)
  have r: "Option.bind (release (adr r) (s\<lparr>rb_heap := H2\<rparr>)) (free (adr r)) = Some (s\<lparr>rb_heap := del r H2\<rparr>)" if "r \<noteq> Lf"
    using release_free [OF that, of "s\<lparr>rb_heap := H2\<rparr>"] Nd.IH(2) [of "s\<lparr>rb_heap := H2\<rparr>", OF _ that] dr Nd.prems(3)
    by simp
  have al: "adr l \<noteq> a" "adr r \<noteq> a" using adr_in [of l] adr_in [of r] dist a(1) by (cases "l = Lf"; cases "r = Lf"; auto)+
  have H2a: "H2 a = Some (mk c 0 True 0 (adr r) k v)" by (auto simp: H1_def H2_def)
  have m1: "modify a (\<lambda>n. n\<lparr>parent := 0\<rparr>) s = Some (s\<lparr>rb_heap := H1\<rparr>)"
    using a by (simp add: modify_def deref_def H1_def)
  have m2: "modify a (\<lambda>n. n\<lparr>left_child := 0\<rparr>) (s\<lparr>rb_heap := del l H1\<rparr>) = Some (s\<lparr>rb_heap := H2\<rparr>)" if "l \<noteq> Lf"
    using a that dist by (simp add: modify_def del_def H1_def H2_def)
  have H1a: "H1 a = Some (mk c 0 True (adr l) (adr r) k v)" by (simp add: H1_def)
  have "release a s = Some (s\<lparr>rb_heap := del r H2\<rparr>)"
    using a(1) al l r H1a H2a m1 m2 down_zero [OF dl] down_zero [OF dr] H2_def
    by (subst release.simps) (cases "l = Lf"; cases "r = Lf"; simp)
  moreover have "del r H2 a = Some (mk c 0 True 0 (adr r) k v)" using H2a dist by (simp add: del_def)
  moreover have "del r H2 x = del (Nd a c l k v r) (rb_heap s) x" if "x \<noteq> a" for x
    using that by (simp add: del_def H1_def H2_def)
  ultimately show ?case by (intro exI [of _ "del r H2"]) auto
qed simp

lemma rb_clear_shape:
  assumes sh: "shape e s t" and red: "color (e_node e) = RED"
  shows "\<exists>s'. rb_clear s = Some s' \<and> represents s' Lf \<and> header s' = header s \<and> dom (rb_heap s') = {header s}"
proof -
  let ?h = "header s" and ?n = "(e_node e)\<lparr>left_child := header s, right_child := header s\<rparr>"
  note D = shapeD [OF sh]
  define H1 where "H1 = (rb_heap s)(?h \<mapsto> ?n\<lparr>parent := adr t\<rparr>)"
  define s' where "s' = s\<lparr>rb_heap := [?h \<mapsto> ?n\<lparr>parent := 0\<rparr>], root := 0, cnt := 0\<rparr>"
  have m1: "modify ?h (\<lambda>n. n\<lparr>left_child := ?h, right_child := ?h\<rparr>) s = Some (s\<lparr>rb_heap := H1\<rparr>)"
    using D(5,6) by (cases "e_node e") (simp add: modify_def deref_def H1_def)
  have "holds (e\<lparr>e_node := ?n, e_cnt := 0\<rparr>) s' Lf"
    using red D sh by (auto simp: holds_def s'_def shape_def ends_def balanced_def)
  moreover have "rb_clear s = Some s'"
  proof (cases "t = Lf")
    case True
    have "H1 = [?h \<mapsto> ?n\<lparr>parent := 0\<rparr>]"
      using D(10) True by (auto simp: H1_def fun_eq_iff dom_def)
    then show ?thesis using m1 D True by (simp add: rb_clear_def s'_def)
  next
    case False
    have "down H1 t" using tree_in_down [OF D(7)] D(8) by (rule_tac down_cong) (auto simp: H1_def)
    then obtain H n where H: "release (adr t) (s\<lparr>rb_heap := H1\<rparr>) = Some (s\<lparr>rb_heap := H\<rparr>)" "H (adr t) = Some n"
        "\<And>x. x \<noteq> adr t \<Longrightarrow> H x = del t H1 x"
      using release_tree [of "s\<lparr>rb_heap := H1\<rparr>" t] False D(9) by auto
    have ne: "?h \<noteq> adr t" "adr t \<noteq> 0" using adr_in [OF False] D(7,8) False by (auto simp: adr_pos)
    have "H ?h = Some (?n\<lparr>parent := adr t\<rparr>)" using H(3) [OF ne(1)] D(8) by (simp add: del_def H1_def)
    then have m2: "modify ?h (\<lambda>n. n\<lparr>parent := 0\<rparr>) (s\<lparr>rb_heap := H\<rparr>) = Some (s\<lparr>rb_heap := H(?h \<mapsto> ?n\<lparr>parent := 0\<rparr>)\<rparr>)"
      using D(5) by (simp add: modify_def)
    have "H(?h \<mapsto> ?n\<lparr>parent := 0\<rparr>, adr t := None) = [?h \<mapsto> ?n\<lparr>parent := 0\<rparr>]"
    proof
      fix x
      show "(H(?h \<mapsto> ?n\<lparr>parent := 0\<rparr>, adr t := None)) x = [?h \<mapsto> ?n\<lparr>parent := 0\<rparr>] x"
        using H(3) [of x] D(10) ne by (cases "x \<in> dom (rb_heap s)") (auto simp: del_def H1_def)
    qed
    then have "free (adr t) (s\<lparr>rb_heap := H(?h \<mapsto> ?n\<lparr>parent := 0\<rparr>)\<rparr>) = Some (s\<lparr>rb_heap := [?h \<mapsto> ?n\<lparr>parent := 0\<rparr>]\<rparr>)"
      using H(2) ne by (simp add: free_def)
    then show ?thesis using m1 m2 H(1) D(2) ne by (simp add: rb_clear_def s'_def)
  qed
  ultimately show ?thesis by (auto simp: represents_def s'_def)
qed

lemma rb_clear_represents:
  "represents s t \<Longrightarrow>
     \<exists>s'. rb_clear s = Some s' \<and> represents s' Lf \<and> header s' = header s \<and> dom (rb_heap s') = {header s}"
  by (metis holds_def rb_clear_shape represents_def)

end
