(* ===== verification/Rb_Remove.thy ===== *)
theory Rb_Remove
  imports Rb_Walk
begin

text \<open>
  Removal from \<open>RBTreeMap\<close>: the repair before a removal makes \<open>del_fix\<close> of the context and meets none
  of its assertions, and what becomes of the removal itself: an absent key, the last key, a node
  with one child, and the leaf that is read after its \<open>delete\<close>.
\<close>

section \<open>The steps of the repair\<close>

definition side :: "bool \<Rightarrow> direction" where
  "side d = (if d then LEFT else RIGHT)"

lemma rotateSame_side: "rotateSameDirection a (side d) s = rotate d a s"
  by (simp add: rotateSameDirection_def rotate_def side_def)

lemma rotateOpposite_side: "rotateOppositeDirection a (side d) s = rotate (\<not> d) a s"
  by (simp add: rotateOppositeDirection_def rotate_def side_def)

lemma nephews_mk [simp]:
  "close_nephew (side d) (mk c p d x y k v) = x" "distant_nephew (side d) (mk c p d x y k v) = y"
  by (cases d; simp add: close_nephew_def distant_nephew_def side_def)+

lemma is_black_or_null_tree:
  assumes "shape e s (plug C t)"
  shows "is_black_or_null (adr t) s = Some (col t = BLACK)"
proof (cases "t = Lf")
  case False
  then show ?thesis using is_red_tree [OF assms False] shape_plugD(1) [OF assms]
    by (cases "col t") (auto simp: is_black_or_null_def adr_zero)
qed (simp add: is_black_or_null_def)

lemma require_True [simp]: "require True s = Some s"
  by (simp add: require_def)

lemma sibling_place: "plug (Fr d p c k v u # C) t = plug (Fr (\<not> d) p c k v t # C) u"
  by simp

lemma red_distant_shape:
  assumes sh: "shape e s (plug (Fr d p c k v (nd d b BLACK x k' v' y) # C) t)" and t: "t \<noteq> Lf"
    and x: "col x = BLACK" and y: "col y = RED"
  shows "\<exists>s'. red_distant_nephew (adr t) (side d) b s = Some s'
           \<and> shape e s' (plug (Fr d p BLACK k v x # Fr d b c k' v' (repaint BLACK y) # C) t)"
proof -
  have m: "deref b s = Some (mk BLACK p d (adr x) (adr y) k' v')"
    using deref_focus [of e s "Fr (\<not> d) p c k v t # C" d b BLACK x k' v' y] sh by simp
  have cb: "is_black_or_null (adr x) s = Some True"
    using is_black_or_null_tree [of e s "Fr d b BLACK k' v' y # Fr (\<not> d) p c k v t # C" x] sh x by simp
  have y0: "y \<noteq> Lf" using y by auto
  have dr: "is_red (adr y) s = Some True"
    using is_red_tree [of e s "Fr (\<not> d) b BLACK k' v' x # Fr (\<not> d) p c k v t # C" y] sh y y0 by simp
  obtain n where n: "deref (adr t) s = Some n" "parent n = p" by (rule parent_focus [OF sh t]) simp
  obtain s1 where s1: "rotate d p s = Some s1" "shape e s1 (plug C (nd d b BLACK (nd d p c t k v x) k' v' y))"
    using rotate_shape [of e s C d p c t k v b BLACK x k' v' y] sh by auto
  have sh1: "shape e s1 (plug (Fr d p c k v x # Fr d b BLACK k' v' y # C) t)" using s1(2) by simp
  obtain n1 where n1: "deref (adr t) s1 = Some n1" "parent n1 = p" by (rule parent_focus [OF sh1 t]) simp
  have p1: "deref p s1 = Some (mk c b d (adr t) (adr x) k v)" using deref_frame [OF sh1] by simp
  obtain s2 where s2: "paint b c s1 = Some s2" "shape e s2 (plug C (nd d b c (nd d p c t k v x) k' v' y))"
    using paint_shape [OF s1(2), of c] by auto
  obtain s3 where s3: "paint p BLACK s2 = Some s3" "shape e s3 (plug C (nd d b c (nd d p BLACK t k v x) k' v' y))"
    using paint_shape [of e s2 "Fr d b c k' v' y # C" "nd d p c t k v x" BLACK] s2(2) by auto
  obtain s4 where s4: "paint (adr y) BLACK s3 = Some s4" "shape e s4 (plug C (nd d b c (nd d p BLACK t k v x) k' v' (repaint BLACK y)))"
    using paint_shape [of e s3 "Fr (\<not> d) b c k' v' (nd d p BLACK t k v x) # C" y BLACK] s3(2) y0 by auto
  have "adr y \<noteq> 0" using dr by (cases "adr y = 0") (simp_all add: is_red_def deref_def)
  then have "red_distant_nephew (adr t) (side d) b s = Some s4"
    using m cb dr n s1(1) n1 p1 s2(1) s3(1) s4(1) by (simp add: red_distant_nephew_def rotateSame_side)
  then show ?thesis using s4(2) by simp
qed

lemma red_close_shape:
  assumes sh: "shape e s (plug (Fr d p c k v (nd d b cb (nd d x cx x1 kx vx x2) k' v' y) # C) t)" and t: "t \<noteq> Lf"
  shows "\<exists>s'. red_close_nephew (adr t) (side d) b s = Some (x, s')
           \<and> shape e s' (plug (Fr d p c k v (nd d x BLACK x1 kx vx (nd d b RED x2 k' v' y)) # C) t)"
proof -
  let ?C = "Fr (\<not> d) p c k v t # C"
  have m: "deref b s = Some (mk cb p d x (adr y) k' v')"
    using deref_focus [of e s ?C d b cb "nd d x cx x1 kx vx x2" k' v' y] sh by simp
  obtain s1 where s1: "rotate (\<not> d) b s = Some s1" "shape e s1 (plug ?C (nd d x cx x1 kx vx (nd d b cb x2 k' v' y)))"
    using rotate_shape [of e s ?C "\<not> d" b cb y k' v' x cx x2 kx vx x1] sh by auto
  obtain s2 where s2: "paint x BLACK s1 = Some s2" "shape e s2 (plug ?C (nd d x BLACK x1 kx vx (nd d b cb x2 k' v' y)))"
    using paint_shape [OF s1(2), of BLACK] by auto
  obtain s3 where s3: "paint b RED s2 = Some s3" "shape e s3 (plug ?C (nd d x BLACK x1 kx vx (nd d b RED x2 k' v' y)))"
    using paint_shape [of e s2 "Fr (\<not> d) x BLACK kx vx x1 # ?C" "nd d b cb x2 k' v' y" RED] s2(2) by auto
  have "getSibling (adr t) s3 = Some x"
    using getSibling_focus [of e s3 d p c k v "nd d x BLACK x1 kx vx (nd d b RED x2 k' v' y)" C t] s3(2) t by simp
  then show ?thesis using m s1(1) s2(1) s3 by (simp add: red_close_nephew_def rotateOpposite_side)
qed

lemma red_sibling_shape:
  assumes sh: "shape e s (plug (Fr d p BLACK k v (nd d b RED x k' v' y) # C) t)" and t: "t \<noteq> Lf"
    and x: "x \<noteq> Lf" "col x = BLACK" and y: "y \<noteq> Lf" "col y = BLACK"
  shows "\<exists>s'. red_sibling (adr t) (side d) b s = Some (adr x, s')
           \<and> shape e s' (plug (Fr d p RED k v x # Fr d b BLACK k' v' y # C) t)"
proof -
  let ?C = "Fr (\<not> d) p BLACK k v t # C"
  have m: "deref b s = Some (mk RED p d (adr x) (adr y) k' v')"
    using deref_focus [of e s ?C d b RED x k' v' y] sh by simp
  have rx: "is_red (adr x) s = Some False" using is_red_tree [of e s "Fr d b RED k' v' y # ?C" x] sh x by simp
  have ry: "is_red (adr y) s = Some False" using is_red_tree [of e s "Fr (\<not> d) b RED k' v' x # ?C" y] sh y by simp
  obtain n where n: "deref (adr t) s = Some n" "parent n = p" by (rule parent_focus [OF sh t]) simp
  have rp: "is_red p s = Some False" using deref_frame [OF sh] by (simp add: is_red_def)
  obtain s1 where s1: "rotate d p s = Some s1" "shape e s1 (plug C (nd d b RED (nd d p BLACK t k v x) k' v' y))"
    using rotate_shape [of e s C d p BLACK t k v b RED x k' v' y] sh by auto
  obtain s2 where s2: "paint b BLACK s1 = Some s2" "shape e s2 (plug C (nd d b BLACK (nd d p BLACK t k v x) k' v' y))"
    using paint_shape [OF s1(2), of BLACK] by auto
  obtain s3 where s3: "paint p RED s2 = Some s3" "shape e s3 (plug C (nd d b BLACK (nd d p RED t k v x) k' v' y))"
    using paint_shape [of e s2 "Fr d b BLACK k' v' y # C" "nd d p BLACK t k v x" RED] s2(2) by auto
  have "getSibling (adr t) s3 = Some (adr x)"
    using getSibling_focus [of e s3 d p RED k v x "Fr d b BLACK k' v' y # C" t] s3(2) t by simp
  then show ?thesis using m n rp rx ry s1(1) s2(1) s3 by (cases d) (simp_all add: red_sibling_def rotateSame_side)
qed

section \<open>The whole repair\<close>

lemma getSibling_side:
  assumes "shape e s (plug (Fr d p c k v u # C) t)" and "t \<noteq> Lf"
  shows "getDirection (adr t) s = Some (side d)"
  using getDirection_focus [OF assms] by (simp add: side_def)

text \<open>With a black sibling; \<open>s\<close> is the state after the case of a red one.\<close>

definition black_sibling :: "nat \<Rightarrow> direction \<Rightarrow> nat \<Rightarrow> ('k, 'v, ('k, 'v) rb_map) rb_op" where
  "black_sibling a d b s = do {
     m \<leftarrow> deref b s;
     cb \<leftarrow> is_black_or_null (close_nephew d m) s;
     db \<leftarrow> is_black_or_null (distant_nephew d m) s;
     s \<leftarrow> require (color m = BLACK) s;
     (if cb \<and> db then do {
        n \<leftarrow> deref a s;
        p \<leftarrow> deref (parent n) s;
        s \<leftarrow> paint b RED s;
        (if color p = RED then paint (parent n) BLACK s else maintainAfterRemove (parent n) s) }
      else do {
        (b, s) \<leftarrow> (if \<not> cb then red_close_nephew a d b s else Some (b, s));
        red_distant_nephew a d b s }) }"

lemma maintainAfterRemove_steps:
  assumes sh: "shape e s (plug (Fr d p c k v u # C) t)" and t: "t \<noteq> Lf" "col t = BLACK" and u: "u \<noteq> Lf"
  shows "maintainAfterRemove (adr t) s =
    (if col u = RED then do { (b, s) \<leftarrow> red_sibling (adr t) (side d) (adr u) s; black_sibling (adr t) (side d) b s }
     else black_sibling (adr t) (side d) (adr u) s)"
proof -
  have "isRoot (adr t) s \<longleftrightarrow> False" using isRoot_focus [OF sh t(1)] by simp
  moreover have "is_red (adr u) s = Some (col u = RED)"
    using is_red_tree [of e s "Fr (\<not> d) p c k v t # C" u] sh u by simp
  ultimately show ?thesis
    using is_red_tree [OF sh t(1)] hasSibling_focus [OF sh t(1)] getSibling_side [OF sh t(1)] getSibling_focus [OF sh t(1)] t u
    unfolding black_sibling_def by (subst maintainAfterRemove.simps) simp
qed

text \<open>The two black cases with a red parent, or with the rest of the context repaired by \<open>up\<close>.\<close>

lemma black_sibling_shape:
  assumes sh: "shape e s (plug (Fr d p c k v u # C) t)" and t: "t \<noteq> Lf" and u: "rbt (Suc n) u" "col u = BLACK"
    and up: "\<And>s t'. c = BLACK \<Longrightarrow> shape e s (plug C t') \<Longrightarrow> t' \<noteq> Lf \<Longrightarrow> col t' = BLACK \<Longrightarrow>
               \<exists>s'. maintainAfterRemove (adr t') s = Some s' \<and> shape e s' (plug up t')"
  shows "\<exists>s'. black_sibling (adr t) (side d) (adr u) s = Some s' \<and> shape e s' (plug (del_black d p c k v u C up) t)"
proof -
  obtain b x k' v' y where uu: "u = nd d b BLACK x k' v' y" using nd_view [OF rbt_Suc_Nd [OF u(1)], of d] u(2) by metis
  let ?C = "Fr (\<not> d) p c k v t # C"
  have su: "shape e s (plug ?C (nd d b BLACK x k' v' y))" using sh uu by simp
  have m: "deref b s = Some (mk BLACK p d (adr x) (adr y) k' v')" using deref_focus [OF su] by simp
  have cb: "is_black_or_null (adr x) s = Some (col x = BLACK)"
    using is_black_or_null_tree [of e s "Fr d b BLACK k' v' y # ?C" x] su by simp
  have db: "is_black_or_null (adr y) s = Some (col y = BLACK)"
    using is_black_or_null_tree [of e s "Fr (\<not> d) b BLACK k' v' x # ?C" y] su by simp
  consider "col x = RED" | "col x = BLACK" "col y = RED" | "col x = BLACK" "col y = BLACK"
    using colour.exhaust by metis
  then show ?thesis
  proof cases
    case 1
    obtain xa x1 kx vx x2 where x: "x = nd d xa RED x1 kx vx x2" using RED_view [OF 1] by metis
    obtain s1 where s1: "red_close_nephew (adr t) (side d) b s = Some (xa, s1)"
        "shape e s1 (plug (Fr d p c k v (nd d xa BLACK x1 kx vx (nd d b RED x2 k' v' y)) # C) t)"
      using red_close_shape [of e s d p c k v b BLACK xa RED x1 kx vx x2 k' v' y C t] sh t uu x by auto
    moreover have "col x1 = BLACK" using u(1) uu x by simp
    ultimately show ?thesis using red_distant_shape [OF s1(2) t] m cb db 1 x
      by (simp add: black_sibling_def uu del_black_def)
  next
    case 2
    then show ?thesis using red_distant_shape [of e s d p c k v b x k' v' y C t] sh t m cb db uu
      by (simp add: black_sibling_def del_black_def)
  next
    case 3
    obtain nt where n: "deref (adr t) s = Some nt" "parent nt = p" by (rule parent_focus [OF sh t]) simp
    have p: "deref p s = Some (mk c (top (header s) C) d (adr t) b k v)" using deref_frame [OF sh] uu by simp
    obtain s1 where s1: "paint b RED s = Some s1" "shape e s1 (plug ?C (nd d b RED x k' v' y))"
      using paint_shape [OF su, of RED] by auto
    have sp: "shape e s1 (plug C (nd d p c t k v (nd d b RED x k' v' y)))" using s1(2) by simp
    show ?thesis
    proof (cases c)
      case RED
      then show ?thesis using paint_shape [OF sp, of BLACK] 3 m cb db n p s1(1)
        by (fastforce simp: black_sibling_def uu del_black_def)
    next
      case BLACK
      then show ?thesis using up [OF _ sp] 3 m cb db n p s1(1)
        by (fastforce simp: black_sibling_def uu del_black_def)
    qed
  qed
qed

lemma maintainAfterRemove_shape:
  "shape e s (plug C t) \<Longrightarrow> t \<noteq> Lf \<Longrightarrow> col t = BLACK \<Longrightarrow> rbc (Suc n) C \<Longrightarrow>
     \<exists>s'. maintainAfterRemove (adr t) s = Some s' \<and> shape e s' (plug (del_fix C) t)"
proof (induction C arbitrary: n t s rule: del_fix.induct)
  case 1
  then show ?case using isRoot_focus [OF 1(1,2)] by (subst maintainAfterRemove.simps) simp
next
  case (2 d p c k v u C)
  note sh = "2.prems"(1) and t = "2.prems"(2,3)
  have u: "rbt (Suc n) u" using "2.prems"(4) by (cases c) auto
  note steps = maintainAfterRemove_steps [OF sh t rbt_Suc_Nd [OF u]]
  show ?case
  proof (cases "col u")
    case RED
    obtain b x k' v' y where uu: "u = nd d b RED x k' v' y" using RED_view [OF RED] by metis
    have xy: "rbt (Suc n) x" "col x = BLACK" "y \<noteq> Lf" "col y = BLACK" using u uu by auto
    have c: "c = BLACK" using "2.prems"(4) RED by (cases c) auto
    obtain s1 where s1: "red_sibling (adr t) (side d) b s = Some (adr x, s1)"
        "shape e s1 (plug (Fr d p RED k v x # Fr d b BLACK k' v' y # C) t)"
      using red_sibling_shape [of e s d p k v b x k' v' y C t] sh t rbt_Suc_Nd [OF xy(1)] xy c uu by auto
    have "\<exists>s'. black_sibling (adr t) (side d) (adr x) s1 = Some s'
            \<and> shape e s' (plug (del_black d p RED k v x (Fr d b BLACK k' v' y # C) []) t)"
      by (rule black_sibling_shape [OF s1(2) t(1) xy(1,2)]) simp
    then show ?thesis using steps s1(1) RED uu by simp
  next
    case BLACK
    have "\<exists>s'. black_sibling (adr t) (side d) (adr u) s = Some s' \<and> shape e s' (plug (del_black d p c k v u C (del_fix C)) t)"
    proof (rule black_sibling_shape [OF sh t(1) u BLACK])
      fix s t'
      assume "c = BLACK" "shape e s (plug C t')" "t' \<noteq> Lf" "col t' = BLACK"
      then show "\<exists>s'. maintainAfterRemove (adr t') s = Some s' \<and> shape e s' (plug (del_fix C) t')"
        using "2.IH" [of s t' "Suc n"] BLACK "2.prems"(4) by simp
    qed
    then show ?thesis using steps BLACK by simp
  qed
qed

section \<open>Unlinking\<close>

text \<open>A node with one red child gives its place and its color to the child.\<close>

lemma unlink_single_shape:
  assumes sh: "shape e s (plug C (nd d a BLACK x k v Lf))" and x: "col x = RED"
  shows "\<exists>s'. unlink_single a s = Some s' \<and> shape e s' (plug C (repaint BLACK x))"
proof -
  have x0: "x \<noteq> Lf" using x by auto
  obtain b x1 kx vx x2 where xx: "x = nd True b RED x1 kx vx x2" using RED_view [OF x] by metis
  let ?t = "nd d a BLACK x k v Lf" and ?q = "top (header s) C"
  note P = shape_plugD [OF sh]
  have n: "deref a s = Some (mk BLACK ?q d b 0 k v)" using deref_focus [OF sh] xx by simp
  have ab: "a \<noteq> b" "b \<noteq> 0" "a \<noteq> 0" "a \<notin> set (addrs x)" "distinct (addrs x)" "tree_in (rb_heap s) a x"
    using P(1,3) xx by auto
  have bH: "rb_heap s b = Some (mk RED a True (adr x1) (adr x2) kx vx)" using ab(6) xx by simp
  obtain s1 where s1: "replace_child (cdir C) ?q b s = Some s1" "header s1 = header s" "cnt s1 = cnt s"
      "\<And>x. x \<in> set (addrs ?t) \<Longrightarrow> rb_heap s1 x = rb_heap s x"
    using replace_child_place [OF sh, of b] by metis
  let ?H = "(rb_heap s1)(a := None, b \<mapsto> mk RED ?q True (adr x1) (adr x2) kx vx)"
  have b1: "rb_heap s1 b = Some (mk RED a True (adr x1) (adr x2) kx vx)" "rb_heap s1 a = Some (mk BLACK ?q d b 0 k v)"
    using s1(4) bH n xx by (auto simp: deref_def split: if_splits)
  have "tree_in (rb_heap s1) a x" using ab(6) s1(4) tree_in_cong [of x "rb_heap s1" "rb_heap s"] by simp
  then have "tree_in ?H ?q x" using ab xx by simp
  moreover have "dom ?H = dom (rb_heap s) - (set (addrs ?t) - set (addrs x))"
    using ab bH replace_child_dom [OF s1(1)] by auto
  ultimately have sh1: "shape e (s1\<lparr>rb_heap := ?H\<rparr>) (plug C x)"
    using relink [OF sh _ x0, of s1 ?H] s1(1) ab xx by (auto simp: subset_iff)
  obtain s2 where s2: "paint b BLACK (s1\<lparr>rb_heap := ?H\<rparr>) = Some s2" "shape e s2 (plug C (repaint BLACK x))"
    using paint_shape [OF sh1 x0, of BLACK] xx by auto
  have r: "is_red b (s1\<lparr>rb_heap := ?H\<rparr>) = Some True" using is_red_tree [OF sh1 x0] xx by simp
  have "unlink_single a s = Some s2"
    using n getDirection_focus [OF sh] s1(1) b1 ab s2(1) r
    by (cases d) (simp_all add: unlink_single_def Let_def free_def modify_def deref_def fun_upd_twist)
  then show ?thesis using s2(2) by blast
qed

text \<open>A leaf below the root is deleted and then read again.\<close>

lemma del_fix_Nil: "del_fix C = [] \<longleftrightarrow> C = []"
  by (cases C rule: del_fix.cases) (auto simp: del_black_def Let_def)

lemma unlink_leaf_undefined:
  assumes sh: "shape e s (plug C (Nd a c Lf k v Lf))" and C: "C \<noteq> []" and bal: "fits C (Nd a c Lf k v Lf)"
  shows "unlink_leaf a s = None"
proof -
  let ?t = "Nd a c Lf k v Lf"
  obtain D s1 where D: "D \<noteq> []" and s1: "(if c = BLACK then maintainAfterRemove a s else Some s) = Some s1"
      and sh1: "shape e s1 (plug D ?t)"
  proof (cases c)
    case RED
    then show ?thesis using that [OF C] sh by simp
  next
    case BLACK
    then have "rbc (Suc 0) C" using bal by (auto simp: fits_def)
    then show ?thesis using that [of "del_fix C"] maintainAfterRemove_shape [OF sh, of 0] BLACK C del_fix_Nil by auto
  qed
  obtain d p cp kp vp u E where E: "D = Fr d p cp kp vp u # E" using D by (cases D; cases "hd D") auto
  obtain n where n: "deref a s1 = Some n" "parent n = p" using parent_focus [OF sh1] E by auto
  have p: "deref p s1 = Some (mk cp (top (header s1) E) d a (adr u) kp vp)"
    using deref_frame [of e s1 d p cp kp vp u E ?t] sh1 E by simp
  have g: "getDirection a s1 = Some (side d)" using getSibling_side [of e s1 d p cp kp vp u E ?t] sh1 E by simp
  have "\<not> isRoot a s" "\<exists>n. deref a s = Some n \<and> color n = c"
    using isRoot_focus [OF sh] C parent_focus [OF sh] by auto
  moreover have "a \<noteq> 0" using n(1) by (auto simp: deref_def split: if_splits)
  ultimately show ?thesis using s1 n p g by (cases d) (auto simp: unlink_leaf_def free_def side_def)
qed

section \<open>Changing places with the successor\<close>

lemma top_append: "top h (C @ D) = top (top h D) C"
  by (cases C; cases "hd C") auto

lemma pre_Nil_append: "pre (D @ E) = [] \<longleftrightarrow> pre D = [] \<and> pre E = []"
  by (induction D rule: pre.induct) auto

lemma successor_spine:
  "shape e s (plug C r) \<Longrightarrow> r \<noteq> Lf \<Longrightarrow>
     \<exists>D b cb k v rr. r = plug D (Nd b cb Lf k v rr) \<and> pre D = [] \<and> successor_below y (adr r) s = Some (top y D, b)"
proof (induction r arbitrary: C y)
  case (Nd a c l k v r)
  have n: "deref a s = Some (mk c (top (header s) C) True (adr l) (adr r) k v)"
    using deref_focus [of e s C True a c l k v r] Nd.prems by simp
  show ?case
  proof (cases "l = Lf")
    case True
    then show ?thesis using n
      by (intro exI [of _ "[]"]) (subst successor_below.simps, simp)
  next
    case False
    have "adr l \<noteq> 0" using shape_plugD(1) [OF Nd.prems(1)] False by (auto simp: adr_pos)
    moreover obtain D b cb k' v' rr where D: "l = plug D (Nd b cb Lf k' v' rr)" "pre D = []"
        "successor_below a (adr l) s = Some (top a D, b)"
      using Nd.IH(1) [of "Fr True a c k v r # C" a] Nd.prems False by auto
    ultimately show ?thesis using n
      by (intro exI [of _ "D @ [Fr True a c k v r]"] exI [of _ b] exI [of _ cb] exI [of _ k'] exI [of _ v'] exI [of _ rr])
        (subst successor_below.simps, simp add: plug_append pre_Nil_append top_append)
  qed
qed simp

lemma maintainRelationship_same:
  assumes "rb_heap s a = Some (mk c p d (adr x) (adr y) k v)" "a \<noteq> 0" "tree_in (rb_heap s) a x" "tree_in (rb_heap s) a y"
  shows "maintainRelationship a s = Some s"
proof -
  have "set_parent (adr t) a s = Some s" if "tree_in (rb_heap s) a t" for t
    using that by (cases t) (auto simp: set_parent_def modify_def deref_def fun_upd_idem)
  from this [OF assms(3)] this [OF assms(4)] show ?thesis
    using assms(1,2) by (cases d) (simp_all add: maintainRelationship_def deref_def)
qed

text \<open>The parent \<open>p\<close> of the successor (the node itself, when the successor is its child) gets the node.\<close>

lemma swap_first_step:
  assumes a: "deref a s = Some (mk c q True (adr l) (adr (plug D (Nd b cb Lf k' v' rr))) k v)"
    and tr: "tree_in (rb_heap s) a (plug D (Nd b cb Lf k' v' rr))"
    and dist: "distinct (a # addrs (plug D (Nd b cb Lf k' v' rr)))" and D: "pre D = []"
  obtains H where "replace_child (if D = [] then RIGHT else LEFT) (top a D) a s = Some (s\<lparr>rb_heap := H\<rparr>)"
    "H a = Some (mk c q True (adr l) (adr (plug D (Nd a cb Lf k v rr))) k v)"
    "agree (insert a (set (ctx_addrs D))) (rb_heap s) H" "ctx_in H a D a"
proof (cases D)
  case Nil
  show ?thesis
    by (rule that [of "(rb_heap s)(a \<mapsto> mk c q True (adr l) a k v)"])
      (use a Nil in \<open>auto simp: replace_child_def modify_def agree_def deref_def split: if_splits\<close>)
next
  case (Cons f E)
  obtain d p cp kp vp u where "f = Fr d p cp kp vp u" by (cases f) auto
  then have f: "f = Fr True p cp kp vp u" using D Cons by (cases d) auto
  have p: "p \<noteq> 0" "rb_heap s p = Some (mk cp (top a E) True b (adr u) kp vp)" "tree_in (rb_heap s) p u" "ctx_in (rb_heap s) a E p"
      "a \<noteq> p" "p \<notin> set (addrs u)" "p \<notin> set (ctx_addrs E)" "a \<noteq> 0"
    using tr dist a by (auto simp: tree_in_plug Cons f distinct_addrs_plug set_addrs_plug deref_def split: if_splits)
  let ?H = "(rb_heap s)(p \<mapsto> mk cp (top a E) True a (adr u) kp vp)"
  have "adr (plug D (Nd a cb Lf k v rr)) = adr (plug D (Nd b cb Lf k' v' rr))"
    using adr_plug_eq [of "Nd p cp (Nd a cb Lf k v rr) kp vp u" "Nd p cp (Nd b cb Lf k' v' rr) kp vp u" E] by (simp add: Cons f)
  then show ?thesis using that [of ?H] a p
    by (auto simp: Cons f replace_child_def modify_def agree_def deref_def)
qed

lemma take_links_mk:
  "take_links (mk c p True x y k v) (mk c' p' True x' y' k' v') = mk c p True x y k' v'"
  by (simp add: take_links_def mk_def)

text \<open>The relations around the exchanged nodes, once their links are exchanged.\<close>

lemma swap_relations:
  fixes s :: "('k, 'v) rb_map"
  assumes H: "rb_heap s a = Some (mk cb p True 0 (adr rr) k v)"
      "rb_heap s b = Some (mk c q True (adr l) (adr (plug D (Nd a cb Lf k v rr))) k' v')" "a \<noteq> 0" "b \<noteq> 0"
    and tr: "p = top a D" "tree_in (rb_heap s) b rr" "tree_in (rb_heap s) a l" "ctx_in (rb_heap s) a D a"
    and dist: "distinct (b # addrs l @ addrs (plug D (Nd a cb Lf k v rr)))"
  obtains H' where "do { s \<leftarrow> maintainRelationship a s; s \<leftarrow> maintainRelationship b s; maintainRelationship p s }
        = Some (s\<lparr>rb_heap := H'\<rparr>)"
    "tree_in H' q (Nd b c l k' v' (plug D (Nd a cb Lf k v rr)))"
    "agree (set (addrs l) \<union> set (addrs (plug D (Nd a cb Lf k v rr)))) (rb_heap s) H'"
proof -
  let ?R = "plug D (Nd a cb Lf k v rr)"
  have d: "a \<notin> set (addrs l)" "a \<notin> set (addrs rr)" "a \<notin> set (ctx_addrs D)" "b \<notin> set (addrs rr)" "b \<notin> set (addrs l)"
      "b \<notin> set (addrs ?R)" "set (addrs rr) \<inter> set (addrs l) = {}" "set (addrs rr) \<inter> set (ctx_addrs D) = {}" "a \<noteq> b"
      "distinct (addrs rr)" "set (addrs l) \<inter> set (addrs ?R) = {}" "distinct (addrs l)" "distinct (addrs ?R)"
    using dist by (auto simp: set_addrs_plug distinct_addrs_plug)
  obtain H4 where H4: "maintainRelationship a s = Some (s\<lparr>rb_heap := H4\<rparr>)" "tree_in H4 a rr"
      "agree (set (addrs rr)) (rb_heap s) H4"
    using maintainRelationship_tree [of s a cb p True Lf rr k v p b] H tr(2) d(2,10) by auto
  have "ctx_in H4 a D a" by (rule ctx_in_agree [OF H4(3) tr(4) d(8)])
  moreover have "H4 a = rb_heap s a" "H4 b = rb_heap s b" using H4(3) d(2,4) by (auto simp: agree_def)
  ultimately have R: "tree_in H4 a ?R" using H4(2) H tr(1) by (simp add: tree_in_plug)
  have l: "tree_in H4 a l" by (rule tree_in_agree [OF H4(3) tr(3)]) (use d in auto)
  obtain H5 where H5: "maintainRelationship b (s\<lparr>rb_heap := H4\<rparr>) = Some (s\<lparr>rb_heap := H5\<rparr>)" "tree_in H5 b l"
      "tree_in H5 b ?R" "agree (set (addrs l) \<union> set (addrs ?R)) H4 H5"
    using maintainRelationship_tree [of "s\<lparr>rb_heap := H4\<rparr>" b c q True l ?R k' v' a a] H(2,4) \<open>H4 b = _\<close> l R d by auto
  have "H5 b = rb_heap s b" using H5(4) \<open>H4 b = _\<close> d(5,6) by (auto simp: agree_def)
  then have t: "tree_in H5 q (Nd b c l k' v' ?R)" using H5(2,3) H(2,4) by simp
  have p: "maintainRelationship p (s\<lparr>rb_heap := H5\<rparr>) = Some (s\<lparr>rb_heap := H5\<rparr>)"
  proof (cases D)
    case Nil
    then show ?thesis using H5(3) tr(1)
      by (intro maintainRelationship_same [of _ _ cb b True Lf rr k v]) auto
  next
    case (Cons f E)
    obtain d p' cp kp vp u where f: "f = Fr d p' cp kp vp u" by (cases f) auto
    have "tree_in H5 (top b E) (nd d p' cp (Nd a cb Lf k v rr) kp vp u)" using H5(3) by (simp add: Cons f tree_in_plug)
    then show ?thesis using tr(1)
      by (intro maintainRelationship_same [of _ _ cp "top b E" d "Nd a cb Lf k v rr" u kp vp]) (auto simp: Cons f)
  qed
  have "agree (set (addrs l) \<union> set (addrs ?R)) (rb_heap s) H5"
    using H4(3) H5(4) by (auto simp: agree_def set_addrs_plug)
  then show ?thesis using that H4(1) H5(1) p t by auto
qed

lemma swap_successor_shape:
  assumes sh: "shape e s (plug C (Nd a c l k v (plug D (Nd b cb Lf k' v' rr))))" and D: "pre D = []"
    and succ: "successor_below a (adr (plug D (Nd b cb Lf k' v' rr))) s = Some (top a D, b)"
  shows "\<exists>s'. swap_successor a s = Some s' \<and> shape e s' (plug C (Nd b c l k' v' (plug D (Nd a cb Lf k v rr))))"
proof -
  let ?r = "plug D (Nd b cb Lf k' v' rr)" and ?R = "plug D (Nd a cb Lf k v rr)" and ?q = "top (header s) C"
  let ?t = "Nd a c l k v ?r" and ?t' = "Nd b c l k' v' ?R" and ?p = "top a D"
  note P = shape_plugD [OF sh]
  have n: "deref a s = Some (mk c ?q True (adr l) (adr ?r) k v)"
    using deref_focus [of e s C True a c l k v ?r] sh by simp
  have T: "tree_in (rb_heap s) a l" "tree_in (rb_heap s) a ?r" "a \<noteq> 0" "tree_in (rb_heap s) ?p (Nd b cb Lf k' v' rr)"
    using P(1) by (auto simp: tree_in_plug)
  have dist: "distinct (a # addrs ?r)" "distinct (b # addrs l @ addrs ?R)" "a \<notin> set (addrs l)" "a \<noteq> b" "b \<noteq> 0"
      "b \<notin> set (ctx_addrs D)" "a \<notin> set (addrs rr)" "b \<notin> set (addrs rr)" "set (addrs l) \<inter> set (ctx_addrs D) = {}"
      "set (addrs rr) \<inter> set (ctx_addrs D) = {}" "b \<notin> set (addrs l)"
    using P(3) T(4) by (auto simp: set_addrs_plug distinct_addrs_plug)
  have sets: "set (addrs ?t') = set (addrs ?t)" "distinct (addrs ?t')"
    using P(3) by (auto simp: set_addrs_plug distinct_addrs_plug)
  obtain H1 where H1: "replace_child (if D = [] then RIGHT else LEFT) ?p a s = Some (s\<lparr>rb_heap := H1\<rparr>)"
      "H1 a = Some (mk c ?q True (adr l) (adr ?R) k v)" "agree (insert a (set (ctx_addrs D))) (rb_heap s) H1" "ctx_in H1 a D a"
    by (rule swap_first_step [OF n T(2) dist(1) D])
  have m: "deref b s = Some (mk cb ?p True 0 (adr rr) k' v')" using T(4) by (simp add: deref_def)
  have db: "getDirection b s = Some (if D = [] then RIGHT else LEFT)"
  proof -
    have "shape e s (plug (D @ Fr False a c k v l # C) (Nd b cb Lf k' v' rr))" using sh by (simp add: plug_append)
    from getDirection_focus [OF this] show ?thesis using D by (cases D; cases "hd D") (auto split: if_splits)
  qed
  obtain s2 where s2: "replace_child (cdir C) ?q b s = Some s2" "header s2 = header s"
      "\<And>x. x \<in> set (addrs ?t) \<Longrightarrow> rb_heap s2 x = rb_heap s x"
    using replace_child_place [OF sh, of b] by metis
  define H2 where "H2 = (\<lambda>x. if x \<in> set (addrs ?t) then H1 x else rb_heap s2 x)"
  have q: "?q \<notin> set (addrs ?t)" "header s \<notin> set (addrs ?t)"
    using P(5,6) by (cases C; cases "hd C"; auto)+
  have out1: "H1 x = rb_heap s x" if "x \<notin> set (addrs ?t)" for x
    using H1(3) that by (auto simp: agree_def set_addrs_plug)
  have st2: "replace_child (cdir C) ?q b (s\<lparr>rb_heap := H1\<rparr>) = Some (s2\<lparr>rb_heap := H2\<rparr>)"
    using replace_child_frame [OF s2(1) q out1] by (simp add: H2_def)
  have da: "getDirection a (s\<lparr>rb_heap := H1\<rparr>) = Some (cdir C)"
    using getDirection_focus [OF sh] n H1(2) out1 [OF q(1)] by (auto simp: getDirection_def isRoot_def deref_def split: if_splits bind_splits)
  have H2: "H2 a = Some (mk c ?q True (adr l) (adr ?R) k v)" "H2 b = Some (mk cb ?p True 0 (adr rr) k' v')"
    using H1(2,3) m dist by (auto simp: H2_def agree_def set_addrs_plug deref_def split: if_splits)
  define s3 where "s3 = s2\<lparr>rb_heap := H2(a \<mapsto> mk cb ?p True 0 (adr rr) k v, b \<mapsto> mk c ?q True (adr l) (adr ?R) k' v')\<rparr>"
  have sw: "swap_links a b (s2\<lparr>rb_heap := H2\<rparr>) = Some s3"
    using H2 T(3) dist(4,5) by (simp add: swap_links_def modify_def take_links_mk s3_def)
  have eq3: "rb_heap s3 x = rb_heap s x" if "x \<in> set (addrs l) \<union> set (addrs rr)" for x
    using that H1(3) dist by (auto simp: s3_def H2_def agree_def set_addrs_plug)
  have "tree_in (rb_heap s3) b rr" using T(4) eq3 tree_in_cong [of rr "rb_heap s3" "rb_heap s"] by simp
  moreover have "tree_in (rb_heap s3) a l" using T(1) eq3 tree_in_cong [of l "rb_heap s3" "rb_heap s"] by simp
  moreover have "ctx_in (rb_heap s3) a D a"
    using H1(4) dist(1,6) by (subst ctx_in_cong [of D "rb_heap s3" H1]) (auto simp: s3_def H2_def set_addrs_plug)
  ultimately obtain H3 where H3: "do { s \<leftarrow> maintainRelationship a s3; s \<leftarrow> maintainRelationship b s; maintainRelationship ?p s }
        = Some (s3\<lparr>rb_heap := H3\<rparr>)" "tree_in H3 ?q ?t'" "agree (set (addrs l) \<union> set (addrs ?R)) (rb_heap s3) H3"
    using swap_relations [of s3 a cb ?p rr k v b c ?q l D k' v'] T(3) dist(2,4,5) by (auto simp: s3_def)
  have "dom H2 = dom (rb_heap s)"
    using replace_child_dom [OF st2] H1(3) by (simp add: agree_def)
  then have "dom H3 = dom (rb_heap s) - (set (addrs ?t) - set (addrs ?t'))"
    using H3(3) H2 sets(1) by (auto simp: agree_def s3_def)
  moreover have "H3 x = rb_heap s2 x" if "x \<notin> set (addrs ?t)" for x
    using H3(3) that by (auto simp: agree_def s3_def H2_def set_addrs_plug)
  ultimately have "shape e (s2\<lparr>rb_heap := H3\<rparr>) (plug C ?t')"
    using s2(1) by (intro relink [OF sh _ _ _ _ _ H3(2) equalityD1 [OF sets(1)] sets(2)]) auto
  moreover have "swap_successor a s = Some (s2\<lparr>rb_heap := H3\<rparr>)"
    using n succ m db H1(1,2) T(3) da st2 sw H3(1)
    by (simp add: swap_successor_def) (simp add: s3_def)
  ultimately show ?thesis by blast
qed

section \<open>The ends of the header\<close>

lemma release_first_shape:
  assumes sh: "shape e s (plug C (Nd a c l k v r))" and e: "left_child (e_node e) = hd (xs @ a # ys @ [header s])"
    and xs: "xs = map fst (pre C) @ addrs l" and ys: "ys = addrs r @ map fst (post C)" and a: "a \<notin> set xs"
  obtains s1 n where "release_first a s = Some s1" "shape (e\<lparr>e_node := n\<rparr>) s1 (plug C (Nd a c l k v r))"
    "left_child n = hd (xs @ ys @ [header s])" "right_child n = right_child (e_node e)" "color n = color (e_node e)"
    "header s1 = header s"
proof -
  have h: "deref (header s) s = Some ((e_node e)\<lparr>parent := adr (plug C (Nd a c l k v r))\<rparr>)" by (rule deref_header [OF sh])
  show ?thesis
  proof (cases "xs = []")
    case False
    then have "left_child (e_node e) \<noteq> a" using e a by (cases xs) auto
    then have "release_first a s = Some s" using h by (simp add: release_first_def)
    then show ?thesis using that [of s "e_node e"] sh e False by (cases xs) auto
  next
    case True
    have n: "deref a s = Some (mk c (top (header s) C) True (adr l) (adr r) k v)"
      using deref_focus [of e s C True a c l k v r] sh by simp
    define b where "b = hd (ys @ [header s])"
    have "(if adr r \<noteq> 0 then leftmost (adr r) s else Some (top (header s) C)) = Some b"
    proof (cases "r = Lf")
      case True
      then show ?thesis using \<open>xs = []\<close> xs ys by (cases C; cases "hd C") (auto simp: b_def split: if_splits)
    next
      case False
      moreover have "adr r \<noteq> 0" using shape_plugD(1) [OF sh] False by (auto simp: adr_pos)
      moreover have "addrs r \<noteq> []" using False by (cases r) auto
      ultimately show ?thesis using leftmost_tree [of e s "Fr False a c k v l # C" r] sh ys by (simp add: b_def)
    qed
    then have "release_first a s = modify (header s) (\<lambda>n. n\<lparr>left_child := b\<rparr>) s"
      using h n e True by (auto simp: release_first_def split: if_splits)
    then have "release_first a s = Some (s\<lparr>rb_heap := (rb_heap s)(header s \<mapsto>
        ((e_node e)\<lparr>left_child := b\<rparr>)\<lparr>parent := adr (plug C (Nd a c l k v r))\<rparr>)\<rparr>)"
      using h by (cases "e_node e") (simp add: modify_def)
    then show ?thesis using that [OF _ header_shape [OF sh]] True by (simp add: b_def)
  qed
qed

lemma release_last_shape:
  assumes sh: "shape e s (plug C (Nd a c l k v r))" and e: "right_child (e_node e) = last (header s # xs @ a # ys)"
    and xs: "xs = map fst (pre C) @ addrs l" and ys: "ys = addrs r @ map fst (post C)" and a: "a \<notin> set ys"
  obtains s1 n where "release_last a s = Some s1" "shape (e\<lparr>e_node := n\<rparr>) s1 (plug C (Nd a c l k v r))"
    "right_child n = last (header s # xs @ ys)" "left_child n = left_child (e_node e)" "color n = color (e_node e)"
    "header s1 = header s"
proof -
  have h: "deref (header s) s = Some ((e_node e)\<lparr>parent := adr (plug C (Nd a c l k v r))\<rparr>)" by (rule deref_header [OF sh])
  show ?thesis
  proof (cases "ys = []")
    case False
    then have "right_child (e_node e) \<noteq> a" using e a by (cases ys rule: rev_cases) auto
    then have "release_last a s = Some s" using h by (simp add: release_last_def)
    then show ?thesis using that [of s "e_node e"] sh e False by (cases ys rule: rev_cases) auto
  next
    case True
    have n: "deref a s = Some (mk c (top (header s) C) True (adr l) (adr r) k v)"
      using deref_focus [of e s C True a c l k v r] sh by simp
    define b where "b = last (header s # xs)"
    have "(if adr l \<noteq> 0 then rightmost (adr l) s else Some (top (header s) C)) = Some b"
    proof (cases "l = Lf")
      case True
      then show ?thesis using \<open>ys = []\<close> xs ys by (cases C; cases "hd C") (auto simp: b_def split: if_splits)
    next
      case False
      moreover have "adr l \<noteq> 0" using shape_plugD(1) [OF sh] False by (auto simp: adr_pos)
      moreover have "addrs l \<noteq> []" using False by (cases l) auto
      ultimately show ?thesis using rightmost_tree [of e s "Fr True a c k v r # C" l] sh xs by (simp add: b_def)
    qed
    then have "release_last a s = modify (header s) (\<lambda>n. n\<lparr>right_child := b\<rparr>) s"
      using h n e True by (auto simp: release_last_def split: if_splits)
    then have "release_last a s = Some (s\<lparr>rb_heap := (rb_heap s)(header s \<mapsto>
        ((e_node e)\<lparr>right_child := b\<rparr>)\<lparr>parent := adr (plug C (Nd a c l k v r))\<rparr>)\<rparr>)"
      using h by (cases "e_node e") (simp add: modify_def)
    then show ?thesis using that [OF _ header_shape [OF sh]] True by (simp add: b_def)
  qed
qed

lemma release_ends:
  assumes h: "holds e s (plug C (Nd a c l k v r))"
  obtains s1 s2 n where "release_first a s = Some s1" "release_last a s1 = Some s2"
    "shape (e\<lparr>e_node := n\<rparr>) s2 (plug C (Nd a c l k v r))" "color n = RED"
    "ends (e\<lparr>e_node := n\<rparr>) (map fst (pre C) @ addrs l @ addrs r @ map fst (post C))"
proof -
  let ?xs = "map fst (pre C) @ addrs l" and ?ys = "addrs r @ map fst (post C)"
  have sh: "shape e s (plug C (Nd a c l k v r))" using h by (simp add: holds_def)
  have A: "addrs (plug C (Nd a c l k v r)) = ?xs @ a # ?ys" by (simp add: addrs_entries entries_plug)
  then have a: "a \<notin> set ?xs" "a \<notin> set ?ys" using shapeD(9) [OF sh] by auto
  have e: "left_child (e_node e) = hd (?xs @ a # ?ys @ [header s])" "right_child (e_node e) = last (header s # ?xs @ a # ?ys)"
    using holds_header [OF h] A by simp_all
  obtain s1 n1 where s1: "release_first a s = Some s1" "shape (e\<lparr>e_node := n1\<rparr>) s1 (plug C (Nd a c l k v r))"
      "left_child n1 = hd (?xs @ ?ys @ [header s])" "right_child n1 = right_child (e_node e)" "color n1 = color (e_node e)"
      "header s1 = header s"
    by (rule release_first_shape [OF sh e(1) refl refl a(1)])
  obtain s2 n where s2: "release_last a s1 = Some s2" "shape (e\<lparr>e_node := n\<rparr>) s2 (plug C (Nd a c l k v r))"
      "right_child n = last (header s # ?xs @ ?ys)" "left_child n = left_child n1" "color n = color n1"
    by (rule release_last_shape [OF s1(2) _ refl refl a(2)]) (use e(2) s1(4,6) in auto)
  have "e_header e = header s" using shapeD(1) [OF sh] .
  then show ?thesis using that [OF s1(1) s2(1,2)] s1(3,5) s2(3,4,5) holds_header(4) [OF h] by (simp add: ends_def)
qed

section \<open>Unlinking as a whole\<close>

text \<open>
  The node that is unlinked is the one of the key, or its successor when it has two children.
  \<open>unlinked_leaf l r\<close>: it has no child.
\<close>

fun first_is_leaf :: "('k, 'v) ptree \<Rightarrow> bool" where
  "first_is_leaf Lf = False"
| "first_is_leaf (Nd a c l k v r) = (if l = Lf then r = Lf else first_is_leaf l)"

definition unlinked_leaf :: "('k, 'v) ptree \<Rightarrow> ('k, 'v) ptree \<Rightarrow> bool" where
  "unlinked_leaf l r = (if l = Lf then r = Lf else first_is_leaf r)"

lemma plug_not_Lf: "t \<noteq> Lf \<Longrightarrow> plug D t \<noteq> Lf"
proof (induction D arbitrary: t)
  case (Cons f D)
  then show ?case by (cases f) simp
qed simp

lemma first_is_leaf_spine: "pre D = [] \<Longrightarrow> t \<noteq> Lf \<Longrightarrow> first_is_leaf (plug D t) = first_is_leaf t"
proof (induction D arbitrary: t)
  case (Cons f D)
  then show ?case by (cases f) (auto split: if_splits)
qed simp

lemma single_child_colors: "fits C (nd d a c x k v Lf) \<Longrightarrow> x \<noteq> Lf \<Longrightarrow> c = BLACK \<and> col x = RED"
  by (cases c; cases x; cases "col x") (auto simp: fits_def)

lemma fits_repaint: "fits C (nd d a BLACK x k v Lf) \<Longrightarrow> col x = RED \<Longrightarrow> fits C (repaint BLACK x)"
  using col_RED_Nd [of x] by (auto simp: fits_def)

lemma fits_relabel: "fits C (Nd a c l k v r) \<longleftrightarrow> fits C (Nd b c l k' v' r)"
  by (cases c) (simp_all add: fits_def)

lemma unlink_single_entries:
  assumes sh: "shape e s (plug C (nd d a c x k v Lf))" and x: "x \<noteq> Lf" and fits: "fits C (nd d a c x k v Lf)"
  shows "\<exists>s' t. unlink_single a s = Some s' \<and> shape e s' t \<and> balanced t \<and> entries t = pre C @ entries x @ post C"
proof -
  have c: "c = BLACK" "col x = RED" using single_child_colors [OF fits x] by auto
  obtain s' where "unlink_single a s = Some s'" "shape e s' (plug C (repaint BLACK x))"
    using unlink_single_shape [of e s C d a x k v] sh c by auto
  moreover have "balanced (plug C (repaint BLACK x))" using fits_repaint [of C d a x k v] fits c by (simp add: balanced_plug)
  ultimately show ?thesis by (intro exI [of _ s'] exI [of _ "plug C (repaint BLACK x)"]) (simp add: entries_plug)
qed

lemma unlink_entries:
  assumes sh: "shape e s (plug C (Nd a c l k v r))" and bal: "fits C (Nd a c l k v r)"
    and two: "C \<noteq> [] \<or> l \<noteq> Lf \<or> r \<noteq> Lf"
  shows "if unlinked_leaf l r then unlink a s = None
         else \<exists>s' t. unlink a s = Some s' \<and> shape e s' t \<and> balanced t \<and> entries t = pre C @ entries l @ entries r @ post C"
proof -
  have n: "deref a s = Some (mk c (top (header s) C) True (adr l) (adr r) k v)"
    using deref_focus [of e s C True a c l k v r] sh by simp
  have z: "adr l = 0 \<longleftrightarrow> l = Lf" "adr r = 0 \<longleftrightarrow> r = Lf" using shape_plugD(1) [OF sh] by (auto simp: adr_zero)
  consider "l = Lf" "r = Lf" | "l = Lf" "r \<noteq> Lf" | "l \<noteq> Lf" "r = Lf" | "l \<noteq> Lf" "r \<noteq> Lf" by blast
  then show ?thesis
  proof cases
    case 1
    then show ?thesis using unlink_leaf_undefined [of e s C a c k v] sh bal two n by (simp add: unlink_def unlinked_leaf_def)
  next
    case 2
    then show ?thesis using unlink_single_entries [of e s C False a c r k v] sh bal n z
      by (simp add: unlink_def unlinked_leaf_def)
  next
    case 3
    then show ?thesis using unlink_single_entries [of e s C True a c l k v] sh bal n z
      by (simp add: unlink_def unlinked_leaf_def)
  next
    case 4
    have "shape e s (plug (Fr False a c k v l # C) r)" using sh by simp
    from successor_spine [OF this 4(2)] obtain D b cb k' v' rr where r: "r = plug D (Nd b cb Lf k' v' rr)" "pre D = []"
        "successor_below a (adr r) s = Some (top a D, b)" by blast
    obtain s1 where s1: "swap_successor a s = Some s1"
        "shape e s1 (plug C (Nd b c l k' v' (plug D (Nd a cb Lf k v rr))))"
      using swap_successor_shape [of e s C a c l k v D b cb k' v' rr] sh r by auto
    let ?C = "D @ Fr False b c k' v' l # C"
    have sh1: "shape e s1 (plug ?C (Nd a cb Lf k v rr))" using s1(2) by (simp add: plug_append)
    have "balanced (plug C (Nd b c l k' v' (plug D (Nd b cb Lf k' v' rr))))"
      using bal unfolding r(1) balanced_plug by (subst fits_relabel)
    then have fits: "fits ?C (Nd a cb Lf k v rr)"
      using fits_relabel [of ?C a cb Lf k v rr b k' v'] by (simp add: balanced_plug [symmetric] plug_append)
    have n1: "deref a s1 = Some (mk cb (top (header s1) ?C) True 0 (adr rr) k v)" "adr rr = 0 \<longleftrightarrow> rr = Lf"
      using deref_focus [of e s1 ?C True a cb Lf k v rr] sh1 shape_plugD(1) [OF sh1] by (auto simp: adr_zero)
    have ul: "unlinked_leaf l r \<longleftrightarrow> rr = Lf" using first_is_leaf_spine [OF r(2)] 4 by (simp add: unlinked_leaf_def r(1))
    have u: "unlink a s = (if rr = Lf then unlink_leaf a s1 else unlink_single a s1)"
      using n z 4 s1(1) n1 by (simp add: unlink_def)
    show ?thesis
    proof (cases "rr = Lf")
      case True
      then show ?thesis using unlink_leaf_undefined [of e s1 ?C a cb k v] sh1 fits ul u by simp
    next
      case False
      then obtain s' t where "unlink_single a s1 = Some s'" "shape e s' t" "balanced t" "entries t = pre ?C @ entries rr @ post ?C"
        using unlink_single_entries [of e s1 ?C False a cb rr k v] sh1 fits by auto
      then show ?thesis using False ul u r(2) by (auto simp: r(1) entries_plug pre_post_append)
    qed
  qed
qed

lemma pre_post_Nil: "pre C = [] \<and> post C = [] \<longleftrightarrow> C = []"
  by (cases C; cases "hd C") auto

lemma entries_Nil: "entries t = [] \<longleftrightarrow> t = Lf"
  by (cases t) auto

text \<open>The outcome at the node \<open>a\<close>: undefined, or the entries without it.\<close>

definition removal :: "bool \<Rightarrow> nat \<Rightarrow> (nat \<times> 'k::linorder \<times> 'v) list \<Rightarrow> ('k, 'v) rb_map option \<Rightarrow> bool" where
  "removal undef a es res \<longleftrightarrow>
     (if undef \<and> length es \<noteq> 1 then res = None
      else \<exists>s' t'. res = Some s' \<and> represents s' t' \<and> entries t' = filter (\<lambda>x. fst x \<noteq> a) es)"

lemma filter_entries:
  assumes "distinct (addrs (plug C (Nd a c l k v r)))"
  shows "filter (\<lambda>x. fst x \<noteq> a) (entries (plug C (Nd a c l k v r))) = pre C @ entries l @ entries r @ post C"
proof -
  have "a \<notin> fst ` set (pre C @ entries l @ entries r @ post C)"
    using assms by (auto simp: addrs_entries entries_plug)
  moreover have "a \<notin> fst ` set xs \<Longrightarrow> filter (\<lambda>x. fst x \<noteq> a) xs = xs" for xs :: "(nat \<times> 'a \<times> 'b) list"
    by (induction xs) auto
  ultimately show ?thesis by (simp add: entries_plug image_Un)
qed

lemma remove_here_removal:
  assumes h: "holds e s (plug C (Nd a c l k v r))"
  shows "removal (unlinked_leaf l r) a (entries (plug C (Nd a c l k v r))) (remove_here a s)"
proof -
  let ?t = "plug C (Nd a c l k v r)" and ?es = "pre C @ entries l @ entries r @ post C"
  have sh: "shape e s ?t" and bal: "fits C (Nd a c l k v r)" using h by (auto simp: holds_def balanced_plug)
  have f: "filter (\<lambda>x. fst x \<noteq> a) (entries ?t) = ?es" by (rule filter_entries [OF shapeD(9) [OF sh]])
  have len: "length (entries ?t) = Suc (length ?es)" by (simp add: entries_plug)
  obtain s1 s2 n where s12: "release_first a s = Some s1" "release_last a s1 = Some s2"
      and sh2: "shape (e\<lparr>e_node := n\<rparr>) s2 ?t" and n: "color n = RED"
      and ends: "ends (e\<lparr>e_node := n\<rparr>) (map fst (pre C) @ addrs l @ addrs r @ map fst (post C))"
    by (rule release_ends [OF h])
  have cnt: "cnt s2 = length (entries ?t)" using shapeD(3) [OF sh2] h by (simp add: holds_def)
  show ?thesis
  proof (cases "cnt s2 = 1")
    case True
    then have es: "?es = []" "length (entries ?t) = 1" using cnt len by auto
    obtain s3 where "rb_clear s2 = Some s3" "represents s3 Lf" using rb_clear_shape [OF sh2] n by auto
    then have "remove_here a s = Some s3" using s12 True by (simp add: remove_here_def)
    then show ?thesis using \<open>represents s3 Lf\<close> es f by (auto simp: removal_def intro!: exI [of _ Lf])
  next
    case False
    then have ne: "length (entries ?t) \<noteq> 1" and "?es \<noteq> []" using cnt len by auto
    then have "C \<noteq> [] \<or> l \<noteq> Lf \<or> r \<noteq> Lf" by auto
    from unlink_entries [OF sh2 bal this] show ?thesis
    proof (cases "unlinked_leaf l r")
      case True
      then show ?thesis using unlink_entries [OF sh2 bal \<open>C \<noteq> [] \<or> _\<close>] s12 False ne by (simp add: removal_def remove_here_def)
    next
      case sng: False
      then obtain s3 t where s3: "unlink a s2 = Some s3" "shape (e\<lparr>e_node := n\<rparr>) s3 t" "balanced t" "entries t = ?es"
        using unlink_entries [OF sh2 bal \<open>C \<noteq> [] \<or> _\<close>] by auto
      let ?e = "e\<lparr>e_node := n, e_cnt := e_cnt e - 1\<rparr>"
      have "shape ?e (s3\<lparr>cnt := cnt s3 - 1\<rparr>) t" using s3(2) by (simp add: shape_def)
      moreover have "ends ?e (addrs t)" using ends s3(4) by (simp add: ends_def addrs_entries)
      moreover have "sorted_wrt (<) (keys_of (entries t))"
        using holds_sorted [OF h] by (auto simp: s3(4) entries_plug sorted_wrt_append)
      moreover have "e_cnt ?e = length (entries t)" using h len s3(4) by (simp add: holds_def)
      ultimately have "holds ?e (s3\<lparr>cnt := cnt s3 - 1\<rparr>) t" using n s3(3) by (simp add: holds_def)
      moreover have "remove_here a s = Some (s3\<lparr>cnt := cnt s3 - 1\<rparr>)" using s12 s3(1) False by (simp add: remove_here_def)
      ultimately show ?thesis using s3(4) f sng by (auto simp: removal_def represents_def)
    qed
  qed
qed

section \<open>Removal by key\<close>

lemma maintainRelationship_entry:
  assumes "represents s t" and "a \<in> set (addrs t)"
  shows "maintainRelationship a s = Some s"
proof -
  obtain x where "x \<in> set (entries t)" "fst x = a" using assms(2) by (auto simp: addrs_entries)
  then obtain C c l k v r where t: "t = plug C (Nd a c l k v r)" using entry_place by metis
  obtain e where "shape e s (plug C (nd True a c l k v r))" using assms(1) t by (auto simp: represents_def holds_def)
  from shape_plugD(1) [OF this] show ?thesis
    by (intro maintainRelationship_same [of _ _ c "top (header s) C" True l r k v]) simp_all
qed

lemma keys_plug: "splits C k \<Longrightarrow> k \<in> set (keys_of (entries (plug C t))) \<longleftrightarrow> k \<in> set (keys_of (entries t))"
  by (auto simp: splits_def entries_plug)

lemma remove_here_keeps:
  assumes h: "holds e s t" and b: "(b, k, v) \<in> set (entries t)" and r: "remove_here b s = Some s'"
    and a: "a \<in> set (addrs t)" "a \<noteq> b"
  shows "maintainRelationship a s' = Some s'"
proof -
  obtain C c l r where t: "t = plug C (Nd b c l k v r)" using entry_place [OF b] by auto
  obtain t' where "represents s' t'" "entries t' = filter (\<lambda>x. fst x \<noteq> b) (entries t)"
    using remove_here_removal [of e s C b c l k v r] h r unfolding t removal_def by (auto split: if_splits)
  moreover from this(2) have "a \<in> set (addrs t')" using a by (auto simp: addrs_entries)
  ultimately show ?thesis by (intro maintainRelationship_entry)
qed

lemma rb_remove_key:
  "holds e s (plug C t) \<Longrightarrow> t \<noteq> Lf \<Longrightarrow> splits C k \<Longrightarrow>
     rb_remove (adr t) k s =
       (if k \<in> set (keys_of (entries t)) then map_option (Pair True) (remove_here (addr_of k (entries t)) s)
        else Some (False, s))"
proof (induction t arbitrary: C)
  case (Nd a c x k' w y)
  note h = Nd.prems(1) and n = holds_deref [OF Nd.prems(1)] and srt = holds_sorted [OF Nd.prems(1)]
  let ?T = "plug C (Nd a c x k' w y)"
  have dist: "distinct (addrs ?T)" using h shapeD(9) by (auto simp: holds_def)
  have keep: "maintainRelationship a s' = Some s'"
    if "remove_here (addr_of k es) s = Some s'" "k \<in> set (keys_of es)" "set es \<subseteq> set (entries ?T)" "a \<notin> fst ` set es" for es s'
  proof (rule remove_here_keeps [OF h _ that(1)])
    from addr_of_in [OF that(2)] show "(addr_of k es, k, the (rb_map_of es k)) \<in> set (entries ?T)" using that(3) by auto
    show "a \<in> set (addrs ?T)" by (simp add: set_addrs_plug)
    show "a \<noteq> addr_of k es" using addr_of_in [OF that(2)] that(4) by force
  qed
  have da: "a \<notin> fst ` set (entries x)" "a \<notin> fst ` set (entries y)"
    using dist unfolding distinct_addrs_plug by (simp_all add: addrs_entries)
  have sub: "set (entries x) \<subseteq> set (entries ?T)" "set (entries y) \<subseteq> set (entries ?T)" by (auto simp: entries_plug)
  consider "k = k'" | "k < k'" | "k' < k" by fastforce
  then show ?case
  proof cases
    case 1
    have "k \<notin> set (keys_of (entries x))" using srt 1 by (auto simp: entries_plug sorted_wrt_append)
    then show ?thesis using n 1 by (subst rb_remove.simps) (auto simp: addr_of_append map_option_case split: option.splits bind_splits)
  next
    case 2
    let ?C = "Fr True a c k' w y # C"
    have k: "splits ?C k" by (rule splits_left [OF srt Nd.prems(3) 2])
    have ky: "k \<notin> set (keys_of (entries y))" using k by (auto simp: splits_def)
    have kx: "k \<in> set (keys_of (entries (Nd a c x k' w y))) \<longleftrightarrow> k \<in> set (keys_of (entries x))"
      using ky 2 by auto
    have ad: "addr_of k (entries (Nd a c x k' w y)) = addr_of k (entries x)"
      using ky 2 addr_of_left [of k "(a, k', w) # entries y" "entries x"] by simp
    show ?thesis
    proof (cases "x = Lf")
      case True
      then show ?thesis unfolding kx ad using n 2 by (subst rb_remove.simps) auto
    next
      case False
      have "rb_remove (adr x) k s = (if k \<in> set (keys_of (entries x))
          then map_option (Pair True) (remove_here (addr_of k (entries x)) s) else Some (False, s))"
        using Nd.IH(1) [of ?C] h k False by simp
      then show ?thesis unfolding kx ad using n 2 False keep [OF _ _ sub(1) da(1)]
        by (subst rb_remove.simps) (cases "remove_here (addr_of k (entries x)) s"; auto)
    qed
  next
    case 3
    let ?C = "Fr False a c k' w x # C"
    have k: "splits ?C k" by (rule splits_right [OF srt Nd.prems(3) 3])
    have kx: "k \<notin> set (keys_of (entries x))" using k by (auto simp: splits_def)
    have ky: "k \<in> set (keys_of (entries (Nd a c x k' w y))) \<longleftrightarrow> k \<in> set (keys_of (entries y))"
      using kx 3 by auto
    have ad: "addr_of k (entries (Nd a c x k' w y)) = addr_of k (entries y)"
      using kx 3 by (auto simp: addr_of_append)
    show ?thesis
    proof (cases "y = Lf")
      case True
      then show ?thesis unfolding ky ad using n 3 by (subst rb_remove.simps) auto
    next
      case False
      have "rb_remove (adr y) k s = (if k \<in> set (keys_of (entries y))
          then map_option (Pair True) (remove_here (addr_of k (entries y)) s) else Some (False, s))"
        using Nd.IH(2) [of ?C] h k False by simp
      then show ?thesis unfolding ky ad using n 3 False keep [OF _ _ sub(2) da(2)]
        by (subst rb_remove.simps) (cases "remove_here (addr_of k (entries y)) s"; auto)
    qed
  qed
qed simp

section \<open>The removing operations\<close>

text \<open>\<open>unlinks_leaf k t\<close>: the node that the removal of \<open>k\<close> unlinks has no child.\<close>

fun unlinks_leaf :: "'k::linorder \<Rightarrow> ('k, 'v) ptree \<Rightarrow> bool" where
  "unlinks_leaf k Lf = False"
| "unlinks_leaf k (Nd a c l k' v r) =
     (if k < k' then unlinks_leaf k l else if k' < k then unlinks_leaf k r else unlinked_leaf l r)"

lemma unlinks_leaf_plug: "splits C k \<Longrightarrow> unlinks_leaf k (plug C t) = unlinks_leaf k t"
proof (induction C arbitrary: t)
  case (Cons f C)
  obtain d a c k' v u where f: "f = Fr d a c k' v u" by (cases f) auto
  have "splits C k" "if d then k < k' else k' < k" using Cons.prems f by (auto simp: splits_def ball_Un split: if_splits)
  then show ?case using Cons.IH [of "nd d a c t k' v u"] f by (cases d) auto
qed simp

lemma splits_place:
  assumes "sorted_wrt (<) (keys_of (entries (plug C (Nd a c l k v r))))"
  shows "splits C k"
  using assms by (auto simp: splits_def entries_plug sorted_wrt_append ball_Un)

lemma filter_key:
  assumes "holds e s (plug C (Nd a c l k v r))"
  shows "filter (\<lambda>x. fst x \<noteq> a) (entries (plug C (Nd a c l k v r))) = filter (\<lambda>x. fst (snd x) \<noteq> k) (entries (plug C (Nd a c l k v r)))"
proof (rule filter_cong [OF refl])
  fix x
  assume x: "x \<in> set (entries (plug C (Nd a c l k v r)))"
  let ?es = "pre C @ entries l @ entries r @ post C"
  have "distinct (addrs (plug C (Nd a c l k v r)))" using assms shapeD(9) by (auto simp: holds_def)
  then have "a \<notin> fst ` set ?es" by (auto simp: addrs_entries entries_plug)
  moreover have "k \<notin> set (keys_of ?es)" using holds_sorted [OF assms] by (auto simp: entries_plug sorted_wrt_append ball_Un)
  moreover have "x = (a, k, v) \<or> fst x \<in> fst ` set ?es \<and> fst (snd x) \<in> set (keys_of ?es)"
    using x by (auto simp: entries_plug image_iff)
  ultimately show "fst x \<noteq> a \<longleftrightarrow> fst (snd x) \<noteq> k" by auto
qed

lemma remove_key_removal:
  assumes rep: "represents s t" and k: "k \<in> set (keys_of (entries t))"
  obtains res where "rb_remove (root s) k s = map_option (Pair True) res"
    "if unlinks_leaf k t \<and> length (entries t) \<noteq> 1 then res = None
     else \<exists>s' t'. res = Some s' \<and> represents s' t' \<and> entries t' = filter (\<lambda>x. fst (snd x) \<noteq> k) (entries t)"
proof -
  obtain e where h: "holds e s t" using rep by (auto simp: represents_def)
  have t: "t \<noteq> Lf" using k by auto
  let ?a = "addr_of k (entries t)"
  obtain C c l v r where p: "t = plug C (Nd ?a c l k v r)" using entry_place [OF addr_of_in [OF k]] by auto
  have h': "holds e s (plug C (Nd ?a c l k v r))" using h p by simp
  have "splits C k" by (rule splits_place [OF holds_sorted [OF h']])
  then have ul: "unlinks_leaf k t = unlinked_leaf l r" using unlinks_leaf_plug [of C k "Nd ?a c l k v r"] p by simp
  have eq: "filter (\<lambda>x. fst x \<noteq> ?a) (entries t) = filter (\<lambda>x. fst (snd x) \<noteq> k) (entries t)"
    using filter_key [OF h'] p by simp
  have "removal (unlinked_leaf l r) ?a (entries t) (remove_here ?a s)"
    using remove_here_removal [OF h'] p by simp
  moreover have "rb_remove (root s) k s = map_option (Pair True) (remove_here ?a s)"
    using rb_remove_key [of e s "[]" t k] h t k represents_root(1) [OF rep] by simp
  ultimately show ?thesis using that [of "remove_here ?a s"] unfolding removal_def eq ul by blast
qed

lemma erase_key_absent:
  assumes rep: "represents s t" and k: "k \<notin> set (keys_of (entries t))"
  shows "erase_key k s = Some (0, s)"
proof (cases "t = Lf")
  case True
  then show ?thesis using represents_root [OF rep] by (simp add: erase_key_def)
next
  case False
  obtain e where h: "holds e s t" using rep by (auto simp: represents_def)
  have "rb_remove (root s) k s = Some (False, s)"
    using rb_remove_key [of e s "[]" t k] h False k represents_root(1) [OF rep] by simp
  then show ?thesis using represents_root [OF rep] False by (simp add: erase_key_def)
qed

lemma erase_key_present:
  assumes rep: "represents s t" and k: "k \<in> set (keys_of (entries t))"
  shows "if unlinks_leaf k t \<and> length (entries t) \<noteq> 1 then erase_key k s = None
         else \<exists>s' t'. erase_key k s = Some (1, s') \<and> represents s' t' \<and> entries t' = filter (\<lambda>x. fst (snd x) \<noteq> k) (entries t)"
proof -
  have "root s \<noteq> 0" using k represents_root(2) [OF rep] by auto
  then show ?thesis by (rule_tac remove_key_removal [OF rep k]) (auto simp: erase_key_def split: if_splits)
qed

end
