(* ===== verification/Rb_Theorems.thy ===== *)
theory Rb_Theorems
  imports Rb_Remove Simulation
begin

text \<open>
  What \<open>RBTreeMap\<close> promises to its clients: sequences of its operations act on a finite map, the
  tree stays low, iteration and bounds follow the order of the keys, and the removal does its work
  up to the leaf that it reads after its \<open>delete\<close>.
\<close>

section \<open>The map behind the tree\<close>

lemma rb_map_of_Cons: "rb_map_of (x # es) = (rb_map_of es)(fst (snd x) \<mapsto> snd (snd x))"
  by (cases x) (simp add: rb_map_of_def)

lemma rb_map_of_Nil [simp]: "rb_map_of [] = Map.empty"
  by (simp add: rb_map_of_def)

lemma rb_map_of_put:
  "sorted_wrt (<) (keys_of es) \<Longrightarrow>
     rb_map_of (put r a k v es) = (if \<not> r \<and> k \<in> dom (rb_map_of es) then rb_map_of es else (rb_map_of es)(k \<mapsto> v))"
proof (induction es)
  case (Cons x es)
  have below: "k \<notin> dom (rb_map_of es)" if "k \<le> fst (snd x)"
    using Cons.prems that rb_map_of_absent [of k es] by (auto simp: image_iff)
  show ?case
  proof (cases "k = fst (snd x)")
    case True
    then show ?thesis using below by (cases x) (auto simp: rb_map_of_Cons fun_eq_iff)
  next
    case False
    then show ?thesis using Cons below by (cases x) (auto simp: rb_map_of_Cons fun_eq_iff dom_def split: if_splits)
  qed
qed (auto simp: rb_map_of_Cons)

lemma rb_map_of_rewritten: "rb_map_of (rewritten f es) k = map_option (f k) (rb_map_of es k)"
  by (induction es) (auto simp: rewritten_def rb_map_of_Cons)

lemma represents_sorted: "represents s t \<Longrightarrow> sorted_wrt (<) (keys_of (entries t))"
  by (auto simp: represents_def holds_def)

lemma set_value_represents:
  assumes rep: "represents s t" and b: "(b, k, w) \<in> set (entries t)"
  shows "\<exists>s' t'. modify b (\<lambda>n. n\<lparr>second := v\<rparr>) s = Some s' \<and> represents s' t' \<and> rb_map_of (entries t') = (rb_map_of (entries t))(k \<mapsto> v)"
proof -
  obtain e where h: "holds e s t" using rep by (auto simp: represents_def)
  obtain C c l r where t: "t = plug C (Nd b c l k w r)" using entry_place [OF b] by auto
  obtain s' where "modify b (\<lambda>n. n\<lparr>second := v\<rparr>) s = Some s'" "holds e s' (plug C (Nd b c l k v r))"
    using set_value_holds [of e s C b c l k w r v] h t by auto
  moreover have "rb_map_of (entries (plug C (Nd b c l k v r))) = (rb_map_of (entries t))(k \<mapsto> v)"
    using put_found [of e s C b c l k w r True 0 v] rb_map_of_put [OF holds_sorted [OF h], of True 0 k v] h t by simp
  ultimately show ?thesis by (auto simp: represents_def)
qed

section \<open>Sequences of operations\<close>

text \<open>
  What a client does; \<open>Assign k v\<close> is \<open>m[k] = v\<close>, \<open>Update f\<close> a \<open>forEachMut\<close>, and \<open>d\<close> is the default
  of the value type.
\<close>

datatype ('k, 'v) rb_cmd = Insert 'k 'v | Index 'k | Assign 'k 'v | Update "'k \<Rightarrow> 'v \<Rightarrow> 'v" | Clear

fun rb_step :: "'v \<Rightarrow> ('k::linorder, 'v) rb_cmd \<Rightarrow> ('k, 'v) rb_map \<Rightarrow> ('k, 'v) rb_map option" where
  "rb_step d (Insert k v) s = rb_insert k v s"
| "rb_step d (Index k) s = map_option snd (rb_index k d s)"
| "rb_step d (Assign k v) s = do { (a, s) \<leftarrow> rb_index k d s; modify a (\<lambda>n. n\<lparr>second := v\<rparr>) s }"
| "rb_step d (Update f) s = forEachMut f s"
| "rb_step d Clear s = rb_clear s"

fun map_step :: "'v \<Rightarrow> ('k, 'v) rb_cmd \<Rightarrow> ('k \<Rightarrow> 'v option) \<Rightarrow> ('k \<Rightarrow> 'v option) option" where
  "map_step d (Insert k v) m = Some (m(k \<mapsto> v))"
| "map_step d (Index k) m = Some (if m k = None then m(k \<mapsto> d) else m)"
| "map_step d (Assign k v) m = Some (m(k \<mapsto> v))"
| "map_step d (Update f) m = Some (\<lambda>k. map_option (f k) (m k))"
| "map_step d Clear m = Some Map.empty"

text \<open>The map that lookups see.\<close>

definition seen :: "('k::linorder, 'v) rb_map \<Rightarrow> 'k \<Rightarrow> 'v option" where
  "seen s k = (case rb_get k s of Some (Inr v) \<Rightarrow> Some v | _ \<Rightarrow> None)"

definition rb_ok :: "('k::linorder, 'v) rb_map \<Rightarrow> bool" where
  "rb_ok s \<longleftrightarrow> (\<exists>t. represents s t)"

lemma seen_represents: "represents s t \<Longrightarrow> seen s = rb_map_of (entries t)"
  by (auto simp: seen_def fun_eq_iff rb_get_represents split: option.splits)

lemma rb_step_represents:
  assumes rep: "represents s t"
  shows "\<exists>s' t'. rb_step d x s = Some s' \<and> represents s' t' \<and> map_step d x (rb_map_of (entries t)) = Some (rb_map_of (entries t'))"
proof (cases x)
  case (Insert k v)
  then show ?thesis using rb_insert_put [OF rep, of k v] rb_map_of_put [OF represents_sorted [OF rep]] by fastforce
next
  case (Index k)
  then show ?thesis using getOrDefault_put [OF rep, of k d] rb_map_of_put [OF represents_sorted [OF rep], of False _ k d]
    by (fastforce simp: rb_index_def dom_def split: if_splits)
next
  case (Assign k v)
  obtain b s' t' w where g: "getOrDefault k d s = Some (b, s')" "represents s' t'"
      "entries t' = put False (rb_next s) k d (entries t)" "(b, k, w) \<in> set (entries t')"
    using getOrDefault_put [OF rep, of k d] by blast
  obtain s'' t'' where "modify b (\<lambda>n. n\<lparr>second := v\<rparr>) s' = Some s''" "represents s'' t''"
      "rb_map_of (entries t'') = (rb_map_of (entries t'))(k \<mapsto> v)"
    using set_value_represents [OF g(2,4)] by blast
  then show ?thesis using Assign g(1,3) rb_map_of_put [OF represents_sorted [OF rep], of False _ k d]
    by (auto simp: fun_eq_iff rb_index_def)
next
  case (Update f)
  obtain s' t' where m: "forEachMut f s = Some s'" "represents s' t'" "entries t' = rewritten f (entries t)"
    using forEachMut_represents [OF rep, of f] by blast
  then show ?thesis using Update
    by (intro exI [of _ s'] exI [of _ t']) (simp add: fun_eq_iff rb_map_of_rewritten)
next
  case Clear
  obtain s' where "rb_clear s = Some s'" "represents s' Lf" using rb_clear_represents [OF rep] by blast
  then show ?thesis using Clear by (intro exI [of _ s'] exI [of _ Lf]) simp
qed

lemma rb_step_ok: "rb_ok s \<Longrightarrow> rb_step d x s = Some s' \<Longrightarrow> rb_ok s'"
  using rb_step_represents [of s _ d x] by (fastforce simp: rb_ok_def)

lemma rb_step_seen: "rb_ok s \<Longrightarrow> map_option seen (rb_step d x s) = map_step d x (seen s)"
  using rb_step_represents [of s _ d x] by (fastforce simp: rb_ok_def seen_represents)

interpretation rb: simulation "rb_step d" "map_step d" rb_ok seen
  by unfold_locales (fact rb_step_ok, fact rb_step_seen)

lemma rb_new_ok: "rb_ok (rb_new k v)" "seen (rb_new k v) = Map.empty"
  using rb_new_represents [of k v] seen_represents [OF rb_new_represents, of k v] by (auto simp: rb_ok_def)

lemma map_step_total: "\<exists>m'. map_step d x m = Some m'"
  by (cases x) auto

lemma map_run_total: "\<exists>m'. run_ops (map_step d) xs m = Some m'"
proof (induction xs arbitrary: m)
  case (Cons x xs)
  obtain m' where "map_step d x m = Some m'" using map_step_total [of d x m] by auto
  then show ?case using Cons [of m'] by simp
qed simp

lemma rb_run: "\<exists>s. run_ops (rb_step d) xs (rb_new dk dv) = Some s \<and> rb_ok s \<and> run_ops (map_step d) xs Map.empty = Some (seen s)"
proof -
  obtain m where m: "run_ops (map_step d) xs Map.empty = Some m" using map_run_total [of d xs Map.empty] by auto
  have "run_ops (map_step d) xs (seen (rb_new dk dv)) = Some m" using m rb_new_ok(2) [of dk dv] by simp
  from rb.run_total [OF rb_new_ok(1) this] show ?thesis using m by auto
qed

lemma rb_run_represents:
  obtains s t where "run_ops (rb_step d) xs (rb_new dk dv) = Some s" "represents s t"
    "run_ops (map_step d) xs Map.empty = Some (rb_map_of (entries t))"
proof -
  obtain s where s: "run_ops (rb_step d) xs (rb_new dk dv) = Some s" "rb_ok s" "run_ops (map_step d) xs Map.empty = Some (seen s)"
    using rb_run [of d xs dk dv] by auto
  obtain t where t: "represents s t" using s(2) by (auto simp: rb_ok_def)
  show ?thesis by (rule that [OF s(1) t]) (use s(3) seen_represents [OF t] in simp)
qed

text \<open>
  C9: any sequence of insertions, subscripts, assignments, \<open>forEachMut\<close> and clears from a new map
  runs to its end, and the resulting map answers every lookup as the finite map the sequence makes.
\<close>

theorem rb_map_refines:
  "\<exists>s m. run_ops (rb_step d) xs (rb_new dk dv) = Some s \<and> run_ops (map_step d) xs Map.empty = Some m
     \<and> (\<forall>k. rb_get k s = Some (case m k of None \<Rightarrow> Inl No_such_mapping | Some v \<Rightarrow> Inr v))"
  by (rule rb_run_represents [of d xs dk dv]) (auto simp: rb_get_represents)

section \<open>Balance\<close>

fun height :: "('k, 'v) ptree \<Rightarrow> nat" where
  "height Lf = 0"
| "height (Nd a c l k v r) = Suc (max (height l) (height r))"

lemma rbt_size: "rbt n t \<Longrightarrow> 2 ^ n \<le> Suc (length (entries t))"
proof (induction n t rule: rbt.induct)
  case (3 n a l k v r)
  then obtain m where m: "n = Suc m" "rbt m l" "rbt m r" by auto
  then have "2 ^ m \<le> Suc (length (entries l))" "2 ^ m \<le> Suc (length (entries r))" using 3(1,2) by auto
  then show ?case using m(1) by simp
qed auto

lemma rbt_height: "rbt n t \<Longrightarrow> height t \<le> 2 * n + (if col t = RED then 1 else 0)"
proof (induction n t rule: rbt.induct)
  case (3 n a l k v r)
  then obtain m where m: "n = Suc m" "rbt m l" "rbt m r" by auto
  have "height l \<le> 2 * m + 1" using 3(1) [OF m(2)] by (cases "col l") auto
  moreover have "height r \<le> 2 * m + 1" using 3(2) [OF m(3)] by (cases "col r") auto
  ultimately have "height l \<le> 2 * m + 1" "height r \<le> 2 * m + 1" by blast+
  then show ?case using m(1) by simp
qed auto

lemma balanced_height: "balanced t \<Longrightarrow> 2 ^ (height t div 2) \<le> Suc (length (entries t))"
proof -
  assume "balanced t"
  then obtain n where n: "rbt n t" "col t = BLACK" by (auto simp: balanced_def)
  then have "height t div 2 \<le> n" using rbt_height [OF n(1)] by simp
  then have "(2::nat) ^ (height t div 2) \<le> 2 ^ n" by simp
  then show ?thesis using rbt_size [OF n(1)] by linarith
qed

lemma card_dom_entries:
  fixes es :: "(nat \<times> 'k::linorder \<times> 'v) list"
  assumes "sorted_wrt (<) (keys_of es)"
  shows "card (dom (rb_map_of es)) = length es"
proof -
  have "dom (rb_map_of es) = set (keys_of es)"
  proof (rule set_eqI)
    show "x \<in> dom (rb_map_of es) \<longleftrightarrow> x \<in> set (keys_of es)" for x
      using rb_map_of_absent [of x es] by (metis domIff)
  qed
  moreover have "distinct (keys_of es)" using assms strict_sorted_iff [of "keys_of es"] by simp
  ultimately show ?thesis using distinct_card [of "keys_of es"] by simp
qed

lemma represents_size: "represents s t \<Longrightarrow> rb_size s = length (entries t)"
  unfolding represents_def holds_def rb_size_def using shapeD(3) by metis

text \<open>
  C10: after any such sequence the heap holds a red-black tree in the order of its keys, its height is
  at most twice the logarithm of the size, and the counter is the number of keys.
\<close>

theorem rb_map_balanced:
  "\<exists>s t. run_ops (rb_step d) xs (rb_new dk dv) = Some s \<and> represents s t \<and> balanced t
     \<and> 2 ^ (height t div 2) \<le> rb_size s + 1 \<and> rb_size s = card (dom (seen s))"
proof (rule rb_run_represents [of d xs dk dv])
  fix s t
  assume run: "run_ops (rb_step d) xs (rb_new dk dv) = Some s" and t: "represents s t"
  have bal: "balanced t" using t by (auto simp: represents_def holds_def)
  have "2 ^ (height t div 2) \<le> rb_size s + 1" using balanced_height [OF bal] represents_size [OF t] by simp
  moreover have "rb_size s = card (dom (seen s))"
    using card_dom_entries [OF represents_sorted [OF t]] by (simp add: represents_size [OF t] seen_represents [OF t])
  ultimately show ?thesis using run t bal by blast
qed

section \<open>Insertion\<close>

text \<open>
  An insertion succeeds, keeps the invariant, and changes the entries only at the key: a present
  key keeps its node and gets the value, a new one gets a fresh node at its place in the order, and
  all other nodes keep their addresses.
\<close>

lemma rb_insert_entries:
  assumes "represents s t"
  shows "\<exists>s' t'. rb_insert k v s = Some s' \<and> represents s' t' \<and> entries t' = put True (rb_next s) k v (entries t)"
  using assms by (rule rb_insert_put)

text \<open>The insertion into a new map.\<close>

lemma rb_insert_entries_witness:
  "\<exists>s' t'. rb_insert (5 :: nat) True (rb_new 0 False) = Some s' \<and> represents s' t' \<and> entries t' = [(2, 5, True)]"
  using rb_insert_entries [OF rb_new_represents [of "0 :: nat" False], of 5 True] by (simp add: rb_new_def)

section \<open>Iteration\<close>

text \<open>The loop \<open>for (it = begin(); it != end(); ++it)\<close> and its reverse, collecting the entries.\<close>

partial_function (option) loop_from :: "nat \<Rightarrow> ('k, 'v, ('k \<times> 'v) list) rb_op" where
  [code]: "loop_from a s =
     (if a = rb_end s then Some []
      else do {
        n \<leftarrow> deref a s;
        b \<leftarrow> iterator_increment a s;
        es \<leftarrow> loop_from b s;
        Some ((first n, second n) # es) })"

partial_function (option) reverse_loop_from :: "nat \<Rightarrow> ('k, 'v, ('k \<times> 'v) list) rb_op" where
  [code]: "reverse_loop_from a s =
     (if a = rb_end s then Some []
      else do {
        n \<leftarrow> deref a s;
        b \<leftarrow> reverse_iterator_increment a s;
        es \<leftarrow> reverse_loop_from b s;
        Some ((first n, second n) # es) })"

lemma loop_from_entries:
  "holds e s t \<Longrightarrow> entries t = xs @ ys \<Longrightarrow> loop_from (hd (map fst ys @ [header s])) s = Some (map snd ys)"
proof (induction ys arbitrary: xs)
  case Nil
  then show ?case by (subst loop_from.simps) (simp add: rb_end_def)
next
  case (Cons y ys)
  obtain a k v where y: "y = (a, k, v)" by (cases y) auto
  have sh: "shape e s t" using Cons.prems(1) by (simp add: holds_def)
  have A: "addrs t = map fst xs @ a # map fst ys" using Cons.prems(2) y by (simp add: addrs_entries)
  have "a \<noteq> header s" using shapeD(8) [OF sh] A by auto
  moreover obtain n where "deref a s = Some n" "first n = k" "second n = v"
    using entry_deref [OF Cons.prems(1), of a k v] Cons.prems(2) y by auto
  moreover have "iterator_increment a s = Some (hd (map fst ys @ [header s]))"
    using step_entry(1) [OF sh A] by (simp add: iterator_increment_def)
  moreover have "loop_from (hd (map fst ys @ [header s])) s = Some (map snd ys)"
    using Cons.IH [of "xs @ [y]"] Cons.prems by simp
  ultimately show ?case using y by (subst loop_from.simps) (simp add: rb_end_def)
qed

lemma reverse_loop_from_entries:
  "holds e s t \<Longrightarrow> entries t = xs @ ys \<Longrightarrow> reverse_loop_from (last (header s # map fst xs)) s = Some (rev (map snd xs))"
proof (induction xs arbitrary: ys rule: rev_induct)
  case Nil
  then show ?case by (subst reverse_loop_from.simps) (simp add: rb_end_def)
next
  case (snoc y xs)
  obtain a k v where y: "y = (a, k, v)" by (cases y) auto
  have sh: "shape e s t" using snoc.prems(1) by (simp add: holds_def)
  have A: "addrs t = map fst xs @ a # map fst ys" using snoc.prems(2) y by (simp add: addrs_entries)
  have "a \<noteq> header s" using shapeD(8) [OF sh] A by auto
  moreover obtain n where "deref a s = Some n" "first n = k" "second n = v"
    using entry_deref [OF snoc.prems(1), of a k v] snoc.prems(2) y by auto
  moreover have "reverse_iterator_increment a s = Some (last (header s # map fst xs))"
    using step_entry(2) [OF sh A] by (simp add: reverse_iterator_increment_def)
  moreover have "reverse_loop_from (last (header s # map fst xs)) s = Some (rev (map snd xs))"
    using snoc.IH [of "y # ys"] snoc.prems by simp
  ultimately show ?case using y by (subst reverse_loop_from.simps) (simp add: rb_end_def)
qed

lemma fold_collect: "fold (\<lambda>(a, k, v) ys. ys @ [(k, v)]) es ys = ys @ map snd es"
  by (induction es arbitrary: ys) auto

text \<open>
  C11: after any sequence, the loop over the iterators, the loop over the reverse iterators and
  \<open>forEach\<close> all end; they visit every entry once, in the order of the keys, in the reverse order and
  in the order of the keys.
\<close>

theorem rb_loops_in_order:
  "\<exists>s es. run_ops (rb_step d) xs (rb_new dk dv) = Some s
     \<and> sorted_wrt (<) (map fst es) \<and> map_of es = seen s
     \<and> Option.bind (rb_begin s) (\<lambda>b. loop_from b s) = Some es
     \<and> Option.bind (rb_rbegin s) (\<lambda>b. reverse_loop_from b s) = Some (rev es)
     \<and> forEach (\<lambda>k v ys. ys @ [(k, v)]) [] s = Some es"
proof (rule rb_run_represents [of d xs dk dv])
  fix s t
  assume run: "run_ops (rb_step d) xs (rb_new dk dv) = Some s" and t: "represents s t"
  obtain e where h: "holds e s t" using t by (auto simp: represents_def)
  have "rb_begin s = Some (hd (map fst (entries t) @ [header s]))" "rb_rbegin s = Some (last (header s # map fst (entries t)))"
    using holds_header [OF h] by (simp_all add: rb_begin_def rb_rbegin_def addrs_entries)
  then have "Option.bind (rb_begin s) (\<lambda>b. loop_from b s) = Some (map snd (entries t))"
    "Option.bind (rb_rbegin s) (\<lambda>b. reverse_loop_from b s) = Some (rev (map snd (entries t)))"
    using loop_from_entries [OF h, of "[]" "entries t"] reverse_loop_from_entries [OF h, of "entries t" "[]"]
    by (simp_all del: last.simps)
  moreover have "forEach (\<lambda>k v ys. ys @ [(k, v)]) [] s = Some (map snd (entries t))"
    using forEach_represents [OF t, of "\<lambda>k v ys. ys @ [(k, v)]" "[]"] fold_collect [of "entries t" "[]"] by simp
  moreover have "sorted_wrt (<) (map fst (map snd (entries t)))" using represents_sorted [OF t] by simp
  moreover have "map_of (map snd (entries t)) = seen s" using seen_represents [OF t] by (simp add: rb_map_of_def)
  ultimately show ?thesis using run by blast
qed

text \<open>
  After any sequence, an increment followed by a decrement gives the same position again, for
  every entry, the last one and the step over the end included.
\<close>

theorem rb_steps_inverse:
  "\<exists>s t. run_ops (rb_step d) xs (rb_new dk dv) = Some s \<and> represents s t
     \<and> list_all (\<lambda>a. Option.bind (iterator_increment a s) (\<lambda>b. iterator_decrement b s) = Some a) (addrs t)"
proof (rule rb_run_represents [of d xs dk dv])
  fix s t
  assume run: "run_ops (rb_step d) xs (rb_new dk dv) = Some s" and t: "represents s t"
  obtain e where h: "holds e s t" using t by (auto simp: represents_def)
  have sh: "shape e s t" using h by (simp add: holds_def)
  have "Option.bind (iterator_increment a s) (\<lambda>b. iterator_decrement b s) = Some a" if a: "a \<in> set (addrs t)" for a
  proof -
    obtain ys zs where A: "addrs t = ys @ a # zs" using split_list [OF a] by blast
    have i: "iterator_increment a s = Some (hd (zs @ [header s]))" using step_entry(1) [OF sh A] by (simp add: iterator_increment_def)
    have "t \<noteq> Lf" using a by auto
    show ?thesis
    proof (cases zs)
      case Nil
      then show ?thesis using i at_end_header [OF h \<open>t \<noteq> Lf\<close>] holds_header [OF h] A by (simp add: iterator_decrement_def)
    next
      case (Cons b bs)
      then have B: "addrs t = (ys @ [a]) @ b # bs" using A by simp
      obtain C c l k v r where p: "t = plug C (Nd b c l k v r)" by (rule place_of_entry [OF sh B])
      then have "at_end b s = Some False" using at_end_entry [of e s C "Nd b c l k v r"] h by simp
      then show ?thesis using i Cons step_entry(2) [OF sh B] by (simp add: iterator_decrement_def)
    qed
  qed
  then show ?thesis using run t by (auto simp: list_all_iff)
qed

text \<open>From the end, \<open>reverse_iterator\<close> steps back to the first entry, \<open>const_reverse_iterator\<close> to the last.\<close>

lemma reverse_decrements_differ:
  assumes "represents s t" and "t \<noteq> Lf"
  shows "reverse_iterator_decrement (rb_end s) s = Some (hd (addrs t))
         \<and> const_reverse_iterator_decrement (rb_end s) s = Some (last (addrs t))"
proof -
  obtain e where h: "holds e s t" using assms(1) by (auto simp: represents_def)
  have "addrs t \<noteq> []" using assms(2) by (cases t) auto
  then show ?thesis using at_end_header [OF h assms(2)] holds_header [OF h]
    by (simp add: reverse_iterator_decrement_def const_reverse_iterator_decrement_def rb_end_def)
qed

section \<open>Bounds, counting and clearing\<close>

text \<open>
  C12: after any sequence, \<open>lower_bound\<close> gives the first entry whose key is not less and \<open>upper_bound\<close>
  the first one whose key is greater, or the end when there is none.
\<close>

theorem rb_bounds:
  "\<exists>s t. run_ops (rb_step d) xs (rb_new dk dv) = Some s \<and> represents s t
     \<and> (\<forall>k. lower_bound k s = Some (first_such (\<lambda>x. k \<le> x) (entries t) (rb_end s))
          \<and> upper_bound k s = Some (first_such (\<lambda>x. k < x) (entries t) (rb_end s)))"
  by (rule rb_run_represents [of d xs dk dv]) (auto simp: rb_end_def bounds_represents)

text \<open>
  \<open>count\<close> is 1 or 0 by the presence of the key, and follows a null pointer exactly when the map
  is empty.
\<close>

lemma rb_count_outcome:
  "\<exists>s. run_ops (rb_step d) xs (rb_new dk dv) = Some s
     \<and> (\<forall>k. rb_count k s = (if rb_empty s then None else Some (if seen s k = None then 0 else 1)))"
proof (rule rb_run_represents [of d xs dk dv])
  fix s t
  assume run: "run_ops (rb_step d) xs (rb_new dk dv) = Some s" and t: "represents s t"
  have "rb_empty s \<longleftrightarrow> t = Lf" using represents_size [OF t] by (simp add: rb_size_def rb_empty_def entries_Nil)
  then show ?thesis using run rb_count_represents [OF t] by (auto simp: seen_represents [OF t])
qed

text \<open>
  \<open>clear\<close> after any sequence succeeds, frees every node but the header, and leaves an empty map.
\<close>

theorem rb_clear_frees:
  "\<exists>s s'. run_ops (rb_step d) xs (rb_new dk dv) = Some s \<and> rb_clear s = Some s'
     \<and> represents s' Lf \<and> dom (rb_heap s') = {rb_end s} \<and> seen s' = Map.empty"
proof (rule rb_run_represents [of d xs dk dv])
  fix s t
  assume run: "run_ops (rb_step d) xs (rb_new dk dv) = Some s" and t: "represents s t"
  obtain s' where s': "rb_clear s = Some s'" "represents s' Lf" "header s' = header s" "dom (rb_heap s') = {header s}"
    using rb_clear_represents [OF t] by blast
  then show ?thesis using run seen_represents [OF s'(2)]
    by (intro exI [of _ s] exI [of _ s']) (auto simp: rb_end_def)
qed

section \<open>Removal\<close>

text \<open>
  C13: the outcome of \<open>erase(key)\<close> on any map that holds a tree: an absent key changes nothing; a
  present one is removed with its node, and the invariant kept, when it is the only one or when the
  unlinked node has a child; and when the unlinked node is a leaf beside others, the code reads the
  node after its \<open>delete\<close>.
\<close>

theorem rb_erase_outcome:
  assumes "represents s t"
  shows "if k \<notin> set (keys_of (entries t)) then erase_key k s = Some (0, s)
     else if unlinks_leaf k t \<and> length (entries t) \<noteq> 1 then erase_key k s = None
     else \<exists>s' t'. erase_key k s = Some (1, s') \<and> represents s' t' \<and> entries t' = filter (\<lambda>x. fst (snd x) \<noteq> k) (entries t)"
proof (cases "k \<in> set (keys_of (entries t))")
  case True
  then show ?thesis using erase_key_present [OF assms True] by (simp del: set_map)
qed (simp add: erase_key_absent [OF assms] del: set_map)

text \<open>The root with a red child on the right: its key is removed, the leaf is not.\<close>

lemma two_entries:
  "\<exists>s. run_ops (rb_step False) [Insert (1 :: nat) True, Insert 2 False] (rb_new 0 False) = Some s
     \<and> represents s (Nd 2 BLACK Lf 1 True (Nd 3 RED Lf 2 False Lf))"
proof -
  let ?n = "\<lambda>c p l r k v. \<lparr>color = c, parent = p, left_child = l, right_child = r, first = k :: nat, second = v\<rparr>"
  let ?s = "\<lparr>rb_heap = [1 \<mapsto> ?n RED 2 2 3 0 False, 2 \<mapsto> ?n BLACK 1 0 3 1 True, 3 \<mapsto> ?n RED 2 0 0 2 False],
             rb_next = 4, header = 1, root = 2, cnt = 2\<rparr>"
  have "holds \<lparr>e_header = 1, e_next = 4, e_cnt = 2, e_node = ?n RED 2 2 3 0 False\<rparr> ?s (Nd 2 BLACK Lf 1 True (Nd 3 RED Lf 2 False Lf))"
    by (auto simp: holds_def shape_def ends_def balanced_def mk_def)
  moreover have "run_ops (rb_step False) [Insert (1 :: nat) True, Insert 2 False] (rb_new 0 False) = Some ?s"
    by (simp add: rb_insert_def insert_root_def new_node_def rb_new_def Let_def modify_def deref_def insert_node.simps
        link_right_def maintainAfterInsert.simps isRoot_def fun_upd_twist)
  ultimately show ?thesis by (auto simp: represents_def)
qed

lemma rb_erase_outcome_witness:
  "\<exists>s. run_ops (rb_step False) [Insert (1 :: nat) True, Insert 2 False] (rb_new 0 False) = Some s
     \<and> (\<exists>s'. erase_key 1 s = Some (1, s') \<and> seen s' = [2 \<mapsto> False]) \<and> erase_key 2 s = None \<and> erase_key 3 s = Some (0, s)"
proof -
  let ?t = "Nd 2 BLACK Lf 1 True (Nd 3 RED Lf 2 False Lf) :: (nat, bool) ptree"
  obtain s where run: "run_ops (rb_step False) [Insert (1 :: nat) True, Insert 2 False] (rb_new 0 False) = Some s"
      and t: "represents s ?t"
    using two_entries by blast
  have "\<exists>s' t'. erase_key 1 s = Some (1, s') \<and> represents s' t' \<and> entries t' = [(3, 2, False)]"
    using rb_erase_outcome [OF t, of 1] by (simp add: unlinked_leaf_def)
  then have "\<exists>s'. erase_key 1 s = Some (1, s') \<and> seen s' = [2 \<mapsto> False]"
    by (auto simp: seen_represents rb_map_of_def)
  moreover have "erase_key 2 s = None" "erase_key 3 s = Some (0, s)"
    using rb_erase_outcome [OF t, of 2] rb_erase_outcome [OF t, of 3] by (simp_all add: unlinked_leaf_def)
  ultimately show ?thesis using run by blast
qed

text \<open>
  C14: the repair before a black leaf is unlinked meets no failing assertion and no null pointer,
  keeps all entries, and leaves the leaf at a place where a red-black tree remains without it.
\<close>

theorem rb_leaf_repaired:
  assumes "represents s (plug C (Nd a BLACK Lf k v Lf))" and "C \<noteq> []"
  shows "\<exists>e s' D. maintainAfterRemove a s = Some s' \<and> shape e s' (plug D (Nd a BLACK Lf k v Lf))
     \<and> entries (plug D (Nd a BLACK Lf k v Lf)) = entries (plug C (Nd a BLACK Lf k v Lf)) \<and> balanced (plug D Lf)"
proof -
  obtain e where h: "holds e s (plug C (Nd a BLACK Lf k v Lf))" using assms(1) by (auto simp: represents_def)
  then have sh: "shape e s (plug C (Nd a BLACK Lf k v Lf))" and C: "rbc (Suc 0) C"
    by (auto simp: holds_def balanced_plug fits_def)
  obtain s' where "maintainAfterRemove a s = Some s'" "shape e s' (plug (del_fix C) (Nd a BLACK Lf k v Lf))"
    using maintainAfterRemove_shape [OF sh _ _ C] by auto
  moreover have "entries (plug (del_fix C) (Nd a BLACK Lf k v Lf)) = entries (plug C (Nd a BLACK Lf k v Lf))"
    using del_fix_sides [OF C] by (simp add: entries_plug)
  moreover have "fits (del_fix C) (Lf :: ('a, 'b) ptree)" using rbc_del_fix [OF C] by (auto simp: fits_def)
  ultimately show ?thesis by (auto simp: balanced_plug)
qed

text \<open>Three black nodes: the left leaf goes, its sibling turns red.\<close>

lemma rb_leaf_repaired_witness:
  "\<exists>s s' D. represents s (Nd 2 BLACK (Nd 3 BLACK Lf (1 :: nat) True Lf) 2 True (Nd 4 BLACK Lf 3 True Lf))
     \<and> maintainAfterRemove 3 s = Some s' \<and> addrs (plug D (Nd 3 BLACK Lf (1 :: nat) True Lf)) = [3, 2, 4] \<and> balanced (plug D Lf)"
proof -
  let ?n = "\<lambda>c p l r k. \<lparr>color = c, parent = p, left_child = l, right_child = r, first = k :: nat, second = True\<rparr>"
  let ?s = "\<lparr>rb_heap = [1 \<mapsto> ?n RED 2 3 4 0, 2 \<mapsto> ?n BLACK 1 3 4 2, 3 \<mapsto> ?n BLACK 2 0 0 1, 4 \<mapsto> ?n BLACK 2 0 0 3],
             rb_next = 5, header = 1, root = 2, cnt = 3\<rparr>"
  let ?C = "[Fr True 2 BLACK (2 :: nat) True (Nd 4 BLACK Lf 3 True Lf)]"
  have "holds \<lparr>e_header = 1, e_next = 5, e_cnt = 3, e_node = ?n RED 2 3 4 0\<rparr> ?s (plug ?C (Nd 3 BLACK Lf 1 True Lf))"
    by (auto simp: holds_def shape_def ends_def balanced_def mk_def)
  then have rep: "represents ?s (plug ?C (Nd 3 BLACK Lf 1 True Lf))" by (auto simp only: represents_def)
  from rb_leaf_repaired [OF this] obtain e s' D where "maintainAfterRemove 3 ?s = Some s'" "balanced (plug D Lf)"
      "entries (plug D (Nd 3 BLACK Lf 1 True Lf)) = entries (plug ?C (Nd 3 BLACK Lf (1 :: nat) True Lf))"
    by blast
  moreover from this(3) have "addrs (plug D (Nd 3 BLACK Lf (1 :: nat) True Lf)) = [3, 2, 4]" by (simp add: addrs_entries)
  moreover have "represents ?s (Nd 2 BLACK (Nd 3 BLACK Lf (1 :: nat) True Lf) 2 True (Nd 4 BLACK Lf 3 True Lf))"
    using rep by simp
  ultimately show ?thesis by blast
qed

section \<open>Erasing a position\<close>

lemma erase_at_entry:
  assumes rep: "represents s t" and A: "addrs t = xs @ a # ys" and k: "(a, k, v) \<in> set (entries t)"
  shows "if unlinks_leaf k t \<and> length (entries t) \<noteq> 1 then erase_at a s = None
     else \<exists>s' t'. erase_at a s = Some (hd (ys @ [rb_end s]), s') \<and> represents s' t'
        \<and> entries t' = filter (\<lambda>x. fst (snd x) \<noteq> k) (entries t)"
proof -
  obtain e where h: "holds e s t" using rep by (auto simp: represents_def)
  have sh: "shape e s t" using h by (simp add: holds_def)
  obtain n where n: "deref a s = Some n" "first n = k" using entry_deref [OF h k] by auto
  have "a \<noteq> 0" "a \<noteq> rb_end s" using n(1) shapeD(8) [OF sh] A by (auto simp: deref_def rb_end_def split: if_splits)
  moreover have "iterator_increment a s = Some (hd (ys @ [rb_end s]))"
    using step_entry(1) [OF sh A] by (simp add: iterator_increment_def rb_end_def)
  moreover have "k \<in> set (keys_of (entries t))" using k by force
  ultimately show ?thesis using n
    by (rule_tac remove_key_removal [OF rep, of k]) (auto simp: erase_at_def split: if_splits)
qed

lemma erase_all:
  assumes "represents s t"
  shows "\<exists>b s'. rb_begin s = Some b \<and> erase_range b (rb_end s) s = Some (rb_end s, s') \<and> represents s' Lf"
proof -
  obtain e where h: "holds e s t" using assms by (auto simp: represents_def)
  obtain s' where "rb_clear s = Some s'" "represents s' Lf" "header s' = header s"
    using rb_clear_represents [OF assms] by blast
  then show ?thesis using holds_header(1) [OF h] by (simp add: erase_range_def rb_begin_def rb_end_def)
qed

end
