(* ===== verification/Spsc_Queue.thy ===== *)
theory Spsc_Queue
  imports Simulation "HOL-Library.Monad_Syntax"
begin

text \<open>
  \<open>SpscQueue<T, RequestedCapacity>\<close> of \<open>container/ConcurrentQueue.hpp\<close>: a bounded queue for one
  producer and one consumer. Two counters of type \<open>size_t\<close> count the elements ever enqueued and
  dequeued and wrap around; an element lives in the cell its position selects by masks and shifts,
  in one of several chunks. A cell holds an object or raw storage (None). A chunk or cell index out
  of range, like the use of an object that does not exist, is undefined and the value None of an
  operation.
\<close>

section \<open>Sizes\<close>

definition queue_power_of_two :: "u64 \<Rightarrow> u64" where
  "queue_power_of_two value =
     (if value \<le> 1 then 1
      else
        let value = value - 1;
            value = value OR drop_bit 1 value;
            value = value OR drop_bit 2 value;
            value = value OR drop_bit 4 value;
            value = value OR drop_bit 8 value;
            value = value OR drop_bit 16 value;
            value = value OR drop_bit 32 value
        in value + 1)"

function log2_loop :: "u64 \<Rightarrow> u64 \<Rightarrow> u64" where
  "log2_loop value shift = (if 1 < value then log2_loop (drop_bit 1 value) (shift + 1) else shift)"
  by pat_completeness auto

lemma unat_half: "unat (drop_bit 1 (v::u64)) = unat v div 2"
  by (metis drop_bit_eq_div power_one_right unat_drop_bit_eq)

termination log2_loop
proof (relation "measure (unat \<circ> fst)")
  fix v s :: u64
  assume "1 < v"
  then have "1 < unat v" by (metis unat_1 word_less_nat_alt)
  then show "((drop_bit 1 v, s + 1), v, s) \<in> measure (unat \<circ> fst)" by (simp add: unat_half del: One_nat_def)
qed simp

definition log2_power_of_two :: "u64 \<Rightarrow> u64" where
  "log2_power_of_two value = log2_loop value 0"

definition min_chunk_capacity :: u64 where "min_chunk_capacity = 64"

definition max_chunk_capacity :: u64 where "max_chunk_capacity = 1024"

text \<open>The loop that looks for a chunk about as long as the list of chunks.\<close>

function square_loop :: "u64 \<Rightarrow> u64 \<Rightarrow> u64" where
  "square_loop capacity chunk =
     (if chunk \<noteq> 0 \<and> chunk < capacity div chunk then square_loop capacity (push_bit 1 chunk) else chunk)"
  by pat_completeness auto

lemma below_quotient:
  assumes "(chunk::u64) \<noteq> 0" and "chunk < capacity div chunk"
  shows "unat chunk * unat chunk < unat capacity" and "unat chunk < 2 ^ 32"
    and "unat (push_bit 1 chunk) = 2 * unat chunk"
proof -
  have "unat chunk < unat capacity div unat chunk" using assms(2) by (simp add: word_less_nat_alt unat_div)
  then have "Suc (unat chunk) * unat chunk \<le> unat capacity"
    using assms(1) by (metis Suc_leI less_eq_div_iff_mult_less_eq unat_gt_0)
  then show sq: "unat chunk * unat chunk < unat capacity" using assms(1) by (cases "unat chunk") (auto simp: unat_eq_0)
  show b: "unat chunk < 2 ^ 32"
  proof (rule ccontr)
    assume "\<not> unat chunk < 2 ^ 32"
    then have "(2 ^ 32) * (2 ^ 32) \<le> unat chunk * unat chunk" by (intro mult_le_mono) auto
    moreover have "unat capacity < 2 ^ 64" using unsigned_less [of capacity, where 'a = nat] by simp
    ultimately show False using sq by simp
  qed
  show "unat (push_bit 1 chunk) = 2 * unat chunk"
    using b by (simp add: unat_mult_lem [THEN iffD1] push_bit_eq_mult unat_word_ariths)
qed

termination square_loop
proof (relation "measure (\<lambda>(c, k). unat c - unat k)")
  fix capacity chunk :: u64
  assume "chunk \<noteq> 0 \<and> chunk < capacity div chunk"
  then have "unat chunk * unat chunk < unat capacity" "unat (push_bit 1 chunk) = 2 * unat chunk" "0 < unat chunk"
    using below_quotient by (auto simp: unat_gt_0)
  moreover from this have "unat chunk < unat capacity" using le_square [of "unat chunk"] by linarith
  ultimately show "((capacity, push_bit 1 chunk), capacity, chunk) \<in> measure (\<lambda>(c, k). unat c - unat k)"
    by simp
qed simp

definition balanced_chunk_capacity :: "u64 \<Rightarrow> u64 \<Rightarrow> u64" where
  "balanced_chunk_capacity capacity requested =
     (if capacity = 0 then 1
      else if requested \<noteq> 0 then
        let requested = queue_power_of_two requested
        in if capacity < requested then capacity else requested
      else
        let chunk = square_loop capacity 1;
            chunk = (if chunk < min_chunk_capacity
                     then if capacity < min_chunk_capacity then capacity else min_chunk_capacity
                     else chunk);
            chunk = (if max_chunk_capacity < chunk then max_chunk_capacity else chunk);
            chunk = (if capacity < chunk then capacity else chunk)
        in queue_power_of_two chunk)"

section \<open>The queue\<close>

record 'a spsc =
  sq_capacity :: u64
  sq_mask :: u64
  sq_chunkCapacity :: u64
  sq_chunkMask :: u64
  sq_chunkShift :: u64
  sq_chunkCount :: u64
  sq_chunks :: "'a option list list"
  sq_head :: u64
  sq_tail :: u64

text \<open>
  \<open>fallback\<close> is \<open>DefaultCapacity\<close>, the power of two above the template argument. A chunk capacity of
  zero makes the division by it undefined.
\<close>

definition spsc_new :: "u64 \<Rightarrow> u64 \<Rightarrow> u64 \<Rightarrow> 'a spsc option" where
  "spsc_new fallback capacity chunkCapacity =
     (let cap = queue_power_of_two (if capacity \<noteq> 0 then capacity else fallback);
          chunk = balanced_chunk_capacity cap chunkCapacity;
          count = cap div chunk
      in if chunk = 0 then None
         else Some \<lparr>sq_capacity = cap, sq_mask = cap - 1, sq_chunkCapacity = chunk, sq_chunkMask = chunk - 1,
          sq_chunkShift = log2_power_of_two chunk, sq_chunkCount = count,
          sq_chunks = replicate (unat count) (replicate (unat chunk) None),
          sq_head = 0, sq_tail = 0\<rparr>)"

text \<open>\<open>cell_at_\<close> gives the chunk and the cell in it of a position.\<close>

definition cell_at :: "u64 \<Rightarrow> 'a spsc \<Rightarrow> (nat \<times> nat) option" where
  "cell_at position q =
     (let index = position AND sq_mask q;
          i = unat (drop_bit (unat (sq_chunkShift q)) index);
          j = unat (index AND sq_chunkMask q)
      in if i < length (sq_chunks q) \<and> j < length (sq_chunks q ! i) then Some (i, j) else None)"

definition read_cell :: "nat \<times> nat \<Rightarrow> 'a spsc \<Rightarrow> 'a option" where
  "read_cell c q = sq_chunks q ! fst c ! snd c"

definition write_cell :: "nat \<times> nat \<Rightarrow> 'a option \<Rightarrow> 'a spsc \<Rightarrow> 'a spsc" where
  "write_cell c v q = q\<lparr>sq_chunks := (sq_chunks q)[fst c := (sq_chunks q ! fst c)[snd c := v]]\<rparr>"

text \<open>
  Constructing an object with placement \<open>new\<close>, where storage is raw, and moving an object out of its
  cell and destroying it.
\<close>

definition construct_at :: "u64 \<Rightarrow> 'a \<Rightarrow> 'a spsc \<Rightarrow> 'a spsc option" where
  "construct_at position x q = do {
     c \<leftarrow> cell_at position q;
     if read_cell c q = None then Some (write_cell c (Some x) q) else None }"

definition take_at :: "u64 \<Rightarrow> 'a spsc \<Rightarrow> ('a \<times> 'a spsc) option" where
  "take_at position q = do {
     c \<leftarrow> cell_at position q;
     x \<leftarrow> read_cell c q;
     Some (x, write_cell c None q) }"

definition spsc_try_enqueue :: "'a \<Rightarrow> 'a spsc \<Rightarrow> (bool \<times> 'a spsc) option" where
  "spsc_try_enqueue x q =
     (if sq_capacity q \<le> sq_head q - sq_tail q then Some (False, q)
      else do {
        q \<leftarrow> construct_at (sq_head q) x q;
        Some (True, q\<lparr>sq_head := sq_head q + 1\<rparr>) })"

definition spsc_try_dequeue :: "'a spsc \<Rightarrow> ('a option \<times> 'a spsc) option" where
  "spsc_try_dequeue q =
     (if sq_tail q = sq_head q then Some (None, q)
      else do {
        (x, q) \<leftarrow> take_at (sq_tail q) q;
        Some (Some x, q\<lparr>sq_tail := sq_tail q + 1\<rparr>) })"

definition spsc_size_approx :: "'a spsc \<Rightarrow> u64" where
  "spsc_size_approx q = sq_head q - sq_tail q"

text \<open>The destructor dequeues until the queue is empty; the result is what it has destroyed.\<close>

partial_function (option) spsc_drain :: "'a spsc \<Rightarrow> ('a list \<times> 'a spsc) option" where
  [code]: "spsc_drain q = do {
     (r, q) \<leftarrow> spsc_try_dequeue q;
     (case r of None \<Rightarrow> Some ([], q)
      | Some x \<Rightarrow> do { (xs, q) \<leftarrow> spsc_drain q; Some (x # xs, q) }) }"

section \<open>Two threads\<close>

text \<open>
  The atomic steps of one producer and one consumer. \<open>In_loaded x h\<close> has read the producer's own
  counter, \<open>In_checked\<close> has also found room, \<open>In_built\<close> has constructed the object; the consumer is
  alike. The last two fields record what was accepted and what was delivered. Memory operations
  are sequentially consistent.
\<close>

datatype 'a producer = In_idle | In_loaded 'a u64 | In_checked 'a u64 | In_built u64

datatype consumer = Out_idle | Out_loaded u64 | Out_checked u64 | Out_taken u64

record 'a spsc_run =
  rn_queue :: "'a spsc"
  rn_in :: "'a producer"
  rn_out :: consumer
  rn_accepted :: "'a list"
  rn_delivered :: "'a list"

inductive produce :: "'a spsc_run \<Rightarrow> 'a spsc_run option \<Rightarrow> bool" where
  load_head: "rn_in s = In_idle \<Longrightarrow> produce s (Some (s\<lparr>rn_in := In_loaded x (sq_head (rn_queue s))\<rparr>))"
| full: "rn_in s = In_loaded x h \<Longrightarrow> sq_capacity (rn_queue s) \<le> h - sq_tail (rn_queue s)
    \<Longrightarrow> produce s (Some (s\<lparr>rn_in := In_idle\<rparr>))"
| room: "rn_in s = In_loaded x h \<Longrightarrow> \<not> sq_capacity (rn_queue s) \<le> h - sq_tail (rn_queue s)
    \<Longrightarrow> produce s (Some (s\<lparr>rn_in := In_checked x h\<rparr>))"
| build: "rn_in s = In_checked x h \<Longrightarrow> construct_at h x (rn_queue s) = Some q
    \<Longrightarrow> produce s (Some (s\<lparr>rn_queue := q, rn_in := In_built h, rn_accepted := rn_accepted s @ [x]\<rparr>))"
| build_fails: "rn_in s = In_checked x h \<Longrightarrow> construct_at h x (rn_queue s) = None \<Longrightarrow> produce s None"
| store_head: "rn_in s = In_built h
    \<Longrightarrow> produce s (Some (s\<lparr>rn_queue := (rn_queue s)\<lparr>sq_head := h + 1\<rparr>, rn_in := In_idle\<rparr>))"

inductive consume :: "'a spsc_run \<Rightarrow> 'a spsc_run option \<Rightarrow> bool" where
  load_tail: "rn_out s = Out_idle \<Longrightarrow> consume s (Some (s\<lparr>rn_out := Out_loaded (sq_tail (rn_queue s))\<rparr>))"
| empty: "rn_out s = Out_loaded t \<Longrightarrow> t = sq_head (rn_queue s) \<Longrightarrow> consume s (Some (s\<lparr>rn_out := Out_idle\<rparr>))"
| some: "rn_out s = Out_loaded t \<Longrightarrow> t \<noteq> sq_head (rn_queue s)
    \<Longrightarrow> consume s (Some (s\<lparr>rn_out := Out_checked t\<rparr>))"
| take: "rn_out s = Out_checked t \<Longrightarrow> take_at t (rn_queue s) = Some (x, q)
    \<Longrightarrow> consume s (Some (s\<lparr>rn_queue := q, rn_out := Out_taken t, rn_delivered := rn_delivered s @ [x]\<rparr>))"
| take_fails: "rn_out s = Out_checked t \<Longrightarrow> take_at t (rn_queue s) = None \<Longrightarrow> consume s None"
| store_tail: "rn_out s = Out_taken t
    \<Longrightarrow> consume s (Some (s\<lparr>rn_queue := (rn_queue s)\<lparr>sq_tail := t + 1\<rparr>, rn_out := Out_idle\<rparr>))"

definition spsc_start :: "'a spsc \<Rightarrow> 'a spsc_run" where
  "spsc_start q = \<lparr>rn_queue = q, rn_in = In_idle, rn_out = Out_idle, rn_accepted = [], rn_delivered = []\<rparr>"

inductive spsc_reaches :: "'a spsc \<Rightarrow> 'a spsc_run option \<Rightarrow> bool" for q where
  start: "spsc_reaches q (Some (spsc_start q))"
| producer: "spsc_reaches q (Some s) \<Longrightarrow> produce s s' \<Longrightarrow> spsc_reaches q s'"
| consumer: "spsc_reaches q (Some s) \<Longrightarrow> consume s s' \<Longrightarrow> spsc_reaches q s'"

text \<open>\<open>size_approx\<close> of another thread: the counters are read one after the other.\<close>

definition observed_size :: "'a spsc_run \<Rightarrow> 'a spsc_run \<Rightarrow> u64" where
  "observed_size s s' = sq_head (rn_queue s) - sq_tail (rn_queue s')"

end
