(* ===== verification/Spsc_Props.thy ===== *)
theory Spsc_Props
  imports Spsc_Queue
begin

text \<open>
  The properties of \<open>SpscQueue\<close>: the geometry of its chunks, the bounded list it implements when one
  thread uses it, and first-in first-out delivery between a producer and a consumer.
\<close>

declare log2_loop.simps [simp del] square_loop.simps [simp del]

section \<open>Sizes\<close>

lemma queue_power_smear:
  assumes "1 < value"
  obtains s where "queue_power_of_two value = s + 1"
    and "\<And>n. bit s n \<longleftrightarrow> (\<exists>d < 64. bit (value - 1) (n + d))"
proof -
  define m where "m = value - 1"
  define s1 where "s1 = m OR drop_bit 1 m"
  define s2 where "s2 = s1 OR drop_bit 2 s1"
  define s4 where "s4 = s2 OR drop_bit 4 s2"
  define s8 where "s8 = s4 OR drop_bit 8 s4"
  define s16 where "s16 = s8 OR drop_bit 16 s8"
  define s32 where "s32 = s16 OR drop_bit 32 s16"
  have "bit m n \<longleftrightarrow> (\<exists>d < 1. bit m (n + d))" for n by simp
  note * = smear_step [where m = m, OF this]
  note * = smear_step [where m = m, OF * [folded s1_def]]
  note * = smear_step [where m = m, OF * [simplified, folded s2_def]]
  note * = smear_step [where m = m, OF * [simplified, folded s4_def]]
  note * = smear_step [where m = m, OF * [simplified, folded s8_def]]
  note * = smear_step [where m = m, OF * [simplified, folded s16_def]]
  have "queue_power_of_two value = s32 + 1"
    using assms [unfolded not_le [symmetric]] unfolding queue_power_of_two_def Let_def s32_def s16_def s8_def s4_def s2_def s1_def m_def
    by simp
  then show ?thesis using that * [simplified, folded s32_def] by (auto simp: m_def)
qed

lemma unat_two_power: "k < 64 \<Longrightarrow> unat (2 ^ k :: u64) = 2 ^ k"
  using unsigned_of_nat [of "2 ^ k", where 'b = 64 and 'a = nat] by (simp add: take_bit_nat_eq_self)

lemma unat_mask_Suc: "unat (mask k + 1 :: u64) = (if k < 64 then 2 ^ k else 0)"
proof -
  have m: "(mask k :: u64) + 1 = 2 ^ k" by (simp add: mask_eq_exp_minus_1)
  show ?thesis
  proof (cases "k < 64")
    case False
    then have "(2::u64) ^ k = 0" using exp_eq_zero_iff [of k, where 'a = 64] by simp
    then show ?thesis using False by (simp only: m if_False unat_0)
  qed (simp add: m unat_two_power)
qed

text \<open>\<open>queue_power_of_two\<close> rounds up to a power of two; above \<open>2 ^ 63\<close> it wraps to 0.\<close>

lemma queue_power_of_two_spec:
  "(unat v \<le> 2 ^ 63 \<longrightarrow> (\<exists>k < 64. unat (queue_power_of_two v) = 2 ^ k \<and> (\<forall>j. unat v \<le> 2 ^ j \<longleftrightarrow> k \<le> j)))
    \<and> (2 ^ 63 < unat v \<longrightarrow> queue_power_of_two v = 0)"
proof (cases "1 < v")
  case False
  then have "v \<le> 1" by (simp add: not_less)
  then have "unat v \<le> 1" "queue_power_of_two v = 1"
    by (simp_all add: queue_power_of_two_def word_le_nat_alt)
  moreover from this have "unat v \<le> 2 ^ j" for j
    by (metis le_trans one_le_numeral one_le_power)
  ultimately show ?thesis by (intro conjI impI exI [of _ 0]) auto
next
  case True
  then have v: "1 < unat v" by (simp add: word_less_nat_alt)
  obtain s where s: "queue_power_of_two v = s + 1" "\<And>n. bit s n \<longleftrightarrow> (\<exists>d < 64. bit (v - 1) (n + d))"
    using queue_power_smear [OF True] by blast
  have m: "unat (v - 1) = unat v - 1" using unat_sub [of 1 v] v by (simp add: word_le_nat_alt)
  then have "v - 1 \<noteq> 0" using v by (metis unat_0 zero_less_diff less_irrefl)
  then obtain t where t: "t < 64" "s = mask (Suc t)" "2 ^ t \<le> unat v - 1" "unat v - 1 < 2 ^ Suc t"
    using smear_mask [of s "v - 1"] s(2) m by auto
  have least: "unat v \<le> 2 ^ j \<longleftrightarrow> Suc t \<le> j" for j
  proof
    assume "unat v \<le> 2 ^ j"
    then have "(2::nat) ^ t < 2 ^ j" using t(3) v by linarith
    then show "Suc t \<le> j" by (simp add: Suc_le_eq power_strict_increasing_iff)
  next
    assume "Suc t \<le> j"
    then have "(2::nat) ^ Suc t \<le> 2 ^ j" by (intro power_increasing) auto
    then show "unat v \<le> 2 ^ j" using t(4) by linarith
  qed
  have r: "unat (queue_power_of_two v) = (if Suc t < 64 then 2 ^ Suc t else 0)"
    using s(1) t(2) unat_mask_Suc by metis
  show ?thesis
  proof (cases "unat v \<le> 2 ^ 63")
    case True
    then show ?thesis using least [of 63] least r by (intro conjI impI exI [of _ "Suc t"]) auto
  next
    case False
    then show ?thesis using least [of 63] r by (auto simp: unat_eq_0)
  qed
qed

lemma word_two_power_less: "a < 64 \<Longrightarrow> b < 64 \<Longrightarrow> (2::u64) ^ a < 2 ^ b \<longleftrightarrow> a < b"
  by (simp add: word_less_nat_alt unat_two_power)

lemma word_two_power_if:
  "a < 64 \<Longrightarrow> b < 64 \<Longrightarrow> (if (2::u64) ^ a < 2 ^ b then (2::u64) ^ x else 2 ^ y) = 2 ^ (if a < b then x else y)"
  by (simp add: word_two_power_less)

lemma word_two_power_le: "a < 64 \<Longrightarrow> b < 64 \<Longrightarrow> (2::u64) ^ a \<le> 2 ^ b \<longleftrightarrow> a \<le> b"
  by (simp add: word_le_nat_alt unat_two_power)

lemma word_two_power_div: "a \<le> b \<Longrightarrow> b < 64 \<Longrightarrow> (2::u64) ^ b div 2 ^ a = 2 ^ (b - a)"
  by (simp add: word_unat_eq_iff unat_div unat_two_power power_diff)

lemma word_two_power_nonzero: "a < 64 \<Longrightarrow> (2::u64) ^ a \<noteq> 0"
  by (simp add: word_unat_eq_iff unat_two_power)

lemma queue_power_of_two_power: "k < 64 \<Longrightarrow> queue_power_of_two (2 ^ k) = 2 ^ k"
proof -
  assume k: "k < 64"
  then have "(2::nat) ^ k \<le> 2 ^ 63" by (intro power_increasing) auto
  then obtain m where m: "m < 64" "unat (queue_power_of_two (2 ^ k)) = 2 ^ m" "\<And>j. k \<le> j \<longleftrightarrow> m \<le> j"
    using queue_power_of_two_spec [of "2 ^ k"] k by (auto simp: unat_two_power)
  have "m = k" using m(3) [of k] m(3) [of m] by simp
  then show ?thesis using m(2) k by (simp add: word_unat_eq_iff unat_two_power)
qed

lemma square_loop_power: "i < 64 \<Longrightarrow> \<exists>j < 64. square_loop capacity (2 ^ i) = 2 ^ j"
proof (induction "64 - i" arbitrary: i)
  case (Suc n)
  show ?case
  proof (cases "(2::u64) ^ i \<noteq> 0 \<and> 2 ^ i < capacity div 2 ^ i")
    case True
    then have "unat ((2::u64) ^ i) < 2 ^ 32" by (intro below_quotient) auto
    then have "(2::nat) ^ i < 2 ^ 32" using Suc.prems by (simp add: unat_two_power)
    then have i: "i < 32" by (simp only: power_strict_increasing_iff [of "2::nat" i 32])
    have "push_bit 1 ((2::u64) ^ i) = 2 ^ Suc i" by simp
    then have "square_loop capacity (2 ^ i) = square_loop capacity (2 ^ Suc i)"
      using True by (subst square_loop.simps) (simp add: mult.commute)
    moreover have "n = 64 - Suc i" "Suc i < 64" using Suc.hyps(2) i by auto
    ultimately show ?thesis using Suc.hyps(1) [of "Suc i"] by metis
  next
    case False
    then have "square_loop capacity (2 ^ i) = 2 ^ i" by (subst square_loop.simps) auto
    then show ?thesis using Suc.prems by blast
  qed
qed simp

lemma balanced_power:
  assumes k: "k < 64" and r: "unat requested \<le> 2 ^ 63"
  obtains c where "c \<le> k" and "balanced_chunk_capacity (2 ^ k) requested = 2 ^ c"
proof (cases "requested = 0")
  case False
  obtain m where m: "m < 64" "unat (queue_power_of_two requested) = 2 ^ m"
    using queue_power_of_two_spec [of requested] r by blast
  then have e: "queue_power_of_two requested = 2 ^ m" by (simp add: word_unat_eq_iff unat_two_power)
  have "balanced_chunk_capacity (2 ^ k) requested = (if k < m then 2 ^ k else 2 ^ m)"
    using False k m(1) by (simp add: balanced_chunk_capacity_def e word_two_power_less word_two_power_nonzero)
  then show ?thesis using that [of "min k m"] by (auto simp: min_def not_less split: if_splits)
next
  case True
  obtain j where j: "j < 64" "square_loop (2 ^ k) 1 = 2 ^ j" using square_loop_power [of 0] by auto
  define m where "m = (6::nat)"
  define M where "M = (10::nat)"
  have p: "min_chunk_capacity = 2 ^ m" "max_chunk_capacity = 2 ^ M" "m < 64" "M < 64"
    by (simp_all add: min_chunk_capacity_def max_chunk_capacity_def m_def M_def)
  define e where "e = (if j < m then if k < m then k else m else j)"
  define f where "f = (if M < e then M else e)"
  define g where "g = (if k < f then k else f)"
  have less: "e < 64" "f < 64" "g < 64" using j(1) k p by (auto simp: e_def f_def g_def)
  have "balanced_chunk_capacity (2 ^ k) requested = queue_power_of_two (2 ^ g)"
  proof -
    have "(if (2::u64) ^ j < 2 ^ m then if (2::u64) ^ k < 2 ^ m then (2::u64) ^ k else 2 ^ m else 2 ^ j) = 2 ^ e"
      using j(1) k p(3) by (simp only: e_def word_two_power_if)
    moreover have "(if (2::u64) ^ M < 2 ^ e then (2::u64) ^ M else 2 ^ e) = 2 ^ f"
      using less p(4) by (simp only: f_def word_two_power_if)
    moreover have "(if (2::u64) ^ k < 2 ^ f then (2::u64) ^ k else 2 ^ f) = 2 ^ g"
      using less k by (simp only: g_def word_two_power_if)
    ultimately show ?thesis
      using True k by (simp only: balanced_chunk_capacity_def word_two_power_nonzero p j Let_def simp_thms if_False)
  qed
  then show ?thesis using that [of g] less by (simp add: queue_power_of_two_power g_def)
qed

lemma log2_loop_power: "c < 64 \<Longrightarrow> log2_loop (2 ^ c) s = s + of_nat c"
proof (induction c arbitrary: s)
  case 0
  show ?case by (subst log2_loop.simps) simp
next
  case (Suc c)
  have "(1::u64) < 2 ^ Suc c" using Suc.prems word_two_power_less [of 0 "Suc c"] by simp
  moreover have "drop_bit 1 ((2::u64) ^ Suc c) = 2 ^ c"
    using Suc.prems unat_half [of "2 ^ Suc c"] unat_two_power [of "Suc c"]
    by (simp add: word_unat_eq_iff unat_two_power del: One_nat_def)
  ultimately have "log2_loop (2 ^ Suc c) s = log2_loop (2 ^ c) (s + 1)"
    by (subst log2_loop.simps) simp
  then show ?case using Suc by (simp add: add.assoc)
qed

section \<open>Cells\<close>

text \<open>\<open>2 ^ k\<close> cells in chunks of \<open>2 ^ c\<close>; \<open>slot\<close> is the cell of an index below \<open>2 ^ k\<close>.\<close>

definition geometry :: "nat \<Rightarrow> nat \<Rightarrow> 'a spsc \<Rightarrow> bool" where
  "geometry k c q \<longleftrightarrow> c \<le> k \<and> k < 64 \<and> sq_capacity q = 2 ^ k \<and> sq_mask q = mask k \<and> sq_chunkMask q = mask c
     \<and> sq_chunkShift q = of_nat c \<and> length (sq_chunks q) = 2 ^ (k - c)
     \<and> (\<forall>i < 2 ^ (k - c). length (sq_chunks q ! i) = 2 ^ c)"

definition slot :: "nat \<Rightarrow> nat \<Rightarrow> 'a spsc \<Rightarrow> 'a option" where
  "slot c i q = sq_chunks q ! (i div 2 ^ c) ! (i mod 2 ^ c)"

lemma chunk_index: "c \<le> k \<Longrightarrow> (i::nat) < 2 ^ k \<Longrightarrow> i div 2 ^ c < 2 ^ (k - c)"
  by (simp add: less_mult_imp_div_less flip: power_add)

lemma spsc_new_geometry:
  assumes "unat (if capacity \<noteq> 0 then capacity else fallback) \<le> 2 ^ 63" and "unat chunk \<le> 2 ^ 63"
  obtains q k c where "spsc_new fallback capacity chunk = Some q" and "geometry k c q"
    and "2 ^ k = unat (queue_power_of_two (if capacity \<noteq> 0 then capacity else fallback))"
    and "sq_head q = 0" and "sq_tail q = 0" and "\<And>i. i < 2 ^ k \<Longrightarrow> slot c i q = None"
proof -
  obtain k where k: "k < 64" "unat (queue_power_of_two (if capacity \<noteq> 0 then capacity else fallback)) = 2 ^ k"
    using queue_power_of_two_spec assms(1) by blast
  then have cap: "queue_power_of_two (if capacity \<noteq> 0 then capacity else fallback) = 2 ^ k"
    by (simp add: word_unat_eq_iff unat_two_power)
  obtain c where c: "c \<le> k" "balanced_chunk_capacity (2 ^ k) chunk = 2 ^ c"
    using balanced_power [OF k(1) assms(2)] by blast
  have c64: "c < 64" using c k by simp
  define q :: "'a spsc" where
    "q = \<lparr>sq_capacity = 2 ^ k, sq_mask = 2 ^ k - 1, sq_chunkCapacity = 2 ^ c, sq_chunkMask = 2 ^ c - 1,
          sq_chunkShift = of_nat c, sq_chunkCount = 2 ^ (k - c),
          sq_chunks = replicate (2 ^ (k - c)) (replicate (2 ^ c) None), sq_head = 0, sq_tail = 0\<rparr>"
  have "spsc_new fallback capacity chunk = Some q"
    using c k c64 by (simp add: spsc_new_def cap q_def word_two_power_div word_two_power_nonzero
        unat_two_power log2_power_of_two_def log2_loop_power Let_def)
  moreover have "geometry k c q" using c k by (simp add: geometry_def q_def mask_eq_exp_minus_1)
  moreover have "slot c i q = None" if "i < 2 ^ k" for i
    using chunk_index [OF c(1) that] by (simp add: slot_def q_def)
  moreover have "sq_head q = 0" "sq_tail q = 0" by (simp_all add: q_def)
  ultimately show ?thesis using that [of q k c] k by simp
qed

lemma cell_at_position:
  assumes "geometry k c q"
  shows "cell_at (of_nat p) q = Some (p mod 2 ^ k div 2 ^ c, p mod 2 ^ k mod 2 ^ c)"
proof -
  have g: "c \<le> k" "k < 64" using assms by (auto simp: geometry_def)
  have m: "unat ((w::u64) AND mask n) = unat w mod 2 ^ n" for w n
    by (simp add: take_bit_eq_mask [symmetric] unsigned_take_bit_eq) (simp add: take_bit_eq_mod)
  have i: "unat (of_nat p AND mask k :: u64) = p mod 2 ^ k"
    using g by (simp add: m unsigned_of_nat take_bit_eq_mod mod_mod_cancel le_imp_power_dvd del: power_numeral)
  note j = m [of "of_nat p AND mask k" c, unfolded i]
  have d: "unat (drop_bit c (of_nat p AND mask k :: u64)) = p mod 2 ^ k div 2 ^ c"
    by (metis unat_drop_bit_eq i drop_bit_eq_div)
  have "unat (sq_chunkShift q) = c"
    using assms g by (simp add: geometry_def unsigned_of_nat take_bit_nat_eq_self_iff less_trans [OF less_exp])
  moreover have "p mod 2 ^ k div 2 ^ c < 2 ^ (k - c)" using g by (intro chunk_index) simp_all
  ultimately show ?thesis using assms by (simp add: cell_at_def geometry_def i j d Let_def del: drop_bit_and)
qed

lemma slot_write:
  assumes "geometry k c q" and "i < 2 ^ k" and "j < 2 ^ k"
  shows "slot c i (write_cell (j div 2 ^ c, j mod 2 ^ c) v q) = (if i = j then v else slot c i q)"
proof -
  have "i = j \<longleftrightarrow> i div 2 ^ c = j div 2 ^ c \<and> i mod 2 ^ c = j mod 2 ^ c"
    by (metis mult_div_mod_eq)
  moreover have "j div 2 ^ c < 2 ^ (k - c)" "i div 2 ^ c < 2 ^ (k - c)"
    using assms by (auto simp: geometry_def intro: chunk_index)
  ultimately show ?thesis
    using assms(1) by (auto simp: slot_def write_cell_def geometry_def nth_list_update)
qed

lemma geometry_write: "geometry k c q \<Longrightarrow> geometry k c (write_cell p v q)"
  by (cases "fst p < 2 ^ (k - c)") (auto simp: geometry_def write_cell_def nth_list_update)

lemma geometry_counters [simp]:
  "geometry k c (q\<lparr>sq_head := h\<rparr>) = geometry k c q" "geometry k c (q\<lparr>sq_tail := t\<rparr>) = geometry k c q"
  by (simp_all add: geometry_def)

lemma write_counters [simp]:
  "sq_head (write_cell p v q) = sq_head q" "sq_tail (write_cell p v q) = sq_tail q"
  "sq_capacity (write_cell p v q) = sq_capacity q"
  by (simp_all add: write_cell_def)

lemma read_slot: "read_cell (i div 2 ^ c, i mod 2 ^ c) q = slot c i q"
  by (simp add: read_cell_def slot_def)

text \<open>The cells hold the elements \<open>xs\<close> from position \<open>d\<close> on, and nothing else.\<close>

definition stored :: "nat \<Rightarrow> nat \<Rightarrow> nat \<Rightarrow> 'a list \<Rightarrow> 'a spsc \<Rightarrow> bool" where
  "stored k c d xs q \<longleftrightarrow> geometry k c q \<and> length xs \<le> 2 ^ k
     \<and> (\<forall>i < 2 ^ k. slot c ((d + i) mod 2 ^ k) q = (if i < length xs then Some (xs ! i) else None))"

lemma stored_counters [simp]:
  "stored k c d xs (q\<lparr>sq_head := h\<rparr>) = stored k c d xs q" "stored k c d xs (q\<lparr>sq_tail := t\<rparr>) = stored k c d xs q"
  by (simp_all add: stored_def slot_def)

lemma offset_inj: "i < n \<Longrightarrow> j < n \<Longrightarrow> (d + i) mod n = (d + j) mod (n::nat) \<longleftrightarrow> i = j"
proof (induction i j rule: linorder_wlog)
  case (le i j)
  have "(d + j) mod n = (d + i) mod n \<longleftrightarrow> n dvd j - i"
    using le by (subst mod_eq_dvd_iff_nat) simp_all
  moreover have "n dvd j - i \<longleftrightarrow> i = j" using le by (auto dest: dvd_imp_le)
  ultimately show ?case by metis
qed auto

lemma stored_construct:
  assumes s: "stored k c d xs q" and room: "length xs < 2 ^ k"
  obtains q' where "construct_at (of_nat (d + length xs)) x q = Some q'" and "stored k c d (xs @ [x]) q'"
    and "sq_head q' = sq_head q" and "sq_tail q' = sq_tail q" and "sq_capacity q' = sq_capacity q"
proof -
  let ?j = "(d + length xs) mod 2 ^ k"
  let ?q = "write_cell (?j div 2 ^ c, ?j mod 2 ^ c) (Some x) q"
  have g: "geometry k c q" and old: "\<And>i. i < 2 ^ k \<Longrightarrow>
      slot c ((d + i) mod 2 ^ k) q = (if i < length xs then Some (xs ! i) else None)"
    using s by (auto simp: stored_def)
  have "construct_at (of_nat (d + length xs)) x q = Some ?q"
    using old [OF room] by (simp add: construct_at_def cell_at_position [OF g] read_slot del: of_nat_add)
  moreover have "slot c ((d + i) mod 2 ^ k) ?q = (if i < length (xs @ [x]) then Some ((xs @ [x]) ! i) else None)"
    if "i < 2 ^ k" for i
    using that room old [OF that] by (simp add: slot_write [OF g] offset_inj nth_append)
  then have "stored k c d (xs @ [x]) ?q" using room geometry_write [OF g] by (simp add: stored_def)
  ultimately show ?thesis using that by simp
qed

lemma stored_take:
  assumes s: "stored k c d (x # xs) q"
  obtains q' where "take_at (of_nat d) q = Some (x, q')" and "stored k c (Suc d) xs q'"
    and "sq_head q' = sq_head q" and "sq_tail q' = sq_tail q" and "sq_capacity q' = sq_capacity q"
proof -
  let ?j = "d mod 2 ^ k"
  let ?q = "write_cell (?j div 2 ^ c, ?j mod 2 ^ c) None q"
  have g: "geometry k c q" and l: "length xs < 2 ^ k" and old: "\<And>i. i < 2 ^ k \<Longrightarrow>
      slot c ((d + i) mod 2 ^ k) q = (if i < length (x # xs) then Some ((x # xs) ! i) else None)"
    using s by (auto simp: stored_def)
  have "take_at (of_nat d) q = Some (x, ?q)"
    using old [of 0] by (simp add: take_at_def cell_at_position [OF g] read_slot)
  moreover have "slot c ((Suc d + i) mod 2 ^ k) ?q = (if i < length xs then Some (xs ! i) else None)"
    if i: "i < 2 ^ k" for i
  proof (cases "Suc i < 2 ^ k")
    case True
    then show ?thesis using old [of "Suc i"] offset_inj [of "Suc i" "2 ^ k" 0 d] by (simp add: slot_write [OF g])
  next
    case False
    then have "Suc i = 2 ^ k" using i by simp
    then have "(Suc d + i) mod 2 ^ k = d mod 2 ^ k" by (metis add_Suc_shift mod_add_self2)
    then show ?thesis using False l by (simp add: slot_write [OF g])
  qed
  then have "stored k c (Suc d) xs ?q" using l geometry_write [OF g] by (simp add: stored_def)
  ultimately show ?thesis using that by simp
qed

section \<open>One thread: a bounded list\<close>

datatype 'a spsc_op = Enqueue 'a | Dequeue

datatype 'a spsc_answer = Accepted bool | Delivered "'a option"

fun spsc_step :: "'a spsc_op \<Rightarrow> 'a spsc \<times> 'a spsc_answer list \<Rightarrow> ('a spsc \<times> 'a spsc_answer list) option" where
  "spsc_step (Enqueue x) (q, out) = do { (b, q) \<leftarrow> spsc_try_enqueue x q; Some (q, out @ [Accepted b]) }"
| "spsc_step Dequeue (q, out) = do { (r, q) \<leftarrow> spsc_try_dequeue q; Some (q, out @ [Delivered r]) }"

fun bounded_step :: "nat \<Rightarrow> 'a spsc_op \<Rightarrow> 'a list \<times> 'a spsc_answer list \<Rightarrow> ('a list \<times> 'a spsc_answer list) option" where
  "bounded_step n (Enqueue x) (xs, out) =
     Some (if length xs < n then (xs @ [x], out @ [Accepted True]) else (xs, out @ [Accepted False]))"
| "bounded_step n Dequeue ([], out) = Some ([], out @ [Delivered None])"
| "bounded_step n Dequeue (x # xs, out) = Some (xs, out @ [Delivered (Some x)])"

definition spsc_contents :: "'a spsc \<Rightarrow> 'a list" where
  "spsc_contents q = map (\<lambda>i. the (do { c \<leftarrow> cell_at (sq_tail q + of_nat i) q; read_cell c q }))
     [0..<unat (sq_head q - sq_tail q)]"

text \<open>The representation: the counters are the positions around the elements stored.\<close>

definition spsc_holds :: "nat \<Rightarrow> 'a list \<Rightarrow> 'a spsc \<Rightarrow> bool" where
  "spsc_holds n xs q \<longleftrightarrow> (\<exists>k c d. n = 2 ^ k \<and> stored k c d xs q
     \<and> sq_tail q = of_nat d \<and> sq_head q = of_nat (d + length xs))"

lemma counter_gap: "a - t < 2 ^ 64 \<Longrightarrow> t \<le> a \<Longrightarrow> unat (of_nat a - of_nat t :: u64) = a - t"
  by (simp add: unsigned_of_nat take_bit_nat_eq_self flip: of_nat_diff)

lemma stored_bound: "stored k c d xs q \<Longrightarrow> length xs \<le> 2 ^ k \<and> k < 64 \<and> length xs < 2 ^ 64 \<and> sq_capacity q = 2 ^ k"
proof -
  assume "stored k c d xs q"
  then have "length xs \<le> 2 ^ k" "k < 64" "sq_capacity q = 2 ^ k" by (auto simp: stored_def geometry_def)
  moreover from this have "(2::nat) ^ k < 2 ^ 64" by (intro power_strict_increasing) auto
  ultimately show ?thesis by simp
qed

lemma spsc_holdsI:
  "stored k c d xs q \<Longrightarrow> n = 2 ^ k \<Longrightarrow> sq_tail q = of_nat d \<Longrightarrow> sq_head q = of_nat (d + length xs) \<Longrightarrow> spsc_holds n xs q"
  unfolding spsc_holds_def by blast

lemma spsc_holds_size: "spsc_holds n xs q \<Longrightarrow> unat (spsc_size_approx q) = length xs"
  using counter_gap by (force simp: spsc_holds_def spsc_size_approx_def dest!: stored_bound simp del: of_nat_add)

lemma spsc_holds_contents:
  assumes "spsc_holds n xs q"
  shows "spsc_contents q = xs"
proof (rule nth_equalityI)
  obtain k c d where h: "stored k c d xs q" "sq_tail q = of_nat d" using assms by (auto simp: spsc_holds_def)
  have l: "unat (sq_head q - sq_tail q) = length xs"
    using spsc_holds_size [OF assms] by (simp add: spsc_size_approx_def)
  then show "length (spsc_contents q) = length xs" by (simp add: spsc_contents_def)
  fix i assume "i < length (spsc_contents q)"
  then have i: "i < length xs" using l by (simp add: spsc_contents_def)
  then have "i < 2 ^ k" using stored_bound [OF h(1)] by simp
  then have "slot c ((d + i) mod 2 ^ k) q = Some (xs ! i)" using h(1) i by (simp add: stored_def)
  moreover have "geometry k c q" using h(1) by (simp add: stored_def)
  ultimately show "spsc_contents q ! i = xs ! i"
    using i l h(2) by (simp add: spsc_contents_def cell_at_position [of k c q "d + i", simplified] read_slot)
qed

lemma spsc_holds_enqueue:
  assumes "spsc_holds n xs q"
  shows "\<exists>q'. spsc_try_enqueue x q = Some (length xs < n, q') \<and> spsc_holds n (if length xs < n then xs @ [x] else xs) q'"
proof -
  obtain k c d where h: "n = 2 ^ k" "stored k c d xs q" "sq_tail q = of_nat d" "sq_head q = of_nat (d + length xs)"
    using assms by (auto simp: spsc_holds_def)
  note b = stored_bound [OF h(2)]
  have gap: "sq_capacity q \<le> sq_head q - sq_tail q \<longleftrightarrow> n \<le> length xs"
    using spsc_holds_size [OF assms] b by (simp add: word_le_nat_alt spsc_size_approx_def unat_two_power h(1))
  show ?thesis
  proof (cases "length xs < n")
    case True
    then obtain q' where q: "construct_at (of_nat (d + length xs)) x q = Some q'" "stored k c d (xs @ [x]) q'"
        "sq_head q' = sq_head q" "sq_tail q' = sq_tail q"
      using stored_construct [OF h(2)] h(1) by blast
    have "spsc_holds n (xs @ [x]) (q'\<lparr>sq_head := sq_head q' + 1\<rparr>)"
      using q h by (intro spsc_holdsI [of k c d]) simp_all
    then show ?thesis using True gap q h(4) by (simp add: spsc_try_enqueue_def)
  qed (use gap assms in \<open>simp add: spsc_try_enqueue_def\<close>)
qed

lemma spsc_holds_dequeue_empty: "spsc_holds n [] q \<Longrightarrow> spsc_try_dequeue q = Some (None, q)"
  by (auto simp: spsc_holds_def spsc_try_dequeue_def)

lemma spsc_holds_dequeue:
  assumes "spsc_holds n (x # xs) q"
  shows "\<exists>q'. spsc_try_dequeue q = Some (Some x, q') \<and> spsc_holds n xs q'"
proof -
  obtain k c d where h: "n = 2 ^ k" "stored k c d (x # xs) q" "sq_tail q = of_nat d"
      "sq_head q = of_nat (d + length (x # xs))"
    using assms by (auto simp: spsc_holds_def)
  have "sq_tail q \<noteq> sq_head q"
    using spsc_holds_size [OF assms] by (auto simp: spsc_size_approx_def)
  moreover obtain q' where q: "take_at (of_nat d) q = Some (x, q')" "stored k c (Suc d) xs q'"
      "sq_head q' = sq_head q" "sq_tail q' = sq_tail q"
    using stored_take [OF h(2)] by blast
  moreover have "spsc_holds n xs (q'\<lparr>sq_tail := sq_tail q' + 1\<rparr>)"
    using q h by (intro spsc_holdsI [of k c "Suc d"]) simp_all
  ultimately show ?thesis using h(3) by (simp add: spsc_try_dequeue_def)
qed

interpretation spsc: simulation spsc_step "bounded_step n" "\<lambda>s. \<exists>xs. spsc_holds n xs (fst s)"
  "\<lambda>s. (spsc_contents (fst s), snd s)" for n
proof
  fix s s' :: "'a spsc \<times> 'a spsc_answer list" and x :: "'a spsc_op"
  assume "\<exists>xs. spsc_holds n xs (fst s)"
  then obtain xs q out where s: "s = (q, out)" "spsc_holds n xs q" by (cases s) auto
  have c: "spsc_contents q = xs" using spsc_holds_contents [OF s(2)] .
  have "\<exists>q' a ys. spsc_step x s = Some (q', out @ a) \<and> spsc_holds n ys q'
      \<and> bounded_step n x (xs, out) = Some (ys, out @ a)"
  proof (cases x)
    case (Enqueue y)
    then show ?thesis using spsc_holds_enqueue [OF s(2), of y] s(1) by auto
  next
    case Dequeue
    then show ?thesis
      using spsc_holds_dequeue_empty [of n q] spsc_holds_dequeue [of n "hd xs" "tl xs" q] s by (cases xs) auto
  qed
  then obtain q' a ys where r: "spsc_step x s = Some (q', out @ a)" "spsc_holds n ys q'"
      "bounded_step n x (xs, out) = Some (ys, out @ a)"
    by blast
  show "\<exists>xs. spsc_holds n xs (fst s')" if "spsc_step x s = Some s'" using r that by auto
  show "map_option (\<lambda>s. (spsc_contents (fst s), snd s)) (spsc_step x s)
      = bounded_step n x (spsc_contents (fst s), snd s)"
    using r s c spsc_holds_contents [OF r(2)] by simp
qed

lemma spsc_new_holds:
  assumes "unat (if capacity \<noteq> 0 then capacity else fallback) \<le> 2 ^ 63" and "unat chunk \<le> 2 ^ 63"
  obtains q :: "'a spsc" and k c where "spsc_new fallback capacity chunk = Some q" and "stored k c 0 [] q"
    and "2 ^ k = unat (queue_power_of_two (if capacity \<noteq> 0 then capacity else fallback))"
    and "sq_head q = 0" and "sq_tail q = 0"
proof -
  obtain q :: "'a spsc" and k c where q: "spsc_new fallback capacity chunk = Some q" "geometry k c q"
      "2 ^ k = unat (queue_power_of_two (if capacity \<noteq> 0 then capacity else fallback))"
      "sq_head q = 0" "sq_tail q = 0" "\<And>i. i < 2 ^ k \<Longrightarrow> slot c i q = None"
    using spsc_new_geometry [OF assms] by metis
  then have "stored k c 0 [] q" by (simp add: stored_def)
  then show ?thesis using that q by blast
qed

lemma bounded_runs: "\<exists>r. run_ops (bounded_step n) ops s = Some r"
proof (induction ops arbitrary: s)
  case (Cons x ops)
  then show ?case by (cases s; cases x; cases "fst s") auto
qed simp

text \<open>
  C36: A queue for one producer and one consumer, used by one thread, is a bounded first-in first-out
  list. Its bound is the least power of two that is not below the capacity asked for (or, for
  capacity 0, the default). Every sequence of \<open>try_enqueue\<close> and \<open>try_dequeue\<close> runs without undefined
  behaviour, whatever the chunk size and although the counters wrap around, and answers as on the
  list: an element is refused exactly when the list is full. Sizes above \<open>2 ^ 63\<close> are excluded: the
  power of two above them is 0 in 64 bits.
\<close>

theorem spsc_refines_bounded_list:
  assumes "unat (if capacity \<noteq> 0 then capacity else fallback) \<le> 2 ^ 63" and "unat chunk \<le> 2 ^ 63"
  shows "\<exists>q k r. spsc_new fallback capacity chunk = Some q
    \<and> (\<forall>j. unat (if capacity \<noteq> 0 then capacity else fallback) \<le> 2 ^ j \<longleftrightarrow> k \<le> j)
    \<and> run_ops (bounded_step (2 ^ k)) ops ([], []) = Some (spsc_contents (fst r), snd r)
    \<and> run_ops spsc_step ops (q, []) = Some r"
proof -
  obtain q :: "'a spsc" and k c where q: "spsc_new fallback capacity chunk = Some q" "stored k c 0 [] q"
      "2 ^ k = unat (queue_power_of_two (if capacity \<noteq> 0 then capacity else fallback))"
      "sq_head q = 0" "sq_tail q = 0"
    using spsc_new_holds [OF assms] by metis
  let ?size = "if capacity \<noteq> 0 then capacity else fallback"
  obtain m where m: "2 ^ k = (2::nat) ^ m" "\<And>j. unat ?size \<le> 2 ^ j \<longleftrightarrow> m \<le> j"
    using queue_power_of_two_spec [of ?size] assms(1) unfolding q(3) [symmetric] by blast
  then have k: "unat ?size \<le> 2 ^ j \<longleftrightarrow> k \<le> j" for j by simp
  have h: "spsc_holds (2 ^ k) [] q" using q by (intro spsc_holdsI [of k c 0]) simp_all
  have "spsc_contents q = []" using spsc_holds_contents [OF h] .
  then obtain r where "run_ops (bounded_step (2 ^ k)) ops (spsc_contents q, []) = Some r"
    using bounded_runs by metis
  moreover have "\<exists>xs. spsc_holds (2 ^ k) xs (fst (q, []))" using h by auto
  ultimately obtain s where "run_ops spsc_step ops (q, []) = Some s" "(spsc_contents (fst s), snd s) = r"
    using spsc.run_total [where s = "(q, [])" and n = "2 ^ k" and xs = ops and a = r] by fastforce
  then show ?thesis
    using q(1) k \<open>spsc_contents q = []\<close> \<open>run_ops (bounded_step (2 ^ k)) ops (spsc_contents q, []) = Some r\<close>
    by (intro exI [of _ q] exI [of _ k] exI [of _ s]) simp
qed

theorem spsc_refines_bounded_list_witness:
  "\<exists>q k r. spsc_new 1024 3 1 = Some q \<and> (\<forall>j. (3::nat) \<le> 2 ^ j \<longleftrightarrow> k \<le> j)
    \<and> run_ops (bounded_step (2 ^ k)) [Enqueue (1::nat), Enqueue 2, Dequeue] ([], []) = Some (spsc_contents (fst r), snd r)
    \<and> run_ops spsc_step [Enqueue (1::nat), Enqueue 2, Dequeue] (q, []) = Some r"
  using spsc_refines_bounded_list [of 3 1024 1 "[Enqueue (1::nat), Enqueue 2, Dequeue]"] by simp

text \<open>The destructor destroys what is left, in order, and nothing remains in the cells.\<close>

lemma spsc_drain_contents: "spsc_holds n xs q \<Longrightarrow> \<exists>q'. spsc_drain q = Some (xs, q') \<and> spsc_holds n [] q'"
proof (induction xs arbitrary: q)
  case Nil
  then show ?case using spsc_holds_dequeue_empty [OF Nil] by (subst spsc_drain.simps) simp
next
  case (Cons x xs)
  obtain q' where q': "spsc_try_dequeue q = Some (Some x, q')" "spsc_holds n xs q'"
    using spsc_holds_dequeue [OF Cons.prems] by blast
  obtain q'' where "spsc_drain q' = Some (xs, q'')" "spsc_holds n [] q''"
    using Cons.IH [OF q'(2)] by blast
  then show ?case using q'(1) by (intro exI [of _ q'']) (simp add: spsc_drain.simps [of q])
qed

section \<open>Two threads: delivery in order\<close>

text \<open>
  The counters as natural numbers: of \<open>a\<close> elements accepted and \<open>d\<close> delivered, the last may not be
  published yet.
\<close>

fun head_of :: "'a producer \<Rightarrow> nat \<Rightarrow> nat" where
  "head_of (In_built h) a = a - 1"
| "head_of p a = a"

fun tail_of :: "consumer \<Rightarrow> nat \<Rightarrow> nat" where
  "tail_of (Out_taken t) d = d - 1"
| "tail_of p d = d"

fun in_ok :: "nat \<Rightarrow> nat \<Rightarrow> nat \<Rightarrow> 'a producer \<Rightarrow> bool" where
  "in_ok k a t In_idle = True"
| "in_ok k a t (In_loaded x h) = (h = of_nat a)"
| "in_ok k a t (In_checked x h) = (h = of_nat a \<and> a - t < 2 ^ k)"
| "in_ok k a t (In_built h) = (a \<noteq> 0 \<and> h = of_nat (a - 1))"

fun out_ok :: "nat \<Rightarrow> nat \<Rightarrow> consumer \<Rightarrow> bool" where
  "out_ok d n Out_idle = True"
| "out_ok d n (Out_loaded t) = (t = of_nat d)"
| "out_ok d n (Out_checked t) = (t = of_nat d \<and> d < n)"
| "out_ok d n (Out_taken t) = (d \<noteq> 0 \<and> t = of_nat (d - 1))"

definition counts_ok :: "nat \<Rightarrow> 'a spsc \<Rightarrow> 'a producer \<Rightarrow> consumer \<Rightarrow> nat \<Rightarrow> nat \<Rightarrow> bool" where
  "counts_ok k q p r a d \<longleftrightarrow> sq_head q = of_nat (head_of p a) \<and> sq_tail q = of_nat (tail_of r d)
     \<and> d \<le> head_of p a \<and> a - tail_of r d \<le> 2 ^ k \<and> in_ok k a (tail_of r d) p \<and> out_ok d (head_of p a) r"

definition run_inv :: "nat \<Rightarrow> nat \<Rightarrow> 'a list \<Rightarrow> 'a spsc_run \<Rightarrow> bool" where
  "run_inv k c xs s \<longleftrightarrow> stored k c (length (rn_delivered s)) xs (rn_queue s) \<and> rn_accepted s = rn_delivered s @ xs
     \<and> counts_ok k (rn_queue s) (rn_in s) (rn_out s) (length (rn_accepted s)) (length (rn_delivered s))"

lemma tail_below: "tail_of r d \<le> d"
  by (cases r) auto

lemma head_below: "head_of p a \<le> a"
  by (cases p) auto

lemma counters:
  assumes "counts_ok k q p r a d" and "k < 64" and "d \<le> a"
  shows "unat (of_nat a - sq_tail q) = a - tail_of r d" and "of_nat d = sq_head q \<longleftrightarrow> d = head_of p a"
proof -
  have k: "(2::nat) ^ k < 2 ^ 64" using assms(2) by (intro power_strict_increasing) auto
  have c: "sq_head q = of_nat (head_of p a)" "sq_tail q = of_nat (tail_of r d)" "d \<le> head_of p a" "a - tail_of r d \<le> 2 ^ k"
    using assms(1) by (simp_all add: counts_ok_def)
  show "unat (of_nat a - sq_tail q) = a - tail_of r d"
    using counter_gap [of a "tail_of r d"] c(2,4) k assms(3) tail_below [of r d] by simp
  have "head_of p a - d \<le> a - tail_of r d"
    using tail_below [of r d] head_below [of p a] by linarith
  then have g: "unat (sq_head q - of_nat d) = head_of p a - d"
    using counter_gap [of "head_of p a" d] c k by simp
  show "of_nat d = sq_head q \<longleftrightarrow> d = head_of p a"
  proof
    assume "of_nat d = sq_head q"
    then have "head_of p a - d = 0" using g by simp
    then show "d = head_of p a" using c(3) by simp
  qed (simp add: c(1))
qed

lemma counts_swap_queue:
  "sq_head q' = sq_head q \<Longrightarrow> sq_tail q' = sq_tail q \<Longrightarrow> counts_ok k q' p r a d = counts_ok k q p r a d"
  by (simp add: counts_ok_def)

lemma run_capacity:
  "stored k c d xs q \<Longrightarrow> sq_capacity q \<le> w \<longleftrightarrow> 2 ^ k \<le> unat w"
  by (auto dest!: stored_bound simp: word_le_nat_alt unat_two_power)

lemma produce_inv:
  assumes "produce s r" and i: "run_inv k c xs s"
  shows "\<exists>s' ys. r = Some s' \<and> run_inv k c ys s'"
proof -
  let ?a = "length (rn_accepted s)" and ?d = "length (rn_delivered s)" and ?t = "tail_of (rn_out s) (length (rn_delivered s))"
  have st: "stored k c ?d xs (rn_queue s)" and acc: "rn_accepted s = rn_delivered s @ xs"
    and co: "counts_ok k (rn_queue s) (rn_in s) (rn_out s) ?a ?d"
    using i unfolding run_inv_def by blast+
  note c = counters [OF co, simplified]
  have k: "k < 64" "?d \<le> ?a" using stored_bound [OF st] acc by simp_all
  have has_room: "length xs < 2 ^ k" if "?a - ?t < 2 ^ k" using that tail_below [of "rn_out s" ?d] acc by simp
  show ?thesis using assms(1)
  proof (cases rule: produce.cases)
    case (load_head x)
    then have "run_inv k c xs (s\<lparr>rn_in := In_loaded x (sq_head (rn_queue s))\<rparr>)"
      using st acc co by (simp add: run_inv_def counts_ok_def)
    then show ?thesis using load_head by auto
  next
    case (full x h)
    then have "run_inv k c xs (s\<lparr>rn_in := In_idle\<rparr>)" using st acc co by (simp add: run_inv_def counts_ok_def)
    then show ?thesis using full by auto
  next
    case (room x h)
    then have h: "h = of_nat ?a" using co by (simp add: counts_ok_def)
    then have "?a - ?t < 2 ^ k" using room(3) c(1) k run_capacity [OF st] by simp
    then have "run_inv k c xs (s\<lparr>rn_in := In_checked x h\<rparr>)"
      using st acc co room(2) h by (simp add: run_inv_def counts_ok_def)
    then show ?thesis using room by auto
  next
    case (build x h q)
    then have h: "h = of_nat (?d + length xs)" "?a - ?t < 2 ^ k" using co acc by (simp_all add: counts_ok_def)
    obtain q' where q: "construct_at h x (rn_queue s) = Some q'" "stored k c ?d (xs @ [x]) q'"
        "sq_head q' = sq_head (rn_queue s)" "sq_tail q' = sq_tail (rn_queue s)"
      using stored_construct [OF st has_room [OF h(2)], of x] unfolding h(1) [symmetric] by blast
    have "run_inv k c (xs @ [x]) (s\<lparr>rn_queue := q', rn_in := In_built h, rn_accepted := rn_accepted s @ [x]\<rparr>)"
      using q st acc co build(2) h(2) by (simp add: run_inv_def counts_ok_def) linarith
    then show ?thesis using build q(1) by auto
  next
    case (build_fails x h)
    then have h: "h = of_nat (?d + length xs)" "?a - ?t < 2 ^ k" using co acc by (simp_all add: counts_ok_def)
    show ?thesis
      using stored_construct [OF st has_room [OF h(2)], of x] build_fails(3) unfolding h(1) [symmetric] by fastforce
  next
    case (store_head h)
    then have h: "?a \<noteq> 0" "h = of_nat (?a - 1)" "?d \<le> ?a - 1" using co by (simp_all add: counts_ok_def)
    then have "h + 1 = of_nat ?a" by (simp add: of_nat_diff Suc_le_eq)
    then have "run_inv k c xs (s\<lparr>rn_queue := (rn_queue s)\<lparr>sq_head := h + 1\<rparr>, rn_in := In_idle\<rparr>)"
      using st acc co store_head(2) h(3) by (cases "rn_out s") (auto simp: run_inv_def counts_ok_def)
    then show ?thesis using store_head by auto
  qed
qed

lemma consume_inv:
  assumes "consume s r" and i: "run_inv k c xs s"
  shows "\<exists>s' ys. r = Some s' \<and> run_inv k c ys s'"
proof -
  let ?a = "length (rn_accepted s)" and ?d = "length (rn_delivered s)"
  have st: "stored k c ?d xs (rn_queue s)" and acc: "rn_accepted s = rn_delivered s @ xs"
    and co: "counts_ok k (rn_queue s) (rn_in s) (rn_out s) ?a ?d"
    using i unfolding run_inv_def by blast+
  have k: "k < 64" "?d \<le> ?a" using stored_bound [OF st] acc by simp_all
  have some: "\<exists>y ys. xs = y # ys" if "?d < head_of (rn_in s) ?a"
    using that head_below [of "rn_in s" ?a] acc by (cases xs) auto
  show ?thesis using assms(1)
  proof (cases rule: consume.cases)
    case load_tail
    then have "run_inv k c xs (s\<lparr>rn_out := Out_loaded (sq_tail (rn_queue s))\<rparr>)"
      using st acc co by (simp add: run_inv_def counts_ok_def)
    then show ?thesis using load_tail by auto
  next
    case (empty t)
    then have "run_inv k c xs (s\<lparr>rn_out := Out_idle\<rparr>)" using st acc co by (simp add: run_inv_def counts_ok_def)
    then show ?thesis using empty by auto
  next
    case (some t)
    then have t: "t = of_nat ?d" using co by (simp add: counts_ok_def)
    then have "?d \<noteq> head_of (rn_in s) ?a" using counters(2) [OF co k] some(3) by simp
    then have "run_inv k c xs (s\<lparr>rn_out := Out_checked t\<rparr>)"
      using st acc co some(2) t by (simp add: run_inv_def counts_ok_def)
    then show ?thesis using some by auto
  next
    case (take t x q)
    then have t: "t = of_nat ?d" "?d < head_of (rn_in s) ?a" using co by (simp_all add: counts_ok_def)
    then obtain y ys where xs: "xs = y # ys" using some by blast
    obtain q' where q: "take_at t (rn_queue s) = Some (y, q')" "stored k c (Suc ?d) ys q'"
        "sq_head q' = sq_head (rn_queue s)" "sq_tail q' = sq_tail (rn_queue s)"
      using stored_take [OF st [unfolded xs]] unfolding t(1) by blast
    have "run_inv k c ys (s\<lparr>rn_queue := q', rn_out := Out_taken t, rn_delivered := rn_delivered s @ [y]\<rparr>)"
      using q acc co take(2) t xs by (cases "rn_in s") (auto simp: run_inv_def counts_ok_def Suc_le_eq)
    then show ?thesis using take q(1) by auto
  next
    case (take_fails t)
    then have t: "t = of_nat ?d" "?d < head_of (rn_in s) ?a" using co by (simp_all add: counts_ok_def)
    then obtain y ys where xs: "xs = y # ys" using some by blast
    show ?thesis using stored_take [OF st [unfolded xs]] take_fails(3) unfolding t(1) by fastforce
  next
    case (store_tail t)
    then have t: "?d \<noteq> 0" "t = of_nat (?d - 1)" using co by (simp_all add: counts_ok_def)
    then have "t + 1 = of_nat ?d" by (simp add: of_nat_diff Suc_le_eq)
    then have "run_inv k c xs (s\<lparr>rn_queue := (rn_queue s)\<lparr>sq_tail := t + 1\<rparr>, rn_out := Out_idle\<rparr>)"
      using st acc co store_tail(2) by (cases "rn_in s") (auto simp: run_inv_def counts_ok_def)
    then show ?thesis using store_tail by auto
  qed
qed

lemma reaches_inv:
  assumes "spsc_reaches q r" and "stored k c 0 [] q" and "sq_head q = 0" and "sq_tail q = 0"
  shows "\<exists>s xs. r = Some s \<and> run_inv k c xs s"
  using assms(1)
proof (induction rule: spsc_reaches.induct)
  case start
  have "run_inv k c [] (spsc_start q)"
    using assms(2,3,4) by (simp add: run_inv_def spsc_start_def counts_ok_def)
  then show ?case by blast
qed (use produce_inv consume_inv in blast)+

text \<open>
  C37: Between one producer and one consumer that interleave in any way, step by atomic step, the
  queue delivers in order and loses nothing: no step is undefined (the producer only constructs in
  raw storage, the consumer only takes objects that exist), what has been delivered is a prefix of
  what has been accepted, and the rest is at most the capacity. When both threads are between two
  calls, the rest is exactly what the queue holds.
\<close>

theorem spsc_delivers_in_order:
  assumes "unat (if capacity \<noteq> 0 then capacity else fallback) \<le> 2 ^ 63" and "unat chunk \<le> 2 ^ 63"
    and "spsc_reaches (the (spsc_new fallback capacity chunk)) r"
  shows "\<exists>s rest. r = Some s \<and> rn_accepted s = rn_delivered s @ rest
    \<and> length rest \<le> unat (sq_capacity (rn_queue s))
    \<and> (if rn_in s = In_idle \<and> rn_out s = Out_idle then spsc_contents (rn_queue s) = rest else True)"
proof -
  obtain q :: "'a spsc" and k c where q: "spsc_new fallback capacity chunk = Some q" "stored k c 0 [] q"
      "sq_head q = 0" "sq_tail q = 0"
    using spsc_new_holds [OF assms(1,2)] by metis
  obtain s xs where s: "r = Some s" "run_inv k c xs s"
    using reaches_inv [OF _ q(2-4)] assms(3) q(1) by force
  then have st: "stored k c (length (rn_delivered s)) xs (rn_queue s)" "rn_accepted s = rn_delivered s @ xs"
    and co: "counts_ok k (rn_queue s) (rn_in s) (rn_out s) (length (rn_accepted s)) (length (rn_delivered s))"
    unfolding run_inv_def by blast+
  have "length xs \<le> unat (sq_capacity (rn_queue s))" using stored_bound [OF st(1)] by (simp add: unat_two_power)
  moreover have "spsc_contents (rn_queue s) = xs" if "rn_in s = In_idle" "rn_out s = Out_idle"
  proof -
    have "spsc_holds (2 ^ k) xs (rn_queue s)"
      using co st that by (intro spsc_holdsI [OF st(1)]) (simp_all add: counts_ok_def)
    then show ?thesis by (rule spsc_holds_contents)
  qed
  ultimately show ?thesis using s(1) st(2) by auto
qed

theorem spsc_delivers_in_order_witness:
  "\<exists>s rest. Some (spsc_start (the (spsc_new 1024 2 0))) = Some s
    \<and> rn_accepted s = rn_delivered s @ (rest :: nat list) \<and> length rest \<le> unat (sq_capacity (rn_queue s))
    \<and> (if rn_in s = In_idle \<and> rn_out s = Out_idle then spsc_contents (rn_queue s) = rest else True)"
  using spsc_delivers_in_order [of 2 1024 0, OF _ _ spsc_reaches.start] by simp

text \<open>
  \<open>size_approx\<close> of a third thread is no size: between its two reads the other threads may pass an
  element through an empty queue, and the difference wraps around to the largest number.
\<close>

definition spsc_later :: "'a spsc_run \<Rightarrow> 'a spsc_run \<Rightarrow> bool" where
  "spsc_later = (\<lambda>s s'. produce s (Some s') \<or> consume s (Some s'))\<^sup>*\<^sup>*"

lemma size_approx_wraps:
  "\<exists>s'. spsc_later (spsc_start (the (spsc_new 2 2 1))) s' \<and> observed_size (spsc_start (the (spsc_new 2 2 1) :: nat spsc)) s' = - 1"
proof -
  define q :: "nat spsc" where "q = \<lparr>sq_capacity = 2, sq_mask = 1, sq_chunkCapacity = 1, sq_chunkMask = 0,
    sq_chunkShift = 0, sq_chunkCount = 2, sq_chunks = [[None], [None]], sq_head = 0, sq_tail = 0\<rparr>"
  have q: "the (spsc_new 2 2 1) = q" unfolding q_def by code_simp
  define later where "later = (\<lambda>s s' :: nat spsc_run. produce s (Some s') \<or> consume s (Some s'))"
  let ?s = "\<lambda>q p r xs ys. \<lparr>rn_queue = q, rn_in = p, rn_out = r, rn_accepted = xs, rn_delivered = ys\<rparr> :: nat spsc_run"
  let ?q1 = "q\<lparr>sq_chunks := [[Some 7], [None]]\<rparr>"
  let ?q2 = "?q1\<lparr>sq_head := 1\<rparr>"
  let ?q3 = "q\<lparr>sq_head := 1\<rparr>"
  have "later (?s q In_idle Out_idle [] []) (?s q (In_loaded 7 0) Out_idle [] [])"
    using produce.load_head [of "?s q In_idle Out_idle [] []" 7] by (simp add: later_def q_def)
  moreover have "later (?s q (In_loaded 7 0) Out_idle [] []) (?s q (In_checked 7 0) Out_idle [] [])"
    using produce.room [of "?s q (In_loaded 7 0) Out_idle [] []" 7 0] by (simp add: later_def q_def)
  moreover have "construct_at 0 7 q = Some ?q1" unfolding q_def by code_simp
  then have "later (?s q (In_checked 7 0) Out_idle [] []) (?s ?q1 (In_built 0) Out_idle [7] [])"
    using produce.build [of "?s q (In_checked 7 0) Out_idle [] []" 7 0] by (simp add: later_def)
  moreover have "later (?s ?q1 (In_built 0) Out_idle [7] []) (?s ?q2 In_idle Out_idle [7] [])"
    using produce.store_head [of "?s ?q1 (In_built 0) Out_idle [7] []" 0] by (simp add: later_def)
  moreover have "later (?s ?q2 In_idle Out_idle [7] []) (?s ?q2 In_idle (Out_loaded 0) [7] [])"
    using consume.load_tail [of "?s ?q2 In_idle Out_idle [7] []"] by (simp add: later_def q_def)
  moreover have "later (?s ?q2 In_idle (Out_loaded 0) [7] []) (?s ?q2 In_idle (Out_checked 0) [7] [])"
    using consume.some [of "?s ?q2 In_idle (Out_loaded 0) [7] []" 0] by (simp add: later_def)
  moreover have "take_at 0 ?q2 = Some (7, ?q3)" unfolding q_def by code_simp
  then have "later (?s ?q2 In_idle (Out_checked 0) [7] []) (?s ?q3 In_idle (Out_taken 0) [7] [7])"
    using consume.take [of "?s ?q2 In_idle (Out_checked 0) [7] []" 0] by (simp add: later_def)
  moreover have "later (?s ?q3 In_idle (Out_taken 0) [7] [7]) (?s (?q3\<lparr>sq_tail := 1\<rparr>) In_idle Out_idle [7] [7])"
    using consume.store_tail [of "?s ?q3 In_idle (Out_taken 0) [7] [7]" 0] by (simp add: later_def)
  ultimately have "later\<^sup>*\<^sup>* (?s q In_idle Out_idle [] []) (?s (?q3\<lparr>sq_tail := 1\<rparr>) In_idle Out_idle [7] [7])"
    by (meson converse_rtranclp_into_rtranclp rtranclp.rtrancl_refl)
  then have "spsc_later (spsc_start q) (?s (?q3\<lparr>sq_tail := 1\<rparr>) In_idle Out_idle [7] [7])"
    by (simp add: spsc_later_def later_def spsc_start_def)
  moreover have "observed_size (spsc_start q) (?s (?q3\<lparr>sq_tail := 1\<rparr>) In_idle Out_idle [7] [7]) = - 1"
    by (simp add: observed_size_def spsc_start_def q_def)
  ultimately show ?thesis unfolding q by blast
qed

end
