(* ===== verification/Task_Scheduler.thy ===== *)
theory Task_Scheduler
  imports Zpc_Prelude
begin

text \<open>
  \<open>AsyncScheduler\<close> of \<open>execution/AsyncScheduler.hpp\<close> and \<open>TaskGraph\<close> of \<open>ZpcTaskGraph.hpp\<close>: worker
  threads with a queue each and a shared one, which run functions, coroutines and the nodes of a
  graph. A thread is a stack of frames, the top one first; a move performs the part of the top frame
  that touches shared memory once and replaces the frame by what remains of the call. The workers are
  the first threads, each above its loop; the others are callers.

  The pause and the stop flag are read in one move, and so are a worker identity and a status. The pointer to the workers
  is null only after the destructor, and \<open>schedule\<close> returns false only for a null pointer; both are left out.

  A node is an index into the list of nodes, and the null pointer is None; its tag, which nothing reads,
  is left out. The queues are the
  concurrent queues of a vendored library, of which the code uses that \<open>try_enqueue\<close> adds an element or fails
  and \<open>try_dequeue\<close> removes some element or fails: the choice is an argument of the move. A blocked
  thread (in a wait on an atomic, or joining) makes no move. A coroutine is known by the number of times
  it will suspend before it finishes, and resuming one that runs or has finished is undefined. What
  a function or a stand-alone coroutine does is the functions it enqueues, the parameter \<open>body\<close>.
\<close>

section \<open>Nodes and graphs\<close>

datatype node_state = Nd_idle | Nd_planned | Nd_scheduled | Nd_running | Nd_done

datatype coro = Suspended nat | Active nat | Finished

record node =
  nd_preds :: "nat list"
  nd_succs :: "nat list"
  nd_numPreds :: nat
  nd_numSuccs :: nat
  nd_numDeps :: int
  nd_task :: "coro option"
  nd_state :: node_state

definition kMaxNodes :: nat where "kMaxNodes = 256"

definition new_node :: "coro option \<Rightarrow> node" where
  "new_node task = \<lparr>nd_preds = [], nd_succs = [], nd_numPreds = 0, nd_numSuccs = 0, nd_numDeps = 0,
     nd_task = task, nd_state = Nd_idle\<rparr>"

text \<open>\<open>addNode\<close> of a coroutine returns the pointer to the node, null when the graph is full.\<close>

definition graph_addNode :: "coro option \<Rightarrow> node list \<Rightarrow> nat option \<times> node list" where
  "graph_addNode task ns =
     (if kMaxNodes \<le> length ns then (None, ns) else (Some (length ns), ns @ [new_node task]))"

text \<open>\<open>addNode\<close> of a function wraps it in a coroutine that does not suspend.\<close>

definition graph_addFunction :: "node list \<Rightarrow> nat option \<times> node list" where
  "graph_addFunction ns = graph_addNode (Some (Suspended 0)) ns"

text \<open>The lists of edges grow at the front.\<close>

definition append_succ :: "nat \<Rightarrow> node \<Rightarrow> node" where
  "append_succ d n = n\<lparr>nd_succs := d # nd_succs n, nd_numSuccs := Suc (nd_numSuccs n)\<rparr>"

definition append_pred :: "nat \<Rightarrow> node \<Rightarrow> node" where
  "append_pred a n = n\<lparr>nd_preds := a # nd_preds n, nd_numPreds := Suc (nd_numPreds n)\<rparr>"

definition node_to :: "nat \<Rightarrow> nat \<Rightarrow> node list \<Rightarrow> node list" where
  "node_to a d ns =
     (let ns = ns[a := append_succ d (ns ! a)];
          ns = ns[d := append_pred a (ns ! d)]
      in ns[d := (ns ! d)\<lparr>nd_numDeps := nd_numDeps (ns ! d) + 1\<rparr>])"

definition graph_addEdge :: "nat option \<Rightarrow> nat option \<Rightarrow> node list \<Rightarrow> node list" where
  "graph_addEdge from dst ns = (case (from, dst) of (Some a, Some d) \<Rightarrow> node_to a d ns | _ \<Rightarrow> ns)"

definition graph_allDone :: "node list \<Rightarrow> bool" where
  "graph_allDone ns = list_all (\<lambda>n. nd_state n = Nd_done) ns"

section \<open>The scheduler\<close>

datatype task = Task_empty | Task_fn "nat option" | Task_coro "nat option" | Task_node "nat option" | Task_stop

record worker =
  wk_queue :: "task list"
  wk_status :: nat
  wk_stop :: bool

datatype sframe =
  Sf_enqueue task int
| Sf_local task nat
| Sf_displace task nat
| Sf_put task
| Sf_count
| Sf_wake nat
| Sf_wake_any nat
| Sf_process task
| Sf_call nat
| Sf_resume nat
| Sf_running nat
| Sf_finished nat
| Sf_successors "nat list"
| Sf_finish
| Sf_loop
| Sf_paused
| Sf_try_local
| Sf_try_global
| Sf_steal
| Sf_victim nat nat
| Sf_sleep
| Sf_asleep
| Sf_schedule "nat option"
| Sf_planned nat
| Sf_reset nat nat
| Sf_submit nat nat
| Sf_wait
| Sf_pause
| Sf_unpause
| Sf_shutdown
| Sf_stop nat
| Sf_rouse nat
| Sf_join nat

text \<open>\<open>as_suspensions\<close> counts the suspensions of nodes so far; the code does not keep it.\<close>

record sched =
  as_nodes :: "node list"
  as_workers :: "worker list"
  as_global :: "task list"
  as_remaining :: u64
  as_steal :: u32
  as_pause :: bool
  as_threads :: "sframe list list"
  as_suspensions :: nat

datatype choice = Fails | Takes nat

datatype outcome = Blocked | Undefined | Next "sframe list" sched

definition kMaxWorkers :: nat where "kMaxWorkers = 32"

definition worker_count :: "nat \<Rightarrow> nat" where
  "worker_count n = (let n = (if n = 0 then 1 else n) in if kMaxWorkers < n then kMaxWorkers else n)"

definition new_worker :: worker where
  "new_worker = \<lparr>wk_queue = [], wk_status = 2, wk_stop = False\<rparr>"

text \<open>The constructor, in a program with the graph \<open>ns\<close> and the calls \<open>cs\<close> of other threads.\<close>

definition new_sched :: "nat \<Rightarrow> node list \<Rightarrow> sframe list list \<Rightarrow> sched" where
  "new_sched n ns cs = \<lparr>as_nodes = ns, as_workers = replicate (worker_count n) new_worker, as_global = [],
     as_remaining = 0, as_steal = 0, as_pause = False,
     as_threads = replicate (worker_count n) [Sf_loop] @ cs, as_suspensions = 0\<rparr>"

definition set_worker :: "nat \<Rightarrow> (worker \<Rightarrow> worker) \<Rightarrow> sched \<Rightarrow> sched" where
  "set_worker w f s = s\<lparr>as_workers := (as_workers s)[w := f (as_workers s ! w)]\<rparr>"

definition set_node :: "nat \<Rightarrow> (node \<Rightarrow> node) \<Rightarrow> sched \<Rightarrow> sched" where
  "set_node k f s = s\<lparr>as_nodes := (as_nodes s)[k := f (as_nodes s ! k)]\<rparr>"

definition current_worker_id :: "nat \<Rightarrow> sched \<Rightarrow> int" where
  "current_worker_id i s = (if i < length (as_workers s) then int i else - 1)"

definition idle :: "sched \<Rightarrow> bool" where
  "idle s \<longleftrightarrow> as_remaining s = 0"

definition dequeue :: "choice \<Rightarrow> 'a list \<Rightarrow> ('a \<times> 'a list) option" where
  "dequeue c q = (case c of Fails \<Rightarrow> None
     | Takes j \<Rightarrow> if j < length q then Some (q ! j, take j q @ drop (Suc j) q) else None)"

definition dequeue_local :: "choice \<Rightarrow> nat \<Rightarrow> sched \<Rightarrow> (task \<times> sched) option" where
  "dequeue_local c w s = (case dequeue c (wk_queue (as_workers s ! w)) of None \<Rightarrow> None
     | Some (t, q) \<Rightarrow> Some (t, set_worker w (\<lambda>v. v\<lparr>wk_queue := q\<rparr>) s))"

subsection \<open>Waking workers\<close>

definition wake_worker :: "nat \<Rightarrow> sched \<Rightarrow> outcome" where
  "wake_worker w s = Next [] (set_worker w (\<lambda>v. v\<lparr>wk_status := 2\<rparr>) s)"

text \<open>One round of the loop; the weak exchange may fail on a sleeping worker.\<close>

definition wake_any_worker :: "choice \<Rightarrow> nat \<Rightarrow> sched \<Rightarrow> outcome" where
  "wake_any_worker c i s =
     (if i < length (as_workers s) then
        if wk_status (as_workers s ! i) = 0 \<and> c \<noteq> Fails then wake_worker i s
        else Next [Sf_wake_any (Suc i)] s
      else if as_workers s \<noteq> [] then Next [] (s\<lparr>as_steal := as_steal s + 1\<rparr>)
      else Next [] s)"

subsection \<open>Enqueueing\<close>

definition enqueue_start :: "nat \<Rightarrow> task \<Rightarrow> int \<Rightarrow> sched \<Rightarrow> outcome" where
  "enqueue_start i t w s =
     (if 0 \<le> w \<and> w < int (length (as_workers s))
         \<and> (current_worker_id i s = w \<or> wk_status (as_workers s ! nat w) = 0)
      then Next [Sf_local t (nat w)] s
      else Next [Sf_put t, Sf_count, Sf_wake_any 0] s)"

definition enqueue_local :: "choice \<Rightarrow> task \<Rightarrow> nat \<Rightarrow> sched \<Rightarrow> outcome" where
  "enqueue_local c t w s =
     (if c = Fails then Next [Sf_displace t w] s
      else Next ([Sf_count, Sf_wake w] @ (if 1 < length (as_workers s) then [Sf_wake_any 0] else []))
        (set_worker w (\<lambda>v. v\<lparr>wk_queue := wk_queue v @ [t]\<rparr>) s))"

text \<open>A full queue gives one of its tasks to the global queue.\<close>

definition enqueue_displace :: "choice \<Rightarrow> task \<Rightarrow> nat \<Rightarrow> sched \<Rightarrow> outcome" where
  "enqueue_displace c t w s = (case dequeue_local c w s of
     None \<Rightarrow> Next [Sf_local t w] s
   | Some (d, s) \<Rightarrow> Next [Sf_put d, Sf_wake_any 0, Sf_local t w] s)"

definition enqueue_global :: "choice \<Rightarrow> task \<Rightarrow> sched \<Rightarrow> outcome" where
  "enqueue_global c t s =
     (if c = Fails then Next [Sf_put t] s else Next [] (s\<lparr>as_global := as_global s @ [t]\<rparr>))"

subsection \<open>Running a task\<close>

definition process :: "task \<Rightarrow> sched \<Rightarrow> outcome" where
  "process t s = (case t of
     Task_fn f \<Rightarrow> Next ((case f of None \<Rightarrow> [] | Some k \<Rightarrow> [Sf_call k]) @ [Sf_finish]) s
   | Task_coro f \<Rightarrow> Next ((case f of None \<Rightarrow> [] | Some k \<Rightarrow> [Sf_call k]) @ [Sf_finish]) s
   | Task_node None \<Rightarrow> Next [Sf_finish] s
   | Task_node (Some k) \<Rightarrow>
       if length (as_nodes s) \<le> k then Undefined
       else if nd_task (as_nodes s ! k) = None then Next [Sf_finish] s
       else Next [Sf_resume k, Sf_finish] (set_node k (\<lambda>n. n\<lparr>nd_state := Nd_running\<rparr>) s)
   | Task_stop \<Rightarrow> Next [] s
   | Task_empty \<Rightarrow> Next [] s)"

definition node_resume :: "nat \<Rightarrow> sched \<Rightarrow> outcome" where
  "node_resume k s = (case nd_task (as_nodes s ! k) of
     Some (Suspended n) \<Rightarrow> Next [Sf_running k] (set_node k (\<lambda>v. v\<lparr>nd_task := Some (Active n)\<rparr>) s)
   | _ \<Rightarrow> Undefined)"

text \<open>
  The coroutine returns to its caller: a finished one is done, one that suspends is enqueued again and
  counted once more.
\<close>

definition node_returns :: "nat \<Rightarrow> nat \<Rightarrow> sched \<Rightarrow> outcome" where
  "node_returns i k s = (case nd_task (as_nodes s ! k) of
     Some (Active 0) \<Rightarrow> Next [Sf_finished k] (set_node k (\<lambda>v. v\<lparr>nd_task := Some Finished\<rparr>) s)
   | Some (Active (Suc n)) \<Rightarrow>
       Next [Sf_enqueue (Task_node (Some k)) (int i), Sf_count]
         (set_node k (\<lambda>v. v\<lparr>nd_task := Some (Suspended n)\<rparr>) s\<lparr>as_suspensions := Suc (as_suspensions s)\<rparr>)
   | _ \<Rightarrow> Undefined)"

definition node_finished :: "nat \<Rightarrow> sched \<Rightarrow> outcome" where
  "node_finished k s =
     Next [Sf_successors (nd_succs (as_nodes s ! k))] (set_node k (\<lambda>v. v\<lparr>nd_state := Nd_done\<rparr>) s)"

fun release_successors :: "nat list \<Rightarrow> sched \<Rightarrow> outcome" where
  "release_successors [] s = Next [] s"
| "release_successors (d # ds) s =
     Next ((if nd_numDeps (as_nodes s ! d) = 1 then [Sf_enqueue (Task_node (Some d)) (- 1)] else []) @ [Sf_successors ds])
       (set_node d (\<lambda>v. v\<lparr>nd_numDeps := nd_numDeps v - 1\<rparr>) s)"

subsection \<open>The loop of a worker\<close>

definition loop_top :: "nat \<Rightarrow> sched \<Rightarrow> outcome" where
  "loop_top i s =
     (if wk_stop (as_workers s ! i) then Next [] s
      else Next [Sf_paused] (set_worker i (\<lambda>v. v\<lparr>wk_status := 1\<rparr>) s))"

definition loop_paused :: "nat \<Rightarrow> sched \<Rightarrow> outcome" where
  "loop_paused i s =
     (if wk_stop (as_workers s ! i) then Next [] s
      else if as_pause s then Blocked
      else Next [Sf_try_local] s)"

definition loop_local :: "choice \<Rightarrow> nat \<Rightarrow> sched \<Rightarrow> outcome" where
  "loop_local c i s = (case dequeue_local c i s of
     None \<Rightarrow> Next [Sf_try_global] s
   | Some (t, s) \<Rightarrow> Next [Sf_process t, Sf_loop] s)"

definition loop_global :: "choice \<Rightarrow> sched \<Rightarrow> outcome" where
  "loop_global c s = (case dequeue c (as_global s) of
     None \<Rightarrow> Next [Sf_steal] s
   | Some (t, q) \<Rightarrow> Next [Sf_process t, Sf_loop] (s\<lparr>as_global := q\<rparr>))"

definition steal_start :: "sched \<Rightarrow> outcome" where
  "steal_start s =
     (if length (as_workers s) \<le> 1 then Next [Sf_sleep] s
      else Next [Sf_victim (unat (as_steal s) mod length (as_workers s)) 0] (s\<lparr>as_steal := as_steal s + 1\<rparr>))"

definition steal_from :: "choice \<Rightarrow> nat \<Rightarrow> nat \<Rightarrow> nat \<Rightarrow> sched \<Rightarrow> outcome" where
  "steal_from c i start offset s =
     (if offset < length (as_workers s) then
        let victim = (start + offset) mod length (as_workers s) in
        if victim = i then Next [Sf_victim start (Suc offset)] s
        else case dequeue_local c victim s of
          None \<Rightarrow> Next [Sf_victim start (Suc offset)] s
        | Some (t, s) \<Rightarrow> Next [Sf_process t, Sf_loop] s
      else Next [Sf_sleep] s)"

definition loop_sleep :: "nat \<Rightarrow> sched \<Rightarrow> outcome" where
  "loop_sleep i s =
     (if wk_status (as_workers s ! i) = 1 then Next [Sf_asleep] (set_worker i (\<lambda>v. v\<lparr>wk_status := 0\<rparr>) s)
      else Next [Sf_loop] s)"

definition loop_asleep :: "nat \<Rightarrow> sched \<Rightarrow> outcome" where
  "loop_asleep i s = (if wk_status (as_workers s ! i) = 0 then Blocked else Next [Sf_loop] s)"

subsection \<open>Calls of other threads\<close>

definition schedule_node :: "nat option \<Rightarrow> sched \<Rightarrow> outcome" where
  "schedule_node node s = (case node of None \<Rightarrow> Next [] s
   | Some k \<Rightarrow>
       if length (as_nodes s) \<le> k then Undefined
       else if nd_state (as_nodes s ! k) \<noteq> Nd_idle then Next [] s
       else Next [Sf_planned k] (set_node k (\<lambda>n. n\<lparr>nd_state := Nd_planned\<rparr>) s))"

definition schedule_planned :: "nat \<Rightarrow> sched \<Rightarrow> outcome" where
  "schedule_planned k s =
     (if nd_numDeps (as_nodes s ! k) \<noteq> 0
      then Next (map (\<lambda>p. Sf_schedule (Some p)) (nd_preds (as_nodes s ! k))) s
      else Next [Sf_enqueue (Task_node (Some k)) (- 1)] s)"

definition submit_reset :: "nat \<Rightarrow> nat \<Rightarrow> sched \<Rightarrow> outcome" where
  "submit_reset i n s =
     (if i < n then Next [Sf_reset (Suc i) n] (set_node i (\<lambda>v. v\<lparr>nd_state := Nd_idle\<rparr>) s) else Next [] s)"

definition submit_loop :: "nat \<Rightarrow> nat \<Rightarrow> sched \<Rightarrow> outcome" where
  "submit_loop i n s =
     (if i < n then
        Next ((if nd_numDeps (as_nodes s ! i) = 0 then [Sf_schedule (Some i)] else []) @ [Sf_submit (Suc i) n]) s
      else Next [] s)"

text \<open>\<open>TaskGraph::submit\<close> on a graph of \<open>n\<close> nodes.\<close>

definition graph_submit :: "nat \<Rightarrow> sframe list" where
  "graph_submit n = [Sf_reset 0 n, Sf_submit 0 n]"

definition wait_loop :: "sched \<Rightarrow> outcome" where
  "wait_loop s = (if idle s then Next [] s else Next [Sf_wake_any 0, Sf_wait] s)"

definition pause_sched :: "sched \<Rightarrow> outcome" where
  "pause_sched s = Next [] (s\<lparr>as_pause := True\<rparr>)"

definition resume_sched :: "sched \<Rightarrow> outcome" where
  "resume_sched s = Next (if as_pause s then [Sf_wake_any 0] else []) (s\<lparr>as_pause := False\<rparr>)"

definition shutdown :: "sched \<Rightarrow> outcome" where
  "shutdown s = Next [Sf_stop 0, Sf_rouse 0, Sf_join 0] (s\<lparr>as_pause := False\<rparr>)"

definition stop_workers :: "nat \<Rightarrow> sched \<Rightarrow> outcome" where
  "stop_workers i s =
     (if i < length (as_workers s) then Next [Sf_stop (Suc i)] (set_worker i (\<lambda>v. v\<lparr>wk_stop := True\<rparr>) s)
      else Next [] s)"

definition rouse_workers :: "nat \<Rightarrow> sched \<Rightarrow> outcome" where
  "rouse_workers i s =
     (if i < length (as_workers s) then Next [Sf_rouse (Suc i)] (set_worker i (\<lambda>v. v\<lparr>wk_status := 2\<rparr>) s)
      else Next [] s)"

definition join_workers :: "nat \<Rightarrow> sched \<Rightarrow> outcome" where
  "join_workers i s =
     (if i < length (as_workers s) then if as_threads s ! i = [] then Next [Sf_join (Suc i)] s else Blocked
      else Next [] s)"

subsection \<open>Moves\<close>

definition call_frames :: "(nat \<Rightarrow> (nat \<times> int) list) \<Rightarrow> nat \<Rightarrow> sframe list" where
  "call_frames body k = map (\<lambda>(f, w). Sf_enqueue (Task_fn (Some f)) w) (body k)"

fun act :: "(nat \<Rightarrow> (nat \<times> int) list) \<Rightarrow> nat \<Rightarrow> choice \<Rightarrow> sframe \<Rightarrow> sched \<Rightarrow> outcome" where
  "act body i c (Sf_enqueue t w) s = enqueue_start i t w s"
| "act body i c (Sf_local t w) s = enqueue_local c t w s"
| "act body i c (Sf_displace t w) s = enqueue_displace c t w s"
| "act body i c (Sf_put t) s = enqueue_global c t s"
| "act body i c Sf_count s = Next [] (s\<lparr>as_remaining := as_remaining s + 1\<rparr>)"
| "act body i c (Sf_wake w) s = wake_worker w s"
| "act body i c (Sf_wake_any k) s = wake_any_worker c k s"
| "act body i c (Sf_process t) s = process t s"
| "act body i c (Sf_call k) s = Next (call_frames body k) s"
| "act body i c (Sf_resume k) s = node_resume k s"
| "act body i c (Sf_running k) s = node_returns i k s"
| "act body i c (Sf_finished k) s = node_finished k s"
| "act body i c (Sf_successors ds) s = release_successors ds s"
| "act body i c Sf_finish s = Next [] (s\<lparr>as_remaining := as_remaining s - 1\<rparr>)"
| "act body i c Sf_loop s = loop_top i s"
| "act body i c Sf_paused s = loop_paused i s"
| "act body i c Sf_try_local s = loop_local c i s"
| "act body i c Sf_try_global s = loop_global c s"
| "act body i c Sf_steal s = steal_start s"
| "act body i c (Sf_victim start offset) s = steal_from c i start offset s"
| "act body i c Sf_sleep s = loop_sleep i s"
| "act body i c Sf_asleep s = loop_asleep i s"
| "act body i c (Sf_schedule node) s = schedule_node node s"
| "act body i c (Sf_planned k) s = schedule_planned k s"
| "act body i c (Sf_reset k n) s = submit_reset k n s"
| "act body i c (Sf_submit k n) s = submit_loop k n s"
| "act body i c Sf_wait s = wait_loop s"
| "act body i c Sf_pause s = pause_sched s"
| "act body i c Sf_unpause s = resume_sched s"
| "act body i c Sf_shutdown s = shutdown s"
| "act body i c (Sf_stop k) s = stop_workers k s"
| "act body i c (Sf_rouse k) s = rouse_workers k s"
| "act body i c (Sf_join k) s = join_workers k s"

definition set_thread :: "nat \<Rightarrow> sframe list \<Rightarrow> sched \<Rightarrow> sched" where
  "set_thread i fs s = s\<lparr>as_threads := (as_threads s)[i := fs]\<rparr>"

text \<open>A move of thread \<open>i\<close>; None when it cannot move, and None inside when the move is undefined.\<close>

definition thread_move :: "(nat \<Rightarrow> (nat \<times> int) list) \<Rightarrow> nat \<Rightarrow> choice \<Rightarrow> sched \<Rightarrow> sched option option" where
  "thread_move body i c s =
     (if i < length (as_threads s) then
        case as_threads s ! i of [] \<Rightarrow> None
        | f # fs \<Rightarrow> (case act body i c f s of Blocked \<Rightarrow> None | Undefined \<Rightarrow> Some None
            | Next gs s \<Rightarrow> Some (Some (set_thread i (gs @ fs) s)))
      else None)"

inductive sched_reaches :: "(nat \<Rightarrow> (nat \<times> int) list) \<Rightarrow> sched \<Rightarrow> sched option \<Rightarrow> bool" for body s0 where
  start: "sched_reaches body s0 (Some s0)"
| move: "sched_reaches body s0 (Some s) \<Longrightarrow> thread_move body i c s = Some r \<Longrightarrow> sched_reaches body s0 r"

text \<open>A run along a list of threads and choices.\<close>

fun sched_run :: "(nat \<Rightarrow> (nat \<times> int) list) \<Rightarrow> (nat \<times> choice) list \<Rightarrow> sched \<Rightarrow> sched option option" where
  "sched_run body [] s = Some (Some s)"
| "sched_run body ((i, c) # xs) s = (case thread_move body i c s of
     None \<Rightarrow> None | Some None \<Rightarrow> (if xs = [] then Some None else None) | Some (Some s) \<Rightarrow> sched_run body xs s)"

lemma run_reaches: "sched_reaches body s0 (Some s) \<Longrightarrow> sched_run body xs s = Some r \<Longrightarrow> sched_reaches body s0 r"
  by (induction body xs s rule: sched_run.induct)
    (auto split: option.splits if_splits intro: sched_reaches.move)

lemma reaches_trans:
  "sched_reaches body s0 (Some s1) \<Longrightarrow> sched_reaches body s1 r \<Longrightarrow> sched_reaches body s0 r"
  by (rotate_tac, induction rule: sched_reaches.induct) (auto intro: sched_reaches.move)

end
