(* ===== verification/Task_Scheduler_Inv.thy ===== *)
theory Task_Scheduler_Inv
  imports Task_Scheduler
begin

text \<open>
  Invariants of the scheduler under every interleaving: which indices frames may hold, the balance of
  the job counter, and the count of the dependencies a node still has.
\<close>

lemmas act_defs = enqueue_start_def enqueue_local_def enqueue_displace_def enqueue_global_def process_def
  node_resume_def node_returns_def node_finished_def loop_top_def loop_paused_def loop_local_def loop_global_def
  steal_start_def steal_from_def loop_sleep_def loop_asleep_def schedule_node_def schedule_planned_def
  submit_reset_def submit_loop_def wait_loop_def pause_sched_def resume_sched_def shutdown_def
  stop_workers_def rouse_workers_def join_workers_def wake_worker_def wake_any_worker_def call_frames_def

section \<open>Sums over frames and over queued tasks\<close>

definition frames_sum :: "(sframe \<Rightarrow> int) \<Rightarrow> sched \<Rightarrow> int" where
  "frames_sum h s = sum_list (map (\<lambda>fs. sum_list (map h fs)) (as_threads s))"

definition tasks_sum :: "(task \<Rightarrow> int) \<Rightarrow> sched \<Rightarrow> int" where
  "tasks_sum g s = sum_list (map g (as_global s)) + sum_list (map (\<lambda>w. sum_list (map g (wk_queue w))) (as_workers s))"

lemma sum_list_update_int:
  "i < length xs \<Longrightarrow> sum_list (map h (xs[i := v])) = sum_list (map h xs) - h (xs ! i) + (h v :: int)"
proof (induction xs arbitrary: i)
  case (Cons x xs)
  then show ?case by (cases i) auto
qed simp

lemma frames_sum_move:
  assumes "i < length (as_threads s)" and "as_threads s ! i = f # fs" and "as_threads s' = as_threads s"
  shows "frames_sum h (set_thread i (gs @ fs) s') = frames_sum h s - h f + sum_list (map h gs)"
  using assms by (simp add: frames_sum_def set_thread_def sum_list_update_int)

lemma tasks_sum_thread [simp]: "tasks_sum g (set_thread i fs s) = tasks_sum g s"
  by (simp add: tasks_sum_def set_thread_def)

lemma tasks_sum_node [simp]: "tasks_sum g (set_node k f s) = tasks_sum g s"
  by (simp add: tasks_sum_def set_node_def)

lemma tasks_sum_fields [simp]:
  "tasks_sum g (s\<lparr>as_remaining := r\<rparr>) = tasks_sum g s" "tasks_sum g (s\<lparr>as_steal := u\<rparr>) = tasks_sum g s"
  "tasks_sum g (s\<lparr>as_pause := b\<rparr>) = tasks_sum g s" "tasks_sum g (s\<lparr>as_suspensions := n\<rparr>) = tasks_sum g s"
  by (simp_all add: tasks_sum_def)

lemma tasks_sum_global: "tasks_sum g (s\<lparr>as_global := q\<rparr>) = tasks_sum g s - sum_list (map g (as_global s)) + sum_list (map g q)"
  by (simp add: tasks_sum_def)

lemma tasks_sum_worker:
  "w < length (as_workers s) \<Longrightarrow> tasks_sum g (set_worker w f s)
    = tasks_sum g s - sum_list (map g (wk_queue (as_workers s ! w))) + sum_list (map g (wk_queue (f (as_workers s ! w))))"
  by (simp add: tasks_sum_def set_worker_def sum_list_update_int)

lemma tasks_sum_worker_same:
  assumes "\<And>v. wk_queue (f v) = wk_queue v"
  shows "tasks_sum g (set_worker w f s) = tasks_sum g s"
proof (cases "w < length (as_workers s)")
  case True
  then show ?thesis using assms by (simp add: tasks_sum_worker)
qed (simp add: tasks_sum_def set_worker_def list_update_beyond)

lemma dequeue_sum:
  "dequeue c q = Some (t, q') \<Longrightarrow> sum_list (map g q') = sum_list (map g q) - (g t :: int)"
proof -
  assume "dequeue c q = Some (t, q')"
  then obtain j where "j < length q" "t = q ! j" "q' = take j q @ drop (Suc j) q"
    by (auto simp: dequeue_def split: choice.splits if_splits)
  moreover from this have "q = take j q @ t # drop (Suc j) q" by (simp add: id_take_nth_drop)
  then have "sum_list (map g q) = sum_list (map g (take j q @ t # drop (Suc j) q))" by simp
  ultimately show ?thesis by simp
qed

lemma dequeue_local_sum:
  "dequeue_local c w s = Some (t, s') \<Longrightarrow> w < length (as_workers s) \<Longrightarrow> tasks_sum g s' = tasks_sum g s - g t"
  by (auto simp: dequeue_local_def tasks_sum_worker dequeue_sum split: option.splits)

text \<open>What the operations on a worker or a node leave alone.\<close>

lemma set_worker_fields [simp]:
  "as_nodes (set_worker w f s) = as_nodes s" "as_threads (set_worker w f s) = as_threads s"
  "as_remaining (set_worker w f s) = as_remaining s" "as_suspensions (set_worker w f s) = as_suspensions s"
  "as_global (set_worker w f s) = as_global s" "length (as_workers (set_worker w f s)) = length (as_workers s)"
  by (simp_all add: set_worker_def)

lemma set_node_fields [simp]:
  "as_workers (set_node k f s) = as_workers s" "as_threads (set_node k f s) = as_threads s"
  "as_remaining (set_node k f s) = as_remaining s" "as_suspensions (set_node k f s) = as_suspensions s"
  "as_global (set_node k f s) = as_global s" "length (as_nodes (set_node k f s)) = length (as_nodes s)"
  by (simp_all add: set_node_def)

lemma set_thread_fields [simp]:
  "as_workers (set_thread i fs s) = as_workers s" "as_nodes (set_thread i fs s) = as_nodes s"
  "as_remaining (set_thread i fs s) = as_remaining s" "as_suspensions (set_thread i fs s) = as_suspensions s"
  "as_threads (set_thread i fs s) = (as_threads s)[i := fs]" "as_global (set_thread i fs s) = as_global s"
  by (simp_all add: set_thread_def)

lemma dequeue_local_fields:
  assumes "dequeue_local c w s = Some (t, s')"
  shows "as_nodes s' = as_nodes s" and "as_threads s' = as_threads s" and "as_remaining s' = as_remaining s"
    and "as_suspensions s' = as_suspensions s" and "length (as_workers s') = length (as_workers s)"
  using assms by (auto simp: dequeue_local_def split: option.splits)

section \<open>Indices\<close>

text \<open>Edges of a graph stay within it, and each is entered at both of its ends.\<close>

definition wired :: "node list \<Rightarrow> bool" where
  "wired ns \<longleftrightarrow> (\<forall>k < length ns. (\<forall>d \<in> set (nd_succs (ns ! k)). d < length ns) \<and> (\<forall>p \<in> set (nd_preds (ns ! k)). p < length ns)
     \<and> (\<forall>p < length ns. count_list (nd_succs (ns ! p)) k = count_list (nd_preds (ns ! k)) p))"

lemma wired_bounds:
  assumes "wired ns"
  shows "k < length ns \<Longrightarrow> d \<in> set (nd_succs (ns ! k)) \<Longrightarrow> d < length ns"
    and "k < length ns \<Longrightarrow> d \<in> set (nd_preds (ns ! k)) \<Longrightarrow> d < length ns"
  using assms unfolding wired_def by blast+

lemma wired_count: "wired ns \<Longrightarrow> k < length ns \<Longrightarrow> p < length ns
    \<Longrightarrow> count_list (nd_succs (ns ! p)) k = count_list (nd_preds (ns ! k)) p"
  unfolding wired_def by blast

lemma wiredI:
  assumes "\<And>k d. k < length ns \<Longrightarrow> d \<in> set (nd_succs (ns ! k)) \<Longrightarrow> d < length ns"
    and "\<And>k p. k < length ns \<Longrightarrow> p \<in> set (nd_preds (ns ! k)) \<Longrightarrow> p < length ns"
    and "\<And>k p. k < length ns \<Longrightarrow> p < length ns
      \<Longrightarrow> count_list (nd_succs (ns ! p)) k = count_list (nd_preds (ns ! k)) p"
  shows "wired ns"
  using assms unfolding wired_def by blast

definition same_wiring :: "node list \<Rightarrow> node list \<Rightarrow> bool" where
  "same_wiring ns ms \<longleftrightarrow> length ns = length ms
     \<and> (\<forall>k < length ns. nd_succs (ns ! k) = nd_succs (ms ! k) \<and> nd_preds (ns ! k) = nd_preds (ms ! k))"

lemma same_wiring_wired: "same_wiring ns ms \<Longrightarrow> wired ns = wired ms"
  unfolding same_wiring_def wired_def by auto

lemma same_wiring_refl [simp]: "same_wiring ns ns"
  by (simp add: same_wiring_def)

lemma same_wiring_trans: "same_wiring a b \<Longrightarrow> same_wiring b c \<Longrightarrow> same_wiring a c"
  by (simp add: same_wiring_def)

lemma same_wiring_set_node:
  "(\<And>v. nd_succs (f v) = nd_succs v) \<Longrightarrow> (\<And>v. nd_preds (f v) = nd_preds v)
    \<Longrightarrow> same_wiring (as_nodes (set_node k f s)) (as_nodes s)"
  by (cases "k < length (as_nodes s)") (auto simp: same_wiring_def set_node_def nth_list_update)

text \<open>\<open>frame_ok n m i f\<close>: a thread \<open>i\<close> may hold the frame \<open>f\<close>, with \<open>n\<close> workers and \<open>m\<close> nodes.\<close>

fun frame_ok :: "nat \<Rightarrow> nat \<Rightarrow> nat \<Rightarrow> sframe \<Rightarrow> bool" where
  "frame_ok n m i (Sf_local t w) = (w < n)"
| "frame_ok n m i (Sf_displace t w) = (w < n)"
| "frame_ok n m i (Sf_wake w) = (w < n)"
| "frame_ok n m i (Sf_resume k) = (k < m)"
| "frame_ok n m i (Sf_running k) = (k < m)"
| "frame_ok n m i (Sf_finished k) = (k < m)"
| "frame_ok n m i (Sf_successors ds) = (\<forall>d \<in> set ds. d < m)"
| "frame_ok n m i (Sf_schedule node) = pred_option (\<lambda>k. k < m) node"
| "frame_ok n m i (Sf_planned k) = (k < m)"
| "frame_ok n m i (Sf_submit k e) = (e \<le> m)"
| "frame_ok n m i Sf_loop = (i < n)"
| "frame_ok n m i Sf_paused = (i < n)"
| "frame_ok n m i Sf_try_local = (i < n)"
| "frame_ok n m i Sf_try_global = (i < n)"
| "frame_ok n m i Sf_steal = (i < n)"
| "frame_ok n m i (Sf_victim b e) = (i < n)"
| "frame_ok n m i Sf_sleep = (i < n)"
| "frame_ok n m i Sf_asleep = (i < n)"
| "frame_ok n m i f = True"

definition frames_ok :: "sched \<Rightarrow> bool" where
  "frames_ok s \<longleftrightarrow> wired (as_nodes s)
     \<and> (\<forall>i < length (as_threads s). list_all (frame_ok (length (as_workers s)) (length (as_nodes s)) i) (as_threads s ! i))"

lemma process_frames:
  assumes "process t s = Next gs s'"
  shows "list_all (frame_ok n (length (as_nodes s)) i) gs \<and> as_threads s' = as_threads s
    \<and> length (as_workers s') = length (as_workers s) \<and> same_wiring (as_nodes s') (as_nodes s)"
proof (cases t)
  case (Task_node k)
  then show ?thesis using assms by (cases k) (auto simp: process_def same_wiring_set_node split: if_splits)
qed (use assms in \<open>auto simp: process_def split: option.splits\<close>)

lemma act_frames:
  assumes "act body i c f s = Next gs s'" and "frame_ok (length (as_workers s)) (length (as_nodes s)) i f"
    and "wired (as_nodes s)"
  shows "list_all (frame_ok (length (as_workers s)) (length (as_nodes s)) i) gs
    \<and> as_threads s' = as_threads s \<and> length (as_workers s') = length (as_workers s) \<and> same_wiring (as_nodes s') (as_nodes s)"
proof (cases f)
  case (Sf_enqueue t w)
  then show ?thesis using assms(1,2)
    by (auto simp: enqueue_start_def same_wiring_set_node nat_less_iff split: if_splits option.splits dest: dequeue_local_fields)
next
  case (Sf_local t w)
  then show ?thesis using assms(1,2)
    by (auto simp: enqueue_local_def same_wiring_set_node nat_less_iff split: if_splits option.splits dest: dequeue_local_fields)
next
  case (Sf_displace t w)
  then show ?thesis using assms(1,2)
    by (auto simp: enqueue_displace_def same_wiring_set_node nat_less_iff split: if_splits option.splits dest: dequeue_local_fields)
next
  case (Sf_put t)
  then show ?thesis using assms(1,2)
    by (auto simp: enqueue_global_def same_wiring_set_node nat_less_iff split: if_splits option.splits dest: dequeue_local_fields)
next
  case Sf_count
  then show ?thesis using assms(1,2)
    by (auto simp: same_wiring_set_node nat_less_iff split: if_splits option.splits dest: dequeue_local_fields)
next
  case (Sf_wake w)
  then show ?thesis using assms(1,2)
    by (auto simp: wake_worker_def same_wiring_set_node nat_less_iff split: if_splits option.splits dest: dequeue_local_fields)
next
  case (Sf_wake_any w)
  then show ?thesis using assms(1,2)
    by (auto simp: wake_any_worker_def wake_worker_def same_wiring_set_node nat_less_iff split: if_splits option.splits dest: dequeue_local_fields)
next
  case (Sf_process t)
  then show ?thesis using assms(1) process_frames [of t s gs s'] by simp
next
  case (Sf_call k)
  then show ?thesis using assms(1) by (auto simp: call_frames_def list_all_iff)
next
  case (Sf_resume k)
  then show ?thesis using assms(1,2)
    by (auto simp: node_resume_def same_wiring_set_node nat_less_iff split: if_splits option.splits coro.splits nat.splits dest: dequeue_local_fields)
next
  case (Sf_running k)
  then show ?thesis using assms(1,2)
    by (auto simp: node_returns_def same_wiring_set_node nat_less_iff split: if_splits option.splits coro.splits nat.splits dest: dequeue_local_fields)
next
  case (Sf_finished k)
  then have "k < length (as_nodes s)" using assms(2) by simp
  then have "\<forall>d \<in> set (nd_succs (as_nodes s ! k)). d < length (as_nodes s)" using wired_bounds(1) [OF assms(3)] by blast
  then show ?thesis using assms(1) Sf_finished by (auto simp: node_finished_def same_wiring_set_node list_all_iff split: if_splits)
next
  case (Sf_successors ds)
  then show ?thesis using assms(1,2) by (cases ds) (auto simp: same_wiring_set_node)
next
  case Sf_finish
  then show ?thesis using assms(1,2)
    by (auto simp: same_wiring_set_node nat_less_iff split: if_splits option.splits dest: dequeue_local_fields)
next
  case Sf_loop
  then show ?thesis using assms(1,2)
    by (auto simp: loop_top_def same_wiring_set_node nat_less_iff split: if_splits option.splits dest: dequeue_local_fields)
next
  case Sf_paused
  then show ?thesis using assms(1,2)
    by (auto simp: loop_paused_def same_wiring_set_node nat_less_iff split: if_splits option.splits dest: dequeue_local_fields)
next
  case Sf_try_local
  then show ?thesis using assms(1,2)
    by (auto simp: loop_local_def same_wiring_set_node nat_less_iff split: if_splits option.splits dest: dequeue_local_fields)
next
  case Sf_try_global
  then show ?thesis using assms(1,2)
    by (auto simp: loop_global_def same_wiring_set_node nat_less_iff split: if_splits option.splits dest: dequeue_local_fields)
next
  case Sf_steal
  then show ?thesis using assms(1,2)
    by (auto simp: steal_start_def same_wiring_set_node nat_less_iff split: if_splits option.splits dest: dequeue_local_fields)
next
  case (Sf_victim b e)
  then show ?thesis using assms(1,2)
    by (auto simp: steal_from_def Let_def same_wiring_set_node nat_less_iff split: if_splits option.splits dest: dequeue_local_fields)
next
  case Sf_sleep
  then show ?thesis using assms(1,2)
    by (auto simp: loop_sleep_def same_wiring_set_node nat_less_iff split: if_splits option.splits dest: dequeue_local_fields)
next
  case Sf_asleep
  then show ?thesis using assms(1,2)
    by (auto simp: loop_asleep_def same_wiring_set_node nat_less_iff split: if_splits option.splits dest: dequeue_local_fields)
next
  case (Sf_schedule k)
  then show ?thesis using assms(1,2)
    by (auto simp: schedule_node_def same_wiring_set_node nat_less_iff split: if_splits option.splits dest: dequeue_local_fields)
next
  case (Sf_planned k)
  then have "k < length (as_nodes s)" using assms(2) by simp
  then have "\<forall>d \<in> set (nd_preds (as_nodes s ! k)). d < length (as_nodes s)" using wired_bounds(2) [OF assms(3)] by blast
  then show ?thesis using assms(1) Sf_planned by (auto simp: schedule_planned_def same_wiring_set_node list_all_iff split: if_splits)
next
  case (Sf_reset k e)
  then show ?thesis using assms(1,2)
    by (auto simp: submit_reset_def same_wiring_set_node nat_less_iff split: if_splits option.splits dest: dequeue_local_fields)
next
  case (Sf_submit k e)
  then show ?thesis using assms(1,2)
    by (auto simp: submit_loop_def same_wiring_set_node nat_less_iff split: if_splits option.splits dest: dequeue_local_fields)
next
  case Sf_wait
  then show ?thesis using assms(1,2)
    by (auto simp: wait_loop_def same_wiring_set_node nat_less_iff split: if_splits option.splits dest: dequeue_local_fields)
next
  case Sf_pause
  then show ?thesis using assms(1,2)
    by (auto simp: pause_sched_def same_wiring_set_node nat_less_iff split: if_splits option.splits dest: dequeue_local_fields)
next
  case Sf_unpause
  then show ?thesis using assms(1,2)
    by (auto simp: resume_sched_def same_wiring_set_node nat_less_iff split: if_splits option.splits dest: dequeue_local_fields)
next
  case Sf_shutdown
  then show ?thesis using assms(1,2)
    by (auto simp: shutdown_def same_wiring_set_node nat_less_iff split: if_splits option.splits dest: dequeue_local_fields)
next
  case (Sf_stop k)
  then show ?thesis using assms(1,2)
    by (auto simp: stop_workers_def same_wiring_set_node nat_less_iff split: if_splits option.splits dest: dequeue_local_fields)
next
  case (Sf_rouse k)
  then show ?thesis using assms(1,2)
    by (auto simp: rouse_workers_def same_wiring_set_node nat_less_iff split: if_splits option.splits dest: dequeue_local_fields)
next
  case (Sf_join k)
  then show ?thesis using assms(1,2)
    by (auto simp: join_workers_def same_wiring_set_node nat_less_iff split: if_splits option.splits dest: dequeue_local_fields)
qed

lemma thread_moveE:
  assumes "thread_move body i c s = Some (Some s')"
  obtains f fs gs s1 where "i < length (as_threads s)" and "as_threads s ! i = f # fs"
    and "act body i c f s = Next gs s1" and "s' = set_thread i (gs @ fs) s1"
  using assms by (auto simp: thread_move_def split: if_splits list.splits outcome.splits)

lemma thread_move_frames:
  assumes "thread_move body i c s = Some (Some s')" and "frames_ok s"
  shows "frames_ok s' \<and> length (as_workers s') = length (as_workers s) \<and> same_wiring (as_nodes s') (as_nodes s)"
proof -
  obtain f fs gs s1 where m: "i < length (as_threads s)" "as_threads s ! i = f # fs"
      "act body i c f s = Next gs s1" "s' = set_thread i (gs @ fs) s1"
    using assms(1) by (rule thread_moveE)
  let ?P = "frame_ok (length (as_workers s)) (length (as_nodes s))"
  have w: "wired (as_nodes s)" and ok: "\<And>j. j < length (as_threads s) \<Longrightarrow> list_all (?P j) (as_threads s ! j)"
    using assms(2) by (auto simp: frames_ok_def)
  have f: "?P i f" "list_all (?P i) fs" using ok [OF m(1)] m(2) by simp_all
  note a = act_frames [OF m(3) f(1) w]
  then have "length (as_nodes s1) = length (as_nodes s)" "wired (as_nodes s1)"
    using w same_wiring_wired by (auto simp: same_wiring_def)
  then show ?thesis using a f(2) ok m(1,4) by (auto simp: frames_ok_def nth_list_update)
qed

section \<open>The job counter\<close>

text \<open>
  What a task and a frame still owe the counter: a queued task the decrement after it has run, a frame
  the increments and decrements of the rest of its call.
\<close>

fun task_debt :: "task \<Rightarrow> int" where
  "task_debt Task_empty = 0"
| "task_debt Task_stop = 0"
| "task_debt t = 1"

fun frame_debt :: "sframe \<Rightarrow> int" where
  "frame_debt Sf_count = - 1"
| "frame_debt Sf_finish = 1"
| "frame_debt (Sf_process t) = task_debt t"
| "frame_debt (Sf_put t) = task_debt t"
| "frame_debt (Sf_local t w) = task_debt t - 1"
| "frame_debt (Sf_displace t w) = task_debt t - 1"
| "frame_debt (Sf_enqueue t w) = task_debt t - 1"
| "frame_debt f = 0"

definition job_balance :: "sched \<Rightarrow> int" where
  "job_balance s = tasks_sum task_debt s + frames_sum frame_debt s + int (as_suspensions s)"

lemma process_debt:
  assumes "process t s = Next gs s'"
  shows "sum_list (map frame_debt gs) = task_debt t \<and> tasks_sum g s' = tasks_sum g s
    \<and> as_suspensions s' = as_suspensions s \<and> as_remaining s' = as_remaining s"
proof (cases t)
  case (Task_node k)
  then show ?thesis using assms by (cases k) (auto simp: process_def split: if_splits)
qed (use assms in \<open>auto simp: process_def split: option.splits\<close>)

lemma act_debt:
  assumes "act body i c f s = Next gs s'" and "frame_ok (length (as_workers s)) (length (as_nodes s)) i f"
  shows "as_remaining s' - of_int (tasks_sum task_debt s' + sum_list (map frame_debt gs) + int (as_suspensions s'))
    = as_remaining s - of_int (tasks_sum task_debt s + frame_debt f + int (as_suspensions s))"
proof (cases f)
  case (Sf_enqueue t w)
  then show ?thesis using assms
    by (auto simp: enqueue_start_def tasks_sum_worker_same tasks_sum_worker tasks_sum_global split: if_splits option.splits dest: dequeue_local_fields)
next
  case (Sf_local t w)
  then show ?thesis using assms
    by (auto simp: enqueue_local_def tasks_sum_worker_same tasks_sum_worker tasks_sum_global split: if_splits option.splits dest: dequeue_local_fields)
next
  case (Sf_displace t w)
  show ?thesis
  proof (cases "dequeue_local c w s")
    case None
    then show ?thesis using assms Sf_displace by (auto simp: enqueue_displace_def split: if_splits)
  next
    case (Some r)
    then show ?thesis using assms Sf_displace dequeue_local_fields [of c w s "fst r" "snd r"]
      dequeue_local_sum [of c w s "fst r" "snd r" task_debt] by (cases r) (auto simp: enqueue_displace_def split: if_splits)
  qed
next
  case (Sf_put t)
  then show ?thesis using assms
    by (auto simp: enqueue_global_def tasks_sum_worker_same tasks_sum_worker tasks_sum_global split: if_splits option.splits dest: dequeue_local_fields)
next
  case Sf_count
  then show ?thesis using assms
    by (auto simp: tasks_sum_worker_same tasks_sum_worker tasks_sum_global split: if_splits option.splits dest: dequeue_local_fields)
next
  case (Sf_wake w)
  then show ?thesis using assms
    by (auto simp: wake_worker_def tasks_sum_worker_same tasks_sum_worker tasks_sum_global split: if_splits option.splits dest: dequeue_local_fields)
next
  case (Sf_wake_any w)
  then show ?thesis using assms
    by (auto simp: wake_any_worker_def wake_worker_def tasks_sum_worker_same tasks_sum_worker tasks_sum_global split: if_splits option.splits dest: dequeue_local_fields)
next
  case (Sf_process t)
  then show ?thesis using process_debt [of t s gs s' task_debt] assms(1) by simp
next
  case (Sf_call k)
  have "(\<Sum>x\<leftarrow>call_frames body k. frame_debt x) = 0" by (simp add: call_frames_def comp_def case_prod_beta)
  then show ?thesis using assms(1) Sf_call by simp
next
  case (Sf_resume k)
  then show ?thesis using assms
    by (auto simp: node_resume_def tasks_sum_worker_same tasks_sum_worker tasks_sum_global split: if_splits option.splits coro.splits nat.splits dest: dequeue_local_fields)
next
  case (Sf_running k)
  then show ?thesis using assms
    by (auto simp: node_returns_def tasks_sum_worker_same tasks_sum_worker tasks_sum_global split: if_splits option.splits coro.splits nat.splits dest: dequeue_local_fields)
next
  case (Sf_finished k)
  then show ?thesis using assms
    by (auto simp: node_finished_def tasks_sum_worker_same tasks_sum_worker tasks_sum_global split: if_splits option.splits dest: dequeue_local_fields)
next
  case (Sf_successors ds)
  then show ?thesis using assms(1) by (cases ds) (auto split: if_splits)
next
  case Sf_finish
  then show ?thesis using assms
    by (auto simp: tasks_sum_worker_same tasks_sum_worker tasks_sum_global split: if_splits option.splits dest: dequeue_local_fields)
next
  case Sf_loop
  then show ?thesis using assms
    by (auto simp: loop_top_def tasks_sum_worker_same tasks_sum_worker tasks_sum_global split: if_splits option.splits dest: dequeue_local_fields)
next
  case Sf_paused
  then show ?thesis using assms
    by (auto simp: loop_paused_def tasks_sum_worker_same tasks_sum_worker tasks_sum_global split: if_splits option.splits dest: dequeue_local_fields)
next
  case Sf_try_local
  show ?thesis
  proof (cases "dequeue_local c i s")
    case None
    then show ?thesis using assms Sf_try_local by (auto simp: loop_local_def split: if_splits)
  next
    case (Some r)
    then show ?thesis using assms Sf_try_local dequeue_local_fields [of c i s "fst r" "snd r"]
      dequeue_local_sum [of c i s "fst r" "snd r" task_debt] by (cases r) (auto simp: loop_local_def split: if_splits)
  qed
next
  case Sf_try_global
  show ?thesis
  proof (cases "dequeue c (as_global s)")
    case None
    then show ?thesis using assms Sf_try_global by (auto simp: loop_global_def)
  next
    case (Some r)
    then show ?thesis using assms Sf_try_global dequeue_sum [of c "as_global s" "fst r" "snd r" task_debt]
      by (cases r) (auto simp: loop_global_def tasks_sum_global)
  qed
next
  case Sf_steal
  then show ?thesis using assms
    by (auto simp: steal_start_def tasks_sum_worker_same tasks_sum_worker tasks_sum_global split: if_splits option.splits dest: dequeue_local_fields)
next
  case (Sf_victim b e)
  have v: "(b + e) mod length (as_workers s) < length (as_workers s)" using assms(2) Sf_victim by (intro mod_less_divisor) auto
  show ?thesis
  proof (cases "dequeue_local c ((b + e) mod length (as_workers s)) s")
    case None
    then show ?thesis using assms Sf_victim by (auto simp: steal_from_def Let_def split: if_splits)
  next
    case (Some r)
    then show ?thesis using assms Sf_victim v dequeue_local_fields [of c "(b + e) mod length (as_workers s)" s "fst r" "snd r"]
      dequeue_local_sum [of c "(b + e) mod length (as_workers s)" s "fst r" "snd r" task_debt] by (cases r) (auto simp: steal_from_def Let_def split: if_splits)
  qed
next
  case Sf_sleep
  then show ?thesis using assms
    by (auto simp: loop_sleep_def tasks_sum_worker_same tasks_sum_worker tasks_sum_global split: if_splits option.splits dest: dequeue_local_fields)
next
  case Sf_asleep
  then show ?thesis using assms
    by (auto simp: loop_asleep_def tasks_sum_worker_same tasks_sum_worker tasks_sum_global split: if_splits option.splits dest: dequeue_local_fields)
next
  case (Sf_schedule k)
  then show ?thesis using assms
    by (auto simp: schedule_node_def tasks_sum_worker_same tasks_sum_worker tasks_sum_global split: if_splits option.splits dest: dequeue_local_fields)
next
  case (Sf_planned k)
  have "(\<Sum>x\<leftarrow>map (\<lambda>p. Sf_schedule (Some p)) (nd_preds (as_nodes s ! k)). frame_debt x) = 0" by (simp add: comp_def)
  then show ?thesis using assms(1) Sf_planned by (auto simp: schedule_planned_def split: if_splits)
next
  case (Sf_reset k e)
  then show ?thesis using assms
    by (auto simp: submit_reset_def tasks_sum_worker_same tasks_sum_worker tasks_sum_global split: if_splits option.splits dest: dequeue_local_fields)
next
  case (Sf_submit k e)
  then show ?thesis using assms
    by (auto simp: submit_loop_def tasks_sum_worker_same tasks_sum_worker tasks_sum_global split: if_splits option.splits dest: dequeue_local_fields)
next
  case Sf_wait
  then show ?thesis using assms
    by (auto simp: wait_loop_def tasks_sum_worker_same tasks_sum_worker tasks_sum_global split: if_splits option.splits dest: dequeue_local_fields)
next
  case Sf_pause
  then show ?thesis using assms
    by (auto simp: pause_sched_def tasks_sum_worker_same tasks_sum_worker tasks_sum_global split: if_splits option.splits dest: dequeue_local_fields)
next
  case Sf_unpause
  then show ?thesis using assms
    by (auto simp: resume_sched_def tasks_sum_worker_same tasks_sum_worker tasks_sum_global split: if_splits option.splits dest: dequeue_local_fields)
next
  case Sf_shutdown
  then show ?thesis using assms
    by (auto simp: shutdown_def tasks_sum_worker_same tasks_sum_worker tasks_sum_global split: if_splits option.splits dest: dequeue_local_fields)
next
  case (Sf_stop k)
  then show ?thesis using assms
    by (auto simp: stop_workers_def tasks_sum_worker_same tasks_sum_worker tasks_sum_global split: if_splits option.splits dest: dequeue_local_fields)
next
  case (Sf_rouse k)
  then show ?thesis using assms
    by (auto simp: rouse_workers_def tasks_sum_worker_same tasks_sum_worker tasks_sum_global split: if_splits option.splits dest: dequeue_local_fields)
next
  case (Sf_join k)
  then show ?thesis using assms
    by (auto simp: join_workers_def tasks_sum_worker_same tasks_sum_worker tasks_sum_global split: if_splits option.splits dest: dequeue_local_fields)
qed

lemma thread_move_balance:
  assumes "thread_move body i c s = Some (Some s')" and "frames_ok s"
  shows "as_remaining s' - of_int (job_balance s') = as_remaining s - of_int (job_balance s)"
proof -
  obtain f fs gs s1 where m: "i < length (as_threads s)" "as_threads s ! i = f # fs"
      "act body i c f s = Next gs s1" "s' = set_thread i (gs @ fs) s1"
    using assms(1) by (rule thread_moveE)
  have ok: "frame_ok (length (as_workers s)) (length (as_nodes s)) i f" and w: "wired (as_nodes s)"
    using assms(2) m(1,2) by (auto simp: frames_ok_def dest!: spec [of _ i])
  have "as_threads s1 = as_threads s" using act_frames [OF m(3) ok w] by blast
  then have "frames_sum frame_debt s' = frames_sum frame_debt s - frame_debt f + sum_list (map frame_debt gs)"
    using frames_sum_move [OF m(1,2)] m(4) by blast
  moreover define x where "x = tasks_sum task_debt s1 + sum_list (map frame_debt gs) + int (as_suspensions s1)"
  moreover define y where "y = tasks_sum task_debt s + frame_debt f + int (as_suspensions s)"
  ultimately have "job_balance s' = job_balance s + (x - y)" using m(4) by (simp add: job_balance_def)
  moreover have "as_remaining s' - of_int x = as_remaining s - of_int y"
    using act_debt [OF m(3) ok] m(4) by (simp only: x_def y_def set_thread_fields)
  then have "as_remaining s' = as_remaining s + of_int (x - y)" by (simp add: diff_eq_eq)
  ultimately show ?thesis by (simp only: of_int_add) simp
qed

lemma reaches_frames:
  assumes "sched_reaches body s0 r" and "frames_ok s0"
  shows "case r of None \<Rightarrow> True | Some s \<Rightarrow> frames_ok s \<and> length (as_workers s) = length (as_workers s0)
    \<and> same_wiring (as_nodes s) (as_nodes s0)
    \<and> as_remaining s - of_int (job_balance s) = as_remaining s0 - of_int (job_balance s0)"
  using assms(1)
proof (induction rule: sched_reaches.induct)
  case start
  then show ?case using assms(2) by simp
next
  case (move s i c r)
  then show ?case
    using thread_move_frames [of body i c s] thread_move_balance [of body i c s] same_wiring_trans
    by (cases r) auto
qed

section \<open>Dependencies\<close>

text \<open>
  The edges into \<open>k\<close> that finished nodes have still to release, and those of nodes that have not
  finished.
\<close>

fun pending :: "node list \<Rightarrow> nat \<Rightarrow> sframe \<Rightarrow> int" where
  "pending ns k (Sf_finished p) = int (count_list (nd_succs (ns ! p)) k)"
| "pending ns k (Sf_successors ds) = int (count_list ds k)"
| "pending ns k f = 0"

definition unfinished :: "node list \<Rightarrow> nat \<Rightarrow> int" where
  "unfinished ns k = sum_list (map (\<lambda>n. if nd_task n = Some Finished then 0 else int (count_list (nd_succs n) k)) ns)"

definition deps_counted :: "sched \<Rightarrow> bool" where
  "deps_counted s \<longleftrightarrow> (\<forall>k < length (as_nodes s).
     nd_numDeps (as_nodes s ! k) = unfinished (as_nodes s) k + frames_sum (pending (as_nodes s) k) s)"

text \<open>Frames that run or finish a node; no other frame changes tasks or dependencies.\<close>

fun node_frame :: "sframe \<Rightarrow> bool" where
  "node_frame (Sf_resume k) = True"
| "node_frame (Sf_running k) = True"
| "node_frame (Sf_finished k) = True"
| "node_frame (Sf_successors ds) = True"
| "node_frame f = False"

fun releasing :: "sframe \<Rightarrow> bool" where
  "releasing (Sf_running k) = True"
| "releasing (Sf_finished k) = True"
| "releasing (Sf_successors ds) = True"
| "releasing f = False"

definition same_tasks :: "node list \<Rightarrow> node list \<Rightarrow> bool" where
  "same_tasks ns ms \<longleftrightarrow> length ns = length ms
     \<and> (\<forall>k < length ns. nd_task (ns ! k) = nd_task (ms ! k) \<and> nd_numDeps (ns ! k) = nd_numDeps (ms ! k)
       \<and> nd_succs (ns ! k) = nd_succs (ms ! k) \<and> nd_preds (ns ! k) = nd_preds (ms ! k))"

lemma same_tasks_refl [simp]: "same_tasks ns ns"
  by (simp add: same_tasks_def)

lemma same_tasks_state: "same_tasks (as_nodes (set_node k (\<lambda>v. v\<lparr>nd_state := x\<rparr>) s)) (as_nodes s)"
  by (cases "k < length (as_nodes s)") (auto simp: same_tasks_def set_node_def nth_list_update)

lemma process_quiet:
  assumes "process t s = Next gs s'"
  shows "list_all (\<lambda>g. \<not> releasing g) gs \<and> same_tasks (as_nodes s') (as_nodes s)"
proof (cases t)
  case (Task_node k)
  then show ?thesis using assms by (cases k) (auto simp: process_def same_tasks_state split: if_splits)
qed (use assms in \<open>auto simp: process_def split: option.splits\<close>)

lemma act_quiet:
  assumes "act body i c f s = Next gs s'" and "\<not> node_frame f"
  shows "list_all (\<lambda>g. \<not> releasing g) gs \<and> same_tasks (as_nodes s') (as_nodes s)"
proof (cases f)
  case (Sf_enqueue t w)
  then show ?thesis using assms
    by (auto simp: enqueue_start_def same_tasks_state split: if_splits option.splits dest: dequeue_local_fields)
next
  case (Sf_local t w)
  then show ?thesis using assms
    by (auto simp: enqueue_local_def same_tasks_state split: if_splits option.splits dest: dequeue_local_fields)
next
  case (Sf_displace t w)
  then show ?thesis using assms
    by (auto simp: enqueue_displace_def same_tasks_state split: if_splits option.splits dest: dequeue_local_fields)
next
  case (Sf_put t)
  then show ?thesis using assms
    by (auto simp: enqueue_global_def same_tasks_state split: if_splits option.splits dest: dequeue_local_fields)
next
  case Sf_count
  then show ?thesis using assms
    by (auto simp: same_tasks_state split: if_splits option.splits dest: dequeue_local_fields)
next
  case (Sf_wake w)
  then show ?thesis using assms
    by (auto simp: wake_worker_def same_tasks_state split: if_splits option.splits dest: dequeue_local_fields)
next
  case (Sf_wake_any w)
  then show ?thesis using assms
    by (auto simp: wake_any_worker_def wake_worker_def same_tasks_state split: if_splits option.splits dest: dequeue_local_fields)
next
  case (Sf_process t)
  then show ?thesis using process_quiet assms(1) by simp
next
  case (Sf_call k)
  then show ?thesis using assms by (auto simp: call_frames_def list_all_iff)
next
  case (Sf_resume k)
  then show ?thesis using assms(2) by simp
next
  case (Sf_running k)
  then show ?thesis using assms(2) by simp
next
  case (Sf_finished k)
  then show ?thesis using assms(2) by simp
next
  case (Sf_successors ds)
  then show ?thesis using assms(2) by simp
next
  case Sf_finish
  then show ?thesis using assms
    by (auto simp: same_tasks_state split: if_splits option.splits dest: dequeue_local_fields)
next
  case Sf_loop
  then show ?thesis using assms
    by (auto simp: loop_top_def same_tasks_state split: if_splits option.splits dest: dequeue_local_fields)
next
  case Sf_paused
  then show ?thesis using assms
    by (auto simp: loop_paused_def same_tasks_state split: if_splits option.splits dest: dequeue_local_fields)
next
  case Sf_try_local
  then show ?thesis using assms
    by (auto simp: loop_local_def same_tasks_state split: if_splits option.splits dest: dequeue_local_fields)
next
  case Sf_try_global
  then show ?thesis using assms
    by (auto simp: loop_global_def same_tasks_state split: if_splits option.splits dest: dequeue_local_fields)
next
  case Sf_steal
  then show ?thesis using assms
    by (auto simp: steal_start_def same_tasks_state split: if_splits option.splits dest: dequeue_local_fields)
next
  case (Sf_victim b e)
  then show ?thesis using assms
    by (auto simp: steal_from_def Let_def same_tasks_state split: if_splits option.splits dest: dequeue_local_fields)
next
  case Sf_sleep
  then show ?thesis using assms
    by (auto simp: loop_sleep_def same_tasks_state split: if_splits option.splits dest: dequeue_local_fields)
next
  case Sf_asleep
  then show ?thesis using assms
    by (auto simp: loop_asleep_def same_tasks_state split: if_splits option.splits dest: dequeue_local_fields)
next
  case (Sf_schedule k)
  then show ?thesis using assms
    by (auto simp: schedule_node_def same_tasks_state split: if_splits option.splits dest: dequeue_local_fields)
next
  case (Sf_planned k)
  then show ?thesis using assms by (auto simp: schedule_planned_def list_all_iff split: if_splits)
next
  case (Sf_reset k e)
  then show ?thesis using assms
    by (auto simp: submit_reset_def same_tasks_state split: if_splits option.splits dest: dequeue_local_fields)
next
  case (Sf_submit k e)
  then show ?thesis using assms
    by (auto simp: submit_loop_def same_tasks_state split: if_splits option.splits dest: dequeue_local_fields)
next
  case Sf_wait
  then show ?thesis using assms
    by (auto simp: wait_loop_def same_tasks_state split: if_splits option.splits dest: dequeue_local_fields)
next
  case Sf_pause
  then show ?thesis using assms
    by (auto simp: pause_sched_def same_tasks_state split: if_splits option.splits dest: dequeue_local_fields)
next
  case Sf_unpause
  then show ?thesis using assms
    by (auto simp: resume_sched_def same_tasks_state split: if_splits option.splits dest: dequeue_local_fields)
next
  case Sf_shutdown
  then show ?thesis using assms
    by (auto simp: shutdown_def same_tasks_state split: if_splits option.splits dest: dequeue_local_fields)
next
  case (Sf_stop k)
  then show ?thesis using assms
    by (auto simp: stop_workers_def same_tasks_state split: if_splits option.splits dest: dequeue_local_fields)
next
  case (Sf_rouse k)
  then show ?thesis using assms
    by (auto simp: rouse_workers_def same_tasks_state split: if_splits option.splits dest: dequeue_local_fields)
next
  case (Sf_join k)
  then show ?thesis using assms
    by (auto simp: join_workers_def same_tasks_state split: if_splits option.splits dest: dequeue_local_fields)
qed

end
