(* ===== verification/Task_Graph_Inv.thy ===== *)
theory Task_Graph_Inv
  imports Task_Scheduler_Inv
begin

text \<open>
  Invariants of the nodes of a graph under every interleaving: a node that may run has no dependency
  left, so everything before it has finished.
\<close>

text \<open>
  A token of node \<open>k\<close>: a queued task or a frame that will run it. \<open>token_gain\<close> is what a move adds: a
  node that is found or becomes without dependencies gets one, a node that finishes gives it up.
\<close>

fun task_token :: "nat \<Rightarrow> task \<Rightarrow> int" where
  "task_token k (Task_node (Some j)) = (if j = k then 1 else 0)"
| "task_token k t = 0"

fun token :: "nat \<Rightarrow> sframe \<Rightarrow> int" where
  "token k (Sf_enqueue t w) = task_token k t"
| "token k (Sf_local t w) = task_token k t"
| "token k (Sf_displace t w) = task_token k t"
| "token k (Sf_put t) = task_token k t"
| "token k (Sf_process t) = task_token k t"
| "token k (Sf_resume j) = (if j = k then 1 else 0)"
| "token k (Sf_running j) = (if j = k then 1 else 0)"
| "token k f = 0"

definition tokens :: "nat \<Rightarrow> sched \<Rightarrow> int" where
  "tokens k s = tasks_sum (task_token k) s + frames_sum (token k) s"

fun token_gain :: "nat \<Rightarrow> sframe \<Rightarrow> sched \<Rightarrow> int" where
  "token_gain k (Sf_planned j) s = (if j = k \<and> nd_numDeps (as_nodes s ! k) = 0 then 1 else 0)"
| "token_gain k (Sf_successors (d # ds)) s = (if d = k \<and> nd_numDeps (as_nodes s ! k) = 1 then 1 else 0)"
| "token_gain k (Sf_running j) s = (if j = k \<and> nd_task (as_nodes s ! k) = Some (Active 0) then - 1 else 0)"
| "token_gain k (Sf_process (Task_node (Some j))) s = (if j = k \<and> nd_task (as_nodes s ! k) = None then - 1 else 0)"
| "token_gain k f s = 0"

lemma process_tokens:
  assumes "process t s = Next gs s'"
  shows "tasks_sum g s' = tasks_sum g s
    \<and> sum_list (map (token k) gs) = task_token k t + token_gain k (Sf_process t) s"
proof (cases t)
  case (Task_node j)
  then show ?thesis using assms by (cases j) (auto simp: process_def split: if_splits)
qed (use assms in \<open>auto simp: process_def split: option.splits\<close>)

lemma act_tokens:
  assumes "act body i c f s = Next gs s'" and "frame_ok (length (as_workers s)) (length (as_nodes s)) i f"
  shows "tasks_sum (task_token k) s' + sum_list (map (token k) gs)
    = tasks_sum (task_token k) s + token k f + token_gain k f s"
proof (cases f)
  case (Sf_enqueue t w)
  then show ?thesis using assms
    by (auto simp: enqueue_start_def tasks_sum_worker_same tasks_sum_worker tasks_sum_global split: if_splits option.splits)
next
  case (Sf_local t w)
  then show ?thesis using assms
    by (auto simp: enqueue_local_def tasks_sum_worker_same tasks_sum_worker tasks_sum_global split: if_splits option.splits)
next
  case (Sf_displace t w)
  show ?thesis
  proof (cases "dequeue_local c (w) s")
    case None
    then show ?thesis using assms Sf_displace by (auto simp: enqueue_displace_def split: if_splits)
  next
    case (Some r)
    then show ?thesis using assms Sf_displace dequeue_local_sum [of c "w" s "fst r" "snd r" "task_token k"]
      by (cases r) (auto simp: enqueue_displace_def split: if_splits)
  qed
next
  case (Sf_put t)
  then show ?thesis using assms
    by (auto simp: enqueue_global_def tasks_sum_worker_same tasks_sum_worker tasks_sum_global split: if_splits option.splits)
next
  case Sf_count
  then show ?thesis using assms
    by (auto simp: tasks_sum_worker_same tasks_sum_worker tasks_sum_global split: if_splits option.splits)
next
  case (Sf_wake j)
  then show ?thesis using assms
    by (auto simp: wake_worker_def tasks_sum_worker_same tasks_sum_worker tasks_sum_global split: if_splits option.splits)
next
  case (Sf_wake_any j)
  then show ?thesis using assms
    by (auto simp: wake_any_worker_def wake_worker_def tasks_sum_worker_same tasks_sum_worker tasks_sum_global split: if_splits option.splits)
next
  case (Sf_process t)
  then show ?thesis using process_tokens [of t s gs s' "task_token k" k] assms(1) by simp
next
  case (Sf_call j)
  have "(\<Sum>x\<leftarrow>call_frames body j. token k x) = 0" by (simp add: call_frames_def comp_def case_prod_beta)
  then show ?thesis using assms(1) Sf_call by simp
next
  case (Sf_resume j)
  then show ?thesis using assms
    by (auto simp: node_resume_def tasks_sum_worker_same tasks_sum_worker tasks_sum_global split: if_splits option.splits coro.splits nat.splits)
next
  case (Sf_running j)
  then show ?thesis using assms
    by (auto simp: node_returns_def tasks_sum_worker_same tasks_sum_worker tasks_sum_global split: if_splits option.splits coro.splits nat.splits)
next
  case (Sf_finished j)
  then show ?thesis using assms
    by (auto simp: node_finished_def tasks_sum_worker_same tasks_sum_worker tasks_sum_global split: if_splits option.splits)
next
  case (Sf_successors ds)
  then show ?thesis using assms(1) by (cases ds) (auto split: if_splits)
next
  case Sf_finish
  then show ?thesis using assms
    by (auto simp: tasks_sum_worker_same tasks_sum_worker tasks_sum_global split: if_splits option.splits)
next
  case Sf_loop
  then show ?thesis using assms
    by (auto simp: loop_top_def tasks_sum_worker_same tasks_sum_worker tasks_sum_global split: if_splits option.splits)
next
  case Sf_paused
  then show ?thesis using assms
    by (auto simp: loop_paused_def tasks_sum_worker_same tasks_sum_worker tasks_sum_global split: if_splits option.splits)
next
  case Sf_try_local
  show ?thesis
  proof (cases "dequeue_local c (i) s")
    case None
    then show ?thesis using assms Sf_try_local by (auto simp: loop_local_def split: if_splits)
  next
    case (Some r)
    then show ?thesis using assms Sf_try_local dequeue_local_sum [of c "i" s "fst r" "snd r" "task_token k"]
      by (cases r) (auto simp: loop_local_def split: if_splits)
  qed
next
  case Sf_try_global
  show ?thesis
  proof (cases "dequeue c (as_global s)")
    case None
    then show ?thesis using assms Sf_try_global by (auto simp: loop_global_def)
  next
    case (Some r)
    then show ?thesis using assms Sf_try_global dequeue_sum [of c "as_global s" "fst r" "snd r" "task_token k"]
      by (cases r) (auto simp: loop_global_def tasks_sum_global)
  qed
next
  case Sf_steal
  then show ?thesis using assms
    by (auto simp: steal_start_def tasks_sum_worker_same tasks_sum_worker tasks_sum_global split: if_splits option.splits)
next
  case (Sf_victim b e)
  have v: "(b + e) mod length (as_workers s) < length (as_workers s)" using assms(2) Sf_victim by (intro mod_less_divisor) auto
  show ?thesis
  proof (cases "dequeue_local c ((b + e) mod length (as_workers s)) s")
    case None
    then show ?thesis using assms Sf_victim by (auto simp: steal_from_def Let_def split: if_splits)
  next
    case (Some r)
    then show ?thesis using assms Sf_victim v dequeue_local_sum [of c "(b + e) mod length (as_workers s)" s "fst r" "snd r" "task_token k"]
      by (cases r) (auto simp: steal_from_def Let_def split: if_splits)
  qed
next
  case Sf_sleep
  then show ?thesis using assms
    by (auto simp: loop_sleep_def tasks_sum_worker_same tasks_sum_worker tasks_sum_global split: if_splits option.splits)
next
  case Sf_asleep
  then show ?thesis using assms
    by (auto simp: loop_asleep_def tasks_sum_worker_same tasks_sum_worker tasks_sum_global split: if_splits option.splits)
next
  case (Sf_schedule j)
  then show ?thesis using assms
    by (auto simp: schedule_node_def tasks_sum_worker_same tasks_sum_worker tasks_sum_global split: if_splits option.splits)
next
  case (Sf_planned j)
  have "(\<Sum>x\<leftarrow>map (\<lambda>p. Sf_schedule (Some p)) (nd_preds (as_nodes s ! j)). token k x) = 0" by (simp add: comp_def)
  then show ?thesis using assms(1) Sf_planned by (auto simp: schedule_planned_def split: if_splits)
next
  case (Sf_reset j e)
  then show ?thesis using assms
    by (auto simp: submit_reset_def tasks_sum_worker_same tasks_sum_worker tasks_sum_global split: if_splits option.splits)
next
  case (Sf_submit j e)
  then show ?thesis using assms
    by (auto simp: submit_loop_def tasks_sum_worker_same tasks_sum_worker tasks_sum_global split: if_splits option.splits)
next
  case Sf_wait
  then show ?thesis using assms
    by (auto simp: wait_loop_def tasks_sum_worker_same tasks_sum_worker tasks_sum_global split: if_splits option.splits)
next
  case Sf_pause
  then show ?thesis using assms
    by (auto simp: pause_sched_def tasks_sum_worker_same tasks_sum_worker tasks_sum_global split: if_splits option.splits)
next
  case Sf_unpause
  then show ?thesis using assms
    by (auto simp: resume_sched_def tasks_sum_worker_same tasks_sum_worker tasks_sum_global split: if_splits option.splits)
next
  case Sf_shutdown
  then show ?thesis using assms
    by (auto simp: shutdown_def tasks_sum_worker_same tasks_sum_worker tasks_sum_global split: if_splits option.splits)
next
  case (Sf_stop j)
  then show ?thesis using assms
    by (auto simp: stop_workers_def tasks_sum_worker_same tasks_sum_worker tasks_sum_global split: if_splits option.splits)
next
  case (Sf_rouse j)
  then show ?thesis using assms
    by (auto simp: rouse_workers_def tasks_sum_worker_same tasks_sum_worker tasks_sum_global split: if_splits option.splits)
next
  case (Sf_join j)
  then show ?thesis using assms
    by (auto simp: join_workers_def tasks_sum_worker_same tasks_sum_worker tasks_sum_global split: if_splits option.splits)
qed

lemma thread_move_tokens:
  assumes "i < length (as_threads s)" and "as_threads s ! i = f # fs" and "act body i c f s = Next gs s1"
    and "frames_ok s"
  shows "tokens k (set_thread i (gs @ fs) s1) = tokens k s + token_gain k f s"
proof -
  have ok: "frame_ok (length (as_workers s)) (length (as_nodes s)) i f" and w: "wired (as_nodes s)"
    using assms(1,2,4) by (auto simp: frames_ok_def dest!: spec [of _ i])
  have "as_threads s1 = as_threads s" using act_frames [OF assms(3) ok w] by blast
  then show ?thesis
    using act_tokens [OF assms(3) ok, of k] frames_sum_move [OF assms(1,2), of s1 "token k" gs] by (simp add: tokens_def)
qed

section \<open>Dependencies are counted\<close>

lemma nth_set_node: "j < length (as_nodes s) \<Longrightarrow> as_nodes (set_node j f s) ! k = (if k = j then f (as_nodes s ! j) else as_nodes s ! k)"
  by (simp add: set_node_def)

lemma unfinished_same: "same_tasks ns ms \<Longrightarrow> unfinished ns k = unfinished ms k"
  unfolding unfinished_def same_tasks_def by (intro arg_cong [where f = sum_list] nth_equalityI) auto

lemma unfinished_set:
  assumes "j < length (as_nodes s)" and "\<And>v. nd_succs (f v) = nd_succs v"
  shows "unfinished (as_nodes (set_node j f s)) k = unfinished (as_nodes s) k
    - (if nd_task (as_nodes s ! j) = Some Finished then 0 else int (count_list (nd_succs (as_nodes s ! j)) k))
    + (if nd_task (f (as_nodes s ! j)) = Some Finished then 0 else int (count_list (nd_succs (as_nodes s ! j)) k))"
  using assms by (simp add: unfinished_def set_node_def sum_list_update_int)

lemma unfinished_fields [simp]: "as_nodes (s\<lparr>as_suspensions := n\<rparr>) = as_nodes s"
  by simp

lemma pending_quiet: "list_all (\<lambda>g. \<not> releasing g) gs \<Longrightarrow> sum_list (map (pending ns k) gs) = 0"
proof (induction gs)
  case (Cons g gs)
  then show ?case by (cases g) auto
qed simp

lemma act_deps:
  assumes a: "act body i c f s = Next gs s'" and ok: "frame_ok n (length (as_nodes s)) i f" and k: "k < length (as_nodes s)"
  shows "nd_numDeps (as_nodes s' ! k) - unfinished (as_nodes s') k - sum_list (map (pending (as_nodes s) k) gs)
    = nd_numDeps (as_nodes s ! k) - unfinished (as_nodes s) k - pending (as_nodes s) k f"
proof (cases "node_frame f")
  case False
  note q = act_quiet [OF a False]
  have "pending (as_nodes s) k f = 0" using False by (cases f) auto
  then show ?thesis using q pending_quiet unfinished_same [of "as_nodes s'" "as_nodes s" k] k by (simp add: same_tasks_def)
next
  case True
  then show ?thesis
  proof (cases f)
    case (Sf_resume j)
    then show ?thesis using a ok k
      by (auto simp: node_resume_def nth_set_node unfinished_set split: option.splits coro.splits)
  next
    case (Sf_running j)
    then show ?thesis using a ok k
      by (auto simp: node_returns_def nth_set_node unfinished_set split: option.splits coro.splits nat.splits)
  next
    case (Sf_finished j)
    then show ?thesis using a ok k by (auto simp: node_finished_def nth_set_node unfinished_set)
  next
    case (Sf_successors ds)
    then show ?thesis using a ok k by (cases ds) (auto simp: nth_set_node unfinished_set split: if_splits)
  qed auto
qed

lemma pending_wiring:
  "same_wiring ns ms \<Longrightarrow> frame_ok n (length ms) i f \<Longrightarrow> pending ns k f = pending ms k f"
  by (cases f) (auto simp: same_wiring_def)

lemma frames_sum_cong:
  assumes "\<And>i f. i < length (as_threads s) \<Longrightarrow> f \<in> set (as_threads s ! i) \<Longrightarrow> h f = h' f"
  shows "frames_sum h s = frames_sum h' s"
proof -
  have "map (\<lambda>fs. sum_list (map h fs)) (as_threads s) = map (\<lambda>fs. sum_list (map h' fs)) (as_threads s)"
  proof (intro map_cong refl)
    fix fs assume "fs \<in> set (as_threads s)"
    then obtain i where "i < length (as_threads s)" "as_threads s ! i = fs" by (auto simp: in_set_conv_nth)
    then have "map h fs = map h' fs" using assms by auto
    then show "sum_list (map h fs) = sum_list (map h' fs)" by (rule arg_cong)
  qed
  then show ?thesis unfolding frames_sum_def by (rule arg_cong)
qed

lemma thread_move_deps:
  assumes "thread_move body i c s = Some (Some s')" and fr: "frames_ok s" and "deps_counted s"
  shows "deps_counted s'"
proof -
  obtain f fs gs s1 where m: "i < length (as_threads s)" "as_threads s ! i = f # fs"
      "act body i c f s = Next gs s1" "s' = set_thread i (gs @ fs) s1"
    using assms(1) by (rule thread_moveE)
  have ok: "frame_ok (length (as_workers s)) (length (as_nodes s)) i f" and w: "wired (as_nodes s)"
    using fr m(1,2) by (auto simp: frames_ok_def dest!: spec [of _ i])
  note a = act_frames [OF m(3) ok w]
  have fr': "frames_ok s'" "same_wiring (as_nodes s') (as_nodes s)" using thread_move_frames [OF assms(1) fr] by auto
  have nodes: "as_nodes s' = as_nodes s1" "length (as_nodes s1) = length (as_nodes s)"
    using a m(4) by (auto simp: same_wiring_def)
  show ?thesis unfolding deps_counted_def
  proof (intro allI impI)
    fix k assume "k < length (as_nodes s')"
    then have k: "k < length (as_nodes s)" using nodes by simp
    have "frames_sum (pending (as_nodes s') k) s' = frames_sum (pending (as_nodes s) k) s'"
    proof (rule frames_sum_cong)
      fix j g assume "j < length (as_threads s')" "g \<in> set (as_threads s' ! j)"
      then have "frame_ok (length (as_workers s')) (length (as_nodes s)) j g"
        using fr' by (auto simp: frames_ok_def list_all_iff same_wiring_def)
      then show "pending (as_nodes s') k g = pending (as_nodes s) k g" using pending_wiring [OF fr'(2)] by blast
    qed
    also have "\<dots> = frames_sum (pending (as_nodes s) k) s - pending (as_nodes s) k f + sum_list (map (pending (as_nodes s) k) gs)"
      using frames_sum_move [OF m(1,2), of s1] a m(4) by simp
    finally show "nd_numDeps (as_nodes s' ! k) = unfinished (as_nodes s') k + frames_sum (pending (as_nodes s') k) s'"
      using act_deps [OF m(3) ok k] assms(3) k nodes(1) by (auto simp: deps_counted_def dest!: spec [of _ k])
  qed
qed

section \<open>Ready nodes\<close>

definition started :: "node \<Rightarrow> bool" where
  "started n \<longleftrightarrow> (case nd_task n of Some (Active r) \<Rightarrow> True | Some Finished \<Rightarrow> True | _ \<Rightarrow> False)"

text \<open>Only nodes without dependencies have tokens or have been started.\<close>

definition ready_only :: "sched \<Rightarrow> bool" where
  "ready_only s \<longleftrightarrow> (\<forall>k < length (as_nodes s).
     0 < tokens k s \<or> started (as_nodes s ! k) \<longrightarrow> nd_numDeps (as_nodes s ! k) = 0)"

lemma sum_nonneg_list: "(\<And>x. 0 \<le> h x) \<Longrightarrow> 0 \<le> sum_list (map h xs :: int list)"
  by (rule sum_list_nonneg) auto

lemma sum_member: "x \<in> set xs \<Longrightarrow> (\<And>x. 0 \<le> h x) \<Longrightarrow> h x \<le> sum_list (map h xs :: int list)"
  by (rule member_le_sum_list) auto

lemma frames_sum_nonneg: "(\<And>f. 0 \<le> h f) \<Longrightarrow> 0 \<le> frames_sum h s"
  unfolding frames_sum_def by (intro sum_nonneg_list)

lemma frames_sum_ge:
  assumes "\<And>f. 0 \<le> h f" and "i < length (as_threads s)" and "f \<in> set (as_threads s ! i)"
  shows "h f \<le> frames_sum h s"
proof -
  have "h f \<le> sum_list (map h (as_threads s ! i))" using assms(1,3) by (intro sum_member)
  also have "\<dots> \<le> frames_sum h s" unfolding frames_sum_def
    using assms(1,2) sum_nonneg_list [of h] sum_member [of "as_threads s ! i" "as_threads s" "\<lambda>fs. sum_list (map h fs)"]
    by simp
  finally show ?thesis .
qed

lemma tasks_sum_nonneg: "(\<And>t. 0 \<le> g t) \<Longrightarrow> 0 \<le> tasks_sum g s"
  unfolding tasks_sum_def by (intro add_nonneg_nonneg sum_nonneg_list)

lemma token_nonneg: "0 \<le> task_token k t" "0 \<le> token k f"
proof -
  show t: "0 \<le> task_token k t" for t by (cases "(k, t)" rule: task_token.cases) auto
  show "0 \<le> token k f" using t by (cases f) auto
qed

lemma tokens_nonneg: "0 \<le> tokens k s"
  unfolding tokens_def by (intro add_nonneg_nonneg frames_sum_nonneg tasks_sum_nonneg token_nonneg)

lemma pending_nonneg: "0 \<le> pending ns k f"
  by (cases f) auto

lemma unfinished_nonneg: "0 \<le> unfinished ns k"
  unfolding unfinished_def by (rule sum_nonneg_list) auto

text \<open>A node is only started where it has a token, and loses a dependency only where one is pending.\<close>

lemma act_started:
  assumes a: "act body i c f s = Next gs s'" and ok: "frame_ok n (length (as_nodes s)) i f" and k: "k < length (as_nodes s)"
    and st: "started (as_nodes s' ! k)"
  shows "started (as_nodes s ! k) \<or> f = Sf_resume k"
proof (cases "node_frame f")
  case False
  then show ?thesis using act_quiet [OF a False] k st by (auto simp: same_tasks_def started_def)
next
  case True
  then show ?thesis
  proof (cases f)
    case (Sf_successors ds)
    then show ?thesis using a ok k st by (cases ds) (auto simp: nth_set_node started_def split: if_splits)
  qed (use a ok k st in \<open>auto simp: node_resume_def node_returns_def node_finished_def nth_set_node started_def
      split: option.splits coro.splits nat.splits if_splits\<close>)
qed

lemma act_numDeps:
  assumes a: "act body i c f s = Next gs s'" and ok: "frame_ok n (length (as_nodes s)) i f" and k: "k < length (as_nodes s)"
  shows "nd_numDeps (as_nodes s' ! k) = nd_numDeps (as_nodes s ! k) - (if \<exists>ds. f = Sf_successors (k # ds) then 1 else 0)"
proof (cases "node_frame f")
  case False
  then show ?thesis using act_quiet [OF a False] k by (auto simp: same_tasks_def)
next
  case True
  then show ?thesis
  proof (cases f)
    case (Sf_successors ds)
    then show ?thesis using a ok k by (cases ds) (auto simp: nth_set_node split: if_splits)
  qed (use a ok k in \<open>auto simp: node_resume_def node_returns_def node_finished_def nth_set_node
      split: option.splits coro.splits nat.splits\<close>)
qed

lemma token_gain_cases:
  "0 < token_gain k f s \<Longrightarrow> f = Sf_planned k \<and> nd_numDeps (as_nodes s ! k) = 0
    \<or> (\<exists>ds. f = Sf_successors (k # ds)) \<and> nd_numDeps (as_nodes s ! k) = 1"
  by (cases "(k, f, s)" rule: token_gain.cases) (auto split: if_splits)

lemma deps_pending:
  assumes "deps_counted s" and "k < length (as_nodes s)" and "i < length (as_threads s)"
    and "Sf_successors (k # ds) \<in> set (as_threads s ! i)"
  shows "0 < nd_numDeps (as_nodes s ! k)"
proof -
  have "pending (as_nodes s) k (Sf_successors (k # ds)) \<le> frames_sum (pending (as_nodes s) k) s"
    using frames_sum_ge [OF pending_nonneg assms(3,4)] .
  then show ?thesis using assms(1,2) unfinished_nonneg [of "as_nodes s" k] by (auto simp: deps_counted_def)
qed

lemma tokens_member:
  assumes "i < length (as_threads s)" and "f \<in> set (as_threads s ! i)"
  shows "token k f \<le> tokens k s"
  using frames_sum_ge [of "token k", OF token_nonneg(2) assms] tasks_sum_nonneg [of "task_token k" s, OF token_nonneg(1)]
  by (simp add: tokens_def)

lemma thread_move_ready:
  assumes "thread_move body i c s = Some (Some s')" and fr: "frames_ok s" and dc: "deps_counted s" and rd: "ready_only s"
  shows "ready_only s'"
proof -
  obtain f fs gs s1 where m: "i < length (as_threads s)" "as_threads s ! i = f # fs"
      "act body i c f s = Next gs s1" "s' = set_thread i (gs @ fs) s1"
    using assms(1) by (rule thread_moveE)
  have ok: "frame_ok (length (as_workers s)) (length (as_nodes s)) i f" and w: "wired (as_nodes s)"
    using fr m(1,2) by (auto simp: frames_ok_def dest!: spec [of _ i])
  have len: "length (as_nodes s') = length (as_nodes s)"
    using act_frames [OF m(3) ok w] m(4) by (simp add: same_wiring_def)
  show ?thesis unfolding ready_only_def
  proof (intro allI impI)
    fix k assume "k < length (as_nodes s')" and h: "0 < tokens k s' \<or> started (as_nodes s' ! k)"
    then have k: "k < length (as_nodes s)" using len by simp
    note deps = act_numDeps [OF m(3) ok k]
    have old: "nd_numDeps (as_nodes s ! k) = 0" if "0 < tokens k s \<or> started (as_nodes s ! k)"
      using rd k that by (auto simp: ready_only_def)
    have no: "nd_numDeps (as_nodes s ! k) \<noteq> 0" if "f = Sf_successors (k # ds)" for ds
      using deps_pending [OF dc k m(1)] m(2) that by force
    have "0 < tokens k s \<or> started (as_nodes s ! k) \<or> 0 < token_gain k f s"
    proof (cases "0 < tokens k s'")
      case True
      then show ?thesis using thread_move_tokens [OF m(1-3) fr, of k] m(4) tokens_nonneg [of k s] by auto
    next
      case False
      then have "started (as_nodes s ! k) \<or> f = Sf_resume k" using h act_started [OF m(3) ok k] m(4) by simp
      then show ?thesis using tokens_member [OF m(1), of f k] m(2) by auto
    qed
    then show "nd_numDeps (as_nodes s' ! k) = 0"
      using deps old no token_gain_cases [of k f s] m(4) by auto
  qed
qed

lemma reaches_ready:
  assumes "sched_reaches body s0 r" and "frames_ok s0" and "deps_counted s0" and "ready_only s0"
  shows "case r of None \<Rightarrow> True | Some s \<Rightarrow> frames_ok s \<and> deps_counted s \<and> ready_only s"
  using assms(1)
proof (induction rule: sched_reaches.induct)
  case (move s i c r)
  then show ?case
    using thread_move_frames [of body i c s] thread_move_deps [of body i c s] thread_move_ready [of body i c s]
    by (cases r) auto
qed (use assms in simp)

text \<open>A node without dependencies comes after finished nodes only.\<close>

lemma no_deps_finished:
  assumes "frames_ok s" and "deps_counted s" and k: "k < length (as_nodes s)" and "nd_numDeps (as_nodes s ! k) = 0"
    and p: "p \<in> set (nd_preds (as_nodes s ! k))"
  shows "nd_task (as_nodes s ! p) = Some Finished"
proof (rule ccontr)
  assume n: "nd_task (as_nodes s ! p) \<noteq> Some Finished"
  have w: "wired (as_nodes s)" using assms(1) by (simp add: frames_ok_def)
  have pl: "p < length (as_nodes s)" using wired_bounds(2) [OF w k p] .
  have "0 < count_list (nd_preds (as_nodes s ! k)) p" using p count_list_0_iff [of "nd_preds (as_nodes s ! k)" p] by (metis gr0I)
  then have c: "0 < count_list (nd_succs (as_nodes s ! p)) k" using w k pl unfolding wired_def by metis
  let ?h = "\<lambda>n. if nd_task n = Some Finished then 0 else int (count_list (nd_succs n) k)"
  have "?h (as_nodes s ! p) \<le> unfinished (as_nodes s) k"
    unfolding unfinished_def using pl by (intro sum_member [of _ _ ?h]) auto
  then have "0 < unfinished (as_nodes s) k" using n c by simp
  moreover have "0 \<le> frames_sum (pending (as_nodes s) k) s" by (rule frames_sum_nonneg) (rule pending_nonneg)
  ultimately show False using assms(2,4) k by (auto simp: deps_counted_def)
qed

end
