(* ===== verification/Task_Graph_Props.thy ===== *)
theory Task_Graph_Props
  imports Task_Graph_Inv
begin

text \<open>
  What the scheduler and the task graph promise under every interleaving: the job counter is exact
  up to the suspensions of nodes, and nodes run after the nodes they depend on.
\<close>

section \<open>Building a graph\<close>

definition fresh_node :: "node \<Rightarrow> bool" where
  "fresh_node n \<longleftrightarrow> nd_state n = Nd_idle \<and> nd_numDeps n = int (length (nd_preds n)) \<and> \<not> started n"

definition fresh_graph :: "node list \<Rightarrow> bool" where
  "fresh_graph ns \<longleftrightarrow> wired ns \<and> list_all fresh_node ns"

lemma fresh_graph_Nil: "fresh_graph []"
  by (simp add: fresh_graph_def wired_def)

lemma fresh_graph_addNode:
  assumes "fresh_graph ns" and "task = None \<or> (\<exists>r. task = Some (Suspended r))"
  shows "fresh_graph (snd (graph_addNode task ns))"
proof -
  have "fresh_node (new_node task)" using assms(2) by (auto simp: fresh_node_def new_node_def started_def)
  moreover have w: "wired ns" using assms(1) by (simp add: fresh_graph_def)
  have "wired (ns @ [new_node task])"
  proof (rule wiredI)
    fix k p assume k: "k < length (ns @ [new_node task])" and p: "p < length (ns @ [new_node task])"
    have "length ns \<notin> set (nd_succs (ns ! j))" "length ns \<notin> set (nd_preds (ns ! j))" if "j < length ns" for j
      using wired_bounds [OF w that, of "length ns"] by auto
    then show "count_list (nd_succs ((ns @ [new_node task]) ! p)) k = count_list (nd_preds ((ns @ [new_node task]) ! k)) p"
      using k p wired_count [OF w, of k p]
      by (cases "k < length ns"; cases "p < length ns") (auto simp: nth_append new_node_def count_list_0_iff less_Suc_eq)
  next
    fix k d assume "k < length (ns @ [new_node task])" "d \<in> set (nd_succs ((ns @ [new_node task]) ! k))"
    then show "d < length (ns @ [new_node task])"
      using wired_bounds(1) [OF w, of k d] by (cases "k < length ns") (auto simp: nth_append new_node_def less_Suc_eq)
  next
    fix k d assume "k < length (ns @ [new_node task])" "d \<in> set (nd_preds ((ns @ [new_node task]) ! k))"
    then show "d < length (ns @ [new_node task])"
      using wired_bounds(2) [OF w, of k d] by (cases "k < length ns") (auto simp: nth_append new_node_def less_Suc_eq)
  qed
  ultimately show ?thesis using assms(1) by (simp add: graph_addNode_def fresh_graph_def)
qed

lemma node_to_nth:
  assumes "a < length ns" and "d < length ns" and "k < length ns"
  shows "nd_succs (node_to a d ns ! k) = (if k = a then d # nd_succs (ns ! k) else nd_succs (ns ! k))"
    and "nd_preds (node_to a d ns ! k) = (if k = d then a # nd_preds (ns ! k) else nd_preds (ns ! k))"
    and "nd_numDeps (node_to a d ns ! k) = (if k = d then nd_numDeps (ns ! k) + 1 else nd_numDeps (ns ! k))"
    and "nd_task (node_to a d ns ! k) = nd_task (ns ! k)" and "nd_state (node_to a d ns ! k) = nd_state (ns ! k)"
  using assms by (auto simp: node_to_def append_succ_def append_pred_def Let_def nth_list_update)

lemma fresh_graph_addEdge:
  assumes "fresh_graph ns" and "a < length ns" and "d < length ns"
  shows "fresh_graph (graph_addEdge (Some a) (Some d) ns)"
proof -
  have len: "length (node_to a d ns) = length ns" by (simp add: node_to_def Let_def)
  have w: "wired ns" using assms(1) by (simp add: fresh_graph_def)
  have "wired (node_to a d ns)"
  proof (rule wiredI)
    fix k p assume "k < length (node_to a d ns)" "p < length (node_to a d ns)"
    then show "count_list (nd_succs (node_to a d ns ! p)) k = count_list (nd_preds (node_to a d ns ! k)) p"
      using assms(2,3) wired_count [OF w, of k p] by (auto simp: len node_to_nth)
  next
    fix k e assume "k < length (node_to a d ns)" "e \<in> set (nd_succs (node_to a d ns ! k))"
    then show "e < length (node_to a d ns)"
      using assms(2,3) wired_bounds(1) [OF w, of k e] by (auto simp: len node_to_nth split: if_splits)
  next
    fix k e assume "k < length (node_to a d ns)" "e \<in> set (nd_preds (node_to a d ns ! k))"
    then show "e < length (node_to a d ns)"
      using assms(2,3) wired_bounds(2) [OF w, of k e] by (auto simp: len node_to_nth split: if_splits)
  qed
  moreover have "fresh_node (node_to a d ns ! k)" if "k < length ns" for k
    using assms that by (auto simp: fresh_graph_def list_all_length fresh_node_def started_def node_to_nth)
  ultimately show ?thesis by (simp add: graph_addEdge_def fresh_graph_def list_all_length len)
qed

section \<open>The start of a program\<close>

text \<open>The calls a thread that is no worker may make.\<close>

fun client_call :: "nat \<Rightarrow> sframe \<Rightarrow> bool" where
  "client_call m (Sf_enqueue (Task_fn f) w) = True"
| "client_call m (Sf_enqueue (Task_coro f) w) = True"
| "client_call m (Sf_schedule node) = pred_option (\<lambda>k. k < m) node"
| "client_call m (Sf_reset k e) = True"
| "client_call m (Sf_submit k e) = (e \<le> m)"
| "client_call m Sf_wait = True"
| "client_call m Sf_pause = True"
| "client_call m Sf_unpause = True"
| "client_call m Sf_shutdown = True"
| "client_call m f = False"

lemma client_call_facts:
  assumes "client_call m f"
  shows "frame_ok n m i f" and "token k f = 0" and "pending ns k f = 0" and "frame_debt f = 0"
  using assms by (cases "(m, f)" rule: client_call.cases; simp)+

lemma sum_count_list: "set xs \<subseteq> {0..<n} \<Longrightarrow> (\<Sum>p\<leftarrow>[0..<n]. int (count_list xs p)) = int (length xs)"
proof (induction xs)
  case (Cons x xs)
  have "(\<Sum>p\<leftarrow>[0..<n]. int (count_list (x # xs) p)) = (\<Sum>p\<leftarrow>[0..<n]. int (count_list xs p) + (if x = p then 1 else 0))"
    by (intro arg_cong [where f = sum_list] map_cong) auto
  also have "\<dots> = int (length xs) + (\<Sum>p\<leftarrow>[0..<n]. if x = p then 1 else 0)"
    using Cons by (simp add: sum_list_addf)
  also have "(\<Sum>p\<leftarrow>[0..<n]. if x = p then 1 else (0::int)) = 1"
    using Cons.prems by (simp add: interv_sum_list_conv_sum_set_nat sum.delta)
  finally show ?case by simp
qed (simp add: sum_list_0)

lemma unfinished_fresh:
  assumes "fresh_graph ns" and "k < length ns"
  shows "unfinished ns k = int (length (nd_preds (ns ! k)))"
proof -
  have w: "wired ns" and "\<And>p. p < length ns \<Longrightarrow> \<not> started (ns ! p)"
    using assms(1) by (auto simp: fresh_graph_def list_all_length fresh_node_def)
  then have f: "nd_task (ns ! p) \<noteq> Some Finished" if "p < length ns" for p
    using that by (force simp: started_def)
  have "map (\<lambda>n. if nd_task n = Some Finished then 0 else int (count_list (nd_succs n) k)) ns
      = map (\<lambda>p. int (count_list (nd_preds (ns ! k)) p)) [0..<length ns]"
    using f wired_count [OF w assms(2)] by (intro nth_equalityI) auto
  then have "unfinished ns k = (\<Sum>p\<leftarrow>[0..<length ns]. int (count_list (nd_preds (ns ! k)) p))"
    by (simp add: unfinished_def)
  moreover have "set (nd_preds (ns ! k)) \<subseteq> {0..<length ns}" using wired_bounds(2) [OF w assms(2)] by auto
  ultimately show ?thesis by (simp add: sum_count_list)
qed

lemma sum_list_zero: "(\<And>x. x \<in> set xs \<Longrightarrow> h x = 0) \<Longrightarrow> sum_list (map h xs) = (0::int)"
  by (induction xs) auto

lemma frames_sum_start:
  assumes "\<And>f. f \<in> set (concat cs) \<Longrightarrow> h f = 0" and "h Sf_loop = 0"
  shows "frames_sum h (new_sched n ns cs) = 0"
proof -
  have "sum_list (map h fs) = 0" if "fs \<in> set (replicate (worker_count n) [Sf_loop] @ cs)" for fs
    using that assms by (auto intro!: sum_list_zero)
  then show ?thesis unfolding frames_sum_def new_sched_def by (simp add: sum_list_zero del: map_append map_replicate set_append)
qed

definition client_program :: "nat \<Rightarrow> sframe list list \<Rightarrow> bool" where
  "client_program m cs \<longleftrightarrow> list_all (list_all (client_call m)) cs"

lemma start_sums:
  assumes "client_program (length ns) cs"
  shows "frames_sum frame_debt (new_sched n ns cs) = 0" and "frames_sum (token k) (new_sched n ns cs) = 0"
    and "frames_sum (pending ns k) (new_sched n ns cs) = 0"
  using assms client_call_facts [of "length ns"]
  by (auto intro!: frames_sum_start simp: client_program_def list_all_iff)

lemma start_tasks: "tasks_sum g (new_sched n ns cs) = 0"
  by (simp add: tasks_sum_def new_sched_def new_worker_def sum_list_replicate)

lemma fresh_frames_ok:
  assumes "fresh_graph ns" and "client_program (length ns) cs"
  shows "frames_ok (new_sched n ns cs)"
  using assms client_call_facts(1) [of "length ns"]
  by (fastforce simp: frames_ok_def new_sched_def fresh_graph_def client_program_def list_all_iff nth_append
      split: if_splits)

lemma start_invariants:
  assumes "fresh_graph ns" and "client_program (length ns) cs"
  shows "deps_counted (new_sched n ns cs)" and "ready_only (new_sched n ns cs)"
proof -
  have nodes: "as_nodes (new_sched n ns cs) = ns" by (simp add: new_sched_def)
  have f: "nd_numDeps (ns ! k) = int (length (nd_preds (ns ! k))) \<and> \<not> started (ns ! k)" if "k < length ns" for k
    using assms(1) that by (auto simp: fresh_graph_def list_all_length fresh_node_def)
  show "deps_counted (new_sched n ns cs)"
    using f unfinished_fresh [OF assms(1)] start_sums(3) [OF assms(2)] by (simp add: deps_counted_def nodes)
  show "ready_only (new_sched n ns cs)"
    using f start_sums(2) [OF assms(2)] by (simp add: ready_only_def nodes tokens_def start_tasks)
qed

section \<open>Runs of small graphs\<close>

definition run_gives :: "(nat \<times> choice) list \<Rightarrow> sched \<Rightarrow> (sched \<Rightarrow> bool) \<Rightarrow> bool" where
  "run_gives xs s P \<longleftrightarrow> (case sched_run (\<lambda>k. []) xs s of Some (Some s) \<Rightarrow> P s | _ \<Rightarrow> False)"

lemma run_gives_run: "run_gives xs s P \<Longrightarrow> \<exists>t. sched_run (\<lambda>k. []) xs s = Some (Some t) \<and> P t"
  by (auto simp: run_gives_def split: option.splits)

lemma run_gives_reaches: "run_gives xs s P \<Longrightarrow> \<exists>t. sched_reaches (\<lambda>k. []) s (Some t) \<and> P t"
  using run_gives_run run_reaches [OF sched_reaches.start] by blast

text \<open>A node that suspends once, and two nodes of which the second depends on the first.\<close>

definition one_node :: "node list" where
  "one_node = snd (graph_addNode (Some (Suspended 1)) [])"

definition two_nodes :: "node list" where
  "two_nodes = graph_addEdge (Some 0) (Some 1) (snd (graph_addFunction (snd (graph_addFunction []))))"

lemma small_graphs_fresh: "fresh_graph one_node" "fresh_graph two_nodes"
  unfolding one_node_def two_nodes_def graph_addFunction_def
  by (intro fresh_graph_addEdge fresh_graph_addNode fresh_graph_Nil; auto simp: graph_addNode_def kMaxNodes_def)+

section \<open>The job counter\<close>

text \<open>Frames of a call that has still to move a task or the counter.\<close>

fun working :: "sframe \<Rightarrow> bool" where
  "working (Sf_enqueue t w) = True"
| "working (Sf_local t w) = True"
| "working (Sf_displace t w) = True"
| "working (Sf_put t) = True"
| "working Sf_count = True"
| "working (Sf_process t) = True"
| "working (Sf_call k) = True"
| "working (Sf_resume k) = True"
| "working (Sf_running k) = True"
| "working (Sf_finished k) = True"
| "working (Sf_successors ds) = True"
| "working Sf_finish = True"
| "working f = False"

definition quiet :: "sched \<Rightarrow> bool" where
  "quiet s \<longleftrightarrow> as_global s = [] \<and> list_all (\<lambda>w. wk_queue w = []) (as_workers s)
     \<and> list_all (list_all (\<lambda>f. \<not> working f)) (as_threads s)"

lemma quiet_tasks: "quiet s \<Longrightarrow> tasks_sum g s = 0"
  by (auto simp: quiet_def tasks_sum_def list_all_iff intro!: sum_list_zero)

lemma quiet_frames:
  assumes "quiet s" and "\<And>f. \<not> working f \<Longrightarrow> h f = 0"
  shows "frames_sum h s = 0"
  unfolding frames_sum_def using assms by (auto simp: quiet_def list_all_iff intro!: sum_list_zero)

lemma word_of_nat_zero: "(of_nat n :: u64) = 0 \<longleftrightarrow> 2 ^ 64 dvd n"
  using word_of_nat_eq_0_iff [of n, where 'a = 64] by simp

lemma remaining_balance:
  assumes "fresh_graph ns" and "client_program (length ns) cs" and "sched_reaches body (new_sched n ns cs) (Some s)"
  shows "as_remaining s = of_int (job_balance s)"
proof -
  have "as_remaining (new_sched n ns cs) = 0" "job_balance (new_sched n ns cs) = 0"
    using start_sums(1) [OF assms(2)] by (simp_all add: job_balance_def start_tasks) (simp_all add: new_sched_def)
  then show ?thesis using reaches_frames [OF assms(3) fresh_frames_ok [OF assms(1,2)]] by simp
qed

lemma quiet_balance: "quiet s \<Longrightarrow> job_balance s = int (as_suspensions s)"
proof -
  assume q: "quiet s"
  have "frame_debt f = 0" if "\<not> working f" for f using that by (cases f) auto
  then show ?thesis by (simp add: job_balance_def quiet_tasks [OF q] quiet_frames [OF q])
qed

text \<open>
  C17: The counter of remaining jobs is exact up to one term: in every state the scheduler can reach,
  with any graph, any calls of other threads and any interleaving, it is (in 64 bits) the number of
  queued tasks, plus what the calls under way still have to take away, minus what they have still to
  add, plus the number of times a node of the graph has suspended. So when everything has been
  done, \<open>idle\<close> holds exactly if the suspensions are a multiple of \<open>2 ^ 64\<close>: once one
  node has suspended, \<open>wait\<close> does not return although no work is left, because a node that is enqueued
  again is counted twice.
\<close>

theorem jobs_counted:
  assumes "fresh_graph ns" and "client_program (length ns) cs" and "sched_reaches body (new_sched n ns cs) (Some s)"
  shows "as_remaining s = of_int (tasks_sum task_debt s + frames_sum frame_debt s + int (as_suspensions s))
    \<and> (if quiet s then idle s = (2 ^ 64 dvd as_suspensions s) else True)"
proof -
  have r: "as_remaining s = of_int (job_balance s)" using remaining_balance [OF assms] .
  then have "idle s = (2 ^ 64 dvd as_suspensions s)" if "quiet s"
    using quiet_balance [OF that] by (simp add: idle_def word_of_nat_zero)
  then show ?thesis using r by (simp add: job_balance_def)
qed

lemma one_node_run:
  "run_gives (replicate 11 (1, Takes 0) @ replicate 28 (0, Takes 0)) (new_sched 1 one_node [graph_submit 1])
     (\<lambda>s. quiet s \<and> graph_allDone (as_nodes s) \<and> as_suspensions s = 1)"
  by code_simp

text \<open>A run that has done everything, and on which \<open>wait\<close> does not return.\<close>

lemma jobs_counted_witness:
  "\<exists>s. sched_reaches (\<lambda>k. []) (new_sched 1 one_node [graph_submit 1]) (Some s)
     \<and> quiet s \<and> graph_allDone (as_nodes s) \<and> \<not> idle s"
proof -
  obtain s where s: "sched_reaches (\<lambda>k. []) (new_sched 1 one_node [graph_submit 1]) (Some s)"
      "quiet s" "graph_allDone (as_nodes s)" "as_suspensions s = 1"
    using run_gives_reaches [OF one_node_run] by blast
  have "client_program (length one_node) [graph_submit 1]"
    by (simp add: client_program_def graph_submit_def one_node_def graph_addNode_def kMaxNodes_def)
  then have "idle s = (2 ^ 64 dvd as_suspensions s)"
    using jobs_counted [OF small_graphs_fresh(1) _ s(1)] s(2) by simp
  then show ?thesis using s by auto
qed

section \<open>Order\<close>

text \<open>
  C16: Under every interleaving, with any number of workers and any calls of \<open>schedule\<close>, \<open>submit\<close>,
  \<open>wait\<close>, \<open>pause\<close> and \<open>shutdown\<close> by other threads, a node of a graph that runs or has finished comes after the nodes it
  depends on: all of them have finished.
\<close>

theorem nodes_in_order:
  assumes "fresh_graph ns" and "client_program (length ns) cs" and "sched_reaches body (new_sched n ns cs) (Some s)"
    and "k < length (as_nodes s)" and "started (as_nodes s ! k)" and "p \<in> set (nd_preds (as_nodes s ! k))"
  shows "nd_task (as_nodes s ! p) = Some Finished"
proof -
  have i: "frames_ok s" "deps_counted s" "ready_only s"
    using reaches_ready [OF assms(3) fresh_frames_ok [OF assms(1,2)] start_invariants [OF assms(1,2)]] by simp_all
  then have "nd_numDeps (as_nodes s ! k) = 0" using assms(4,5) by (auto simp: ready_only_def)
  then show ?thesis using no_deps_finished [OF i(1,2) assms(4) _ assms(6)] by blast
qed

lemma two_nodes_run:
  "run_gives (replicate 13 (1, Takes 0) @ replicate 22 (0, Takes 0)) (new_sched 1 two_nodes [graph_submit 2])
     (\<lambda>s. 1 < length (as_nodes s) \<and> started (as_nodes s ! 1) \<and> 0 \<in> set (nd_preds (as_nodes s ! 1)))"
  by code_simp

lemma nodes_in_order_witness:
  "\<exists>s. sched_reaches (\<lambda>k. []) (new_sched 1 two_nodes [graph_submit 2]) (Some s)
     \<and> started (as_nodes s ! 1) \<and> nd_task (as_nodes s ! 0) = Some Finished"
proof -
  obtain s where s: "sched_reaches (\<lambda>k. []) (new_sched 1 two_nodes [graph_submit 2]) (Some s)"
      "1 < length (as_nodes s)" "started (as_nodes s ! 1)" "0 \<in> set (nd_preds (as_nodes s ! 1))"
    using run_gives_reaches [OF two_nodes_run] by blast
  have "client_program (length two_nodes) [graph_submit 2]" by code_simp
  then show ?thesis using nodes_in_order [OF small_graphs_fresh(2) _ s] s by blast
qed

end
