(* ===== verification/Task_Graph_Run.thy ===== *)
theory Task_Graph_Run
  imports Task_Graph_Props
begin

text \<open>
  A graph whose submission ends before the workers start: every node has exactly one token from the
  moment it has no dependency left until it finishes, so no coroutine is resumed twice, and when the
  scheduler is quiet every node is done.
\<close>

section \<open>The submission alone\<close>

text \<open>What a frame of the submitting thread will still schedule.\<close>

fun claim :: "node list \<Rightarrow> nat \<Rightarrow> sframe \<Rightarrow> int" where
  "claim ns k (Sf_submit i e) = (if i \<le> k \<and> k < e \<and> nd_preds (ns ! k) = [] then 1 else 0)"
| "claim ns k (Sf_schedule (Some j)) = (if j = k then 1 else 0)"
| "claim ns k (Sf_planned j) = (if j = k then 1 else 0)"
| "claim ns k f = 0"

fun waits_idle :: "node list \<Rightarrow> nat \<Rightarrow> sframe \<Rightarrow> bool" where
  "waits_idle ns k (Sf_submit i e) = (i \<le> k \<and> k < e \<and> nd_preds (ns ! k) = [])"
| "waits_idle ns k (Sf_schedule (Some j)) = (j = k)"
| "waits_idle ns k f = False"

text \<open>The frames of such a thread, and those of one that neither submits nor schedules.\<close>

fun caller :: "sframe \<Rightarrow> bool" where
  "caller (Sf_enqueue t w) = True"
| "caller (Sf_local t w) = True"
| "caller (Sf_displace t w) = True"
| "caller (Sf_put t) = True"
| "caller Sf_count = True"
| "caller (Sf_wake w) = True"
| "caller (Sf_wake_any k) = True"
| "caller (Sf_schedule k) = True"
| "caller (Sf_planned k) = True"
| "caller (Sf_reset k e) = True"
| "caller (Sf_submit k e) = True"
| "caller Sf_wait = True"
| "caller Sf_pause = True"
| "caller Sf_unpause = True"
| "caller Sf_shutdown = True"
| "caller (Sf_stop k) = True"
| "caller (Sf_rouse k) = True"
| "caller (Sf_join k) = True"
| "caller f = False"

fun submitting :: "sframe \<Rightarrow> bool" where
  "submitting (Sf_schedule k) = True"
| "submitting (Sf_planned k) = True"
| "submitting (Sf_reset k e) = True"
| "submitting (Sf_submit k e) = True"
| "submitting f = False"

definition submitted_fs :: "node list \<Rightarrow> sframe list \<Rightarrow> sched \<Rightarrow> bool" where
  "submitted_fs ns fs s \<longleftrightarrow> list_all caller fs
     \<and> (\<forall>k < length ns. tokens k s + sum_list (map (claim ns k) fs) = (if nd_preds (ns ! k) = [] then 1 else 0)
       \<and> ((\<exists>f \<in> set fs. waits_idle ns k f) \<longrightarrow> nd_state (as_nodes s ! k) = Nd_idle))"

text \<open>Nothing has started: the graph is as built, but for the states of its nodes.\<close>

definition unstarted :: "node list \<Rightarrow> sched \<Rightarrow> bool" where
  "unstarted ns s \<longleftrightarrow> same_tasks (as_nodes s) ns"

lemma claim_nonneg: "0 \<le> claim ns k f"
  by (cases "(ns, k, f)" rule: claim.cases) auto

lemma waits_claim: "waits_idle ns k f \<Longrightarrow> claim ns k f = 1"
  by (cases "(ns, k, f)" rule: claim.cases) auto

lemma caller_quiet: "caller f \<Longrightarrow> \<not> node_frame f"
  by (cases f) auto

lemma caller_act:
  assumes a: "act body i c f s = Next gs s'" and f: "caller f" and ok: "frame_ok (length (as_workers s)) (length ns) i f"
    and ns: "fresh_graph ns" and un: "unstarted ns s" and k: "k < length ns"
    and idle: "waits_idle ns k f \<Longrightarrow> nd_state (as_nodes s ! k) = Nd_idle"
    and root: "\<And>j. j < length ns \<Longrightarrow> 0 < claim ns j f \<Longrightarrow> nd_preds (ns ! j) = []"
  shows "list_all caller gs \<and> token_gain k f s + sum_list (map (claim ns k) gs) = claim ns k f
    \<and> ((\<exists>g \<in> set gs. waits_idle ns k g) \<longrightarrow> waits_idle ns k f \<and> nd_state (as_nodes s' ! k) = Nd_idle)
    \<and> (nd_state (as_nodes s ! k) = Nd_idle \<longrightarrow> 0 < claim ns k f \<or> nd_state (as_nodes s' ! k) = Nd_idle)"
proof -
  have len: "length (as_nodes s) = length ns" using un by (simp add: unstarted_def same_tasks_def)
  have d: "nd_numDeps (as_nodes s ! j) = int (length (nd_preds (ns ! j)))" if "j < length ns" for j
    using ns un that by (auto simp: unstarted_def same_tasks_def fresh_graph_def list_all_length fresh_node_def)
  show ?thesis
  proof (cases f)
    case (Sf_schedule node)
    then show ?thesis using a k len idle by (cases node) (auto simp: schedule_node_def nth_set_node split: if_splits)
  next
    case (Sf_planned j)
    then show ?thesis using a ok k d [of j] root [of j] by (auto simp: schedule_planned_def split: if_splits)
  next
    case (Sf_submit j e)
    then show ?thesis using a ok k d [of j] idle
      by (auto simp: submit_loop_def Suc_le_eq le_eq_less_or_eq split: if_splits)
  next
    case (Sf_reset j e)
    then show ?thesis using a k len
      by (cases "j < length ns"; cases "j = k") (auto simp: submit_reset_def set_node_def split: if_splits)
  next
    case (Sf_displace t w)
    then show ?thesis using a dequeue_local_fields(1) [of c w s]
      by (cases "dequeue_local c w s") (auto simp: enqueue_displace_def)
  qed (use a f in \<open>auto simp: act_defs split: if_splits\<close>)
qed

lemma gain_outside:
  "frame_ok n (length (as_nodes s)) i f \<Longrightarrow> length (as_nodes s) \<le> k \<Longrightarrow> 0 \<le> tokens k s + token_gain k f s
    \<Longrightarrow> tokens k s = 0 \<Longrightarrow> token_gain k f s = 0"
  by (cases "(k, f, s)" rule: token_gain.cases) (auto split: if_splits)

lemma caller_frames: "act body i c f s = Next gs s' \<Longrightarrow> caller f \<Longrightarrow> list_all caller gs"
  by (cases f) (auto simp: act_defs list_all_iff split: if_splits option.splits)

lemma caller_defined:
  assumes "caller f" and "frame_ok n m i f" and "length (as_nodes s) = m"
  shows "act body i c f s \<noteq> Undefined"
  using assms by (cases f) (auto simp: act_defs split: option.splits)

definition submitting_thread :: "node list \<Rightarrow> nat \<Rightarrow> sched \<Rightarrow> bool" where
  "submitting_thread ns w s \<longleftrightarrow> w < length (as_threads s) \<and> frames_ok s \<and> unstarted ns s \<and> submitted_fs ns (as_threads s ! w) s
     \<and> (\<forall>k. length ns \<le> k \<longrightarrow> tokens k s = 0)"

lemma submit_move:
  assumes m: "thread_move body w c s = Some r" and ns: "fresh_graph ns" and sub: "submitting_thread ns w s"
  shows "\<exists>s' gs. r = Some s' \<and> submitting_thread ns w s' \<and> as_threads s' = (as_threads s)[w := gs]"
proof -
  have w: "w < length (as_threads s)" and fr: "frames_ok s" and un: "unstarted ns s"
    and sb: "submitted_fs ns (as_threads s ! w) s"
    using sub by (simp_all add: submitting_thread_def)
  obtain f fs where top: "as_threads s ! w = f # fs"
    using m by (auto simp: thread_move_def split: if_splits list.splits)
  have len: "length (as_nodes s) = length ns" using un by (simp add: unstarted_def same_tasks_def)
  have ok: "frame_ok (length (as_workers s)) (length ns) w f" and wi: "wired (as_nodes s)"
    using fr w top len by (auto simp: frames_ok_def dest!: spec [of _ w])
  have f: "caller f" "list_all caller fs" using sb top by (simp_all add: submitted_fs_def)
  have sum: "tokens k s + claim ns k f + sum_list (map (claim ns k) fs) = (if nd_preds (ns ! k) = [] then 1 else 0)"
    and idle: "(\<exists>f \<in> set (f # fs). waits_idle ns k f) \<Longrightarrow> nd_state (as_nodes s ! k) = Nd_idle" if "k < length ns" for k
    using sb top that by (auto simp: submitted_fs_def)
  have fs0: "0 \<le> sum_list (map (claim ns k) fs)" for k by (rule sum_nonneg_list) (rule claim_nonneg)
  have root: "nd_preds (ns ! j) = []" if "j < length ns" "0 < claim ns j f" for j
    using sum [OF that(1)] that(2) fs0 [of j] tokens_nonneg [of j s] by (auto split: if_splits)
  obtain hs s1 where a: "act body w c f s = Next hs s1" "r = Some (set_thread w (hs @ fs) s1)"
    using m top w caller_defined [OF f(1) ok len] by (auto simp: thread_move_def split: outcome.splits)
  let ?s = "set_thread w (hs @ fs) s1"
  have m': "thread_move body w c s = Some (Some ?s)" using m a(2) by simp
  have un': "unstarted ns ?s"
    using act_quiet [OF a(1) caller_quiet [OF f(1)]] un unfolding unstarted_def by (auto simp: same_tasks_def)
  have thr: "as_threads ?s = (as_threads s)[w := hs @ fs]"
    using act_frames [OF a(1) ok [folded len] wi] by simp
  have "submitted_fs ns (hs @ fs) ?s"
    unfolding submitted_fs_def
  proof (intro conjI allI impI)
    show "list_all caller (hs @ fs)" using caller_frames [OF a(1) f(1)] f(2) by simp
  next
    fix k assume k: "k < length ns"
    note c = caller_act [OF a(1) f(1) ok ns un k _ root, simplified]
    have wf: "waits_idle ns k f \<Longrightarrow> nd_state (as_nodes s ! k) = Nd_idle" using idle [OF k] by simp
    show "tokens k ?s + sum_list (map (claim ns k) (hs @ fs)) = (if nd_preds (ns ! k) = [] then 1 else 0)"
      using thread_move_tokens [OF w top a(1) fr, of k] c [OF wf] sum [OF k] by simp
    assume "\<exists>g \<in> set (hs @ fs). waits_idle ns k g"
    then consider "\<exists>g \<in> set hs. waits_idle ns k g" | g where "g \<in> set fs" "waits_idle ns k g" by auto
    then show "nd_state (as_nodes ?s ! k) = Nd_idle"
    proof cases
      case 1
      then show ?thesis using c [OF wf] by auto
    next
      case 2
      have "1 \<le> sum_list (map (claim ns k) fs)"
        using sum_member [OF 2(1), of "claim ns k"] claim_nonneg waits_claim [OF 2(2)] by simp
      then have "\<not> 0 < claim ns k f" using sum [OF k] tokens_nonneg [of k s] by (auto split: if_splits)
      moreover have "nd_state (as_nodes s ! k) = Nd_idle" using idle [OF k] 2 by auto
      ultimately show ?thesis using c [OF wf] by simp
    qed
  qed
  moreover have "tokens k ?s = 0" if "length ns \<le> k" for k
  proof -
    have "tokens k s = 0" using sub that by (simp add: submitting_thread_def)
    then show ?thesis
      using gain_outside [of "length (as_workers s)" s w f k] ok len that thread_move_tokens [OF w top a(1) fr, of k]
        tokens_nonneg [of k ?s] by simp
  qed
  ultimately show ?thesis
    using a(2) thread_move_frames [OF m' fr] un' thr w by (intro exI [of _ ?s] exI [of _ "hs @ fs"]) (simp add: submitting_thread_def)
qed

lemma submit_run:
  assumes "sched_run body (map (Pair w) cs) s = Some r" and "fresh_graph ns" and "submitting_thread ns w s"
  shows "\<exists>s' gs. r = Some s' \<and> submitting_thread ns w s' \<and> as_threads s' = (as_threads s)[w := gs]"
  using assms(1,3)
proof (induction cs arbitrary: s)
  case Nil
  then show ?case by (auto intro!: exI [of _ "as_threads s ! w"])
next
  case (Cons c cs)
  obtain q where q: "thread_move body w c s = Some q" using Cons.prems(1) by (auto split: option.splits)
  obtain s1 gs where s1: "q = Some s1" "submitting_thread ns w s1" "as_threads s1 = (as_threads s)[w := gs]"
    using submit_move [OF q assms(2) Cons.prems(2)] by blast
  then show ?case using Cons.IH [of s1] Cons.prems(1) q by fastforce
qed

section \<open>The workers\<close>

definition runs :: "nat \<Rightarrow> sframe \<Rightarrow> int" where
  "runs k f = (if f = Sf_running k then 1 else 0)"

definition finishes :: "nat \<Rightarrow> sframe \<Rightarrow> int" where
  "finishes k f = (if f = Sf_finished k then 1 else 0)"

text \<open>
  The invariant of a node: one token while it is ready and has not finished, and a frame that runs it
  exactly while it is active; a finished node is marked done or about to be.
\<close>

definition node_exact :: "nat \<Rightarrow> sched \<Rightarrow> bool" where
  "node_exact k s \<longleftrightarrow> nd_task (as_nodes s ! k) \<noteq> None
     \<and> tokens k s = (if nd_numDeps (as_nodes s ! k) = 0 \<and> nd_task (as_nodes s ! k) \<noteq> Some Finished then 1 else 0)
     \<and> frames_sum (runs k) s = (if \<exists>r. nd_task (as_nodes s ! k) = Some (Active r) then 1 else 0)
     \<and> (nd_task (as_nodes s ! k) = Some Finished \<longrightarrow> nd_state (as_nodes s ! k) = Nd_done \<or> 0 < frames_sum (finishes k) s)"

definition exact :: "sched \<Rightarrow> bool" where
  "exact s \<longleftrightarrow> frames_ok s \<and> deps_counted s \<and> ready_only s \<and> list_all (list_all (\<lambda>f. \<not> submitting f)) (as_threads s)
     \<and> (\<forall>k < length (as_nodes s). node_exact k s) \<and> (\<forall>k. length (as_nodes s) \<le> k \<longrightarrow> tokens k s = 0)"

lemma process_no_submit: "process t s = Next gs s' \<Longrightarrow> list_all (\<lambda>f. \<not> submitting f) gs"
  by (cases t) (auto simp: process_def split: option.splits if_splits)

lemma act_no_submit:
  "act body i c f s = Next gs s' \<Longrightarrow> \<not> submitting f \<Longrightarrow> list_all (\<lambda>f. \<not> submitting f) gs"
proof (cases f)
  case (Sf_process t)
  then show "act body i c f s = Next gs s' \<Longrightarrow> ?thesis" using process_no_submit by simp
next
  case (Sf_successors ds)
  then show "act body i c f s = Next gs s' \<Longrightarrow> ?thesis" by (cases ds) auto
next
  case (Sf_running k)
  then show "act body i c f s = Next gs s' \<Longrightarrow> ?thesis"
    by (auto simp: node_returns_def split: option.splits coro.splits nat.splits)
next
  case (Sf_resume k)
  then show "act body i c f s = Next gs s' \<Longrightarrow> ?thesis"
    by (auto simp: node_resume_def split: option.splits coro.splits)
qed (auto simp: act_defs list_all_iff Let_def split: if_splits option.splits)

lemma act_resume:
  assumes "node_resume k s = Next gs s'"
  obtains n where "nd_task (as_nodes s ! k) = Some (Suspended n)" and "gs = [Sf_running k]"
    and "s' = set_node k (\<lambda>v. v\<lparr>nd_task := Some (Active n)\<rparr>) s"
  using assms by (auto simp: node_resume_def split: option.splits coro.splits)

lemma act_running:
  assumes "node_returns i k s = Next gs s'"
  obtains n where "nd_task (as_nodes s ! k) = Some (Active (Suc n))" and "gs = [Sf_enqueue (Task_node (Some k)) (int i), Sf_count]"
      and "as_nodes s' = as_nodes (set_node k (\<lambda>v. v\<lparr>nd_task := Some (Suspended n)\<rparr>) s)"
  | "nd_task (as_nodes s ! k) = Some (Active 0)" and "gs = [Sf_finished k]"
      and "s' = set_node k (\<lambda>v. v\<lparr>nd_task := Some Finished\<rparr>) s"
  using assms by (auto simp: node_returns_def split: option.splits coro.splits nat.splits)

lemma releasing_sums:
  "list_all (\<lambda>g. \<not> releasing g) gs \<Longrightarrow> sum_list (map (runs k) gs) = 0 \<and> sum_list (map (finishes k) gs) = 0"
proof (induction gs)
  case (Cons g gs)
  then show ?case by (cases g) (auto simp: runs_def finishes_def)
qed simp

text \<open>What a move does to the task of a node and to the frames that run it.\<close>

lemma act_task:
  assumes a: "act body i c f s = Next gs s'" and ok: "frame_ok n (length (as_nodes s)) i f" and k: "k < length (as_nodes s)"
    and f: "f \<noteq> Sf_resume k" "f \<noteq> Sf_running k"
  shows "nd_task (as_nodes s' ! k) = nd_task (as_nodes s ! k) \<and> sum_list (map (runs k) gs) = runs k f"
proof (cases "node_frame f")
  case False
  have "runs k f = 0" using f(2) by (simp add: runs_def)
  then show ?thesis using act_quiet [OF a False] k releasing_sums [of gs k] by (auto simp: same_tasks_def)
next
  case True
  then show ?thesis
  proof (cases f)
    case (Sf_successors ds)
    then show ?thesis using a ok k by (cases ds) (auto simp: nth_set_node runs_def split: if_splits)
  qed (use a ok k f in \<open>auto simp: node_resume_def node_returns_def node_finished_def nth_set_node runs_def
      split: option.splits coro.splits nat.splits\<close>)
qed

text \<open>The state of a finished node changes only to done.\<close>

lemma process_state:
  "process t s = Next gs s' \<Longrightarrow> t \<noteq> Task_node (Some k) \<Longrightarrow> nd_state (as_nodes s' ! k) = nd_state (as_nodes s ! k)"
  by (cases t) (auto simp: process_def set_node_def split: option.splits if_splits)

lemma act_state:
  assumes a: "act body i c f s = Next gs s'" and ok: "frame_ok n (length (as_nodes s)) i f" and k: "k < length (as_nodes s)"
    and f: "f \<noteq> Sf_process (Task_node (Some k))" "\<not> submitting f"
  shows "if f = Sf_finished k then nd_state (as_nodes s' ! k) = Nd_done
    else nd_state (as_nodes s' ! k) = nd_state (as_nodes s ! k) \<and> finishes k f = 0"
proof (cases f)
  case (Sf_process t)
  then show ?thesis using a f(1) process_state [of t s gs s' k] by (auto simp: finishes_def)
next
  case (Sf_successors ds)
  then show ?thesis using a ok k by (cases ds) (auto simp: nth_set_node finishes_def split: if_splits)
next
  case (Sf_displace t w)
  then show ?thesis using a dequeue_local_fields(1) [of c w s]
    by (cases "dequeue_local c w s") (auto simp: enqueue_displace_def finishes_def)
next
  case Sf_try_local
  then show ?thesis using a dequeue_local_fields(1) [of c i s]
    by (cases "dequeue_local c i s") (auto simp: loop_local_def finishes_def)
next
  case (Sf_victim b e)
  then show ?thesis using a dequeue_local_fields(1) [of c "(b + e) mod length (as_workers s)" s]
    by (cases "dequeue_local c ((b + e) mod length (as_workers s)) s") (auto simp: steal_from_def Let_def finishes_def split: if_splits)
next
  case Sf_try_global
  then show ?thesis using a by (auto simp: loop_global_def finishes_def split: option.splits)
qed (use a ok k f(2) in \<open>auto simp: act_defs nth_set_node finishes_def
    split: if_splits option.splits coro.splits nat.splits\<close>)

lemma exactD:
  assumes "exact s"
  shows "frames_ok s" and "deps_counted s" and "ready_only s"
    and "k < length (as_nodes s) \<Longrightarrow> node_exact k s" and "length (as_nodes s) \<le> k \<Longrightarrow> tokens k s = 0"
    and "i < length (as_threads s) \<Longrightarrow> f \<in> set (as_threads s ! i) \<Longrightarrow> \<not> submitting f"
  using assms unfolding exact_def list_all_iff by (blast, blast, blast, blast, blast, metis nth_mem)

lemma exact_member:
  assumes "exact s" and "i < length (as_threads s)" and "as_threads s ! i = f # fs" and "0 < token k f"
  shows "k < length (as_nodes s) \<and> nd_numDeps (as_nodes s ! k) = 0 \<and> nd_task (as_nodes s ! k) \<noteq> Some Finished
    \<and> tokens k s = 1"
proof -
  have t: "0 < tokens k s" using tokens_member [OF assms(2), of f k] assms(3,4) by simp
  then have k: "k < length (as_nodes s)" using exactD(5) [OF assms(1), of k] by force
  then show ?thesis using t exactD(4) [OF assms(1) k] by (auto simp: node_exact_def split: if_splits)
qed

lemma runs_below_tokens:
  assumes "i < length (as_threads s)" and "f \<in> set (as_threads s ! i)"
  shows "frames_sum (runs k) s + (token k f - runs k f) \<le> tokens k s"
proof -
  have p: "0 \<le> token k g - runs k g" for g using token_nonneg(2) [of k g] by (auto simp: runs_def)
  have "token k f - runs k f \<le> frames_sum (\<lambda>g. token k g - runs k g) s" using frames_sum_ge [OF p assms] .
  also have "\<dots> = frames_sum (token k) s - frames_sum (runs k) s"
    by (simp add: frames_sum_def sum_list_subtractf)
  finally show ?thesis using tasks_sum_nonneg [of "task_token k" s, OF token_nonneg(1)] by (simp add: tokens_def)
qed

text \<open>No move is undefined.\<close>

lemma exact_defined:
  assumes e: "exact s"
  shows "thread_move body i c s \<noteq> Some None"
proof
  assume "thread_move body i c s = Some None"
  then obtain f fs where m: "i < length (as_threads s)" "as_threads s ! i = f # fs" "act body i c f s = Undefined"
    by (auto simp: thread_move_def split: if_splits list.splits outcome.splits)
  note x = exact_member [OF e m(1,2)]
  have ns: "\<not> submitting f" using exactD(6) [OF e m(1)] m(2) by simp
  show False
  proof (cases f)
    case (Sf_process t)
    then obtain k where "t = Task_node (Some k)" "length (as_nodes s) \<le> k"
      using m(3) by (auto simp: process_def split: task.splits option.splits if_splits)
    then show False using x [of k] Sf_process by simp
  next
    case (Sf_resume k)
    have k: "k < length (as_nodes s)" "nd_task (as_nodes s ! k) \<noteq> Some Finished" "tokens k s = 1"
      using x [of k] Sf_resume by simp_all
    have "frames_sum (runs k) s + 1 \<le> tokens k s"
      using runs_below_tokens [OF m(1), of f k] m(2) Sf_resume by (simp add: runs_def)
    then have "\<nexists>r. nd_task (as_nodes s ! k) = Some (Active r)" "nd_task (as_nodes s ! k) \<noteq> None"
      using exactD(4) [OF e k(1)] k(3) by (auto simp: node_exact_def split: if_splits)
    then show False using m(3) Sf_resume k(2) by (auto simp: node_resume_def split: option.splits coro.splits)
  next
    case (Sf_running k)
    then have "k < length (as_nodes s)" using x [of k] by simp
    moreover have "1 \<le> frames_sum (runs k) s"
      using frames_sum_ge [of "runs k" i s f] m(1,2) Sf_running by (simp add: runs_def)
    ultimately obtain r where "nd_task (as_nodes s ! k) = Some (Active r)"
      using exactD(4) [OF e] by (fastforce simp: node_exact_def split: if_splits)
    then show False using m(3) Sf_running by (cases r) (auto simp: node_returns_def)
  next
    case (Sf_successors ds)
    then show False using m(3) by (cases ds) auto
  qed (use m(3) ns in \<open>auto simp: act_defs Let_def split: if_splits option.splits\<close>)
qed

lemma token_gain_lost:
  "token_gain k f s < 0 \<Longrightarrow> f = Sf_running k \<and> nd_task (as_nodes s ! k) = Some (Active 0)
    \<or> f = Sf_process (Task_node (Some k)) \<and> nd_task (as_nodes s ! k) = None"
  by (cases "(k, f, s)" rule: token_gain.cases) (auto split: if_splits)

text \<open>The token of a node after a move, for a frame that does not schedule.\<close>

lemma exact_token:
  assumes e: "exact s" and m: "i < length (as_threads s)" "as_threads s ! i = f # fs" "act body i c f s = Next gs s1"
    and ok: "frame_ok (length (as_workers s)) (length (as_nodes s)) i f" and k: "k < length (as_nodes s)"
  shows "tokens k s + token_gain k f s
    = (if nd_numDeps (as_nodes s1 ! k) = 0 \<and> nd_task (as_nodes s1 ! k) \<noteq> Some Finished then 1 else 0)"
proof -
  have n: "node_exact k s" using exactD(4) [OF e k] .
  have tok: "tokens k s = (if nd_numDeps (as_nodes s ! k) = 0 \<and> nd_task (as_nodes s ! k) \<noteq> Some Finished then 1 else 0)"
    and some: "nd_task (as_nodes s ! k) \<noteq> None"
    using n unfolding node_exact_def by blast+
  note deps = act_numDeps [OF m(3) ok k]
  have sub: "\<not> submitting f" using exactD(6) [OF e m(1)] m(2) by simp
  show ?thesis
  proof (cases "f = Sf_resume k \<or> f = Sf_running k")
    case True
    then have t: "nd_numDeps (as_nodes s ! k) = 0" "nd_task (as_nodes s ! k) \<noteq> Some Finished" "tokens k s = 1"
      using exact_member [OF e m(1,2), of k] by auto
    show ?thesis
    proof (cases "f = Sf_resume k")
      case True
      then show ?thesis using m(3) t deps k by (auto elim!: act_resume simp: nth_set_node)
    next
      case False
      then have "f = Sf_running k" using True by simp
      then show ?thesis using m(3) t deps k by (auto elim!: act_running simp: nth_set_node)
    qed
  next
    case False
    then have task: "nd_task (as_nodes s1 ! k) = nd_task (as_nodes s ! k)" using act_task [OF m(3) ok k] by blast
    show ?thesis
    proof (cases "\<exists>ds. f = Sf_successors (k # ds)")
      case True
      then have "nd_numDeps (as_nodes s ! k) > 0"
        using deps_pending [OF exactD(2) [OF e] k m(1)] m(2) by auto
      moreover from this have "nd_task (as_nodes s ! k) \<noteq> Some Finished"
        using exactD(3) [OF e] k by (auto simp: ready_only_def started_def)
      ultimately show ?thesis using True task deps tok by auto
    next
      case no: False
      have "token_gain k f s = 0"
        using token_gain_cases [of k f s] token_gain_lost [of k f s] no False some sub by fastforce
      then show ?thesis using no task deps tok by simp
    qed
  qed
qed

lemma frames_sum_after:
  assumes "i < length (as_threads s)" and "as_threads s ! i = f # fs" and "act body i c f s = Next gs s1" and "frames_ok s"
  shows "frames_sum h (set_thread i (gs @ fs) s1) = frames_sum h s - h f + sum_list (map h gs)"
proof -
  have ok: "frame_ok (length (as_workers s)) (length (as_nodes s)) i f" and w: "wired (as_nodes s)"
    using assms(1,2,4) by (auto simp: frames_ok_def dest!: spec [of _ i])
  show ?thesis using frames_sum_move [OF assms(1,2)] act_frames [OF assms(3) ok w] by blast
qed

lemma exact_runs:
  assumes e: "exact s" and m: "i < length (as_threads s)" "as_threads s ! i = f # fs" "act body i c f s = Next gs s1"
    and ok: "frame_ok (length (as_workers s)) (length (as_nodes s)) i f" and k: "k < length (as_nodes s)"
  shows "nd_task (as_nodes s1 ! k) \<noteq> None \<and> frames_sum (runs k) s - runs k f + sum_list (map (runs k) gs)
    = (if \<exists>r. nd_task (as_nodes s1 ! k) = Some (Active r) then 1 else 0)"
proof -
  have r: "frames_sum (runs k) s = (if \<exists>r. nd_task (as_nodes s ! k) = Some (Active r) then 1 else 0)"
    and some: "nd_task (as_nodes s ! k) \<noteq> None"
    using exactD(4) [OF e k] unfolding node_exact_def by blast+
  show ?thesis
  proof (cases "f = Sf_resume k \<or> f = Sf_running k")
    case True
    show ?thesis
    proof (cases "f = Sf_resume k")
      case True
      then show ?thesis using m(3) r k by (auto elim!: act_resume simp: nth_set_node runs_def)
    next
      case False
      then have "f = Sf_running k" using True by simp
      then show ?thesis using m(3) r k by (auto elim!: act_running simp: nth_set_node runs_def)
    qed
  next
    case False
    then show ?thesis using act_task [OF m(3) ok k] r some by auto
  qed
qed

lemma finishes_nonneg: "0 \<le> finishes k f"
  by (simp add: finishes_def)

lemma exact_state:
  assumes e: "exact s" and m: "i < length (as_threads s)" "as_threads s ! i = f # fs" "act body i c f s = Next gs s1"
    and ok: "frame_ok (length (as_workers s)) (length (as_nodes s)) i f" and k: "k < length (as_nodes s)"
    and fin: "nd_task (as_nodes s1 ! k) = Some Finished"
  shows "nd_state (as_nodes s1 ! k) = Nd_done \<or> 0 < frames_sum (finishes k) s - finishes k f + sum_list (map (finishes k) gs)"
proof -
  have g: "0 \<le> sum_list (map (finishes k) gs)" by (rule sum_nonneg_list) (rule finishes_nonneg)
  have sub: "\<not> submitting f" using exactD(6) [OF e m(1)] m(2) by simp
  show ?thesis
  proof (cases "f = Sf_running k")
    case True
    have "0 \<le> frames_sum (finishes k) s" by (rule frames_sum_nonneg) (rule finishes_nonneg)
    then show ?thesis using m(3) True fin k by (auto elim!: act_running simp: nth_set_node finishes_def)
  next
    case no: False
    have "f \<noteq> Sf_resume k"
      using m(3) fin k by (auto elim!: act_resume simp: nth_set_node)
    then have old: "nd_task (as_nodes s ! k) = Some Finished" using act_task [OF m(3) ok k] no fin by simp
    then have "f \<noteq> Sf_process (Task_node (Some k))" using exact_member [OF e m(1,2), of k] by auto
    note st = act_state [OF m(3) ok k this sub]
    have "nd_state (as_nodes s ! k) = Nd_done \<or> 0 < frames_sum (finishes k) s"
      using exactD(4) [OF e k] old by (simp add: node_exact_def)
    then show ?thesis using st g by (auto split: if_splits)
  qed
qed

lemma exact_move:
  assumes "thread_move body i c s = Some r" and e: "exact s"
  shows "\<exists>s'. r = Some s' \<and> exact s'"
proof -
  obtain s' where r: "r = Some s'" using assms exact_defined [OF e] by (cases r) auto
  then have t: "thread_move body i c s = Some (Some s')" using assms(1) by simp
  obtain f fs gs s1 where m: "i < length (as_threads s)" "as_threads s ! i = f # fs"
      "act body i c f s = Next gs s1" "s' = set_thread i (gs @ fs) s1"
    using t by (rule thread_moveE)
  note fr = exactD(1) [OF e]
  have ok: "frame_ok (length (as_workers s)) (length (as_nodes s)) i f" and w: "wired (as_nodes s)"
    using fr m(1,2) by (auto simp: frames_ok_def dest!: spec [of _ i])
  have len: "length (as_nodes s') = length (as_nodes s)" and thr: "as_threads s' = (as_threads s)[i := gs @ fs]"
    using act_frames [OF m(3) ok w] m(4) by (simp_all add: same_wiring_def)
  note sums = frames_sum_after [OF m(1-3) fr] and toks = thread_move_tokens [OF m(1-3) fr]
  have "\<not> submitting f" "list_all (\<lambda>f. \<not> submitting f) fs"
    using exactD(6) [OF e m(1)] m(2) by (auto simp: list_all_iff)
  then have "list_all (\<lambda>f. \<not> submitting f) (gs @ fs)" using act_no_submit [OF m(3)] by simp
  moreover have "set (as_threads s') \<subseteq> insert (gs @ fs) (set (as_threads s))"
    unfolding thr by (rule set_update_subset_insert)
  moreover have "list_all (list_all (\<lambda>f. \<not> submitting f)) (as_threads s)" using e by (simp add: exact_def)
  ultimately have sub: "list_all (list_all (\<lambda>f. \<not> submitting f)) (as_threads s')"
    unfolding list_all_iff by blast
  have "node_exact k s'" if "k < length (as_nodes s')" for k
  proof -
    have k: "k < length (as_nodes s)" using that len by simp
    show ?thesis
      using exact_token [OF e m(1-3) ok k] exact_runs [OF e m(1-3) ok k] exact_state [OF e m(1-3) ok k]
      unfolding node_exact_def m(4) sums toks set_thread_fields by blast
  qed
  moreover have "tokens k s' = 0" if "length (as_nodes s') \<le> k" for k
  proof -
    have k: "length (as_nodes s) \<le> k" using that len by simp
    then have "tokens k s = 0" using exactD(5) [OF e] by blast
    then show ?thesis using gain_outside [OF ok k] toks [of k] tokens_nonneg [of k s'] m(4) by simp
  qed
  ultimately have "exact s'"
    using sub thread_move_frames [OF t fr] thread_move_deps [OF t fr exactD(2) [OF e]]
      thread_move_ready [OF t fr exactD(2) [OF e] exactD(3) [OF e]] unfolding exact_def by blast
  then show ?thesis using r by blast
qed

lemma exact_reaches:
  assumes "sched_reaches body s0 r" and "exact s0"
  shows "\<exists>s. r = Some s \<and> exact s"
  using assms(1)
proof (induction rule: sched_reaches.induct)
  case start
  then show ?case using assms(2) by simp
next
  case (move s i c r)
  then show ?case using exact_move by blast
qed

section \<open>A graph runs to its end\<close>

lemma claim_submitting: "\<not> submitting f \<Longrightarrow> claim ns k f = 0"
  by (cases "(ns, k, f)" rule: claim.cases) auto

lemma client_caller: "client_call m f \<Longrightarrow> caller f"
  by (cases "(m, f)" rule: client_call.cases) auto

lemma caller_runs: "caller f \<Longrightarrow> runs k f = 0"
  by (cases f) (auto simp: runs_def)

lemma loop_runs: "runs k Sf_loop = 0"
  by (simp add: runs_def)

lemma submit_start:
  assumes ns: "fresh_graph ns" and cs: "client_program (length ns) (rest # others)"
    and rest: "list_all (\<lambda>f. \<not> submitting f) rest"
  shows "submitting_thread ns (worker_count n) (new_sched n ns ((graph_submit (length ns) @ rest) # others))"
proof -
  let ?s = "new_sched n ns ((graph_submit (length ns) @ rest) # others)"
  have prog: "client_program (length ns) ((graph_submit (length ns) @ rest) # others)"
    using cs by (simp add: client_program_def graph_submit_def)
  have th: "as_threads ?s ! worker_count n = graph_submit (length ns) @ rest" "worker_count n < length (as_threads ?s)"
    by (simp_all add: new_sched_def nth_append)
  have tok: "tokens k ?s = 0" for k using start_sums(2) [OF prog] by (simp add: tokens_def start_tasks)
  have "sum_list (map (claim ns k) rest) = 0" for k
    using rest claim_submitting by (auto simp: list_all_iff intro!: sum_list_zero)
  moreover have "list_all caller rest" using cs client_caller by (auto simp: client_program_def list_all_iff)
  moreover have "nd_state (as_nodes ?s ! k) = Nd_idle" if "k < length ns" for k
    using ns that by (simp add: new_sched_def fresh_graph_def list_all_length fresh_node_def)
  ultimately have "submitted_fs ns (graph_submit (length ns) @ rest) ?s"
    unfolding submitted_fs_def tok by (simp add: graph_submit_def)
  then show ?thesis
    using th fresh_frames_ok [OF ns prog] tok by (simp add: submitting_thread_def unstarted_def) (simp add: new_sched_def)
qed

lemma submitted_exact:
  assumes ns: "fresh_graph ns" and tasks: "list_all (\<lambda>n. nd_task n \<noteq> None) ns"
    and sub: "submitting_thread ns w s" and over: "list_all (list_all (\<lambda>f. \<not> submitting f)) (as_threads s)"
    and calm: "list_all (list_all (\<lambda>f. f = Sf_loop \<or> caller f)) (as_threads s)" and dc: "deps_counted s" and rd: "ready_only s"
  shows "exact s"
proof -
  have un: "same_tasks (as_nodes s) ns" and sb: "submitted_fs ns (as_threads s ! w) s" and w: "w < length (as_threads s)"
    using sub by (simp_all add: submitting_thread_def unstarted_def)
  have none: "runs k f = 0" if "f = Sf_loop \<or> caller f" for k f
    using that caller_runs loop_runs by blast
  have row: "sum_list (map (runs k) fs) = 0" if fs: "fs \<in> set (as_threads s)" for k fs
  proof (rule sum_list_zero)
    fix f assume "f \<in> set fs"
    then have "f = Sf_loop \<or> caller f" using calm fs by (auto simp: list_all_iff)
    then show "runs k f = 0" by (rule none)
  qed
  have runs: "frames_sum (runs k) s = 0" for k
    unfolding frames_sum_def by (rule sum_list_zero) (rule row)
  have "node_exact k s" if "k < length (as_nodes s)" for k
  proof -
    have k: "k < length ns" using that un by (simp add: same_tasks_def)
    have t: "nd_task (as_nodes s ! k) = nd_task (ns ! k)" "nd_numDeps (as_nodes s ! k) = int (length (nd_preds (ns ! k)))"
        "\<not> started (ns ! k)" "nd_task (ns ! k) \<noteq> None"
      using un ns tasks k by (auto simp: same_tasks_def fresh_graph_def list_all_length fresh_node_def)
    then have susp: "nd_task (ns ! k) \<noteq> Some Finished" "\<nexists>r. nd_task (ns ! k) = Some (Active r)"
      by (auto simp: started_def)
    have "sum_list (map (claim ns k) (as_threads s ! w)) = 0"
      by (rule sum_list_zero) (use over w in \<open>auto simp: list_all_iff intro!: claim_submitting\<close>)
    moreover have "tokens k s + sum_list (map (claim ns k) (as_threads s ! w)) = (if nd_preds (ns ! k) = [] then 1 else 0)"
      using sb k unfolding submitted_fs_def by blast
    ultimately have "tokens k s = (if nd_preds (ns ! k) = [] then 1 else 0)" by simp
    then show ?thesis using t susp runs by (simp add: node_exact_def)
  qed
  then show ?thesis
    using sub over dc rd un by (simp add: exact_def submitting_thread_def same_tasks_def)
qed

lemma quiet_done:
  assumes e: "exact s" and q: "quiet s"
    and rank: "\<And>k p. k < length (as_nodes s) \<Longrightarrow> p \<in> set (nd_preds (as_nodes s ! k)) \<Longrightarrow> rank p < (rank k :: nat)"
  shows "graph_allDone (as_nodes s)"
proof -
  have z: "token k f = 0 \<and> pending ns k f = 0 \<and> finishes k f = 0" if "\<not> working f" for k f ns
    using that by (cases f) (auto simp: finishes_def)
  have tok: "tokens k s = 0" for k
    using quiet_tasks [OF q] quiet_frames [OF q, of "token k"] z by (simp add: tokens_def)
  have w: "wired (as_nodes s)" using exactD(1) [OF e] by (simp add: frames_ok_def)
  have fin: "k < length (as_nodes s) \<Longrightarrow> nd_task (as_nodes s ! k) = Some Finished" for k
  proof (induction "rank k" arbitrary: k rule: less_induct)
    case less
    have "nd_task (as_nodes s ! p) = Some Finished" if "p \<in> set (nd_preds (as_nodes s ! k))" for p
      using less rank [OF less.prems that] wired_bounds(2) [OF w less.prems that] by blast
    moreover have "count_list (nd_succs (as_nodes s ! p)) k = 0"
      if "p < length (as_nodes s)" "nd_task (as_nodes s ! p) \<noteq> Some Finished" for p
      using that calculation wired_count [OF w less.prems that(1)] by (metis count_notin)
    then have "unfinished (as_nodes s) k = 0"
      unfolding unfinished_def by (intro sum_list_zero) (auto simp: in_set_conv_nth)
    moreover have "frames_sum (pending (as_nodes s) k) s = 0" using quiet_frames [OF q] z by blast
    ultimately have "nd_numDeps (as_nodes s ! k) = 0" using exactD(2) [OF e] less.prems by (simp add: deps_counted_def)
    then show ?case using exactD(4) [OF e less.prems] tok [of k] by (auto simp: node_exact_def split: if_splits)
  qed
  have "frames_sum (finishes k) s = 0" for k using quiet_frames [OF q] z by blast
  then show ?thesis using exactD(4) [OF e] fin by (auto simp: graph_allDone_def list_all_length node_exact_def)
qed

text \<open>
  C15: A graph without cycles whose submission ends before the workers start runs to its end: with any
  number of workers, whatever their interleaving and whatever other threads call meanwhile, no move
  is undefined (no coroutine is resumed while it runs or after it has finished), no node is held by
  more than one queue entry or call, and when nothing is left in the queues and under way, every
  node is done and the job counter stands at the number of suspensions of nodes.
\<close>

theorem graph_completes:
  assumes ns: "fresh_graph ns" and tasks: "list_all (\<lambda>n. nd_task n \<noteq> None) ns"
    and acyclic: "\<forall>k < length ns. \<forall>p \<in> set (nd_preds (ns ! k)). rank p < (rank k :: nat)"
    and cs: "client_program (length ns) (rest # others)" "list_all (list_all (\<lambda>f. \<not> submitting f)) (rest # others)"
    and run: "sched_run body (map (Pair (worker_count n)) moves)
      (new_sched n ns ((graph_submit (length ns) @ rest) # others)) = Some (Some s0)"
    and over: "list_all (\<lambda>f. \<not> submitting f) (as_threads s0 ! worker_count n)"
    and r: "sched_reaches body s0 r"
  shows "\<exists>s. r = Some s \<and> list_all (\<lambda>k. tokens k s \<le> 1) [0..<length ns]
    \<and> (if quiet s then graph_allDone (as_nodes s) \<and> as_remaining s = of_nat (as_suspensions s) else True)"
proof -
  let ?w = "worker_count n" and ?init = "new_sched n ns ((graph_submit (length ns) @ rest) # others)"
  have prog: "client_program (length ns) ((graph_submit (length ns) @ rest) # others)"
    using cs(1) by (simp add: client_program_def graph_submit_def)
  have rest: "list_all (\<lambda>f. \<not> submitting f) rest" using cs(2) by simp
  obtain gs where s0: "submitting_thread ns ?w s0" "as_threads s0 = (as_threads ?init)[?w := gs]"
    using submit_run [OF run ns submit_start [OF ns cs(1) rest]] by auto
  then have th: "as_threads s0 = replicate ?w [Sf_loop] @ gs # others" "as_threads s0 ! ?w = gs"
    by (simp_all add: new_sched_def list_update_append nth_append)
  have to0: "sched_reaches body ?init (Some s0)" using run_reaches [OF sched_reaches.start run] .
  have inv: "deps_counted s0" "ready_only s0"
    using reaches_ready [OF to0 fresh_frames_ok [OF ns prog] start_invariants [OF ns prog]] by simp_all
  have "list_all caller gs" using s0(1) th(2) by (simp add: submitting_thread_def submitted_fs_def)
  then have calm: "list_all (list_all (\<lambda>f. f = Sf_loop \<or> caller f)) (as_threads s0)"
    using cs(1) client_caller [of "length ns"] th(1) by (auto simp: list_all_iff client_program_def)
  have "list_all (list_all (\<lambda>f. \<not> submitting f)) (as_threads s0)"
    using over cs(2) th by (auto simp: list_all_iff)
  then have "exact s0" using submitted_exact [OF ns tasks s0(1) _ calm inv] by blast
  then obtain s where s: "r = Some s" "exact s" using exact_reaches [OF r] by blast
  have to: "sched_reaches body ?init (Some s)" using reaches_trans [OF to0] r s(1) by blast
  have same: "same_wiring (as_nodes s) ns"
    using reaches_frames [OF to fresh_frames_ok [OF ns prog]] by (simp add: new_sched_def)
  have "tokens k s \<le> 1" for k
    using exactD(4,5) [OF s(2), of k] by (cases "k < length (as_nodes s)") (auto simp: node_exact_def)
  moreover have "graph_allDone (as_nodes s)" if "quiet s"
    using quiet_done [OF s(2) that, of rank] acyclic same by (simp add: same_wiring_def)
  moreover have "as_remaining s = of_nat (as_suspensions s)" if "quiet s"
    using remaining_balance [OF ns prog to] quiet_balance [OF that] by simp
  ultimately show ?thesis using s(1) by (simp add: list_all_iff)
qed

lemma two_nodes_submitted:
  "run_gives (map (Pair (worker_count 1)) (replicate 13 (Takes 0)))
     (new_sched 1 two_nodes ((graph_submit (length two_nodes) @ [Sf_wait]) # []))
     (\<lambda>s0. list_all (\<lambda>f. \<not> submitting f) (as_threads s0 ! worker_count 1)
       \<and> run_gives (replicate 32 (0, Takes 0)) s0 (\<lambda>s. quiet s \<and> as_suspensions s = 0))"
  by code_simp

lemma graph_completes_witness:
  "\<exists>s. quiet s \<and> graph_allDone (as_nodes s) \<and> idle s \<and> tokens 1 s \<le> 1
     \<and> sched_reaches (\<lambda>k. []) (new_sched 1 two_nodes ((graph_submit (length two_nodes) @ [Sf_wait]) # [])) (Some s)"
proof -
  obtain s0 where run: "sched_run (\<lambda>k. []) (map (Pair (worker_count 1)) (replicate 13 (Takes 0)))
        (new_sched 1 two_nodes ((graph_submit (length two_nodes) @ [Sf_wait]) # [])) = Some (Some s0)"
      and over: "list_all (\<lambda>f. \<not> submitting f) (as_threads s0 ! worker_count 1)"
      and fin: "run_gives (replicate 32 (0, Takes 0)) s0 (\<lambda>s. quiet s \<and> as_suspensions s = 0)"
    using run_gives_run [OF two_nodes_submitted] by blast
  obtain s where s: "sched_reaches (\<lambda>k. []) s0 (Some s)" "quiet s" "as_suspensions s = 0"
    using run_gives_reaches [OF fin] by blast
  have nodes: "list_all (\<lambda>n. nd_task n \<noteq> None) two_nodes" "length two_nodes = 2"
      "\<forall>k < length two_nodes. \<forall>p \<in> set (nd_preds (two_nodes ! k)). id p < id k"
      "client_program (length two_nodes) [[Sf_wait]]" "list_all (list_all (\<lambda>f. \<not> submitting f)) [[Sf_wait]]"
    by code_simp+
  show ?thesis
    using graph_completes [OF small_graphs_fresh(2) nodes(1,3,4,5) run over s(1)] s nodes(2)
      reaches_trans [OF run_reaches [OF sched_reaches.start run] s(1)]
    by (auto simp: idle_def upt_rec)
qed

end
