(* ===== verification/Task_Graph_Races.thy ===== *)
theory Task_Graph_Races
  imports Task_Graph_Props
begin

text \<open>
  Runs on which the scheduler or the graph do not do what they are for: a submission that overlaps
  the execution starts a node twice, \<open>wait\<close> returns before the work is done, the counter goes below
  zero, a task is left in the queue with all workers asleep, and a graph cannot be submitted again.
\<close>

section \<open>Submission\<close>

lemma undefined_reaches: "sched_run body xs s = Some None \<Longrightarrow> sched_reaches body s None"
  using run_reaches [OF sched_reaches.start] .

text \<open>
  The submitting thread has scheduled the first node and is about to look at the second. The worker
  runs the first node, which leaves the second without dependencies and enqueues it; the submitting
  thread finds no dependencies and schedules it as well, and the coroutine is resumed after its end.
\<close>

lemma submit_starts_node_twice: "sched_reaches (\<lambda>k. []) (new_sched 1 two_nodes [graph_submit 2]) None"
proof -
  have "sched_run (\<lambda>k. []) (replicate 11 (1, Takes 0) @ replicate 16 (0, Takes 0) @ replicate 7 (1, Takes 0)
      @ replicate 16 (0, Takes 0)) (new_sched 1 two_nodes [graph_submit 2]) = Some None"
    by code_simp
  then show ?thesis by (rule undefined_reaches)
qed

text \<open>The states are reset by a second submission, the coroutines and the dependencies are not.\<close>

lemma second_submit_undefined:
  "sched_reaches (\<lambda>k. []) (new_sched 1 one_node [graph_submit 1 @ graph_submit 1]) None"
proof -
  have "sched_run (\<lambda>k. []) (replicate 11 (1, Takes 0) @ replicate 28 (0, Takes 0) @ replicate 10 (1, Takes 0)
      @ replicate 7 (0, Takes 0)) (new_sched 1 one_node [graph_submit 1 @ graph_submit 1]) = Some None"
    by code_simp
  then show ?thesis by (rule undefined_reaches)
qed

section \<open>Waiting\<close>

definition fork_nodes :: "node list" where
  "fork_nodes = graph_addEdge (Some 0) (Some 2) (graph_addEdge (Some 0) (Some 1)
     (snd (graph_addFunction (snd (graph_addFunction (snd (graph_addFunction [])))))))"

text \<open>
  A worker that finishes the first of three nodes has put the first successor in the queue and not yet
  counted it; another worker runs it and takes the counter to zero, so that \<open>wait\<close> returns although the
  second successor has not been enqueued.
\<close>

lemma wait_returns_early:
  "\<exists>s. sched_reaches (\<lambda>k. []) (new_sched 2 fork_nodes [graph_submit 3 @ [Sf_wait]]) (Some s)
     \<and> as_threads s ! 2 = [] \<and> nd_task (as_nodes s ! 1) = Some (Suspended 0)"
proof -
  have "run_gives (replicate 16 (2, Takes 0) @ replicate 11 (0, Takes 0) @ replicate 10 (1, Takes 0) @ [(2, Takes 0)])
      (new_sched 2 fork_nodes [graph_submit 3 @ [Sf_wait]])
      (\<lambda>s. as_threads s ! 2 = [] \<and> nd_task (as_nodes s ! 1) = Some (Suspended 0))"
    by code_simp
  then show ?thesis by (rule run_gives_reaches)
qed

text \<open>A function that is run before it has been counted takes the counter below zero.\<close>

lemma counter_below_zero:
  "\<exists>s. sched_reaches (\<lambda>k. []) (new_sched 1 [] [[Sf_enqueue (Task_fn None) (- 1)]]) (Some s) \<and> as_remaining s = - 1"
proof -
  have "run_gives (replicate 2 (1, Takes 0) @ replicate 6 (0, Takes 0))
      (new_sched 1 [] [[Sf_enqueue (Task_fn None) (- 1)]]) (\<lambda>s. as_remaining s = - 1)"
    by code_simp
  then show ?thesis by (rule run_gives_reaches)
qed

section \<open>Waking\<close>

text \<open>
  The worker has found the queues empty and is about to sleep; the task is enqueued, no sleeping worker
  is found, and the worker goes to sleep.
\<close>

lemma lost_wakeup:
  "\<exists>s. sched_reaches (\<lambda>k. []) (new_sched 1 [] [[Sf_enqueue (Task_fn None) (- 1)]]) (Some s)
     \<and> as_global s = [Task_fn None] \<and> (\<forall>i c. thread_move (\<lambda>k. []) i c s = None)"
proof -
  have "run_gives (replicate 5 (0, Takes 0) @ replicate 5 (1, Takes 0) @ [(0, Takes 0)])
      (new_sched 1 [] [[Sf_enqueue (Task_fn None) (- 1)]])
      (\<lambda>s. as_global s = [Task_fn None] \<and> as_threads s = [[Sf_asleep], []] \<and> wk_status (as_workers s ! 0) = 0)"
    by code_simp
  then obtain s where s: "sched_reaches (\<lambda>k. []) (new_sched 1 [] [[Sf_enqueue (Task_fn None) (- 1)]]) (Some s)"
      "as_global s = [Task_fn None]" "as_threads s = [[Sf_asleep], []]" "wk_status (as_workers s ! 0) = 0"
    using run_gives_reaches by blast
  have "thread_move (\<lambda>k. []) i c s = None" for i c
    using s(3,4) by (cases i) (auto simp: thread_move_def loop_asleep_def nth_Cons' split: list.splits)
  then show ?thesis using s by blast
qed

end
