(* ===== verification/Hash_Table.thy ===== *)
theory Hash_Table
  imports Bit_Ops "HOL-Library.Monad_Syntax"
begin

text \<open>
  The spatial hash table \<open>bht\<close> of \<open>container/Bht.hpp\<close> with its hashers (\<open>py_interop/HashUtils.hpp\<close>,
  \<open>math/Hash.hpp\<close>), as it is instantiated: keys are vectors of 32-bit integers, indices are 32-bit
  integers, a bucket has 16 slots. A table of slots holds the keys; an array of active keys lists them in
  the order of their indices.

  Insertion runs in parallel: a call goes through phases, each with one access to shared state, and the
  calls of a batch interleave. Loading a key and the exchange of a sentinel for a key are atomic: keys of
  4 and 8 bytes go through the atomics of the machine, longer ones through the lock of the slot, which
  is left out together with the array \<open>status\<close>. An index outside an array is undefined and the value None.
\<close>

section \<open>Hashing\<close>

type_synonym key = "u32 list"
type_synonym hasher = "u32 \<times> u32"

definition prime_divisor :: u32 where "prime_divisor = 4294967291"

definition hash_component :: "hasher \<Rightarrow> u32 \<Rightarrow> u32" where
  "hash_component h k = (case h of (hashx, hashy) \<Rightarrow> ((hashx XOR k) + hashy) mod prime_divisor)"

definition hash_combine :: "u32 \<Rightarrow> u32 \<Rightarrow> u32" where
  "hash_combine seed val = seed XOR (val + 0x9e3779b9 + push_bit 6 seed + drop_bit 2 seed)"

definition universal_hash :: "hasher \<Rightarrow> key \<Rightarrow> u32" where
  "universal_hash h key =
     foldl (\<lambda>ret k. hash_combine ret (hash_component h k)) (hash_component h (hd key)) (tl key)"

section \<open>The table\<close>

definition bucket_size :: nat where "bucket_size = 16"

definition threshold :: nat where "threshold = bucket_size - 2"

definition sentinel_v :: u32 where "sentinel_v = - 1"

definition failure_token_v :: u32 where "failure_token_v = 0x80000000"

text \<open>Every byte of the sentinel is 0x3f.\<close>

definition key_sentinel :: "nat \<Rightarrow> key" where
  "key_sentinel d = replicate d (foldl (\<lambda>v i. push_bit 8 v OR 0x3f) 0 [0..<4])"

record bht =
  bt_dim :: nat
  bt_keys :: "key list"
  bt_indices :: "u32 list"
  bt_tableSize :: nat
  bt_cnt :: u32
  bt_activeKeys :: "key list"
  bt_buildSuccess :: bool
  bt_hf0 :: hasher
  bt_hf1 :: hasher
  bt_hf2 :: hasher

text \<open>Sizes are those an allocation can have, where the arithmetic on them does not wrap.\<close>

definition evaluateTableSize :: "nat \<Rightarrow> nat" where
  "evaluateTableSize entryCnt =
     (if entryCnt = 0 then 0
      else let n = 2 ^ nat (bit_count (int entryCnt)) * 2 in n + (bucket_size - n mod bucket_size))"

definition numBuckets :: "bht \<Rightarrow> nat" where
  "numBuckets s = bt_tableSize s div bucket_size"

text \<open>
  The constructor; the hashers are drawn from a generator of the standard library, and the arrays of
  indices and active keys hold whatever the allocated memory holds.
\<close>

definition new_bht :: "nat \<Rightarrow> hasher \<Rightarrow> hasher \<Rightarrow> hasher \<Rightarrow> (nat \<Rightarrow> u32) \<Rightarrow> (nat \<Rightarrow> key) \<Rightarrow> nat \<Rightarrow> bht" where
  "new_bht d hf0 hf1 hf2 memory key_memory numExpectedEntries =
     (let n = evaluateTableSize numExpectedEntries
      in \<lparr>bt_dim = d, bt_keys = replicate n (key_sentinel d), bt_indices = map memory [0..<n],
          bt_tableSize = n, bt_cnt = 0, bt_activeKeys = map key_memory [0..<n], bt_buildSuccess = True,
          bt_hf0 = hf0, bt_hf1 = hf1, bt_hf2 = hf2\<rparr>)"

definition bht_reset :: "bool \<Rightarrow> bht \<Rightarrow> bht" where
  "bht_reset clearCnt s =
     s\<lparr>bt_keys := replicate (length (bt_keys s)) (key_sentinel (bt_dim s)),
       bt_cnt := (if clearCnt then 0 else bt_cnt s), bt_buildSuccess := True\<rparr>"

text \<open>The offset of the bucket a key has in round \<open>iter\<close>.\<close>

definition bucket_offset :: "bht \<Rightarrow> key \<Rightarrow> nat \<Rightarrow> nat" where
  "bucket_offset s key iter =
     unat (universal_hash (if iter = 0 then bt_hf0 s else if iter = 1 then bt_hf1 s else bt_hf2 s) key)
       mod numBuckets s * bucket_size"

section \<open>Insertion\<close>

record insertion =
  in_key :: key
  in_index :: u32
  in_enqueueKey :: bool

text \<open>
  What the call does next: look at a slot of its bucket, exchange the sentinel in it, take a number,
  store the index, store the active key, compare the number with the size; or it has returned.
\<close>

datatype in_phase =
  In_probe nat nat
| In_switch nat nat
| In_count nat
| In_store nat u32
| In_enqueue nat u32
| In_check u32
| In_fail
| In_done u32

definition insert_start :: "bht \<Rightarrow> in_phase" where
  "insert_start s = (if numBuckets s = 0 then In_done failure_token_v else In_probe 0 0)"

text \<open>The end of the loop over a bucket with \<open>load\<close> slots in use.\<close>

definition insert_decide :: "nat \<Rightarrow> nat \<Rightarrow> in_phase" where
  "insert_decide iter load =
     (if load \<le> threshold then In_switch iter load
      else if Suc iter < 3 then In_probe (Suc iter) 0
      else In_fail)"

definition insert_probe :: "insertion \<Rightarrow> nat \<Rightarrow> nat \<Rightarrow> bht \<Rightarrow> in_phase option" where
  "insert_probe c iter load s =
     (let p = bucket_offset s (in_key c) iter + load in
      if length (bt_keys s) \<le> p then None
      else if bt_keys s ! p = in_key c then Some (In_done sentinel_v)
      else if bt_keys s ! p = key_sentinel (bt_dim s) then Some (insert_decide iter load)
      else if Suc load \<noteq> bucket_size then Some (In_probe iter (Suc load))
      else Some (insert_decide iter (Suc load)))"

definition insert_switch :: "insertion \<Rightarrow> nat \<Rightarrow> nat \<Rightarrow> bht \<Rightarrow> (in_phase \<times> bht) option" where
  "insert_switch c iter load s =
     (let p = bucket_offset s (in_key c) iter + load in
      if length (bt_keys s) \<le> p then None
      else if bt_keys s ! p = key_sentinel (bt_dim s)
      then Some (if in_index c = sentinel_v then In_count p else In_store p (in_index c),
                 s\<lparr>bt_keys := (bt_keys s)[p := in_key c]\<rparr>)
      else Some (In_probe iter load, s))"

definition insert_store :: "insertion \<Rightarrow> nat \<Rightarrow> u32 \<Rightarrow> bht \<Rightarrow> (in_phase \<times> bht) option" where
  "insert_store c p localno s =
     (if length (bt_indices s) \<le> p then None
      else Some (if in_enqueueKey c then In_enqueue p localno else In_check localno,
                 s\<lparr>bt_indices := (bt_indices s)[p := localno]\<rparr>))"

text \<open>The number is a signed index of the array.\<close>

definition insert_enqueue :: "insertion \<Rightarrow> u32 \<Rightarrow> bht \<Rightarrow> (in_phase \<times> bht) option" where
  "insert_enqueue c localno s =
     (if sint localno < 0 \<or> length (bt_activeKeys s) \<le> unat localno then None
      else Some (In_check localno, s\<lparr>bt_activeKeys := (bt_activeKeys s)[unat localno := in_key c]\<rparr>))"

text \<open>The comparison of a signed number with an unsigned one is unsigned, and so is the difference.\<close>

definition insert_check :: "u32 \<Rightarrow> bht \<Rightarrow> in_phase \<times> bht" where
  "insert_check localno s =
     (if of_nat (bt_tableSize s) - 20 \<le> localno
      then (In_done failure_token_v, s\<lparr>bt_buildSuccess := False\<rparr>)
      else (In_done localno, s))"

definition insert_step :: "insertion \<Rightarrow> in_phase \<Rightarrow> bht \<Rightarrow> (in_phase \<times> bht) option" where
  "insert_step c ph s = (case ph of
     In_probe iter load \<Rightarrow> map_option (\<lambda>q. (q, s)) (insert_probe c iter load s)
   | In_switch iter load \<Rightarrow> insert_switch c iter load s
   | In_count p \<Rightarrow> Some (In_store p (bt_cnt s), s\<lparr>bt_cnt := bt_cnt s + 1\<rparr>)
   | In_store p n \<Rightarrow> insert_store c p n s
   | In_enqueue p n \<Rightarrow> insert_enqueue c n s
   | In_check n \<Rightarrow> Some (insert_check n s)
   | In_fail \<Rightarrow> Some (In_done failure_token_v, s\<lparr>bt_buildSuccess := False\<rparr>)
   | In_done r \<Rightarrow> Some (In_done r, s))"

text \<open>A call on its own; None when it is undefined or does not return.\<close>

partial_function (option) run_insert :: "insertion \<Rightarrow> in_phase \<Rightarrow> bht \<Rightarrow> (u32 \<times> bht) option" where
  "run_insert c ph s = (case ph of In_done r \<Rightarrow> Some (r, s)
     | _ \<Rightarrow> do { (q, s) \<leftarrow> insert_step c ph s; run_insert c q s })"

declare run_insert.simps [code]

definition bht_insert :: "key \<Rightarrow> bht \<Rightarrow> (u32 \<times> bht) option" where
  "bht_insert key s =
     run_insert \<lparr>in_key = key, in_index = sentinel_v, in_enqueueKey = True\<rparr> (insert_start s) s"

section \<open>Lookup\<close>

fun query_rounds :: "bht \<Rightarrow> key \<Rightarrow> nat list \<Rightarrow> nat option" where
  "query_rounds s key [] = None"
| "query_rounds s key (iter # iters) =
     (let offset = bucket_offset s key iter in
      case find_index (\<lambda>k. k = key) (take bucket_size (drop offset (bt_keys s))) of
        Some loc \<Rightarrow> Some (offset + loc)
      | None \<Rightarrow> query_rounds s key iters)"

text \<open>The slot of a key, which \<open>query\<close> gives with \<open>retrieve_index = false\<close>.\<close>

definition query_slot :: "key \<Rightarrow> bht \<Rightarrow> nat option" where
  "query_slot key s = (if numBuckets s = 0 then None else query_rounds s key [0, 1, 2])"

definition bht_query :: "key \<Rightarrow> bht \<Rightarrow> u32" where
  "bht_query key s = (case query_slot key s of None \<Rightarrow> sentinel_v | Some p \<Rightarrow> bt_indices s ! p)"

section \<open>Batches\<close>

text \<open>The calls of a batch with their phases; a call that has returned makes no move.\<close>

type_synonym batch = "(insertion \<times> in_phase) list"

definition start_batch :: "insertion list \<Rightarrow> bht \<Rightarrow> batch" where
  "start_batch cs s = map (\<lambda>c. (c, insert_start s)) cs"

definition batch_move :: "nat \<Rightarrow> batch \<Rightarrow> bht \<Rightarrow> (batch \<times> bht) option option" where
  "batch_move i ps s =
     (if i < length ps then
        case ps ! i of (c, ph) \<Rightarrow>
          (case ph of In_done r \<Rightarrow> None
           | _ \<Rightarrow> Some (map_option (\<lambda>(q, s). (ps[i := (c, q)], s)) (insert_step c ph s)))
      else None)"

inductive batch_reaches :: "batch \<Rightarrow> bht \<Rightarrow> (batch \<times> bht) option \<Rightarrow> bool" for ps0 s0 where
  start: "batch_reaches ps0 s0 (Some (ps0, s0))"
| move: "batch_reaches ps0 s0 (Some (ps, s)) \<Longrightarrow> batch_move i ps s = Some r \<Longrightarrow> batch_reaches ps0 s0 r"

definition returned :: "in_phase \<Rightarrow> bool" where
  "returned ph \<longleftrightarrow> (case ph of In_done r \<Rightarrow> True | _ \<Rightarrow> False)"

fun batch_run :: "nat list \<Rightarrow> batch \<Rightarrow> bht \<Rightarrow> (batch \<times> bht) option option" where
  "batch_run [] ps s = Some (Some (ps, s))"
| "batch_run (i # is) ps s = (case batch_move i ps s of
     None \<Rightarrow> None | Some None \<Rightarrow> Some None | Some (Some (ps, s)) \<Rightarrow> batch_run is ps s)"

lemma batch_run_reaches:
  "batch_reaches ps0 s0 (Some (ps, s)) \<Longrightarrow> batch_run is ps s = Some r \<Longrightarrow> batch_reaches ps0 s0 r"
proof (induction "is" ps s rule: batch_run.induct)
  case (2 i "is" ps s)
  show ?case
  proof (cases "batch_move i ps s")
    case (Some x)
    then have "batch_reaches ps0 s0 x" using batch_reaches.move 2(2) by blast
    then show ?thesis using 2 Some by (cases x) auto
  qed (use 2 in simp)
qed simp

section \<open>Growing and reordering\<close>

definition resize_array :: "(nat \<Rightarrow> 'a) \<Rightarrow> nat \<Rightarrow> 'a list \<Rightarrow> 'a list" where
  "resize_array memory n xs = take n xs @ map memory [length xs..<n]"

definition reinsertion :: "bht \<Rightarrow> nat \<Rightarrow> insertion" where
  "reinsertion s i = \<lparr>in_key = bt_activeKeys s ! i, in_index = of_nat i, in_enqueueKey = False\<rparr>"

text \<open>The new table, and the batch of insertions that fills it.\<close>

definition bht_resize :: "(nat \<Rightarrow> u32) \<Rightarrow> (nat \<Rightarrow> key) \<Rightarrow> nat \<Rightarrow> bht \<Rightarrow> bht \<times> batch" where
  "bht_resize memory key_memory newCapacity s =
     (let n = evaluateTableSize newCapacity in
      if n \<le> bt_tableSize s then (s, [])
      else
        let s = s\<lparr>bt_tableSize := n, bt_keys := resize_array key_memory n (bt_keys s),
                  bt_indices := resize_array memory n (bt_indices s)\<rparr>;
            s = bht_reset False s;
            s = s\<lparr>bt_activeKeys := resize_array key_memory n (bt_activeKeys s)\<rparr>
        in (s, start_batch (map (reinsertion s) [0..<unat (bt_cnt s)]) s))"

text \<open>One index of the loop of \<open>reorder\<close>, on the table and the new array of keys.\<close>

definition reorder_entry :: "bool \<Rightarrow> nat list \<Rightarrow> nat \<Rightarrow> bht \<times> key list \<Rightarrow> (bht \<times> key list) option" where
  "reorder_entry scatter m i x = (case x of (s, ordered) \<Rightarrow>
     let j = m ! i;
         from = (if scatter then i else j);
         dst = (if scatter then j else i)
     in if length (bt_activeKeys s) \<le> from \<or> length ordered \<le> dst then None
        else let key = bt_activeKeys s ! from; ordered = ordered[dst := key] in
          case query_slot key s of
            Some entry \<Rightarrow> Some (s\<lparr>bt_indices := (bt_indices s)[entry := of_nat dst]\<rparr>, ordered)
          | None \<Rightarrow> Some (s\<lparr>bt_buildSuccess := False\<rparr>, ordered))"

fun reorder_loop :: "bool \<Rightarrow> nat list \<Rightarrow> nat list \<Rightarrow> bht \<times> key list \<Rightarrow> (bht \<times> key list) option" where
  "reorder_loop scatter m [] x = Some x"
| "reorder_loop scatter m (i # is) x = do { x \<leftarrow> reorder_entry scatter m i x; reorder_loop scatter m is x }"

datatype reorder_result = Reorder_throws | Reordered "bht option"

text \<open>The loop visits the indices in the order \<open>is\<close>; the new array has the capacity of the old one.\<close>

definition bht_reorder :: "bool \<Rightarrow> (nat \<Rightarrow> key) \<Rightarrow> nat \<Rightarrow> nat list \<Rightarrow> nat list \<Rightarrow> bht \<Rightarrow> reorder_result" where
  "bht_reorder scatter key_memory capacity m is s =
     (if length m \<noteq> unat (bt_cnt s) then Reorder_throws
      else Reordered (map_option (\<lambda>(s, ordered). s\<lparr>bt_activeKeys := ordered\<rparr>)
        (reorder_loop scatter m is (s, map key_memory [0..<capacity]))))"

end
