(* ===== verification/Hash_Table_Inv.thy ===== *)
theory Hash_Table_Inv
  imports Hash_Table
begin

text \<open>
  Where the keys of the hash table are while a batch of insertions runs: the slots in use are the
  first ones of each bucket, every key is in the first of its buckets that had room for it, and in no
  other slot. Keys are never moved, so what a call has seen stays true.
\<close>

section \<open>Places of keys\<close>

abbreviation hole :: "bht \<Rightarrow> key" where "hole s \<equiv> key_sentinel (bt_dim s)"

definition table_shape :: "bht \<Rightarrow> bool" where
  "table_shape s \<longleftrightarrow> length (bt_keys s) = bt_tableSize s \<and> length (bt_indices s) = bt_tableSize s
     \<and> bt_tableSize s \<le> length (bt_activeKeys s) \<and> bt_tableSize s = numBuckets s * bucket_size
     \<and> bt_tableSize s < 2 ^ 31"

definition slots_full :: "bht \<Rightarrow> key \<Rightarrow> nat \<Rightarrow> nat \<Rightarrow> bool" where
  "slots_full s k off n \<longleftrightarrow> (\<forall>l < n. bt_keys s ! (off + l) \<noteq> hole s \<and> bt_keys s ! (off + l) \<noteq> k)"

definition passed :: "bht \<Rightarrow> key \<Rightarrow> nat \<Rightarrow> bool" where
  "passed s k iter \<longleftrightarrow> (\<forall>j < iter. slots_full s k (bucket_offset s k j) (Suc threshold))"

definition prefixed :: "bht \<Rightarrow> bool" where
  "prefixed s \<longleftrightarrow> (\<forall>b < numBuckets s. \<forall>l < bucket_size. bt_keys s ! (b * bucket_size + l) \<noteq> hole s \<longrightarrow>
     l \<le> threshold \<and> (\<forall>i < l. bt_keys s ! (b * bucket_size + i) \<noteq> hole s))"

definition home :: "bht \<Rightarrow> key \<Rightarrow> nat \<Rightarrow> bool" where
  "home s k p \<longleftrightarrow> (\<exists>j < 3. \<exists>l \<le> threshold. p = bucket_offset s k j + l \<and> passed s k j)"

definition keys_unique :: "bht \<Rightarrow> bool" where
  "keys_unique s \<longleftrightarrow> (\<forall>p q. p < bt_tableSize s \<longrightarrow> q < bt_tableSize s \<longrightarrow>
     bt_keys s ! p \<noteq> hole s \<longrightarrow> bt_keys s ! p = bt_keys s ! q \<longrightarrow> p = q)"

definition placed :: "bht \<Rightarrow> bool" where
  "placed s \<longleftrightarrow> table_shape s \<and> prefixed s \<and> keys_unique s
     \<and> (\<forall>p < bt_tableSize s. bt_keys s ! p \<noteq> hole s \<longrightarrow> home s (bt_keys s ! p) p)"

definition holds :: "in_phase \<Rightarrow> nat \<Rightarrow> bool" where
  "holds ph p \<longleftrightarrow> (case ph of In_count q \<Rightarrow> q = p | In_store q n \<Rightarrow> q = p | In_enqueue q n \<Rightarrow> q = p | _ \<Rightarrow> False)"

definition phase_ok :: "bht \<Rightarrow> key \<Rightarrow> in_phase \<Rightarrow> bool" where
  "phase_ok s k ph \<longleftrightarrow> (case ph of
     In_probe iter load \<Rightarrow> 0 < numBuckets s \<and> iter < 3 \<and> load < bucket_size \<and> passed s k iter
       \<and> slots_full s k (bucket_offset s k iter) load
   | In_switch iter load \<Rightarrow> 0 < numBuckets s \<and> iter < 3 \<and> load \<le> threshold \<and> passed s k iter
       \<and> slots_full s k (bucket_offset s k iter) load
   | In_count p \<Rightarrow> p < bt_tableSize s \<and> bt_keys s ! p = k
   | In_store p n \<Rightarrow> p < bt_tableSize s \<and> bt_keys s ! p = k
   | In_enqueue p n \<Rightarrow> p < bt_tableSize s \<and> bt_keys s ! p = k
   | In_fail \<Rightarrow> passed s k 3
   | _ \<Rightarrow> True)"

lemma sizes: "bucket_size = 16" "threshold = 14"
  by (simp_all add: bucket_size_def threshold_def)

lemma slot_split:
  assumes "b' * bucket_size + l = b * bucket_size + m" and "l < bucket_size" and "m < bucket_size"
  shows "b' = b \<and> l = m"
proof -
  have "(b' * bucket_size + l) div bucket_size = b'" "(b * bucket_size + m) div bucket_size = b"
    using assms(2,3) by simp_all
  then show ?thesis using assms(1) by simp
qed

lemma small_index:
  assumes "unat (m::u32) < 2 ^ 31"
  shows "sint m = int (unat m)"
proof -
  have "int (unat m) < 2 ^ 31" using assms by (metis of_nat_less_iff of_nat_numeral of_nat_power)
  moreover have "- (2 ^ 31) \<le> int (unat m)" by (rule order_trans [of _ 0]) simp_all
  ultimately have "signed_take_bit 31 (int (unat m)) = int (unat m)" by (intro signed_take_bit_int_eq_self)
  then show ?thesis by (simp add: sint_uint)
qed

lemma prefixedD:
  assumes "prefixed s" and "b < numBuckets s" and "l < bucket_size" and "bt_keys s ! (b * bucket_size + l) \<noteq> hole s"
  shows "l \<le> threshold" and "i < l \<Longrightarrow> bt_keys s ! (b * bucket_size + i) \<noteq> hole s"
  using assms unfolding prefixed_def by blast+

lemma bucket_of_offset:
  assumes "0 < numBuckets s"
  obtains b where "b < numBuckets s" and "bucket_offset s k j = b * bucket_size"
proof (rule that)
  show "unat (universal_hash (if j = 0 then bt_hf0 s else if j = 1 then bt_hf1 s else bt_hf2 s) k)
      mod numBuckets s < numBuckets s"
    using assms by simp
qed (simp add: bucket_offset_def)

lemma slot_bound: "table_shape s \<Longrightarrow> 0 < numBuckets s \<Longrightarrow> l < bucket_size \<Longrightarrow> bucket_offset s k j + l < bt_tableSize s"
proof -
  assume a: "table_shape s" "0 < numBuckets s" "l < bucket_size"
  obtain b where b: "b < numBuckets s" "bucket_offset s k j = b * bucket_size"
    using bucket_of_offset [OF a(2)] .
  then have "Suc b * bucket_size \<le> numBuckets s * bucket_size" by (intro mult_le_mono1) simp
  then show ?thesis using a b by (simp add: table_shape_def)
qed

section \<open>Growth\<close>

definition grows :: "bht \<Rightarrow> bht \<Rightarrow> bool" where
  "grows s s' \<longleftrightarrow> bt_dim s' = bt_dim s \<and> bt_tableSize s' = bt_tableSize s \<and> bt_hf0 s' = bt_hf0 s
     \<and> bt_hf1 s' = bt_hf1 s \<and> bt_hf2 s' = bt_hf2 s
     \<and> (\<forall>p. bt_keys s ! p \<noteq> hole s \<longrightarrow> bt_keys s' ! p = bt_keys s ! p)"

lemma grows_offset: "grows s s' \<Longrightarrow> bucket_offset s' k j = bucket_offset s k j \<and> numBuckets s' = numBuckets s"
  by (simp add: grows_def bucket_offset_def numBuckets_def)

lemma grows_full: "grows s s' \<Longrightarrow> slots_full s k off n \<Longrightarrow> slots_full s' k off n"
  by (simp add: grows_def slots_full_def)

lemma grows_passed: "grows s s' \<Longrightarrow> passed s k iter \<Longrightarrow> passed s' k iter"
  by (simp add: passed_def grows_full grows_offset)

lemma grows_home: "grows s s' \<Longrightarrow> home s k p \<Longrightarrow> home s' k p"
  unfolding home_def using grows_passed grows_offset by fastforce

lemma grows_phase: "grows s s' \<Longrightarrow> k \<noteq> hole s \<Longrightarrow> phase_ok s k ph \<Longrightarrow> phase_ok s' k ph"
  by (cases ph) (auto simp: phase_ok_def grows_offset grows_full grows_passed, auto simp: grows_def)

lemma grows_same: "grows s s"
  by (simp add: grows_def)

lemma grows_trans: "grows s s' \<Longrightarrow> grows s' s'' \<Longrightarrow> grows s s''"
  by (simp add: grows_def)

section \<open>Moves\<close>

lemma decide_ok:
  assumes "0 < numBuckets s" and "iter < 3" and "passed s k iter" and "slots_full s k (bucket_offset s k iter) load"
  shows "phase_ok s k (insert_decide iter load)"
proof -
  have "passed s k (Suc iter)" if "\<not> load \<le> threshold"
    using assms(3,4) that by (auto simp: passed_def slots_full_def less_Suc_eq)
  moreover have "passed s k (Suc iter) \<Longrightarrow> passed s k 3" if "\<not> Suc iter < 3"
  proof -
    have "Suc iter = 3" using that assms(2) by simp
    then show "passed s k (Suc iter) \<Longrightarrow> passed s k 3" by simp
  qed
  ultimately show ?thesis using assms
    by (auto simp: insert_decide_def phase_ok_def slots_full_def sizes)
qed

lemma probe_ok:
  assumes "table_shape s" and "phase_ok s (in_key c) (In_probe iter load)"
  shows "\<exists>q. insert_probe c iter load s = Some q \<and> phase_ok s (in_key c) q
    \<and> (q = In_done sentinel_v \<longrightarrow> in_key c \<in> set (bt_keys s)) \<and> (\<forall>p. \<not> holds q p)
    \<and> (\<forall>r. q = In_done r \<longrightarrow> r = sentinel_v) \<and> (\<forall>m. q \<noteq> In_check m)"
proof -
  let ?p = "bucket_offset s (in_key c) iter + load"
  have a: "0 < numBuckets s" "iter < 3" "load < bucket_size" "passed s (in_key c) iter"
      "slots_full s (in_key c) (bucket_offset s (in_key c) iter) load"
    using assms(2) by (simp_all add: phase_ok_def)
  have p: "?p < length (bt_keys s)" using slot_bound [OF assms(1) a(1,3)] assms(1) by (simp add: table_shape_def)
  have full: "slots_full s (in_key c) (bucket_offset s (in_key c) iter) (Suc load)"
    if "bt_keys s ! ?p \<noteq> in_key c" "bt_keys s ! ?p \<noteq> hole s"
    using a(5) that by (auto simp: slots_full_def less_Suc_eq)
  have d: "(\<forall>p. \<not> holds (insert_decide iter l) p) \<and> (\<forall>r. insert_decide iter l \<noteq> In_done r \<and> insert_decide iter l \<noteq> In_check r)" for l
    by (simp add: insert_decide_def holds_def)
  have "insert_probe c iter load s =
      Some (if bt_keys s ! ?p = in_key c then In_done sentinel_v
        else if bt_keys s ! ?p = hole s then insert_decide iter load
        else if Suc load \<noteq> bucket_size then In_probe iter (Suc load) else insert_decide iter (Suc load))"
    using p by (simp add: insert_probe_def Let_def)
  moreover have "in_key c \<in> set (bt_keys s)" if "bt_keys s ! ?p = in_key c" using p that nth_mem by metis
  moreover have "phase_ok s (in_key c) (In_done sentinel_v)" by (simp add: phase_ok_def)
  moreover have "phase_ok s (in_key c) (In_probe iter (Suc load))"
    if "bt_keys s ! ?p \<noteq> in_key c" "bt_keys s ! ?p \<noteq> hole s" "Suc load \<noteq> bucket_size"
    using a full that by (simp add: phase_ok_def)
  ultimately show ?thesis
    using decide_ok [OF a(1,2,4) a(5)] decide_ok [OF a(1,2,4) full] d by (auto simp: holds_def)
qed

text \<open>A key that goes into the first free slot of its bucket is nowhere else.\<close>

lemma claim_fresh:
  assumes pl: "placed s" and ph: "phase_ok s k (In_switch iter load)"
    and h: "bt_keys s ! (bucket_offset s k iter + load) = hole s" and k: "k \<noteq> hole s" and q: "q < bt_tableSize s"
  shows "bt_keys s ! q \<noteq> k"
proof
  assume eq: "bt_keys s ! q = k"
  have a: "0 < numBuckets s" "iter < 3" "load \<le> threshold" "passed s k iter"
      "slots_full s k (bucket_offset s k iter) load"
    using ph by (simp_all add: phase_ok_def)
  obtain j l where j: "j < 3" "l \<le> threshold" "q = bucket_offset s k j + l" "passed s k j"
    using pl q eq k unfolding placed_def home_def by metis
  consider "j < iter" | "iter < j" | "iter = j" by linarith
  then show False
  proof cases
    case 1
    then show ?thesis using a(4) j(2,3) eq by (auto simp: passed_def slots_full_def)
  next
    case 2
    then show ?thesis using j(4) a(3) h by (auto simp: passed_def slots_full_def)
  next
    case 3
    obtain b where b: "b < numBuckets s" "bucket_offset s k iter = b * bucket_size" using bucket_of_offset [OF a(1)] .
    have "\<not> l < load" using a(5) 3 j(3) eq by (auto simp: slots_full_def)
    moreover have "l \<noteq> load" using 3 j(3) eq h k by auto
    ultimately have "load < l" by simp
    moreover have "prefixed s" "l < bucket_size" "bt_keys s ! (b * bucket_size + l) \<noteq> hole s"
      using pl j(2,3) b(2) 3 eq k by (simp_all add: placed_def sizes)
    ultimately show ?thesis using prefixedD(2) [of s b l load] b 3 h by simp
  qed
qed

lemma claim_placed:
  assumes pl: "placed s" and ph: "phase_ok s k (In_switch iter load)"
    and h: "bt_keys s ! (bucket_offset s k iter + load) = hole s" and k: "k \<noteq> hole s"
  defines "p \<equiv> bucket_offset s k iter + load"
  shows "p < bt_tableSize s \<and> grows s (s\<lparr>bt_keys := (bt_keys s)[p := k]\<rparr>) \<and> placed (s\<lparr>bt_keys := (bt_keys s)[p := k]\<rparr>)"
proof -
  let ?s = "s\<lparr>bt_keys := (bt_keys s)[p := k]\<rparr>"
  have a: "0 < numBuckets s" "iter < 3" "load \<le> threshold" "passed s k iter"
      "slots_full s k (bucket_offset s k iter) load"
    using ph by (simp_all add: phase_ok_def)
  have sh: "table_shape s" using pl by (simp add: placed_def)
  have p: "p < bt_tableSize s" using slot_bound [OF sh a(1)] a(3) by (simp add: p_def sizes)
  have len: "length (bt_keys s) = bt_tableSize s" using sh by (simp add: table_shape_def)
  have g: "grows s ?s" using h p len by (auto simp: grows_def p_def)
  have nth: "(bt_keys s)[p := k] ! q = (if q = p then k else bt_keys s ! q)" for q
    using p len by (simp add: nth_list_update)
  have nb: "numBuckets ?s = numBuckets s" by (simp add: numBuckets_def)
  obtain b where b: "b < numBuckets s" "bucket_offset s k iter = b * bucket_size" using bucket_of_offset [OF a(1)] .
  have "prefixed ?s"
    unfolding prefixed_def nb
  proof (intro allI impI)
    fix b' l assume b': "b' < numBuckets s" and l: "l < bucket_size" and ne: "bt_keys ?s ! (b' * bucket_size + l) \<noteq> hole ?s"
    show "l \<le> threshold \<and> (\<forall>i < l. bt_keys ?s ! (b' * bucket_size + i) \<noteq> hole ?s)"
    proof (cases "b' * bucket_size + l = p")
      case True
      then have "b' = b \<and> l = load" using slot_split [of b' l b load] l a(3) b(2) by (simp add: p_def sizes)
      then show ?thesis using a(3,5) k b(2) by (auto simp: nth slots_full_def)
    next
      case False
      then have "l \<le> threshold \<and> (\<forall>i < l. bt_keys s ! (b' * bucket_size + i) \<noteq> hole s)"
        using pl b' l ne by (simp add: nth placed_def prefixed_def)
      then show ?thesis using k by (simp add: nth)
    qed
  qed
  moreover have "table_shape ?s" using sh by (simp add: table_shape_def numBuckets_def)
  moreover have "keys_unique ?s"
    using pl claim_fresh [OF pl ph h k] by (auto simp: keys_unique_def nth placed_def)
  moreover have "home ?s (bt_keys ?s ! q) q" if "q < bt_tableSize s" "bt_keys ?s ! q \<noteq> hole ?s" for q
  proof (cases "q = p")
    case True
    have "home s k p" using a(2,3,4) unfolding home_def p_def by blast
    then show ?thesis using grows_home [OF g] True by (simp add: nth)
  next
    case False
    then have "home s (bt_keys s ! q) q" using pl that by (simp add: placed_def nth)
    then show ?thesis using grows_home [OF g] False by (simp add: nth)
  qed
  ultimately show ?thesis using p g by (simp add: placed_def)
qed

text \<open>What a move of a call in a good phase does, apart from the numbers.\<close>

definition number_ok :: "bht \<Rightarrow> in_phase \<Rightarrow> bool" where
  "number_ok s ph \<longleftrightarrow> (case ph of In_enqueue p n \<Rightarrow> unat n < bt_tableSize s | _ \<Rightarrow> True)"

lemma step_ok:
  assumes pl: "placed s" and ph: "phase_ok s (in_key c) ph" and k: "in_key c \<noteq> hole s" and n: "number_ok s ph"
  shows "\<exists>q s'. insert_step c ph s = Some (q, s') \<and> grows s s' \<and> placed s' \<and> phase_ok s' (in_key c) q"
proof -
  have sh: "table_shape s" using pl by (simp add: placed_def)
  have keys: "grows s s' \<and> placed s'" if "bt_keys s' = bt_keys s" "bt_dim s' = bt_dim s" "bt_tableSize s' = bt_tableSize s"
      "bt_hf0 s' = bt_hf0 s" "bt_hf1 s' = bt_hf1 s" "bt_hf2 s' = bt_hf2 s"
      "length (bt_indices s') = length (bt_indices s)" "length (bt_activeKeys s') = length (bt_activeKeys s)" for s'
    using pl unfolding grows_def placed_def table_shape_def prefixed_def keys_unique_def home_def passed_def
      slots_full_def bucket_offset_def numBuckets_def that by blast
  show ?thesis
  proof (cases ph)
    case (In_probe iter load)
    then show ?thesis using probe_ok [OF sh] ph pl by (fastforce simp: insert_step_def grows_same)
  next
    case (In_switch iter load)
    let ?p = "bucket_offset s (in_key c) iter + load"
    have a: "0 < numBuckets s" "load \<le> threshold" using ph In_switch by (simp_all add: phase_ok_def)
    have p: "?p < length (bt_keys s)" using slot_bound [OF sh a(1)] a(2) sh by (simp add: table_shape_def sizes)
    show ?thesis
    proof (cases "bt_keys s ! ?p = hole s")
      case True
      let ?s = "s\<lparr>bt_keys := (bt_keys s)[?p := in_key c]\<rparr>"
      have c: "?p < bt_tableSize s" "grows s ?s" "placed ?s"
        using claim_placed [OF pl _ True k] ph In_switch by simp_all
      have "phase_ok ?s (in_key c) (if in_index c = sentinel_v then In_count ?p else In_store ?p (in_index c))"
        using c(1) p by (simp add: phase_ok_def)
      then show ?thesis using c True p In_switch by (simp add: insert_step_def insert_switch_def Let_def)
    next
      case False
      have "phase_ok s (in_key c) (In_probe iter load)"
        using ph In_switch by (simp add: phase_ok_def sizes)
      then show ?thesis using False p In_switch pl grows_same by (simp add: insert_step_def insert_switch_def Let_def)
    qed
  next
    case (In_count p)
    then show ?thesis using keys ph by (simp add: insert_step_def phase_ok_def)
  next
    case (In_store p m)
    then have "p < length (bt_indices s)" using ph sh by (simp add: phase_ok_def table_shape_def)
    then show ?thesis using In_store keys ph by (simp add: insert_step_def insert_store_def phase_ok_def)
  next
    case (In_enqueue p m)
    then have m: "unat m < bt_tableSize s" "bt_tableSize s < 2 ^ 31" "bt_tableSize s \<le> length (bt_activeKeys s)"
      using n sh by (simp_all add: number_ok_def table_shape_def)
    then have "0 \<le> sint m" using small_index [of m] by simp
    then show ?thesis using In_enqueue m keys ph by (simp add: insert_step_def insert_enqueue_def phase_ok_def)
  next
    case (In_check m)
    then show ?thesis using keys by (auto simp: insert_step_def insert_check_def phase_ok_def)
  next
    case In_fail
    then show ?thesis using keys by (simp add: insert_step_def phase_ok_def)
  next
    case (In_done r)
    then show ?thesis using pl grows_same by (simp add: insert_step_def phase_ok_def)
  qed
qed

end
