(* ===== verification/Hash_Table_Batch.thy ===== *)
theory Hash_Table_Batch
  imports Hash_Table_Inv
begin

text \<open>
  The numbers of the keys while a batch of insertions runs. A slot in use is held by at most one call,
  from the exchange that claims it until its index and its active key are stored; its number is
  what the holder has taken, or what is stored in the slot.
\<close>

section \<open>Holders\<close>

definition holder :: "batch \<Rightarrow> nat \<Rightarrow> in_phase option" where
  "holder ps p = find (\<lambda>ph. holds ph p) (map snd ps)"

definition holders_unique :: "batch \<Rightarrow> bool" where
  "holders_unique ps \<longleftrightarrow> (\<forall>i < length ps. \<forall>j < length ps. \<forall>p. holds (snd (ps ! i)) p \<longrightarrow> holds (snd (ps ! j)) p \<longrightarrow> i = j)"

lemma holder_None: "holder ps p = None \<longleftrightarrow> (\<forall>i < length ps. \<not> holds (snd (ps ! i)) p)"
proof -
  have "holder ps p = None \<longleftrightarrow> (\<forall>x \<in> set ps. \<not> holds (snd x) p)" by (auto simp: holder_def find_None_iff)
  then show ?thesis by (simp only: all_set_conv_all_nth)
qed

lemma holder_NoneI: "(\<And>j. j < length ps \<Longrightarrow> \<not> holds (snd (ps ! j)) p) \<Longrightarrow> holder ps p = None"
  by (simp add: holder_None)

lemma holder_NoneD: "holder ps p = None \<Longrightarrow> j < length ps \<Longrightarrow> \<not> holds (snd (ps ! j)) p"
  by (simp add: holder_None)

lemma holder_Some:
  "holders_unique ps \<Longrightarrow> i < length ps \<Longrightarrow> holds (snd (ps ! i)) p \<Longrightarrow> holder ps p = Some (snd (ps ! i))"
proof -
  assume a: "holders_unique ps" "i < length ps" "holds (snd (ps ! i)) p"
  then obtain x where x: "holder ps p = Some x" using holder_None [of ps p] by fastforce
  then obtain j where "j < length ps" "x = snd (ps ! j)" "holds x p"
    by (auto simp: holder_def find_Some_iff)
  then show ?thesis using a x unfolding holders_unique_def by blast
qed

lemma holder_holds: "holder ps p = Some x \<Longrightarrow> holds x p \<and> (\<exists>i < length ps. x = snd (ps ! i))"
  by (auto simp: holder_def find_Some_iff)

lemma holder_same_slots:
  assumes u: "holders_unique ps" and i: "i < length ps" and same: "\<And>p. holds q p = holds (snd (ps ! i)) p"
  shows "holders_unique (ps[i := (c, q)])"
    and "holder (ps[i := (c, q)]) p = (if holds q p then Some q else holder ps p)"
proof -
  have h: "holds (snd (ps[i := (c, q)] ! j)) r = holds (snd (ps ! j)) r" if "j < length ps" for j r
    using i same by (simp add: nth_list_update)
  show uu: "holders_unique (ps[i := (c, q)])" using u h by (auto simp: holders_unique_def)
  show "holder (ps[i := (c, q)]) p = (if holds q p then Some q else holder ps p)"
  proof (cases "holder ps p")
    case None
    have "holder (ps[i := (c, q)]) p = None"
      using h holder_NoneD [OF None] by (intro holder_NoneI) (simp del: list_update_both)
    then show ?thesis using None i same holder_NoneD [OF None i] by simp
  next
    case (Some x)
    then obtain j where j: "x = snd (ps ! j)" "j < length ps" "holds x p" using holder_holds by blast
    have "holds (snd (ps[i := (c, q)] ! j)) p" using h [OF j(2), of p] j by (simp del: list_update_both)
    then have new: "holder (ps[i := (c, q)]) p = Some (snd (ps[i := (c, q)] ! j))"
      using holder_Some [OF uu, of j p] j(2) by (simp del: list_update_both)
    show ?thesis
    proof (cases "j = i")
      case True
      then show ?thesis using new j i same [of p] by simp
    next
      case False
      then have "\<not> holds q p" using u i j same [of p] unfolding holders_unique_def by blast
      then show ?thesis using new Some False j i by simp
    qed
  qed
qed

lemma holder_claims:
  assumes u: "holders_unique ps" and i: "i < length ps" and old: "\<And>p. \<not> holds (snd (ps ! i)) p"
    and new: "\<And>p. holds q p = (p = r)" and free: "holder ps r = None"
  shows "holders_unique (ps[i := (c, q)])" and "holder (ps[i := (c, q)]) = (holder ps)(r \<mapsto> q)"
proof -
  have h: "holds (snd (ps[i := (c, q)] ! j)) p = (if j = i then p = r else holds (snd (ps ! j)) p)" if "j < length ps" for j p
    using i new by (simp add: nth_list_update)
  show uu: "holders_unique (ps[i := (c, q)])"
    using u h free by (auto simp: holders_unique_def holder_None)
  show "holder (ps[i := (c, q)]) = (holder ps)(r \<mapsto> q)"
  proof (rule ext)
    fix p
    show "holder (ps[i := (c, q)]) p = ((holder ps)(r \<mapsto> q)) p"
    proof (cases "p = r")
      case True
      then show ?thesis using holder_Some [OF uu, of i p] new i by simp
    next
      case False
      then show ?thesis
      proof (cases "holder ps p")
        case None
        have "holder (ps[i := (c, q)]) p = None"
          using h holder_NoneD [OF None] False by (intro holder_NoneI) (simp del: list_update_both)
        then show ?thesis using None False by simp
      next
        case (Some x)
        then obtain j where j: "x = snd (ps ! j)" "j < length ps" "holds x p" using holder_holds by blast
        then have "j \<noteq> i" using old by auto
        then show ?thesis using holder_Some [OF uu, of j p] h j Some False by simp
      qed
    qed
  qed
qed

lemma holder_releases:
  assumes u: "holders_unique ps" and i: "i < length ps" and old: "\<And>p. holds (snd (ps ! i)) p = (p = r)"
    and new: "\<And>p. \<not> holds q p"
  shows "holders_unique (ps[i := (c, q)])" and "holder (ps[i := (c, q)]) = (holder ps)(r := None)"
proof -
  have h: "holds (snd (ps[i := (c, q)] ! j)) p = (j \<noteq> i \<and> holds (snd (ps ! j)) p)" if "j < length ps" for j p
    using i new by (simp add: nth_list_update)
  show uu: "holders_unique (ps[i := (c, q)])" using u h by (auto simp: holders_unique_def)
  show "holder (ps[i := (c, q)]) = (holder ps)(r := None)"
  proof (rule ext)
    fix p
    show "holder (ps[i := (c, q)]) p = ((holder ps)(r := None)) p"
    proof (cases "p = r")
      case True
      have "\<not> holds (snd (ps ! j)) r" if "j < length ps" "j \<noteq> i" for j
        using that u i old unfolding holders_unique_def by blast
      then have "holder (ps[i := (c, q)]) r = None"
        using h by (intro holder_NoneI) (auto simp del: list_update_both)
      then show ?thesis using True by simp
    next
      case False
      then show ?thesis
      proof (cases "holder ps p")
        case None
        have "holder (ps[i := (c, q)]) p = None"
          using h holder_NoneD [OF None] by (intro holder_NoneI) (simp del: list_update_both)
        then show ?thesis using None False by simp
      next
        case (Some x)
        then obtain j where j: "x = snd (ps ! j)" "j < length ps" "holds x p" using holder_holds by blast
        then have "j \<noteq> i" using old False by auto
        then show ?thesis using holder_Some [OF uu, of j p] h j Some False by simp
      qed
    qed
  qed
qed

section \<open>Numbers\<close>

text \<open>The number of a slot in use, from its holder or from the array of indices.\<close>

fun slot_number :: "in_phase option \<Rightarrow> u32 \<Rightarrow> u32 option" where
  "slot_number None i = Some i"
| "slot_number (Some (In_store q n)) i = Some n"
| "slot_number (Some (In_enqueue q n)) i = Some n"
| "slot_number (Some ph) i = None"

definition number :: "(nat \<Rightarrow> in_phase option) \<Rightarrow> bht \<Rightarrow> nat \<Rightarrow> u32 option" where
  "number h s p =
     (if p < bt_tableSize s \<and> bt_keys s ! p \<noteq> hole s then slot_number (h p) (bt_indices s ! p) else None)"

text \<open>The part of the invariant that every batch shares.\<close>

definition batch_ok :: "batch \<Rightarrow> bht \<Rightarrow> bool" where
  "batch_ok ps s \<longleftrightarrow> placed s \<and> holders_unique ps
     \<and> (\<forall>i < length ps. phase_ok s (in_key (fst (ps ! i))) (snd (ps ! i)) \<and> in_key (fst (ps ! i)) \<noteq> hole s)
     \<and> (\<forall>i < length ps. \<forall>p n. snd (ps ! i) = In_enqueue p n \<longrightarrow> bt_indices s ! p = n)"

lemma batch_okD:
  assumes "batch_ok ps s"
  shows "placed s" and "holders_unique ps" and "i < length ps \<Longrightarrow> phase_ok s (in_key (fst (ps ! i))) (snd (ps ! i))"
    and "i < length ps \<Longrightarrow> in_key (fst (ps ! i)) \<noteq> hole s"
    and "i < length ps \<Longrightarrow> snd (ps ! i) = In_enqueue p n \<Longrightarrow> bt_indices s ! p = n"
  using assms unfolding batch_ok_def by blast+

lemma holder_in_use: "batch_ok ps s \<Longrightarrow> holder ps p \<noteq> None \<Longrightarrow> p < bt_tableSize s \<and> bt_keys s ! p \<noteq> hole s"
proof -
  assume b: "batch_ok ps s" and "holder ps p \<noteq> None"
  then obtain i where i: "i < length ps" "holds (snd (ps ! i)) p" using holder_holds by fastforce
  then have "p < bt_tableSize s" "bt_keys s ! p = in_key (fst (ps ! i))"
    using batch_okD(3) [OF b i(1)] by (auto simp: phase_ok_def holds_def split: in_phase.splits)
  then show ?thesis using batch_okD(4) [OF b i(1)] by simp
qed

section \<open>Effects of a move\<close>

text \<open>The numbers for which the insertion reports a failure after it has stored the key.\<close>

definition near_end :: "bht \<Rightarrow> u32 \<Rightarrow> bool" where
  "near_end s n \<longleftrightarrow> of_nat (bt_tableSize s) - 20 \<le> n"

text \<open>What a move of a call does to the table and to the holders of slots.\<close>

inductive effect :: "insertion \<Rightarrow> bht \<Rightarrow> (nat \<Rightarrow> in_phase option) \<Rightarrow> in_phase \<Rightarrow> in_phase \<Rightarrow> bht
    \<Rightarrow> (nat \<Rightarrow> in_phase option) \<Rightarrow> bool" for c s h where
  look: "effect c s h ph q s h"
    if "ph \<in> {In_probe iter load, In_switch iter load}" and "\<And>n. q \<noteq> In_check n" and "\<And>r. q = In_done r \<Longrightarrow> r = sentinel_v \<and> in_key c \<in> set (bt_keys s)"
      and "\<And>p. \<not> holds q p"
| check: "effect c s h (In_check n) (In_done n) s h"
    if "\<not> near_end s n"
| check_fails: "effect c s h (In_check n) (In_done failure_token_v) (s\<lparr>bt_buildSuccess := False\<rparr>) h"
    if "near_end s n"
| fails: "effect c s h In_fail (In_done failure_token_v) (s\<lparr>bt_buildSuccess := False\<rparr>) h"
    if "passed s (in_key c) 3"
| claim: "effect c s h (In_switch iter load) q (s\<lparr>bt_keys := (bt_keys s)[p := in_key c]\<rparr>) (h(p \<mapsto> q))"
    if "q = (if in_index c = sentinel_v then In_count p else In_store p (in_index c))"
      and "p < bt_tableSize s" and "bt_keys s ! p = hole s" and "h p = None" and "\<And>r. bt_keys s ! r \<noteq> in_key c \<or> bt_tableSize s \<le> r"
| count: "effect c s h (In_count p) (In_store p (bt_cnt s)) (s\<lparr>bt_cnt := bt_cnt s + 1\<rparr>) (h(p \<mapsto> In_store p (bt_cnt s)))"
    if "h p = Some (In_count p)"
| store: "effect c s h (In_store p n) (In_enqueue p n) (s\<lparr>bt_indices := (bt_indices s)[p := n]\<rparr>) (h(p \<mapsto> In_enqueue p n))"
    if "h p = Some (In_store p n)" and "in_enqueueKey c"
| store_last: "effect c s h (In_store p n) (In_check n) (s\<lparr>bt_indices := (bt_indices s)[p := n]\<rparr>) (h(p := None))"
    if "h p = Some (In_store p n)" and "\<not> in_enqueueKey c" and "bt_keys s ! p = in_key c"
| enqueue: "effect c s h (In_enqueue p n) (In_check n)
      (s\<lparr>bt_activeKeys := (bt_activeKeys s)[unat n := in_key c]\<rparr>) (h(p := None))"
    if "h p = Some (In_enqueue p n)" and "bt_indices s ! p = n" and "bt_keys s ! p = in_key c"

lemma holds_simps [simp]:
  "holds (In_probe iter load) p = False" "holds (In_switch iter load) p = False" "holds (In_count r) p = (r = p)"
  "holds (In_store r n) p = (r = p)" "holds (In_enqueue r n) p = (r = p)" "holds (In_check n) p = False"
  "holds In_fail p = False" "holds (In_done r') p = False"
  by (simp_all add: holds_def)

lemma batch_ok_update:
  assumes b: "batch_ok ps s" and g: "grows s s'" and pl: "placed s'" and u: "holders_unique (ps[i := (c, q)])"
    and q: "phase_ok s' (in_key c) q" and c: "in_key c \<noteq> hole s"
    and idx: "\<And>p n. q = In_enqueue p n \<Longrightarrow> bt_indices s' ! p = n"
    and same: "\<And>j p n. j < length ps \<Longrightarrow> j \<noteq> i \<Longrightarrow> snd (ps ! j) = In_enqueue p n \<Longrightarrow> bt_indices s' ! p = bt_indices s ! p"
  shows "batch_ok (ps[i := (c, q)]) s'"
proof -
  have hole: "hole s' = hole s" using g by (simp add: grows_def)
  have "phase_ok s' (in_key (fst (ps[i := (c, q)] ! j))) (snd (ps[i := (c, q)] ! j))
      \<and> in_key (fst (ps[i := (c, q)] ! j)) \<noteq> hole s'
      \<and> (\<forall>p n. snd (ps[i := (c, q)] ! j) = In_enqueue p n \<longrightarrow> bt_indices s' ! p = n)" if j: "j < length ps" for j
  proof (cases "j = i")
    case True
    then show ?thesis using j q c hole idx by simp
  next
    case False
    then show ?thesis
      using j grows_phase [OF g batch_okD(4) [OF b j] batch_okD(3) [OF b j]] batch_okD(4,5) [OF b j] same [OF j] hole by simp
  qed
  then show ?thesis using pl u by (simp add: batch_ok_def)
qed

lemma batch_step:
  assumes b: "batch_ok ps s" and i: "i < length ps" and th: "ps ! i = (c, ph)" and n: "number_ok s ph"
    and active: "\<not> returned ph"
  shows "\<exists>q s'. insert_step c ph s = Some (q, s') \<and> grows s s' \<and> batch_ok (ps[i := (c, q)]) s'
    \<and> effect c s (holder ps) ph q s' (holder (ps[i := (c, q)]))"
proof -
  have pl: "placed s" and u: "holders_unique ps" and ph: "phase_ok s (in_key c) ph" and k: "in_key c \<noteq> hole s"
    using batch_okD [OF b] i th by force+
  have sh: "table_shape s" using pl by (simp add: placed_def)
  obtain q s' where st: "insert_step c ph s = Some (q, s')" "grows s s'" "placed s'" "phase_ok s' (in_key c) q"
    using step_ok [OF pl ph k n] by blast
  have others: "p \<noteq> r" if "j < length ps" "j \<noteq> i" "snd (ps ! j) = In_enqueue p m" "holds ph r" for j p m r
    using u i th that unfolding holders_unique_def by fastforce
  have fin: ?thesis if "holders_unique (ps[i := (c, q)])" "effect c s (holder ps) ph q s' (holder (ps[i := (c, q)]))"
      "\<And>p n. q = In_enqueue p n \<Longrightarrow> bt_indices s' ! p = n"
      "\<And>j p n. j < length ps \<Longrightarrow> j \<noteq> i \<Longrightarrow> snd (ps ! j) = In_enqueue p n \<Longrightarrow> bt_indices s' ! p = bt_indices s ! p"
  proof -
    have "batch_ok (ps[i := (c, q)]) s'"
      by (rule batch_ok_update [OF b st(2,3) that(1) st(4) k]) (erule that(3), rule that(4))
    then show ?thesis using st(1,2) that(2) by blast
  qed
  have quiet: "holders_unique (ps[i := (c, q)]) \<and> holder (ps[i := (c, q)]) = holder ps"
    if "\<And>p. \<not> holds ph p" "\<And>p. \<not> holds q p"
    using holder_same_slots [OF u i, of q c] th that by auto
  show ?thesis
  proof (cases ph)
    case (In_probe iter load)
    have p: "\<And>m. q \<noteq> In_check m" "\<And>r. q = In_done r \<Longrightarrow> r = sentinel_v \<and> in_key c \<in> set (bt_keys s)"
        "\<And>p. \<not> holds q p" "s' = s"
      using probe_ok [OF sh, of c iter load] ph st(1) unfolding In_probe by (auto simp: insert_step_def)
    have "effect c s (holder ps) ph q s (holder ps)" using In_probe p(1-3) by (intro effect.look) auto
    then have "holders_unique (ps[i := (c, q)])" "effect c s (holder ps) ph q s' (holder (ps[i := (c, q)]))"
      using quiet In_probe p by auto
    then show ?thesis by (rule fin) (use p(4) In_probe p in auto)
  next
    case (In_switch iter load)
    let ?p = "bucket_offset s (in_key c) iter + load"
    have len: "\<not> length (bt_keys s) \<le> ?p" using st(1) In_switch by (auto simp: insert_step_def insert_switch_def Let_def)
    show ?thesis
    proof (cases "bt_keys s ! ?p = hole s")
      case True
      have q: "q = (if in_index c = sentinel_v then In_count ?p else In_store ?p (in_index c))"
          "s' = s\<lparr>bt_keys := (bt_keys s)[?p := in_key c]\<rparr>"
        using st(1) len True In_switch by (auto simp: insert_step_def insert_switch_def Let_def)
      have free: "holder ps ?p = None" using holder_in_use [OF b, of ?p] True by blast
      have new: "holds q p = (p = ?p)" for p using q(1) by auto
      have fresh: "bt_keys s ! r \<noteq> in_key c \<or> bt_tableSize s \<le> r" for r
        using claim_fresh [OF pl _ True k, of r] ph In_switch by (cases "r < bt_tableSize s") auto
      have "?p < bt_tableSize s" using len sh by (simp add: table_shape_def)
      then have "effect c s (holder ps) ph q s' ((holder ps)(?p \<mapsto> q))"
        unfolding q(2) In_switch using q(1) True free fresh by (intro effect.claim)
      moreover have "\<And>p. \<not> holds (snd (ps ! i)) p" using th In_switch by simp
      ultimately have "holders_unique (ps[i := (c, q)])" "effect c s (holder ps) ph q s' (holder (ps[i := (c, q)]))"
        using holder_claims [OF u i _ new free, of c] by auto
      then show ?thesis by (rule fin) (use q in \<open>auto split: if_splits\<close>)
    next
      case False
      then have q: "q = In_probe iter load" "s' = s"
        using st(1) len In_switch by (auto simp: insert_step_def insert_switch_def Let_def)
      then have "effect c s (holder ps) ph q s (holder ps)" using In_switch by (intro effect.look) auto
      then have "holders_unique (ps[i := (c, q)])" "effect c s (holder ps) ph q s' (holder (ps[i := (c, q)]))"
        using quiet In_switch q by auto
      then show ?thesis by (rule fin) (use q in auto)
    qed
  next
    case (In_count p)
    then have q: "q = In_store p (bt_cnt s)" "s' = s\<lparr>bt_cnt := bt_cnt s + 1\<rparr>" using st(1) by (simp_all add: insert_step_def)
    have h: "holder ps p = Some (In_count p)" using holder_Some [OF u i, of p] th In_count by simp
    have up: "holders_unique (ps[i := (c, q)])" "holder (ps[i := (c, q)]) = (holder ps)(p \<mapsto> q)"
      using holder_same_slots [OF u i, of q c] th In_count q by auto
    moreover have "effect c s (holder ps) ph q s' ((holder ps)(p \<mapsto> q))" unfolding q In_count using h by (rule effect.count)
    ultimately have "holders_unique (ps[i := (c, q)])" "effect c s (holder ps) ph q s' (holder (ps[i := (c, q)]))" by simp_all
    then show ?thesis by (rule fin) (use q in auto)
  next
    case (In_store p m)
    have lens: "p < length (bt_indices s)" using ph In_store sh by (simp add: phase_ok_def table_shape_def)
    have q: "q = (if in_enqueueKey c then In_enqueue p m else In_check m)" "s' = s\<lparr>bt_indices := (bt_indices s)[p := m]\<rparr>"
      using st(1) In_store by (auto simp: insert_step_def insert_store_def split: if_splits)
    have h: "holder ps p = Some (In_store p m)" using holder_Some [OF u i, of p] th In_store by simp
    have o: "bt_indices s' ! r = bt_indices s ! r" if "j < length ps" "j \<noteq> i" "snd (ps ! j) = In_enqueue r l" for j r l
      using others [OF that, of p] In_store q(2) by auto
    show ?thesis
    proof (cases "in_enqueueKey c")
      case True
      then have up: "holders_unique (ps[i := (c, q)])" "holder (ps[i := (c, q)]) = (holder ps)(p \<mapsto> q)"
        using holder_same_slots [OF u i, of q c] th In_store q by auto
      moreover have "effect c s (holder ps) ph q s' ((holder ps)(p \<mapsto> q))"
        using effect.store [where h = "holder ps" and p = p and n = m, OF h True] q True In_store by simp
      ultimately have "holders_unique (ps[i := (c, q)])" "effect c s (holder ps) ph q s' (holder (ps[i := (c, q)]))" by simp_all
      then show ?thesis by (rule fin) (use q True lens o in auto)
    next
      case False
      then have up: "holders_unique (ps[i := (c, q)])" "holder (ps[i := (c, q)]) = (holder ps)(p := None)"
        using holder_releases [OF u i, of p q c] th In_store q by auto
      moreover have "bt_keys s ! p = in_key c" using ph In_store by (simp add: phase_ok_def)
      ultimately have "holders_unique (ps[i := (c, q)])" "effect c s (holder ps) ph q s' (holder (ps[i := (c, q)]))"
        using effect.store_last [where h = "holder ps" and p = p and n = m, OF h False] q False In_store by simp_all
      then show ?thesis by (rule fin) (use q False o in auto)
    qed
  next
    case (In_enqueue p m)
    have q: "q = In_check m" "s' = s\<lparr>bt_activeKeys := (bt_activeKeys s)[unat m := in_key c]\<rparr>"
      using st(1) In_enqueue by (auto simp: insert_step_def insert_enqueue_def split: if_splits)
    have h: "holder ps p = Some (In_enqueue p m)" using holder_Some [OF u i, of p] th In_enqueue by simp
    have idx: "bt_indices s ! p = m" using batch_okD(5) [OF b i] th In_enqueue by simp
    have key: "bt_keys s ! p = in_key c" using ph In_enqueue by (simp add: phase_ok_def)
    have up: "holders_unique (ps[i := (c, q)])" "holder (ps[i := (c, q)]) = (holder ps)(p := None)"
      using holder_releases [OF u i, of p q c] th In_enqueue q by auto
    then have "holders_unique (ps[i := (c, q)])" "effect c s (holder ps) ph q s' (holder (ps[i := (c, q)]))"
      using effect.enqueue [where h = "holder ps" and p = p and n = m, OF h idx key] q In_enqueue by simp_all
    then show ?thesis by (rule fin) (use q in auto)
  next
    case (In_check m)
    have q: "\<not> near_end s m \<and> q = In_done m \<and> s' = s \<or> near_end s m \<and> q = In_done failure_token_v \<and> s' = s\<lparr>bt_buildSuccess := False\<rparr>"
      using st(1) In_check by (auto simp: insert_step_def insert_check_def near_end_def split: if_splits)
    then have "holders_unique (ps[i := (c, q)])" "effect c s (holder ps) ph q s' (holder (ps[i := (c, q)]))"
      using quiet In_check effect.check effect.check_fails by auto
    then show ?thesis by (rule fin) (use q in auto)
  next
    case In_fail
    then have q: "q = In_done failure_token_v" "s' = s\<lparr>bt_buildSuccess := False\<rparr>" using st(1) by (simp_all add: insert_step_def)
    then have "holders_unique (ps[i := (c, q)])" "effect c s (holder ps) ph q s' (holder (ps[i := (c, q)]))"
      using quiet In_fail effect.fails ph by (auto simp: phase_ok_def)
    then show ?thesis by (rule fin) (use q in auto)
  next
    case (In_done r)
    then show ?thesis using active by (simp add: returned_def)
  qed
qed

end
