(* ===== verification/Hash_Table_Props.thy ===== *)
theory Hash_Table_Props
  imports Hash_Table_Batch
begin

text \<open>
  What the hash table promises: insertion numbers the keys densely and once, lookup finds exactly the
  keys and their numbers, growing and reordering keep them.
\<close>

section \<open>Tables at rest\<close>

definition entries :: "bht \<Rightarrow> key list" where
  "entries s = take (unat (bt_cnt s)) (bt_activeKeys s)"

text \<open>Without calls under way the numbers are the stored indices.\<close>

definition settled :: "bht \<Rightarrow> bool" where
  "settled s \<longleftrightarrow> placed s \<and> (\<forall>p n. number (\<lambda>p. None) s p = Some n \<longrightarrow>
       unat n < unat (bt_cnt s) \<and> bt_activeKeys s ! unat n = bt_keys s ! p)
     \<and> (\<forall>m < unat (bt_cnt s). \<exists>p. number (\<lambda>p. None) s p = Some (of_nat m))"

section \<open>Numbers and effects\<close>

lemma number_Some: "number h s p = Some n \<Longrightarrow> p < bt_tableSize s \<and> bt_keys s ! p \<noteq> hole s"
  by (simp add: number_def split: if_splits)

lemma effect_number:
  assumes e: "effect c s h ph q s' h'" and sh: "table_shape s" and auto: "in_index c = sentinel_v"
    and use: "\<And>p. h p \<noteq> None \<Longrightarrow> p < bt_tableSize s \<and> bt_keys s ! p \<noteq> hole s" and c: "in_key c \<noteq> hole s"
  shows "number h' s' = (case ph of In_count p \<Rightarrow> (number h s)(p \<mapsto> bt_cnt s) | _ \<Rightarrow> number h s)"
  using e
proof cases
  case (claim p iter load)
  then show ?thesis using auto sh by (auto simp: number_def fun_eq_iff table_shape_def)
next
  case (count p)
  then show ?thesis using use [of p] by (auto simp: number_def fun_eq_iff)
next
  case (store p n)
  then show ?thesis using use [of p] sh by (auto simp: number_def fun_eq_iff table_shape_def)
next
  case (store_last p n)
  then show ?thesis using use [of p] sh by (auto simp: number_def fun_eq_iff table_shape_def)
next
  case (enqueue p n)
  then show ?thesis using use [of p] sh by (auto simp: number_def fun_eq_iff table_shape_def)
qed (auto simp: number_def fun_eq_iff)

lemma effect_keeps:
  assumes e: "effect c s h ph q s' h'" and n: "number h s p = Some n" and free: "h p = None"
  shows "h' p = None"
  using e
proof cases
  case (claim r iter load)
  then show ?thesis using number_Some [OF n] free by auto
qed (use free in auto)

lemma keys_grow: "grows s s' \<Longrightarrow> table_shape s \<Longrightarrow> table_shape s' \<Longrightarrow> k \<in> set (bt_keys s) \<Longrightarrow> k \<noteq> hole s \<Longrightarrow> k \<in> set (bt_keys s')"
  unfolding grows_def table_shape_def by (metis in_set_conv_nth)

text \<open>The key has a number that was given out since the counter stood at \<open>c0\<close>.\<close>

definition has_number :: "nat \<Rightarrow> (nat \<Rightarrow> in_phase option) \<Rightarrow> bht \<Rightarrow> key \<Rightarrow> u32 \<Rightarrow> bool" where
  "has_number c0 h s k n \<longleftrightarrow> (\<exists>p. number h s p = Some n \<and> h p = None \<and> bt_keys s ! p = k) \<and> c0 \<le> unat n"

text \<open>Why an insertion fails; without buckets it does not clear the flag.\<close>

definition insert_failed :: "nat \<Rightarrow> (nat \<Rightarrow> in_phase option) \<Rightarrow> bht \<Rightarrow> key \<Rightarrow> bool" where
  "insert_failed c0 h s k \<longleftrightarrow> numBuckets s = 0
     \<or> \<not> bt_buildSuccess s \<and> (passed s k 3 \<or> (\<exists>n. has_number c0 h s k n \<and> near_end s n))"

definition outcome :: "nat \<Rightarrow> (nat \<Rightarrow> in_phase option) \<Rightarrow> bht \<Rightarrow> key \<Rightarrow> in_phase \<Rightarrow> bool" where
  "outcome c0 h s k ph \<longleftrightarrow> (case ph of
     In_check n \<Rightarrow> has_number c0 h s k n
   | In_done r \<Rightarrow> r = sentinel_v \<and> k \<in> set (bt_keys s) \<or> has_number c0 h s k r \<and> \<not> near_end s r
       \<or> r = failure_token_v \<and> insert_failed c0 h s k
   | _ \<Rightarrow> True)"

definition auto_insertion :: "key set \<Rightarrow> insertion \<Rightarrow> bool" where
  "auto_insertion K c \<longleftrightarrow> in_key c \<in> K \<and> in_index c = sentinel_v \<and> in_enqueueKey c"

definition numbers_ok :: "bht \<Rightarrow> (nat \<Rightarrow> in_phase option) \<Rightarrow> bht \<Rightarrow> bool" where
  "numbers_ok s0 h s \<longleftrightarrow>
     (\<forall>p n. number h s p = Some n \<longrightarrow> unat n < unat (bt_cnt s))
   \<and> (\<forall>p q n. number h s p = Some n \<longrightarrow> number h s q = Some n \<longrightarrow> p = q)
   \<and> (\<forall>m < unat (bt_cnt s). \<exists>p. number h s p = Some (of_nat m))
   \<and> (\<forall>p n. number h s p = Some n \<longrightarrow> h p = None \<longrightarrow> bt_activeKeys s ! unat n = bt_keys s ! p)
   \<and> (\<forall>p n. h p \<in> {Some (In_store p n), Some (In_enqueue p n)} \<longrightarrow> unat (bt_cnt s0) \<le> unat n)
   \<and> unat (bt_cnt s0) \<le> unat (bt_cnt s)
   \<and> (\<forall>m < unat (bt_cnt s0). bt_activeKeys s ! m = bt_activeKeys s0 ! m)"

definition auto_inv :: "bht \<Rightarrow> key set \<Rightarrow> batch \<Rightarrow> bht \<Rightarrow> bool" where
  "auto_inv s0 K ps s \<longleftrightarrow> batch_ok ps s \<and> grows s0 s \<and> numbers_ok s0 (holder ps) s
   \<and> (\<forall>i < length ps. auto_insertion K (fst (ps ! i))
        \<and> outcome (unat (bt_cnt s0)) (holder ps) s (in_key (fst (ps ! i))) (snd (ps ! i)))
   \<and> set (bt_keys s) \<subseteq> set (bt_keys s0) \<union> K"

lemma numbers_bound:
  assumes "numbers_ok s0 h s"
  shows "unat (bt_cnt s) \<le> bt_tableSize s"
proof -
  define f where "f m = (SOME p. number h s p = Some (of_nat m))" for m
  have f: "number h s (f m) = Some (of_nat m)" if "m < unat (bt_cnt s)" for m
    unfolding f_def by (rule someI_ex) (use assms that in \<open>simp add: numbers_ok_def\<close>)
  have "inj_on f {0..<unat (bt_cnt s)}"
  proof (rule inj_onI)
    fix m n assume "m \<in> {0..<unat (bt_cnt s)}" "n \<in> {0..<unat (bt_cnt s)}" and eq: "f m = f n"
    then have lt: "m < unat (bt_cnt s)" "n < unat (bt_cnt s)" by simp_all
    have "unat (bt_cnt s) < 2 ^ 32" using unsigned_less [of "bt_cnt s", where 'a = nat] by simp
    then have "m < 2 ^ 32" "n < 2 ^ 32" using lt by simp_all
    moreover have "(of_nat m :: u32) = of_nat n" using f [OF lt(1)] f [OF lt(2)] eq by simp
    ultimately show "m = n" using u32_of_nat_inj [of m n] by blast
  qed
  moreover have "f ` {0..<unat (bt_cnt s)} \<subseteq> {0..<bt_tableSize s}" using f number_Some by fastforce
  ultimately have "card {0..<unat (bt_cnt s)} \<le> card {0..<bt_tableSize s}" by (intro card_inj_on_le) auto
  then show ?thesis by simp
qed

lemma numbers_step:
  assumes e: "effect c s h ph q s' h'" and sh: "table_shape s" and auto: "auto_insertion K c"
    and use: "\<And>p. h p \<noteq> None \<Longrightarrow> p < bt_tableSize s \<and> bt_keys s ! p \<noteq> hole s" and c: "in_key c \<noteq> hole s"
    and n: "numbers_ok s0 h s" and s0: "bt_tableSize s \<le> length (bt_activeKeys s)"
  shows "numbers_ok s0 h' s'"
proof -
  have eff: "number h' s' = (case ph of In_count p \<Rightarrow> (number h s)(p \<mapsto> bt_cnt s) | _ \<Rightarrow> number h s)"
    using effect_number [OF e sh _ use c] auto by (simp add: auto_insertion_def)
  have bound: "unat (bt_cnt s) < 2 ^ 31" using numbers_bound [OF n] sh by (simp add: table_shape_def)
  have n1: "number h s p = Some m \<Longrightarrow> unat m < unat (bt_cnt s)" for p m using n unfolding numbers_ok_def by blast
  have n2: "number h s p = Some m \<Longrightarrow> number h s r = Some m \<Longrightarrow> p = r" for p r m using n unfolding numbers_ok_def by blast
  have n4: "number h s p = Some m \<Longrightarrow> h p = None \<Longrightarrow> bt_activeKeys s ! unat m = bt_keys s ! p" for p m
    using n unfolding numbers_ok_def by blast
  have n6: "h p \<in> {Some (In_store p m), Some (In_enqueue p m)} \<Longrightarrow> unat (bt_cnt s0) \<le> unat m" for p m
    using n unfolding numbers_ok_def by blast
  have n5: "unat (bt_cnt s0) \<le> unat (bt_cnt s)" using n unfolding numbers_ok_def by blast
  show ?thesis
    using e
  proof cases
    case (claim p iter load)
    have "number h s p = None" using claim by (simp add: number_def)
    then show ?thesis
      using n claim eff sh auto number_Some [of h s]
      by (auto simp: numbers_ok_def auto_insertion_def table_shape_def nth_list_update split: if_splits)
  next
    case (count p)
    have suc: "unat (bt_cnt s + 1) = Suc (unat (bt_cnt s))" using bound by (simp add: unat_word_ariths)
    have none: "number h s p = None" using count use [of p] by (simp add: number_def)
    have num: "number h' s' = (number h s)(p \<mapsto> bt_cnt s)" using eff count by simp
    have cnt: "unat (bt_cnt s') = Suc (unat (bt_cnt s))" "bt_activeKeys s' = bt_activeKeys s" "bt_keys s' = bt_keys s"
      using count suc by simp_all
    have 1: "unat m < unat (bt_cnt s')" if "number h' s' r = Some m" for r m
      using that num cnt(1) n1 by (auto split: if_splits intro: less_SucI)
    have 2: "r = t" if "number h' s' r = Some m" "number h' s' t = Some m" for r t m
      using that num n1 n2 by (auto split: if_splits)
    have 3: "\<exists>r. number h' s' r = Some (of_nat m)" if "m < unat (bt_cnt s')" for m
    proof (cases "m = unat (bt_cnt s)")
      case False
      then have "m < unat (bt_cnt s)" using that unfolding cnt(1) by linarith
      then obtain r where "number h s r = Some (of_nat m)" using n unfolding numbers_ok_def by blast
      then show ?thesis using num none by (intro exI [of _ r]) auto
    qed (use num in auto)
    have 4: "bt_activeKeys s' ! unat m = bt_keys s' ! r" if "number h' s' r = Some m" "h' r = None" for r m
      using that num cnt n4 count by (auto split: if_splits)
    have 6: "unat (bt_cnt s0) \<le> unat m" if "h' r \<in> {Some (In_store r m), Some (In_enqueue r m)}" for r m
      using that n6 n5 count by (auto split: if_splits)
    show ?thesis
      using 1 2 3 4 6 n cnt unfolding numbers_ok_def by auto
  next
    case (store_last p m)
    then show ?thesis using auto by (simp add: auto_insertion_def)
  next
    case (enqueue p m)
    have num: "number h' s' = number h s" using eff enqueue by simp
    have p: "number h s p = Some m" using enqueue use [of p] by (simp add: number_def)
    have m: "unat m < length (bt_activeKeys s)" "unat (bt_cnt s0) \<le> unat m"
      using n1 [OF p] numbers_bound [OF n] s0 n6 [of p m] enqueue by auto
    have keys: "bt_activeKeys s' = (bt_activeKeys s)[unat m := in_key c]" "bt_keys s' = bt_keys s" "bt_cnt s' = bt_cnt s"
      using enqueue by simp_all
    have "bt_activeKeys s' ! unat l = bt_keys s' ! r" if "number h' s' r = Some l" "h' r = None" for r l
    proof (cases "r = p")
      case True
      then have "l = m" using that num p by simp
      then show ?thesis using True m enqueue keys by simp
    next
      case False
      then have "l \<noteq> m" using n2 [of r m p] that num p by auto
      then have "unat l \<noteq> unat m" by (simp add: word_unat_eq_iff)
      then show ?thesis using False that num n4 enqueue keys m(1) by simp
    qed
    moreover have "bt_activeKeys s' ! l = bt_activeKeys s0 ! l" if "l < unat (bt_cnt s0)" for l
      using that m keys n unfolding numbers_ok_def by auto
    moreover have "unat (bt_cnt s0) \<le> unat l" if "h' r \<in> {Some (In_store r l), Some (In_enqueue r l)}" for r l
      using that n6 enqueue by (auto split: if_splits)
    ultimately show ?thesis using n num keys unfolding numbers_ok_def by auto
  qed (use n eff in \<open>auto simp: numbers_ok_def\<close>)
qed

lemma outcome_step:
  assumes e: "effect c s h ph q s' h'" and nums: "\<forall>p n. number h s p = Some n \<longrightarrow> number h' s' p = Some n"
    and g: "grows s s'" and sh: "table_shape s" "table_shape s'"
  shows "k \<noteq> hole s \<Longrightarrow> outcome c0 h s k x \<Longrightarrow> outcome c0 h' s' k x"
    and "in_key c \<noteq> hole s \<Longrightarrow> outcome c0 h s (in_key c) ph \<Longrightarrow> \<not> returned ph
      \<Longrightarrow> (\<And>p n. h p \<in> {Some (In_store p n), Some (In_enqueue p n)} \<Longrightarrow> c0 \<le> unat n)
      \<Longrightarrow> (\<And>p. h p \<noteq> None \<Longrightarrow> p < bt_tableSize s \<and> bt_keys s ! p \<noteq> hole s) \<Longrightarrow> outcome c0 h' s' (in_key c) q"
proof -
  have num: "number h s p = Some n \<Longrightarrow> number h' s' p = Some n" for p n using nums by blast
  have has: "has_number c0 h' s' k n" if "has_number c0 h s k n" for k n
  proof -
    obtain p where p: "number h s p = Some n" "h p = None" "bt_keys s ! p = k" "c0 \<le> unat n"
      using \<open>has_number c0 h s k n\<close> by (auto simp: has_number_def)
    then have "bt_keys s' ! p = k" using g number_Some [OF p(1)] by (simp add: grows_def)
    then show ?thesis using p num [OF p(1)] effect_keeps [OF e p(1,2)] by (auto simp: has_number_def)
  qed
  have fails: "\<not> bt_buildSuccess s \<Longrightarrow> \<not> bt_buildSuccess s'" using e by cases auto
  have near: "near_end s' = near_end s" using g by (simp add: grows_def near_end_def fun_eq_iff)
  have failed: "insert_failed c0 h s k \<Longrightarrow> insert_failed c0 h' s' k" for k
    unfolding insert_failed_def near using has fails grows_passed [OF g] grows_offset [OF g] by metis
  show "k \<noteq> hole s \<Longrightarrow> outcome c0 h s k x \<Longrightarrow> outcome c0 h' s' k x"
    using has keys_grow [OF g sh] failed near by (auto simp: outcome_def split: in_phase.splits)
  assume c: "in_key c \<noteq> hole s" and o: "outcome c0 h s (in_key c) ph" and act: "\<not> returned ph"
    and low: "\<And>p n. h p \<in> {Some (In_store p n), Some (In_enqueue p n)} \<Longrightarrow> c0 \<le> unat n"
    and use: "\<And>p. h p \<noteq> None \<Longrightarrow> p < bt_tableSize s \<and> bt_keys s ! p \<noteq> hole s"
  show "outcome c0 h' s' (in_key c) q"
    using e
  proof cases
    case (look iter load)
    then show ?thesis by (auto simp: outcome_def split: in_phase.splits)
  next
    case (check n)
    then show ?thesis using o by (simp add: outcome_def)
  next
    case (check_fails n)
    then have "has_number c0 h' s' (in_key c) n" using o has by (simp add: outcome_def)
    then show ?thesis using check_fails near by (auto simp: outcome_def insert_failed_def)
  next
    case fails
    then show ?thesis using grows_passed [OF g] by (auto simp: outcome_def insert_failed_def)
  next
    case (store_last p n)
    have "number h s p = Some n" using store_last use [of p] by (simp add: number_def)
    then have "number h' s' p = Some n" by (rule num)
    then show ?thesis using store_last low [of p n] by (auto simp: outcome_def has_number_def intro!: exI [of _ p])
  next
    case (enqueue p n)
    have "number h s p = Some n" using enqueue use [of p] by (simp add: number_def)
    then have "number h' s' p = Some n" by (rule num)
    then show ?thesis using enqueue low [of p n] by (auto simp: outcome_def has_number_def intro!: exI [of _ p])
  qed (auto simp: outcome_def)
qed

lemma effect_key_set:
  assumes "effect c s h ph q s' h'"
  shows "set (bt_keys s') \<subseteq> insert (in_key c) (set (bt_keys s))"
  using assms by cases (auto dest: set_update_subset_insert [THEN subsetD])

lemma auto_step:
  assumes inv: "auto_inv s0 K ps s" and mv: "batch_move i ps s = Some r"
  shows "\<exists>ps' s'. r = Some (ps', s') \<and> auto_inv s0 K ps' s' \<and> map fst ps' = map fst ps"
proof -
  have b: "batch_ok ps s" and g0: "grows s0 s" and n: "numbers_ok s0 (holder ps) s"
      and ks: "set (bt_keys s) \<subseteq> set (bt_keys s0) \<union> K"
    using inv unfolding auto_inv_def by blast+
  have th: "auto_insertion K (fst (ps ! j))" "outcome (unat (bt_cnt s0)) (holder ps) s (in_key (fst (ps ! j))) (snd (ps ! j))"
    if "j < length ps" for j using inv that unfolding auto_inv_def by blast+
  obtain c ph where i: "i < length ps" "ps ! i = (c, ph)" and act: "\<not> returned ph"
      and r: "r = map_option (\<lambda>(q, s). (ps[i := (c, q)], s)) (insert_step c ph s)"
    using mv by (cases "ps ! i") (auto simp: batch_move_def returned_def split: if_splits in_phase.splits)
  have pl: "placed s" and sh: "table_shape s" using batch_okD(1) [OF b] by (simp_all add: placed_def)
  have c: "in_key c \<noteq> hole s" "auto_insertion K c" "outcome (unat (bt_cnt s0)) (holder ps) s (in_key c) ph"
    using batch_okD(4) [OF b i(1)] th [OF i(1)] i(2) by simp_all
  have use: "holder ps p \<noteq> None \<Longrightarrow> p < bt_tableSize s \<and> bt_keys s ! p \<noteq> hole s" for p using holder_in_use [OF b] .
  have low: "holder ps p \<in> {Some (In_store p m), Some (In_enqueue p m)} \<Longrightarrow> unat (bt_cnt s0) \<le> unat m" for p m
    using n unfolding numbers_ok_def by blast
  have "number_ok s ph"
  proof (cases ph)
    case (In_enqueue p m)
    then have h: "holder ps p = Some (In_enqueue p m)"
      using holder_Some [OF batch_okD(2) [OF b] i(1), of p] i(2) by simp
    then have "number (holder ps) s p = Some m" using use [of p] by (simp add: number_def)
    then have "unat m < unat (bt_cnt s)" using n unfolding numbers_ok_def by blast
    then show ?thesis using In_enqueue numbers_bound [OF n] by (simp add: number_ok_def)
  qed (simp_all add: number_ok_def)
  then obtain q s' where st: "insert_step c ph s = Some (q, s')" "grows s s'" "batch_ok (ps[i := (c, q)]) s'"
      "effect c s (holder ps) ph q s' (holder (ps[i := (c, q)]))"
    using batch_step [OF b i _ act] by blast
  let ?ps = "ps[i := (c, q)]"
  have n': "numbers_ok s0 (holder ?ps) s'"
    using numbers_step [OF st(4) sh c(2) use c(1) n] sh by (simp add: table_shape_def)
  have num: "number (holder ps) s p = Some m \<Longrightarrow> number (holder ?ps) s' p = Some m" for p m
    using effect_number [OF st(4) sh _ use c(1)] c(2) use [of p] st(4)
    by (auto simp: auto_insertion_def number_def elim!: effect.cases split: in_phase.splits if_splits)
  have sh': "table_shape s'" using batch_okD(1) [OF st(3)] by (simp add: placed_def)
  have nums: "\<forall>p m. number (holder ps) s p = Some m \<longrightarrow> number (holder ?ps) s' p = Some m" using num by blast
  note step = outcome_step [OF st(4) nums st(2) sh sh']
  have "outcome (unat (bt_cnt s0)) (holder ?ps) s' (in_key c) q"
    by (rule step(2) [OF c(1,3) act]) (use low use in blast)+
  then have "auto_insertion K (fst (?ps ! j)) \<and> outcome (unat (bt_cnt s0)) (holder ?ps) s' (in_key (fst (?ps ! j))) (snd (?ps ! j))"
    if j: "j < length ps" for j
    using step(1) [OF batch_okD(4) [OF b j] th(2) [OF j]] th(1) [OF j] c(2) i j by (cases "j = i") simp_all
  moreover have "set (bt_keys s') \<subseteq> set (bt_keys s0) \<union> K"
    using effect_key_set [OF st(4)] ks c(2) by (auto simp: auto_insertion_def)
  ultimately have "auto_inv s0 K ?ps s'"
    using st(3) grows_trans [OF g0 st(2)] n' by (simp add: auto_inv_def)
  moreover have "(map fst ps)[i := c] = map fst ps" using i by (simp add: list_update_same_conv)
  ultimately show ?thesis using r st(1) by (simp add: map_update)
qed

lemma auto_reaches:
  assumes "batch_reaches ps0 t0 r" and "auto_inv s0 K ps0 t0"
  shows "\<exists>ps s. r = Some (ps, s) \<and> auto_inv s0 K ps s \<and> map fst ps = map fst ps0"
  using assms
proof induction
  case (move ps s i r)
  then show ?case using auto_step by fastforce
qed simp

section \<open>Lookup\<close>

lemma rounds_Some:
  assumes "query_rounds s k is = Some p" and "table_shape s" and "0 < numBuckets s"
  shows "p < bt_tableSize s \<and> bt_keys s ! p = k"
  using assms(1)
proof (induction "is")
  case (Cons iter "is")
  show ?case
  proof (cases "find_index (\<lambda>x. x = k) (take bucket_size (drop (bucket_offset s k iter) (bt_keys s)))")
    case None
    then show ?thesis using Cons by (simp add: Let_def)
  next
    case (Some l)
    then have l: "l < bucket_size" "bt_keys s ! (bucket_offset s k iter + l) = k" using find_index_Some [OF Some] by auto
    moreover have "p = bucket_offset s k iter + l" using Cons.prems Some by (simp add: Let_def)
    ultimately show ?thesis using slot_bound [OF assms(2,3) l(1), of k iter] by blast
  qed
qed simp

lemma rounds_None:
  assumes "query_rounds s k is = None" and sh: "table_shape s" "0 < numBuckets s" and "iter \<in> set is" and l: "l < bucket_size"
  shows "bt_keys s ! (bucket_offset s k iter + l) \<noteq> k"
  using assms(1,4)
proof (induction "is")
  case (Cons i "is")
  have none: "find_index (\<lambda>x. x = k) (take bucket_size (drop (bucket_offset s k i) (bt_keys s))) = None"
    using Cons.prems(1) by (auto simp: Let_def split: option.splits)
  have len: "bucket_offset s k i + l < length (bt_keys s)"
    using slot_bound [OF sh l] sh(1) by (simp add: table_shape_def)
  show ?case
  proof (cases "iter = i")
    case True
    have "(take bucket_size (drop (bucket_offset s k i) (bt_keys s))) ! l = bt_keys s ! (bucket_offset s k i + l)"
      using l len by simp
    moreover have "l < length (take bucket_size (drop (bucket_offset s k i) (bt_keys s)))" using l len by simp
    ultimately show ?thesis using none [unfolded find_index_None_nth] True by auto
  next
    case False
    then show ?thesis using Cons none by (simp add: Let_def)
  qed
qed simp

lemma query_slot_placed:
  assumes pl: "placed s" and k: "k \<noteq> hole s"
  shows "query_slot k s = Some p \<longleftrightarrow> p < bt_tableSize s \<and> bt_keys s ! p = k"
proof -
  have sh: "table_shape s" using pl by (simp add: placed_def)
  show ?thesis
  proof (cases "numBuckets s = 0")
    case True
    then show ?thesis using sh by (simp add: query_slot_def table_shape_def)
  next
    case False
    then have nb: "0 < numBuckets s" by simp
    have q: "query_slot k s = query_rounds s k [0, 1, 2]" using False by (simp add: query_slot_def)
    show ?thesis
    proof
      assume "query_slot k s = Some p"
      then show "p < bt_tableSize s \<and> bt_keys s ! p = k" unfolding q by (rule rounds_Some [OF _ sh nb])
    next
      assume p: "p < bt_tableSize s \<and> bt_keys s ! p = k"
      then obtain j l where j: "j < 3" "l \<le> threshold" "p = bucket_offset s k j + l"
        using pl k unfolding placed_def home_def by metis
      have "j \<in> set [0, 1, 2]" "l < bucket_size" using j by (auto simp: sizes)
      then have "query_rounds s k [0, 1, 2] \<noteq> None" using rounds_None [OF _ sh nb] p j(3) by metis
      then obtain r where r: "query_slot k s = Some r" unfolding q by (cases "query_rounds s k [0, 1, 2]") blast+
      then have "r < bt_tableSize s \<and> bt_keys s ! r = k" unfolding q by (rule rounds_Some [OF _ sh nb])
      then have "r = p" using p k pl unfolding placed_def keys_unique_def by metis
      then show "query_slot k s = Some p" using r by simp
    qed
  qed
qed

lemma settledD:
  assumes "settled s"
  shows "placed s" and "p < bt_tableSize s \<Longrightarrow> bt_keys s ! p \<noteq> hole s \<Longrightarrow> unat (bt_indices s ! p) < unat (bt_cnt s)"
    and "p < bt_tableSize s \<Longrightarrow> bt_keys s ! p \<noteq> hole s \<Longrightarrow> bt_activeKeys s ! unat (bt_indices s ! p) = bt_keys s ! p"
    and "m < unat (bt_cnt s) \<Longrightarrow> \<exists>p < bt_tableSize s. bt_keys s ! p \<noteq> hole s \<and> bt_indices s ! p = of_nat m"
  using assms unfolding settled_def number_def by (force split: if_splits)+

lemma settled_numbers: "settled s \<Longrightarrow> numbers_ok s (\<lambda>p. None) s"
proof -
  assume st: "settled s"
  have "p = q" if "number (\<lambda>p. None) s p = Some n" "number (\<lambda>p. None) s q = Some n" for p q n
  proof -
    have "bt_keys s ! p = bt_keys s ! q" using st that unfolding settled_def by metis
    then show ?thesis using number_Some [OF that(1)] number_Some [OF that(2)] settledD(1) [OF st]
      unfolding placed_def keys_unique_def by blast
  qed
  then show ?thesis using st unfolding settled_def numbers_ok_def by auto
qed

lemma settled_entries:
  assumes st: "settled s"
  shows "length (entries s) = unat (bt_cnt s)"
    and "m < length (entries s) \<Longrightarrow> \<exists>p < bt_tableSize s. bt_keys s ! p = entries s ! m \<and> bt_keys s ! p \<noteq> hole s \<and> bt_indices s ! p = of_nat m"
    and "k \<noteq> hole s \<Longrightarrow> k \<in> set (entries s) \<longleftrightarrow> k \<in> set (bt_keys s)"
proof -
  have "unat (bt_cnt s) \<le> bt_tableSize s" using numbers_bound [OF settled_numbers [OF st]] .
  then have le: "unat (bt_cnt s) \<le> length (bt_activeKeys s)"
    using settledD(1) [OF st] by (simp add: placed_def table_shape_def)
  then show len: "length (entries s) = unat (bt_cnt s)" by (simp add: entries_def)
  have nth: "entries s ! m = bt_activeKeys s ! m" if "m < unat (bt_cnt s)" for m
    using that by (simp add: entries_def)
  show ex: "\<exists>p < bt_tableSize s. bt_keys s ! p = entries s ! m \<and> bt_keys s ! p \<noteq> hole s \<and> bt_indices s ! p = of_nat m"
    if "m < length (entries s)" for m
  proof -
    have m: "m < unat (bt_cnt s)" using that len by simp
    then obtain p where p: "p < bt_tableSize s" "bt_keys s ! p \<noteq> hole s" "bt_indices s ! p = of_nat m"
      using settledD(4) [OF st] by blast
    have "unat (bt_cnt s) < 2 ^ 32" using unsigned_less [of "bt_cnt s", where 'a = nat] by simp
    then have "unat (bt_indices s ! p) = m" using m p(3) le_unat_uoi [of m "bt_cnt s"] by simp
    then show ?thesis using settledD(3) [OF st p(1,2)] p nth [OF m] by auto
  qed
  assume k: "k \<noteq> hole s"
  have keys: "length (bt_keys s) = bt_tableSize s" using settledD(1) [OF st] by (simp add: placed_def table_shape_def)
  show "k \<in> set (entries s) \<longleftrightarrow> k \<in> set (bt_keys s)"
  proof
    assume "k \<in> set (entries s)"
    then show "k \<in> set (bt_keys s)" using ex keys by (metis in_set_conv_nth)
  next
    assume "k \<in> set (bt_keys s)"
    then obtain p where p: "p < bt_tableSize s" "bt_keys s ! p = k" using keys by (auto simp: in_set_conv_nth)
    then show "k \<in> set (entries s)"
      using settledD(2,3) [OF st p(1)] k nth len by (metis nth_mem)
  qed
qed

end
