(* ===== verification/Hash_Table_Theorems.thy ===== *)
theory Hash_Table_Theorems
  imports Hash_Table_Props
begin

text \<open>
  The theorems on the hash table: batches of insertions under every interleaving, lookup, a single
  insertion, and two tables on which the guard against a table that is too full goes wrong.
\<close>

section \<open>The constructor\<close>

lemma table_size_buckets: "evaluateTableSize n = evaluateTableSize n div bucket_size * bucket_size"
proof -
  have "(m + (bucket_size - m mod bucket_size)) mod bucket_size = 0" for m
  proof -
    have "m + (bucket_size - m mod bucket_size) = m div bucket_size * bucket_size + bucket_size"
      unfolding sizes by presburger
    then show ?thesis by simp
  qed
  then show ?thesis by (simp add: evaluateTableSize_def Let_def dvd_div_mult_self mod_0_imp_dvd)
qed

lemma empty_placed:
  assumes "table_shape s" and "\<And>p. p < bt_tableSize s \<Longrightarrow> bt_keys s ! p = hole s"
  shows "placed s"
proof -
  have "prefixed s"
    unfolding prefixed_def
  proof (intro allI impI)
    fix b l assume "b < numBuckets s" "l < bucket_size"
    then have "Suc b * bucket_size \<le> numBuckets s * bucket_size" by (intro mult_le_mono1) simp
    then have "b * bucket_size + l < bt_tableSize s" using \<open>l < bucket_size\<close> assms(1) by (simp add: table_shape_def)
    moreover assume "bt_keys s ! (b * bucket_size + l) \<noteq> hole s"
    ultimately show "l \<le> threshold \<and> (\<forall>i < l. bt_keys s ! (b * bucket_size + i) \<noteq> hole s)" using assms(2) by blast
  qed
  then show ?thesis using assms by (auto simp: placed_def keys_unique_def)
qed

lemma new_settled: "evaluateTableSize n < 2 ^ 31 \<Longrightarrow> settled (new_bht d hf0 hf1 hf2 memory key_memory n)"
proof -
  let ?s = "new_bht d hf0 hf1 hf2 memory key_memory n"
  assume "evaluateTableSize n < 2 ^ 31"
  then have "table_shape ?s" using table_size_buckets [of n] by (simp add: table_shape_def new_bht_def numBuckets_def Let_def)
  moreover have "bt_keys ?s ! p = hole ?s" if "p < bt_tableSize ?s" for p using that by (simp add: new_bht_def Let_def)
  ultimately have "placed ?s" "number (\<lambda>p. None) ?s = (\<lambda>p. None)" using empty_placed by (auto simp: number_def)
  then show ?thesis by (simp add: settled_def) (simp add: new_bht_def Let_def)
qed

section \<open>Batches of insertions\<close>

definition all_returned :: "batch \<Rightarrow> bool" where
  "all_returned ps \<longleftrightarrow> list_all (\<lambda>(c, ph). returned ph) ps"

lemma returned_at:
  assumes "all_returned ps" and "i < length ps"
  obtains v where "snd (ps ! i) = In_done v"
  using assms by (cases "snd (ps ! i)") (auto simp: all_returned_def list_all_length returned_def split_beta)

lemma returned_holder: "all_returned ps \<Longrightarrow> holder ps = (\<lambda>p. None)"
  by (rule ext, rule holder_NoneI)
    (fastforce simp: all_returned_def list_all_length returned_def split: in_phase.splits)

lemma start_holder: "holder (start_batch cs s) = (\<lambda>p. None)"
  by (rule ext, rule holder_NoneI) (simp add: start_batch_def insert_start_def)

lemma start_ok:
  assumes "placed s" and "list_all (\<lambda>c. in_key c \<noteq> hole s) cs"
  shows "batch_ok (start_batch cs s) s"
proof -
  have "phase_ok s k (insert_start s)" for k
    by (simp add: phase_ok_def insert_start_def passed_def slots_full_def bucket_size_def)
  then show ?thesis
    using assms by (auto simp: batch_ok_def start_batch_def list_all_length holders_unique_def insert_start_def)
qed

lemma start_auto:
  assumes st: "settled s" and cs: "list_all (\<lambda>c. in_key c \<noteq> hole s \<and> in_index c = sentinel_v \<and> in_enqueueKey c) cs"
  shows "auto_inv s (in_key ` set cs) (start_batch cs s) s"
proof -
  have "batch_ok (start_batch cs s) s" using start_ok [OF settledD(1) [OF st]] cs by (simp add: list_all_iff)
  moreover have "outcome c0 h s k (insert_start s)" for c0 h k
    by (simp add: outcome_def insert_start_def insert_failed_def)
  then have "\<forall>i < length (start_batch cs s). auto_insertion (in_key ` set cs) (fst (start_batch cs s ! i))
      \<and> outcome (unat (bt_cnt s)) (holder (start_batch cs s)) s (in_key (fst (start_batch cs s ! i))) (snd (start_batch cs s ! i))"
    using cs by (simp add: start_batch_def auto_insertion_def list_all_length)
  ultimately show ?thesis
    using settled_numbers [OF st] unfolding auto_inv_def start_holder by (auto simp: grows_same)
qed

lemma auto_settled:
  assumes inv: "auto_inv s0 K ps s" and ret: "all_returned ps"
  shows "settled s"
proof -
  have n: "numbers_ok s0 (\<lambda>p. None) s" and b: "batch_ok ps s"
    using inv returned_holder [OF ret] by (simp_all add: auto_inv_def)
  then show ?thesis using batch_okD(1) [OF b] unfolding settled_def numbers_ok_def by blast
qed

lemma hole_entries: "settled s \<Longrightarrow> hole s \<notin> set (entries s)"
  using settled_entries(2) by (metis in_set_conv_nth)

lemma auto_entries:
  assumes st: "settled s0" and inv: "auto_inv s0 K ps s" and ret: "all_returned ps"
  shows "take (length (entries s0)) (entries s) = entries s0" and "set (entries s) \<subseteq> set (entries s0) \<union> K"
proof -
  have s: "settled s" using auto_settled [OF inv ret] .
  have n: "numbers_ok s0 (holder ps) s" and g: "grows s0 s" and ks: "set (bt_keys s) \<subseteq> set (bt_keys s0) \<union> K"
    using inv unfolding auto_inv_def by blast+
  have le: "length (entries s0) \<le> length (entries s)"
    using n settled_entries(1) [OF st] settled_entries(1) [OF s] by (simp add: numbers_ok_def)
  show "take (length (entries s0)) (entries s) = entries s0"
  proof (rule nth_equalityI)
    fix i assume "i < length (take (length (entries s0)) (entries s))"
    then have i: "i < unat (bt_cnt s0)" "i < unat (bt_cnt s)"
      using settled_entries(1) [OF st] settled_entries(1) [OF s] by simp_all
    then have "bt_activeKeys s ! i = bt_activeKeys s0 ! i" using n unfolding numbers_ok_def by blast
    then show "take (length (entries s0)) (entries s) ! i = entries s0 ! i"
      using i settled_entries(1) [OF st] by (simp add: entries_def)
  qed (use le in simp)
  show "set (entries s) \<subseteq> set (entries s0) \<union> K"
  proof
    fix k assume k: "k \<in> set (entries s)"
    then have ne: "k \<noteq> hole s" using hole_entries [OF s] by blast
    then have "k \<in> set (bt_keys s)" "k \<noteq> hole s0" using k settled_entries(3) [OF s] g by (auto simp: grows_def)
    then show "k \<in> set (entries s0) \<union> K" using ks settled_entries(3) [OF st] by blast
  qed
qed

text \<open>What a call that inserted \<open>k\<close> into \<open>s\<close>, giving \<open>t\<close>, may return.\<close>

definition insert_result :: "bht \<Rightarrow> bht \<Rightarrow> key \<Rightarrow> u32 \<Rightarrow> bool" where
  "insert_result s t k r \<longleftrightarrow>
     r = sentinel_v \<and> k \<in> set (entries t)
   \<or> length (entries s) \<le> unat r \<and> unat r < length (entries t) \<and> entries t ! unat r = k \<and> \<not> near_end t r
   \<or> r = failure_token_v \<and> (numBuckets t = 0 \<or> \<not> bt_buildSuccess t \<and>
       (passed t k 3 \<or> list_ex (\<lambda>n. entries t ! n = k \<and> near_end t (of_nat n)) [length (entries s)..<length (entries t)]))"

lemma has_number_entry:
  assumes s: "settled t" and "has_number c0 (\<lambda>p. None) t k n"
  shows "c0 \<le> unat n" and "unat n < length (entries t)" and "entries t ! unat n = k"
proof -
  obtain p where p: "number (\<lambda>p. None) t p = Some n" "bt_keys t ! p = k" "c0 \<le> unat n"
    using assms(2) by (auto simp: has_number_def)
  then have "unat n < unat (bt_cnt t)" "bt_activeKeys t ! unat n = k" using s unfolding settled_def by blast+
  then show "c0 \<le> unat n" "unat n < length (entries t)" "entries t ! unat n = k"
    using p(3) settled_entries(1) [OF s] by (simp_all add: entries_def)
qed

lemma outcome_result:
  assumes st: "settled s" and t: "settled t" and o: "outcome (unat (bt_cnt s)) (\<lambda>p. None) t k (In_done r)" and k: "k \<noteq> hole t"
  shows "insert_result s t k r"
proof -
  have len: "unat (bt_cnt s) = length (entries s)" using settled_entries(1) [OF st] by simp
  consider "r = sentinel_v" "k \<in> set (bt_keys t)" | "has_number (unat (bt_cnt s)) (\<lambda>p. None) t k r" "\<not> near_end t r"
    | "r = failure_token_v" "insert_failed (unat (bt_cnt s)) (\<lambda>p. None) t k"
    using o by (auto simp: outcome_def)
  then show ?thesis
  proof cases
    case 1
    then show ?thesis using settled_entries(3) [OF t k] by (simp add: insert_result_def)
  next
    case 2
    then show ?thesis using has_number_entry [OF t 2(1)] len by (simp add: insert_result_def)
  next
    case 3
    have "list_ex (\<lambda>n. entries t ! n = k \<and> near_end t (of_nat n)) [length (entries s)..<length (entries t)]"
      if "has_number (unat (bt_cnt s)) (\<lambda>p. None) t k n" "near_end t n" for n
      using has_number_entry [OF t that(1)] that(2) len by (auto simp: list_ex_iff intro!: bexI [of _ "unat n"])
    then show ?thesis using 3 by (auto simp: insert_result_def insert_failed_def)
  qed
qed

fun result_of :: "in_phase \<Rightarrow> u32" where
  "result_of (In_done r) = r"
| "result_of ph = 0"

text \<open>
  C18: Insertions in parallel: starting from a table at rest, with any number of calls of \<open>insert\<close> with
  any keys but the sentinel, and under every interleaving of them, no access leaves an array; and when
  all calls have returned the table is at rest again, the old keys have kept their numbers, every new
  key is one that was inserted, and each call has returned \<open>-1\<close> for a key that is in the table, the
  number of its key, which is a new one, or the failure token: without buckets, when the three buckets of the key are
  full, or when the number is close to the size of the table.
\<close>

theorem bht_insertions:
  assumes "settled s" and "list_all (\<lambda>c. in_key c \<noteq> hole s \<and> in_index c = sentinel_v \<and> in_enqueueKey c) cs"
    and "batch_reaches (start_batch cs s) s r"
  shows "\<exists>ps t. r = Some (ps, t) \<and> map fst ps = cs
    \<and> (if all_returned ps then settled t \<and> take (length (entries s)) (entries t) = entries s
         \<and> set (entries t) \<subseteq> set (entries s) \<union> in_key ` set cs
         \<and> list_all (\<lambda>(c, ph). insert_result s t (in_key c) (result_of ph)) ps
       else True)"
proof -
  obtain ps t where r: "r = Some (ps, t)" and inv: "auto_inv s (in_key ` set cs) ps t"
      and ps: "map fst ps = map fst (start_batch cs s)"
    using auto_reaches [OF assms(3) start_auto [OF assms(1,2)]] by blast
  have "insert_result s t (in_key (fst (ps ! i))) v"
    if i: "i < length ps" "snd (ps ! i) = In_done v" and ret: "all_returned ps" for i v
  proof -
    have "outcome (unat (bt_cnt s)) (\<lambda>p. None) t (in_key (fst (ps ! i))) (In_done v)" "batch_ok ps t"
      using inv i returned_holder [OF ret] unfolding auto_inv_def by metis+
    then show ?thesis using outcome_result [OF assms(1) auto_settled [OF inv ret]] batch_okD(4) i(1) by blast
  qed
  note res = this
  have "list_all (\<lambda>(c, ph). insert_result s t (in_key c) (result_of ph)) ps" if ret: "all_returned ps"
    unfolding list_all_length
  proof (intro allI impI)
    fix i assume i: "i < length ps"
    obtain v where v: "snd (ps ! i) = In_done v" using returned_at [OF ret i] .
    then have "result_of (snd (ps ! i)) = v" by simp
    then show "case ps ! i of (c, ph) \<Rightarrow> insert_result s t (in_key c) (result_of ph)"
      using res [OF i v ret] by (simp add: split_beta)
  qed
  moreover have "map fst ps = cs" using ps by (simp add: start_batch_def comp_def)
  ultimately show ?thesis using r auto_settled [OF inv] auto_entries [OF assms(1) inv] by simp
qed

text \<open>A table with one bucket, and three calls two of which insert the same key.\<close>

definition small_table :: bht where
  "small_table = new_bht 1 (3, 5) (7, 11) (13, 17) (\<lambda>i. 0) (\<lambda>i. []) 1"

definition small_calls :: "insertion list" where
  "small_calls = map (\<lambda>k. \<lparr>in_key = [k], in_index = sentinel_v, in_enqueueKey = True\<rparr>) [5, 5, 7]"

definition small_moves :: "nat list" where
  "small_moves = [0, 1, 2, 0, 1, 1, 2, 2, 2, 2, 2, 2, 2, 2, 0, 0, 0, 0]"

lemma small_settled: "settled small_table"
proof -
  have "evaluateTableSize 1 = 16" by code_simp
  then show ?thesis using new_settled [of 1] by (simp add: small_table_def)
qed

lemma small_calls_ok:
  "list_all (\<lambda>c. in_key c \<noteq> hole small_table \<and> in_index c = sentinel_v \<and> in_enqueueKey c) small_calls"
  by code_simp

definition batch_gives :: "nat list \<Rightarrow> batch \<Rightarrow> bht \<Rightarrow> (batch \<Rightarrow> bht \<Rightarrow> bool) \<Rightarrow> bool" where
  "batch_gives is ps s P \<longleftrightarrow> (case batch_run is ps s of Some (Some (qs, t)) \<Rightarrow> P qs t | _ \<Rightarrow> False)"

lemma batch_gives_reaches:
  "batch_gives is ps s P \<Longrightarrow> \<exists>qs t. batch_reaches ps s (Some (qs, t)) \<and> P qs t"
  using batch_run_reaches [OF batch_reaches.start, of "is" ps s]
  by (auto simp: batch_gives_def split: option.splits prod.splits)

lemma small_run:
  "batch_gives small_moves (start_batch small_calls small_table) small_table
     (\<lambda>ps t. all_returned ps \<and> entries t = [[7], [5]] \<and> bt_dim t = 1 \<and> bt_tableSize t = 16)"
  by code_simp

lemma bht_insertions_witness:
  "\<exists>ps t. batch_reaches (start_batch small_calls small_table) small_table (Some (ps, t))
     \<and> all_returned ps \<and> settled t \<and> entries t = [[7], [5]]"
proof -
  obtain ps t where r: "batch_reaches (start_batch small_calls small_table) small_table (Some (ps, t))"
      "all_returned ps" "entries t = [[7], [5]]"
    using batch_gives_reaches [OF small_run] by blast
  then show ?thesis using bht_insertions [OF small_settled small_calls_ok r(1)] by auto
qed

lemma small_filled: "\<exists>t. settled t \<and> entries t = [[7], [5]] \<and> bt_dim t = 1 \<and> bt_tableSize t = 16"
proof -
  obtain ps t where r: "batch_reaches (start_batch small_calls small_table) small_table (Some (ps, t))"
      "all_returned ps" "entries t = [[7], [5]]" "bt_dim t = 1" "bt_tableSize t = 16"
    using batch_gives_reaches [OF small_run] by blast
  then show ?thesis using auto_settled auto_reaches [OF r(1) start_auto [OF small_settled small_calls_ok]] by blast
qed

section \<open>Lookup\<close>

lemma query_entry:
  assumes st: "settled s" and m: "m < length (entries s)"
  shows "bht_query (entries s ! m) s = of_nat m"
proof -
  obtain p where p: "p < bt_tableSize s" "bt_keys s ! p = entries s ! m" "bt_keys s ! p \<noteq> hole s" "bt_indices s ! p = of_nat m"
    using settled_entries(2) [OF st m] by blast
  then have "query_slot (entries s ! m) s = Some p" using query_slot_placed [OF settledD(1) [OF st]] by simp
  then show ?thesis using p by (simp add: bht_query_def)
qed

lemma entries_distinct: "settled s \<Longrightarrow> distinct (entries s)"
proof (subst distinct_conv_nth, intro allI impI)
  fix i j assume st: "settled s" and ij: "i < length (entries s)" "j < length (entries s)" "i \<noteq> j"
  have "length (entries s) < 2 ^ 32" using settled_entries(1) [OF st] unsigned_less [of "bt_cnt s", where 'a = nat] by simp
  then have "(of_nat i :: u32) \<noteq> of_nat j" using ij u32_of_nat_inj [of i j] by simp
  then show "entries s ! i \<noteq> entries s ! j" using query_entry [OF st ij(1)] query_entry [OF st ij(2)] by metis
qed

text \<open>
  C19: In a table at rest the numbered keys are distinct, lookup gives each its number, and \<open>-1\<close> for
  any other key but the sentinel.
\<close>

theorem bht_lookup:
  assumes "settled s"
  shows "distinct (entries s)
    \<and> list_all (\<lambda>m. bht_query (entries s ! m) s = of_nat m) [0..<length (entries s)]
    \<and> (if k \<in> insert (hole s) (set (entries s)) then True else bht_query k s = sentinel_v)"
proof -
  have pl: "placed s" using settledD(1) [OF assms] .
  have "bht_query k s = sentinel_v" if "k \<noteq> hole s" "k \<notin> set (entries s)"
  proof -
    have "k \<notin> set (bt_keys s)" using settled_entries(3) [OF assms that(1)] that(2) by simp
    then have "query_slot k s \<noteq> Some p" for p
      using query_slot_placed [OF pl that(1)] pl by (auto simp: placed_def table_shape_def)
    then show ?thesis by (simp add: bht_query_def split: option.split)
  qed
  then show ?thesis using query_entry [OF assms] entries_distinct [OF assms] by (simp add: list_all_iff)
qed

lemma bht_lookup_witness: "\<exists>t. entries t = [[7], [5]] \<and> bht_query [5] t = 1 \<and> bht_query [6] t = sentinel_v"
proof -
  obtain t where t: "settled t" "entries t = [[7], [5]]" "bt_dim t = 1" using small_filled by blast
  have "[6] \<noteq> key_sentinel 1" by code_simp
  then show ?thesis using bht_lookup [OF t(1), of "[6]"] t(2,3) by (auto simp: upt_rec)
qed

section \<open>A single insertion\<close>

text \<open>On its own, a call that has seen a free slot finds it free.\<close>

definition slot_seen :: "bht \<Rightarrow> insertion \<Rightarrow> in_phase \<Rightarrow> bool" where
  "slot_seen s c ph \<longleftrightarrow> (case ph of In_switch iter load \<Rightarrow>
     bt_keys s ! (bucket_offset s (in_key c) iter + load) = hole s | _ \<Rightarrow> True)"

fun moves_left :: "in_phase \<Rightarrow> nat" where
  "moves_left (In_probe iter load) = (3 - iter) * 40 + (16 - load) + 10"
| "moves_left (In_switch iter load) = 9"
| "moves_left (In_count p) = 8"
| "moves_left (In_store p n) = 7"
| "moves_left (In_enqueue p n) = 6"
| "moves_left (In_check n) = 5"
| "moves_left In_fail = 1"
| "moves_left (In_done r) = 0"

text \<open>Before it claims a slot the call has changed no key.\<close>

definition keys_kept :: "bht \<Rightarrow> bht \<Rightarrow> insertion \<Rightarrow> in_phase \<Rightarrow> bool" where
  "keys_kept s0 s c ph \<longleftrightarrow> (case ph of
     In_probe iter load \<Rightarrow> bt_keys s = bt_keys s0
   | In_switch iter load \<Rightarrow> bt_keys s = bt_keys s0
   | In_check n \<Rightarrow> n \<noteq> sentinel_v
   | In_done r \<Rightarrow> r = sentinel_v \<longrightarrow> in_key c \<in> set (bt_keys s0)
   | _ \<Rightarrow> True)"

lemma alone_step:
  assumes "phase_ok s (in_key c) ph" and "slot_seen s c ph" and "insert_step c ph s = Some (q, s')" and "\<not> returned ph"
  shows "moves_left q < moves_left ph \<and> slot_seen s' c q"
proof (cases ph)
  case (In_probe iter load)
  then have a: "iter < 3" "load < 16" using assms(1) by (simp_all add: phase_ok_def sizes)
  have s': "s' = s" and st: "insert_probe c iter load s = Some q" using assms(3) In_probe by (auto simp: insert_step_def)
  show ?thesis
  proof (cases "bt_keys s ! (bucket_offset s (in_key c) iter + load) = hole s")
    case True
    then show ?thesis using st s' a In_probe
      by (auto simp: insert_probe_def insert_decide_def slot_seen_def Let_def split: if_splits)
  next
    case False
    then show ?thesis using st s' a In_probe
      by (auto simp: insert_probe_def insert_decide_def slot_seen_def Let_def sizes split: if_splits)
  qed
qed (use assms in \<open>auto simp: insert_step_def insert_switch_def insert_store_def insert_enqueue_def insert_check_def
    slot_seen_def returned_def Let_def split: if_splits\<close>)

lemma kept_step:
  assumes "keys_kept s0 s c ph" and "table_shape s" and "phase_ok s (in_key c) ph"
    and "insert_step c ph s = Some (q, s')" and "\<And>n. q = In_check n \<Longrightarrow> n \<noteq> sentinel_v"
  shows "keys_kept s0 s' c q"
proof (cases ph)
  case (In_probe iter load)
  have q: "insert_probe c iter load s = Some q" "s' = s" using assms(4) In_probe by (auto simp: insert_step_def)
  have "q = In_done sentinel_v \<longrightarrow> in_key c \<in> set (bt_keys s)" "\<And>m. q \<noteq> In_check m" "\<And>p. \<not> holds q p"
    using probe_ok [OF assms(2)] assms(3) q In_probe by fastforce+
  then show ?thesis using assms(1) q In_probe by (auto simp: keys_kept_def split: in_phase.splits)
next
  case (In_check n)
  then show ?thesis using assms(1,4)
    by (auto simp: keys_kept_def insert_step_def insert_check_def sentinel_v_def failure_token_v_def split: if_splits)
qed (use assms in \<open>auto simp: keys_kept_def insert_step_def insert_switch_def insert_store_def insert_enqueue_def
    sentinel_v_def failure_token_v_def Let_def split: if_splits\<close>)

lemma sentinel_large: "2 ^ 31 \<le> unat sentinel_v"
  by (simp add: sentinel_v_def unsigned_minus_1_eq_mask mask_eq_exp_minus_1)

lemma auto_numbers_small:
  assumes inv: "auto_inv s0 K [(c, In_check n)] s"
  shows "n \<noteq> sentinel_v"
proof -
  have "numbers_ok s0 (holder [(c, In_check n)]) s" "outcome (unat (bt_cnt s0)) (holder [(c, In_check n)]) s (in_key c) (In_check n)"
      "batch_ok [(c, In_check n)] s"
    using inv unfolding auto_inv_def by force+
  moreover from this obtain p where "number (holder [(c, In_check n)]) s p = Some n"
    by (auto simp: outcome_def has_number_def)
  ultimately have "unat n < unat (bt_cnt s)" "unat (bt_cnt s) \<le> bt_tableSize s" "bt_tableSize s < 2 ^ 31"
    using numbers_bound [of s0 "holder [(c, In_check n)]" s] batch_okD(1) [of "[(c, In_check n)]" s]
    unfolding numbers_ok_def placed_def table_shape_def by blast+
  then have "unat n < 2 ^ 31" by simp
  then show ?thesis using sentinel_large by auto
qed

lemma run_returns:
  assumes "auto_inv s0 K [(c, ph)] s" and "slot_seen s c ph" and "keys_kept s0 s c ph"
  shows "\<exists>r t. run_insert c ph s = Some (r, t) \<and> auto_inv s0 K [(c, In_done r)] t
    \<and> (r = sentinel_v \<longrightarrow> in_key c \<in> set (bt_keys s0))"
  using assms
proof (induction "moves_left ph" arbitrary: ph s rule: less_induct)
  case less
  show ?case
  proof (cases "returned ph")
    case True
    then obtain r where "ph = In_done r" by (auto simp: returned_def split: in_phase.splits)
    then show ?thesis using less.prems(1,3) by (subst run_insert.simps) (auto simp: keys_kept_def)
  next
    case False
    then have mv: "batch_move 0 [(c, ph)] s = Some (map_option (\<lambda>(q, s). ([(c, q)], s)) (insert_step c ph s))"
      by (cases ph) (simp_all add: batch_move_def returned_def)
    obtain q s' where q: "insert_step c ph s = Some (q, s')" "auto_inv s0 K [(c, q)] s'"
      using auto_step [OF less.prems(1) mv] by auto
    have b: "batch_ok [(c, ph)] s" using less.prems(1) unfolding auto_inv_def by blast
    then have ok: "phase_ok s (in_key c) ph" "table_shape s"
      using batch_okD(3) [OF b, of 0] batch_okD(1) [OF b] by (simp_all add: placed_def)
    have "keys_kept s0 s' c q" using kept_step [OF less.prems(3) ok(2,1) q(1)] auto_numbers_small q(2) by blast
    moreover have "moves_left q < moves_left ph" "slot_seen s' c q"
      using alone_step [OF ok(1) less.prems(2) q(1) False] by simp_all
    ultimately have "\<exists>r t. run_insert c q s' = Some (r, t) \<and> auto_inv s0 K [(c, In_done r)] t
        \<and> (r = sentinel_v \<longrightarrow> in_key c \<in> set (bt_keys s0))"
      using less.hyps q(2) by blast
    moreover have "run_insert c ph s = run_insert c q s'"
      using False q(1) by (subst run_insert.simps) (auto simp: returned_def split: in_phase.splits)
    ultimately show ?thesis by simp
  qed
qed

lemma entry_not_passed:
  assumes t: "settled t" and k: "k \<in> set (entries t)"
  shows "numBuckets t \<noteq> 0" and "\<not> passed t k 3"
proof -
  have ne: "k \<noteq> hole t" using hole_entries [OF t] k by auto
  have pl: "placed t" using settledD(1) [OF t] .
  obtain p where p: "p < bt_tableSize t" "bt_keys t ! p = k"
    using settled_entries(3) [OF t ne] k pl by (auto simp: in_set_conv_nth placed_def table_shape_def)
  have "bt_tableSize t = numBuckets t * bucket_size" using pl by (simp add: placed_def table_shape_def)
  then show "numBuckets t \<noteq> 0" using p(1) by (intro notI) simp
  show "\<not> passed t k 3"
  proof
    assume "passed t k 3"
    moreover obtain j l where "j < 3" "l \<le> threshold" "p = bucket_offset t k j + l"
      using pl p ne unfolding placed_def home_def by metis
    ultimately show False using p(2) by (auto simp: passed_def slots_full_def)
  qed
qed

lemma present_result:
  assumes t: "settled t" and k: "k \<in> set (entries s)" and same: "entries t = entries s" and r: "insert_result s t k r"
  shows "r = sentinel_v"
  using r same entry_not_passed [OF t, of k] k by (auto simp: insert_result_def)

lemma failed_result:
  assumes s: "settled t" and e: "entries t = entries s \<or> entries t = entries s @ [k]" and n: "k \<notin> set (entries s)"
    and r: "insert_result s t k failure_token_v" and small: "length (entries t) < 2 ^ 31"
  shows "if entries t = entries s then numBuckets t = 0 \<or> \<not> bt_buildSuccess t \<and> passed t k 3
    else \<not> bt_buildSuccess t \<and> near_end t (of_nat (length (entries s)))"
proof (cases "entries t = entries s")
  case True
  have "failure_token_v \<noteq> sentinel_v" "unat failure_token_v = 2 ^ 31" by (simp_all add: failure_token_v_def sentinel_v_def)
  then show ?thesis using r n small True by (simp add: insert_result_def)
next
  case False
  then have "k \<in> set (entries t)" "[length (entries s)..<length (entries t)] = [length (entries s)]" using e by simp_all
  moreover have "failure_token_v \<noteq> sentinel_v" "unat failure_token_v = 2 ^ 31" by (simp_all add: failure_token_v_def sentinel_v_def)
  ultimately show ?thesis using r small False entry_not_passed [OF s] by (auto simp: insert_result_def)
qed

text \<open>
  C20: A single insertion returns: for a key that is in the table it returns \<open>-1\<close> and changes nothing
  that can be looked up; any other key gets the next number, or the insertion fails. When it fails the
  key has not been added, because there are no buckets or its three buckets are full, or it has been
  added under the next number, which is close to the size of the table.
\<close>

theorem bht_insert_single:
  assumes st: "settled s" and k: "key \<noteq> hole s"
  shows "\<exists>r t. bht_insert key s = Some (r, t) \<and> settled t
    \<and> (if key \<in> set (entries s) then r = sentinel_v \<and> entries t = entries s
       else if r = failure_token_v
       then entries t = entries s \<and> (numBuckets t = 0 \<or> \<not> bt_buildSuccess t \<and> passed t key 3)
         \<or> entries t = entries s @ [key] \<and> \<not> bt_buildSuccess t \<and> near_end t (of_nat (length (entries s)))
       else r = of_nat (length (entries s)) \<and> entries t = entries s @ [key])"
proof -
  let ?c = "\<lparr>in_key = key, in_index = sentinel_v, in_enqueueKey = True\<rparr>"
  have "auto_inv s {key} [(?c, insert_start s)] s"
    using start_auto [OF st, of "[?c]"] k by (simp add: start_batch_def)
  moreover have "slot_seen s ?c (insert_start s)" "keys_kept s s ?c (insert_start s)"
    by (simp_all add: insert_start_def slot_seen_def keys_kept_def sentinel_v_def failure_token_v_def)
  ultimately obtain r t where r: "bht_insert key s = Some (r, t)" "auto_inv s {key} [(?c, In_done r)] t"
      "r = sentinel_v \<longrightarrow> key \<in> set (bt_keys s)"
    using run_returns [of s "{key}" ?c "insert_start s" s] unfolding bht_insert_def by auto
  have ret: "all_returned [(?c, In_done r)]" by (simp add: all_returned_def returned_def)
  have t: "settled t" using auto_settled [OF r(2) ret] .
  have dist: "distinct (entries t)" "distinct (entries s)" using entries_distinct [OF t] entries_distinct [OF st] by simp_all
  have pre: "take (length (entries s)) (entries t) = entries s" and sub: "set (entries t) \<subseteq> insert key (set (entries s))"
    using auto_entries [OF st r(2) ret] by auto
  have "batch_ok [(?c, In_done r)] t" "outcome (unat (bt_cnt s)) (\<lambda>p. None) t key (In_done r)"
    using r(2) returned_holder [OF ret] unfolding auto_inv_def by force+
  then have res: "insert_result s t key r"
    using outcome_result [OF st t] batch_okD(4) [of "[(?c, In_done r)]" t 0] by simp
  define xs where "xs = drop (length (entries s)) (entries t)"
  have split: "entries t = entries s @ xs" using pre append_take_drop_id [of "length (entries s)" "entries t"] by (simp add: xs_def)
  then have xs: "distinct xs" "set xs \<subseteq> {key}" "set xs \<inter> set (entries s) = {}"
    using dist(1) sub by auto
  have "xs = [] \<or> xs = [key]"
  proof (cases xs)
    case (Cons x ys)
    then have "ys = []" using xs(1,2) by (cases ys) auto
    then show ?thesis using Cons xs(2) by simp
  qed simp
  then have cases: "entries t = entries s \<or> entries t = entries s @ [key]" using split by auto
  have small: "length (entries t) < 2 ^ 31"
    using settled_entries(1) [OF t] numbers_bound [OF settled_numbers [OF t]] settledD(1) [OF t]
    by (simp add: placed_def table_shape_def)
  show ?thesis
  proof (cases "key \<in> set (entries s)")
    case True
    then have "entries t = entries s" using cases dist(1) by auto
    then show ?thesis using True present_result [OF t True _ res] r(1) t by simp
  next
    case False
    then have "r \<noteq> sentinel_v" using r(3) settled_entries(3) [OF st k] by blast
    then consider "length (entries s) \<le> unat r" "unat r < length (entries t)" | "r = failure_token_v"
      using res by (auto simp: insert_result_def)
    then show ?thesis
    proof cases
      case 1
      then have e: "entries t = entries s @ [key]" using cases by auto
      then have n: "unat r = length (entries s)" using 1 by simp
      have "(of_nat (unat r) :: u32) = r" by simp
      then have "r = of_nat (length (entries s))" unfolding n by (rule sym)
      moreover have "r \<noteq> failure_token_v"
      proof
        assume "r = failure_token_v"
        then have "2 ^ 31 < length (entries t)" using n e by (simp add: failure_token_v_def)
        then show False using small by simp
      qed
      ultimately show ?thesis using False e r(1) t by simp
    next
      case 2
      then have "insert_result s t key failure_token_v" using res by simp
      from failed_result [OF t cases False this small] show ?thesis using 2 False cases r(1) t by (auto split: if_splits)
    qed
  qed
qed

lemma bht_insert_single_witness:
  "\<exists>t. bht_insert [5] small_table = Some (0, t) \<and> settled t \<and> entries t = [[5]]"
proof -
  have k: "[5] \<noteq> hole small_table" "entries small_table = []" by code_simp+
  have "map_option fst (bht_insert [5] small_table) = Some 0" by code_simp
  then obtain t where "bht_insert [5] small_table = Some (0, t)" by auto
  then show ?thesis using bht_insert_single [OF small_settled k(1)] k(2) by (auto simp: failure_token_v_def)
qed

section \<open>The guard against a full table\<close>

fun insert_keys :: "u32 list \<Rightarrow> bht \<Rightarrow> (u32 list \<times> bht) option" where
  "insert_keys [] s = Some ([], s)"
| "insert_keys (k # ks) s = (case bht_insert [k] s of None \<Rightarrow> None | Some (r, s) \<Rightarrow>
     map_option (\<lambda>(rs, t). (r # rs, t)) (insert_keys ks s))"

text \<open>A table of 32 slots with twelve keys: the next insertion reports a failure and has stored the key.\<close>

lemma failure_after_storing:
  "map_option (\<lambda>(rs, t). (last rs, bht_query [12] t)) (insert_keys (map of_nat [0..<13])
     (new_bht 1 (3, 5) (7, 11) (13, 17) (\<lambda>i. 0) (\<lambda>i. []) 8)) = Some (failure_token_v, 12)"
  by code_simp

text \<open>In a table of 16 slots the bound wraps and no number reaches it.\<close>

lemma small_table_unguarded: "bt_tableSize s = 16 \<Longrightarrow> n < 2 ^ 31 \<Longrightarrow> \<not> near_end s n"
  by (simp add: near_end_def word_le_nat_alt word_less_nat_alt)

end
