(* ===== verification/Hash_Table_Resize.thy ===== *)
theory Hash_Table_Resize
  imports Hash_Table_Theorems
begin

text \<open>
  Growing and reordering the hash table keep its keys: growing inserts every key again under its
  number, in parallel; reordering gives the keys new numbers.
\<close>

section \<open>Growing\<close>

definition refill_outcome :: "bht \<Rightarrow> key \<Rightarrow> in_phase \<Rightarrow> bool" where
  "refill_outcome s k ph \<longleftrightarrow> (case ph of
     In_check n \<Rightarrow> k \<in> set (bt_keys s)
   | In_done r \<Rightarrow> k \<in> set (bt_keys s) \<or> \<not> bt_buildSuccess s
   | In_count p \<Rightarrow> False | In_enqueue p n \<Rightarrow> False | _ \<Rightarrow> True)"

definition renumbered :: "bht \<Rightarrow> (nat \<Rightarrow> in_phase option) \<Rightarrow> bht \<Rightarrow> bool" where
  "renumbered s1 h s \<longleftrightarrow> (\<forall>p < bt_tableSize s. bt_keys s ! p \<noteq> hole s \<longrightarrow>
     (\<exists>i < unat (bt_cnt s1). number h s p = Some (of_nat i) \<and> bt_keys s ! p = bt_activeKeys s1 ! i))"

definition refill_inv :: "bht \<Rightarrow> batch \<Rightarrow> bht \<Rightarrow> bool" where
  "refill_inv s1 ps s \<longleftrightarrow> batch_ok ps s \<and> grows s1 s \<and> bt_activeKeys s = bt_activeKeys s1 \<and> bt_cnt s = bt_cnt s1
   \<and> map fst ps = map (reinsertion s1) [0..<unat (bt_cnt s1)] \<and> renumbered s1 (holder ps) s
   \<and> (\<forall>j < length ps. refill_outcome s (in_key (fst (ps ! j))) (snd (ps ! j)))"

lemma effect_renumbered:
  assumes e: "effect c s h ph q s' h'" and r: "renumbered s1 h s" and sh: "table_shape s"
    and c: "c = reinsertion s1 i" "i < unat (bt_cnt s1)" and small: "unat (bt_cnt s1) < 2 ^ 31"
    and o: "refill_outcome s (in_key c) ph"
    and use: "\<And>p. h p \<noteq> None \<Longrightarrow> p < bt_tableSize s \<and> bt_keys s ! p \<noteq> hole s"
  shows "renumbered s1 h' s'"
  using e
proof cases
  case (claim p iter load)
  have "i < 2 ^ 31" using c(2) small by simp
  then have "unat (of_nat i :: u32) < 2 ^ 31" using le_unat_uoi [of i "bt_cnt s1"] c(2) by simp
  then have "(of_nat i :: u32) \<noteq> sentinel_v" using sentinel_large by auto
  then have q: "q = In_store p (of_nat i)" using claim c(1) by (simp add: reinsertion_def)
  have key: "in_key c = bt_activeKeys s1 ! i" using c(1) by (simp add: reinsertion_def)
  have h': "h' = h(p \<mapsto> In_store p (of_nat i))" using claim q by simp
  have s': "s' = s\<lparr>bt_keys := (bt_keys s)[p := in_key c]\<rparr>" using claim by simp
  have len: "length (bt_keys s) = bt_tableSize s" using sh by (simp add: table_shape_def)
  show ?thesis
    unfolding renumbered_def
  proof (intro allI impI)
    fix r assume r': "r < bt_tableSize s'" "bt_keys s' ! r \<noteq> hole s'"
    show "\<exists>i < unat (bt_cnt s1). number h' s' r = Some (of_nat i) \<and> bt_keys s' ! r = bt_activeKeys s1 ! i"
    proof (cases "r = p")
      case True
      then have "number h' s' r = Some (of_nat i)" "bt_keys s' ! r = bt_activeKeys s1 ! i"
        using h' s' r' True len key by (simp_all add: number_def)
      then show ?thesis using c(2) by blast
    next
      case False
      then have "bt_keys s' ! r = bt_keys s ! r" "number h' s' r = number h s r"
        using h' s' False len by (simp_all add: number_def)
      then show ?thesis using r r' claim unfolding renumbered_def by auto
    qed
  qed
next
  case (store_last p n)
  have "number h' s' = number h s" using store_last use [of p] sh by (auto simp: number_def fun_eq_iff table_shape_def)
  then show ?thesis using r store_last by (simp add: renumbered_def)
next
  case (count p)
  then show ?thesis using o by (simp add: refill_outcome_def)
next
  case (store p n)
  then show ?thesis using c(1) by (simp add: reinsertion_def)
next
  case (enqueue p n)
  then show ?thesis using o by (simp add: refill_outcome_def)
qed (use r in \<open>auto simp: renumbered_def number_def\<close>)

lemma effect_refill_outcome:
  assumes e: "effect c s h ph q s' h'" and o: "refill_outcome s (in_key c) ph" and c: "c = reinsertion s1 i"
    and sent: "in_index c \<noteq> sentinel_v"
    and use: "\<And>p. h p \<noteq> None \<Longrightarrow> p < bt_tableSize s" and sh: "table_shape s"
  shows "refill_outcome s' (in_key c) q"
  using e
proof cases
  case (look iter load)
  then show ?thesis by (cases q) (auto simp: refill_outcome_def)
next
  case (store_last p n)
  then have "p < length (bt_keys s)" using use [of p] sh by (simp add: table_shape_def)
  then have "in_key c \<in> set (bt_keys s)" using store_last nth_mem by metis
  then show ?thesis using store_last by (simp add: refill_outcome_def)
qed (use o c sent in \<open>auto simp: refill_outcome_def reinsertion_def\<close>)

lemma refill_keeps:
  assumes e: "effect c s h ph q s' h'" and g: "grows s s'" and sh: "table_shape s" "table_shape s'"
    and k: "k \<noteq> hole s" and o: "refill_outcome s k x"
  shows "refill_outcome s' k x"
proof -
  have "\<not> bt_buildSuccess s \<Longrightarrow> \<not> bt_buildSuccess s'" using e by cases auto
  then show ?thesis using o keys_grow [OF g sh _ k] by (auto simp: refill_outcome_def split: in_phase.splits)
qed

lemma refill_step:
  assumes inv: "refill_inv s1 ps s" and small: "unat (bt_cnt s1) < 2 ^ 31" and mv: "batch_move i ps s = Some r"
  shows "\<exists>ps' s'. r = Some (ps', s') \<and> refill_inv s1 ps' s'"
proof -
  have b: "batch_ok ps s" and g0: "grows s1 s" and n: "renumbered s1 (holder ps) s"
      and same: "bt_activeKeys s = bt_activeKeys s1" "bt_cnt s = bt_cnt s1"
      and calls: "map fst ps = map (reinsertion s1) [0..<unat (bt_cnt s1)]"
    using inv unfolding refill_inv_def by blast+
  have o: "refill_outcome s (in_key (fst (ps ! j))) (snd (ps ! j))" if "j < length ps" for j
    using inv that unfolding refill_inv_def by blast
  obtain c ph where i: "i < length ps" "ps ! i = (c, ph)" and act: "\<not> returned ph"
      and r: "r = map_option (\<lambda>(q, s). (ps[i := (c, q)], s)) (insert_step c ph s)"
    using mv by (cases "ps ! i") (auto simp: batch_move_def returned_def split: if_splits in_phase.splits)
  have len: "length ps = unat (bt_cnt s1)" using arg_cong [OF calls, of length] by simp
  have "map fst ps ! i = reinsertion s1 i" using i(1) len calls by simp
  then have c: "c = reinsertion s1 i" "i < unat (bt_cnt s1)" using i len by simp_all
  have pl: "placed s" and sh: "table_shape s" using batch_okD(1) [OF b] by (simp_all add: placed_def)
  have use: "holder ps p \<noteq> None \<Longrightarrow> p < bt_tableSize s \<and> bt_keys s ! p \<noteq> hole s" for p using holder_in_use [OF b] .
  have oc: "refill_outcome s (in_key c) ph" using o [OF i(1)] i(2) by simp
  then have "number_ok s ph" by (auto simp: number_ok_def refill_outcome_def split: in_phase.splits)
  then obtain q s' where st: "insert_step c ph s = Some (q, s')" "grows s s'" "batch_ok (ps[i := (c, q)]) s'"
      "effect c s (holder ps) ph q s' (holder (ps[i := (c, q)]))"
    using batch_step [OF b i _ act] by blast
  let ?ps = "ps[i := (c, q)]"
  have sh': "table_shape s'" using batch_okD(1) [OF st(3)] by (simp add: placed_def)
  have "unat (of_nat i :: u32) < 2 ^ 31" using le_unat_uoi [of i "bt_cnt s1"] c(2) small by simp
  then have sent: "in_index c \<noteq> sentinel_v" using sentinel_large c(1) by (auto simp: reinsertion_def)
  have "renumbered s1 (holder ?ps) s'" by (rule effect_renumbered [OF st(4) n sh c small oc]) (use use in blast)
  moreover have "bt_activeKeys s' = bt_activeKeys s \<and> bt_cnt s' = bt_cnt s"
    using st(4) oc by cases (auto simp: refill_outcome_def)
  moreover have "map fst ?ps = map fst ps" using i by (simp add: map_update list_update_same_conv)
  moreover have "refill_outcome s' (in_key (fst (?ps ! j))) (snd (?ps ! j))" if j: "j < length ps" for j
  proof (cases "j = i")
    case True
    have "refill_outcome s' (in_key c) q" by (rule effect_refill_outcome [OF st(4) oc c(1) sent _ sh]) (use use in blast)
    then show ?thesis using True i by simp
  next
    case False
    then show ?thesis using refill_keeps [OF st(4,2) sh sh' batch_okD(4) [OF b j] o [OF j]] by simp
  qed
  ultimately have "refill_inv s1 ?ps s'"
    using st(3) grows_trans [OF g0 st(2)] same calls by (simp add: refill_inv_def)
  then show ?thesis using r st(1) by simp
qed

lemma refill_reaches:
  assumes "batch_reaches ps0 t0 r" and "refill_inv s1 ps0 t0" and "unat (bt_cnt s1) < 2 ^ 31"
  shows "\<exists>ps s. r = Some (ps, s) \<and> refill_inv s1 ps s"
  using assms
proof induction
  case (move ps s i r)
  then show ?case using refill_step by fastforce
qed simp

lemma resize_array_nth:
  "i < n \<Longrightarrow> i < length xs \<Longrightarrow> resize_array m n xs ! i = xs ! i" and length_resize_array: "length (resize_array m n xs) = n"
  by (simp_all add: resize_array_def nth_append min_def)

lemma refill_settled:
  assumes s1: "distinct (take (unat (bt_cnt s1)) (bt_activeKeys s1))" "unat (bt_cnt s1) \<le> length (bt_activeKeys s1)"
      "hole s1 \<notin> set (take (unat (bt_cnt s1)) (bt_activeKeys s1))"
    and inv: "refill_inv s1 ps s" and ret: "all_returned ps" and ok: "bt_buildSuccess s"
  shows "settled s \<and> entries s = take (unat (bt_cnt s1)) (bt_activeKeys s1)"
proof -
  let ?c = "unat (bt_cnt s1)"
  have b: "batch_ok ps s" and g: "grows s1 s" and n: "renumbered s1 (\<lambda>p. None) s"
      and same: "bt_activeKeys s = bt_activeKeys s1" "bt_cnt s = bt_cnt s1"
      and calls: "map fst ps = map (reinsertion s1) [0..<?c]"
    using inv returned_holder [OF ret] unfolding refill_inv_def by simp_all
  have pl: "placed s" using batch_okD(1) [OF b] .
  have idx: "bt_activeKeys s1 ! i = bt_activeKeys s1 ! j \<Longrightarrow> i < ?c \<Longrightarrow> j < ?c \<Longrightarrow> i = j" for i j
    using s1(1,2) by (auto simp: distinct_conv_nth)
  have slot: "\<exists>i < ?c. number (\<lambda>p. None) s p = Some (of_nat i) \<and> bt_keys s ! p = bt_activeKeys s1 ! i"
    if "p < bt_tableSize s" "bt_keys s ! p \<noteq> hole s" for p
    using n that unfolding renumbered_def by blast
  have word: "unat (of_nat i :: u32) = i" if "i < ?c" for i using le_unat_uoi [of i "bt_cnt s1"] that by simp
  have "unat m < ?c \<and> bt_activeKeys s ! unat m = bt_keys s ! p" if num: "number (\<lambda>p. None) s p = Some m" for p m
  proof -
    obtain i where "i < ?c" "Some m = Some (of_nat i)" "bt_keys s ! p = bt_activeKeys s1 ! i"
      using slot number_Some [OF num] num by metis
    then show ?thesis using word same by simp
  qed
  moreover have "\<exists>p. number (\<lambda>p. None) s p = Some (of_nat m)" if m: "m < ?c" for m
  proof -
    have len: "length ps = ?c" using arg_cong [OF calls, of length] by simp
    have "map fst ps ! m = reinsertion s1 m" using m calls by simp
    then have k: "in_key (fst (ps ! m)) = bt_activeKeys s1 ! m" using m len by (simp add: reinsertion_def)
    obtain v where "snd (ps ! m) = In_done v" using returned_at [OF ret] m len by metis
    moreover have "refill_outcome s (in_key (fst (ps ! m))) (snd (ps ! m))"
      using inv m len unfolding refill_inv_def by simp
    ultimately have "bt_activeKeys s1 ! m \<in> set (bt_keys s)" using k ok by (simp add: refill_outcome_def)
    then obtain p where p: "p < bt_tableSize s" "bt_keys s ! p = bt_activeKeys s1 ! m"
      using pl by (auto simp: in_set_conv_nth placed_def table_shape_def)
    have "bt_activeKeys s1 ! m \<in> set (take ?c (bt_activeKeys s1))" using m s1(2) by (auto simp: in_set_conv_nth)
    then have "bt_keys s ! p \<noteq> hole s" using p(2) s1(3) g by (auto simp: grows_def)
    then show ?thesis using slot [OF p(1)] p(2) idx m by metis
  qed
  ultimately have "settled s" using pl same unfolding settled_def by simp
  then show ?thesis using same by (simp add: entries_def)
qed

lemma empty_batch: "batch_reaches [] s r \<Longrightarrow> r = Some ([], s)"
  by (induction rule: batch_reaches.induct) (auto simp: batch_move_def)

text \<open>
  C21: Growing keeps the table: under every interleaving of the insertions that fill the new table, no
  access leaves an array, and when all have returned and none of them has cleared the flag, the table is at rest
  with the same keys under the same numbers, and it is larger than before if the capacity asked for was.
\<close>

theorem bht_resize_keeps:
  assumes st: "settled s" and size: "evaluateTableSize n < 2 ^ 31"
    and rs: "bht_resize memory key_memory n s = (s1, ps)" and run: "batch_reaches ps s1 r"
  shows "\<exists>qs t. r = Some (qs, t) \<and> bt_tableSize t = max (bt_tableSize s) (evaluateTableSize n)
    \<and> (if all_returned qs \<and> bt_buildSuccess t then settled t \<and> entries t = entries s else True)"
proof (cases "evaluateTableSize n \<le> bt_tableSize s")
  case True
  then have "s1 = s" "ps = []" using rs by (simp_all add: bht_resize_def Let_def)
  then have "r = Some ([], s)" using run empty_batch by blast
  then show ?thesis using True st by (simp add: max_def)
next
  case False
  let ?n = "evaluateTableSize n" and ?c = "unat (bt_cnt s)"
  have s1: "bt_tableSize s1 = ?n" "bt_keys s1 = replicate ?n (hole s)" "length (bt_indices s1) = ?n" "bt_cnt s1 = bt_cnt s"
      "bt_activeKeys s1 = resize_array key_memory ?n (bt_activeKeys s)" "bt_dim s1 = bt_dim s"
      "ps = start_batch (map (reinsertion s1) [0..<?c]) s1"
    using rs False by (auto simp: bht_resize_def bht_reset_def Let_def length_resize_array)
  have shape: "table_shape s1" using s1 size table_size_buckets [of n]
    by (simp add: table_shape_def numBuckets_def length_resize_array)
  have pl: "placed s1" using empty_placed [OF shape] s1 by simp
  have le: "?c \<le> bt_tableSize s" using numbers_bound [OF settled_numbers [OF st]] .
  then have c: "?c < ?n" "?c \<le> length (bt_activeKeys s)" "?c < 2 ^ 31"
    using False settledD(1) [OF st] by (auto simp: placed_def table_shape_def)
  have act: "take (unat (bt_cnt s1)) (bt_activeKeys s1) = entries s"
    using c s1(4,5) by (intro nth_equalityI) (auto simp: entries_def length_resize_array resize_array_nth)
  have key: "bt_activeKeys s1 ! i \<in> set (entries s)" if "i < ?c" for i
    using that c s1(5) by (auto simp: entries_def resize_array_nth in_set_conv_nth)
  have "bt_activeKeys s1 ! i \<noteq> hole s" if "i < ?c" for i using key [OF that] hole_entries [OF st] by metis
  then have ok: "batch_ok ps s1"
    unfolding s1(7) using s1(6) by (intro start_ok [OF pl]) (auto simp: list_all_iff reinsertion_def)
  have nb: "0 < numBuckets s1" using shape c(1) s1(1) by (intro gr0I) (simp add: table_shape_def)
  have "renumbered s1 h s1" for h using s1(1,2,6) by (simp add: renumbered_def)
  moreover have "refill_outcome s1 k (insert_start s1)" for k using nb by (simp add: refill_outcome_def insert_start_def)
  moreover have "map fst ps = map (reinsertion s1) [0..<unat (bt_cnt s1)]" using s1(4,7) by (simp add: start_batch_def comp_def)
  moreover have "snd (ps ! j) = insert_start s1" if "j < length ps" for j using that s1(7) by (simp add: start_batch_def)
  ultimately have "refill_inv s1 ps s1" using ok by (simp add: refill_inv_def grows_same)
  then obtain qs t where r: "r = Some (qs, t)" and inv: "refill_inv s1 qs t"
    using refill_reaches [OF run, of s1] c(3) s1(4) by auto
  have "bt_tableSize t = ?n" using inv s1(1) by (simp add: refill_inv_def grows_def)
  moreover have "settled t \<and> entries t = entries s" if "all_returned qs" "bt_buildSuccess t"
  proof -
    have d: "distinct (entries s)" using entries_distinct [OF st] .
    have "unat (bt_cnt s1) \<le> length (bt_activeKeys s1)" using s1(4,5) c(1) by (simp add: length_resize_array)
    moreover have "hole s1 \<notin> set (entries s)" using hole_entries [OF st] s1(6) by simp
    ultimately show ?thesis using refill_settled [OF _ _ _ inv that] d act by simp
  qed
  ultimately show ?thesis using r False by (simp add: max_def)
qed

lemma bht_resize_keeps_witness:
  "\<exists>s t. entries s = [[7], [5]] \<and> bt_tableSize s = 16 \<and> settled t \<and> entries t = [[7], [5]] \<and> bt_tableSize t = 80"
proof -
  have run: "batch_gives small_moves (start_batch small_calls small_table) small_table
      (\<lambda>ps s. all_returned ps \<and> entries s = [[7], [5]] \<and> bt_tableSize s = 16
         \<and> (case bht_resize (\<lambda>i. 0) (\<lambda>i. []) 20 s of (s1, qs) \<Rightarrow>
              batch_gives [0, 1, 1, 0, 0, 0, 1, 1] qs s1 (\<lambda>qs t. all_returned qs \<and> bt_buildSuccess t)))"
    by code_simp
  obtain ps s where s: "batch_reaches (start_batch small_calls small_table) small_table (Some (ps, s))"
      "all_returned ps" "entries s = [[7], [5]]" "bt_tableSize s = 16"
      "case bht_resize (\<lambda>i. 0) (\<lambda>i. []) 20 s of (s1, qs) \<Rightarrow>
         batch_gives [0, 1, 1, 0, 0, 0, 1, 1] qs s1 (\<lambda>qs t. all_returned qs \<and> bt_buildSuccess t)"
    using batch_gives_reaches [OF run] by (elim exE conjE) (rule that)
  obtain s1 qs where rs: "bht_resize (\<lambda>i. 0) (\<lambda>i. []) 20 s = (s1, qs)" by fastforce
  then have "batch_gives [0, 1, 1, 0, 0, 0, 1, 1] qs s1 (\<lambda>qs t. all_returned qs \<and> bt_buildSuccess t)" using s(5) by simp
  from batch_gives_reaches [OF this]
  obtain qs' t where t: "batch_reaches qs s1 (Some (qs', t))" "all_returned qs'" "bt_buildSuccess t" by blast
  have st: "settled s" using auto_settled auto_reaches [OF s(1) start_auto [OF small_settled small_calls_ok]] s(2) by blast
  have "evaluateTableSize 20 = 80" by code_simp
  then show ?thesis using bht_resize_keeps [OF st _ rs t(1)] s(3,4) t(2,3) by auto
qed

section \<open>Reordering\<close>

definition reorder_from :: "bool \<Rightarrow> nat list \<Rightarrow> nat \<Rightarrow> nat" where
  "reorder_from scatter m i = (if scatter then i else m ! i)"

definition reorder_to :: "bool \<Rightarrow> nat list \<Rightarrow> nat \<Rightarrow> nat" where
  "reorder_to scatter m i = (if scatter then m ! i else i)"

text \<open>What the loop has reached when it has visited the indices \<open>D\<close>.\<close>

definition reordered :: "bool \<Rightarrow> nat list \<Rightarrow> bht \<Rightarrow> nat \<Rightarrow> nat set \<Rightarrow> u32 list \<Rightarrow> key list \<Rightarrow> bool" where
  "reordered scatter m s capacity D xs ordered \<longleftrightarrow> length xs = length (bt_indices s) \<and> length ordered = capacity
   \<and> (\<forall>i \<in> D. ordered ! reorder_to scatter m i = bt_activeKeys s ! reorder_from scatter m i
        \<and> (\<forall>p < bt_tableSize s. bt_keys s ! p = bt_activeKeys s ! reorder_from scatter m i
             \<longrightarrow> xs ! p = of_nat (reorder_to scatter m i)))"

lemma query_slot_indices: "query_slot k (s\<lparr>bt_indices := xs\<rparr>) = query_slot k s"
proof -
  have off: "bucket_offset (s\<lparr>bt_indices := xs\<rparr>) k iter = bucket_offset s k iter" for iter
    by (simp add: bucket_offset_def numBuckets_def)
  have "query_rounds (s\<lparr>bt_indices := xs\<rparr>) k is = query_rounds s k is" for "is"
  proof (induction "is")
    case (Cons i "is")
    have "bt_keys (s\<lparr>bt_indices := xs\<rparr>) = bt_keys s" by simp
    then show ?case unfolding query_rounds.simps off Cons.IH by (simp only:)
  qed simp
  then show ?thesis by (simp add: query_slot_def numBuckets_def del: query_rounds.simps)
qed

lemma reorder_step:
  assumes st: "settled s" and m: "distinct m" "length m = unat (bt_cnt s)" "set m = {0..<unat (bt_cnt s)}"
    and cap: "bt_tableSize s \<le> capacity" and i: "i < unat (bt_cnt s)" "i \<notin> D" and D: "D \<subseteq> {0..<unat (bt_cnt s)}"
    and x: "reordered scatter m s capacity D xs ordered"
  shows "\<exists>ys os. reorder_entry scatter m i (s\<lparr>bt_indices := xs\<rparr>, ordered) = Some (s\<lparr>bt_indices := ys\<rparr>, os)
    \<and> reordered scatter m s capacity (insert i D) ys os"
proof -
  let ?from = "reorder_from scatter m" and ?to = "reorder_to scatter m" and ?c = "unat (bt_cnt s)"
  have t: "length xs = length (bt_indices s)" "length ordered = capacity"
    and fin: "\<And>j. j \<in> D \<Longrightarrow> ordered ! ?to j = bt_activeKeys s ! ?from j"
      "\<And>j p. j \<in> D \<Longrightarrow> p < bt_tableSize s \<Longrightarrow> bt_keys s ! p = bt_activeKeys s ! ?from j \<Longrightarrow> xs ! p = of_nat (?to j)"
    using x by (auto simp: reordered_def)
  have perm: "?from j < ?c" "?to j < ?c" if "j < ?c" for j
    using that m nth_mem [of j m] by (auto simp: reorder_from_def reorder_to_def)
  have inj: "?from j = ?from l \<longleftrightarrow> j = l" "?to j = ?to l \<longleftrightarrow> j = l" if "j < ?c" "l < ?c" for j l
    using that m(1,2) by (auto simp: reorder_from_def reorder_to_def nth_eq_iff_index_eq)
  have dist: "distinct (entries s)" using entries_distinct [OF st] .
  have pl: "placed s" using settledD(1) [OF st] .
  have c: "?c \<le> bt_tableSize s" "?c \<le> length (bt_activeKeys s)"
    using numbers_bound [OF settled_numbers [OF st]] pl by (auto simp: placed_def table_shape_def)
  have nth: "entries s ! j = bt_activeKeys s ! j" if "j < ?c" for j using that by (simp add: entries_def)
  let ?key = "bt_activeKeys s ! ?from i"
  obtain p where p: "p < bt_tableSize s" "bt_keys s ! p = ?key" "bt_keys s ! p \<noteq> hole s"
    using settled_entries(2) [OF st, of "?from i"] settled_entries(1) [OF st] perm(1) [OF i(1)] nth [of "?from i"] by auto
  have slot: "query_slot ?key (s\<lparr>bt_indices := xs\<rparr>) = Some p"
    unfolding query_slot_indices using query_slot_placed [OF pl, of ?key p] p by simp
  let ?xs = "xs[p := of_nat (?to i)]" and ?ordered = "ordered[?to i := ?key]"
  have "reorder_entry scatter m i (s\<lparr>bt_indices := xs\<rparr>, ordered) = Some (s\<lparr>bt_indices := ?xs\<rparr>, ?ordered)"
    using slot perm [OF i(1)] c cap t(2) by (simp add: reorder_entry_def Let_def flip: reorder_from_def reorder_to_def)
  moreover have "reordered scatter m s capacity (insert i D) ?xs ?ordered"
  proof -
    have "?ordered ! ?to j = bt_activeKeys s ! ?from j" if j: "j \<in> insert i D" for j
      using j fin(1) inj(2) [of i j] i D perm(2) [OF i(1)] c cap t(2) by (cases "j = i") auto
    moreover have "?xs ! q = of_nat (?to j)"
      if j: "j \<in> insert i D" and q: "q < bt_tableSize s" "bt_keys s ! q = bt_activeKeys s ! ?from j" for j q
    proof (cases "j = i")
      case True
      then have "q = p" using q p pl unfolding placed_def keys_unique_def by metis
      then show ?thesis using True q t(1) pl by (simp add: placed_def table_shape_def)
    next
      case False
      have jc: "j < ?c" using j False D by auto
      have "bt_activeKeys s ! ?from j \<noteq> ?key"
        using dist inj(1) [OF jc i(1)] False perm(1) [OF jc] perm(1) [OF i(1)] nth settled_entries(1) [OF st]
        by (metis nth_eq_iff_index_eq)
      then have "q \<noteq> p" using q(2) p(2) by auto
      then show ?thesis using fin(2) [of j q] j False q by simp
    qed
    ultimately show ?thesis using t by (auto simp: reordered_def)
  qed
  ultimately show ?thesis by blast
qed

lemma reorder_loop_all:
  assumes st: "settled s" and m: "distinct m" "length m = unat (bt_cnt s)" "set m = {0..<unat (bt_cnt s)}"
    and cap: "bt_tableSize s \<le> capacity" and "distinct is" and "set is \<inter> D = {}" and "set is \<union> D \<subseteq> {0..<unat (bt_cnt s)}"
    and "reordered scatter m s capacity D xs ordered"
  shows "\<exists>ys os. reorder_loop scatter m is (s\<lparr>bt_indices := xs\<rparr>, ordered) = Some (s\<lparr>bt_indices := ys\<rparr>, os)
    \<and> reordered scatter m s capacity (set is \<union> D) ys os"
  using assms(6-)
proof (induction "is" arbitrary: D xs ordered)
  case (Cons i "is")
  obtain ys os where y: "reorder_entry scatter m i (s\<lparr>bt_indices := xs\<rparr>, ordered) = Some (s\<lparr>bt_indices := ys\<rparr>, os)"
      "reordered scatter m s capacity (insert i D) ys os"
    using reorder_step [OF st m cap _ _ _ Cons.prems(4), of i] Cons.prems by auto
  then show ?case using Cons.IH [of "insert i D" ys os] Cons.prems by auto
qed auto

text \<open>
  C22: Reordering by a permutation, whatever the order in which the loop visits the indices, leaves the
  table at rest with the same keys, permuted: key \<open>i\<close> becomes key \<open>map[i]\<close> when scattering, and key
  \<open>map[i]\<close> becomes key \<open>i\<close> when gathering.
\<close>

theorem bht_reorder_permutes:
  assumes st: "settled s" and m: "distinct m" "set m = {0..<length (entries s)}"
    and is': "distinct is" "set is = {0..<length (entries s)}" and cap: "bt_tableSize s \<le> capacity"
  shows "\<exists>t. bht_reorder scatter key_memory capacity m is s = Reordered (Some t) \<and> settled t
    \<and> length (entries t) = length (entries s)
    \<and> list_all (\<lambda>i. if scatter then entries t ! (m ! i) = entries s ! i else entries t ! i = entries s ! (m ! i))
        [0..<length (entries s)]"
proof -
  let ?c = "unat (bt_cnt s)"
  have len: "length (entries s) = ?c" "length m = ?c"
    using settled_entries(1) [OF st] m distinct_card [OF m(1)] by simp_all
  have "reordered scatter m s capacity {} (bt_indices s) (map key_memory [0..<capacity])" by (simp add: reordered_def)
  then obtain xs os where y: "reorder_loop scatter m is (s, map key_memory [0..<capacity]) = Some (s\<lparr>bt_indices := xs\<rparr>, os)"
      and r: "reordered scatter m s capacity (set is) xs os"
    using reorder_loop_all [OF st m(1) len(2) _ cap is'(1), of "{}" scatter "bt_indices s" "map key_memory [0..<capacity]"]
      m(2) is'(2) len(1) by auto
  then have t: "length xs = length (bt_indices s)" "length os = capacity"
      and fin: "\<And>i. i < ?c \<Longrightarrow> os ! reorder_to scatter m i = bt_activeKeys s ! reorder_from scatter m i"
      "\<And>i p. i < ?c \<Longrightarrow> p < bt_tableSize s \<Longrightarrow> bt_keys s ! p = bt_activeKeys s ! reorder_from scatter m i
        \<Longrightarrow> xs ! p = of_nat (reorder_to scatter m i)"
    using is'(2) len(1) by (auto simp: reordered_def)
  define u where "u = s\<lparr>bt_indices := xs, bt_activeKeys := os\<rparr>"
  have res: "bht_reorder scatter key_memory capacity m is s = Reordered (Some u)"
    using y len(2) by (simp add: bht_reorder_def u_def)
  have all: "\<exists>i < ?c. m ! i = j" if "j < ?c" for j using that m(2) len by (metis atLeastLessThan_iff in_set_conv_nth zero_le)
  then have from_ex: "\<exists>i < ?c. reorder_from scatter m i = j" and to_ex: "\<exists>i < ?c. reorder_to scatter m i = j" if "j < ?c" for j
    using that by (auto simp: reorder_from_def reorder_to_def)
  have to: "reorder_to scatter m i < ?c" and frm: "reorder_from scatter m i < ?c" if "i < ?c" for i
    using that m(2) len nth_mem [of i m] by (auto simp: reorder_to_def reorder_from_def)
  have word: "unat (of_nat i :: u32) = i" if "i < ?c" for i using le_unat_uoi [of i "bt_cnt s"] that by simp
  have pl: "placed s" using settledD(1) [OF st] .
  have g: "grows s u" by (simp add: grows_def u_def)
  have "keys_unique u = keys_unique s" by (simp add: keys_unique_def u_def)
  then have "keys_unique u" using pl by (simp add: placed_def)
  moreover have "table_shape u" "prefixed u"
    using pl cap t by (simp_all add: placed_def table_shape_def prefixed_def numBuckets_def u_def)
  moreover have "home u (bt_keys u ! p) p" if "p < bt_tableSize u" "bt_keys u ! p \<noteq> hole u" for p
    using grows_home [OF g, of "bt_keys s ! p" p] that pl by (simp add: placed_def u_def)
  ultimately have "placed u" unfolding placed_def by blast
  have c: "?c \<le> bt_tableSize s" using numbers_bound [OF settled_numbers [OF st]] .
  have slot: "\<exists>i < ?c. bt_keys s ! p = bt_activeKeys s ! reorder_from scatter m i"
    if "p < bt_tableSize s" "bt_keys s ! p \<noteq> hole s" for p
    using from_ex settledD(2,3) [OF st that] by metis
  have "unat n < unat (bt_cnt u) \<and> bt_activeKeys u ! unat n = bt_keys u ! p" if num: "number (\<lambda>p. None) u p = Some n" for p n
  proof -
    have p: "p < bt_tableSize s" "bt_keys s ! p \<noteq> hole s" "n = xs ! p"
      using number_Some [OF num] num by (auto simp: u_def number_def)
    then obtain i where i: "i < ?c" "bt_keys s ! p = bt_activeKeys s ! reorder_from scatter m i" using slot by blast
    then have "n = of_nat (reorder_to scatter m i)" using fin(2) p by simp
    then show ?thesis using word [OF to [OF i(1)]] to [OF i(1)] fin(1) [OF i(1)] i(2) by (simp add: u_def)
  qed
  moreover have "\<exists>p. number (\<lambda>p. None) u p = Some (of_nat l)" if l: "l < unat (bt_cnt u)" for l
  proof -
    have "l < ?c" using l by (simp add: u_def)
    then obtain i where i: "i < ?c" "reorder_to scatter m i = l" using to_ex by blast
    obtain p where p: "p < bt_tableSize s" "bt_keys s ! p = entries s ! reorder_from scatter m i" "bt_keys s ! p \<noteq> hole s"
      using settled_entries(2) [OF st] frm [OF i(1)] len(1) by metis
    then have "xs ! p = of_nat l" using fin(2) [OF i(1) p(1)] frm [OF i(1)] i(2) by (simp add: entries_def)
    then show ?thesis using p by (intro exI [of _ p]) (simp add: number_def u_def)
  qed
  ultimately have settled: "settled u" using \<open>placed u\<close> unfolding settled_def by blast
  moreover have el: "length (entries u) = length (entries s)" using settled_entries(1) [OF settled] len(1) by (simp add: u_def)
  moreover have "entries u ! reorder_to scatter m i = entries s ! reorder_from scatter m i" if "i < ?c" for i
    using fin(1) [OF that] to [OF that] frm [OF that] by (simp add: entries_def u_def)
  then have "list_all (\<lambda>i. if scatter then entries u ! (m ! i) = entries s ! i else entries u ! i = entries s ! (m ! i))
      [0..<length (entries s)]"
    using len(1) by (fastforce simp: list_all_iff reorder_to_def reorder_from_def)
  ultimately show ?thesis using res by blast
qed

lemma bht_reorder_permutes_witness:
  "\<exists>s t. entries s = [[7], [5]] \<and> settled t \<and> entries t = [[5], [7]]
     \<and> bht_reorder False (\<lambda>i. []) 16 [1, 0] [1, 0] s = Reordered (Some t)"
proof -
  obtain s where s: "settled s" "entries s = [[7], [5]]" "bt_tableSize s = 16" using small_filled by blast
  have two: "{0..<length (entries s)} = {1, 0}" using s(2) by auto
  obtain t where t: "bht_reorder False (\<lambda>i. []) 16 [1, 0] [1, 0] s = Reordered (Some t)" "settled t"
      "length (entries t) = 2" "entries t ! 0 = [5]" "entries t ! 1 = [7]"
    using bht_reorder_permutes [OF s(1), of "[1, 0]" "[1, 0]" 16 False "\<lambda>i. []", unfolded two] s(2,3)
    by (auto simp: upt_rec)
  have "entries t = [[5], [7]]" using t(3-5) by (cases "entries t"; cases "tl (entries t)") auto
  then show ?thesis using s(2) t(1,2) by blast
qed

end
