(* ===== verification/Spec2Isabelle.thy ===== *)
theory Spec2Isabelle
  imports Exec_Cpu_Safe Stop_Token Static_Vector Async_Runtime_Deps
    Resource_Props Validation_Json Native_Queue Ring_Buffer Bit_Mask_Props Bit_Pack
    Rb_Theorems Spsc_Props Task_Graph_Run Task_Graph_Races Hash_Table_Resize
begin

text \<open>
  A model of the host-side core of zpc, the parallel-computing library under
  \<open>src/include/zensim\<close>, with the theorems that make it correct. Everything is translated from the
  C++ headers; paths below are relative to that directory.

  THE PROGRAM AND ITS PARTS

  Execution graph (\<open>execution/ExecutionGraph.hpp\<close>). A builder records passes with the resources they
  read and write; \<open>compile\<close> orders the passes by their conflicts, assigns queues and lanes and
  derives synchronisation edges; \<open>executeInline\<close> and \<open>CpuGraphExecutor\<close> run the compiled graph, the
  latter on the thread pool of the asynchronous runtime.
    Exec_Graph    resources, accesses, passes, the builder
    Exec_Compile  \<open>compile\<close>, one definition per stage and per loop body
    Exec_Order    stages 1 and 2: the hazard edges, Kahn's algorithm as a topological sort
    Exec_Lanes    stages 3 to 5: queue classes, lanes, timelines, synchronisation edges
    Exec_Props    what a compiled graph promises
    Exec_Run      \<open>executeInline\<close>, equal to running the passes in declaration order
    Exec_Cpu      the CPU executor as a step relation over its tasks and its root loop
    Exec_Cpu_Safe its safety and termination when no task finishes before the root loop has ended

  Asynchronous runtime (\<open>execution/AsyncRuntime.hpp\<close>, \<open>ZpcAsync.hpp\<close>). Submissions of user steps to
  executors, completed through events with callbacks, ordered by prerequisites, suspended, resumed
  and cancelled by stop tokens. Threads interleave: a thread is a stack of frames and one move
  performs the atomic part of its top frame.
    Async_Types   codes, endpoints and descriptors
    Ref_Count     handles that count their references by hand
    Stop_Token    stop sources and tokens over counted cells
    Static_Vector the fixed-capacity vector of \<open>ZpcAsync.hpp\<close>
    Small_String  \<open>BasicSmallString\<close> of \<open>types/SmallVector.hpp\<close>, the type of all names
    Async_Runtime the event, the runtime, the inline and the pool executor, and the moves of threads
    Async_Runtime_Inv, _Own, _Calls, _Deps   invariants under every interleaving: references, the
                  in-flight flag as a lock, callbacks, prerequisites
    Async_Runtime_Seq  one thread running a call to its end

  Scheduler and task graph (\<open>execution/AsyncScheduler.hpp\<close>, \<open>ZpcTaskGraph.hpp\<close>). Worker threads take
  functions, coroutines and nodes of a graph from their own queue, the shared one or each other's; a
  node that finishes enqueues the successors it leaves without dependencies. A thread is again a
  stack of frames; the queues are those of a vendored library, whose choices are arguments of a move.
    Task_Scheduler  nodes, graphs, workers, every call and the loop of a worker as moves
    Task_Scheduler_Inv, Task_Graph_Inv  how each move changes the queued tasks, the counter, the
                  dependency counters and the places that hold a node
    Task_Graph_Props  the job counter is exact up to suspensions, nodes run in order
    Task_Graph_Run  a graph whose submission ends before the workers start runs to its end
    Task_Graph_Races  runs on which submission, waiting and waking go wrong

  Services on the runtime.
    Resource_Manager, Resource_Props  \<open>execution/AsyncResourceManager.hpp\<close>: leases, dirty and stale
                  resources, maintenance submissions, collection
    Backend_Profile  \<open>execution/AsyncBackendProfile.hpp\<close>: selection between the Vulkan and CUDA
                  backends by scores
    Native_Queue  \<open>execution/AsyncNativeQueueAdapter.hpp\<close>: an executor that drives a native queue

  Validation reports (\<open>execution/Validation*.hpp\<close>): records of a test run, their comparison with a
  baseline, printing as JSON and text, reading back.
    Validation_Schema, Validation_Compare, Validation_Compare_Props, Validation_Format,
    Validation_Persistence, Validation_Json; Double_Text holds the double-precision numbers they
    contain and the text \<open>operator<<\<close> prints for them

  Containers and bits.
    Rb_Map, Rb_Iterate, Rb_Erase  \<open>container/RBTreeMap.hpp\<close>: a red-black tree of nodes with parent
                  pointers. Nodes live in a store; address 0 is the null pointer, and a dereference
                  of null or of a deleted node, like a failed assertion, is the value None
    Rb_Tree       the trees the store holds, with holes, and repairs of them as functions on trees
    Rb_Heap       what it means that the store holds a tree, and the effect of each pointer update
    Rb_Insert, Rb_Query, Rb_Walk, Rb_Remove  insertion, lookup, iteration and removal on the store
                  carry out the functions on trees
    Rb_Theorems   the map as a whole: it refines finite maps and stays balanced
    Hash_Table    the spatial hash table \<open>bht\<close> of \<open>container/Bht.hpp\<close> and its hashers
                  (\<open>py_interop/HashUtils.hpp\<close>, \<open>math/Hash.hpp\<close>): insertion as moves of calls that
                  interleave, lookup, growing, reordering
    Hash_Table_Inv, Hash_Table_Batch  where keys may stand, and what a move of an insertion keeps
    Hash_Table_Props  numbers of keys, and the table at rest
    Hash_Table_Theorems, Hash_Table_Resize  insertion and lookup; growing and reordering
    Spsc_Queue, Spsc_Props  \<open>SpscQueue\<close> of \<open>container/ConcurrentQueue.hpp\<close>
    Ring_Buffer   \<open>container/RingBuffer.hpp\<close>
    Bit_Ops       \<open>math/bit/Bits.h\<close> and the host intrinsics of \<open>execution/Intrinsics.hpp\<close>
    Bit_Mask      \<open>types/Mask.hpp\<close>
    Bit_Props, Bit_Theorems, Bit_Pack, Bit_Mask_Props   their properties

  Zpc_Prelude holds what all share; Simulation states the contract of a data structure with an
  abstraction function, as a locale that Ring_Buffer, Bit_Mask_Props
  and Rb_Theorems interpret.

  HOW STATE AND CODE CORRESPOND

  Structs are records with the members' names, enumerations are datatypes, machine integers that can
  wrap are words (\<open>u8\<close>, \<open>u32\<close>, \<open>u64\<close>), indices and sizes that are checked against a container are
  naturals, \<open>int\<close> counters that can overflow are checked integers. Functions return the changed state;
  a throw, a failed lookup, undefined behaviour (an index outside an array, a shift by the width, a
  use of a deleted cell) and a loop that does not end are values of an option or a sum. Objects that
  are shared through pointers live in a store and are named by their position in it.

  WHAT THE THEOREMS SHOW

  For the graph: a compiled order is a permutation in which conflicting passes keep their declaration
  order, compile fails only on a pass in conflict with itself, lanes and synchronisation edges are
  sound and complete, inline execution cannot be told from declaration order, the CPU executor is
  safe and completes. For the runtime: a submission is held by one place while in flight, terminal
  statuses are final, callbacks run once per registration, prerequisites come first, inline
  submissions finish. For the scheduler: nodes run after the nodes they depend on under every
  interleaving, and a graph that is submitted before the workers start completes, each node once;
  without that restriction a node can be started twice. For the manager: leases protect payloads, which are destroyed once. For
  reports: comparison pairs records by identity and counts them, the printers render documents, a
  saved report loads again up to the six digits printed of a double. For containers and bits:
  refinement of lists, sets and finite maps, the red-black balance and with it logarithmic height,
  parallel insertions into the hash table that number every key once, lookup,
  growing and reordering that keep the keys, ordered iteration, removal of everything but a leaf beside other entries (where the code reads
  the node it has deleted), round trips of Morton codes and of packing, agreement of the bit
  tricks with plain definitions. Where the code does less than its comments promise, a lemma in the
  theory of the component says exactly what happens.

  BOUNDS AND FUEL

  Loops of the source whose end depends on data are recursive functions with a termination proof, or
  partial functions of the option type with a theorem that they return. \<open>drain n\<close> of
  Async_Runtime_Seq stops after \<open>n\<close> moves of a thread; seven are enough for an inline submission and
  two for each drain of the native queue, as the theorems there state by returning \<open>Some\<close>. The
  exponent searches of Double_Text run over 310 positive and 330 negative decimal exponents, more
  than the doubles reach. The theorem on leases assumes fewer than 2 to the power 64 operations, the
  range of a lease count, and the theorem on prerequisites fewer than that many of them; a counted
  handle assumes fewer than 2 to the power 32 holders.

  NOT MODELLED

  Memory orders, futexes and spinning: moves of threads are atomic and sequentially consistent, and a
  blocked thread makes no move. Default branches of switches over enumerations that only a cast can
  reach. Failing allocations. Errors while a file is read or written, beyond a stream that reports
  them. What coroutines and functions do, beyond what they enqueue, suspend or return. The JSON
  library is a parameter of the readers, CUDA and Vulkan contexts are records of operations. Of
  \<open>RBTreeMap.hpp\<close> \<open>removeAll\<close> and the overloads of \<open>erase\<close> for constant iterators, which cannot be
  instantiated. Of \<open>Bits.h\<close> the deprecated reinterpretations of floats and \<open>float_construct\<close>; of
  \<open>Intrinsics.hpp\<close> the device versions. Of \<open>Bht.hpp\<close> the versions for devices and cooperative
  tiles, copying and serialisation, and the lock of a slot, which is taken as one atomic access.

  Left out as well: the plain C boundary \<open>execution/AsyncRuntimeAbi.hpp\<close>, which converts handles and
  structs around the operations that are modelled; the awaitables, which are adapters between the
  compiler's coroutines and the event; memory pools, allocators and resources, which work on raw
  storage of the system or the device; the other hash tables (\<open>bcht\<close>, \<open>HashTable\<close>), sparse grids,
  tile vectors and bounding volume
  hierarchies, whose operations are templates over device policies; geometry, simulation, physics and
  matrix code, which is floating-point numerics over templates; the CUDA, MUSA, SYCL, OpenMP, Vulkan
  and GPU layers and the Python interoperation, which are glue to libraries that are not in the
  repository; input, camera, profiling and file formats, which are I/O or belong to the layers above.
\<close>

end
